(* ===== verification/Prelude.thy ===== *)
theory Prelude
  imports Complex_Main
begin

text \<open>
  Shared vocabulary of the development: the shape of an effectful Python call, the session
  of \<^verbatim>\<open>db/transaction.py\<close> is built on it in its own theory, and the generic lemmas on
  lists, maps and rounding that several components use.

  A Python call that may raise and may change a state \<open>'s\<close> is a function
  \<open>'s \<Rightarrow> ('e + 'a) \<times> 's\<close>: \<open>Inl e\<close> is the exception that leaves the call, \<open>Inr a\<close> the value
  it returns, and the second component is the state it leaves behind in either case.
  Python's \<^verbatim>\<open>float\<close> seconds are modelled as exact reals, Python's unbounded integers as
  \<open>int\<close>.
\<close>

named_theorems model_defs "definitions that component proofs unfold together"
named_theorems frame_simps "fields an operation leaves unchanged"

type_synonym ('s, 'e, 'a) action = "'s \<Rightarrow> ('e + 'a) \<times> 's"

type_synonym uuid = nat
type_synonym micros = int \<comment> \<open>a \<^verbatim>\<open>datetime\<close> or \<^verbatim>\<open>timedelta\<close>, in microseconds\<close>

subsection \<open>Dictionaries\<close>

text \<open>A dict in insertion order; assigning a key replaces its value in place.\<close>

fun dict_set :: "'k \<Rightarrow> 'v \<Rightarrow> ('k \<times> 'v) list \<Rightarrow> ('k \<times> 'v) list" where
  "dict_set k v [] = [(k, v)]"
| "dict_set k v ((k', v') # kvs) = (if k' = k then (k, v) # kvs else (k', v') # dict_set k v kvs)"

definition dict_of :: "('k \<times> 'v) list \<Rightarrow> ('k \<times> 'v) list" where
  "dict_of kvs = fold (\<lambda>(k, v). dict_set k v) kvs []"

lemma dict_set_new: "k \<notin> fst ` set kvs \<Longrightarrow> dict_set k v kvs = kvs @ [(k, v)]"
  by (induction kvs) auto

lemma map_of_dict_set: "map_of (dict_set k v kvs) = (map_of kvs)(k \<mapsto> v)"
  by (induction kvs) auto

lemma keys_dict_set: "fst ` set (dict_set k v kvs) = insert k (fst ` set kvs)"
proof (induction kvs)
  case (Cons kv kvs)
  then show ?case by (cases kv) (simp add: insert_commute)
qed simp

lemma distinct_dict_set: "distinct (map fst kvs) \<Longrightarrow> distinct (map fst (dict_set k v kvs))"
proof (induction kvs)
  case (Cons kv kvs)
  then show ?case
    using keys_dict_set [of k v kvs] by (cases kv) (auto simp flip: set_map)
qed simp

subsection \<open>Lists\<close>

lemma sum_list_nonneg_filter:
  fixes f :: "'a \<Rightarrow> int"
  assumes "\<And>x. x \<in> set xs \<Longrightarrow> P x \<Longrightarrow> 0 \<le> f x"
  shows "0 \<le> sum_list (map f (filter P xs))"
  using assms by (induction xs) auto

subsection \<open>Floor division by a positive constant\<close>

lemma mult_div_le_whole:
  fixes n k m :: int
  assumes "0 \<le> n" and "k \<le> m" and "0 < m"
  shows "n * k div m \<le> n"
proof -
  have "n * k div m \<le> n * m div m"
    using assms by (intro zdiv_mono1 mult_left_mono) auto
  then show ?thesis using assms by simp
qed

lemma mult_div_nonneg:
  fixes n k m :: int
  assumes "0 \<le> n" and "0 \<le> k" and "0 < m"
  shows "0 \<le> n * k div m"
  using assms by (simp add: pos_imp_zdiv_nonneg_iff)

lemma mult_div_le_int:
  fixes a m :: int
  assumes "0 < m"
  shows "m * (a div m) \<le> a"
  using mult_div_mod_eq [of m a] pos_mod_sign [OF assms, of a] by linarith

lemma sum_list_div_le:
  fixes m :: int
  assumes m: "0 < m"
  shows "sum_list (map (\<lambda>x. f x div m) xs) \<le> sum_list (map f xs) div m"
proof (induction xs)
  case Nil
  then show ?case by simp
next
  case (Cons x xs)
  from m have "(m * (f x div m) + m * (sum_list (map f xs) div m)) div m
      \<le> (f x + sum_list (map f xs)) div m"
    by (intro zdiv_mono1 add_mono) (simp_all add: mult_div_le_int)
  with m have "f x div m + sum_list (map f xs) div m \<le> (f x + sum_list (map f xs)) div m"
    by (simp flip: distrib_left)
  with Cons show ?case by simp
qed

lemma sum_list_div_gap:
  fixes m :: int
  assumes m: "0 < m"
  shows "sum_list (map f xs) \<le> m * sum_list (map (\<lambda>x. f x div m) xs) + (m - 1) * int (length xs)"
proof (induction xs)
  case Nil
  then show ?case by simp
next
  case (Cons x xs)
  have "f x \<le> m * (f x div m) + (m - 1)"
    using m mult_div_mod_eq [of m "f x"] pos_mod_bound [OF m, of "f x"] by linarith
  with Cons show ?case by (simp add: algebra_simps)
qed

end
