(* ===== verification/Wallet_Money.thy ===== *)
theory Wallet_Money
  imports Prelude
begin

text \<open>
  \<^verbatim>\<open>wallet/money.py\<close>: the OpenPix fee schedule and the split of a transaction total between
  platform, gateway and payees, in integer cents and basis points. A Python \<^verbatim>\<open>dict\<close> of shares
  is an association list in insertion order; \<^verbatim>\<open>//\<close> is \<open>div\<close> on \<open>int\<close>, which rounds down as
  Python does.
\<close>

definition BASIS_POINTS_PER_UNIT :: int where
  "BASIS_POINTS_PER_UNIT = 10000"

record OpenPixFeeTiers =
  low_tier_max_cents :: int
  low_tier_cents :: int
  mid_tier_max_cents :: int
  mid_tier_per_mille :: int
  high_tier_cents :: int
  fixed_cents :: int

definition OPENPIX_FEE_TIERS :: OpenPixFeeTiers where
  "OPENPIX_FEE_TIERS = \<lparr>
     low_tier_max_cents = 6250,
     low_tier_cents = 50,
     mid_tier_max_cents = 62500,
     mid_tier_per_mille = 8,
     high_tier_cents = 500,
     fixed_cents = 100\<rparr>"

text \<open>The \<^verbatim>\<open>ValueError\<close>s of the module, one constructor per \<^verbatim>\<open>raise\<close>.\<close>

datatype money_error =
    TotalNegative
  | AmountsNegative
  | BasisPointsOutOfRange
  | SharesAboveUnit
  | ResidualAmongShares

definition openpix_fee_cents :: "int \<Rightarrow> OpenPixFeeTiers \<Rightarrow> money_error + int" where
  "openpix_fee_cents total_cents tiers =
     (if total_cents < 0 then Inl TotalNegative
      else
        let tier_cents =
          (if total_cents \<le> low_tier_max_cents tiers then low_tier_cents tiers
           else if total_cents \<le> mid_tier_max_cents tiers
             then total_cents * mid_tier_per_mille tiers div 1000
           else high_tier_cents tiers)
        in Inr (tier_cents + fixed_cents tiers))"

record NetSplit =
  ns_total_cents :: int
  ns_platform_cents :: int
  ns_gateway_fee_cents :: int
  ns_net_cents :: int
  ns_shares :: "(string \<times> int) list"

definition shares_total :: "(string \<times> int) list \<Rightarrow> int" where
  "shares_total shares = sum_list (map snd shares)"

definition split_net ::
  "int \<Rightarrow> int \<Rightarrow> int \<Rightarrow> string \<Rightarrow> (string \<times> int) list option \<Rightarrow> money_error + NetSplit" where
  "split_net total_cents platform_bps gateway_fee residual shares_bps =
     (let others = (case shares_bps of None \<Rightarrow> [] | Some m \<Rightarrow> m) in
      if total_cents < 0 \<or> gateway_fee < 0 then Inl AmountsNegative
      else if \<exists>v \<in> set (platform_bps # map snd others). \<not> (0 \<le> v \<and> v \<le> BASIS_POINTS_PER_UNIT)
        then Inl BasisPointsOutOfRange
      else if shares_total others > BASIS_POINTS_PER_UNIT then Inl SharesAboveUnit
      else if residual \<in> set (map fst others) then Inl ResidualAmongShares
      else
        let platform = total_cents * platform_bps div BASIS_POINTS_PER_UNIT;
            net = max (total_cents - platform - gateway_fee) 0;
            shares = map (\<lambda>(name, bps). (name, net * bps div BASIS_POINTS_PER_UNIT)) others
        in Inr \<lparr>
             ns_total_cents = total_cents,
             ns_platform_cents = platform,
             ns_gateway_fee_cents = gateway_fee,
             ns_net_cents = net,
             ns_shares = shares @ [(residual, net - shares_total shares)]\<rparr>)"

subsection \<open>The shape of a successful split\<close>

lemma shares_total_simps [simp]:
  "shares_total [] = 0"
  "shares_total (p # ps) = snd p + shares_total ps"
  "shares_total (ps @ qs) = shares_total ps + shares_total qs"
  by (simp_all add: shares_total_def)

lemma split_net_InrD:
  assumes "split_net total_cents platform_bps fee residual shares_bps = Inr r"
  defines "others \<equiv> case shares_bps of None \<Rightarrow> [] | Some m \<Rightarrow> m"
  shows "0 \<le> total_cents" "0 \<le> fee"
    and "0 \<le> platform_bps" "platform_bps \<le> BASIS_POINTS_PER_UNIT"
    and "\<And>p. p \<in> set others \<Longrightarrow> 0 \<le> snd p \<and> snd p \<le> BASIS_POINTS_PER_UNIT"
    and "shares_total others \<le> BASIS_POINTS_PER_UNIT"
    and "residual \<notin> fst ` set others"
    and "ns_total_cents r = total_cents" "ns_gateway_fee_cents r = fee"
    and "ns_platform_cents r = total_cents * platform_bps div BASIS_POINTS_PER_UNIT"
    and "ns_net_cents r = max (total_cents - ns_platform_cents r - fee) 0"
    and "ns_shares r =
      (let shares = map (\<lambda>(n, b). (n, ns_net_cents r * b div BASIS_POINTS_PER_UNIT)) others
       in shares @ [(residual, ns_net_cents r - shares_total shares)])"
  using assms
  by (auto simp: split_net_def Let_def others_def split: if_splits)

lemma shares_of_net_le:
  assumes "0 \<le> net" and "shares_total others \<le> BASIS_POINTS_PER_UNIT"
  shows "shares_total (map (\<lambda>(n, b). (n, net * b div BASIS_POINTS_PER_UNIT)) others) \<le> net"
proof -
  have "shares_total (map (\<lambda>(n, b). (n, net * b div BASIS_POINTS_PER_UNIT)) others) =
      sum_list (map (\<lambda>p. net * snd p div BASIS_POINTS_PER_UNIT) others)"
    by (simp add: shares_total_def comp_def case_prod_beta)
  also have "\<dots> \<le> sum_list (map (\<lambda>p. net * snd p) others) div BASIS_POINTS_PER_UNIT"
    by (rule sum_list_div_le) (simp add: BASIS_POINTS_PER_UNIT_def)
  also have "sum_list (map (\<lambda>p. net * snd p) others) = net * shares_total others"
    by (simp add: shares_total_def sum_list_const_mult)
  also have "net * shares_total others div BASIS_POINTS_PER_UNIT \<le> net"
    using assms by (intro mult_div_le_whole) (auto simp: BASIS_POINTS_PER_UNIT_def)
  finally show ?thesis .
qed

lemma shares_of_net_gap:
  "net * shares_total others - (BASIS_POINTS_PER_UNIT - 1) * int (length others)
    \<le> BASIS_POINTS_PER_UNIT *
       shares_total (map (\<lambda>(n, b). (n, net * b div BASIS_POINTS_PER_UNIT)) others)"
  using sum_list_div_gap [of BASIS_POINTS_PER_UNIT "\<lambda>p. net * snd p" others]
  by (simp add: shares_total_def sum_list_const_mult comp_def case_prod_beta BASIS_POINTS_PER_UNIT_def)

lemma platform_within_total:
  assumes "split_net total_cents platform_bps fee residual shares_bps = Inr r"
  shows "0 \<le> ns_platform_cents r" "ns_platform_cents r \<le> total_cents"
  using split_net_InrD [OF assms]
  by (auto simp: BASIS_POINTS_PER_UNIT_def intro: mult_div_nonneg mult_div_le_whole)

text \<open>Where every payee of a successful split stands, the residual one last.\<close>

lemma split_net_shares:
  assumes "split_net total_cents platform_bps fee residual shares_bps = Inr r"
  shows "shares_total (ns_shares r) = ns_net_cents r"
    and "\<And>p. p \<in> set (ns_shares r) \<Longrightarrow> 0 \<le> snd p \<and> snd p \<le> ns_net_cents r"
proof -
  note D = split_net_InrD [OF assms]
  let ?others = "case shares_bps of None \<Rightarrow> [] | Some m \<Rightarrow> m"
  let ?cut = "map (\<lambda>(n, b). (n, ns_net_cents r * b div BASIS_POINTS_PER_UNIT)) ?others"
  have net: "0 \<le> ns_net_cents r" using D(11) by simp
  have le: "shares_total ?cut \<le> ns_net_cents r" using net D(6) by (rule shares_of_net_le)
  show "shares_total (ns_shares r) = ns_net_cents r" using D(12) by (simp add: Let_def)
  have each: "0 \<le> snd p \<and> snd p \<le> ns_net_cents r" if "p \<in> set ?cut" for p
  proof -
    from that obtain q where q: "q \<in> set ?others"
      and p: "snd p = ns_net_cents r * snd q div BASIS_POINTS_PER_UNIT" by auto
    show ?thesis
      using D(5) [OF q] net unfolding p
      by (simp add: BASIS_POINTS_PER_UNIT_def mult_div_nonneg mult_div_le_whole)
  qed
  have cut: "0 \<le> shares_total ?cut"
    unfolding shares_total_def
  proof (rule sum_list_nonneg)
    fix c assume "c \<in> set (map snd ?cut)"
    then have "c \<in> snd ` set ?cut" by (simp only: set_map)
    then show "0 \<le> c" using each by blast
  qed
  fix p assume "p \<in> set (ns_shares r)"
  then consider "p \<in> set ?cut" | "p = (residual, ns_net_cents r - shares_total ?cut)"
    using D(12) by (auto simp only: Let_def set_append list.set)
  then show "0 \<le> snd p \<and> snd p \<le> ns_net_cents r"
    by cases (use each le cut in auto)
qed

lemma openpix_default_fee:
  assumes "0 \<le> total_cents"
  shows "openpix_fee_cents total_cents OPENPIX_FEE_TIERS =
    Inr (if total_cents \<le> 6250 then 150 else if total_cents \<le> 62500 then total_cents * 8 div 1000 + 100 else 600)"
  using assms by (simp add: openpix_fee_cents_def OPENPIX_FEE_TIERS_def)

subsection \<open>Properties\<close>

text \<open>
  The money adds up: the shares of a successful split always sum to the net and none is
  negative; whenever the platform cut and the gateway fee fit inside the total, platform,
  gateway and payees together receive exactly the total, and when they do not fit every payee
  gets zero.
\<close>

theorem split_net_conserves:
  assumes "split_net total_cents platform_bps fee residual shares_bps = Inr r"
  shows "shares_total (ns_shares r) = ns_net_cents r \<and>
    (\<forall>p \<in> set (ns_shares r). 0 \<le> snd p) \<and>
    (if ns_platform_cents r + ns_gateway_fee_cents r \<le> total_cents
     then ns_platform_cents r + ns_gateway_fee_cents r + shares_total (ns_shares r) = total_cents
     else \<forall>p \<in> set (ns_shares r). snd p = 0)"
proof -
  note D = split_net_InrD [OF assms] and S = split_net_shares [OF assms]
  have "snd p = 0" if "total_cents < ns_platform_cents r + ns_gateway_fee_cents r"
    and "p \<in> set (ns_shares r)" for p
    using S(2) [OF that(2)] that(1) D(9,11) by simp
  then show ?thesis using S D(9,11) by auto
qed

theorem split_net_conserves_witness:
  "\<exists>r. split_net 10000 1000 180 ''driver'' (Some [(''guide'', 3333)]) = Inr r \<and>
       shares_total (ns_shares r) = ns_net_cents r \<and> ns_net_cents r = 8820 \<and>
       ns_platform_cents r + ns_gateway_fee_cents r + shares_total (ns_shares r) = 10000"
proof -
  let ?r = "\<lparr>ns_total_cents = 10000, ns_platform_cents = 1000, ns_gateway_fee_cents = 180,
     ns_net_cents = 8820, ns_shares = [(''guide'', 2939), (''driver'', 5881)]\<rparr>"
  have "split_net 10000 1000 180 ''driver'' (Some [(''guide'', 3333)]) = Inr ?r"
    by (simp add: split_net_def BASIS_POINTS_PER_UNIT_def)
  from this split_net_conserves [OF this] show ?thesis by auto
qed

text \<open>
  The rounding of every share lands on the residual payee: the residual receives at least its
  exact part of the net, and less than one cent per other payee more than that (stated in basis
  points, so that no rounding enters the statement).
\<close>

theorem split_net_residual_rounding:
  assumes "split_net total_cents platform_bps fee residual (Some others) = Inr r"
  shows "(residual, snd (last (ns_shares r))) \<in> set (ns_shares r) \<and>
    ns_net_cents r * (10000 - shares_total others) \<le> 10000 * snd (last (ns_shares r)) \<and>
    10000 * snd (last (ns_shares r)) \<le>
      ns_net_cents r * (10000 - shares_total others) + 9999 * int (length others)"
proof -
  note D = split_net_InrD [OF assms]
  let ?net = "ns_net_cents r"
  let ?cut = "map (\<lambda>(n, b). (n, ?net * b div BASIS_POINTS_PER_UNIT)) others"
  have last: "last (ns_shares r) = (residual, ?net - shares_total ?cut)"
    using D(12) by (simp add: Let_def)
  have "BASIS_POINTS_PER_UNIT * shares_total ?cut \<le> ?net * shares_total others"
    using sum_list_div_le [of BASIS_POINTS_PER_UNIT "\<lambda>p. ?net * snd p" others]
      mult_div_le_int [of BASIS_POINTS_PER_UNIT "?net * shares_total others"]
    by (simp add: shares_total_def sum_list_const_mult comp_def case_prod_beta
        BASIS_POINTS_PER_UNIT_def)
  moreover note shares_of_net_gap [of ?net others]
  ultimately show ?thesis
    using last D(12) by (simp add: Let_def BASIS_POINTS_PER_UNIT_def algebra_simps)
qed

theorem split_net_residual_rounding_witness:
  "\<exists>r. split_net 10000 1000 180 ''driver'' (Some [(''guide'', 3333)]) = Inr r \<and>
       ns_net_cents r * (10000 - 3333) \<le> 10000 * snd (last (ns_shares r)) \<and>
       10000 * snd (last (ns_shares r)) \<le> ns_net_cents r * (10000 - 3333) + 9999"
proof -
  have "\<exists>r. split_net 10000 1000 180 ''driver'' (Some [(''guide'', 3333)]) = Inr r"
    by (simp add: split_net_def BASIS_POINTS_PER_UNIT_def)
  then obtain r where r: "split_net 10000 1000 180 ''driver'' (Some [(''guide'', 3333)]) = Inr r" ..
  from r split_net_residual_rounding [OF r] show ?thesis by auto
qed

text \<open>
  The negotiated OpenPix schedule never charges a larger transaction less: the default fee is
  monotone in the total (across both tier borders) and stays between R$ 1,50 and R$ 6,00.
\<close>

theorem openpix_fee_monotone:
  assumes "0 \<le> a" and "a \<le> b"
  shows "\<exists>fa fb. openpix_fee_cents a OPENPIX_FEE_TIERS = Inr fa \<and>
    openpix_fee_cents b OPENPIX_FEE_TIERS = Inr fb \<and> 150 \<le> fa \<and> fa \<le> fb \<and> fb \<le> 600"
proof -
  have mid: "50 \<le> t * 8 div 1000 \<and> t * 8 div 1000 \<le> 500" if "6250 < t" "t \<le> 62500" for t :: int
    using that by linarith
  have mono: "a * 8 div 1000 \<le> b * 8 div 1000" using assms(2) by (intro zdiv_mono1) auto
  have "0 \<le> b" using assms by simp
  then show ?thesis
    using assms mid [of a] mid [of b] mono by (auto simp: openpix_default_fee)
qed

theorem openpix_fee_monotone_witness:
  "(0::int) \<le> 6251 \<and> (6251::int) \<le> 62501 \<and>
   (\<exists>fa fb. openpix_fee_cents 6251 OPENPIX_FEE_TIERS = Inr fa \<and>
      openpix_fee_cents 62501 OPENPIX_FEE_TIERS = Inr fb \<and> 150 \<le> fa \<and> fa \<le> fb \<and> fb \<le> 600)"
  using openpix_fee_monotone [of 6251 62501] by simp

end
