(* ===== verification/Transaction.thy ===== *)
theory Transaction
  imports Prelude
begin

text \<open>
  \<^verbatim>\<open>db/transaction.py\<close>: the re-entrant \<^verbatim>\<open>transaction(session)\<close> block and the
  \<^verbatim>\<open>savepoint(session)\<close> block, with the depth counter kept in \<^verbatim>\<open>session.info\<close>.

  A session holds the open-block depth, the durable database (what a COMMIT made permanent) and
  the working database (what statements of this session see). \<open>session_commit\<close> and
  \<open>session_rollback\<close> are the two SQLAlchemy calls the code issues.
\<close>

record 'db session =
  sess_depth :: nat
  sess_durable :: 'db
  sess_working :: 'db

definition session_commit :: "'db session \<Rightarrow> 'db session" where
  "session_commit s = s\<lparr>sess_durable := sess_working s\<rparr>"

definition session_rollback :: "'db session \<Rightarrow> 'db session" where
  "session_rollback s = s\<lparr>sess_working := sess_durable s\<rparr>"

definition transaction_depth :: "'db session \<Rightarrow> nat" where
  "transaction_depth s = sess_depth s"

definition in_transaction :: "'db session \<Rightarrow> bool" where
  "in_transaction s \<longleftrightarrow> transaction_depth s > 0"

definition transaction ::
  "('db session, 'e, 'a) action \<Rightarrow> ('db session, 'e, 'a) action" where
  "transaction body s =
     (let depth = transaction_depth s in
      case body (s\<lparr>sess_depth := depth + 1\<rparr>) of
        (Inl e, s1) \<Rightarrow>
          (let s2 = s1\<lparr>sess_depth := depth\<rparr>
           in (Inl e, if depth = 0 then session_rollback s2 else s2))
      | (Inr a, s1) \<Rightarrow>
          (let s2 = s1\<lparr>sess_depth := depth\<rparr>
           in (Inr a, if depth = 0 then session_commit s2 else s2)))"

text \<open>
  \<^verbatim>\<open>session.begin_nested()\<close> restores the working state of the savepoint when its block
  raises and keeps it otherwise; the \<^verbatim>\<open>finally\<close> restores the depth either way.
\<close>

definition savepoint ::
  "('db session, 'e, 'a) action \<Rightarrow> ('db session, 'e, 'a) action" where
  "savepoint body s =
     (let depth = transaction_depth s in
      case body (s\<lparr>sess_depth := depth + 1\<rparr>) of
        (Inl e, s1) \<Rightarrow> (Inl e, s1\<lparr>sess_working := sess_working s, sess_depth := depth\<rparr>)
      | (Inr a, s1) \<Rightarrow> (Inr a, s1\<lparr>sess_depth := depth\<rparr>))"

text \<open>
  \<^verbatim>\<open>BaseRepository._commit\<close>: a write commits on its own outside a block and only flushes
  inside one.
\<close>

definition repo_commit :: "'db session \<Rightarrow> 'db session" where
  "repo_commit s = (if in_transaction s then s else session_commit s)"

definition repo_write :: "('db \<Rightarrow> 'db) \<Rightarrow> 'db session \<Rightarrow> 'db session" where
  "repo_write f s = repo_commit (s\<lparr>sess_working := f (sess_working s)\<rparr>)"

lemmas session_defs [model_defs] =
  session_commit_def session_rollback_def transaction_depth_def in_transaction_def
  repo_commit_def repo_write_def

subsection \<open>What a body may do\<close>

text \<open>
  A \<^emph>\<open>disciplined\<close> body leaves the depth as it found it and, once inside a block, never makes
  anything durable. Repository writes are disciplined, and so are both blocks over a
  disciplined body: that is the re-entrancy of the module.
\<close>

definition disciplined :: "('db session, 'e, 'a) action \<Rightarrow> bool" where
  "disciplined body \<longleftrightarrow>
     (\<forall>s. sess_depth (snd (body s)) = sess_depth s \<and>
          (0 < sess_depth s \<longrightarrow> sess_durable (snd (body s)) = sess_durable s))"

lemma disciplinedI [intro]:
  assumes "\<And>s. sess_depth (snd (body s)) = sess_depth s"
    and "\<And>s. 0 < sess_depth s \<Longrightarrow> sess_durable (snd (body s)) = sess_durable s"
  shows "disciplined body"
  using assms by (auto simp: disciplined_def)

lemma disciplined_depth: "disciplined body \<Longrightarrow> sess_depth (snd (body s)) = sess_depth s"
  by (simp add: disciplined_def)

lemma disciplined_durable:
  "disciplined body \<Longrightarrow> 0 < sess_depth s \<Longrightarrow> sess_durable (snd (body s)) = sess_durable s"
  by (simp add: disciplined_def)

lemma repo_write_simps [simp]:
  "sess_depth (repo_write f s) = sess_depth s"
  "sess_working (repo_write f s) = f (sess_working s)"
  "sess_durable (repo_write f s) =
     (if sess_depth s = 0 then f (sess_working s) else sess_durable s)"
  by (auto simp: session_defs)

lemma transaction_Inl:
  assumes "body (s\<lparr>sess_depth := Suc (sess_depth s)\<rparr>) = (Inl e, s1)"
  shows "transaction body s =
    (Inl e, if sess_depth s = 0
            then s1\<lparr>sess_depth := 0, sess_working := sess_durable s1\<rparr>
            else s1\<lparr>sess_depth := sess_depth s\<rparr>)"
  using assms by (simp add: transaction_def session_defs)

lemma transaction_Inr:
  assumes "body (s\<lparr>sess_depth := Suc (sess_depth s)\<rparr>) = (Inr a, s1)"
  shows "transaction body s =
    (Inr a, if sess_depth s = 0
            then s1\<lparr>sess_depth := 0, sess_durable := sess_working s1\<rparr>
            else s1\<lparr>sess_depth := sess_depth s\<rparr>)"
  using assms by (simp add: transaction_def session_defs)

lemma fst_transaction [simp]:
  "fst (transaction body s) = fst (body (s\<lparr>sess_depth := Suc (sess_depth s)\<rparr>))"
  by (cases "body (s\<lparr>sess_depth := Suc (sess_depth s)\<rparr>)")
     (simp add: transaction_def session_defs Let_def split: sum.split)

lemma disciplined_transaction:
  assumes "disciplined body"
  shows "disciplined (transaction body)"
proof
  fix s :: "'a session"
  let ?s0 = "s\<lparr>sess_depth := Suc (sess_depth s)\<rparr>"
  obtain r s1 where r: "body ?s0 = (r, s1)" by (cases "body ?s0")
  show "sess_depth (snd (transaction body s)) = sess_depth s"
    using r by (cases r) (simp_all add: transaction_Inl transaction_Inr)
  assume "0 < sess_depth s"
  then show "sess_durable (snd (transaction body s)) = sess_durable s"
    using r disciplined_durable [OF assms, of ?s0]
    by (cases r) (simp_all add: transaction_Inl transaction_Inr)
qed

lemma disciplined_savepoint:
  assumes "disciplined body"
  shows "disciplined (savepoint body)"
proof
  fix s :: "'a session"
  let ?s0 = "s\<lparr>sess_depth := Suc (sess_depth s)\<rparr>"
  obtain r s1 where r: "body ?s0 = (r, s1)" by (cases "body ?s0")
  show "sess_depth (snd (savepoint body s)) = sess_depth s"
    using r by (cases r) (simp_all add: savepoint_def session_defs)
  assume "0 < sess_depth s"
  then show "sess_durable (snd (savepoint body s)) = sess_durable s"
    using r disciplined_durable [OF assms, of ?s0]
    by (cases r) (simp_all add: savepoint_def session_defs)
qed

subsection \<open>Atomicity\<close>

lemma transaction_error_keeps_durable:
  assumes d: "disciplined body" and z: "sess_depth s = 0"
    and e: "fst (transaction body s) = Inl e"
  shows "snd (transaction body s) = s\<lparr>sess_working := sess_durable s\<rparr>"
proof -
  let ?s0 = "s\<lparr>sess_depth := Suc (sess_depth s)\<rparr>"
  obtain r s1 where r: "body ?s0 = (r, s1)" by (cases "body ?s0")
  with e have "r = Inl e" by simp
  with r z have "snd (transaction body s) = s1\<lparr>sess_depth := 0, sess_working := sess_durable s1\<rparr>"
    by (simp add: transaction_Inl)
  moreover have "sess_durable s1 = sess_durable s"
    using disciplined_durable [OF d, of ?s0] r by simp
  ultimately show ?thesis using z by (cases s, cases s1) simp
qed

lemma transaction_nested_keeps_durable:
  assumes d: "disciplined body" and p: "0 < sess_depth s"
  shows "sess_durable (snd (transaction body s)) = sess_durable s"
  using disciplined_durable [OF disciplined_transaction [OF d] p] .

subsection \<open>Properties\<close>

text \<open>
  C6. A block is atomic and re-entrant: for any disciplined body, an exception at the outermost
  level leaves the durable database as it was and discards the pending writes, a clean outermost
  exit makes exactly the pending writes durable, and a nested block makes nothing durable however
  it ends. In every case the depth is what it was.
\<close>

theorem transaction_atomic:
  assumes "disciplined body"
  shows "sess_depth (snd (transaction body s)) = sess_depth s \<and>
    (if sess_depth s > 0 then sess_durable (snd (transaction body s)) = sess_durable s
     else (case fst (transaction body s) of
        Inl e \<Rightarrow> snd (transaction body s) = s\<lparr>sess_working := sess_durable s\<rparr>
      | Inr a \<Rightarrow> sess_durable (snd (transaction body s)) =
                  sess_working (snd (body (s\<lparr>sess_depth := 1\<rparr>)))))"
proof (cases "sess_depth s > 0")
  case True
  then show ?thesis
    using disciplined_depth [OF disciplined_transaction [OF assms]]
      transaction_nested_keeps_durable [OF assms True] by simp
next
  case False
  then have z: "sess_depth s = 0" by simp
  show ?thesis
  proof (cases "fst (transaction body s)")
    case (Inl e)
    then show ?thesis
      using z transaction_error_keeps_durable [OF assms z Inl] by simp
  next
    case (Inr a)
    obtain r s1 where r: "body (s\<lparr>sess_depth := Suc (sess_depth s)\<rparr>) = (r, s1)"
      by (meson surj_pair)
    with Inr have "r = Inr a" by simp
    with r z show ?thesis by (simp add: transaction_Inr)
  qed
qed

lemma disciplined_writes:
  "disciplined (\<lambda>s. (r, repo_write f s))"
  by (rule disciplinedI) simp_all

text \<open>An inner block that ends cleanly, inside an outer block that then raises.\<close>

definition inner_then_fail :: "(nat session, string, unit) action" where
  "inner_then_fail s =
     (let (r, s1) = transaction (\<lambda>s. (Inr () :: string + unit, repo_write (\<lambda>n. n + 1) s)) s
      in (Inl ''boom'', s1))"

lemma disciplined_inner_then_fail: "disciplined inner_then_fail"
proof -
  note d = disciplined_transaction [OF disciplined_writes]
  show ?thesis
    by (rule disciplinedI)
       (simp_all add: inner_then_fail_def case_prod_beta disciplined_depth [OF d] disciplined_durable [OF d])
qed

theorem transaction_atomic_witness:
  "transaction inner_then_fail \<lparr>sess_depth = 0, sess_durable = 5, sess_working = 5\<rparr> =
     (Inl ''boom'', \<lparr>sess_depth = 0, sess_durable = 5, sess_working = 5\<rparr>)"
proof -
  let ?s = "\<lparr>sess_depth = 0, sess_durable = 5, sess_working = 5\<rparr> :: nat session"
  have e: "fst (transaction inner_then_fail ?s) = Inl ''boom''"
    by (simp add: inner_then_fail_def case_prod_beta)
  with transaction_atomic [OF disciplined_inner_then_fail, of ?s]
  have "snd (transaction inner_then_fail ?s) = ?s" by simp
  with e show ?thesis by (metis prod.collapse)
qed

end
