(* ===== verification/Wallet_Ledger.thy ===== *)
theory Wallet_Ledger
  imports Transaction
begin

text \<open>
  \<^verbatim>\<open>wallet/ledger.py\<close> over the tables of \<^verbatim>\<open>wallet/models.py\<close>: balance moves as one conditional
  UPDATE and one ledger line, both inside \<^verbatim>\<open>entries.transaction()\<close>. The database of the model is
  the balance column (a map from owner to cents) and the ledger table (its lines in insertion
  order). \<open>now\<close> is the value \<^verbatim>\<open>utcnow()\<close> returns during the call. Cents are unbounded
  integers: the BIGINT range and the column lengths are not modelled.
\<close>

subsection \<open>Tables and results\<close>

record wallet_entry =
  we_user_id :: uuid
  we_kind :: string
  we_amount_cents :: int
  we_balance_after_cents :: int
  we_available_at :: micros
  we_description :: string
  we_reference_type :: "string option"
  we_reference_id :: "string option"

record wallet_db =
  wdb_balances :: "uuid \<rightharpoonup> int"
  wdb_entries :: "wallet_entry list"

datatype WalletEntryKindEnum = WITHDRAW | WITHDRAW_REFUND | REVERSAL | OPENING_BALANCE

fun kind_value :: "WalletEntryKindEnum \<Rightarrow> string" where
  "kind_value WITHDRAW = ''WITHDRAW''"
| "kind_value WITHDRAW_REFUND = ''WITHDRAW_REFUND''"
| "kind_value REVERSAL = ''REVERSAL''"
| "kind_value OPENING_BALANCE = ''OPENING_BALANCE''"

record WalletBalanceSchema =
  wb_user_id :: uuid
  wb_total_cents :: int
  wb_held_cents :: int
  wb_available_cents :: int
  wb_next_release_at :: "micros option"

datatype wallet_error =
    AmountNotPositive
  | HoldNegative
  | NoWallet uuid
  | InsufficientBalance
  | PayoutRejected
  | PayoutUncertain

type_synonym wallet_session = "wallet_db session"

text \<open>
  The constructor refuses repositories on different sessions and a balance model without the
  balance attribute. A repository is the identity of its session and its model's attributes.
\<close>

record wallet_repository =
  wr_session :: nat
  wr_attributes :: "string list"

datatype ledger_init_error = SessionsDiffer | NoBalanceAttribute string

definition ledger_init ::
  "wallet_repository \<Rightarrow> wallet_repository \<Rightarrow> string
    \<Rightarrow> ledger_init_error + wallet_repository \<times> wallet_repository \<times> string" where
  "ledger_init balances entries balance_attribute =
     (if wr_session balances \<noteq> wr_session entries then Inl SessionsDiffer
      else if balance_attribute \<notin> set (wr_attributes balances)
        then Inl (NoBalanceAttribute balance_attribute)
      else Inr (balances, entries, balance_attribute))"

subsection \<open>Queries\<close>

definition user_lines :: "wallet_db \<Rightarrow> uuid \<Rightarrow> wallet_entry list" where
  "user_lines db u = filter (\<lambda>e. we_user_id e = u) (wdb_entries db)"

definition held_lines :: "wallet_db \<Rightarrow> uuid \<Rightarrow> micros \<Rightarrow> wallet_entry list" where
  "held_lines db u now =
     filter (\<lambda>e. we_user_id e = u \<and> we_amount_cents e > 0 \<and> we_available_at e > now)
       (wdb_entries db)"

definition held_cents_query :: "uuid \<Rightarrow> micros \<Rightarrow> wallet_db \<Rightarrow> int" where
  "held_cents_query u now db = sum_list (map we_amount_cents (held_lines db u now))"

definition min_opt :: "micros list \<Rightarrow> micros option" where
  "min_opt xs = (if xs = [] then None else Some (Min (set xs)))"

definition balance :: "uuid \<Rightarrow> micros \<Rightarrow> wallet_session \<Rightarrow> wallet_error + WalletBalanceSchema" where
  "balance u moment s =
     (case wdb_balances (sess_working s) u of
        None \<Rightarrow> Inl (NoWallet u)
      | Some total_cents \<Rightarrow>
          let held = held_cents_query u moment (sess_working s);
              next_release = min_opt (map we_available_at (held_lines (sess_working s) u moment));
              held_cents = min held total_cents
          in Inr \<lparr>
               wb_user_id = u,
               wb_total_cents = total_cents,
               wb_held_cents = held_cents,
               wb_available_cents = total_cents - held_cents,
               wb_next_release_at = next_release\<rparr>)"

subsection \<open>Moves\<close>

text \<open>
  \<^verbatim>\<open>_apply\<close>: one UPDATE of the owner's row, matched only when the new balance stays at or
  above the floor (a query evaluated by the same statement), returning the new balance.
\<close>

definition apply_delta ::
  "uuid \<Rightarrow> int \<Rightarrow> (wallet_db \<Rightarrow> int) option \<Rightarrow> wallet_session \<Rightarrow> int option \<times> wallet_session" where
  "apply_delta u delta floor_at s =
     (case wdb_balances (sess_working s) u of
        None \<Rightarrow> (None, repo_commit s)
      | Some b \<Rightarrow>
          if (case floor_at of None \<Rightarrow> True | Some f \<Rightarrow> b + delta \<ge> f (sess_working s))
          then (Some (b + delta),
                repo_write (\<lambda>db. db\<lparr>wdb_balances := (wdb_balances db)(u \<mapsto> b + delta)\<rparr>) s)
          else (None, repo_commit s))"

definition write_entry :: "wallet_entry \<Rightarrow> wallet_session \<Rightarrow> wallet_session" where
  "write_entry e = repo_write (\<lambda>db. db\<lparr>wdb_entries := wdb_entries db @ [e]\<rparr>)"

definition credit ::
  "uuid \<Rightarrow> int \<Rightarrow> string \<Rightarrow> string \<Rightarrow> string option \<Rightarrow> string option \<Rightarrow> micros \<Rightarrow> micros
    \<Rightarrow> (wallet_session, wallet_error, wallet_entry) action" where
  "credit u amount kind description reference_type reference_id hold now s =
     (if amount \<le> 0 then (Inl AmountNotPositive, s)
      else if hold < 0 then (Inl HoldNegative, s)
      else transaction (\<lambda>s.
        case apply_delta u amount None s of
          (None, s) \<Rightarrow> (Inl (NoWallet u), s)
        | (Some balance_after, s) \<Rightarrow>
            let e = \<lparr>we_user_id = u, we_kind = kind, we_amount_cents = amount,
                     we_balance_after_cents = balance_after, we_available_at = now + hold,
                     we_description = description, we_reference_type = reference_type,
                     we_reference_id = reference_id\<rparr>
            in (Inr e, write_entry e s)) s)"

definition debit_available ::
  "uuid \<Rightarrow> int \<Rightarrow> string \<Rightarrow> string \<Rightarrow> string option \<Rightarrow> string option \<Rightarrow> micros
    \<Rightarrow> (wallet_session, wallet_error, wallet_entry) action" where
  "debit_available u amount kind description reference_type reference_id now s =
     (if amount \<le> 0 then (Inl AmountNotPositive, s)
      else transaction (\<lambda>s.
        case apply_delta u (- amount) (Some (held_cents_query u now)) s of
          (None, s) \<Rightarrow> (Inl InsufficientBalance, s)
        | (Some balance_after, s) \<Rightarrow>
            let e = \<lparr>we_user_id = u, we_kind = kind, we_amount_cents = - amount,
                     we_balance_after_cents = balance_after, we_available_at = now,
                     we_description = description, we_reference_type = reference_type,
                     we_reference_id = reference_id\<rparr>
            in (Inr e, write_entry e s)) s)"

text \<open>\<^verbatim>\<open>reverse\<close> returns \<open>None\<close>, not an error, when the balance no longer covers the amount.\<close>

definition reverse_credit ::
  "uuid \<Rightarrow> int \<Rightarrow> string \<Rightarrow> string option \<Rightarrow> string option \<Rightarrow> micros
    \<Rightarrow> (wallet_session, wallet_error, wallet_entry option) action" where
  "reverse_credit u amount description reference_type reference_id now s =
     (if amount \<le> 0 then (Inl AmountNotPositive, s)
      else transaction (\<lambda>s.
        case apply_delta u (- amount) (Some (\<lambda>_. 0)) s of
          (None, s) \<Rightarrow> (Inr None, s)
        | (Some balance_after, s) \<Rightarrow>
            let e = \<lparr>we_user_id = u, we_kind = kind_value REVERSAL, we_amount_cents = - amount,
                     we_balance_after_cents = balance_after, we_available_at = now,
                     we_description = description, we_reference_type = reference_type,
                     we_reference_id = reference_id\<rparr>
            in (Inr (Some e), write_entry e s)) s)"

subsection \<open>The effect of a move, in one equation each\<close>

text \<open>
  \<open>post e db\<close> is the database after the line \<open>e\<close> and its balance; \<open>posted\<close> lifts it to a session:
  outside a block the move is durable at once, inside one it stays with the block.
\<close>

definition post :: "wallet_entry \<Rightarrow> wallet_db \<Rightarrow> wallet_db" where
  "post e db = db\<lparr>wdb_balances := (wdb_balances db)(we_user_id e \<mapsto> we_balance_after_cents e),
                  wdb_entries := wdb_entries db @ [e]\<rparr>"

definition posted :: "wallet_entry \<Rightarrow> wallet_session \<Rightarrow> wallet_session" where
  "posted e s = s\<lparr>sess_working := post e (sess_working s),
                  sess_durable := (if sess_depth s = 0 then post e (sess_working s)
                                   else sess_durable s)\<rparr>"

text \<open>
  A session at rest: outside a block nothing is pending. Every ledger call starts and ends there.
\<close>

definition at_rest :: "'db session \<Rightarrow> bool" where
  "at_rest s \<longleftrightarrow> (sess_depth s = 0 \<longrightarrow> sess_durable s = sess_working s)"

lemma post_simps [simp]:
  "wdb_balances (post e db) = (wdb_balances db)(we_user_id e \<mapsto> we_balance_after_cents e)"
  "wdb_entries (post e db) = wdb_entries db @ [e]"
  by (simp_all add: post_def)

lemma posted_simps [simp]:
  "sess_working (posted e s) = post e (sess_working s)"
  "sess_depth (posted e s) = sess_depth s"
  "sess_durable (posted e s) =
     (if sess_depth s = 0 then post e (sess_working s) else sess_durable s)"
  "at_rest (posted e s)"
  by (simp_all add: posted_def at_rest_def)

lemma credit_eq:
  assumes "at_rest s" and "0 < amount" and "0 \<le> hold"
  shows "credit u amount kind d rt rid hold now s =
    (case wdb_balances (sess_working s) u of
       None \<Rightarrow> (Inl (NoWallet u), s)
     | Some b \<Rightarrow>
         let e = \<lparr>we_user_id = u, we_kind = kind, we_amount_cents = amount,
               we_balance_after_cents = b + amount, we_available_at = now + hold,
               we_description = d, we_reference_type = rt, we_reference_id = rid\<rparr>
         in (Inr e, posted e s))"
  using assms
  by (cases s)
     (auto simp: credit_def transaction_def apply_delta_def write_entry_def posted_def post_def
        at_rest_def session_defs Let_def split: option.split)

lemma debit_available_eq:
  assumes "at_rest s" and "0 < amount"
  shows "debit_available u amount kind d rt rid now s =
    (case wdb_balances (sess_working s) u of
       None \<Rightarrow> (Inl InsufficientBalance, s)
     | Some b \<Rightarrow>
         if b - amount \<ge> held_cents_query u now (sess_working s)
         then let e = \<lparr>we_user_id = u, we_kind = kind, we_amount_cents = - amount,
                we_balance_after_cents = b - amount, we_available_at = now,
                we_description = d, we_reference_type = rt, we_reference_id = rid\<rparr>
              in (Inr e, posted e s)
         else (Inl InsufficientBalance, s))"
  using assms
  by (cases s)
     (auto simp: debit_available_def transaction_def apply_delta_def write_entry_def posted_def
        post_def at_rest_def session_defs Let_def split: option.split)

lemma reverse_credit_eq:
  assumes "at_rest s" and "0 < amount"
  shows "reverse_credit u amount d rt rid now s =
    (case wdb_balances (sess_working s) u of
       None \<Rightarrow> (Inr None, s)
     | Some b \<Rightarrow>
         if amount \<le> b
         then let e = \<lparr>we_user_id = u, we_kind = kind_value REVERSAL, we_amount_cents = - amount,
                we_balance_after_cents = b - amount, we_available_at = now,
                we_description = d, we_reference_type = rt, we_reference_id = rid\<rparr>
              in (Inr (Some e), posted e s)
         else (Inr None, s))"
  using assms
  by (cases s)
     (auto simp: reverse_credit_def transaction_def apply_delta_def write_entry_def posted_def
        post_def at_rest_def session_defs Let_def split: option.split)

subsection \<open>The ledger invariant\<close>

text \<open>
  Each line of a wallet carries the balance right after it, never negative, starting from the
  opening balance the wallet had before the ledger existed; the balance column is the opening
  balance plus everything the ledger recorded.
\<close>

fun running_ok :: "int \<Rightarrow> wallet_entry list \<Rightarrow> bool" where
  "running_ok b [] \<longleftrightarrow> True"
| "running_ok b (e # es) \<longleftrightarrow>
     we_balance_after_cents e = b + we_amount_cents e \<and> 0 \<le> we_balance_after_cents e \<and>
     running_ok (we_balance_after_cents e) es"

definition ledger_ok :: "(uuid \<Rightarrow> int) \<Rightarrow> wallet_db \<Rightarrow> bool" where
  "ledger_ok opening db \<longleftrightarrow>
     (\<forall>u b. wdb_balances db u = Some b \<longrightarrow>
        0 \<le> b \<and> b = opening u + sum_list (map we_amount_cents (user_lines db u)) \<and>
        running_ok (opening u) (user_lines db u))"

lemma running_ok_snoc [simp]:
  "running_ok b (es @ [e]) \<longleftrightarrow> running_ok b es \<and>
     we_balance_after_cents e = b + sum_list (map we_amount_cents es) + we_amount_cents e \<and>
     0 \<le> we_balance_after_cents e"
proof (induction es arbitrary: b)
  case Nil
  then show ?case by auto
next
  case (Cons x es)
  show ?case
    by (cases "we_balance_after_cents x = b + we_amount_cents x") (simp_all add: Cons.IH add.assoc)
qed

lemma user_lines_post [simp]:
  "user_lines (post e db) u = user_lines db u @ (if we_user_id e = u then [e] else [])"
  by (simp add: user_lines_def)

lemma ledger_ok_post:
  assumes "ledger_ok opening db" and "wdb_balances db (we_user_id e) = Some b"
    and "we_balance_after_cents e = b + we_amount_cents e" and "0 \<le> we_balance_after_cents e"
  shows "ledger_ok opening (post e db)"
  unfolding ledger_ok_def
proof (intro allI impI)
  fix u c
  assume c: "wdb_balances (post e db) u = Some c"
  show "0 \<le> c \<and> c = opening u + sum_list (map we_amount_cents (user_lines (post e db) u)) \<and>
      running_ok (opening u) (user_lines (post e db) u)"
  proof (cases "u = we_user_id e")
    case True
    then have "c = b + we_amount_cents e" "0 \<le> c" using assms(3,4) c by simp_all
    moreover have "b = opening u + sum_list (map we_amount_cents (user_lines db u))"
      and "running_ok (opening u) (user_lines db u)"
      using assms(1,2) True unfolding ledger_ok_def by blast+
    ultimately show ?thesis using True assms(3) by simp
  next
    case False
    then show ?thesis using assms(1) c by (simp add: ledger_ok_def)
  qed
qed

lemma ledger_ok_balance: "ledger_ok opening db \<Longrightarrow> wdb_balances db u = Some b \<Longrightarrow> 0 \<le> b"
  by (auto simp: ledger_ok_def)

lemma held_cents_nonneg: "0 \<le> held_cents_query u now db"
  unfolding held_cents_query_def held_lines_def by (rule sum_list_nonneg_filter) auto

lemma held_cents_post:
  "held_cents_query u now (post e db) = held_cents_query u now db +
     (if we_user_id e = u \<and> we_amount_cents e > 0 \<and> we_available_at e > now
      then we_amount_cents e else 0)"
  by (simp add: held_cents_query_def held_lines_def)

subsection \<open>Any history of moves\<close>

text \<open>
  Requests of several clients reach one database as a sequence of committed blocks, in an order
  the database picks: \<open>wallet_step\<close> is one such block with arbitrary arguments, successful or not.
\<close>

inductive wallet_step :: "wallet_session \<Rightarrow> wallet_session \<Rightarrow> bool" where
  step_credit: "wallet_step s (snd (credit u amount kind d rt rid hold now s))"
| step_debit: "wallet_step s (snd (debit_available u amount kind d rt rid now s))"
| step_reverse: "wallet_step s (snd (reverse_credit u amount d rt rid now s))"

inductive wallet_reachable :: "wallet_session \<Rightarrow> wallet_session \<Rightarrow> bool" for s0 where
  reach_start: "wallet_reachable s0 s0"
| reach_step: "wallet_reachable s0 s \<Longrightarrow> wallet_step s t \<Longrightarrow> wallet_reachable s0 t"

text \<open>Either nothing changed, or one line was posted whose running balance is right.\<close>

definition wallet_effect :: "wallet_session \<Rightarrow> wallet_session \<Rightarrow> bool" where
  "wallet_effect s t \<longleftrightarrow> t = s \<or>
     (\<exists>e b. t = posted e s \<and> wdb_balances (sess_working s) (we_user_id e) = Some b \<and>
       we_balance_after_cents e = b + we_amount_cents e \<and> 0 \<le> we_balance_after_cents e)"

lemma wallet_effect_same: "wallet_effect s s"
  by (simp add: wallet_effect_def)

lemma wallet_effect_posted:
  "wdb_balances (sess_working s) (we_user_id e) = Some b \<Longrightarrow>
   we_balance_after_cents e = b + we_amount_cents e \<Longrightarrow> 0 \<le> we_balance_after_cents e \<Longrightarrow>
   wallet_effect s (posted e s)"
  unfolding wallet_effect_def by blast

lemma wallet_effect_ok:
  assumes "wallet_effect s t" and "at_rest s" and "ledger_ok opening (sess_working s)"
  shows "at_rest t" "ledger_ok opening (sess_working t)" "sess_depth t = sess_depth s"
proof -
  from assms(1) consider "t = s"
    | e b where "t = posted e s" "wdb_balances (sess_working s) (we_user_id e) = Some b"
      "we_balance_after_cents e = b + we_amount_cents e" "0 \<le> we_balance_after_cents e"
    by (auto simp: wallet_effect_def)
  then have "at_rest t \<and> ledger_ok opening (sess_working t) \<and> sess_depth t = sess_depth s"
    using assms(2,3) by cases (simp_all add: ledger_ok_post)
  then show "at_rest t" "ledger_ok opening (sess_working t)" "sess_depth t = sess_depth s"
    by simp_all
qed

lemma wallet_step_effect:
  assumes "wallet_step s t" and "at_rest s" and "ledger_ok opening (sess_working s)"
  shows "wallet_effect s t"
  using assms(1)
proof (cases rule: wallet_step.cases)
  case (step_credit u amount kind d rt rid hold now)
  show ?thesis
  proof (cases "0 < amount \<and> 0 \<le> hold")
    case True
    with step_credit assms show ?thesis
      by (auto simp: credit_eq Let_def split: option.splits dest: ledger_ok_balance
            intro!: wallet_effect_same wallet_effect_posted)
  next
    case False
    with step_credit show ?thesis by (auto simp: credit_def intro: wallet_effect_same)
  qed
next
  case (step_debit u amount kind d rt rid now)
  show ?thesis
  proof (cases "0 < amount")
    case True
    with step_debit assms held_cents_nonneg [of u now "sess_working s"] show ?thesis
      by (auto simp: debit_available_eq Let_def split: option.splits
            intro!: wallet_effect_same wallet_effect_posted)
  next
    case False
    with step_debit show ?thesis by (auto simp: debit_available_def intro: wallet_effect_same)
  qed
next
  case (step_reverse u amount d rt rid now)
  show ?thesis
  proof (cases "0 < amount")
    case True
    with step_reverse assms show ?thesis by (auto simp: reverse_credit_eq Let_def split: option.splits
            intro!: wallet_effect_same wallet_effect_posted)
  next
    case False
    with step_reverse show ?thesis by (auto simp: reverse_credit_def intro: wallet_effect_same)
  qed
qed

lemma wallet_reachable_inv:
  assumes "wallet_reachable s0 s" and "at_rest s0" and "ledger_ok opening (sess_working s0)"
  shows "at_rest s \<and> ledger_ok opening (sess_working s) \<and> sess_depth s = sess_depth s0"
  using assms
proof (induction rule: wallet_reachable.induct)
  case reach_start
  then show ?case by simp
next
  case (reach_step s t)
  then show ?case
    using wallet_step_effect wallet_effect_ok by metis
qed

subsection \<open>Held and available\<close>

lemma balance_InrD:
  assumes "balance u moment s = Inr r"
  obtains b where "wdb_balances (sess_working s) u = Some b"
    and "wb_total_cents r = b"
    and "wb_held_cents r = min (held_cents_query u moment (sess_working s)) b"
    and "wb_available_cents r = b - min (held_cents_query u moment (sess_working s)) b"
    and "wb_next_release_at r =
      min_opt (map we_available_at (held_lines (sess_working s) u moment))"
  using assms by (auto simp: balance_def Let_def split: option.splits)

lemma min_opt_Some: "min_opt xs = Some m \<Longrightarrow> m \<in> set xs \<and> (\<forall>x \<in> set xs. m \<le> x)"
  by (auto simp: min_opt_def split: if_splits)

text \<open>A run of withdrawals at one instant: the amounts that went through, and the session after.\<close>

fun debit_run ::
  "uuid \<Rightarrow> micros \<Rightarrow> string \<Rightarrow> int list \<Rightarrow> wallet_session \<Rightarrow> int list \<times> wallet_session" where
  "debit_run u now kind [] s = ([], s)"
| "debit_run u now kind (a # as) s =
     (case debit_available u a kind [] None None now s of
        (Inl e, s') \<Rightarrow> debit_run u now kind as s'
      | (Inr e, s') \<Rightarrow> (let (paid, t) = debit_run u now kind as s' in (a # paid, t)))"

lemma debit_run_bounded:
  assumes "at_rest s" and "wdb_balances (sess_working s) u = Some b"
    and "debit_run u now kind as s = (paid, t)" and "\<forall>a \<in> set as. 0 < a"
  shows "wdb_balances (sess_working t) u = Some (b - sum_list paid) \<and> at_rest t \<and>
    held_cents_query u now (sess_working t) = held_cents_query u now (sess_working s) \<and>
    (paid = [] \<or> held_cents_query u now (sess_working s) \<le> b - sum_list paid)"
  using assms
proof (induction as arbitrary: s b paid)
  case Nil
  then show ?case by simp
next
  case (Cons a as)
  show ?case
  proof (cases "held_cents_query u now (sess_working s) \<le> b - a")
    case False
    with Cons.prems have "debit_run u now kind as s = (paid, t)"
      by (simp add: debit_available_eq)
    with Cons.IH [of s b paid] Cons.prems show ?thesis by simp
  next
    case True
    define e where "e = \<lparr>we_user_id = u, we_kind = kind, we_amount_cents = - a,
      we_balance_after_cents = b - a, we_available_at = now, we_description = [],
      we_reference_type = None, we_reference_id = None\<rparr>"
    obtain paid' where run: "debit_run u now kind as (posted e s) = (paid', t)"
      and paid: "paid = a # paid'"
      using Cons.prems True
      by (auto simp: debit_available_eq Let_def e_def split: prod.splits)
    have held: "held_cents_query u now (post e (sess_working s)) =
        held_cents_query u now (sess_working s)"
      using Cons.prems(4) by (simp add: held_cents_post e_def)
    have "wdb_balances (sess_working t) u = Some (b - a - sum_list paid') \<and> at_rest t \<and>
        held_cents_query u now (sess_working t) = held_cents_query u now (post e (sess_working s)) \<and>
        (paid' = [] \<or> held_cents_query u now (post e (sess_working s)) \<le> b - a - sum_list paid')"
      using Cons.IH [of "posted e s" "b - a" paid'] run Cons.prems(4) by (simp add: e_def)
    then show ?thesis using paid held True by auto
  qed
qed

subsection \<open>Properties\<close>

text \<open>Concrete wallets for the witnesses: one owner, with a released and a held credit.\<close>

definition line_of :: "uuid \<Rightarrow> string \<Rightarrow> int \<Rightarrow> int \<Rightarrow> micros \<Rightarrow> wallet_entry" where
  "line_of u kind amount after release = \<lparr>we_user_id = u, we_kind = kind, we_amount_cents = amount,
     we_balance_after_cents = after, we_available_at = release, we_description = [],
     we_reference_type = None, we_reference_id = None\<rparr>"

definition sample_db :: wallet_db where
  "sample_db = \<lparr>wdb_balances = [7 \<mapsto> 150],
                wdb_entries = [line_of 7 ''SALE'' 100 100 0, line_of 7 ''SALE'' 50 150 1000]\<rparr>"

definition sample_wallet :: wallet_session where
  "sample_wallet = \<lparr>sess_depth = 0, sess_durable = sample_db, sess_working = sample_db\<rparr>"

lemmas sample_wallet_simps = sample_wallet_def sample_db_def line_of_def

lemma sample_wallet_rest: "at_rest sample_wallet" "sess_depth sample_wallet = 0"
  by (simp_all add: sample_wallet_simps at_rest_def)

lemma sample_wallet_cents: "wdb_balances (sess_working sample_wallet) 7 = Some 150"
  by (simp add: sample_wallet_simps)

lemma sample_wallet_ok: "ledger_ok (\<lambda>_. 0) (sess_working sample_wallet)"
  by (auto simp: ledger_ok_def sample_wallet_simps user_lines_def)

lemma sample_wallet_held: "held_cents_query 7 500 (sess_working sample_wallet) = 50"
  by (simp add: held_cents_query_def held_lines_def sample_wallet_simps)

lemma sample_wallet_balance:
  "balance 7 500 sample_wallet = Inr \<lparr>wb_user_id = 7, wb_total_cents = 150, wb_held_cents = 50,
     wb_available_cents = 100, wb_next_release_at = Some 1000\<rparr>"
  by (simp add: balance_def held_cents_query_def held_lines_def sample_wallet_simps min_opt_def
      Let_def)

text \<open>
  C1. Whatever credits, debits and reversals ran, successful or refused, in whatever order the
  database committed them, the durable ledger is sound: no balance is negative, every balance is
  its opening balance plus the sum of its ledger lines, and every line carries the balance that
  was right after it.
\<close>

theorem wallet_history_sound:
  assumes "wallet_reachable s0 s" and "at_rest s0" and "sess_depth s0 = 0"
    and "ledger_ok opening (sess_durable s0)"
  shows "ledger_ok opening (sess_durable s) \<and> sess_working s = sess_durable s"
proof -
  from assms(2,3) have eq: "sess_working s0 = sess_durable s0" by (simp add: at_rest_def)
  with assms have "at_rest s \<and> ledger_ok opening (sess_working s) \<and> sess_depth s = sess_depth s0"
    by (intro wallet_reachable_inv) simp_all
  with assms(3) show ?thesis by (simp add: at_rest_def)
qed

theorem wallet_history_sound_witness:
  "\<exists>s. wallet_reachable sample_wallet s \<and> wdb_balances (sess_durable s) 7 = Some 90 \<and>
       ledger_ok (\<lambda>_. 0) (sess_durable s)"
proof -
  let ?s = "snd (debit_available 7 60 ''WITHDRAW'' [] None None 500 sample_wallet)"
  have r: "wallet_reachable sample_wallet ?s"
    by (rule reach_step [OF reach_start step_debit])
  have ok: "ledger_ok (\<lambda>_. 0) (sess_durable sample_wallet)"
    using sample_wallet_ok by (simp add: sample_wallet_def)
  have "?s = posted (line_of 7 ''WITHDRAW'' (- 60) 90 500) sample_wallet"
    by (simp add: debit_available_eq sample_wallet_rest sample_wallet_held
        sample_wallet_cents line_of_def Let_def)
  then have "wdb_balances (sess_durable ?s) 7 = Some 90"
    by (simp add: sample_wallet_rest line_of_def)
  with r wallet_history_sound [OF r sample_wallet_rest ok] show ?thesis by blast
qed

text \<open>
  The hold is enforced by the debit itself: a withdrawal of a positive amount goes through
  exactly when it is at most the available part that \<^verbatim>\<open>balance\<close> reports at that instant; a
  refused one raises and changes nothing, an accepted one lowers the balance by the amount, adds
  one line, and leaves the held part alone.
\<close>

theorem debit_iff_available:
  assumes "at_rest s" and "0 < amount" and "balance u now s = Inr r"
  shows "(if amount \<le> wb_available_cents r
     then \<exists>e. debit_available u amount kind d rt rid now s = (Inr e, posted e s) \<and>
            we_amount_cents e = - amount \<and>
            we_balance_after_cents e = wb_total_cents r - amount \<and>
            held_cents_query u now (post e (sess_working s)) = held_cents_query u now (sess_working s) \<and>
            held_cents_query u now (sess_working s) \<le> wb_total_cents r - amount
     else debit_available u amount kind d rt rid now s = (Inl InsufficientBalance, s))"
proof -
  let ?h = "held_cents_query u now (sess_working s)"
  obtain b where b: "wdb_balances (sess_working s) u = Some b" "wb_total_cents r = b"
    "wb_available_cents r = b - min ?h b"
    using balance_InrD [OF assms(3)] by metis
  have iff: "amount \<le> wb_available_cents r \<longleftrightarrow> ?h \<le> b - amount"
    using b(3) assms(2) by linarith
  show ?thesis
    using assms(1,2) b iff by (simp add: debit_available_eq Let_def held_cents_post)
qed

theorem debit_iff_available_witness:
  "(\<exists>e. debit_available 7 100 ''WITHDRAW'' [] None None 500 sample_wallet =
        (Inr e, posted e sample_wallet) \<and> we_balance_after_cents e = 50) \<and>
   debit_available 7 101 ''WITHDRAW'' [] None None 500 sample_wallet =
     (Inl InsufficientBalance, sample_wallet)"
  using debit_iff_available [OF sample_wallet_rest(1) _ sample_wallet_balance, of 100 "''WITHDRAW''" "[]" None None]
    debit_iff_available [OF sample_wallet_rest(1) _ sample_wallet_balance, of 101 "''WITHDRAW''" "[]" None None]
  by auto

text \<open>
  Racing withdrawals cannot drain held money: of any list of withdrawals issued at one
  instant, the ones that go through add up to at most the available balance before the first of
  them, however the database orders them.
\<close>

theorem racing_debits_bounded:
  assumes "at_rest s" and "balance u now s = Inr r" and "0 \<le> wb_total_cents r"
    and "\<forall>a \<in> set as. 0 < a" and "debit_run u now kind as s = (paid, t)"
  shows "sum_list paid \<le> wb_available_cents r \<and>
    wdb_balances (sess_working t) u = Some (wb_total_cents r - sum_list paid)"
proof -
  obtain b where b: "wdb_balances (sess_working s) u = Some b" "wb_total_cents r = b"
    "wb_available_cents r = b - min (held_cents_query u now (sess_working s)) b"
    using balance_InrD [OF assms(2)] by metis
  from debit_run_bounded [OF assms(1) b(1) assms(5,4)] show ?thesis
    using b assms(3) by auto
qed

theorem racing_debits_bounded_witness:
  "\<exists>paid t. debit_run 7 500 ''WITHDRAW'' [60, 60, 40] sample_wallet = (paid, t) \<and>
     paid = [60, 40] \<and> sum_list paid \<le> 100 \<and> wdb_balances (sess_working t) 7 = Some 50"
proof -
  obtain paid t where run: "debit_run 7 500 ''WITHDRAW'' [60, 60, 40] sample_wallet = (paid, t)"
    by (meson surj_pair)
  have "paid = [60, 40]"
    using run
    by (simp add: debit_available_def transaction_def apply_delta_def write_entry_def session_defs
        sample_wallet_simps held_cents_query_def held_lines_def Let_def split: prod.splits)
  with run racing_debits_bounded [OF sample_wallet_rest(1) sample_wallet_balance _ _ run]
  show ?thesis by auto
qed

text \<open>
  A reversal does not reach the held money first: while the money left covers the hold, taking
  back a credit that is still on hold lowers the available part by the full amount and leaves the
  held part where it was (the hold of the reversed credit lives on until its release date).
\<close>

theorem reversal_takes_available_money:
  assumes "at_rest s" and "0 < amount" and "balance u now s = Inr r"
    and "wb_held_cents r + amount \<le> wb_total_cents r"
  shows "\<exists>e r'. reverse_credit u amount d rt rid now s = (Inr (Some e), posted e s) \<and>
    balance u now (posted e s) = Inr r' \<and>
    wb_held_cents r' = wb_held_cents r \<and>
    wb_available_cents r' = wb_available_cents r - amount"
proof -
  let ?h = "held_cents_query u now (sess_working s)"
  obtain b where b: "wdb_balances (sess_working s) u = Some b" "wb_total_cents r = b"
    "wb_held_cents r = min ?h b" "wb_available_cents r = b - min ?h b"
    using balance_InrD [OF assms(3)] by metis
  have h: "?h + amount \<le> b" using assms(2,4) b by linarith
  have "amount \<le> b" using h held_cents_nonneg [of u now "sess_working s"] by linarith
  then show ?thesis
    using assms(1,2) b h by (simp add: reverse_credit_eq balance_def Let_def held_cents_post)
qed

theorem reversal_takes_available_money_witness:
  "\<exists>e r'. reverse_credit 7 50 [] None None 500 sample_wallet =
        (Inr (Some e), posted e sample_wallet) \<and>
     balance 7 500 (posted e sample_wallet) = Inr r' \<and>
     wb_held_cents r' = 50 \<and> wb_available_cents r' = 50"
  using reversal_takes_available_money [OF sample_wallet_rest(1) _ sample_wallet_balance, of 50 "[]" None None]
  by simp

end
