(* ===== verification/Wallet_Service.thy ===== *)
theory Wallet_Service
  imports Wallet_Ledger
begin

text \<open>
  \<^verbatim>\<open>wallet/service.py\<close>: the exactly-once guard \<^verbatim>\<open>claim_once\<close> and the Pix withdrawal. The service
  is given a ledger, so its model takes the ledger's operations as a record; the locale
  \<open>ledger_port\<close> states what the withdrawal relies on, and the model of \<^verbatim>\<open>WalletLedger\<close> is its
  interpretation. The payout provider is a third party: a function from the request to one of the
  three answers the code tells apart.
\<close>

subsection \<open>The claim guard\<close>

text \<open>
  The claim column of one table: a row is absent, unclaimed (\<open>Some None\<close>) or stamped. The result
  is \<^verbatim>\<open>rowcount == 1\<close>; nothing is committed.
\<close>

type_synonym claim_table = "uuid \<rightharpoonup> micros option"

definition claim_once :: "uuid \<Rightarrow> micros \<Rightarrow> claim_table session \<Rightarrow> bool \<times> claim_table session" where
  "claim_once row now s =
     (if sess_working s row = Some None
      then (True, s\<lparr>sess_working := (sess_working s)(row \<mapsto> Some now)\<rparr>)
      else (False, s))"

fun claim_run :: "uuid \<Rightarrow> micros list \<Rightarrow> claim_table session \<Rightarrow> bool list \<times> claim_table session" where
  "claim_run row [] s = ([], s)"
| "claim_run row (t # ts) s =
     (let (won, s1) = claim_once row t s; (rest, s2) = claim_run row ts s1 in (won # rest, s2))"

lemma claim_run_taken:
  "sess_working s row \<noteq> Some None \<Longrightarrow> claim_run row ts s = (replicate (length ts) False, s)"
  by (induction ts) (simp_all add: claim_once_def)

subsection \<open>The withdrawal over a ledger port\<close>

record payout_request =
  pr_amount_cents :: int
  pr_pix_key :: string
  pr_pix_key_type :: string
  pr_correlation_id :: string
  pr_comment :: string

datatype 'r payout_answer = Accepted 'r | Refused | OtherFailure

record 's ledger_ops =
  lp_credit :: "uuid \<Rightarrow> int \<Rightarrow> string \<Rightarrow> string \<Rightarrow> string option \<Rightarrow> string option \<Rightarrow> micros \<Rightarrow> micros
    \<Rightarrow> ('s, wallet_error, wallet_entry) action"
  lp_debit_available :: "uuid \<Rightarrow> int \<Rightarrow> string \<Rightarrow> string \<Rightarrow> string option \<Rightarrow> string option \<Rightarrow> micros
    \<Rightarrow> ('s, wallet_error, wallet_entry) action"
  lp_reverse :: "uuid \<Rightarrow> int \<Rightarrow> string \<Rightarrow> string option \<Rightarrow> string option \<Rightarrow> micros
    \<Rightarrow> ('s, wallet_error, wallet_entry option) action"
  lp_balance :: "uuid \<Rightarrow> micros \<Rightarrow> 's \<Rightarrow> wallet_error + WalletBalanceSchema"

text \<open>
  The constructor: a ready ledger, or two repositories to build one from (\<open>build\<close> is the ledger's
  own constructor, which may refuse them).
\<close>

datatype service_init_error = LedgerAndRepositories | NothingToUse | LedgerRefused

definition service_init ::
  "('b \<Rightarrow> 'e \<Rightarrow> 'l option) \<Rightarrow> 'l option \<Rightarrow> 'b option \<Rightarrow> 'e option \<Rightarrow> service_init_error + 'l" where
  "service_init build ledger balances entries =
     (case ledger of
        Some l \<Rightarrow>
          if balances \<noteq> None \<or> entries \<noteq> None then Inl LedgerAndRepositories else Inr l
      | None \<Rightarrow>
          (case (balances, entries) of
             (Some b, Some e) \<Rightarrow> (case build b e of None \<Rightarrow> Inl LedgerRefused | Some l \<Rightarrow> Inr l)
           | _ \<Rightarrow> Inl NothingToUse))"

text \<open>The ledger operations of the service are delegations.\<close>

definition service_credit where
  "service_credit L u amount kind d rt rid hold now s = lp_credit L u amount kind d rt rid hold now s"

definition service_debit_available where
  "service_debit_available L u amount kind d rt rid now s =
     lp_debit_available L u amount kind d rt rid now s"

definition service_reverse where
  "service_reverse L u amount d rt rid now s = lp_reverse L u amount d rt rid now s"

definition service_balance where
  "service_balance L u now s = lp_balance L u now s"

lemmas service_delegations [simp] =
  service_credit_def service_debit_available_def service_reverse_def service_balance_def

definition PAYOUT_REFERENCE_TYPE :: string where
  "PAYOUT_REFERENCE_TYPE = ''payout''"

text \<open>
  \<^verbatim>\<open>withdraw\<close>. The third component of the result is the list of provider calls, each with the
  ledger state it was made in: it records the order of debit and transfer. \<open>fresh\<close> is
  \<^verbatim>\<open>str(uuid4())\<close>; an omitted or empty correlation id takes it. \<open>now\<close> is the clock of the call.
\<close>

definition withdraw ::
  "'s ledger_ops \<Rightarrow> (payout_request \<Rightarrow> 'r payout_answer) \<Rightarrow> string \<Rightarrow> micros
    \<Rightarrow> uuid \<Rightarrow> string \<Rightarrow> string \<Rightarrow> int option \<Rightarrow> string option \<Rightarrow> string
    \<Rightarrow> 's \<Rightarrow> (wallet_error + wallet_entry \<times> 'r) \<times> 's \<times> (payout_request \<times> 's) list" where
  "withdraw L payout fresh now u pix_key pix_key_type amount_cents correlation_id description s =
     (case (case amount_cents of
              Some a \<Rightarrow> Inr a
            | None \<Rightarrow> (case service_balance L u now s of
                Inl e \<Rightarrow> Inl e | Inr r \<Rightarrow> Inr (wb_available_cents r))) of
        Inl e \<Rightarrow> (Inl e, s, [])
      | Inr amount \<Rightarrow>
          if amount \<le> 0 then (Inl InsufficientBalance, s, [])
          else
            let correlation = (case correlation_id of
                Some c \<Rightarrow> if c = [] then fresh else c | None \<Rightarrow> fresh) in
            case service_debit_available L u amount (kind_value WITHDRAW) description
                   (Some PAYOUT_REFERENCE_TYPE) (Some correlation) now s of
              (Inl e, s1) \<Rightarrow> (Inl e, s1, [])
            | (Inr entry, s1) \<Rightarrow>
                let request = \<lparr>pr_amount_cents = amount, pr_pix_key = pix_key,
                      pr_pix_key_type = pix_key_type, pr_correlation_id = correlation,
                      pr_comment = description\<rparr> in
                case payout request of
                  Refused \<Rightarrow>
                    (case service_credit L u amount (kind_value WITHDRAW_REFUND)
                            (''Estorno: '' @ description) (Some PAYOUT_REFERENCE_TYPE)
                            (Some correlation) 0 now s1 of
                       (Inl e, s2) \<Rightarrow> (Inl e, s2, [(request, s1)])
                     | (Inr _, s2) \<Rightarrow> (Inl PayoutRejected, s2, [(request, s1)]))
                | OtherFailure \<Rightarrow> (Inl PayoutUncertain, s1, [(request, s1)])
                | Accepted result \<Rightarrow> (Inr (entry, result), s1, [(request, s1)]))"

text \<open>
  What the withdrawal relies on: \<open>cents\<close> is the (durable) balance of an owner, \<open>ready\<close> the states
  the service may call the ledger in.
\<close>

locale ledger_port =
  fixes L :: "'s ledger_ops"
    and cents :: "'s \<Rightarrow> uuid \<Rightarrow> int option"
    and ready :: "'s \<Rightarrow> bool"
  assumes debit_refused: "ready s \<Longrightarrow> 0 < a \<Longrightarrow>
      lp_debit_available L u a k d rt rid now s = (Inl err, t) \<Longrightarrow> t = s"
    and debit_done: "ready s \<Longrightarrow> 0 < a \<Longrightarrow>
      lp_debit_available L u a k d rt rid now s = (Inr e, t) \<Longrightarrow>
      ready t \<and> (\<exists>b. cents s u = Some b \<and> cents t = (cents s)(u \<mapsto> b - a))"
    and credit_done: "ready s \<Longrightarrow> 0 < a \<Longrightarrow> 0 \<le> hold \<Longrightarrow> cents s u = Some b \<Longrightarrow>
      \<exists>e t. lp_credit L u a k d rt rid hold now s = (Inr e, t) \<and> ready t \<and>
        cents t = (cents s)(u \<mapsto> b + a)"
begin

lemma withdraw_cases:
  assumes "ready s" and "withdraw L payout fresh now u key key_type amount cid d s = (r, t, calls)"
  shows "(calls = [] \<and> t = s \<and> (\<exists>e. r = Inl e)) \<or>
    (\<exists>q s1 a b. calls = [(q, s1)] \<and> pr_amount_cents q = a \<and> 0 < a \<and>
       cents s u = Some b \<and> cents s1 = (cents s)(u \<mapsto> b - a) \<and>
       (case payout q of
          Accepted p \<Rightarrow> t = s1 \<and> (\<exists>e. r = Inr (e, p))
        | Refused \<Rightarrow> cents t = cents s \<and> r = Inl PayoutRejected
        | OtherFailure \<Rightarrow> t = s1 \<and> r = Inl PayoutUncertain))"
proof -
  define pick where "pick = (case amount of Some a \<Rightarrow> Inr a
    | None \<Rightarrow> (case lp_balance L u now s of Inl e \<Rightarrow> Inl e | Inr w \<Rightarrow> Inr (wb_available_cents w)))"
  define cor where "cor = (case cid of Some c \<Rightarrow> if c = [] then fresh else c | None \<Rightarrow> fresh)"
  note unfolded = assms(2) [unfolded withdraw_def Let_def service_delegations, folded pick_def cor_def]
  consider (none) e where "pick = Inl e" | (small) a where "pick = Inr a" "a \<le> 0"
    | (go) a where "pick = Inr a" "0 < a"
    by (cases pick) (auto simp: not_le [symmetric])
  then show ?thesis
  proof cases
    case none
    then show ?thesis using unfolded by auto
  next
    case small
    then show ?thesis using unfolded by auto
  next
    case go
    let ?q = "\<lparr>pr_amount_cents = a, pr_pix_key = key, pr_pix_key_type = key_type,
      pr_correlation_id = cor, pr_comment = d\<rparr>"
    obtain dr s1 where debit: "lp_debit_available L u a (kind_value WITHDRAW) d
        (Some PAYOUT_REFERENCE_TYPE) (Some cor) now s = (dr, s1)"
      by (meson surj_pair)
    show ?thesis
    proof (cases dr)
      case (Inl e)
      then show ?thesis using unfolded go debit debit_refused [OF assms(1) go(2)] by auto
    next
      case (Inr e)
      from debit_done [OF assms(1) go(2) debit [unfolded Inr]] obtain b
        where b: "ready s1" "cents s u = Some b" "cents s1 = (cents s)(u \<mapsto> b - a)" by blast
      then have b1: "cents s1 u = Some (b - a)" by simp
      from credit_done [OF b(1) go(2) _ b1, of 0 "kind_value WITHDRAW_REFUND" "''Estorno: '' @ d"
          "Some PAYOUT_REFERENCE_TYPE" "Some cor" now]
      obtain e2 s2 where refund: "lp_credit L u a (kind_value WITHDRAW_REFUND) (''Estorno: '' @ d)
          (Some PAYOUT_REFERENCE_TYPE) (Some cor) 0 now s1 = (Inr e2, s2)"
        and s2: "cents s2 = (cents s)(u \<mapsto> b)" using b(3) by auto
      have restored: "cents s2 = cents s" using s2 b(2) by auto
      have "(\<exists>q s1 a b. calls = [(q, s1)] \<and> pr_amount_cents q = a \<and> 0 < a \<and>
         cents s u = Some b \<and> cents s1 = (cents s)(u \<mapsto> b - a) \<and>
         (case payout q of
            Accepted p \<Rightarrow> t = s1 \<and> (\<exists>e. r = Inr (e, p))
          | Refused \<Rightarrow> cents t = cents s \<and> r = Inl PayoutRejected
          | OtherFailure \<Rightarrow> t = s1 \<and> r = Inl PayoutUncertain))"
        using unfolded go debit Inr refund restored b(2,3)
        by (cases "payout ?q") (auto intro!: exI [of _ ?q])
      then show ?thesis by blast
    qed
  qed
qed

end

subsection \<open>The wallet ledger is a ledger port\<close>

definition wallet_ledger_ops :: "wallet_session ledger_ops" where
  "wallet_ledger_ops = \<lparr>lp_credit = credit, lp_debit_available = debit_available,
     lp_reverse = reverse_credit, lp_balance = balance\<rparr>"

definition durable_cents :: "wallet_session \<Rightarrow> uuid \<Rightarrow> int option" where
  "durable_cents s = wdb_balances (sess_durable s)"

definition idle :: "wallet_session \<Rightarrow> bool" where
  "idle s \<longleftrightarrow> sess_depth s = 0 \<and> at_rest s"

interpretation wallet: ledger_port wallet_ledger_ops durable_cents idle
proof
  fix s t :: wallet_session and a now :: int and u k d rt rid and e :: wallet_error
  assume "idle s" "0 < a" "lp_debit_available wallet_ledger_ops u a k d rt rid now s = (Inl e, t)"
  then show "t = s"
    by (auto simp: wallet_ledger_ops_def idle_def debit_available_eq Let_def
        split: option.splits if_splits)
next
  fix s t :: wallet_session and a now :: int and u k d rt rid and e :: wallet_entry
  assume "idle s" "0 < a" "lp_debit_available wallet_ledger_ops u a k d rt rid now s = (Inr e, t)"
  then show "idle t \<and> (\<exists>b. durable_cents s u = Some b \<and>
      durable_cents t = (durable_cents s)(u \<mapsto> b - a))"
    by (auto simp: wallet_ledger_ops_def idle_def durable_cents_def at_rest_def
        debit_available_eq Let_def split: option.splits if_splits)
next
  fix s :: wallet_session and a hold now b :: int and u k d rt rid
  assume "idle s" "0 < a" "0 \<le> hold" "durable_cents s u = Some b"
  then show "\<exists>e t. lp_credit wallet_ledger_ops u a k d rt rid hold now s = (Inr e, t) \<and> idle t \<and>
      durable_cents t = (durable_cents s)(u \<mapsto> b + a)"
    by (auto simp: wallet_ledger_ops_def idle_def durable_cents_def at_rest_def credit_eq Let_def)
qed

subsection \<open>Properties\<close>

text \<open>
  C2. The order of a withdrawal is its safety: the provider is called at most once, and only when
  the debit of exactly the requested amount is already durable. If it accepts, the debit stays; if
  it refuses, the durable balances are what they were before and the refusal is raised; if the
  outcome is unknown the debit is kept and \<^verbatim>\<open>PayoutUncertain\<close> is raised. When it is not called,
  the call raised and nothing changed.
\<close>

theorem withdraw_debits_before_paying:
  assumes "idle s"
    and "withdraw wallet_ledger_ops payout fresh now u key key_type amount cid d s = (r, t, calls)"
  shows "(calls = [] \<and> t = s \<and> (\<exists>e. r = Inl e)) \<or>
    (\<exists>q s1 a b. calls = [(q, s1)] \<and> pr_amount_cents q = a \<and> 0 < a \<and>
       durable_cents s u = Some b \<and> durable_cents s1 = (durable_cents s)(u \<mapsto> b - a) \<and>
       (case payout q of
          Accepted p \<Rightarrow> t = s1 \<and> (\<exists>e. r = Inr (e, p))
        | Refused \<Rightarrow> durable_cents t = durable_cents s \<and> r = Inl PayoutRejected
        | OtherFailure \<Rightarrow> t = s1 \<and> r = Inl PayoutUncertain))"
  using assms by (rule wallet.withdraw_cases)

lemma sample_wallet_idle: "idle sample_wallet"
  by (simp add: idle_def sample_wallet_rest)

theorem withdraw_debits_before_paying_witness:
  "\<exists>t q s1. withdraw wallet_ledger_ops (\<lambda>q. Refused :: unit payout_answer) ''id'' 500 7 ''key'' ''EMAIL''
       (Some 80) None ''Saque Pix'' sample_wallet = (Inl PayoutRejected, t, [(q, s1)]) \<and>
     durable_cents s1 7 = Some 70 \<and> durable_cents t 7 = Some 150"
proof -
  let ?w = "withdraw wallet_ledger_ops (\<lambda>q. Refused :: unit payout_answer) ''id'' 500 7 ''key''
    ''EMAIL'' (Some 80) None ''Saque Pix'' sample_wallet"
  obtain r t calls where w: "?w = (r, t, calls)" by (cases ?w)
  have b: "durable_cents sample_wallet 7 = Some 150"
    by (simp add: durable_cents_def sample_wallet_simps)
  have debit: "\<exists>e. lp_debit_available wallet_ledger_ops 7 80 (kind_value WITHDRAW) ''Saque Pix''
      (Some PAYOUT_REFERENCE_TYPE) (Some ''id'') 500 sample_wallet = (Inr e, posted e sample_wallet)"
    by (simp add: wallet_ledger_ops_def debit_available_eq sample_wallet_rest sample_wallet_held
        sample_wallet_cents Let_def)
  then have one: "\<exists>q s1. calls = [(q, s1)] \<and> pr_amount_cents q = 80"
    using w by (auto simp: withdraw_def Let_def split: prod.splits sum.splits)
  from withdraw_debits_before_paying [OF sample_wallet_idle w] one b
  show ?thesis using w by auto
qed

text \<open>
  A settlement guarded by \<^verbatim>\<open>claim_once\<close> runs once: of any nonempty series of callers on an
  existing unclaimed row exactly the first gets \<^verbatim>\<open>True\<close>, and the stamp it wrote is never
  overwritten by the others.
\<close>

theorem claim_once_first_wins:
  assumes "sess_working s row = Some None"
  shows "\<exists>s'. claim_run row (t # ts) s = (True # replicate (length ts) False, s') \<and>
    sess_working s' row = Some (Some t) \<and> sess_durable s' = sess_durable s"
  using assms by (simp add: claim_once_def claim_run_taken)

theorem claim_once_first_wins_witness:
  "\<exists>s'. claim_run 3 [10, 11, 12] \<lparr>sess_depth = 1, sess_durable = [3 \<mapsto> None], sess_working = [3 \<mapsto> None]\<rparr>
       = ([True, False, False], s') \<and> sess_working s' 3 = Some (Some 10)"
  using claim_once_first_wins [of "\<lparr>sess_depth = 1, sess_durable = [3 \<mapsto> None], sess_working = [3 \<mapsto> None]\<rparr>"
      3 10 "[11, 12]"]
  by (simp del: claim_run.simps) blast

end
