(* ===== verification/Py_Text.thy ===== *)
theory Py_Text
  imports Prelude
begin

text \<open>
  The text operations of Python the modelled code relies on, over ASCII strings:
  \<^verbatim>\<open>str(n)\<close> and f-string interpolation of an integer, \<^verbatim>\<open>int(text)\<close>, \<^verbatim>\<open>strip\<close>, \<^verbatim>\<open>lower\<close>,
  \<^verbatim>\<open>startswith\<close> and \<^verbatim>\<open>endswith\<close>.
\<close>

subsection \<open>Decimal text\<close>

definition digit_char :: "nat \<Rightarrow> char" where
  "digit_char d = char_of (48 + d)"

definition is_digit :: "char \<Rightarrow> bool" where
  "is_digit c \<longleftrightarrow> 48 \<le> (of_char c :: nat) \<and> (of_char c :: nat) \<le> 57"

definition digit_val :: "char \<Rightarrow> int" where
  "digit_val c = int (of_char c) - 48"

fun nat_str :: "nat \<Rightarrow> string" where
  "nat_str n = (if n < 10 then [digit_char n] else nat_str (n div 10) @ [digit_char (n mod 10)])"

declare nat_str.simps [simp del]

definition int_str :: "int \<Rightarrow> string" where
  "int_str i = (if i < 0 then CHR ''-'' # nat_str (nat (- i)) else nat_str (nat i))"

definition is_space :: "char \<Rightarrow> bool" where
  "is_space c \<longleftrightarrow> (of_char c :: nat) \<in> {9, 10, 11, 12, 13, 28, 29, 30, 31, 32}"

definition strip :: "string \<Rightarrow> string" where
  "strip s = rev (dropWhile is_space (rev (dropWhile is_space s)))"

text \<open>
  \<^verbatim>\<open>int(text)\<close>: surrounding white space, one sign, decimal digits with single underscores between
  them; \<open>None\<close> is the \<^verbatim>\<open>ValueError\<close>. The flag says whether the last character was a digit.
\<close>

fun digits_int :: "int \<Rightarrow> bool \<Rightarrow> string \<Rightarrow> int option" where
  "digits_int acc after [] = (if after then Some acc else None)"
| "digits_int acc after (c # cs) =
     (if is_digit c then digits_int (10 * acc + digit_val c) True cs
      else if c = CHR ''_'' \<and> after then digits_int acc False cs
      else None)"

definition py_int :: "string \<Rightarrow> int option" where
  "py_int text =
     (case strip text of
        [] \<Rightarrow> None
      | c # cs \<Rightarrow>
          if c = CHR ''-'' then map_option uminus (digits_int 0 False cs)
          else if c = CHR ''+'' then digits_int 0 False cs
          else digits_int 0 False (c # cs))"

subsection \<open>Prefixes, suffixes, case\<close>

definition startswith :: "string \<Rightarrow> string \<Rightarrow> bool" where
  "startswith s prefix \<longleftrightarrow> take (length prefix) s = prefix"

definition endswith :: "string \<Rightarrow> string \<Rightarrow> bool" where
  "endswith s suffix \<longleftrightarrow> startswith (rev s) (rev suffix)"

definition lower_char :: "char \<Rightarrow> char" where
  "lower_char c = (if 65 \<le> (of_char c :: nat) \<and> (of_char c :: nat) \<le> 90
                   then char_of ((of_char c :: nat) + 32) else c)"

definition lower :: "string \<Rightarrow> string" where
  "lower s = map lower_char s"

lemma startswith_append [simp]: "startswith (p @ s) p"
  by (simp add: startswith_def)

lemma startswith_iff: "startswith s p \<longleftrightarrow> (\<exists>t. s = p @ t)"
  by (metis append_eq_conv_conj startswith_def append_take_drop_id)

lemma endswith_iff: "endswith s p \<longleftrightarrow> (\<exists>t. s = t @ p)"
proof -
  have "(\<exists>t. rev s = rev p @ t) \<longleftrightarrow> (\<exists>t. s = t @ p)"
    by (metis rev_append rev_rev_ident)
  then show ?thesis by (simp add: endswith_def startswith_iff)
qed

subsection \<open>Printing and reading an integer\<close>

lemma of_char_digit_char [simp]: "d < 10 \<Longrightarrow> of_char (digit_char d) = 48 + d"
  by (simp add: digit_char_def)

lemma digit_char_simps [simp]:
  assumes "d < 10"
  shows "is_digit (digit_char d)" "digit_val (digit_char d) = int d"
    "\<not> is_space (digit_char d)" "digit_char d \<noteq> CHR ''-''" "digit_char d \<noteq> CHR ''+''"
proof -
  have c: "of_char (digit_char d) = 48 + d" using assms by (rule of_char_digit_char)
  then show "is_digit (digit_char d)" "digit_val (digit_char d) = int d"
    "\<not> is_space (digit_char d)"
    using assms by (auto simp: is_digit_def digit_val_def is_space_def)
  have "of_char (CHR ''-'') = (45 :: nat)" "of_char (CHR ''+'') = (43 :: nat)" by simp_all
  with c show "digit_char d \<noteq> CHR ''-''" "digit_char d \<noteq> CHR ''+''" by force+
qed

lemma nat_str_nonempty [simp]: "nat_str n \<noteq> []"
  by (subst nat_str.simps) simp

lemma nat_str_digits: "c \<in> set (nat_str n) \<Longrightarrow> \<exists>d < 10. c = digit_char d"
proof (induction n rule: nat_str.induct)
  case (1 n)
  show ?case
  proof (cases "n < 10")
    case True
    with "1.prems" show ?thesis by (auto simp: nat_str.simps [of n])
  next
    case False
    with "1.prems" consider "c \<in> set (nat_str (n div 10))" | "c = digit_char (n mod 10)"
      by (auto simp: nat_str.simps [of n])
    then show ?thesis
    proof cases
      case 1
      then show ?thesis by (rule "1.IH" [OF False])
    next
      case 2
      then show ?thesis by (intro exI [of _ "n mod 10"]) simp
    qed
  qed
qed

lemma digits_int_append:
  assumes "digits_int acc after xs = Some v" and "xs \<noteq> []"
  shows "digits_int acc after (xs @ ys) = digits_int v True ys"
  using assms
proof (induction xs arbitrary: acc after)
  case Nil
  then show ?case by simp
next
  case (Cons x xs)
  show ?case
  proof (cases "xs = []")
    case True
    with Cons.prems(1) show ?thesis by (auto split: if_splits)
  next
    case False
    with Cons show ?thesis by (auto split: if_splits)
  qed
qed

lemma digits_int_nat_str: "digits_int 0 False (nat_str n) = Some (int n)"
proof (induction n rule: nat_str.induct)
  case (1 n)
  show ?case
  proof (cases "n < 10")
    case True
    then show ?thesis by (subst nat_str.simps) simp
  next
    case False
    have whole: "10 * int (n div 10) + int (n mod 10) = int n" by presburger
    have "digits_int 0 False (nat_str (n div 10) @ [digit_char (n mod 10)]) = Some (int n)"
      using digits_int_append [OF "1.IH" [OF False], of "[digit_char (n mod 10)]"]
      by (simp add: whole)
    with False show ?thesis by (simp add: nat_str.simps [of n])
  qed
qed

lemma strip_id:
  assumes "s \<noteq> []" and "\<not> is_space (hd s)" and "\<not> is_space (last s)"
  shows "strip s = s"
proof -
  have "dropWhile is_space s = s" using assms by (cases s) auto
  moreover have "dropWhile is_space (rev s) = rev s"
    using assms by (cases s rule: rev_cases) auto
  ultimately show ?thesis by (simp add: strip_def)
qed

lemma py_int_int_str: "py_int (int_str i) = Some i"
proof -
  have dig: "\<exists>d < 10. hd (nat_str n) = digit_char d" "\<exists>d < 10. last (nat_str n) = digit_char d" for n
    using nat_str_digits [of "hd (nat_str n)" n] nat_str_digits [of "last (nat_str n)" n] by auto
  have lst: "\<not> is_space (last (nat_str n))" for n using dig(2) [of n] by auto
  show ?thesis
  proof (cases "i < 0")
    case True
    let ?s = "CHR ''-'' # nat_str (nat (- i))"
    have "strip ?s = ?s" using lst by (intro strip_id) (auto simp: is_space_def)
    with True show ?thesis by (simp add: py_int_def int_str_def digits_int_nat_str)
  next
    case False
    let ?s = "nat_str (nat i)"
    obtain d cs where s: "?s = digit_char d # cs" "d < 10"
      using dig(1) [of "nat i"] by (metis list.collapse nat_str_nonempty)
    have "strip ?s = ?s" using lst dig(1) [of "nat i"] by (intro strip_id) auto
    with False s digits_int_nat_str [of "nat i"] show ?thesis
      by (simp add: py_int_def int_str_def)
  qed
qed

end
