(* ===== verification/Throttle.thy ===== *)
theory Throttle
  imports Py_Text
begin

text \<open>
  \<^verbatim>\<open>utils/throttle.py\<close>: the fixed-window attempt throttle over an injected key-value backend, and
  the in-process backend. The backend protocol is a record of verbs, each an effectful call that
  may raise; the locale \<open>throttle_verbs\<close> states the Redis contract the throttle relies on, and
  the in-process backend is its interpretation.
\<close>

subsection \<open>The backend protocol\<close>

record 'b throttle_backend =
  tb_incr :: "string \<Rightarrow> ('b, string, int) action"
  tb_expire :: "string \<Rightarrow> int \<Rightarrow> ('b, string, unit) action"
  tb_ttl :: "string \<Rightarrow> ('b, string, int) action"
  tb_get :: "string \<Rightarrow> ('b, string, string option) action"
  tb_delete :: "string \<Rightarrow> ('b, string, unit) action"
  tb_decr :: "(string \<Rightarrow> ('b, string, int) action) option"

datatype throttle_error =
    BackendError string
  | CounterNotInteger
  | TooManyRequests int \<comment> \<open>with its \<^verbatim>\<open>retry_after_seconds\<close>\<close>

record ThrottleStatus =
  ts_attempts :: int
  ts_blocked :: bool
  ts_retry_after_seconds :: int

record AttemptThrottle =
  th_max_attempts :: int
  th_window_seconds :: int
  th_namespace :: string
  th_fail_open :: bool

datatype throttle_init_error = MaxAttemptsBelowOne | WindowNotPositive

definition throttle_init ::
  "int \<Rightarrow> int \<Rightarrow> string \<Rightarrow> bool \<Rightarrow> throttle_init_error + AttemptThrottle" where
  "throttle_init max_attempts window_seconds namespace fail_open =
     (if max_attempts < 1 then Inl MaxAttemptsBelowOne
      else if window_seconds \<le> 0 then Inl WindowNotPositive
      else Inr \<lparr>th_max_attempts = max_attempts, th_window_seconds = window_seconds,
                th_namespace = namespace, th_fail_open = fail_open\<rparr>)"

subsection \<open>The throttle\<close>

definition throttle_key :: "AttemptThrottle \<Rightarrow> string \<Rightarrow> string" where
  "throttle_key th key = th_namespace th @ '':'' @ key"

definition status_of :: "AttemptThrottle \<Rightarrow> int \<Rightarrow> int \<Rightarrow> ThrottleStatus" where
  "status_of th attempts ttl =
     (let blocked = attempts \<ge> th_max_attempts th;
          retry = (if ttl \<noteq> 0 \<and> ttl > 0 then ttl else th_window_seconds th)
      in \<lparr>ts_attempts = attempts, ts_blocked = blocked,
          ts_retry_after_seconds = (if blocked then retry else 0)\<rparr>)"

definition empty_status :: ThrottleStatus where
  "empty_status = \<lparr>ts_attempts = 0, ts_blocked = False, ts_retry_after_seconds = 0\<rparr>"

text \<open>The \<^verbatim>\<open>except Exception\<close> branch: allow when failing open, re-raise otherwise.\<close>

definition degrade ::
  "AttemptThrottle \<Rightarrow> throttle_error \<Rightarrow> 'b \<Rightarrow> (throttle_error + ThrottleStatus) \<times> 'b" where
  "degrade th e s = (if th_fail_open th then Inr empty_status else Inl e, s)"

definition status ::
  "'b throttle_backend \<Rightarrow> AttemptThrottle \<Rightarrow> string \<Rightarrow> ('b, throttle_error, ThrottleStatus) action" where
  "status B th key s =
     (case tb_get B (throttle_key th key) s of
        (Inl e, s) \<Rightarrow> degrade th (BackendError e) s
      | (Inr raw, s) \<Rightarrow>
          (case (case raw of None \<Rightarrow> Some 0 | Some text \<Rightarrow> py_int text) of
             None \<Rightarrow> degrade th CounterNotInteger s
           | Some attempts \<Rightarrow>
               if attempts \<noteq> 0 then
                 (case tb_ttl B (throttle_key th key) s of
                    (Inl e, s) \<Rightarrow> degrade th (BackendError e) s
                  | (Inr ttl, s) \<Rightarrow> (Inr (status_of th attempts ttl), s))
               else (Inr (status_of th attempts 0), s)))"

definition hit ::
  "'b throttle_backend \<Rightarrow> AttemptThrottle \<Rightarrow> string \<Rightarrow> ('b, throttle_error, ThrottleStatus) action" where
  "hit B th key s =
     (case tb_incr B (throttle_key th key) s of
        (Inl e, s) \<Rightarrow> degrade th (BackendError e) s
      | (Inr attempts, s) \<Rightarrow>
          (case (if attempts = 1 then tb_expire B (throttle_key th key) (th_window_seconds th) s
                 else (Inr (), s)) of
             (Inl e, s) \<Rightarrow> degrade th (BackendError e) s
           | (Inr _, s) \<Rightarrow>
               (case tb_ttl B (throttle_key th key) s of
                  (Inl e, s) \<Rightarrow> degrade th (BackendError e) s
                | (Inr ttl, s) \<Rightarrow> (Inr (status_of th attempts ttl), s))))"

definition reset ::
  "'b throttle_backend \<Rightarrow> AttemptThrottle \<Rightarrow> string \<Rightarrow> ('b, throttle_error, unit) action" where
  "reset B th key s =
     (case tb_delete B (throttle_key th key) s of
        (Inl e, s) \<Rightarrow> (if th_fail_open th then Inr () else Inl (BackendError e), s)
      | (Inr _, s) \<Rightarrow> (Inr (), s))"

definition reserve ::
  "'b throttle_backend \<Rightarrow> AttemptThrottle \<Rightarrow> string \<Rightarrow> ('b, throttle_error, ThrottleStatus) action" where
  "reserve B th key s =
     (case hit B th key s of
        (Inl e, s) \<Rightarrow> (Inl e, s)
      | (Inr current, s) \<Rightarrow>
          if ts_attempts current > th_max_attempts th
          then (Inl (TooManyRequests (ts_retry_after_seconds current)), s)
          else (Inr current, s))"

definition release ::
  "'b throttle_backend \<Rightarrow> AttemptThrottle \<Rightarrow> string \<Rightarrow> ('b, throttle_error, unit) action" where
  "release B th key s =
     (case tb_decr B of
        None \<Rightarrow> (Inr (), s)
      | Some decr \<Rightarrow>
          (case decr (throttle_key th key) s of
             (Inl e, s) \<Rightarrow> (if th_fail_open th then Inr () else Inl (BackendError e), s)
           | (Inr remaining, s) \<Rightarrow>
               if remaining \<le> 0 then
                 (case tb_delete B (throttle_key th key) s of
                    (Inl e, s) \<Rightarrow> (if th_fail_open th then Inr () else Inl (BackendError e), s)
                  | (Inr _, s) \<Rightarrow> (Inr (), s))
               else (Inr (), s)))"

definition raise_if_blocked ::
  "'b throttle_backend \<Rightarrow> AttemptThrottle \<Rightarrow> string \<Rightarrow> ('b, throttle_error, ThrottleStatus) action" where
  "raise_if_blocked B th key s =
     (case status B th key s of
        (Inl e, s) \<Rightarrow> (Inl e, s)
      | (Inr current, s) \<Rightarrow>
          if ts_blocked current
          then (Inl (TooManyRequests (ts_retry_after_seconds current)), s)
          else (Inr current, s))"

text \<open>\<^verbatim>\<open>sha256(...).hexdigest()\<close> is a parameter.\<close>

definition login_throttle_key :: "(string \<Rightarrow> string) \<Rightarrow> string \<Rightarrow> string" where
  "login_throttle_key sha256_hex identifier = ''login:'' @ sha256_hex (lower (strip identifier))"

subsection \<open>The in-process backend\<close>

text \<open>
  The clock is a field: it does not move during one verb and advances between verbs.
\<close>

record mem_throttle =
  mt_clock :: real
  mt_counters :: "string \<rightharpoonup> int \<times> real option"

definition entry_expired :: "real \<Rightarrow> int \<times> real option \<Rightarrow> bool" where
  "entry_expired now entry = (case snd entry of None \<Rightarrow> False | Some expires_at \<Rightarrow> expires_at \<le> now)"

definition mem_live :: "string \<Rightarrow> mem_throttle \<Rightarrow> (int \<times> real option) option \<times> mem_throttle" where
  "mem_live name s =
     (case mt_counters s name of
        None \<Rightarrow> (None, s)
      | Some entry \<Rightarrow>
          if entry_expired (mt_clock s) entry
          then (None, s\<lparr>mt_counters := (mt_counters s)(name := None)\<rparr>)
          else (Some entry, s))"

definition evict_expired :: "mem_throttle \<Rightarrow> mem_throttle" where
  "evict_expired s = s\<lparr>mt_counters := (\<lambda>name.
     case mt_counters s name of
       None \<Rightarrow> None
     | Some entry \<Rightarrow> if entry_expired (mt_clock s) entry then None else Some entry)\<rparr>"

definition mem_bump :: "int \<Rightarrow> string \<Rightarrow> (mem_throttle, string, int) action" where
  "mem_bump delta name s =
     (case mem_live name s of (entry, s) \<Rightarrow>
        let count = (case entry of None \<Rightarrow> 0 | Some e \<Rightarrow> fst e) + delta;
            expires_at = (case entry of None \<Rightarrow> None | Some e \<Rightarrow> snd e)
        in (Inr count, s\<lparr>mt_counters := (mt_counters s)(name \<mapsto> (count, expires_at))\<rparr>))"

definition mem_incr :: "string \<Rightarrow> (mem_throttle, string, int) action" where
  "mem_incr name s = mem_bump 1 name (evict_expired s)"

definition mem_decr :: "string \<Rightarrow> (mem_throttle, string, int) action" where
  "mem_decr name s = mem_bump (- 1) name s"

definition mem_expire :: "string \<Rightarrow> int \<Rightarrow> (mem_throttle, string, unit) action" where
  "mem_expire name seconds s =
     (case mem_live name s of
        (None, s) \<Rightarrow> (Inr (), s)
      | (Some entry, s) \<Rightarrow>
          (Inr (), s\<lparr>mt_counters :=
             (mt_counters s)(name \<mapsto> (fst entry, Some (mt_clock s + of_int seconds)))\<rparr>))"

definition mem_ttl :: "string \<Rightarrow> (mem_throttle, string, int) action" where
  "mem_ttl name s =
     (case mem_live name s of
        (None, s) \<Rightarrow> (Inr (- 2), s)
      | (Some entry, s) \<Rightarrow>
          (case snd entry of
             None \<Rightarrow> (Inr (- 1), s)
           | Some expires_at \<Rightarrow> (Inr \<lceil>expires_at - mt_clock s\<rceil>, s)))"

definition mem_get :: "string \<Rightarrow> (mem_throttle, string, string option) action" where
  "mem_get name s =
     (case mem_live name s of
        (None, s) \<Rightarrow> (Inr None, s)
      | (Some entry, s) \<Rightarrow> (Inr (Some (int_str (fst entry))), s))"

definition mem_delete :: "string \<Rightarrow> (mem_throttle, string, unit) action" where
  "mem_delete name s = (Inr (), s\<lparr>mt_counters := (mt_counters s)(name := None)\<rparr>)"

definition mem_backend :: "mem_throttle throttle_backend" where
  "mem_backend = \<lparr>tb_incr = mem_incr, tb_expire = mem_expire, tb_ttl = mem_ttl,
     tb_get = mem_get, tb_delete = mem_delete, tb_decr = Some mem_decr\<rparr>"

definition mem_tick :: "real \<Rightarrow> mem_throttle \<Rightarrow> mem_throttle" where
  "mem_tick d s = s\<lparr>mt_clock := mt_clock s + d\<rparr>"

subsection \<open>The contract of the verbs\<close>

text \<open>
  \<open>view s k\<close> is the live entry under \<open>k\<close>: its count and, when a TTL was set, the instant it
  expires. \<open>tick\<close> lets time pass.
\<close>

fun entry_count :: "(int \<times> real option) option \<Rightarrow> int" where
  "entry_count None = 0"
| "entry_count (Some (c, x)) = c"

fun entry_expiry :: "(int \<times> real option) option \<Rightarrow> real option" where
  "entry_expiry None = None"
| "entry_expiry (Some (c, x)) = x"

fun survive :: "real \<Rightarrow> (int \<times> real option) option \<Rightarrow> (int \<times> real option) option" where
  "survive now (Some (c, Some e)) = (if e \<le> now then None else Some (c, Some e))"
| "survive now entry = entry"

locale throttle_verbs =
  fixes B :: "'b throttle_backend"
    and view :: "'b \<Rightarrow> string \<Rightarrow> (int \<times> real option) option"
    and now :: "'b \<Rightarrow> real"
    and tick :: "real \<Rightarrow> 'b \<Rightarrow> 'b"
  assumes verb_incr: "\<exists>s'. tb_incr B k s = (Inr (entry_count (view s k) + 1), s') \<and> now s' = now s \<and>
      view s' = (view s)(k \<mapsto> (entry_count (view s k) + 1, entry_expiry (view s k)))"
    and verb_decr: "tb_decr B = Some decr \<Longrightarrow>
      \<exists>s'. decr k s = (Inr (entry_count (view s k) - 1), s') \<and> now s' = now s \<and>
        view s' = (view s)(k \<mapsto> (entry_count (view s k) - 1, entry_expiry (view s k)))"
    and verb_expire: "0 < n \<Longrightarrow> \<exists>s'. tb_expire B k n s = (Inr (), s') \<and> now s' = now s \<and>
      view s' = (case view s k of None \<Rightarrow> view s
        | Some (c, x) \<Rightarrow> (view s)(k \<mapsto> (c, Some (now s + of_int n))))"
    and verb_ttl: "\<exists>t s'. tb_ttl B k s = (Inr t, s') \<and> now s' = now s \<and> view s' = view s \<and>
      (\<forall>e. entry_expiry (view s k) = Some e \<longrightarrow> t = \<lceil>e - now s\<rceil>)"
    and verb_get: "\<exists>raw s'. tb_get B k s = (Inr raw, s') \<and> now s' = now s \<and> view s' = view s \<and>
      (case raw of None \<Rightarrow> view s k = None
        | Some text \<Rightarrow> view s k \<noteq> None \<and> py_int text = Some (entry_count (view s k)))"
    and verb_delete: "\<exists>s'. tb_delete B k s = (Inr (), s') \<and> now s' = now s \<and>
      view s' = (view s)(k := None)"
    and live: "view s k = Some (c, Some e) \<Longrightarrow> now s < e"
    and tick_now: "now (tick d s) = now s + d"
    and tick_view: "0 \<le> d \<Longrightarrow> view (tick d s) k = survive (now s + d) (view s k)"
begin

lemma hit_effect:
  assumes "0 < th_window_seconds th" and k_def: "k = throttle_key th key"
  shows "\<exists>t s'. hit B th key s = (Inr (status_of th (entry_count (view s k) + 1) t), s') \<and>
    now s' = now s \<and>
    view s' = (view s)(k \<mapsto> (entry_count (view s k) + 1,
      if entry_count (view s k) = 0 then Some (now s + of_int (th_window_seconds th))
      else entry_expiry (view s k))) \<and>
    (\<forall>e. entry_expiry (view s' k) = Some e \<longrightarrow> t = \<lceil>e - now s\<rceil>)"
proof -
  let ?c = "entry_count (view s k)"
  obtain s1 where s1: "tb_incr B k s = (Inr (?c + 1), s1)" "now s1 = now s"
    "view s1 = (view s)(k \<mapsto> (?c + 1, entry_expiry (view s k)))"
    using verb_incr by blast
  obtain s2 where s2: "(if ?c + 1 = 1 then tb_expire B k (th_window_seconds th) s1 else (Inr (), s1))
      = (Inr (), s2)" "now s2 = now s1"
    "view s2 = (view s)(k \<mapsto> (?c + 1, if ?c = 0 then Some (now s + of_int (th_window_seconds th))
       else entry_expiry (view s k)))"
  proof (cases "?c = 0")
    case True
    obtain s2 where "tb_expire B k (th_window_seconds th) s1 = (Inr (), s2)" "now s2 = now s1"
      "view s2 = (case view s1 k of None \<Rightarrow> view s1
        | Some (c, x) \<Rightarrow> (view s1)(k \<mapsto> (c, Some (now s1 + of_int (th_window_seconds th)))))"
      using verb_expire [OF assms(1)] by blast
    with True s1(2,3) show ?thesis by (intro that [of s2]) simp_all
  next
    case False
    have "(if ?c + 1 = 1 then tb_expire B k (th_window_seconds th) s1 else (Inr (), s1)) = (Inr (), s1)"
      using False by simp
    moreover have "view s1 = (view s)(k \<mapsto> (?c + 1,
        if ?c = 0 then Some (now s + of_int (th_window_seconds th)) else entry_expiry (view s k)))"
      unfolding s1(3) using False by simp
    ultimately show ?thesis by (rule that [OF _ refl])
  qed
  obtain t s3 where s3: "tb_ttl B k s2 = (Inr t, s3)" "now s3 = now s2" "view s3 = view s2"
    "\<forall>e. entry_expiry (view s2 k) = Some e \<longrightarrow> t = \<lceil>e - now s2\<rceil>"
    using verb_ttl [of k s2] by (elim exE conjE) (rule that)
  have "hit B th key s = (Inr (status_of th (?c + 1) t), s3)"
    unfolding hit_def k_def [symmetric] s1(1) prod.case sum.case s2(1) s3(1) ..
  then show ?thesis using s1(2) s2(2,3) s3(2-4) by auto
qed

lemma status_effect:
  assumes k: "k = throttle_key th key"
  shows "\<exists>t s'. status B th key s = (Inr (status_of th (entry_count (view s k)) t), s') \<and>
    now s' = now s \<and> view s' = view s \<and>
    (\<forall>e. entry_count (view s k) \<noteq> 0 \<longrightarrow> entry_expiry (view s k) = Some e \<longrightarrow> t = \<lceil>e - now s\<rceil>)"
proof -
  let ?c = "entry_count (view s k)"
  obtain raw s1 where s1: "tb_get B k s = (Inr raw, s1)" "now s1 = now s" "view s1 = view s"
    and raw: "case raw of None \<Rightarrow> view s k = None
        | Some text \<Rightarrow> view s k \<noteq> None \<and> py_int text = Some ?c"
    using verb_get [of k s] by (elim exE conjE) (rule that)
  have read: "(case raw of None \<Rightarrow> Some 0 | Some text \<Rightarrow> py_int text) = Some ?c"
    using raw by (cases raw) auto
  obtain t s2 where s2: "tb_ttl B k s1 = (Inr t, s2)" "now s2 = now s1" "view s2 = view s1"
    "\<forall>e. entry_expiry (view s1 k) = Some e \<longrightarrow> t = \<lceil>e - now s1\<rceil>"
    using verb_ttl [of k s1] by (elim exE conjE) (rule that)
  show ?thesis
  proof (cases "?c = 0")
    case True
    have "status B th key s = (Inr (status_of th ?c 0), s1)"
      unfolding status_def k [symmetric] s1(1) prod.case sum.case read option.case
      using True by simp
    then show ?thesis using s1 True by auto
  next
    case False
    have "status B th key s = (Inr (status_of th ?c t), s2)"
      unfolding status_def k [symmetric] s1(1) prod.case sum.case read option.case s2(1)
      using False by simp
    then show ?thesis using s1 s2 by auto
  qed
qed

lemma release_effect:
  assumes "tb_decr B = Some decr" and k_def: "k = throttle_key th key"
  shows "\<exists>s'. release B th key s = (Inr (), s') \<and> now s' = now s \<and>
    view s' = (if entry_count (view s k) \<le> 1 then (view s)(k := None)
      else (view s)(k \<mapsto> (entry_count (view s k) - 1, entry_expiry (view s k))))"
proof -
  let ?c = "entry_count (view s k)"
  obtain s1 where s1: "decr k s = (Inr (?c - 1), s1)" "now s1 = now s"
    "view s1 = (view s)(k \<mapsto> (?c - 1, entry_expiry (view s k)))"
    using verb_decr [OF assms(1)] by blast
  obtain s2 where "tb_delete B k s1 = (Inr (), s2)" "now s2 = now s1" "view s2 = (view s1)(k := None)"
    using verb_delete by blast
  with s1 assms(1) show ?thesis unfolding release_def k_def by auto
qed

text \<open>Hits on one key, with the given delays between them, inside one window of \<open>w\<close> seconds.\<close>

lemma hits_in_window:
  assumes w: "0 < th_window_seconds th" and k: "k = throttle_key th key"
    and v: "view s k = Some (c, Some e)" and c: "1 \<le> c"
    and ds: "\<forall>d \<in> set ds. 0 \<le> d" and before: "now s + sum_list ds < e"
  shows "\<exists>s'. foldl (\<lambda>s d. snd (hit B th key (tick d s))) s ds = s' \<and>
    now s' = now s + sum_list ds \<and> view s' k = Some (c + int (length ds), Some e)"
  using v c ds before
proof (induction ds arbitrary: s c)
  case Nil
  then show ?case by simp
next
  case (Cons d ds)
  let ?s1 = "tick d s"
  have d: "0 \<le> d" and rest: "0 \<le> sum_list ds" using Cons.prems(3) by (auto intro: sum_list_nonneg)
  have n1: "now ?s1 = now s + d" by (rule tick_now)
  have v1: "view ?s1 k = Some (c, Some e)"
    using tick_view [OF d, of s k] Cons.prems(1,4) rest by auto
  obtain t s2 where s2: "hit B th key ?s1 = (Inr (status_of th (c + 1) t), s2)"
    "now s2 = now ?s1" "view s2 k = Some (c + 1, Some e)"
    using hit_effect [OF w k, of ?s1] v1 Cons.prems(2) by auto
  have "\<exists>s'. foldl (\<lambda>s d. snd (hit B th key (tick d s))) s2 ds = s' \<and>
    now s' = now s2 + sum_list ds \<and> view s' k = Some (c + 1 + int (length ds), Some e)"
    using Cons.IH [of s2 "c + 1"] Cons.prems s2 n1 by simp
  then show ?case using s2 n1 by (simp add: add.assoc)
qed

lemma window_run:
  assumes w: "0 < th_window_seconds th" and k: "k = throttle_key th key"
    and fresh: "view s k = None" and ds: "\<forall>d \<in> set ds. 0 \<le> d"
    and before: "sum_list ds < of_int (th_window_seconds th)"
    and run: "s' = foldl (\<lambda>s d. snd (hit B th key (tick d s))) (snd (hit B th key s)) ds"
  shows "now s' = now s + sum_list ds \<and>
    view s' k = Some (1 + int (length ds), Some (now s + of_int (th_window_seconds th)))"
proof -
  obtain t s1 where s1: "hit B th key s = (Inr (status_of th 1 t), s1)" "now s1 = now s"
    "view s1 k = Some (1, Some (now s + of_int (th_window_seconds th)))"
    using hit_effect [OF w k, of s] fresh by auto
  with hits_in_window [OF w k s1(3) _ ds] before run show ?thesis by simp
qed

lemma status_in_window:
  assumes w: "0 < th_window_seconds th" and k: "k = throttle_key th key"
    and v: "view s k = Some (c, Some e)" and c: "1 \<le> c"
    and e: "e \<le> now s + of_int (th_window_seconds th)"
  shows "\<exists>r. fst (status B th key s) = Inr r \<and> ts_attempts r = c \<and>
    (ts_blocked r \<longleftrightarrow> th_max_attempts th \<le> c) \<and>
    ts_retry_after_seconds r \<le> th_window_seconds th \<and>
    (if ts_blocked r then 0 < ts_retry_after_seconds r else ts_retry_after_seconds r = 0)"
proof -
  obtain t s2 where s2: "status B th key s = (Inr (status_of th c t), s2)" "t = \<lceil>e - now s\<rceil>"
    using status_effect [OF k, of s] v c by auto
  have "0 < t" "t \<le> th_window_seconds th"
    using live [OF v] e s2(2) by (simp_all add: ceiling_le_iff)
  with s2(1) w show ?thesis by (simp add: status_of_def Let_def)
qed

lemma status_after_window:
  assumes k: "k = throttle_key th key" and m: "1 \<le> th_max_attempts th"
    and v: "view s k = Some (c, Some e)" and d: "0 \<le> d" "e \<le> now s + d"
  shows "fst (status B th key (tick d s)) = Inr empty_status"
proof -
  have "view (tick d s) k = None" using tick_view [OF d(1), of s k] v d(2) by simp
  then show ?thesis
    using status_effect [OF k, of "tick d s"] m by (auto simp: status_of_def empty_status_def Let_def)
qed

end

subsection \<open>Concurrent callers\<close>

text \<open>
  \<^verbatim>\<open>reserve\<close> awaits the backend three times, and other callers run at each await. A caller is
  waiting, has its count, has set the window if it was first, or is decided; the count it was
  handed decides, whatever the counter says by then.
\<close>

datatype caller = Waiting | Counted int | Timed int | Admitted int | Refused int

inductive reserve_step ::
  "'b throttle_backend \<Rightarrow> AttemptThrottle \<Rightarrow> string \<Rightarrow>
    'b \<times> (nat \<Rightarrow> caller) \<Rightarrow> 'b \<times> (nat \<Rightarrow> caller) \<Rightarrow> bool"
  for B :: "'b throttle_backend" and th :: AttemptThrottle and key :: string where
  rs_incr: "pcs i = Waiting \<Longrightarrow> tb_incr B (throttle_key th key) s = (Inr n, s') \<Longrightarrow>
    reserve_step B th key (s, pcs) (s', pcs(i := Counted n))"
| rs_expire: "pcs i = Counted 1 \<Longrightarrow>
    tb_expire B (throttle_key th key) (th_window_seconds th) s = (Inr (), s') \<Longrightarrow>
    reserve_step B th key (s, pcs) (s', pcs(i := Timed 1))"
| rs_skip: "pcs i = Counted n \<Longrightarrow> n \<noteq> 1 \<Longrightarrow>
    reserve_step B th key (s, pcs) (s, pcs(i := Timed n))"
| rs_decide: "pcs i = Timed n \<Longrightarrow> tb_ttl B (throttle_key th key) s = (Inr t, s') \<Longrightarrow>
    reserve_step B th key (s, pcs)
      (s', pcs(i := if ts_attempts (status_of th n t) > th_max_attempts th
                    then Refused n else Admitted n))"

inductive reserve_reachable ::
  "'b throttle_backend \<Rightarrow> AttemptThrottle \<Rightarrow> string \<Rightarrow> 'b \<Rightarrow> 'b \<times> (nat \<Rightarrow> caller) \<Rightarrow> bool"
  for B :: "'b throttle_backend" and th :: AttemptThrottle and key :: string and s0 :: 'b where
  rr_start: "reserve_reachable B th key s0 (s0, \<lambda>_. Waiting)"
| rr_step: "reserve_reachable B th key s0 c \<Longrightarrow> reserve_step B th key c c' \<Longrightarrow>
    reserve_reachable B th key s0 c'"

fun handed :: "caller \<Rightarrow> int option" where
  "handed Waiting = None"
| "handed (Counted n) = Some n"
| "handed (Timed n) = Some n"
| "handed (Admitted n) = Some n"
| "handed (Refused n) = Some n"

text \<open>
  No two callers were handed the same count, every count handed out lies above the starting
  one and at most at the counter, and an admitted caller's count is within the budget.
\<close>

definition handed_ok :: "int \<Rightarrow> int \<Rightarrow> int \<Rightarrow> (nat \<Rightarrow> caller) \<Rightarrow> bool" where
  "handed_ok base counter budget pcs \<longleftrightarrow>
     (\<forall>i n. handed (pcs i) = Some n \<longrightarrow> base < n \<and> n \<le> counter) \<and>
     (\<forall>i j n. handed (pcs i) = Some n \<longrightarrow> handed (pcs j) = Some n \<longrightarrow> i = j) \<and>
     (\<forall>i n. pcs i = Admitted n \<longrightarrow> n \<le> budget)"

lemma handed_ok_next:
  assumes "handed_ok base counter budget pcs" and "pcs i = Waiting" and "base \<le> counter"
  shows "handed_ok base (counter + 1) budget (pcs(i := Counted (counter + 1)))"
  using assms unfolding handed_ok_def by (auto split: if_splits) fastforce+

lemma handed_ok_same:
  assumes "handed_ok base counter budget pcs" and "handed (pcs i) = Some n"
    and "handed pc = Some n" and "\<And>m. pc = Admitted m \<Longrightarrow> m \<le> budget"
  shows "handed_ok base counter budget (pcs(i := pc))"
  using assms unfolding handed_ok_def by (auto split: if_splits)

lemma admitted_bounded:
  assumes ok: "handed_ok base counter budget pcs"
  shows "finite {i. \<exists>n. pcs i = Admitted n} \<and>
    int (card {i. \<exists>n. pcs i = Admitted n}) \<le> max 0 (budget - base)"
proof -
  let ?A = "{i. \<exists>n. pcs i = Admitted n}"
  let ?f = "\<lambda>i. the (handed (pcs i))"
  have inj: "inj_on ?f ?A"
    using ok by (fastforce simp: inj_on_def handed_ok_def)
  have sub: "?f ` ?A \<subseteq> {base<..budget}"
  proof (rule image_subsetI)
    fix i assume "i \<in> ?A"
    then obtain n where n: "pcs i = Admitted n" by blast
    then have "handed (pcs i) = Some n" by simp
    with ok n have "base < n" "n \<le> budget" unfolding handed_ok_def by blast+
    then show "?f i \<in> {base<..budget}" using n by simp
  qed
  have fin: "finite ?A" using inj sub finite_subset finite_imageD by blast
  have "card ?A = card (?f ` ?A)" using inj by (simp add: card_image)
  also have "\<dots> \<le> card {base<..budget}" using sub by (intro card_mono) auto
  finally show ?thesis using fin by simp
qed

context throttle_verbs
begin

lemma reserve_step_ok:
  assumes "reserve_step B th key (s, pcs) (s', pcs')" and "0 < th_window_seconds th"
    and "handed_ok base (entry_count (view s (throttle_key th key))) (th_max_attempts th) pcs"
    and "base \<le> entry_count (view s (throttle_key th key))"
  shows "handed_ok base (entry_count (view s' (throttle_key th key))) (th_max_attempts th) pcs' \<and>
    base \<le> entry_count (view s' (throttle_key th key))"
  using assms(1)
proof (cases rule: reserve_step.cases)
  case (rs_incr i n)
  then have "entry_count (view s' (throttle_key th key)) = entry_count (view s (throttle_key th key)) + 1"
    "n = entry_count (view s (throttle_key th key)) + 1"
    using verb_incr [of "throttle_key th key" s] by auto
  then show ?thesis using rs_incr handed_ok_next [OF assms(3) _ assms(4)] assms(4) by simp
next
  case (rs_expire i)
  then have "entry_count (view s' (throttle_key th key)) = entry_count (view s (throttle_key th key))"
    using verb_expire [OF assms(2), of "throttle_key th key" s]
    by (auto split: option.splits prod.splits)
  then show ?thesis
    using rs_expire handed_ok_same [OF assms(3), of i 1 "Timed 1"] assms(4) by simp
next
  case (rs_skip i n)
  then show ?thesis using handed_ok_same [OF assms(3), of i n "Timed n"] assms(4) by simp
next
  case (rs_decide i n t)
  then have v: "view s' = view s" using verb_ttl [of "throttle_key th key" s] by auto
  show ?thesis
    using rs_decide v assms(4) handed_ok_same [OF assms(3), of i n "Refused n"]
      handed_ok_same [OF assms(3), of i n "Admitted n"]
    by (auto simp: status_of_def Let_def)
qed

lemma reserve_reachable_bound:
  assumes "reserve_reachable B th key s0 (s, pcs)" and "0 < th_window_seconds th"
  shows "finite {i. \<exists>n. pcs i = Admitted n} \<and> int (card {i. \<exists>n. pcs i = Admitted n}) \<le>
    max 0 (th_max_attempts th - entry_count (view s0 (throttle_key th key)))"
proof -
  let ?base = "entry_count (view s0 (throttle_key th key))"
  have "handed_ok ?base (entry_count (view (fst c) (throttle_key th key))) (th_max_attempts th) (snd c)
      \<and> ?base \<le> entry_count (view (fst c) (throttle_key th key))"
    if "reserve_reachable B th key s0 c" for c
    using that
  proof (induction rule: reserve_reachable.induct)
    case rr_start
    then show ?case by (simp add: handed_ok_def)
  next
    case (rr_step c c')
    then show ?case using assms(2) reserve_step_ok by (cases c, cases c') auto
  qed
  from this [OF assms(1)] show ?thesis by (auto dest: admitted_bounded)
qed

end

subsection \<open>The in-process backend keeps the contract\<close>

definition mem_view :: "mem_throttle \<Rightarrow> string \<Rightarrow> (int \<times> real option) option" where
  "mem_view s k = survive (mt_clock s) (mt_counters s k)"

lemma survive_eq:
  "survive t e = (case e of None \<Rightarrow> None | Some p \<Rightarrow> if entry_expired t p then None else Some p)"
proof (cases e)
  case None
  then show ?thesis by simp
next
  case (Some p)
  obtain c x where "p = (c, x)" by (cases p)
  with Some show ?thesis by (cases x) (simp_all add: entry_expired_def)
qed

lemma entry_expired_pair: "entry_expired t (c, x) = entry_expired t (0, x)"
  by (simp add: entry_expired_def)

lemma survive_idem [simp]: "survive t (survive t e) = survive t e"
  by (simp add: survive_eq split: option.split)

lemma survive_live: "survive t e = Some (c, x) \<Longrightarrow> survive t (Some (d, x)) = Some (d, x)"
  using entry_expired_pair [of t c x] entry_expired_pair [of t d x]
  by (auto simp: survive_eq split: option.splits if_splits)

lemma mem_view_updates [simp]:
  "mem_view (s\<lparr>mt_counters := (mt_counters s)(k := e)\<rparr>) = (mem_view s)(k := survive (mt_clock s) e)"
  by (simp add: mem_view_def fun_eq_iff)

lemma mem_view_evict [simp]: "mem_view (evict_expired s) = mem_view s"
  by (simp add: mem_view_def evict_expired_def fun_eq_iff survive_eq split: option.split)

lemma mem_live_view:
  "mem_view (snd (mem_live k s)) = mem_view s"
  "mt_clock (snd (mem_live k s)) = mt_clock s"
  "fst (mem_live k s) = mem_view s k"
  by (simp_all add: mem_view_def mem_live_def fun_eq_iff survive_eq split: option.split)

lemma mem_bump_effect:
  "\<exists>s'. mem_bump delta k s = (Inr (entry_count (mem_view s k) + delta), s') \<and> mt_clock s' = mt_clock s \<and>
    mem_view s' = (mem_view s)(k \<mapsto> (entry_count (mem_view s k) + delta, entry_expiry (mem_view s k)))"
proof -
  obtain e s1 where l: "mem_live k s = (e, s1)" by (cases "mem_live k s")
  with mem_live_view [of k s] have v: "mem_view s1 = mem_view s" "mt_clock s1 = mt_clock s"
    "e = mem_view s k" by simp_all
  have cnt: "(case e of None \<Rightarrow> 0 | Some p \<Rightarrow> fst p) = entry_count e"
    "(case e of None \<Rightarrow> None | Some p \<Rightarrow> snd p) = entry_expiry e"
    by (auto split: option.splits prod.splits)
  have "survive (mt_clock s1) (Some (entry_count e + delta, entry_expiry e)) =
      Some (entry_count e + delta, entry_expiry e)"
  proof (cases e)
    case None
    then show ?thesis by simp
  next
    case (Some p)
    then show ?thesis using survive_live [of "mt_clock s" "mt_counters s k" "fst p" "snd p"] v
      by (cases p) (simp add: mem_view_def)
  qed
  then show ?thesis using v l cnt by (simp add: mem_bump_def Let_def)
qed

lemma mem_live_split:
  obtains e s1 where "mem_live k s = (e, s1)" "mem_view s1 = mem_view s" "mt_clock s1 = mt_clock s"
    "e = mem_view s k"
  using mem_live_view [of k s] by (cases "mem_live k s") auto

lemma mem_expire_effect:
  assumes "0 < n"
  shows "\<exists>s'. mem_expire k n s = (Inr (), s') \<and> mt_clock s' = mt_clock s \<and>
    mem_view s' = (case mem_view s k of None \<Rightarrow> mem_view s
      | Some (c, x) \<Rightarrow> (mem_view s)(k \<mapsto> (c, Some (mt_clock s + of_int n))))"
proof (rule mem_live_split [of k s])
  fix e s1
  assume "mem_live k s = (e, s1)" "mem_view s1 = mem_view s" "mt_clock s1 = mt_clock s"
    "e = mem_view s k"
  then show ?thesis using assms by (simp add: mem_expire_def split: option.split prod.split)
qed

lemma mem_ttl_effect:
  "\<exists>t s'. mem_ttl k s = (Inr t, s') \<and> mt_clock s' = mt_clock s \<and> mem_view s' = mem_view s \<and>
    (\<forall>e. entry_expiry (mem_view s k) = Some e \<longrightarrow> t = \<lceil>e - mt_clock s\<rceil>)"
proof (rule mem_live_split [of k s])
  fix e s1
  assume "mem_live k s = (e, s1)" "mem_view s1 = mem_view s" "mt_clock s1 = mt_clock s"
    "e = mem_view s k"
  then show ?thesis by (cases e) (auto simp: mem_ttl_def split: option.split)
qed

lemma mem_get_effect:
  "\<exists>raw s'. mem_get k s = (Inr raw, s') \<and> mt_clock s' = mt_clock s \<and> mem_view s' = mem_view s \<and>
    (case raw of None \<Rightarrow> mem_view s k = None
      | Some text \<Rightarrow> mem_view s k \<noteq> None \<and> py_int text = Some (entry_count (mem_view s k)))"
proof (rule mem_live_split [of k s])
  fix e s1
  assume "mem_live k s = (e, s1)" "mem_view s1 = mem_view s" "mt_clock s1 = mt_clock s"
    "e = mem_view s k"
  then show ?thesis by (cases "mem_view s k") (auto simp: mem_get_def py_int_int_str)
qed

interpretation mem: throttle_verbs mem_backend mem_view mt_clock mem_tick
proof
  fix k s
  show "\<exists>s'. tb_incr mem_backend k s = (Inr (entry_count (mem_view s k) + 1), s') \<and>
      mt_clock s' = mt_clock s \<and>
      mem_view s' = (mem_view s)(k \<mapsto> (entry_count (mem_view s k) + 1, entry_expiry (mem_view s k)))"
    using mem_bump_effect [of 1 k "evict_expired s"]
    by (simp add: mem_backend_def mem_incr_def) (simp add: evict_expired_def)
next
  fix decr k s
  assume "tb_decr mem_backend = Some decr"
  then show "\<exists>s'. decr k s = (Inr (entry_count (mem_view s k) - 1), s') \<and> mt_clock s' = mt_clock s \<and>
      mem_view s' = (mem_view s)(k \<mapsto> (entry_count (mem_view s k) - 1, entry_expiry (mem_view s k)))"
    using mem_bump_effect [of "- 1" k s] by (auto simp: mem_backend_def mem_decr_def)
next
  fix k s c e
  assume "mem_view s k = Some (c, Some e)"
  then show "mt_clock s < e"
    by (auto simp: mem_view_def survive_eq entry_expired_def split: option.splits if_splits)
next
  fix d s k
  assume "0 \<le> (d :: real)"
  then show "mem_view (mem_tick d s) k = survive (mt_clock s + d) (mem_view s k)"
    by (auto simp: mem_view_def mem_tick_def survive_eq entry_expired_def split: option.splits)
qed (simp_all add: mem_backend_def mem_expire_effect mem_ttl_effect mem_get_effect mem_delete_def
      mem_tick_def)

subsection \<open>Properties\<close>

definition demo_throttle :: AttemptThrottle where
  "demo_throttle = \<lparr>th_max_attempts = 2, th_window_seconds = 900, th_namespace = ''t'', th_fail_open = True\<rparr>"

definition fresh_backend :: mem_throttle where
  "fresh_backend = \<lparr>mt_clock = 0, mt_counters = Map.empty\<rparr>"




text \<open>
  A window runs its course on the in-process backend: after a first failure on a fresh key
  and any further failures at times inside the window, \<^verbatim>\<open>status\<close> counts exactly the failures made,
  blocks exactly when they reach the budget, and reports a wait that is positive and at most the
  window; once the window has passed since the first failure, the key is unblocked and back at
  zero, however often it was hit.
\<close>

theorem throttle_window:
  assumes w: "0 < th_window_seconds th" and m: "1 \<le> th_max_attempts th"
    and fresh: "mem_view s (throttle_key th key) = None"
    and ds: "\<forall>d \<in> set ds. 0 \<le> d" and before: "sum_list ds < of_int (th_window_seconds th)"
    and late: "of_int (th_window_seconds th) \<le> sum_list ds + rest"
    and run: "s' = foldl (\<lambda>s d. snd (hit mem_backend th key (mem_tick d s)))
                (snd (hit mem_backend th key s)) ds"
  shows "(\<exists>r. fst (status mem_backend th key s') = Inr r \<and> ts_attempts r = 1 + int (length ds) \<and>
      (ts_blocked r \<longleftrightarrow> th_max_attempts th \<le> 1 + int (length ds)) \<and>
      ts_retry_after_seconds r \<le> th_window_seconds th \<and>
      (if ts_blocked r then 0 < ts_retry_after_seconds r else ts_retry_after_seconds r = 0)) \<and>
    fst (status mem_backend th key (mem_tick rest s')) = Inr empty_status"
proof -
  note v = mem.window_run [OF w refl fresh ds before run]
  have "0 \<le> sum_list ds" using ds by (intro sum_list_nonneg) auto
  moreover have "0 \<le> rest" using before late by linarith
  ultimately show ?thesis
    using v late mem.status_in_window [OF w refl conjunct2 [OF v]]
      mem.status_after_window [OF refl m conjunct2 [OF v], of rest]
    by simp
qed

theorem throttle_window_witness:
  "\<exists>s'. fst (status mem_backend demo_throttle ''k'' s') =
       Inr \<lparr>ts_attempts = 3, ts_blocked = True, ts_retry_after_seconds = 880\<rparr> \<and>
     fst (status mem_backend demo_throttle ''k'' (mem_tick 880 s')) = Inr empty_status"
proof -
  let ?hit = "\<lambda>s. snd (hit mem_backend demo_throttle ''k'' s)"
  let ?s' = "foldl (\<lambda>s d. ?hit (mem_tick d s)) (?hit fresh_backend) [10, 10]"
  have fresh: "mem_view fresh_backend (throttle_key demo_throttle ''k'') = None"
    by (simp add: mem_view_def fresh_backend_def)
  have w: "0 < th_window_seconds demo_throttle" "1 \<le> th_max_attempts demo_throttle"
    by (simp_all add: demo_throttle_def)
  have d: "\<forall>d \<in> set [10, 10 :: real]. 0 \<le> d"
    "sum_list [10, 10 :: real] < of_int (th_window_seconds demo_throttle)"
    "of_int (th_window_seconds demo_throttle) \<le> sum_list [10, 10 :: real] + 880"
    by (simp_all add: demo_throttle_def)
  note v = mem.window_run [OF w(1) refl fresh d(1,2) refl]
  obtain t s2 where "status mem_backend demo_throttle ''k'' ?s' = (Inr (status_of demo_throttle 3 t), s2)"
    "t = 880"
    using mem.status_effect [OF refl, of demo_throttle "''k''" ?s'] v
    by (auto simp: demo_throttle_def fresh_backend_def)
  then have "fst (status mem_backend demo_throttle ''k'' ?s') =
      Inr \<lparr>ts_attempts = 3, ts_blocked = True, ts_retry_after_seconds = 880\<rparr>"
    by (simp add: status_of_def demo_throttle_def Let_def)
  with throttle_window [OF w fresh d refl] show ?thesis by blast
qed

text \<open>
  A cache outage locks nobody out: with \<^verbatim>\<open>fail_open\<close>, whatever the backend does or raises,
  \<^verbatim>\<open>status\<close>, \<^verbatim>\<open>hit\<close>, \<^verbatim>\<open>reset\<close> and \<^verbatim>\<open>release\<close> never raise, and the only error of \<^verbatim>\<open>reserve\<close> and
  \<^verbatim>\<open>raise_if_blocked\<close> is the 429 of an exhausted budget.
\<close>

theorem fail_open_never_raises:
  assumes "th_fail_open th"
  shows "(\<exists>r. fst (status B th key s) = Inr r) \<and> (\<exists>r. fst (hit B th key s) = Inr r) \<and>
    fst (reset B th key s) = Inr () \<and> fst (release B th key s) = Inr () \<and>
    (\<forall>e. fst (reserve B th key s) = Inl e \<longrightarrow> (\<exists>n. e = TooManyRequests n)) \<and>
    (\<forall>e. fst (raise_if_blocked B th key s) = Inl e \<longrightarrow> (\<exists>n. e = TooManyRequests n))"
proof -
  have st: "\<exists>r. fst (status B th key s) = Inr r"
    using assms by (auto simp: status_def degrade_def split: prod.split sum.split option.split)
  have hi: "\<exists>r. fst (hit B th key s) = Inr r"
    using assms by (auto simp: hit_def degrade_def split: prod.split sum.split)
  moreover have "fst (reset B th key s) = Inr ()"
    using assms by (auto simp: reset_def split: prod.split sum.split)
  moreover have "fst (release B th key s) = Inr ()"
    using assms by (auto simp: release_def split: prod.split sum.split option.split)
  moreover have "\<exists>n. e = TooManyRequests n" if "fst (reserve B th key s) = Inl e" for e
    using that hi by (auto simp: reserve_def split: prod.splits sum.splits if_splits)
  moreover have "\<exists>n. e = TooManyRequests n" if "fst (raise_if_blocked B th key s) = Inl e" for e
    using that st by (auto simp: raise_if_blocked_def split: prod.splits sum.splits if_splits)
  ultimately show ?thesis using st by blast
qed

text \<open>A backend that is down.\<close>

definition down_backend :: "unit throttle_backend" where
  "down_backend = \<lparr>tb_incr = (\<lambda>k s. (Inl ''down'', s)), tb_expire = (\<lambda>k n s. (Inl ''down'', s)),
     tb_ttl = (\<lambda>k s. (Inl ''down'', s)), tb_get = (\<lambda>k s. (Inl ''down'', s)),
     tb_delete = (\<lambda>k s. (Inl ''down'', s)), tb_decr = Some (\<lambda>k s. (Inl ''down'', s))\<rparr>"

theorem fail_open_never_raises_witness:
  "fst (reserve down_backend demo_throttle ''k'' ()) = Inr empty_status \<and>
   fst (reset down_backend demo_throttle ''k'' ()) = Inr ()"
  using fail_open_never_raises [of demo_throttle down_backend "''k''" "()"]
  by (simp add: reserve_def hit_def down_backend_def degrade_def demo_throttle_def empty_status_def)

end
