(* ===== verification/Retry.thy ===== *)
theory Retry
  imports Prelude
begin

text \<open>
  \<^verbatim>\<open>utils/retry.py\<close>: the bounded exponential backoff and the decorator that applies it. The
  decorated coroutine is an effectful call on a state of its own; a result carries, besides the
  value or exception that leaves the wrapper, the number of calls made and the sleeps between
  them. Log records are not modelled.
\<close>

record RetryPolicy =
  rp_max_attempts :: int
  rp_backoff_initial_seconds :: real
  rp_backoff_max_seconds :: real
  rp_retry_statuses :: "int list"
  rp_retry_on_read_timeout :: bool

definition default_policy :: RetryPolicy where
  "default_policy = \<lparr>rp_max_attempts = 3, rp_backoff_initial_seconds = 1 / 2,
     rp_backoff_max_seconds = 8, rp_retry_statuses = [429, 500, 502, 503, 504],
     rp_retry_on_read_timeout = True\<rparr>"

text \<open>
  \<^verbatim>\<open>sleep_for\<close> multiplies a float by the integer \<^verbatim>\<open>2 ** max(0, attempt - 1)\<close>. Python converts the
  integer to a double first and raises \<^verbatim>\<open>OverflowError\<close> from \<open>2 ^ 1024\<close> on: \<open>None\<close> is that error.
  (A product too large for a double is the float infinity, which the cap then removes.)
\<close>

definition backoff_exponent :: "int \<Rightarrow> nat" where
  "backoff_exponent attempt = nat (max 0 (attempt - 1))"

definition sleep_for :: "RetryPolicy \<Rightarrow> int \<Rightarrow> real option" where
  "sleep_for p attempt =
     (if backoff_exponent attempt \<ge> 1024 then None
      else Some (min (rp_backoff_initial_seconds p * 2 ^ backoff_exponent attempt)
                     (rp_backoff_max_seconds p)))"

datatype 'e retry_error =
    Raised 'e
  | SleepOverflow
  | Unreachable

record ('e, 'a, 's) retry_outcome =
  ro_result :: "'e retry_error + 'a"
  ro_state :: 's
  ro_calls :: int
  ro_sleeps :: "real list"

text \<open>
  The loop \<^verbatim>\<open>for attempt in range(1, max_attempts + 1)\<close>; falling out of it is the
  \<^verbatim>\<open>AssertionError\<close>.
\<close>

function retry_loop ::
  "RetryPolicy \<Rightarrow> ('e \<Rightarrow> bool) \<Rightarrow> ('s, 'e, 'a) action \<Rightarrow> int \<Rightarrow> 's \<Rightarrow> real list
    \<Rightarrow> ('e, 'a, 's) retry_outcome" where
  "retry_loop p transient fn attempt s sleeps =
     (if attempt > rp_max_attempts p
      then \<lparr>ro_result = Inl Unreachable, ro_state = s, ro_calls = attempt - 1, ro_sleeps = sleeps\<rparr>
      else case fn s of
        (Inr a, s1) \<Rightarrow>
          \<lparr>ro_result = Inr a, ro_state = s1, ro_calls = attempt, ro_sleeps = sleeps\<rparr>
      | (Inl e, s1) \<Rightarrow>
          if \<not> transient e \<or> attempt = rp_max_attempts p
          then \<lparr>ro_result = Inl (Raised e), ro_state = s1, ro_calls = attempt, ro_sleeps = sleeps\<rparr>
          else (case sleep_for p attempt of
            None \<Rightarrow>
              \<lparr>ro_result = Inl SleepOverflow, ro_state = s1, ro_calls = attempt, ro_sleeps = sleeps\<rparr>
          | Some delay \<Rightarrow> retry_loop p transient fn (attempt + 1) s1 (sleeps @ [delay])))"
  by pat_completeness auto
termination
  by (relation "measure (\<lambda>(p, transient, fn, attempt, s, sleeps). nat (rp_max_attempts p + 1 - attempt))")
     auto

declare retry_loop.simps [simp del]

definition async_retry ::
  "RetryPolicy option \<Rightarrow> ('e \<Rightarrow> bool) \<Rightarrow> ('s, 'e, 'a) action \<Rightarrow> 's \<Rightarrow> ('e, 'a, 's) retry_outcome option" where
  "async_retry policy transient fn s =
     (let resolved = (case policy of None \<Rightarrow> default_policy | Some p \<Rightarrow> p)
      in if rp_max_attempts resolved < 1 then None
         else Some (retry_loop resolved transient fn 1 s []))"

subsection \<open>The calls of the wrapped function\<close>

definition call_state :: "('s, 'e, 'a) action \<Rightarrow> 's \<Rightarrow> nat \<Rightarrow> 's" where
  "call_state fn s k = ((snd \<circ> fn) ^^ k) s"

definition call_result :: "('s, 'e, 'a) action \<Rightarrow> 's \<Rightarrow> nat \<Rightarrow> 'e + 'a" where
  "call_result fn s k = fst (fn (call_state fn s (k - 1)))"

definition fails_transiently :: "('e \<Rightarrow> bool) \<Rightarrow> 'e + 'a \<Rightarrow> bool" where
  "fails_transiently transient r = (case r of Inl e \<Rightarrow> transient e | Inr _ \<Rightarrow> False)"

definition backoffs :: "RetryPolicy \<Rightarrow> nat \<Rightarrow> real list" where
  "backoffs p n = map (\<lambda>k. the (sleep_for p (int k))) [1..<Suc n]"

lemma call_state_Suc: "call_state fn s (Suc k) = snd (fn (call_state fn s k))"
  by (simp add: call_state_def)

lemma sleep_for_Some: "k \<le> 1024 \<Longrightarrow> \<exists>d. sleep_for p k = Some d"
  by (simp add: sleep_for_def backoff_exponent_def)

lemma length_backoffs [simp]: "length (backoffs p n) = n"
  by (simp add: backoffs_def)

lemma backoffs_nth: "i < n \<Longrightarrow> backoffs p n ! i = the (sleep_for p (1 + int i))"
  by (simp add: backoffs_def del: upt_Suc)

lemma backoffs_Suc:
  "sleep_for p (int (Suc n)) = Some d \<Longrightarrow> backoffs p (Suc n) = backoffs p n @ [d]"
  by (simp add: backoffs_def)

text \<open>
  The loop entered for attempt \<open>j + 1\<close> after \<open>j\<close> transient failures ends at the first call that is
  not a transient failure, or at the last one.
\<close>

lemma retry_loop_spec:
  assumes "int j < rp_max_attempts p" and "rp_max_attempts p \<le> 1024"
    and "\<forall>i. 1 \<le> i \<and> i \<le> j \<longrightarrow> fails_transiently transient (call_result fn s i)"
    and "r = retry_loop p transient fn (int j + 1) (call_state fn s j) (backoffs p j)"
  shows "\<exists>k\<ge>1. int k \<le> rp_max_attempts p \<and> ro_calls r = int k \<and>
    (\<forall>i. 1 \<le> i \<and> i < k \<longrightarrow> fails_transiently transient (call_result fn s i)) \<and>
    (fails_transiently transient (call_result fn s k) \<longrightarrow> int k = rp_max_attempts p) \<and>
    ro_sleeps r = backoffs p (k - 1) \<and> ro_state r = call_state fn s k \<and>
    ro_result r = (case call_result fn s k of Inl e \<Rightarrow> Inl (Raised e) | Inr a \<Rightarrow> Inr a)"
  using assms
proof (induction "nat (rp_max_attempts p) - j" arbitrary: j r)
  case 0
  then show ?case by simp
next
  case (Suc n)
  let ?s = "call_state fn s j"
  have here: "call_result fn s (Suc j) = fst (fn ?s)" by (simp add: call_result_def)
  obtain o1 s1 where f: "fn ?s = (o1, s1)" by (cases "fn ?s")
  have s1: "call_state fn s (Suc j) = s1" using f by (simp add: call_state_Suc)
  show ?case
  proof (cases "fails_transiently transient o1 \<and> int j + 1 \<noteq> rp_max_attempts p")
    case False
    then have "r = \<lparr>ro_result = (case o1 of Inl e \<Rightarrow> Inl (Raised e) | Inr a \<Rightarrow> Inr a), ro_state = s1,
        ro_calls = int j + 1, ro_sleeps = backoffs p j\<rparr>"
      using Suc.prems(1,4) f
      by (subst Suc.prems(4), subst retry_loop.simps)
         (auto simp: fails_transiently_def split: sum.splits)
    then show ?thesis
      using False Suc.prems here f s1 by (intro exI [of _ "Suc j"]) (auto simp: less_Suc_eq_le)
  next
    case True
    then obtain e where e: "o1 = Inl e" "transient e"
      by (auto simp: fails_transiently_def split: sum.splits)
    obtain d where d: "sleep_for p (int j + 1) = Some d"
      using sleep_for_Some [of "int j + 1" p] Suc.prems(1,2) by auto
    have step: "r = retry_loop p transient fn (int (Suc j) + 1) (call_state fn s (Suc j)) (backoffs p (Suc j))"
      using Suc.prems(1,4) True e d f s1
      by (subst Suc.prems(4), subst retry_loop.simps) (simp add: backoffs_Suc add.commute)
    have lt: "int (Suc j) < rp_max_attempts p" using True Suc.prems(1) by simp
    have all: "\<forall>i. 1 \<le> i \<and> i \<le> Suc j \<longrightarrow> fails_transiently transient (call_result fn s i)"
      using Suc.prems(3) here f True by (auto simp: le_Suc_eq)
    have "n = nat (rp_max_attempts p) - Suc j" using Suc.hyps(2) by simp
    from Suc.hyps(1) [OF this lt Suc.prems(2) all step] show ?thesis .
  qed
qed

lemma sleep_for_bounds:
  assumes "sleep_for p k = Some d" and "0 \<le> rp_backoff_initial_seconds p" and "0 \<le> rp_backoff_max_seconds p"
  shows "0 \<le> d" "d \<le> rp_backoff_max_seconds p"
  using assms by (auto simp: sleep_for_def split: if_splits)

subsection \<open>What the wrapper promises\<close>

abbreviation resolved_policy :: "RetryPolicy option \<Rightarrow> RetryPolicy" where
  "resolved_policy policy \<equiv> (case policy of None \<Rightarrow> default_policy | Some p \<Rightarrow> p)"

lemma async_retry_run:
  assumes "1 \<le> rp_max_attempts (resolved_policy policy)"
    and "rp_max_attempts (resolved_policy policy) \<le> 1024"
  obtains r k where "async_retry policy transient fn s = Some r" and "1 \<le> k"
    and "int k \<le> rp_max_attempts (resolved_policy policy)" and "ro_calls r = int k"
    and "\<forall>i. 1 \<le> i \<and> i < k \<longrightarrow> fails_transiently transient (call_result fn s i)"
    and "fails_transiently transient (call_result fn s k) \<longrightarrow>
          int k = rp_max_attempts (resolved_policy policy)"
    and "ro_sleeps r = backoffs (resolved_policy policy) (k - 1)"
    and "ro_state r = call_state fn s k"
    and "ro_result r = (case call_result fn s k of Inl e \<Rightarrow> Inl (Raised e) | Inr a \<Rightarrow> Inr a)"
proof -
  let ?p = "resolved_policy policy"
  let ?r = "retry_loop ?p transient fn 1 s []"
  have run: "async_retry policy transient fn s = Some ?r"
    using assms by (simp add: async_retry_def Let_def)
  have "?r = retry_loop ?p transient fn (int 0 + 1) (call_state fn s 0) (backoffs ?p 0)"
    by (simp add: call_state_def backoffs_def)
  from retry_loop_spec [OF _ assms(2) _ this] assms(1)
  obtain k where k: "1 \<le> k" "int k \<le> rp_max_attempts ?p" "ro_calls ?r = int k"
    "\<forall>i. 1 \<le> i \<and> i < k \<longrightarrow> fails_transiently transient (call_result fn s i)"
    "fails_transiently transient (call_result fn s k) \<longrightarrow> int k = rp_max_attempts ?p"
    "ro_sleeps ?r = backoffs ?p (k - 1)" "ro_state ?r = call_state fn s k"
    "ro_result ?r = (case call_result fn s k of Inl e \<Rightarrow> Inl (Raised e) | Inr a \<Rightarrow> Inr a)"
    by auto
  show ?thesis by (rule that [OF run k])
qed

lemma backoffs_within:
  assumes "int n \<le> 1024" and "0 \<le> rp_backoff_initial_seconds p" and "0 \<le> rp_backoff_max_seconds p"
  shows "d \<in> set (backoffs p n) \<Longrightarrow> 0 \<le> d \<and> d \<le> rp_backoff_max_seconds p"
    and "sum_list (backoffs p n) \<le> real n * rp_backoff_max_seconds p"
proof -
  show each: "0 \<le> d \<and> d \<le> rp_backoff_max_seconds p" if "d \<in> set (backoffs p n)" for d
  proof -
    from that obtain k where k: "1 \<le> k" "k \<le> n" "d = the (sleep_for p (int k))"
      by (auto simp: backoffs_def less_Suc_eq_le)
    have "sleep_for p (int k) = Some d"
      using sleep_for_Some [of "int k" p] k assms(1) by auto
    with sleep_for_bounds [OF this assms(2,3)] show ?thesis by simp
  qed
  have "sum_list (backoffs p n) \<le> sum_list (map (\<lambda>_. rp_backoff_max_seconds p) (backoffs p n))"
    using each sum_list_mono [of "backoffs p n" "\<lambda>d. d" "\<lambda>_. rp_backoff_max_seconds p"] by simp
  also have "\<dots> = real n * rp_backoff_max_seconds p"
    by (simp add: sum_list_triv map_replicate_const sum_list_replicate)
  finally show "sum_list (backoffs p n) \<le> real n * rp_backoff_max_seconds p" .
qed

lemma sleep_for_mono:
  assumes "sleep_for p i = Some a" and "sleep_for p j = Some b" and "i \<le> j"
    and "0 \<le> rp_backoff_initial_seconds p"
  shows "a \<le> b"
proof -
  have "backoff_exponent i \<le> backoff_exponent j"
    using assms(3) by (simp add: backoff_exponent_def)
  then have "(2 :: real) ^ backoff_exponent i \<le> 2 ^ backoff_exponent j" by simp
  then have "rp_backoff_initial_seconds p * 2 ^ backoff_exponent i
      \<le> rp_backoff_initial_seconds p * 2 ^ backoff_exponent j"
    using assms(4) by (rule mult_left_mono)
  then show ?thesis using assms(1,2) by (auto simp: sleep_for_def split: if_splits)
qed

definition flaky_call :: "(nat, string, nat) action" where
  "flaky_call n = (if n < 2 then (Inl ''reset'', n + 1) else (Inr n, n + 1))"

text \<open>
  With an attempt budget between 1 and 1024, \<^verbatim>\<open>async_retry\<close> always finishes and its outcome is
  the outcome of the first call that did not fail transiently: that call's value, or its own
  exception unwrapped. Every earlier call failed with a transient exception, and an exception that
  is transient comes out only when the budget is used up. The number of calls never exceeds
  \<^verbatim>\<open>max_attempts\<close>, and the function ran exactly that often on the state.
\<close>

theorem async_retry_first_outcome:
  assumes "1 \<le> rp_max_attempts (resolved_policy policy)"
    and "rp_max_attempts (resolved_policy policy) \<le> 1024"
  shows "\<exists>r k. async_retry policy transient fn s = Some r \<and> 1 \<le> k \<and> ro_calls r = int k \<and>
    int k \<le> rp_max_attempts (resolved_policy policy) \<and>
    (\<forall>i. 1 \<le> i \<and> i < k \<longrightarrow> fails_transiently transient (call_result fn s i)) \<and>
    (fails_transiently transient (call_result fn s k) \<longrightarrow>
       int k = rp_max_attempts (resolved_policy policy)) \<and>
    ro_state r = call_state fn s k \<and>
    ro_result r = (case call_result fn s k of Inl e \<Rightarrow> Inl (Raised e) | Inr a \<Rightarrow> Inr a)"
  using async_retry_run [OF assms, of transient fn s] by blast

theorem async_retry_first_outcome_witness:
  "\<exists>r k. async_retry None (\<lambda>e. e = ''reset'') flaky_call 0 = Some r \<and> ro_calls r = int k \<and>
     int k \<le> 3"
  using async_retry_first_outcome [of None "\<lambda>e. e = ''reset''" flaky_call 0]
  by (auto simp: default_policy_def)

text \<open>
  The waiting of one decorated call is bounded and never shrinks: it sleeps once between any
  two calls and never after the last one, every sleep is at most \<^verbatim>\<open>backoff_max_seconds\<close> and not
  shorter than the one before it, and the total is at most \<^verbatim>\<open>max_attempts - 1\<close> times the cap.
\<close>

theorem async_retry_waits_bounded:
  assumes "1 \<le> rp_max_attempts (resolved_policy policy)"
    and "rp_max_attempts (resolved_policy policy) \<le> 1024"
    and "0 \<le> rp_backoff_initial_seconds (resolved_policy policy)"
    and "0 \<le> rp_backoff_max_seconds (resolved_policy policy)"
  shows "\<exists>r. async_retry policy transient fn s = Some r \<and>
    int (length (ro_sleeps r)) = ro_calls r - 1 \<and> sorted (ro_sleeps r) \<and>
    (\<forall>d \<in> set (ro_sleeps r). 0 \<le> d \<and> d \<le> rp_backoff_max_seconds (resolved_policy policy)) \<and>
    sum_list (ro_sleeps r) \<le>
      real_of_int (rp_max_attempts (resolved_policy policy) - 1) *
        rp_backoff_max_seconds (resolved_policy policy)"
proof -
  let ?p = "resolved_policy policy"
  from async_retry_run [OF assms(1,2), of transient fn s]
  obtain r k where r: "async_retry policy transient fn s = Some r" "1 \<le> k" "int k \<le> rp_max_attempts ?p"
    "ro_calls r = int k" "ro_sleeps r = backoffs ?p (k - 1)" by blast
  have small: "int (k - 1) \<le> 1024" using r(2,3) assms(2) by simp
  have "sorted (ro_sleeps r)"
    unfolding sorted_iff_nth_mono r(5)
  proof (intro allI impI)
    fix i j assume "i \<le> j" and j: "j < length (backoffs ?p (k - 1))"
    moreover have "1 + int i \<le> 1024" "1 + int j \<le> 1024" using small \<open>i \<le> j\<close> j by auto
    then obtain a b where "sleep_for ?p (1 + int i) = Some a" "sleep_for ?p (1 + int j) = Some b"
      by (elim sleep_for_Some [THEN exE])
    ultimately show "backoffs ?p (k - 1) ! i \<le> backoffs ?p (k - 1) ! j"
      using sleep_for_mono [of ?p "1 + int i" a "1 + int j" b] assms(3)
      by (simp add: backoffs_nth)
  qed
  moreover have "sum_list (ro_sleeps r) \<le> real (k - 1) * rp_backoff_max_seconds ?p"
    using backoffs_within(2) [OF small assms(3,4)] r(5) by simp
  moreover have "real (k - 1) * rp_backoff_max_seconds ?p
      \<le> real_of_int (rp_max_attempts ?p - 1) * rp_backoff_max_seconds ?p"
    using r(2,3) assms(4) by (intro mult_right_mono) simp_all
  ultimately show ?thesis
    using r backoffs_within(1) [OF small assms(3,4)]
    by (intro exI [of _ r]) auto
qed

theorem async_retry_waits_bounded_witness:
  "\<exists>r. async_retry None (\<lambda>e. e = ''reset'') flaky_call 0 = Some r \<and> sorted (ro_sleeps r) \<and>
     sum_list (ro_sleeps r) \<le> 16"
  using async_retry_waits_bounded [of None "\<lambda>e. e = ''reset''" flaky_call 0]
  by (auto simp: default_policy_def)

end
