(* ===== verification/Http_Client.thy ===== *)
theory Http_Client
  imports Retry Py_Text
begin

text \<open>
  \<^verbatim>\<open>utils/http_client.py\<close>: the HTTP client with retries, a circuit breaker per host and the
  propagation of the request id. What \<^verbatim>\<open>httpx\<close>, the event loop and the clock do is a parameter: the
  record \<open>transport\<close>, over a world of its own. A client call runs on a \<open>net_state\<close>: the breakers
  of the client, the world, and the trace of what the call did to the outside (sends, sleeps, and
  for a stream the pieces handed to the consumer).
\<close>

subsection \<open>Bodies that can be sent twice\<close>

text \<open>A body argument, as far as the code looks at it; \<open>PySeq\<close> is a tuple or a list.\<close>

datatype pyval = PyNone | PyBytes string | PyStr string | PySeq "pyval list" | PyStream

datatype files_arg = NoFiles | FilesMap "(string \<times> pyval) list" | FilesSeq "pyval list"

datatype net_error = ConnectError | ReadTimeout | OtherHTTPError | OtherError

datatype 'r client_error =
    CircuitOpenError string
  | NetError net_error
  | HTTPStatusError 'r
  | RetrySleepOverflow
  | AssertionFailed
  | IndexErr

definition is_replayable_payload :: "pyval \<Rightarrow> bool" where
  "is_replayable_payload v =
     (case v of PyNone \<Rightarrow> True | PyBytes _ \<Rightarrow> True | PyStr _ \<Rightarrow> True | _ \<Rightarrow> False)"

text \<open>The payload of one file part; \<open>None\<close> is the \<^verbatim>\<open>IndexError\<close> on an empty tuple.\<close>

definition part_payload :: "pyval \<Rightarrow> pyval option" where
  "part_payload part =
     (let payload = (case part of
          PySeq xs \<Rightarrow> if length xs \<ge> 2 then xs ! 1 else part
        | _ \<Rightarrow> part)
      in case payload of
          PySeq xs \<Rightarrow> if length xs \<ge> 2 then Some (xs ! 1)
                     else if xs = [] then None else Some (xs ! 0)
        | _ \<Rightarrow> Some payload)"

fun parts_replayable :: "pyval list \<Rightarrow> bool option" where
  "parts_replayable [] = Some True"
| "parts_replayable (part # parts) =
     (case part_payload part of
        None \<Rightarrow> None
      | Some payload \<Rightarrow>
          if \<not> is_replayable_payload payload then Some False else parts_replayable parts)"

definition body_is_replayable :: "pyval \<Rightarrow> files_arg \<Rightarrow> bool option" where
  "body_is_replayable content files =
     (if \<not> is_replayable_payload content then Some False
      else case files of
        NoFiles \<Rightarrow> Some True
      | FilesMap items \<Rightarrow> parts_replayable (map (\<lambda>(name, v). PySeq [PyStr name, v]) items)
      | FilesSeq parts \<Rightarrow> parts_replayable parts)"

subsection \<open>The client, its breakers and what it talks to\<close>

record BreakerState =
  consecutive_failures :: int
  opened_at :: real

definition closed_breaker :: BreakerState where
  "closed_breaker = \<lparr>consecutive_failures = 0, opened_at = 0\<rparr>"

type_synonym headers = "(string \<times> string) list"

record http_client =
  hc_base_url :: string
  hc_timeout :: real
  hc_retry_policy :: RetryPolicy
  hc_failure_threshold :: int
  hc_recovery_seconds :: real
  hc_propagate_request_id :: bool
  hc_request_id_header :: string

definition REQUEST_ID_HEADER :: string where
  "REQUEST_ID_HEADER = ''X-Request-ID''"

text \<open>\<open>None\<close> is the \<^verbatim>\<open>ValueError\<close> for a blank header name.\<close>

definition http_client_init ::
  "string \<Rightarrow> real \<Rightarrow> RetryPolicy option \<Rightarrow> int \<Rightarrow> real \<Rightarrow> bool \<Rightarrow> string \<Rightarrow> http_client option" where
  "http_client_init base_url timeout retry_policy failure_threshold recovery_seconds
      propagate_request_id request_id_header =
     (if strip request_id_header = [] then None
      else Some \<lparr>hc_base_url = base_url, hc_timeout = timeout,
        hc_retry_policy = (case retry_policy of None \<Rightarrow> default_policy | Some p \<Rightarrow> p),
        hc_failure_threshold = failure_threshold, hc_recovery_seconds = recovery_seconds,
        hc_propagate_request_id = propagate_request_id,
        hc_request_id_header = strip request_id_header\<rparr>)"

record 'o http_request =
  rq_method :: string
  rq_url :: string
  rq_params :: 'o
  rq_json :: 'o
  rq_data :: 'o
  rq_content :: pyval
  rq_files :: files_arg
  rq_headers :: headers
  rq_timeout :: "real option"

record http_response =
  rsp_status :: int
  rsp_body :: string

datatype piece = Line string | Chunk string

text \<open>
  A streamed response: its status, the error that reading an error body would meet, the pieces of
  its body and the error that ends them early, if any.
\<close>

record stream_response =
  sr_status :: int
  sr_aread :: "net_error option"
  sr_lines :: "string list"
  sr_chunks :: "string list"
  sr_end :: "net_error option"

record ('o, 'w) transport =
  tr_send :: "'o http_request \<Rightarrow> 'w \<Rightarrow> (net_error + http_response) \<times> 'w"
  tr_stream :: "'o http_request \<Rightarrow> 'w \<Rightarrow> (net_error + stream_response) \<times> 'w"
  tr_sleep :: "real \<Rightarrow> 'w \<Rightarrow> 'w"
  tr_monotonic :: "'w \<Rightarrow> real"
  tr_url_host :: "string \<Rightarrow> string"
  tr_request_id :: "string option"

datatype net_event =
    Sent "net_error + http_response"
  | Opened "net_error + stream_response"
  | Slept real
  | Yielded piece

record 'w net_state =
  ns_breakers :: "string \<Rightarrow> BreakerState option"
  ns_world :: 'w
  ns_trace :: "net_event list"

fun contains_scheme :: "string \<Rightarrow> bool" where
  "contains_scheme [] = False"
| "contains_scheme (c # cs) = (startswith (c # cs) ''://'' \<or> contains_scheme cs)"

definition host_of :: "http_client \<Rightarrow> ('o, 'w) transport \<Rightarrow> string \<Rightarrow> string" where
  "host_of c t url =
     (let host = tr_url_host t (if contains_scheme url then url else hc_base_url c @ url)
      in if host = [] then ''_unknown_'' else host)"

definition breaker_of :: "'w net_state \<Rightarrow> string \<Rightarrow> BreakerState" where
  "breaker_of s host = (case ns_breakers s host of None \<Rightarrow> closed_breaker | Some b \<Rightarrow> b)"

definition put_breaker :: "string \<Rightarrow> BreakerState \<Rightarrow> 'w net_state \<Rightarrow> 'w net_state" where
  "put_breaker host b s = s\<lparr>ns_breakers := (ns_breakers s)(host \<mapsto> b)\<rparr>"

definition breaker_check ::
  "http_client \<Rightarrow> ('o, 'w) transport \<Rightarrow> string \<Rightarrow> ('w net_state, 'r client_error, unit) action" where
  "breaker_check c t host s =
     (if hc_failure_threshold c \<le> 0 then (Inr (), s)
      else
        let state = breaker_of s host; s1 = put_breaker host state s
        in if opened_at state = 0 then (Inr (), s1)
           else if tr_monotonic t (ns_world s) - opened_at state < hc_recovery_seconds c
           then (Inl (CircuitOpenError host), s1)
           else (Inr (), put_breaker host (state\<lparr>opened_at := 0\<rparr>) s))"

definition breaker_record ::
  "http_client \<Rightarrow> ('o, 'w) transport \<Rightarrow> string \<Rightarrow> bool \<Rightarrow> 'w net_state \<Rightarrow> 'w net_state" where
  "breaker_record c t host failed s =
     (if hc_failure_threshold c \<le> 0 then s
      else
        let state = breaker_of s host
        in if failed
           then let n = consecutive_failures state + 1
                in put_breaker host
                     \<lparr>consecutive_failures = n,
                      opened_at = (if n \<ge> hc_failure_threshold c
                                   then tr_monotonic t (ns_world s) else opened_at state)\<rparr> s
           else put_breaker host \<lparr>consecutive_failures = 0, opened_at = 0\<rparr> s)"

definition should_retry_error :: "http_client \<Rightarrow> net_error \<Rightarrow> bool" where
  "should_retry_error c exc =
     (if exc = ReadTimeout then rp_retry_on_read_timeout (hc_retry_policy c) else True)"

definition build_headers :: "http_client \<Rightarrow> ('o, 'w) transport \<Rightarrow> headers option \<Rightarrow> headers" where
  "build_headers c t explicit =
     (let headers = (case explicit of None \<Rightarrow> [] | Some h \<Rightarrow> h);
          wanted = lower (hc_request_id_header c)
      in if \<not> hc_propagate_request_id c then headers
         else if list_ex (\<lambda>(name, _). lower name = wanted) headers then headers
         else case tr_request_id t of
             None \<Rightarrow> headers
           | Some rid \<Rightarrow> dict_set (hc_request_id_header c) rid headers)"

subsection \<open>The request loop\<close>

definition catches :: "net_error \<Rightarrow> bool" where
  "catches exc \<longleftrightarrow> exc = ConnectError \<or> exc = ReadTimeout"

definition send_once ::
  "('o, 'w) transport \<Rightarrow> 'o http_request \<Rightarrow> 'w net_state \<Rightarrow> (net_error + http_response) \<times> 'w net_state" where
  "send_once t rq s =
     (case tr_send t rq (ns_world s) of
        (out, w) \<Rightarrow> (out, s\<lparr>ns_world := w, ns_trace := ns_trace s @ [Sent out]\<rparr>))"

definition sleep_state :: "('o, 'w) transport \<Rightarrow> real \<Rightarrow> 'w net_state \<Rightarrow> 'w net_state" where
  "sleep_state t d s = s\<lparr>ns_world := tr_sleep t d (ns_world s), ns_trace := ns_trace s @ [Slept d]\<rparr>"

text \<open>
  The loop \<^verbatim>\<open>for attempt in range(1, max_attempts + 1)\<close>. Falling out of it happens only when it
  ran no attempt at all, and is the \<^verbatim>\<open>assert last_exc is not None\<close>.
\<close>

function request_loop ::
  "http_client \<Rightarrow> ('o, 'w) transport \<Rightarrow> string \<Rightarrow> 'o http_request \<Rightarrow> int \<Rightarrow> int \<Rightarrow> 'w net_state
    \<Rightarrow> (http_response client_error + http_response) \<times> 'w net_state" where
  "request_loop c t host rq max_attempts attempt s =
     (if attempt > max_attempts then (Inl AssertionFailed, s)
      else case send_once t rq s of
        (Inl exc, s1) \<Rightarrow>
          if \<not> catches exc then (Inl (NetError exc), s1)
          else if attempt = max_attempts \<or> \<not> should_retry_error c exc
          then (Inl (NetError exc), breaker_record c t host True s1)
          else (case sleep_for (hc_retry_policy c) attempt of
            None \<Rightarrow> (Inl RetrySleepOverflow, s1)
          | Some d \<Rightarrow> request_loop c t host rq max_attempts (attempt + 1) (sleep_state t d s1))
      | (Inr response, s1) \<Rightarrow>
          if rsp_status response \<in> set (rp_retry_statuses (hc_retry_policy c))
          then if attempt = max_attempts
               then (Inr response, breaker_record c t host True s1)
               else (case sleep_for (hc_retry_policy c) attempt of
                 None \<Rightarrow> (Inl RetrySleepOverflow, s1)
               | Some d \<Rightarrow> request_loop c t host rq max_attempts (attempt + 1) (sleep_state t d s1))
          else (Inr response, breaker_record c t host False s1))"
  by pat_completeness auto
termination
  by (relation "measure (\<lambda>(c, t, host, rq, max_attempts, attempt, s). nat (max_attempts + 1 - attempt))")
     auto

declare request_loop.simps [simp del]

text \<open>The arguments of a call: the headers and the timeout are the caller's, still optional.\<close>

definition prepared ::
  "http_client \<Rightarrow> ('o, 'w) transport \<Rightarrow> headers option \<Rightarrow> 'o http_request \<Rightarrow> 'o http_request" where
  "prepared c t headers rq =
     rq\<lparr>rq_headers := build_headers c t headers,
        rq_timeout := (case rq_timeout rq of None \<Rightarrow> Some (hc_timeout c) | Some x \<Rightarrow> Some x)\<rparr>"

definition attempts_for :: "http_client \<Rightarrow> 'o http_request \<Rightarrow> int option" where
  "attempts_for c rq =
     map_option (\<lambda>replayable. if replayable then rp_max_attempts (hc_retry_policy c) else 1)
       (body_is_replayable (rq_content rq) (rq_files rq))"

definition http_request ::
  "http_client \<Rightarrow> ('o, 'w) transport \<Rightarrow> headers option \<Rightarrow> 'o http_request
    \<Rightarrow> ('w net_state, http_response client_error, http_response) action" where
  "http_request c t headers rq s =
     (let host = host_of c t (rq_url rq)
      in case breaker_check c t host s of
          (Inl e, s1) \<Rightarrow> (Inl e, s1)
        | (Inr _, s1) \<Rightarrow>
            (case attempts_for c rq of
               None \<Rightarrow> (Inl IndexErr, s1)
             | Some n \<Rightarrow> request_loop c t host (prepared c t headers rq) n 1 s1))"

definition http_get where "http_get c t headers rq = http_request c t headers (rq\<lparr>rq_method := ''GET''\<rparr>)"
definition http_post where "http_post c t headers rq = http_request c t headers (rq\<lparr>rq_method := ''POST''\<rparr>)"
definition http_put where "http_put c t headers rq = http_request c t headers (rq\<lparr>rq_method := ''PUT''\<rparr>)"
definition http_patch where "http_patch c t headers rq = http_request c t headers (rq\<lparr>rq_method := ''PATCH''\<rparr>)"
definition http_delete where "http_delete c t headers rq = http_request c t headers (rq\<lparr>rq_method := ''DELETE''\<rparr>)"

subsection \<open>Streaming\<close>

text \<open>
  The generator \<^verbatim>\<open>_stream\<close>, run by a consumer that takes every piece. A body that breaks before
  its first piece is still an open failure for the loop: only a piece handed out commits it.
\<close>

definition open_stream ::
  "('o, 'w) transport \<Rightarrow> 'o http_request \<Rightarrow> 'w net_state \<Rightarrow> (net_error + stream_response) \<times> 'w net_state" where
  "open_stream t rq s =
     (case tr_stream t rq (ns_world s) of
        (out, w) \<Rightarrow> (out, s\<lparr>ns_world := w, ns_trace := ns_trace s @ [Opened out]\<rparr>))"

definition yield_pieces :: "piece list \<Rightarrow> 'w net_state \<Rightarrow> 'w net_state" where
  "yield_pieces ps s = s\<lparr>ns_trace := ns_trace s @ map Yielded ps\<rparr>"

definition is_success :: "int \<Rightarrow> bool" where
  "is_success status \<longleftrightarrow> 200 \<le> status \<and> status \<le> 299"

definition is_error :: "int \<Rightarrow> bool" where
  "is_error status \<longleftrightarrow> 400 \<le> status \<and> status \<le> 599"

definition pieces_of :: "bool \<Rightarrow> stream_response \<Rightarrow> piece list" where
  "pieces_of lines r = (if lines then map Line (sr_lines r) else map Chunk (sr_chunks r))"

text \<open>
  What the body of the \<^verbatim>\<open>async with\<close> does with an opened response on its last word: the exception
  that leaves it, or nothing, and whether a piece was yielded.
\<close>

datatype stream_exit = Finished | Broken net_error | StatusRaised

definition stream_body ::
  "http_client \<Rightarrow> ('o, 'w) transport \<Rightarrow> string \<Rightarrow> bool \<Rightarrow> stream_response \<Rightarrow> 'w net_state
    \<Rightarrow> stream_exit \<times> bool \<times> 'w net_state" where
  "stream_body c t host lines r s =
     (if is_error (sr_status r) \<and> sr_aread r = Some OtherError then (Broken OtherError, False, s)
      else if \<not> is_success (sr_status r) then (StatusRaised, False, s)
      else
        let s1 = yield_pieces (pieces_of lines r) (breaker_record c t host False s);
            yielded = (pieces_of lines r \<noteq> [])
        in case sr_end r of
            None \<Rightarrow> (Finished, yielded, s1)
          | Some exc \<Rightarrow> (Broken exc, yielded, s1))"

function stream_loop ::
  "http_client \<Rightarrow> ('o, 'w) transport \<Rightarrow> string \<Rightarrow> bool \<Rightarrow> 'o http_request \<Rightarrow> int \<Rightarrow> int \<Rightarrow> 'w net_state
    \<Rightarrow> (stream_response client_error + unit) \<times> 'w net_state" where
  "stream_loop c t host lines rq max_attempts attempt s =
     (if attempt > max_attempts then (Inr (), s)
      else
        let on_network_error = (\<lambda>exc yielded s1.
              if \<not> catches exc then (Inl (NetError exc), s1)
              else if yielded \<or> attempt = max_attempts \<or> \<not> should_retry_error c exc
              then (Inl (NetError exc), breaker_record c t host True s1)
              else (case sleep_for (hc_retry_policy c) attempt of
                None \<Rightarrow> (Inl RetrySleepOverflow, s1)
              | Some d \<Rightarrow> stream_loop c t host lines rq max_attempts (attempt + 1) (sleep_state t d s1)))
        in case open_stream t rq s of
            (Inl exc, s1) \<Rightarrow> on_network_error exc False s1
          | (Inr r, s1) \<Rightarrow>
              if sr_status r \<in> set (rp_retry_statuses (hc_retry_policy c)) \<and> attempt \<noteq> max_attempts
              then (case sleep_for (hc_retry_policy c) attempt of
                None \<Rightarrow> (Inl RetrySleepOverflow, s1)
              | Some d \<Rightarrow> stream_loop c t host lines rq max_attempts (attempt + 1) (sleep_state t d s1))
              else case stream_body c t host lines r s1 of
                  (Finished, _, s2) \<Rightarrow> (Inr (), s2)
                | (Broken exc, yielded, s2) \<Rightarrow> on_network_error exc yielded s2
                | (StatusRaised, _, s2) \<Rightarrow> (Inl (HTTPStatusError r), breaker_record c t host True s2))"
  by pat_completeness auto
termination
  by (relation "measure (\<lambda>(c, t, host, lines, rq, max_attempts, attempt, s). nat (max_attempts + 1 - attempt))")
     auto

declare stream_loop.simps [simp del]

definition stream_pieces ::
  "http_client \<Rightarrow> ('o, 'w) transport \<Rightarrow> bool \<Rightarrow> headers option \<Rightarrow> 'o http_request
    \<Rightarrow> ('w net_state, stream_response client_error, unit) action" where
  "stream_pieces c t lines headers rq s =
     (let host = host_of c t (rq_url rq)
      in case breaker_check c t host s of
          (Inl e, s1) \<Rightarrow> (Inl e, s1)
        | (Inr _, s1) \<Rightarrow>
            (case attempts_for c rq of
               None \<Rightarrow> (Inl IndexErr, s1)
             | Some n \<Rightarrow> stream_loop c t host lines (prepared c t headers rq) n 1 s1))"

text \<open>
  The two public generators: the pieces they hand on, decoded or encoded when the inner generator
  gave the other kind (which it does not).
\<close>

definition yielded_by :: "net_event list \<Rightarrow> piece list" where
  "yielded_by events = concat (map (\<lambda>e. case e of Yielded p \<Rightarrow> [p] | _ \<Rightarrow> []) events)"

fun piece_text :: "piece \<Rightarrow> string" where
  "piece_text (Line s) = s" | "piece_text (Chunk s) = s"

definition http_stream ::
  "http_client \<Rightarrow> ('o, 'w) transport \<Rightarrow> headers option \<Rightarrow> 'o http_request \<Rightarrow> 'w net_state
    \<Rightarrow> (stream_response client_error + unit) \<times> string list \<times> 'w net_state" where
  "http_stream c t headers rq s =
     (case stream_pieces c t True headers rq s of (out, s1) \<Rightarrow>
        (out, map piece_text (drop (length (yielded_by (ns_trace s))) (yielded_by (ns_trace s1))), s1))"

definition http_stream_bytes ::
  "http_client \<Rightarrow> ('o, 'w) transport \<Rightarrow> headers option \<Rightarrow> 'o http_request \<Rightarrow> 'w net_state
    \<Rightarrow> (stream_response client_error + unit) \<times> string list \<times> 'w net_state" where
  "http_stream_bytes c t headers rq s =
     (case stream_pieces c t False headers rq s of (out, s1) \<Rightarrow>
        (out, map piece_text (drop (length (yielded_by (ns_trace s))) (yielded_by (ns_trace s1))), s1))"

subsection \<open>The circuit breaker over any history\<close>

lemmas breaker_simps = breaker_of_def put_breaker_def closed_breaker_def

text \<open>
  Any number of tasks share the client. What they do to its breakers is a sequence of atomic
  checks and records (both run under the client's lock) between which the world moves freely. The
  log lists, oldest first, the hosts and outcomes that were recorded.
\<close>

inductive circuit_run ::
  "http_client \<Rightarrow> ('o, 'w) transport \<Rightarrow> (string \<times> bool) list \<Rightarrow> 'w net_state \<Rightarrow> bool"
  for c :: http_client and t :: "('o, 'w) transport" where
  fresh: "ns_breakers s = (\<lambda>_. None) \<Longrightarrow> circuit_run c t [] s"
| moves: "circuit_run c t hist s \<Longrightarrow> circuit_run c t hist (s\<lparr>ns_world := w, ns_trace := tr\<rparr>)"
| checked: "circuit_run c t hist s \<Longrightarrow>
    circuit_run c t hist (snd (breaker_check c t host s :: (http_response client_error + unit) \<times> 'w net_state))"
| recorded: "circuit_run c t hist s \<Longrightarrow>
    circuit_run c t (hist @ [(host, failed)]) (breaker_record c t host failed s)"

definition trailing_failures :: "string \<Rightarrow> (string \<times> bool) list \<Rightarrow> nat" where
  "trailing_failures host hist =
     length (takeWhile (\<lambda>failed. failed) (map snd (filter (\<lambda>(h, _). h = host) (rev hist))))"

lemma trailing_failures_simps [simp]:
  "trailing_failures host [] = 0"
  "trailing_failures host (hist @ [(h, failed)]) =
     (if h \<noteq> host then trailing_failures host hist
      else if failed then Suc (trailing_failures host hist) else 0)"
  by (simp_all add: trailing_failures_def)

definition circuit_inv :: "http_client \<Rightarrow> (string \<times> bool) list \<Rightarrow> 'w net_state \<Rightarrow> string \<Rightarrow> bool" where
  "circuit_inv c hist s host \<longleftrightarrow>
     consecutive_failures (breaker_of s host) = int (trailing_failures host hist) \<and>
     (opened_at (breaker_of s host) \<noteq> 0 \<longrightarrow>
        hc_failure_threshold c \<le> int (trailing_failures host hist))"

lemma circuit_inv_check:
  assumes "circuit_inv c hist s host"
  shows "circuit_inv c hist (snd (breaker_check c t h s)) host"
  using assms
  by (auto simp: circuit_inv_def breaker_check_def breaker_simps Let_def split: option.splits if_splits)

lemma circuit_inv_record:
  assumes "circuit_inv c hist s host" and "0 < hc_failure_threshold c"
  shows "circuit_inv c (hist @ [(h, failed)]) (breaker_record c t h failed s) host"
  using assms
  by (cases "h = host"; cases failed)
     (auto simp: circuit_inv_def breaker_record_def breaker_simps Let_def split: option.splits)

lemma circuit_run_inv:
  assumes "circuit_run c t hist s" and "0 < hc_failure_threshold c"
  shows "circuit_inv c hist s host"
  using assms
proof (induction rule: circuit_run.induct)
  case (fresh s)
  then show ?case by (simp add: circuit_inv_def breaker_simps)
next
  case (moves hist s w tr)
  then show ?case by (simp add: circuit_inv_def breaker_of_def)
next
  case (checked hist s h)
  then show ?case by (simp add: circuit_inv_check)
next
  case (recorded hist s h failed)
  then show ?case by (simp add: circuit_inv_record)
qed

definition quiet_transport :: "(unit, real) transport" where
  "quiet_transport = \<lparr>tr_send = (\<lambda>_ w. (Inl ConnectError, w)), tr_stream = (\<lambda>_ w. (Inl ConnectError, w)),
     tr_sleep = (\<lambda>d w. w + d), tr_monotonic = (\<lambda>w. w), tr_url_host = (\<lambda>u. u), tr_request_id = Some ''r1''\<rparr>"

definition sample_client :: http_client where
  "sample_client = \<lparr>hc_base_url = ''http://up'', hc_timeout = 10, hc_retry_policy = default_policy,
     hc_failure_threshold = 2, hc_recovery_seconds = 30, hc_propagate_request_id = True,
     hc_request_id_header = REQUEST_ID_HEADER\<rparr>"

definition fresh_net :: "'w \<Rightarrow> 'w net_state" where
  "fresh_net w = \<lparr>ns_breakers = (\<lambda>_. None), ns_world = w, ns_trace = []\<rparr>"

lemma sample_circuit_run:
  "circuit_run sample_client quiet_transport [(''h'', True), (''h'', True)]
     (breaker_record sample_client quiet_transport ''h'' True
       (breaker_record sample_client quiet_transport ''h'' True (fresh_net 5)))"
  using circuit_run.recorded [OF circuit_run.recorded [OF circuit_run.fresh,
      of "fresh_net (5 :: real)" sample_client quiet_transport "''h''" True], of "''h''" True]
  by (simp add: fresh_net_def)

text \<open>
  Whatever tasks share the client and however their checks and records interleave, a host's
  breaker counts exactly the failures recorded since its last success, its circuit is open only if
  that count has reached the threshold, and a host below the threshold is never rejected. Hosts do
  not influence each other: the count is over the records of that host alone.
\<close>

theorem circuit_counts_trailing_failures:
  assumes "circuit_run c t hist s" and "0 < hc_failure_threshold c"
  shows "consecutive_failures (breaker_of s host) = int (trailing_failures host hist) \<and>
    (opened_at (breaker_of s host) \<noteq> 0 \<longrightarrow> hc_failure_threshold c \<le> int (trailing_failures host hist)) \<and>
    (int (trailing_failures host hist) < hc_failure_threshold c \<longrightarrow>
       fst (breaker_check c t host s :: (http_response client_error + unit) \<times> 'w net_state) = Inr ())"
  using circuit_run_inv [OF assms, of host]
  by (auto simp: circuit_inv_def breaker_check_def Let_def)

theorem circuit_counts_trailing_failures_witness:
  "consecutive_failures (breaker_of (breaker_record sample_client quiet_transport ''h'' True
     (breaker_record sample_client quiet_transport ''h'' True (fresh_net 5))) ''h'') = 2"
  using circuit_counts_trailing_failures [OF sample_circuit_run, of "''h''"]
  by (simp add: sample_client_def trailing_failures_def)

text \<open>
  While a host's circuit is open, that is after a failure brought its count to the threshold
  and until \<^verbatim>\<open>recovery_seconds\<close> have passed on the clock, both \<^verbatim>\<open>request\<close> and the streams raise
  \<^verbatim>\<open>CircuitOpenError\<close> at once: nothing is sent, nobody sleeps, the world and every breaker stay.
\<close>

theorem open_circuit_sends_nothing:
  assumes "0 < hc_failure_threshold c"
    and "hc_failure_threshold c \<le> consecutive_failures (breaker_of s0 host) + 1"
    and "tr_monotonic t (ns_world s0) \<noteq> 0"
    and "s = (breaker_record c t host True s0)\<lparr>ns_world := w, ns_trace := tr\<rparr>"
    and "tr_monotonic t w - tr_monotonic t (ns_world s0) < hc_recovery_seconds c"
    and "host_of c t (rq_url rq) = host"
  shows "http_request c t headers rq s = (Inl (CircuitOpenError host), s) \<and>
    stream_pieces c t lines headers rq s = (Inl (CircuitOpenError host), s)"
proof -
  obtain b where b: "ns_breakers s host = Some b" "opened_at b = tr_monotonic t (ns_world s0)"
    using assms(1,2,4) by (auto simp: breaker_record_def put_breaker_def Let_def)
  have w: "ns_world s = w" using assms(4) by simp
  have same: "put_breaker host b s = s"
    using b(1) by (simp add: put_breaker_def map_upd_triv)
  have "breaker_of s host = b" using b(1) by (simp add: breaker_of_def)
  then show ?thesis
    using b(2) assms(1,3,5,6) w same
    by (simp add: http_request_def stream_pieces_def breaker_check_def Let_def)
qed

definition sample_request :: "unit http_request" where
  "sample_request = \<lparr>rq_method = ''GET'', rq_url = ''/u'', rq_params = (), rq_json = (), rq_data = (),
     rq_content = PyNone, rq_files = NoFiles, rq_headers = [], rq_timeout = None\<rparr>"

definition tripping_net :: "real net_state" where
  "tripping_net = \<lparr>ns_breakers = (\<lambda>_. Some \<lparr>consecutive_failures = 1, opened_at = 0\<rparr>), ns_world = 5, ns_trace = []\<rparr>"

theorem open_circuit_sends_nothing_witness:
  "\<exists>s. fst (http_request sample_client quiet_transport None sample_request s) =
     Inl (CircuitOpenError (host_of sample_client quiet_transport ''/u''))"
  using open_circuit_sends_nothing [where c = sample_client and ?s0.0 = tripping_net
      and t = quiet_transport and host = "host_of sample_client quiet_transport ''/u''"
      and w = 20 and tr = "[]" and rq = sample_request and headers = None, OF _ _ _ refl]
  by (intro exI [of _ "(breaker_record sample_client quiet_transport
        (host_of sample_client quiet_transport ''/u'') True tripping_net)\<lparr>ns_world := 20, ns_trace := []\<rparr>"])
     (simp add: sample_client_def quiet_transport_def tripping_net_def breaker_of_def sample_request_def)

text \<open>
  A breaker that has recovered does not let a single probe through: the first check after
  \<^verbatim>\<open>recovery_seconds\<close> marks the circuit closed, so every later check passes too, at any time and for
  any number of concurrent requests, until one of them records a failure, and that one failure is
  enough to open it again.
\<close>

theorem half_open_admits_every_caller:
  assumes "0 < hc_failure_threshold c"
    and "hc_failure_threshold c \<le> consecutive_failures (breaker_of s host)"
    and "breaker_check c t host s = (Inr () :: 'r client_error + unit, s1)"
    and "s2 = s1\<lparr>ns_world := w, ns_trace := tr\<rparr>"
  shows "fst (breaker_check c t host s2 :: ('r client_error + unit) \<times> _) = Inr () \<and>
    opened_at (breaker_of (breaker_record c t host True s2) host) = tr_monotonic t w"
  using assms
  by (auto simp: breaker_check_def breaker_record_def breaker_simps Let_def split: if_splits option.splits)

theorem half_open_admits_every_caller_witness:
  "fst (breaker_check sample_client quiet_transport ''h''
     (snd (breaker_check sample_client quiet_transport ''h''
       \<lparr>ns_breakers = (\<lambda>_. Some \<lparr>consecutive_failures = 2, opened_at = 5\<rparr>), ns_world = 90, ns_trace = []\<rparr>
       :: (nat client_error + unit) \<times> _)) :: (nat client_error + unit) \<times> _) = Inr ()"
  using half_open_admits_every_caller [where c = sample_client and t = quiet_transport
      and s = "\<lparr>ns_breakers = (\<lambda>_. Some \<lparr>consecutive_failures = 2, opened_at = 5\<rparr>), ns_world = 90, ns_trace = []\<rparr>"
      and host = "''h''" and w = 90 and tr = "[]", OF _ _ _ refl]
  by (simp add: sample_client_def quiet_transport_def breaker_check_def breaker_simps Let_def)

subsection \<open>What a request does\<close>

definition retryable :: "http_client \<Rightarrow> net_error + http_response \<Rightarrow> bool" where
  "retryable c o1 =
     (case o1 of
        Inl exc \<Rightarrow> catches exc \<and> should_retry_error c exc
      | Inr r \<Rightarrow> rsp_status r \<in> set (rp_retry_statuses (hc_retry_policy c)))"

definition settle ::
  "http_client \<Rightarrow> ('o, 'w) transport \<Rightarrow> string \<Rightarrow> net_error + http_response \<Rightarrow> 'w net_state \<Rightarrow> 'w net_state" where
  "settle c t host final s =
     (case final of
        Inl exc \<Rightarrow> if catches exc then breaker_record c t host True s else s
      | Inr r \<Rightarrow> breaker_record c t host
                  (rsp_status r \<in> set (rp_retry_statuses (hc_retry_policy c))) s)"

fun exchanges ::
  "RetryPolicy \<Rightarrow> int \<Rightarrow> (net_error + http_response) list \<Rightarrow> net_error + http_response \<Rightarrow> net_event list" where
  "exchanges p k [] final = [Sent final]"
| "exchanges p k (o1 # os) final = Sent o1 # Slept (the (sleep_for p k)) # exchanges p (k + 1) os final"

definition call_outcome :: "net_error + http_response \<Rightarrow> http_response client_error + http_response" where
  "call_outcome final = (case final of Inl exc \<Rightarrow> Inl (NetError exc) | Inr r \<Rightarrow> Inr r)"

lemma breaker_record_frame [simp]:
  "ns_trace (breaker_record c t host failed s) = ns_trace s"
  "ns_world (breaker_record c t host failed s) = ns_world s"
  by (simp_all add: breaker_record_def put_breaker_def Let_def)

lemma settle_frame [simp]: "ns_trace (settle c t host final s) = ns_trace s"
  by (simp add: settle_def split: sum.split)

lemma send_once_frame:
  "send_once t rq s = (out, s1) \<Longrightarrow>
     ns_trace s1 = ns_trace s @ [Sent out] \<and> ns_breakers s1 = ns_breakers s"
  by (auto simp: send_once_def split: prod.splits)

lemma sleep_state_frame [simp]:
  "ns_trace (sleep_state t d s) = ns_trace s @ [Slept d]"
  "ns_breakers (sleep_state t d s) = ns_breakers s"
  by (simp_all add: sleep_state_def)

text \<open>One round of the loop: either it ends here with this outcome, or it sleeps and goes on.\<close>

lemma request_loop_round:
  assumes "attempt \<le> n" and "attempt \<le> 1024" and "send_once t rq s = (out, s1)"
  shows "request_loop c t host rq n attempt s =
    (if retryable c out \<and> attempt \<noteq> n
     then request_loop c t host rq n (attempt + 1)
            (sleep_state t (the (sleep_for (hc_retry_policy c) attempt)) s1)
     else (call_outcome out, settle c t host out s1))"
proof -
  obtain d where "sleep_for (hc_retry_policy c) attempt = Some d"
    using sleep_for_Some [OF assms(2)] by blast
  then show ?thesis
    using assms
    by (subst request_loop.simps)
       (cases out; auto simp: retryable_def settle_def call_outcome_def)
qed

lemma request_loop_spec:
  assumes "attempt \<le> n" and "n \<le> 1024" and "request_loop c t host rq n attempt s = (out, s')"
  shows "\<exists>retried final s1.
    ns_trace s' = ns_trace s @ exchanges (hc_retry_policy c) attempt retried final \<and>
    int (length retried) \<le> n - attempt \<and> (\<forall>o1 \<in> set retried. retryable c o1) \<and>
    (retryable c final \<longrightarrow> int (length retried) = n - attempt) \<and>
    out = call_outcome final \<and> s' = settle c t host final s1 \<and> ns_breakers s1 = ns_breakers s"
  using assms
proof (induction "nat (n - attempt)" arbitrary: attempt s)
  case 0
  then have last: "attempt = n" by simp
  obtain o1 s1 where o1: "send_once t rq s = (o1, s1)" by (cases "send_once t rq s")
  from request_loop_round [OF 0(2) _ this] 0 last
  have "out = call_outcome o1" "s' = settle c t host o1 s1" by simp_all
  then show ?case
    using send_once_frame [OF o1] last
    by (intro exI [of _ "[]"] exI [of _ o1] exI [of _ s1]) simp
next
  case (Suc k)
  obtain o1 s1 where o1: "send_once t rq s = (o1, s1)" by (cases "send_once t rq s")
  note frame = send_once_frame [OF this]
  have small: "attempt \<le> 1024" using Suc.prems by simp
  note this_round = request_loop_round [OF Suc.prems(1) small o1, of c host]
  show ?case
  proof (cases "retryable c o1 \<and> attempt \<noteq> n")
    case False
    then have "out = call_outcome o1" "s' = settle c t host o1 s1"
      using this_round Suc.prems(3) by auto
    then show ?thesis
      using frame False Suc.prems(1)
      by (intro exI [of _ "[]"] exI [of _ o1] exI [of _ s1]) auto
  next
    case True
    let ?s = "sleep_state t (the (sleep_for (hc_retry_policy c) attempt)) s1"
    have next_round: "request_loop c t host rq n (attempt + 1) ?s = (out, s')"
      using this_round Suc.prems(3) True by simp
    have "k = nat (n - (attempt + 1))" "attempt + 1 \<le> n" using Suc.hyps(2) Suc.prems(1) True by auto
    from Suc.hyps(1) [OF this Suc.prems(2) next_round]
    obtain retried final s2 where rest:
      "ns_trace s' = ns_trace ?s @ exchanges (hc_retry_policy c) (attempt + 1) retried final"
      "int (length retried) \<le> n - (attempt + 1)" "\<forall>o1 \<in> set retried. retryable c o1"
      "retryable c final \<longrightarrow> int (length retried) = n - (attempt + 1)"
      "out = call_outcome final" "s' = settle c t host final s2" "ns_breakers s2 = ns_breakers ?s"
      by blast
    then show ?thesis
      using frame True
      by (intro exI [of _ "o1 # retried"] exI [of _ final] exI [of _ s2]) auto
  qed
qed

lemma breaker_check_frame:
  assumes "breaker_check c t host s = (out, s1)"
  shows "ns_trace s1 = ns_trace s" and "ns_world s1 = ns_world s"
    and "consecutive_failures (breaker_of s1 h) = consecutive_failures (breaker_of s h)"
  using assms
  by (auto simp: breaker_check_def breaker_simps Let_def split: if_splits option.splits)

definition failures_after :: "http_client \<Rightarrow> net_error + http_response \<Rightarrow> int \<Rightarrow> int" where
  "failures_after c final n =
     (case final of
        Inl exc \<Rightarrow> if catches exc then n + 1 else n
      | Inr r \<Rightarrow> if rsp_status r \<in> set (rp_retry_statuses (hc_retry_policy c)) then n + 1 else 0)"

lemma settle_failures:
  assumes "0 < hc_failure_threshold c"
  shows "consecutive_failures (breaker_of (settle c t host final s) host) =
    failures_after c final (consecutive_failures (breaker_of s host))"
  using assms
  by (auto simp: settle_def failures_after_def breaker_record_def breaker_simps Let_def split: sum.split)

definition flaky_transport :: "(unit, nat) transport" where
  "flaky_transport =
     \<lparr>tr_send = (\<lambda>_ w. (if w = 0 then Inl ReadTimeout
        else if w = 1 then Inr \<lparr>rsp_status = 503, rsp_body = ''busy''\<rparr>
        else Inr \<lparr>rsp_status = 404, rsp_body = ''gone''\<rparr>, w + 1)),
      tr_stream = (\<lambda>_ w. (Inr \<lparr>sr_status = (if w = 0 then 503 else 200), sr_aread = None,
        sr_lines = [''a'', ''b''], sr_chunks = [''ab''], sr_end = None\<rparr>, w + 1)),
      tr_sleep = (\<lambda>_ w. w), tr_monotonic = (\<lambda>w. real (w + 1)), tr_url_host = (\<lambda>u. u),
      tr_request_id = Some ''r1''\<rparr>"

lemma sample_attempts: "attempts_for sample_client sample_request = Some 3"
  by (simp add: attempts_for_def body_is_replayable_def is_replayable_payload_def
      sample_request_def sample_client_def default_policy_def)

lemma sample_check:
  "breaker_check sample_client flaky_transport host (fresh_net 0) =
     (Inr (), put_breaker host closed_breaker (fresh_net 0))"
  by (simp add: breaker_check_def sample_client_def breaker_simps fresh_net_def Let_def)

text \<open>
  A request that its breaker admits sends at least once and at most \<^verbatim>\<open>max_attempts\<close> times, with
  one backoff sleep between any two sends and none after the last. Everything before the final
  exchange was a retryable outcome (a status of the policy's list or a caught network error the
  policy retries), so a \<^verbatim>\<open>4xx\<close> outside that list is never sent again; a retryable outcome is final only
  when the attempts are used up. The caller gets the final exchange's response or its own error, and
  the breaker counts the call once: one more failure, back to zero, or untouched by a foreign error.
\<close>

theorem request_exchanges:
  assumes "attempts_for c rq = Some n" and "1 \<le> n" and "n \<le> 1024" and "0 < hc_failure_threshold c"
    and "breaker_check c t (host_of c t (rq_url rq)) s = (Inr () :: http_response client_error + unit, s0)"
  shows "\<exists>retried final s'. http_request c t headers rq s = (call_outcome final, s') \<and>
    ns_trace s' = ns_trace s @ exchanges (hc_retry_policy c) 1 retried final \<and>
    int (length retried) < n \<and> (\<forall>o1 \<in> set retried. retryable c o1) \<and>
    (retryable c final \<longrightarrow> int (length retried) + 1 = n) \<and>
    consecutive_failures (breaker_of s' (host_of c t (rq_url rq))) =
      failures_after c final (consecutive_failures (breaker_of s (host_of c t (rq_url rq))))"
proof -
  let ?host = "host_of c t (rq_url rq)"
  obtain out s' where run: "request_loop c t ?host (prepared c t headers rq) n 1 s0 = (out, s')"
    by (cases "request_loop c t ?host (prepared c t headers rq) n 1 s0")
  have req: "http_request c t headers rq s = (out, s')"
    using assms run by (simp add: http_request_def Let_def)
  note frame = breaker_check_frame [OF assms(5)]
  from request_loop_spec [OF assms(2,3) run]
  obtain retried final s1 where spec:
    "ns_trace s' = ns_trace s0 @ exchanges (hc_retry_policy c) 1 retried final"
    "int (length retried) \<le> n - 1" "\<forall>o1 \<in> set retried. retryable c o1"
    "retryable c final \<longrightarrow> int (length retried) = n - 1"
    "out = call_outcome final" "s' = settle c t ?host final s1" "ns_breakers s1 = ns_breakers s0"
    by blast
  have "breaker_of s1 ?host = breaker_of s0 ?host" using spec(7) by (simp add: breaker_of_def)
  then have "consecutive_failures (breaker_of s' ?host) =
      failures_after c final (consecutive_failures (breaker_of s ?host))"
    using spec(6) frame(3) by (simp add: settle_failures [OF assms(4)])
  then show ?thesis
    using req spec frame(1) by (intro exI [of _ retried] exI [of _ final] exI [of _ s']) auto
qed

theorem request_exchanges_witness:
  "\<exists>retried final s'. http_request sample_client flaky_transport None sample_request (fresh_net 0) =
     (call_outcome final, s') \<and> int (length retried) < 3 \<and>
     ns_trace s' = exchanges default_policy 1 retried final"
proof -
  have "hc_retry_policy sample_client = default_policy" "0 < hc_failure_threshold sample_client"
    "ns_trace (fresh_net (0 :: nat)) = []" by (simp_all add: sample_client_def fresh_net_def)
  with request_exchanges [OF sample_attempts _ _ _ sample_check, of None] show ?thesis by fastforce
qed

subsection \<open>Bodies that are drained by the first send\<close>

definition sends :: "net_event list \<Rightarrow> nat" where
  "sends events = length (filter (\<lambda>e. case e of Sent _ \<Rightarrow> True | Opened _ \<Rightarrow> True | _ \<Rightarrow> False) events)"

lemma sends_append [simp]: "sends (xs @ ys) = sends xs + sends ys"
  by (simp add: sends_def)

lemma sends_exchanges: "sends (exchanges p k retried final) = length retried + 1"
  by (induction retried arbitrary: k) (simp_all add: sends_def)

lemma parts_not_replayable:
  assumes "part \<in> set parts" and "part_payload part = Some PyStream"
  shows "parts_replayable parts \<noteq> Some True"
  using assms
  by (induction parts) (auto simp: is_replayable_payload_def split: option.split)

definition drains :: "'o http_request \<Rightarrow> bool" where
  "drains rq \<longleftrightarrow> rq_content rq = PyStream \<or>
     (\<exists>items name v. rq_files rq = FilesMap items \<and> (name, v) \<in> set items \<and>
        (v = PyStream \<or> (\<exists>filename rest. v = PySeq (filename # PyStream # rest))))"

lemma drains_once:
  assumes "drains rq"
  shows "attempts_for c rq = None \<or> attempts_for c rq = Some 1"
proof -
  have "body_is_replayable (rq_content rq) (rq_files rq) \<noteq> Some True"
  proof (cases "rq_content rq = PyStream")
    case True
    then show ?thesis by (simp add: body_is_replayable_def is_replayable_payload_def)
  next
    case False
    with assms obtain items name v where files: "rq_files rq = FilesMap items" "(name, v) \<in> set items"
      and v: "v = PyStream \<or> (\<exists>filename rest. v = PySeq (filename # PyStream # rest))"
      by (auto simp: drains_def)
    have "part_payload (PySeq [PyStr name, v]) = Some PyStream"
      using v by (auto simp: part_payload_def)
    moreover have "PySeq [PyStr name, v] \<in> set (map (\<lambda>(name, v). PySeq [PyStr name, v]) items)"
      using files(2) by force
    ultimately have "parts_replayable (map (\<lambda>(name, v). PySeq [PyStr name, v]) items) \<noteq> Some True"
      by (intro parts_not_replayable)
    then show ?thesis using files(1) by (simp add: body_is_replayable_def)
  qed
  then show ?thesis
    by (cases "body_is_replayable (rq_content rq) (rq_files rq)") (auto simp: attempts_for_def)
qed

text \<open>
  A request whose raw content, or any part of whose multipart body (bare, or second in its
  tuple), is a stream is sent at most once, whatever the policy, the breaker and the network do: a
  half-drained upload is never repeated.
\<close>

theorem drained_body_sent_once:
  assumes "drains rq"
  shows "sends (ns_trace (snd (http_request c t headers rq s))) \<le> sends (ns_trace s) + 1"
proof -
  let ?host = "host_of c t (rq_url rq)"
  obtain g s0 where chk: "breaker_check c t ?host s = (g :: http_response client_error + unit, s0)"
    by (cases "breaker_check c t ?host s :: (http_response client_error + unit) \<times> _")
  note frame = breaker_check_frame(1) [OF chk]
  show ?thesis
  proof (cases "isl g \<or> attempts_for c rq = None")
    case True
    then have "snd (http_request c t headers rq s) = s0"
      using chk by (cases g) (auto simp: http_request_def Let_def)
    with frame show ?thesis by simp
  next
    case False
    then have g: "g = Inr ()" and one: "attempts_for c rq = Some 1"
      using drains_once [OF assms, of c] by (cases g, auto)+
    obtain out s' where run: "request_loop c t ?host (prepared c t headers rq) 1 1 s0 = (out, s')"
      by (cases "request_loop c t ?host (prepared c t headers rq) 1 1 s0")
    then have "snd (http_request c t headers rq s) = s'"
      using chk g one by (simp add: http_request_def Let_def)
    moreover from request_loop_spec [OF _ _ run] obtain final
      where "ns_trace s' = ns_trace s0 @ exchanges (hc_retry_policy c) 1 [] final" by auto
    ultimately show ?thesis using frame by (simp add: sends_def)
  qed
qed

theorem drained_body_sent_once_witness:
  "sends (ns_trace (snd (http_request sample_client flaky_transport None
     (sample_request\<lparr>rq_files := FilesMap [(''doc'', PySeq [PyStr ''a.pdf'', PyStream])]\<rparr>) (fresh_net 0)))) \<le> 1"
  using drained_body_sent_once [of
      "sample_request\<lparr>rq_files := FilesMap [(''doc'', PySeq [PyStr ''a.pdf'', PyStream])]\<rparr>"
      sample_client flaky_transport None "fresh_net 0"]
  by (simp add: drains_def fresh_net_def sends_def)

subsection \<open>What a stream hands to its consumer\<close>

text \<open>
  One round of the streaming loop: \<open>Some res\<close> ends the call, \<open>None\<close> goes on to the backoff sleep.
\<close>

definition stream_failure ::
  "http_client \<Rightarrow> ('o, 'w) transport \<Rightarrow> string \<Rightarrow> bool \<Rightarrow> net_error \<Rightarrow> bool \<Rightarrow> 'w net_state
    \<Rightarrow> (stream_response client_error + unit) option \<times> 'w net_state" where
  "stream_failure c t host is_last exc yielded s =
     (if \<not> catches exc then (Some (Inl (NetError exc)), s)
      else if yielded \<or> is_last \<or> \<not> should_retry_error c exc
      then (Some (Inl (NetError exc)), breaker_record c t host True s)
      else (None, s))"

definition stream_round ::
  "http_client \<Rightarrow> ('o, 'w) transport \<Rightarrow> string \<Rightarrow> bool \<Rightarrow> bool \<Rightarrow> net_error + stream_response \<Rightarrow> 'w net_state
    \<Rightarrow> (stream_response client_error + unit) option \<times> 'w net_state" where
  "stream_round c t host lines is_last out s =
     (case out of
        Inl exc \<Rightarrow> stream_failure c t host is_last exc False s
      | Inr r \<Rightarrow>
          if sr_status r \<in> set (rp_retry_statuses (hc_retry_policy c)) \<and> \<not> is_last then (None, s)
          else case stream_body c t host lines r s of
              (Finished, _, s1) \<Rightarrow> (Some (Inr ()), s1)
            | (Broken exc, yielded, s1) \<Rightarrow> stream_failure c t host is_last exc yielded s1
            | (StatusRaised, _, s1) \<Rightarrow> (Some (Inl (HTTPStatusError r)), breaker_record c t host True s1))"

lemma stream_loop_round:
  assumes "attempt \<le> n" and "attempt \<le> 1024" and "open_stream t rq s = (out, s1)"
    and "stream_round c t host lines (attempt = n) out s1 = (res, s2)"
  shows "stream_loop c t host lines rq n attempt s =
    (case res of
       Some r \<Rightarrow> (r, s2)
     | None \<Rightarrow> stream_loop c t host lines rq n (attempt + 1)
                 (sleep_state t (the (sleep_for (hc_retry_policy c) attempt)) s2))"
proof -
  obtain d where "sleep_for (hc_retry_policy c) attempt = Some d"
    using sleep_for_Some [OF assms(2)] by blast
  then show ?thesis
    using assms
    by (subst stream_loop.simps)
       (auto simp: stream_round_def stream_failure_def Let_def
             split: sum.splits if_splits prod.splits stream_exit.splits)
qed

text \<open>A round hands out nothing, or the pieces of the response it just opened.\<close>

definition round_yields ::
  "bool \<Rightarrow> net_error + stream_response \<Rightarrow> (stream_response client_error + unit) option \<Rightarrow> piece list \<Rightarrow> bool" where
  "round_yields lines out res ps \<longleftrightarrow>
     (res = None \<longrightarrow> ps = []) \<and>
     (ps \<noteq> [] \<longrightarrow> (\<exists>r. out = Inr r \<and> ps = pieces_of lines r \<and> is_success (sr_status r))) \<and>
     (res = Some (Inr ()) \<longrightarrow>
        (\<exists>r. out = Inr r \<and> ps = pieces_of lines r \<and> is_success (sr_status r) \<and> sr_end r = None))"

lemma yield_pieces_frame [simp]:
  "ns_trace (yield_pieces ps s) = ns_trace s @ map Yielded ps"
  by (simp add: yield_pieces_def)

lemma stream_failure_frame:
  assumes "stream_failure c t host is_last exc yielded s = (res, s1)"
  shows "ns_trace s1 = ns_trace s" and "yielded \<Longrightarrow> res \<noteq> None" and "res \<noteq> Some (Inr ())"
  using assms by (auto simp: stream_failure_def split: if_splits)

lemma stream_round_yields:
  assumes "stream_round c t host lines is_last out s = (res, s1)"
  shows "\<exists>ps. ns_trace s1 = ns_trace s @ map Yielded ps \<and> round_yields lines out res ps"
proof (cases out)
  case (Inl exc)
  then show ?thesis
    using assms stream_failure_frame [of c t host is_last exc False s res s1]
    by (intro exI [of _ "[]"]) (auto simp: stream_round_def round_yields_def)
next
  case (Inr r)
  obtain ex yielded s2 where body: "stream_body c t host lines r s = (ex, yielded, s2)"
    by (cases "stream_body c t host lines r s")
  show ?thesis
  proof (cases "sr_status r \<in> set (rp_retry_statuses (hc_retry_policy c)) \<and> \<not> is_last")
    case True
    then show ?thesis
      using assms Inr by (intro exI [of _ "[]"]) (simp add: stream_round_def round_yields_def)
  next
    case False
    show ?thesis
    proof (cases "is_success (sr_status r) \<and> \<not> (is_error (sr_status r) \<and> sr_aread r = Some OtherError)")
      case True
      then have b: "s2 = yield_pieces (pieces_of lines r) (breaker_record c t host False s)"
        "yielded = (pieces_of lines r \<noteq> [])"
        "ex = (case sr_end r of None \<Rightarrow> Finished | Some exc \<Rightarrow> Broken exc)"
        using body by (auto simp: stream_body_def Let_def split: option.splits)
      show ?thesis
      proof (cases "sr_end r")
        case None
        then have "res = Some (Inr ())" "s1 = s2"
          using assms Inr False body b(3) by (simp_all only: stream_round_def) simp_all
        then show ?thesis
          using True None Inr b(1)
          by (intro exI [of _ "pieces_of lines r"]) (simp add: round_yields_def)
      next
        case (Some exc)
        then have f: "stream_failure c t host is_last exc yielded s2 = (res, s1)"
          using assms Inr False body b(3) by (simp only: stream_round_def) simp
        show ?thesis
          using stream_failure_frame [OF f] True Inr b(1,2)
          by (intro exI [of _ "pieces_of lines r"]) (auto simp: round_yields_def)
      qed
    next
      case bad: False
      then have b: "s2 = s" "yielded = False" "ex = Broken OtherError \<or> ex = StatusRaised"
        using body by (auto simp: stream_body_def Let_def split: if_splits option.splits)
      then show ?thesis
        using assms Inr False body stream_failure_frame [of c t host is_last OtherError False s res s1]
        by (intro exI [of _ "[]"]) (auto simp: stream_round_def round_yields_def)
    qed
  qed
qed

lemma yielded_by_simps [simp]:
  "yielded_by [] = []" "yielded_by (xs @ ys) = yielded_by xs @ yielded_by ys"
  "yielded_by [Opened o1] = []" "yielded_by [Slept d] = []" "yielded_by (map Yielded ps) = ps"
  by (simp_all add: yielded_by_def) (induction ps; simp)

lemma stream_loop_spec:
  assumes "attempt \<le> n" and "n \<le> 1024" and "stream_loop c t host lines rq n attempt s = (res, s')"
  shows "\<exists>before out ps. ns_trace s' = ns_trace s @ before @ [Opened out] @ map Yielded ps \<and>
    yielded_by before = [] \<and> int (sends before) \<le> n - attempt \<and> round_yields lines out (Some res) ps"
  using assms
proof (induction "nat (n - attempt)" arbitrary: attempt s rule: less_induct)
  case less
  obtain out s1 where o1: "open_stream t rq s = (out, s1)" by (cases "open_stream t rq s")
  have tr1: "ns_trace s1 = ns_trace s @ [Opened out]"
    using o1 by (auto simp: open_stream_def split: prod.splits)
  obtain r s2 where rnd: "stream_round c t host lines (attempt = n) out s1 = (r, s2)"
    by (cases "stream_round c t host lines (attempt = n) out s1")
  from stream_round_yields [OF rnd] obtain ps
    where ps: "ns_trace s2 = ns_trace s1 @ map Yielded ps" "round_yields lines out r ps" by blast
  have "attempt \<le> 1024" using less.prems by simp
  note this_round = stream_loop_round [OF less.prems(1) this o1 rnd]
  show ?case
  proof (cases r)
    case (Some res')
    then have "res' = res" "s2 = s'" using this_round less.prems(3) by auto
    then show ?thesis
      using ps tr1 Some less.prems(1)
      by (intro exI [of _ "[]"] exI [of _ out] exI [of _ ps]) (simp add: sends_def)
  next
    case None
    have "attempt \<noteq> n"
      using rnd None
      by (auto simp: stream_round_def stream_failure_def
               split: sum.splits if_splits prod.splits stream_exit.splits)
    then have lt: "attempt + 1 \<le> n" using less.prems(1) by simp
    let ?s = "sleep_state t (the (sleep_for (hc_retry_policy c) attempt)) s2"
    have "stream_loop c t host lines rq n (attempt + 1) ?s = (res, s')"
      using this_round None less.prems(3) by simp
    from less.hyps [OF _ lt less.prems(2) this] lt obtain before out' ps' where rest:
      "ns_trace s' = ns_trace ?s @ before @ [Opened out'] @ map Yielded ps'" "yielded_by before = []"
      "int (sends before) \<le> n - (attempt + 1)" "round_yields lines out' (Some res) ps'" by auto
    have "ps = []" using ps(2) None by (simp add: round_yields_def)
    then show ?thesis
      using rest ps(1) tr1
      by (intro exI [of _ "[Opened out, Slept (the (sleep_for (hc_retry_policy c) attempt))] @ before"]
            exI [of _ out'] exI [of _ ps'])
         (simp add: sends_def yielded_by_def)
  qed
qed

lemma stream_pieces_run:
  assumes "attempts_for c rq = Some n" and "1 \<le> n" and "n \<le> 1024"
    and "stream_pieces c t lines headers rq s = (res, s')"
  shows "(\<exists>host. res = Inl (CircuitOpenError host) \<and> ns_trace s' = ns_trace s) \<or>
    (\<exists>before out ps. ns_trace s' = ns_trace s @ before @ [Opened out] @ map Yielded ps \<and>
       yielded_by before = [] \<and> int (sends before) < n \<and> round_yields lines out (Some res) ps)"
proof -
  let ?host = "host_of c t (rq_url rq)"
  obtain g s0 where chk: "breaker_check c t ?host s = (g :: stream_response client_error + unit, s0)"
    by (cases "breaker_check c t ?host s :: (stream_response client_error + unit) \<times> _")
  note frame = breaker_check_frame(1) [OF chk]
  show ?thesis
  proof (cases g)
    case (Inl e)
    then have "e = CircuitOpenError ?host"
      using chk by (auto simp: breaker_check_def Let_def split: if_splits)
    moreover have "res = Inl e" "s' = s0"
      using Inl chk assms(4) by (simp_all add: stream_pieces_def Let_def)
    ultimately show ?thesis using frame by simp
  next
    case (Inr u)
    then have "stream_loop c t ?host lines (prepared c t headers rq) n 1 s0 = (res, s')"
      using chk assms(1,4) by (simp add: stream_pieces_def Let_def)
    from stream_loop_spec [OF assms(2,3) this] frame show ?thesis by auto
  qed
qed

text \<open>
  C7. A stream never replays what its consumer already has. The pieces handed out all come from the
  response opened last, which is a success, in its order, and once the first of them is out nothing
  is sent again, so a body that breaks in the middle surfaces instead of starting over; responses
  opened before it, at most \<^verbatim>\<open>max_attempts - 1\<close>, gave the consumer nothing. A stream that ends without
  an exception has delivered the complete body of a successful response exactly once.
\<close>

theorem stream_never_replays:
  assumes "attempts_for c rq = Some n" and "1 \<le> n" and "n \<le> 1024"
    and "stream_pieces c t lines headers rq s = (res, s')"
  shows "\<exists>before ps. ns_trace s' = ns_trace s @ before @ map Yielded ps \<and> yielded_by before = [] \<and>
    int (sends before) \<le> n \<and>
    (ps \<noteq> [] \<longrightarrow> (\<exists>r. last before = Opened (Inr r) \<and> ps = pieces_of lines r \<and> is_success (sr_status r))) \<and>
    (res = Inr () \<longrightarrow> (\<exists>r. last before = Opened (Inr r) \<and> ps = pieces_of lines r \<and>
       is_success (sr_status r) \<and> sr_end r = None))"
  using stream_pieces_run [OF assms]
proof (elim disjE exE conjE)
  fix host assume "res = Inl (CircuitOpenError host)" "ns_trace s' = ns_trace s"
  then show ?thesis using assms(2) by (intro exI [of _ "[]"]) (simp add: sends_def)
next
  fix before out ps
  assume tr: "ns_trace s' = ns_trace s @ before @ [Opened out] @ map Yielded ps"
    and rest: "yielded_by before = []" "int (sends before) < n" "round_yields lines out (Some res) ps"
  have "sends [Opened out] = 1" by (simp add: sends_def)
  with tr rest show ?thesis
    by (intro exI [of _ "before @ [Opened out]"] exI [of _ ps])
       (auto simp: round_yields_def yielded_by_def)
qed

theorem stream_never_replays_witness:
  "\<exists>before ps. ns_trace (snd (stream_pieces sample_client flaky_transport True None sample_request (fresh_net 0)))
     = before @ map Yielded ps \<and> yielded_by before = [] \<and> int (sends before) \<le> 3"
proof -
  have "ns_trace (fresh_net (0 :: nat)) = []" by (simp add: fresh_net_def)
  with stream_never_replays [OF sample_attempts, of flaky_transport True None "fresh_net 0"
      "fst (stream_pieces sample_client flaky_transport True None sample_request (fresh_net 0))"
      "snd (stream_pieces sample_client flaky_transport True None sample_request (fresh_net 0))"]
  show ?thesis by fastforce
qed

subsection \<open>The propagated request id\<close>

text \<open>
  Of the headers that spell the request-id header in any case, a call sends the caller's own if
  there is one and otherwise exactly the inbound request's id, never both; every header the caller
  gave is sent, in its order and with its value; without propagation nothing is added.
\<close>

theorem request_id_header_sent_once:
  shows "(\<exists>extra. build_headers c t explicit = (case explicit of None \<Rightarrow> [] | Some h \<Rightarrow> h) @ extra \<and>
      (extra = [] \<or> (\<exists>rid. extra = [(hc_request_id_header c, rid)] \<and> tr_request_id t = Some rid))) \<and>
    (\<exists>mine theirs. mine = filter (\<lambda>(name, _). lower name = lower (hc_request_id_header c)) (build_headers c t explicit) \<and>
      theirs = filter (\<lambda>(name, _). lower name = lower (hc_request_id_header c)) (case explicit of None \<Rightarrow> [] | Some h \<Rightarrow> h) \<and>
      mine = (if theirs \<noteq> [] \<or> \<not> hc_propagate_request_id c then theirs
              else case tr_request_id t of None \<Rightarrow> [] | Some rid \<Rightarrow> [(hc_request_id_header c, rid)]))"
proof -
  let ?h = "case explicit of None \<Rightarrow> [] | Some h \<Rightarrow> h"
  let ?own = "\<lambda>(name :: string, _ :: string). lower name = lower (hc_request_id_header c)"
  have ex: "list_ex ?own ?h \<longleftrightarrow> filter ?own ?h \<noteq> []"
    by (auto simp: list_ex_iff filter_empty_conv)
  show ?thesis
  proof (cases "hc_propagate_request_id c \<and> filter ?own ?h = [] \<and> tr_request_id t \<noteq> None")
    case True
    then obtain rid where rid: "tr_request_id t = Some rid" by auto
    have "hc_request_id_header c \<notin> fst ` set ?h" using True by (force simp: filter_empty_conv)
    then have "build_headers c t explicit = ?h @ [(hc_request_id_header c, rid)]"
      using True ex rid by (simp add: build_headers_def Let_def dict_set_new)
    then show ?thesis using True rid by simp
  next
    case False
    then have "build_headers c t explicit = ?h"
      using ex by (auto simp: build_headers_def Let_def)
    then show ?thesis using False by auto
  qed
qed

theorem request_id_header_sent_once_witness:
  "filter (\<lambda>(name, _). lower name = ''x-request-id'')
     (build_headers sample_client quiet_transport (Some [(''x-request-id'', ''mine'')])) = [(''x-request-id'', ''mine'')]"
proof -
  have "lower ''X-Request-ID'' = ''x-request-id''" "lower ''x-request-id'' = ''x-request-id''"
    by code_simp+
  then have "lower (hc_request_id_header sample_client) = ''x-request-id''" "lower ''x-request-id'' = ''x-request-id''"
    by (simp_all add: sample_client_def REQUEST_ID_HEADER_def)
  with request_id_header_sent_once [of sample_client quiet_transport "Some [(''x-request-id'', ''mine'')]"]
  show ?thesis by auto
qed

end
