(* ===== verification/Request.thy ===== *)
theory Request
  imports Py_Text
begin

text \<open>
  What the rate limiting middlewares read of a request: \<^verbatim>\<open>utils/client_ip.py\<close>,
  \<^verbatim>\<open>api/middlewares/_exempt.py\<close> and the bearer token of \<^verbatim>\<open>quota.py\<close> and \<^verbatim>\<open>rate_limit.py\<close>. The
  parser of the text of one IP address is an argument (\<open>parse\<close>).
\<close>

subsection \<open>Requests\<close>

record request =
  req_path :: string
  req_headers :: "(string \<times> string) list"
  req_client :: "string option"

text \<open>\<^verbatim>\<open>request.headers.get(name)\<close>: names compare without case, the first one counts.\<close>

fun header_get :: "(string \<times> string) list \<Rightarrow> string \<Rightarrow> string option" where
  "header_get [] name = None"
| "header_get ((k, v) # kvs) name = (if lower k = lower name then Some v else header_get kvs name)"

text \<open>A falsy string, \<^verbatim>\<open>None\<close> or empty.\<close>

definition truthy :: "string option \<Rightarrow> bool" where
  "truthy v = (case v of None \<Rightarrow> False | Some s \<Rightarrow> s \<noteq> [])"

definition get_client_ip ::
  "(string \<Rightarrow> string option) \<Rightarrow> request \<Rightarrow> string option \<Rightarrow> string" where
  "get_client_ip parse req trusted_header =
     (let parsed =
            (if truthy trusted_header
             then let value = header_get (req_headers req) (the trusted_header)
                  in if truthy value then parse (the value) else None
             else None)
      in case parsed of
          Some ip \<Rightarrow> ip
        | None \<Rightarrow> (case req_client req of Some host \<Rightarrow> host | None \<Rightarrow> ''unknown''))"

text \<open>
  The same over a raw ASGI scope: the first header of the trusted name with a value decides, and
  an empty peer address counts as no peer.
\<close>

fun scope_header_ip ::
  "(string \<Rightarrow> string option) \<Rightarrow> (string \<times> string) list \<Rightarrow> string \<Rightarrow> string option" where
  "scope_header_ip parse [] wanted = None"
| "scope_header_ip parse ((k, raw) # kvs) wanted =
     (if lower k = wanted \<and> raw \<noteq> [] then parse raw else scope_header_ip parse kvs wanted)"

definition get_client_ip_from_scope ::
  "(string \<Rightarrow> string option) \<Rightarrow> request \<Rightarrow> string option \<Rightarrow> string" where
  "get_client_ip_from_scope parse req trusted_header =
     (let parsed = (if truthy trusted_header
                    then scope_header_ip parse (req_headers req) (lower (the trusted_header)) else None)
      in case parsed of
          Some ip \<Rightarrow> ip
        | None \<Rightarrow> if truthy (req_client req) then the (req_client req) else ''unknown'')"

subsection \<open>Exempt paths\<close>

record PathExemption =
  pe_exact :: "string list"
  pe_prefixes :: "string list"

definition exemption_matches :: "PathExemption \<Rightarrow> string \<Rightarrow> bool" where
  "exemption_matches e path \<longleftrightarrow>
     path \<in> set (pe_exact e) \<or> list_ex (\<lambda>prefix. startswith path prefix) (pe_prefixes e)"

definition exemption_bool :: "PathExemption \<Rightarrow> bool" where
  "exemption_bool e \<longleftrightarrow> pe_exact e \<noteq> [] \<or> pe_prefixes e \<noteq> []"

subsection \<open>The bearer token\<close>

text \<open>\<^verbatim>\<open>header.split(maxsplit=1)\<close> as far as its two parts: \<open>None\<close> when there are fewer.\<close>

definition split_once :: "string \<Rightarrow> (string \<times> string) option" where
  "split_once s =
     (let s1 = dropWhile is_space s;
          word = takeWhile (\<lambda>c. \<not> is_space c) s1;
          rest = dropWhile is_space (dropWhile (\<lambda>c. \<not> is_space c) s1)
      in if rest = [] then None else Some (word, rest))"

definition bearer_token :: "request \<Rightarrow> string option" where
  "bearer_token req =
     (let header = header_get (req_headers req) ''authorization''
      in if \<not> truthy header then None
         else case split_once (the header) of
             None \<Rightarrow> None
           | Some (scheme, token) \<Rightarrow>
               if lower scheme = ''bearer'' then Some (strip token) else None)"

lemma exemption_bool_False: "\<not> exemption_bool e \<Longrightarrow> \<not> exemption_matches e path"
  by (simp add: exemption_bool_def exemption_matches_def)

subsection \<open>Who the client is\<close>

definition sample_parse :: "string \<Rightarrow> string option" where
  "sample_parse v = (if v = ''9.9.9.9'' then Some v else None)"

definition sample_req :: request where
  "sample_req = \<lparr>req_path = ''/p'', req_headers = [(''X-Real-IP'', ''junk''), (''x-real-ip'', ''9.9.9.9'')],
     req_client = Some ''10.0.0.1''\<rparr>"

text \<open>
  The client key cannot be invented by the client. It is the canonical form of one parsed IP
  address, taken from the single trusted header, or the transport peer (or \<^verbatim>\<open>unknown\<close>); a value that
  does not parse, and every header when none is trusted, has no influence at all.
\<close>

theorem client_ip_not_invented:
  "((\<exists>value ip. truthy trusted \<and> header_get (req_headers req) (the trusted) = Some value \<and> value \<noteq> [] \<and>
       parse value = Some ip \<and> get_client_ip parse req trusted = ip) \<or>
    get_client_ip parse req trusted = (case req_client req of Some host \<Rightarrow> host | None \<Rightarrow> ''unknown'')) \<and>
   get_client_ip parse req None = get_client_ip parse (req\<lparr>req_headers := hs\<rparr>) None"
  by (auto simp: get_client_ip_def truthy_def Let_def split: option.splits if_splits)

lemma scope_header_ip_eq:
  "\<forall>(k, v) \<in> set hs. v \<noteq> [] \<Longrightarrow>
     scope_header_ip parse hs (lower name) = Option.bind (header_get hs name) parse"
  by (induction hs) (auto split: if_splits)

text \<open>
  The resolver for raw ASGI scopes agrees with the one for requests wherever both see the same
  request: when no header value and no peer address is empty, they give the same client.
\<close>

theorem client_ip_scope_agrees:
  assumes "\<forall>(k, v) \<in> set (req_headers req). v \<noteq> []" and "req_client req \<noteq> Some []"
  shows "get_client_ip_from_scope parse req trusted = get_client_ip parse req trusted"
proof -
  have "v \<noteq> []" if "header_get hs name = Some v" "\<forall>(k, v) \<in> set hs. v \<noteq> []" for hs name v
    using that by (induction hs) (auto split: if_splits)
  then show ?thesis
    using assms scope_header_ip_eq [OF assms(1), of parse]
    by (auto simp: get_client_ip_from_scope_def get_client_ip_def truthy_def Let_def
             split: option.splits)
qed

theorem client_ip_scope_agrees_witness:
  "get_client_ip_from_scope sample_parse sample_req (Some ''X-REAL-IP'') =
   get_client_ip sample_parse sample_req (Some ''X-REAL-IP'')"
  using client_ip_scope_agrees [of sample_req] by (simp add: sample_req_def)

end
