(* ===== verification/Quota.thy ===== *)
theory Quota
  imports Request
begin

text \<open>
  \<^verbatim>\<open>api/middlewares/quota.py\<close>: the rules (sliding window or token bucket), their evaluation, the
  in-process store and its sweep, the policies. Times are seconds on the store's clock, as reals.
  The evaluation of a rule is a pure function of the rule's cell; the store threads its
  dictionaries explicitly. A call takes the lock without waiting (nothing inside it awaits), so a
  consume is one step.
\<close>

subsection \<open>Rules\<close>

record RateLimitRule =
  rl_max_requests :: int
  rl_window_seconds :: real
  rl_burst :: "int option"
  rl_scope :: string

definition rule_init :: "int \<Rightarrow> real \<Rightarrow> int option \<Rightarrow> string \<Rightarrow> RateLimitRule option" where
  "rule_init max_requests window_seconds burst scope =
     (if max_requests < 1 then None
      else if window_seconds \<le> 0 then None
      else if (case burst of None \<Rightarrow> False | Some b \<Rightarrow> b < 1) then None
      else Some \<lparr>rl_max_requests = max_requests, rl_window_seconds = window_seconds,
                 rl_burst = burst, rl_scope = scope\<rparr>)"

definition is_bucket :: "RateLimitRule \<Rightarrow> bool" where
  "is_bucket rule \<longleftrightarrow> rl_burst rule \<noteq> None"

definition capacity :: "RateLimitRule \<Rightarrow> int" where
  "capacity rule = (case rl_burst rule of Some b \<Rightarrow> b | None \<Rightarrow> rl_max_requests rule)"

definition refill_per_second :: "RateLimitRule \<Rightarrow> real" where
  "refill_per_second rule = real_of_int (rl_max_requests rule) / rl_window_seconds rule"

text \<open>
  The format \<^verbatim>\<open>:g\<close> of a positive float: six significant digits, round half to even, trailing
  zeros dropped, an exponent outside \<open>-4 .. 5\<close>.
\<close>

definition round_half_even :: "real \<Rightarrow> int" where
  "round_half_even x =
     (let f = \<lfloor>x\<rfloor>; d = x - of_int f
      in if d < 1 / 2 then f else if d > 1 / 2 then f + 1 else if even f then f else f + 1)"

definition drop_zeros :: "string \<Rightarrow> string" where
  "drop_zeros s = rev (dropWhile (\<lambda>c. c = CHR ''0'') (rev s))"

definition with_point :: "string \<Rightarrow> string \<Rightarrow> string" where
  "with_point whole fraction =
     (let f = drop_zeros fraction in if f = [] then whole else whole @ CHR ''.'' # f)"

definition exponent_text :: "int \<Rightarrow> string" where
  "exponent_text e =
     (let ds = nat_str (nat \<bar>e\<bar>)
      in CHR ''e'' # (if e < 0 then CHR ''-'' else CHR ''+'') # (if length ds < 2 then CHR ''0'' # ds else ds))"

definition fmt_g :: "real \<Rightarrow> string" where
  "fmt_g x =
     (let e0 = \<lfloor>log 10 x\<rfloor>;
          m0 = round_half_even (x * 10 powi (5 - e0));
          (m, e) = (if m0 = 1000000 then (100000, e0 + 1) else (m0, e0));
          ds = nat_str (nat m)
      in if e < - 4 \<or> e \<ge> 6 then with_point (take 1 ds) (drop 1 ds) @ exponent_text e
         else if e < 0 then with_point ''0'' (replicate (nat (- e) - 1) (CHR ''0'') @ ds)
         else with_point (take (nat e + 1) ds) (drop (nat e + 1) ds))"

definition effective_scope :: "RateLimitRule \<Rightarrow> string" where
  "effective_scope rule =
     (if rl_scope rule \<noteq> [] then rl_scope rule
      else
        let label = int_str (rl_max_requests rule) @ ''/'' @ fmt_g (rl_window_seconds rule) @ ''s''
        in case rl_burst rule of None \<Rightarrow> label | Some b \<Rightarrow> label @ ''+b'' @ int_str b)"

record QuotaResult =
  qr_allowed :: bool
  qr_limit :: int
  qr_remaining :: int
  qr_reset_seconds :: int
  qr_retry_after :: int
  qr_scope :: string

subsection \<open>Evaluating one rule\<close>

text \<open>\<open>(allowed, remaining, reset, retry)\<close> and the pruned hits.\<close>

definition window_state ::
  "real list \<Rightarrow> real \<Rightarrow> RateLimitRule \<Rightarrow> (bool \<times> int \<times> int \<times> int) \<times> real list" where
  "window_state hits now rule =
     (let cutoff = now - rl_window_seconds rule;
          hits' = dropWhile (\<lambda>h. h < cutoff) hits;
          oldest_reset = (case hits' of
              h # _ \<Rightarrow> max 1 \<lceil>h + rl_window_seconds rule - now\<rceil>
            | [] \<Rightarrow> \<lceil>rl_window_seconds rule\<rceil>)
      in if int (length hits') \<ge> rl_max_requests rule
         then ((False, 0, oldest_reset, oldest_reset), hits')
         else ((True, rl_max_requests rule - int (length hits') - 1, oldest_reset, 0), hits'))"

text \<open>\<open>(allowed, refilled, remaining, reset, retry)\<close>; \<^verbatim>\<open>int\<close> of a nonnegative float is its floor.\<close>

definition refilled_tokens :: "real \<Rightarrow> real \<Rightarrow> real \<Rightarrow> RateLimitRule \<Rightarrow> real" where
  "refilled_tokens tokens updated_at now rule =
     min (of_int (capacity rule)) (tokens + max 0 (now - updated_at) * refill_per_second rule)"

definition bucket_state ::
  "real \<Rightarrow> real \<Rightarrow> real \<Rightarrow> RateLimitRule \<Rightarrow> bool \<times> real \<times> int \<times> int \<times> int" where
  "bucket_state tokens updated_at now rule =
     (let refilled = refilled_tokens tokens updated_at now rule;
          reset = max 0 \<lceil>(of_int (capacity rule) - refilled) / refill_per_second rule\<rceil>
      in if refilled < 1
         then let retry = max 1 \<lceil>(1 - refilled) / refill_per_second rule\<rceil>
              in (False, refilled, 0, max reset retry, retry)
         else (True, refilled, \<lfloor>refilled - 1\<rfloor>, reset, 0))"

type_synonym candidate = "RateLimitRule \<times> int \<times> int \<times> int"

text \<open>The first minimum, as Python's \<^verbatim>\<open>min\<close> picks it: a later item replaces it only when smaller.\<close>

fun first_best :: "('a \<Rightarrow> 'a \<Rightarrow> bool) \<Rightarrow> 'a \<Rightarrow> 'a list \<Rightarrow> 'a" where
  "first_best better best [] = best"
| "first_best better best (x # xs) = first_best better (if better x best then x else best) xs"

definition pick_binding :: "candidate list \<Rightarrow> candidate option" where
  "pick_binding candidates =
     (case candidates of
        [] \<Rightarrow> None
      | c # cs \<Rightarrow> Some (first_best
          (\<lambda>(_, rem1, reset1, _) (_, rem2, reset2, _). rem1 < rem2 \<or> rem1 = rem2 \<and> - reset1 < - reset2) c cs))"

definition pick_denied :: "candidate list \<Rightarrow> candidate option" where
  "pick_denied candidates =
     (case filter (\<lambda>(_, _, _, retry). retry > 0) candidates of
        [] \<Rightarrow> None
      | c # cs \<Rightarrow> Some (first_best (\<lambda>(_, _, _, retry1) (_, _, _, retry2). retry1 > retry2) c cs))"

subsection \<open>The in-process store\<close>

record quota_store =
  qs_windows :: "string \<Rightarrow> real list option"
  qs_buckets :: "string \<Rightarrow> (real \<times> real) option"
  qs_expires :: "string \<Rightarrow> real option"
  qs_ops :: int

definition empty_quota_store :: quota_store where
  "empty_quota_store = \<lparr>qs_windows = (\<lambda>_. None), qs_buckets = (\<lambda>_. None),
     qs_expires = (\<lambda>_. None), qs_ops = 0\<rparr>"

definition GC_EVERY :: int where
  "GC_EVERY = 1000"

definition expired :: "quota_store \<Rightarrow> real \<Rightarrow> string \<Rightarrow> bool" where
  "expired s now rk \<longleftrightarrow> (case qs_expires s rk of None \<Rightarrow> False | Some e \<Rightarrow> \<not> e > now)"

definition sweep :: "real \<Rightarrow> quota_store \<Rightarrow> quota_store" where
  "sweep now s =
     s\<lparr>qs_windows := (\<lambda>rk. if expired s now rk then None else qs_windows s rk),
       qs_buckets := (\<lambda>rk. if expired s now rk then None else qs_buckets s rk),
       qs_expires := (\<lambda>rk. if expired s now rk then None else qs_expires s rk)\<rparr>"

definition rule_key :: "string \<Rightarrow> RateLimitRule \<Rightarrow> string" where
  "rule_key key rule = key @ ''|'' @ effective_scope rule"

text \<open>The first phase: one rule is inspected, and its window pruned in place.\<close>

definition inspect_rule ::
  "string \<Rightarrow> real \<Rightarrow> RateLimitRule \<Rightarrow> quota_store \<Rightarrow> bool \<times> candidate \<times> real \<times> quota_store" where
  "inspect_rule key now rule s =
     (let rk = rule_key key rule
      in if is_bucket rule
         then
           let (tokens, updated_at) = (case qs_buckets s rk of
                   Some tu \<Rightarrow> tu | None \<Rightarrow> (of_int (capacity rule), now));
               (ok, refilled, remaining, reset, retry) = bucket_state tokens updated_at now rule
           in (ok, (rule, remaining, reset, retry), refilled, s)
         else
           let hits = (case qs_windows s rk of Some hs \<Rightarrow> hs | None \<Rightarrow> []);
               ((ok, remaining, reset, retry), hits') = window_state hits now rule
           in (ok, (rule, remaining, reset, retry), 0,
               s\<lparr>qs_windows := (qs_windows s)(rk \<mapsto> hits')\<rparr>))"

fun inspect_rules ::
  "string \<Rightarrow> real \<Rightarrow> RateLimitRule list \<Rightarrow> quota_store
    \<Rightarrow> bool \<times> candidate list \<times> (RateLimitRule \<times> real) list \<times> quota_store" where
  "inspect_rules key now [] s = (True, [], [], s)"
| "inspect_rules key now (rule # rules) s =
     (case inspect_rule key now rule s of (ok, c, refilled, s1) \<Rightarrow>
        (case inspect_rules key now rules s1 of (allowed, cs, pending, s2) \<Rightarrow>
           (ok \<and> allowed, c # cs, (rule, refilled) # pending, s2)))"

text \<open>The second phase: charging a rule. Its window exists since the first phase.\<close>

definition charge_rule :: "string \<Rightarrow> real \<Rightarrow> RateLimitRule \<times> real \<Rightarrow> quota_store \<Rightarrow> quota_store" where
  "charge_rule key now pending s =
     (case pending of (rule, refilled) \<Rightarrow>
        let rk = rule_key key rule
        in if is_bucket rule
           then s\<lparr>qs_buckets := (qs_buckets s)(rk \<mapsto> (refilled - 1, now)),
                  qs_expires := (qs_expires s)(rk \<mapsto>
                    now + (of_int (capacity rule) - (refilled - 1)) / refill_per_second rule)\<rparr>
           else s\<lparr>qs_windows := (qs_windows s)(rk \<mapsto>
                    (case qs_windows s rk of Some hs \<Rightarrow> hs | None \<Rightarrow> []) @ [now]),
                  qs_expires := (qs_expires s)(rk \<mapsto> now + rl_window_seconds rule)\<rparr>)"

definition tick :: "real \<Rightarrow> quota_store \<Rightarrow> quota_store" where
  "tick now s =
     (let s1 = s\<lparr>qs_ops := qs_ops s + 1\<rparr>
      in if qs_ops s1 mod GC_EVERY = 0 then sweep now s1 else s1)"

datatype quota_error = NoRules | EmptyMax | EmptyDeque

definition quota_consume ::
  "string \<Rightarrow> RateLimitRule list \<Rightarrow> real \<Rightarrow> (quota_store, quota_error, QuotaResult) action" where
  "quota_consume key rules now s =
     (if rules = [] then (Inl NoRules, s)
      else
        case inspect_rules key now rules (tick now s) of (allowed, candidates, pending, s1) \<Rightarrow>
          if allowed
          then
            (case pick_binding candidates of
               None \<Rightarrow> (Inl EmptyMax, s1)
             | Some (rule, remaining, reset, _) \<Rightarrow>
                 (Inr \<lparr>qr_allowed = True, qr_limit = rl_max_requests rule, qr_remaining = remaining,
                       qr_reset_seconds = reset, qr_retry_after = 0, qr_scope = effective_scope rule\<rparr>,
                  fold (charge_rule key now) pending s1))
          else
            (case pick_denied candidates of
               None \<Rightarrow> (Inl EmptyMax, s1)
             | Some (rule, _, reset, retry) \<Rightarrow>
                 (Inr \<lparr>qr_allowed = False, qr_limit = rl_max_requests rule, qr_remaining = 0,
                       qr_reset_seconds = reset, qr_retry_after = retry, qr_scope = effective_scope rule\<rparr>,
                  s1)))"

subsection \<open>Policies\<close>

record PlanRateLimitPolicy =
  pp_plans :: "string \<Rightarrow> RateLimitRule list option"
  pp_resolve :: "request \<Rightarrow> string option"
  pp_default_plan :: string

datatype policy_error = NoPlans | UnknownDefault | EmptyPlan string

text \<open>A mapping of distinct names, in order. Its plans are checked in that order.\<close>

fun check_plans :: "(string \<times> RateLimitRule list) list \<Rightarrow> policy_error option" where
  "check_plans [] = None"
| "check_plans ((name, rules) # plans) = (if rules = [] then Some (EmptyPlan name) else check_plans plans)"

definition plan_policy_init ::
  "(string \<times> RateLimitRule list) list \<Rightarrow> (request \<Rightarrow> string option) \<Rightarrow> string
    \<Rightarrow> policy_error + PlanRateLimitPolicy" where
  "plan_policy_init plans resolve default_plan =
     (if plans = [] then Inl NoPlans
      else if map_of plans default_plan = None then Inl UnknownDefault
      else case check_plans plans of
          Some e \<Rightarrow> Inl e
        | None \<Rightarrow> Inr \<lparr>pp_plans = map_of plans, pp_resolve = resolve, pp_default_plan = default_plan\<rparr>)"

definition plan_for :: "PlanRateLimitPolicy \<Rightarrow> request \<Rightarrow> string" where
  "plan_for p req =
     (case pp_resolve p req of
        None \<Rightarrow> pp_default_plan p
      | Some name \<Rightarrow> if pp_plans p name = None then pp_default_plan p else name)"

definition plan_rules_for :: "PlanRateLimitPolicy \<Rightarrow> request \<Rightarrow> RateLimitRule list" where
  "plan_rules_for p req = the (pp_plans p (plan_for p req))"

definition static_policy_init :: "RateLimitRule list \<Rightarrow> RateLimitRule list option" where
  "static_policy_init rules = (if rules = [] then None else Some rules)"

definition static_rules_for :: "RateLimitRule list \<Rightarrow> request \<Rightarrow> RateLimitRule list" where
  "static_rules_for rules req = rules"

text \<open>
  A decoder of tokens gives the claims of a valid token, each as the text \<^verbatim>\<open>str(value)\<close> or \<open>None\<close>
  for a JSON null.
\<close>

type_synonym jwt_decoder = "string \<Rightarrow> (string \<times> string option) list option"

definition claim_text :: "(string \<times> string option) list \<Rightarrow> string \<Rightarrow> string option" where
  "claim_text claims claim = (case map_of claims claim of None \<Rightarrow> None | Some v \<Rightarrow> v)"

definition plan_by_jwt_claim :: "jwt_decoder \<Rightarrow> string \<Rightarrow> request \<Rightarrow> string option" where
  "plan_by_jwt_claim decode claim req =
     (let token = bearer_token req
      in if \<not> truthy token then None
         else case decode (the token) of
             None \<Rightarrow> None
           | Some claims \<Rightarrow> claim_text claims claim)"

definition plan_by_header :: "string \<Rightarrow> request \<Rightarrow> string option" where
  "plan_by_header header_name req =
     (let value = header_get (req_headers req) header_name
      in if truthy value then Some (strip (the value)) else None)"

definition key_by_plan_principal :: "PlanRateLimitPolicy \<Rightarrow> (request \<Rightarrow> string) \<Rightarrow> request \<Rightarrow> string" where
  "key_by_plan_principal policy key_func req = plan_for policy req @ '':'' @ key_func req"

subsection \<open>One consume, key by key\<close>

lemmas quota_state_simps = window_state_def bucket_state_def Let_def

definition valid_rule :: "RateLimitRule \<Rightarrow> bool" where
  "valid_rule r \<longleftrightarrow> 1 \<le> rl_max_requests r \<and> 0 < rl_window_seconds r \<and>
     (case rl_burst r of None \<Rightarrow> True | Some b \<Rightarrow> 1 \<le> b)"

lemma rule_init_valid: "rule_init n w b sc = Some r \<Longrightarrow> valid_rule r"
  by (auto simp: rule_init_def valid_rule_def split: if_splits option.splits)

lemma valid_rule_pos:
  assumes "valid_rule r"
  shows "0 < refill_per_second r" "1 \<le> capacity r" "0 < rl_window_seconds r" "1 \<le> rl_max_requests r"
  using assms by (auto simp: valid_rule_def refill_per_second_def capacity_def split: option.splits)

definition hits_of :: "quota_store \<Rightarrow> string \<Rightarrow> real list" where
  "hits_of s rk = (case qs_windows s rk of Some hs \<Rightarrow> hs | None \<Rightarrow> [])"

definition tokens_now :: "quota_store \<Rightarrow> string \<Rightarrow> RateLimitRule \<Rightarrow> real \<Rightarrow> real" where
  "tokens_now s rk r now =
     (case qs_buckets s rk of
        Some (tokens, u) \<Rightarrow> refilled_tokens tokens u now r
      | None \<Rightarrow> refilled_tokens (of_int (capacity r)) now now r)"

text \<open>The verdict \<open>(allowed, remaining, reset, retry)\<close> of one rule on a store, nothing changed.\<close>

definition bucket_view :: "real \<Rightarrow> RateLimitRule \<Rightarrow> bool \<times> int \<times> int \<times> int" where
  "bucket_view refilled r =
     (let reset = max 0 \<lceil>(of_int (capacity r) - refilled) / refill_per_second r\<rceil>
      in if refilled < 1
         then let retry = max 1 \<lceil>(1 - refilled) / refill_per_second r\<rceil> in (False, 0, max reset retry, retry)
         else (True, \<lfloor>refilled - 1\<rfloor>, reset, 0))"

definition rule_view :: "string \<Rightarrow> real \<Rightarrow> RateLimitRule \<Rightarrow> quota_store \<Rightarrow> bool \<times> int \<times> int \<times> int" where
  "rule_view key now r s =
     (let rk = rule_key key r
      in if is_bucket r then bucket_view (tokens_now s rk r now) r
         else fst (window_state (hits_of s rk) now r))"

definition refilled_of :: "string \<Rightarrow> real \<Rightarrow> quota_store \<Rightarrow> RateLimitRule \<Rightarrow> real" where
  "refilled_of key now s r = (if is_bucket r then tokens_now s (rule_key key r) r now else 0)"

definition prune_rule :: "string \<Rightarrow> real \<Rightarrow> RateLimitRule \<Rightarrow> quota_store \<Rightarrow> quota_store" where
  "prune_rule key now r s =
     (if is_bucket r then s
      else s\<lparr>qs_windows := (qs_windows s)(rule_key key r \<mapsto>
             dropWhile (\<lambda>h. h < now - rl_window_seconds r) (hits_of s (rule_key key r)))\<rparr>)"

lemma bucket_state_view:
  "bucket_state tokens u now r =
     (case bucket_view (refilled_tokens tokens u now r) r of
        (ok, remaining, reset, retry) \<Rightarrow> (ok, refilled_tokens tokens u now r, remaining, reset, retry))"
  by (simp add: bucket_state_def bucket_view_def Let_def)

lemma inspect_rule_view:
  "inspect_rule key now r s =
     (fst (rule_view key now r s), (r, snd (rule_view key now r s)), refilled_of key now s r,
      prune_rule key now r s)"
  by (auto simp: inspect_rule_def rule_view_def refilled_of_def prune_rule_def tokens_now_def hits_of_def
        bucket_state_view window_state_def Let_def split: option.splits prod.splits)

lemma prune_rule_frame [simp]:
  "qs_buckets (prune_rule key now r s) = qs_buckets s"
  "qs_expires (prune_rule key now r s) = qs_expires s"
  "qs_ops (prune_rule key now r s) = qs_ops s"
  "rk \<noteq> rule_key key r \<Longrightarrow> qs_windows (prune_rule key now r s) rk = qs_windows s rk"
  by (simp_all add: prune_rule_def)

lemma prune_rule_hit:
  "\<not> is_bucket r \<Longrightarrow> qs_windows (prune_rule key now r s) (rule_key key r) =
     Some (dropWhile (\<lambda>h. h < now - rl_window_seconds r) (hits_of s (rule_key key r)))"
  "is_bucket r \<Longrightarrow> prune_rule key now r s = s"
  by (simp_all add: prune_rule_def)

lemma rule_key_inj: "rule_key key r = rule_key key r' \<longleftrightarrow> effective_scope r = effective_scope r'"
  by (simp add: rule_key_def)

lemma view_after_prune:
  assumes "effective_scope r' \<noteq> effective_scope r"
  shows "rule_view key now r' (prune_rule key now r s) = rule_view key now r' s"
    and "refilled_of key now (prune_rule key now r s) r' = refilled_of key now s r'"
  using assms
  by (simp_all add: rule_view_def refilled_of_def tokens_now_def hits_of_def Let_def rule_key_inj)

lemma inspect_rules_views:
  assumes "distinct (map effective_scope rules)"
  shows "inspect_rules key now rules s =
    (\<forall>r \<in> set rules. fst (rule_view key now r s), map (\<lambda>r. (r, snd (rule_view key now r s))) rules,
     map (\<lambda>r. (r, refilled_of key now s r)) rules, fold (prune_rule key now) rules s)"
  using assms
proof (induction rules arbitrary: s)
  case Nil
  then show ?case by simp
next
  case (Cons r rules)
  let ?s = "prune_rule key now r s"
  have other: "effective_scope r' \<noteq> effective_scope r" if "r' \<in> set rules" for r'
    using Cons.prems that by (auto simp: image_iff)
  have "inspect_rules key now rules ?s =
    (\<forall>r \<in> set rules. fst (rule_view key now r ?s), map (\<lambda>r. (r, snd (rule_view key now r ?s))) rules,
     map (\<lambda>r. (r, refilled_of key now ?s r)) rules, fold (prune_rule key now) rules ?s)"
    using Cons by simp
  also have "\<dots> = (\<forall>r \<in> set rules. fst (rule_view key now r s), map (\<lambda>r. (r, snd (rule_view key now r s))) rules,
     map (\<lambda>r. (r, refilled_of key now s r)) rules, fold (prune_rule key now) rules ?s)"
    using view_after_prune [OF other, where key = key and now = now and s = s] by auto
  finally show ?case by (simp add: inspect_rule_view)
qed

lemma fold_prune_frame [simp]:
  "qs_buckets (fold (prune_rule key now) rules s) = qs_buckets s"
  "qs_expires (fold (prune_rule key now) rules s) = qs_expires s"
  by (induction rules arbitrary: s) simp_all

lemma fold_prune_other:
  "rk \<notin> rule_key key ` set rules \<Longrightarrow> qs_windows (fold (prune_rule key now) rules s) rk = qs_windows s rk"
  by (induction rules arbitrary: s) simp_all

lemma fold_prune_window:
  assumes "r \<in> set rules" and "\<not> is_bucket r" and "distinct (map effective_scope rules)"
  shows "qs_windows (fold (prune_rule key now) rules s) (rule_key key r) =
    Some (dropWhile (\<lambda>h. h < now - rl_window_seconds r) (hits_of s (rule_key key r)))"
  using assms
proof (induction rules arbitrary: s)
  case Nil
  then show ?case by simp
next
  case (Cons r' rules)
  show ?case
  proof (cases "r' = r")
    case True
    then have "rule_key key r \<notin> rule_key key ` set rules"
      using Cons.prems(3) by (auto simp: rule_key_inj)
    then show ?thesis using True Cons.prems(2) by (simp add: fold_prune_other prune_rule_hit)
  next
    case False
    then have "effective_scope r \<noteq> effective_scope r'" using Cons.prems(1,3) by (auto simp: image_iff)
    then have "hits_of (prune_rule key now r' s) (rule_key key r) = hits_of s (rule_key key r)"
      by (simp add: hits_of_def rule_key_inj)
    then show ?thesis using False Cons by simp
  qed
qed

lemma fold_prune_bucket:
  assumes "r \<in> set rules" and "is_bucket r" and "distinct (map effective_scope rules)"
  shows "qs_windows (fold (prune_rule key now) rules s) (rule_key key r) = qs_windows s (rule_key key r)"
  using assms
proof (induction rules arbitrary: s)
  case Nil
  then show ?case by simp
next
  case (Cons r' rules)
  show ?case
  proof (cases "r' = r")
    case True
    then have "rule_key key r \<notin> rule_key key ` set rules"
      using Cons.prems(3) by (auto simp: rule_key_inj)
    then show ?thesis using True Cons.prems(2) by (simp add: fold_prune_other prune_rule_hit)
  next
    case False
    then have "effective_scope r \<noteq> effective_scope r'" using Cons.prems(1,3) by (auto simp: image_iff)
    then show ?thesis using False Cons by (simp add: rule_key_inj)
  qed
qed

lemma first_best_in: "first_best better b xs \<in> insert b (set xs)"
proof (induction xs arbitrary: b)
  case Nil
  then show ?case by simp
next
  case (Cons x xs)
  from Cons [of "if better x b then x else b"] show ?case by (auto split: if_splits)
qed

lemma pick_binding_in:
  assumes "cs \<noteq> []"
  obtains c where "pick_binding cs = Some c" and "c \<in> set cs"
proof (cases cs)
  case Nil
  with assms show ?thesis by simp
next
  case (Cons c cs')
  let ?b = "\<lambda>(_ :: RateLimitRule, rem1 :: int, reset1 :: int, _ :: int) (_ :: RateLimitRule, rem2, reset2, _ :: int).
    rem1 < rem2 \<or> rem1 = rem2 \<and> - reset1 < - reset2"
  have "pick_binding cs = Some (first_best ?b c cs')" using Cons by (simp add: pick_binding_def)
  then show ?thesis using first_best_in [of ?b c cs'] Cons by (intro that) simp_all
qed

lemma pick_denied_in:
  assumes "(r, m, e, w) \<in> set cs" and "0 < w"
  obtains r' m' e' w' where "pick_denied cs = Some (r', m', e', w')"
    and "(r', m', e', w') \<in> set cs" and "0 < w'"
proof -
  let ?f = "filter (\<lambda>(_ :: RateLimitRule, _ :: int, _ :: int, retry). retry > (0 :: int)) cs"
  let ?b = "\<lambda>(_ :: RateLimitRule, _ :: int, _ :: int, retry1 :: int) (_ :: RateLimitRule, _ :: int, _ :: int, retry2). retry1 > retry2"
  obtain c cs' where f: "?f = c # cs'"
    using assms by (cases ?f) (auto simp: filter_empty_conv)
  have p: "pick_denied cs = Some (first_best ?b c cs')" by (simp add: pick_denied_def f)
  have "first_best ?b c cs' \<in> set ?f" using first_best_in [of ?b c cs'] f by simp
  moreover obtain r' m' e' w' where best: "first_best ?b c cs' = (r', m', e', w')"
    by (cases "first_best ?b c cs'")
  ultimately have "(r', m', e', w') \<in> set cs" "0 < w'" by auto
  with p best show ?thesis by (intro that) simp_all
qed

lemma rule_view_verdict:
  assumes "valid_rule r" and "rule_view key now r s = (ok, remaining, reset, retry)"
  shows "ok \<Longrightarrow> 0 \<le> remaining \<and> retry = 0" and "\<not> ok \<Longrightarrow> remaining = 0 \<and> 1 \<le> retry \<and> retry \<le> reset"
  using assms valid_rule_pos [OF assms(1)]
  by (auto simp: rule_view_def bucket_view_def window_state_def Let_def split: if_splits list.splits)

definition charge_all :: "string \<Rightarrow> real \<Rightarrow> RateLimitRule list \<Rightarrow> quota_store \<Rightarrow> quota_store" where
  "charge_all key now rules s0 =
     fold (charge_rule key now) (map (\<lambda>r. (r, refilled_of key now s0 r)) rules)
       (fold (prune_rule key now) rules s0)"

abbreviation accepts :: "string \<Rightarrow> real \<Rightarrow> RateLimitRule list \<Rightarrow> quota_store \<Rightarrow> bool" where
  "accepts key now rules s \<equiv> \<forall>r \<in> set rules. fst (rule_view key now r s)"

lemma quota_consume_accept:
  assumes "rules \<noteq> []" and "distinct (map effective_scope rules)" and "\<forall>r \<in> set rules. valid_rule r"
    and "accepts key now rules (tick now s)"
  obtains r remaining reset where "r \<in> set rules"
    and "rule_view key now r (tick now s) = (True, remaining, reset, 0)"
    and "quota_consume key rules now s =
      (Inr \<lparr>qr_allowed = True, qr_limit = rl_max_requests r, qr_remaining = remaining,
            qr_reset_seconds = reset, qr_retry_after = 0, qr_scope = effective_scope r\<rparr>,
       charge_all key now rules (tick now s))"
proof -
  let ?cs = "map (\<lambda>r. (r, snd (rule_view key now r (tick now s)))) rules"
  have "?cs \<noteq> []" using assms(1) by simp
  then obtain c where c: "pick_binding ?cs = Some c" "c \<in> set ?cs" by (rule pick_binding_in)
  obtain r remaining reset retry where split: "c = (r, remaining, reset, retry)" by (cases c)
  with c(2) assms(4) have r: "r \<in> set rules" "rule_view key now r (tick now s) = (True, remaining, reset, retry)"
    by (auto simp: prod_eq_iff)
  then have "retry = 0" using rule_view_verdict(1) [of r] assms(3) by blast
  moreover have "quota_consume key rules now s =
      (Inr \<lparr>qr_allowed = True, qr_limit = rl_max_requests r, qr_remaining = remaining,
            qr_reset_seconds = reset, qr_retry_after = 0, qr_scope = effective_scope r\<rparr>,
       charge_all key now rules (tick now s))"
    using assms(1,4) c(1) split
    by (simp add: quota_consume_def inspect_rules_views [OF assms(2)] charge_all_def)
  ultimately show ?thesis using r that by blast
qed

lemma quota_consume_deny:
  assumes "rules \<noteq> []" and "distinct (map effective_scope rules)" and "\<forall>r \<in> set rules. valid_rule r"
    and "\<not> accepts key now rules (tick now s)"
  obtains r reset retry where "r \<in> set rules" and "1 \<le> retry"
    and "rule_view key now r (tick now s) = (False, 0, reset, retry)"
    and "quota_consume key rules now s =
      (Inr \<lparr>qr_allowed = False, qr_limit = rl_max_requests r, qr_remaining = 0,
            qr_reset_seconds = reset, qr_retry_after = retry, qr_scope = effective_scope r\<rparr>,
       fold (prune_rule key now) rules (tick now s))"
proof -
  let ?cs = "map (\<lambda>r. (r, snd (rule_view key now r (tick now s)))) rules"
  obtain r0 where r0: "r0 \<in> set rules" "\<not> fst (rule_view key now r0 (tick now s))" using assms(4) by blast
  obtain m e w where v0: "rule_view key now r0 (tick now s) = (False, m, e, w)"
    using r0(2) by (cases "rule_view key now r0 (tick now s)") auto
  then have "0 < w" using rule_view_verdict(2) [of r0 key now "tick now s" False m e w] assms(3) r0(1) by auto
  moreover have "(r0, m, e, w) \<in> set ?cs" using r0(1) v0 by force
  ultimately have bad: "(r0, m, e, w) \<in> set ?cs" "0 < w" by simp_all
  obtain r m' e' w' where p: "pick_denied ?cs = Some (r, m', e', w')"
      "(r, m', e', w') \<in> set ?cs" "0 < w'"
    by (rule pick_denied_in [OF bad])
  from p(2) have r: "r \<in> set rules" "snd (rule_view key now r (tick now s)) = (m', e', w')" by auto
  moreover have no: "\<not> fst (rule_view key now r (tick now s))"
    using rule_view_verdict(1) [of r key now "tick now s" True m' e' w'] assms(3) r p(3)
    by (cases "rule_view key now r (tick now s)") auto
  ultimately have v: "rule_view key now r (tick now s) = (False, m', e', w')"
    by (simp add: prod_eq_iff)
  then have "m' = 0" "1 \<le> w'" using rule_view_verdict(2) [of r key now "tick now s"] assms(3) r(1) by auto
  moreover have "quota_consume key rules now s =
      (Inr \<lparr>qr_allowed = False, qr_limit = rl_max_requests r, qr_remaining = 0,
            qr_reset_seconds = e', qr_retry_after = w', qr_scope = effective_scope r\<rparr>,
       fold (prune_rule key now) rules (tick now s))"
    using assms(1,4) p(1)
    by (auto simp: quota_consume_def inspect_rules_views [OF assms(2)])
  ultimately show ?thesis using that r(1) v by blast
qed

subsection \<open>Charging, key by key\<close>

lemma fold_charge_other:
  assumes "rk \<notin> (\<lambda>(r, _). rule_key key r) ` set pending"
  shows "qs_windows (fold (charge_rule key now) pending s) rk = qs_windows s rk"
    "qs_buckets (fold (charge_rule key now) pending s) rk = qs_buckets s rk"
    "qs_expires (fold (charge_rule key now) pending s) rk = qs_expires s rk"
  using assms
  by (induction pending arbitrary: s) (auto simp: charge_rule_def Let_def split: prod.splits)

lemma fold_charge_hit:
  assumes "(r, v) \<in> set pending" and "distinct (map (\<lambda>(r, _). rule_key key r) pending)"
  shows "qs_windows (fold (charge_rule key now) pending s) (rule_key key r) =
      qs_windows (charge_rule key now (r, v) s) (rule_key key r)"
    "qs_buckets (fold (charge_rule key now) pending s) (rule_key key r) =
      qs_buckets (charge_rule key now (r, v) s) (rule_key key r)"
    "qs_expires (fold (charge_rule key now) pending s) (rule_key key r) =
      qs_expires (charge_rule key now (r, v) s) (rule_key key r)"
proof -
  have "qs_windows (fold (charge_rule key now) pending s) (rule_key key r) =
      qs_windows (charge_rule key now (r, v) s) (rule_key key r) \<and>
    qs_buckets (fold (charge_rule key now) pending s) (rule_key key r) =
      qs_buckets (charge_rule key now (r, v) s) (rule_key key r) \<and>
    qs_expires (fold (charge_rule key now) pending s) (rule_key key r) =
      qs_expires (charge_rule key now (r, v) s) (rule_key key r)"
    using assms
  proof (induction pending arbitrary: s)
    case Nil
    then show ?case by simp
  next
    case (Cons x pending)
    show ?case
    proof (cases "x = (r, v)")
      case True
      then have "rule_key key r \<notin> (\<lambda>(r, _). rule_key key r) ` set pending" using Cons.prems(2) by auto
      from fold_charge_other [OF this] True show ?thesis by simp
    next
      case False
      with Cons.prems(1) have later: "(r, v) \<in> set pending" by simp
      obtain r1 v1 where x: "x = (r1, v1)" by (cases x)
      with later Cons.prems(2) have "rule_key key r \<noteq> rule_key key r1" by (auto simp: image_iff)
      then have "qs_windows (charge_rule key now (r, v) (charge_rule key now x s)) (rule_key key r) =
          qs_windows (charge_rule key now (r, v) s) (rule_key key r)"
        "qs_buckets (charge_rule key now (r, v) (charge_rule key now x s)) (rule_key key r) =
          qs_buckets (charge_rule key now (r, v) s) (rule_key key r)"
        "qs_expires (charge_rule key now (r, v) (charge_rule key now x s)) (rule_key key r) =
          qs_expires (charge_rule key now (r, v) s) (rule_key key r)"
        using x by (auto simp: charge_rule_def Let_def)
      with Cons.IH [OF later, of "charge_rule key now x s"] Cons.prems(2) show ?thesis by simp
    qed
  qed
  then show "qs_windows (fold (charge_rule key now) pending s) (rule_key key r) =
      qs_windows (charge_rule key now (r, v) s) (rule_key key r)"
    "qs_buckets (fold (charge_rule key now) pending s) (rule_key key r) =
      qs_buckets (charge_rule key now (r, v) s) (rule_key key r)"
    "qs_expires (fold (charge_rule key now) pending s) (rule_key key r) =
      qs_expires (charge_rule key now (r, v) s) (rule_key key r)" by blast+
qed

subsection \<open>What the counters remember\<close>

text \<open>
  \<open>adm\<close> are the times a key's rule let a request through, \<open>t1\<close> the latest reading of the clock.
  A window cell still holds every admission inside the window; a bucket cell (or its absence, which
  means full) accounts for the admissions since any instant \<open>a\<close>.
\<close>

definition since :: "real \<Rightarrow> real list \<Rightarrow> nat" where
  "since a ts = length (filter (\<lambda>t. a \<le> t) ts)"

lemma since_simps [simp]:
  "since a [] = 0"
  "since a (ts @ [t]) = since a ts + (if a \<le> t then 1 else 0)"
  by (simp_all add: since_def)

lemma since_zero: "\<forall>t \<in> set ts. t < a \<Longrightarrow> since a ts = 0"
  by (auto simp: since_def filter_empty_conv)

lemma since_le_length: "since a ts \<le> length ts"
  by (simp add: since_def)

lemma since_dropWhile:
  assumes "cutoff \<le> a"
  shows "since a (dropWhile (\<lambda>h. h < cutoff) ts) = since a ts"
  using assms by (induction ts) (auto simp: since_def)

definition window_cell ::
  "RateLimitRule \<Rightarrow> real \<Rightarrow> real list \<Rightarrow> real list \<Rightarrow> real option \<Rightarrow> bool" where
  "window_cell r t1 adm hits ex \<longleftrightarrow>
     (\<forall>t \<in> set adm. t \<le> t1) \<and> (\<forall>h \<in> set hits. h \<le> t1) \<and> int (length hits) \<le> rl_max_requests r \<and>
     (\<forall>a. t1 - rl_window_seconds r < a \<longrightarrow> since a adm \<le> since a hits) \<and>
     (case ex of
        Some e \<Rightarrow> (\<forall>t \<in> set adm. t + rl_window_seconds r \<le> e) \<and> (\<forall>h \<in> set hits. h + rl_window_seconds r \<le> e)
      | None \<Rightarrow> (\<forall>t \<in> set adm. t + rl_window_seconds r \<le> t1) \<and> hits = [])"

definition bucket_cell ::
  "RateLimitRule \<Rightarrow> real \<Rightarrow> real list \<Rightarrow> (real \<times> real) option \<Rightarrow> real option \<Rightarrow> bool" where
  "bucket_cell r t1 adm b ex \<longleftrightarrow>
     (\<forall>t \<in> set adm. t \<le> t1) \<and>
     (case b of
        Some (tokens, u) \<Rightarrow>
          u \<le> t1 \<and> 0 \<le> tokens \<and> tokens \<le> of_int (capacity r) \<and> (\<forall>t \<in> set adm. t \<le> u) \<and>
          (\<forall>a \<le> u. real (since a adm) \<le> of_int (capacity r) - tokens + (u - a) * refill_per_second r) \<and>
          ex = Some (u + (of_int (capacity r) - tokens) / refill_per_second r)
      | None \<Rightarrow> ex = None \<and> (\<forall>a \<le> t1. real (since a adm) \<le> (t1 - a) * refill_per_second r))"

lemma window_cell_later:
  assumes "window_cell r t1 adm hits ex" and "t1 \<le> t2"
  shows "window_cell r t2 adm hits ex"
  using assms by (fastforce simp: window_cell_def split: option.splits)

lemma bucket_cell_later:
  assumes "bucket_cell r t1 adm b ex" and "t1 \<le> t2" and r: "valid_rule r"
  shows "bucket_cell r t2 adm b ex"
proof (cases b)
  case None
  have "real (since a adm) \<le> (t2 - a) * refill_per_second r" if "a \<le> t2" for a
  proof (cases "a \<le> t1")
    case True
    then have "real (since a adm) \<le> (t1 - a) * refill_per_second r"
      using assms(1) None by (simp add: bucket_cell_def)
    also have "\<dots> \<le> (t2 - a) * refill_per_second r"
      using assms(2) valid_rule_pos(1) [OF r] by (intro mult_right_mono) auto
    finally show ?thesis .
  next
    case False
    then have "since a adm = 0" using assms(1) by (intro since_zero) (auto simp: bucket_cell_def)
    then show ?thesis using that valid_rule_pos(1) [OF r] by simp
  qed
  then show ?thesis using assms None by (fastforce simp: bucket_cell_def)
next
  case (Some tu)
  then show ?thesis using assms by (fastforce simp: bucket_cell_def)
qed

lemma window_cell_swept:
  assumes "window_cell r t1 adm hits (Some e)" and "e \<le> t1" and "valid_rule r"
  shows "window_cell r t1 adm [] None"
proof -
  have old: "t + rl_window_seconds r \<le> t1" if "t \<in> set adm" for t
    using assms(1,2) that by (fastforce simp: window_cell_def)
  then have "since a adm = 0" if "t1 - rl_window_seconds r < a" for a
    using that by (intro since_zero) fastforce
  then show ?thesis using assms(1) old valid_rule_pos(4) [OF assms(3)] by (simp add: window_cell_def)
qed

lemma bucket_cell_swept:
  assumes "bucket_cell r t1 adm b (Some e)" and "e \<le> t1" and r: "valid_rule r"
  shows "bucket_cell r t1 adm None None"
proof -
  note pos = valid_rule_pos(1) [OF r]
  obtain tokens u where b: "b = Some (tokens, u)" and
    e: "e = u + (of_int (capacity r) - tokens) / refill_per_second r" and
    bound: "\<forall>a \<le> u. real (since a adm) \<le> of_int (capacity r) - tokens + (u - a) * refill_per_second r" and
    le: "\<forall>t \<in> set adm. t \<le> u"
    using assms(1) by (auto simp: bucket_cell_def split: option.splits)
  have full: "of_int (capacity r) - tokens \<le> (t1 - u) * refill_per_second r"
  proof -
    have "(of_int (capacity r) - tokens) / refill_per_second r \<le> t1 - u" using e assms(2) by simp
    then show ?thesis using pos by (simp add: pos_divide_le_eq)
  qed
  have "real (since a adm) \<le> (t1 - a) * refill_per_second r" if "a \<le> t1" for a
  proof (cases "a \<le> u")
    case True
    then have "real (since a adm) \<le> of_int (capacity r) - tokens + (u - a) * refill_per_second r"
      using bound by simp
    also have "\<dots> \<le> (t1 - a) * refill_per_second r" using full by (simp add: algebra_simps)
    finally show ?thesis .
  next
    case False
    then have "since a adm = 0" using le by (intro since_zero) auto
    then show ?thesis using that pos by simp
  qed
  then show ?thesis using assms(1) by (simp add: bucket_cell_def)
qed

lemma window_cell_pruned:
  assumes "window_cell r t1 adm hits ex"
  shows "window_cell r t1 adm (dropWhile (\<lambda>h. h < t1 - rl_window_seconds r) hits) ex"
proof -
  let ?d = "dropWhile (\<lambda>h. h < t1 - rl_window_seconds r) hits"
  have "length ?d \<le> length hits" "set ?d \<subseteq> set hits"
    by (simp add: length_dropWhile_le) (meson set_dropWhileD subsetI)
  moreover have "since a ?d = since a hits" if "t1 - rl_window_seconds r < a" for a
    using that by (intro since_dropWhile) simp
  ultimately show ?thesis using assms by (fastforce simp: window_cell_def split: option.splits)
qed

lemma window_cell_charged:
  assumes "window_cell r t1 adm hits ex" and "int (length hits) < rl_max_requests r" and r: "valid_rule r"
  shows "window_cell r t1 (adm @ [t1]) (hits @ [t1]) (Some (t1 + rl_window_seconds r))"
    and "t1 - rl_window_seconds r < a \<Longrightarrow> int (since a (adm @ [t1])) \<le> rl_max_requests r"
proof -
  show "window_cell r t1 (adm @ [t1]) (hits @ [t1]) (Some (t1 + rl_window_seconds r))"
    using assms(1,2) by (auto simp: window_cell_def split: option.splits)
  assume "t1 - rl_window_seconds r < a"
  then have "since a adm \<le> length hits"
    using assms(1) since_le_length [of a hits] by (fastforce simp: window_cell_def)
  then show "int (since a (adm @ [t1])) \<le> rl_max_requests r" using assms(2) by auto
qed

definition cell_tokens :: "RateLimitRule \<Rightarrow> real \<Rightarrow> (real \<times> real) option \<Rightarrow> real" where
  "cell_tokens r now b = (case b of
     Some (tokens, u) \<Rightarrow> refilled_tokens tokens u now r
   | None \<Rightarrow> refilled_tokens (of_int (capacity r)) now now r)"

lemma bucket_cell_refilled:
  assumes "bucket_cell r t1 adm b ex" and r: "valid_rule r"
  shows "0 \<le> cell_tokens r t1 b \<and> cell_tokens r t1 b \<le> of_int (capacity r)"
    and "a \<le> t1 \<Longrightarrow>
      real (since a adm) \<le> of_int (capacity r) - cell_tokens r t1 b + (t1 - a) * refill_per_second r"
proof -
  note pos = valid_rule_pos(1) [OF r] and cap = valid_rule_pos(2) [OF r]
  have "(0 \<le> cell_tokens r t1 b \<and> cell_tokens r t1 b \<le> of_int (capacity r)) \<and>
    (\<forall>a \<le> t1. real (since a adm) \<le> of_int (capacity r) - cell_tokens r t1 b + (t1 - a) * refill_per_second r)"
  proof (cases b)
    case None
    then show ?thesis using assms(1) cap by (simp add: bucket_cell_def cell_tokens_def refilled_tokens_def)
  next
    case (Some tu)
    then obtain tokens u where b: "b = Some (tokens, u)" by (cases tu) simp
    have u: "u \<le> t1" "0 \<le> tokens" "tokens \<le> of_int (capacity r)" "\<forall>t \<in> set adm. t \<le> u"
      and bound: "\<And>a. a \<le> u \<Longrightarrow>
        real (since a adm) \<le> of_int (capacity r) - tokens + (u - a) * refill_per_second r"
      using assms(1) b by (auto simp: bucket_cell_def)
    let ?f = "tokens + (t1 - u) * refill_per_second r"
    have f: "cell_tokens r t1 b = min (of_int (capacity r)) ?f"
      using b u(1) by (simp add: cell_tokens_def refilled_tokens_def)
    have "0 \<le> ?f" using u pos by simp
    then have "0 \<le> cell_tokens r t1 b \<and> cell_tokens r t1 b \<le> of_int (capacity r)" using f cap by simp
    moreover have "real (since a adm) \<le> of_int (capacity r) - cell_tokens r t1 b + (t1 - a) * refill_per_second r"
      if a: "a \<le> t1" for a
    proof (cases "a \<le> u")
      case True
      have "of_int (capacity r) - tokens + (u - a) * refill_per_second r
          = of_int (capacity r) - ?f + (t1 - a) * refill_per_second r" by (simp add: algebra_simps)
      also have "\<dots> \<le> of_int (capacity r) - cell_tokens r t1 b + (t1 - a) * refill_per_second r"
        using f by simp
      finally show ?thesis using bound [OF True] by linarith
    next
      case False
      then have "since a adm = 0" using u(4) by (intro since_zero) auto
      moreover have "0 \<le> (t1 - a) * refill_per_second r" using a pos by simp
      ultimately show ?thesis using f by simp
    qed
    ultimately show ?thesis by blast
  qed
  then show "0 \<le> cell_tokens r t1 b \<and> cell_tokens r t1 b \<le> of_int (capacity r)"
    and "a \<le> t1 \<Longrightarrow>
      real (since a adm) \<le> of_int (capacity r) - cell_tokens r t1 b + (t1 - a) * refill_per_second r"
    by blast+
qed

lemma bucket_cell_charged:
  assumes "bucket_cell r t1 adm b ex" and "1 \<le> cell_tokens r t1 b" and r: "valid_rule r"
  shows "bucket_cell r t1 (adm @ [t1]) (Some (cell_tokens r t1 b - 1, t1))
      (Some (t1 + (of_int (capacity r) - (cell_tokens r t1 b - 1)) / refill_per_second r))"
    and "a \<le> t1 \<Longrightarrow> real (since a (adm @ [t1])) \<le> of_int (capacity r) + (t1 - a) * refill_per_second r"
proof -
  note f = bucket_cell_refilled [OF assms(1) r]
  show "bucket_cell r t1 (adm @ [t1]) (Some (cell_tokens r t1 b - 1, t1))
      (Some (t1 + (of_int (capacity r) - (cell_tokens r t1 b - 1)) / refill_per_second r))"
    using assms(1,2) f by (fastforce simp: bucket_cell_def)
  assume "a \<le> t1"
  from f(2) [OF this] assms(2) show "real (since a (adm @ [t1])) \<le> of_int (capacity r) + (t1 - a) * refill_per_second r"
    using \<open>a \<le> t1\<close> by simp
qed

subsection \<open>Histories of the store\<close>

text \<open>
  One process, one clock that never goes back. Each rule key belongs to one rule (\<open>rule_of\<close>), and
  the rules of a call have different scopes. The history lists the admitted calls with their rule
  keys.
\<close>

inductive quota_run ::
  "(string \<Rightarrow> RateLimitRule) \<Rightarrow> (real \<times> string list) list \<Rightarrow> real \<Rightarrow> quota_store \<Rightarrow> bool"
  for rule_of :: "string \<Rightarrow> RateLimitRule" where
  start: "quota_run rule_of [] t1 empty_quota_store"
| call: "quota_run rule_of hist t1 s \<Longrightarrow> t1 \<le> now \<Longrightarrow> rules \<noteq> [] \<Longrightarrow>
    \<forall>r \<in> set rules. valid_rule r \<and> rule_of (rule_key key r) = r \<Longrightarrow>
    distinct (map effective_scope rules) \<Longrightarrow>
    quota_consume key rules now s = (Inr res, s') \<Longrightarrow>
    quota_run rule_of
      (if qr_allowed res then hist @ [(now, map (rule_key key) rules)] else hist) now s'"

definition admitted :: "string \<Rightarrow> (real \<times> string list) list \<Rightarrow> real list" where
  "admitted rk hist = map fst (filter (\<lambda>(t, ks). rk \<in> set ks) hist)"

lemma admitted_simps [simp]:
  "admitted rk [] = []"
  "admitted rk (hist @ [(t, ks)]) = admitted rk hist @ (if rk \<in> set ks then [t] else [])"
  by (simp_all add: admitted_def)

definition store_cell ::
  "(string \<Rightarrow> RateLimitRule) \<Rightarrow> (real \<times> string list) list \<Rightarrow> real \<Rightarrow> quota_store \<Rightarrow> string \<Rightarrow> bool" where
  "store_cell rule_of hist t1 s rk \<longleftrightarrow>
     (if is_bucket (rule_of rk)
      then bucket_cell (rule_of rk) t1 (admitted rk hist) (qs_buckets s rk) (qs_expires s rk)
      else window_cell (rule_of rk) t1 (admitted rk hist) (hits_of s rk) (qs_expires s rk))"

lemma store_cell_cong:
  assumes "qs_windows s' rk = qs_windows s rk" and "qs_buckets s' rk = qs_buckets s rk"
    and "qs_expires s' rk = qs_expires s rk"
  shows "store_cell rule_of hist t1 s' rk = store_cell rule_of hist t1 s rk"
proof -
  have "hits_of s' rk = hits_of s rk" using assms(1) by (simp add: hits_of_def)
  with assms show ?thesis by (simp add: store_cell_def)
qed

lemma store_cell_start: "valid_rule (rule_of rk) \<Longrightarrow> store_cell rule_of [] t1 empty_quota_store rk"
  using valid_rule_pos [of "rule_of rk"]
  by (simp add: store_cell_def bucket_cell_def window_cell_def empty_quota_store_def hits_of_def)

lemma store_cell_tick:
  assumes "store_cell rule_of hist t1 s rk" and "t1 \<le> now" and r: "valid_rule (rule_of rk)"
  shows "store_cell rule_of hist now (tick now s) rk"
proof -
  have later: "store_cell rule_of hist now s rk"
    using assms by (auto simp: store_cell_def intro: bucket_cell_later window_cell_later)
  show ?thesis
  proof (cases "(qs_ops s + 1) mod GC_EVERY = 0 \<and> expired s now rk")
    case False
    then have "qs_windows (tick now s) rk = qs_windows s rk" "qs_buckets (tick now s) rk = qs_buckets s rk"
      "qs_expires (tick now s) rk = qs_expires s rk"
      by (auto simp: tick_def sweep_def expired_def Let_def)
    then have "store_cell rule_of hist now (tick now s) rk = store_cell rule_of hist now s rk"
      by (rule store_cell_cong)
    with later show ?thesis by simp
  next
    case True
    then have gone: "qs_windows (tick now s) rk = None" "qs_buckets (tick now s) rk = None"
      "qs_expires (tick now s) rk = None"
      by (auto simp: tick_def sweep_def expired_def Let_def)
    obtain e where "qs_expires s rk = Some e" "e \<le> now"
      using True by (auto simp: expired_def not_less split: option.splits)
    with later gone r show ?thesis
      by (auto simp: store_cell_def hits_of_def intro: bucket_cell_swept window_cell_swept)
  qed
qed

lemma store_cell_pruned:
  assumes "store_cell rule_of hist now s rk" and "distinct (map effective_scope rules)"
    and "\<forall>r \<in> set rules. rule_of (rule_key key r) = r"
  shows "store_cell rule_of hist now (fold (prune_rule key now) rules s) rk"
proof (cases "rk \<in> rule_key key ` set rules")
  case False
  then have "store_cell rule_of hist now (fold (prune_rule key now) rules s) rk = store_cell rule_of hist now s rk"
    by (intro store_cell_cong) (simp_all add: fold_prune_other)
  then show ?thesis using assms(1) by simp
next
  case True
  then obtain r where r: "r \<in> set rules" "rk = rule_key key r" "rule_of rk = r" using assms(3) by blast
  show ?thesis
  proof (cases "is_bucket r")
    case True
    then show ?thesis using assms(1) r by (simp add: store_cell_def)
  next
    case False
    then have "hits_of (fold (prune_rule key now) rules s) rk =
        dropWhile (\<lambda>h. h < now - rl_window_seconds r) (hits_of s rk)"
      using fold_prune_window [OF r(1) False assms(2)] r(2) by (simp add: hits_of_def)
    then show ?thesis using assms(1) r(3) False by (simp add: store_cell_def window_cell_pruned)
  qed
qed

lemma charge_all_other:
  assumes "rk \<notin> rule_key key ` set rules"
  shows "qs_windows (charge_all key now rules s) rk = qs_windows s rk"
    "qs_buckets (charge_all key now rules s) rk = qs_buckets s rk"
    "qs_expires (charge_all key now rules s) rk = qs_expires s rk"
proof -
  have "rk \<notin> (\<lambda>(r, _). rule_key key r) ` set (map (\<lambda>r. (r, refilled_of key now s r)) rules)"
    using assms by auto
  from fold_charge_other [OF this] assms
  show "qs_windows (charge_all key now rules s) rk = qs_windows s rk"
    "qs_buckets (charge_all key now rules s) rk = qs_buckets s rk"
    "qs_expires (charge_all key now rules s) rk = qs_expires s rk"
    by (simp_all add: charge_all_def fold_prune_other)
qed

lemma charge_all_hit:
  assumes "r \<in> set rules" and "distinct (map effective_scope rules)" and "rk = rule_key key r"
  shows "is_bucket r \<Longrightarrow> qs_buckets (charge_all key now rules s) rk = Some (tokens_now s rk r now - 1, now)"
    "is_bucket r \<Longrightarrow> qs_expires (charge_all key now rules s) rk =
       Some (now + (of_int (capacity r) - (tokens_now s rk r now - 1)) / refill_per_second r)"
    "\<not> is_bucket r \<Longrightarrow> hits_of (charge_all key now rules s) rk =
       dropWhile (\<lambda>h. h < now - rl_window_seconds r) (hits_of s rk) @ [now]"
    "\<not> is_bucket r \<Longrightarrow> qs_expires (charge_all key now rules s) rk = Some (now + rl_window_seconds r)"
proof -
  let ?pending = "map (\<lambda>r. (r, refilled_of key now s r)) rules"
  let ?s = "fold (prune_rule key now) rules s"
  have "(r, refilled_of key now s r) \<in> set ?pending" using assms(1) by simp
  moreover have "distinct (map (\<lambda>(r, _). rule_key key r) ?pending)"
    using assms(2) by (simp add: comp_def distinct_map inj_on_def rule_key_inj)
  ultimately have mem: "(r, refilled_of key now s r) \<in> set ?pending"
    "distinct (map (\<lambda>(r, _). rule_key key r) ?pending)" .
  note hit = fold_charge_hit [OF mem, of now ?s]
  show "is_bucket r \<Longrightarrow> qs_buckets (charge_all key now rules s) rk = Some (tokens_now s rk r now - 1, now)"
    "is_bucket r \<Longrightarrow> qs_expires (charge_all key now rules s) rk =
       Some (now + (of_int (capacity r) - (tokens_now s rk r now - 1)) / refill_per_second r)"
    using hit assms(3) by (simp_all add: charge_all_def charge_rule_def Let_def refilled_of_def)
  show "\<not> is_bucket r \<Longrightarrow> hits_of (charge_all key now rules s) rk =
       dropWhile (\<lambda>h. h < now - rl_window_seconds r) (hits_of s rk) @ [now]"
    using hit assms(3) fold_prune_window [OF assms(1) _ assms(2)]
    by (simp add: charge_all_def charge_rule_def Let_def hits_of_def)
  show "\<not> is_bucket r \<Longrightarrow> qs_expires (charge_all key now rules s) rk = Some (now + rl_window_seconds r)"
    using hit assms(3) by (simp add: charge_all_def charge_rule_def Let_def)
qed

lemma tokens_now_cell: "tokens_now s rk r now = cell_tokens r now (qs_buckets s rk)"
  by (simp add: tokens_now_def cell_tokens_def)

lemma accept_headroom:
  assumes "fst (rule_view key now r s)"
  shows "is_bucket r \<Longrightarrow> 1 \<le> tokens_now s (rule_key key r) r now"
    and "\<not> is_bucket r \<Longrightarrow>
      int (length (dropWhile (\<lambda>h. h < now - rl_window_seconds r) (hits_of s (rule_key key r)))) < rl_max_requests r"
  using assms
  by (auto simp: rule_view_def bucket_view_def window_state_def Let_def not_less split: if_splits)

text \<open>What one admission adds, on top of the history before it.\<close>

definition rule_bound :: "RateLimitRule \<Rightarrow> real list \<Rightarrow> bool" where
  "rule_bound r adm \<longleftrightarrow>
     (if is_bucket r
      then \<forall>a b. a \<le> b \<longrightarrow> real (length (filter (\<lambda>t. a \<le> t \<and> t \<le> b) adm)) \<le>
             of_int (capacity r) + (b - a) * refill_per_second r
      else \<forall>a. int (length (filter (\<lambda>t. a \<le> t \<and> t < a + rl_window_seconds r) adm)) \<le> rl_max_requests r)"

lemma filter_le_since: "length (filter (\<lambda>t. a \<le> t \<and> P t) ts) \<le> since a ts"
  by (induction ts) (auto simp: since_def)

lemma store_cell_charged:
  assumes cell: "store_cell rule_of hist now s rk" and bound: "rule_bound (rule_of rk) (admitted rk hist)"
    and r: "r \<in> set rules" "rk = rule_key key r" "rule_of rk = r" "valid_rule r"
    and "distinct (map effective_scope rules)" and "fst (rule_view key now r s)"
  shows "store_cell rule_of (hist @ [(now, map (rule_key key) rules)]) now (charge_all key now rules s) rk \<and>
    rule_bound (rule_of rk) (admitted rk (hist @ [(now, map (rule_key key) rules)]))"
proof (cases "is_bucket r")
  case True
  note hit = charge_all_hit(1,2) [OF r(1) assms(7) r(2) True, of now s]
  have one: "1 \<le> cell_tokens r now (qs_buckets s rk)"
    using accept_headroom(1) [OF assms(8) True] r(2) by (simp add: tokens_now_cell)
  have "bucket_cell r now (admitted rk hist) (qs_buckets s rk) (qs_expires s rk)"
    using cell True r(3) by (simp add: store_cell_def)
  note c = bucket_cell_charged [OF this one r(4)]
  have "rule_bound r (admitted rk hist @ [now])"
    unfolding rule_bound_def if_P [OF True]
  proof (intro allI impI)
    fix a b :: real assume ab: "a \<le> b"
    show "real (length (filter (\<lambda>t. a \<le> t \<and> t \<le> b) (admitted rk hist @ [now])))
        \<le> of_int (capacity r) + (b - a) * refill_per_second r"
    proof (cases "a \<le> now \<and> now \<le> b")
      case True
      have "real (length (filter (\<lambda>t. a \<le> t \<and> t \<le> b) (admitted rk hist @ [now])))
          \<le> real (since a (admitted rk hist @ [now]))" by (rule of_nat_mono [OF filter_le_since])
      also have "\<dots> \<le> of_int (capacity r) + (now - a) * refill_per_second r" using c(2) True by simp
      also have "\<dots> \<le> of_int (capacity r) + (b - a) * refill_per_second r"
        using True valid_rule_pos(1) [OF r(4)] by simp
      finally show ?thesis .
    next
      case False
      then show ?thesis
        using bound ab \<open>is_bucket r\<close> r(3) by (auto simp: rule_bound_def)
    qed
  qed
  then show ?thesis
    using c(1) hit True r by (simp add: store_cell_def tokens_now_cell)
next
  case False
  let ?hits = "dropWhile (\<lambda>h. h < now - rl_window_seconds r) (hits_of s rk)"
  note hit = charge_all_hit(3,4) [OF r(1) assms(7) r(2) False, of now s]
  have small: "int (length ?hits) < rl_max_requests r"
    using accept_headroom(2) [OF assms(8) False] r(2) by simp
  have "window_cell r now (admitted rk hist) ?hits (qs_expires s rk)"
    using cell False r(3) by (simp add: store_cell_def window_cell_pruned)
  note c = window_cell_charged [OF this small r(4)]
  have "rule_bound r (admitted rk hist @ [now])"
    unfolding rule_bound_def if_not_P [OF False]
  proof
    fix a :: real
    show "int (length (filter (\<lambda>t. a \<le> t \<and> t < a + rl_window_seconds r) (admitted rk hist @ [now])))
        \<le> rl_max_requests r"
    proof (cases "a \<le> now \<and> now < a + rl_window_seconds r")
      case True
      have "length (filter (\<lambda>t. a \<le> t \<and> t < a + rl_window_seconds r) (admitted rk hist @ [now]))
          \<le> since a (admitted rk hist @ [now])" by (rule filter_le_since)
      moreover have "int (since a (admitted rk hist @ [now])) \<le> rl_max_requests r"
        using True by (intro c(2)) simp
      ultimately show ?thesis by linarith
    next
      case no: False
      have "int (length (filter (\<lambda>t. a \<le> t \<and> t < a + rl_window_seconds r) (admitted rk hist)))
          \<le> rl_max_requests r"
        using bound False r(3) by (simp add: rule_bound_def)
      then show ?thesis using no by auto
    qed
  qed
  then show ?thesis
    using c(1) hit False r by (simp add: store_cell_def)
qed

lemma quota_run_inv:
  assumes "quota_run rule_of hist t1 s" and "valid_rule (rule_of rk)"
  shows "store_cell rule_of hist t1 s rk \<and> rule_bound (rule_of rk) (admitted rk hist)"
  using assms
proof (induction rule: quota_run.induct)
  case (start t1)
  have "rule_bound (rule_of rk) []"
    using valid_rule_pos [OF start] by (simp add: rule_bound_def)
  then show ?case using store_cell_start [of rule_of rk t1] start by simp
next
  case (call hist t1 s now rules key res s')
  let ?s0 = "tick now s"
  have cell0: "store_cell rule_of hist now ?s0 rk"
    using call by (intro store_cell_tick) auto
  have bound0: "rule_bound (rule_of rk) (admitted rk hist)" using call by blast
  have valid: "\<forall>r \<in> set rules. valid_rule r" and of_rule: "\<forall>r \<in> set rules. rule_of (rule_key key r) = r"
    using call.hyps by auto
  show ?case
  proof (cases "accepts key now rules ?s0")
    case False
    obtain r reset retry where "quota_consume key rules now s =
      (Inr \<lparr>qr_allowed = False, qr_limit = rl_max_requests r, qr_remaining = 0,
            qr_reset_seconds = reset, qr_retry_after = retry, qr_scope = effective_scope r\<rparr>,
       fold (prune_rule key now) rules ?s0)"
      using quota_consume_deny [OF \<open>rules \<noteq> []\<close> \<open>distinct _\<close> valid False] by metis
    then have "\<not> qr_allowed res" "s' = fold (prune_rule key now) rules ?s0"
      using \<open>quota_consume key rules now s = (Inr res, s')\<close> by auto
    then show ?thesis
      using store_cell_pruned [OF cell0 \<open>distinct _\<close> of_rule] bound0 by simp
  next
    case True
    obtain r remaining reset where "quota_consume key rules now s =
      (Inr \<lparr>qr_allowed = True, qr_limit = rl_max_requests r, qr_remaining = remaining,
            qr_reset_seconds = reset, qr_retry_after = 0, qr_scope = effective_scope r\<rparr>,
       charge_all key now rules ?s0)"
      using quota_consume_accept [OF \<open>rules \<noteq> []\<close> \<open>distinct _\<close> valid True] by metis
    then have res: "qr_allowed res" "s' = charge_all key now rules ?s0"
      using \<open>quota_consume key rules now s = (Inr res, s')\<close> by auto
    show ?thesis
    proof (cases "rk \<in> rule_key key ` set rules")
      case False
      have "store_cell rule_of hist now s' rk"
        using store_cell_cong [OF charge_all_other [OF False], of rule_of hist now now ?s0] cell0 res(2)
        by simp
      then show ?thesis using False res(1) bound0 by (simp add: store_cell_def)
    next
      case in_rules: True
      then obtain r where r: "r \<in> set rules" "rk = rule_key key r" "rule_of rk = r" "valid_rule r"
        using of_rule valid by blast
      with True have "fst (rule_view key now r ?s0)" by blast
      from store_cell_charged [OF cell0 bound0 r \<open>distinct _\<close> this] show ?thesis
        using res by simp
    qed
  qed
qed

definition per_minute :: RateLimitRule where
  "per_minute = \<lparr>rl_max_requests = 1, rl_window_seconds = 60, rl_burst = None, rl_scope = ''minute''\<rparr>"

definition bursty :: RateLimitRule where
  "bursty = \<lparr>rl_max_requests = 60, rl_window_seconds = 60, rl_burst = Some 2, rl_scope = ''burst''\<rparr>"

definition sample_rule_of :: "string \<Rightarrow> RateLimitRule" where
  "sample_rule_of rk = (if endswith rk ''minute'' then per_minute else bursty)"

lemma sample_rules:
  "valid_rule per_minute" "valid_rule bursty" "effective_scope per_minute = ''minute''"
  "effective_scope bursty = ''burst''" "\<not> is_bucket per_minute" "is_bucket bursty"
  "sample_rule_of (rule_key ''u'' per_minute) = per_minute" "sample_rule_of (rule_key ''u'' bursty) = bursty"
  by (simp_all add: valid_rule_def per_minute_def bursty_def effective_scope_def is_bucket_def
      sample_rule_of_def rule_key_def endswith_def startswith_def)

lemma sample_accepts: "accepts ''u'' 0 [per_minute, bursty] (tick 0 empty_quota_store)"
  by (simp add: rule_view_def sample_rules bucket_view_def tokens_now_def refilled_tokens_def
      window_state_def hits_of_def tick_def GC_EVERY_def empty_quota_store_def Let_def)
     (simp add: per_minute_def bursty_def capacity_def)

lemma sample_quota_run:
  "\<exists>s. quota_run sample_rule_of [(0, [rule_key ''u'' per_minute, rule_key ''u'' bursty])] 0 s \<and>
     s = charge_all ''u'' 0 [per_minute, bursty] (tick 0 empty_quota_store)"
proof -
  have d: "distinct (map effective_scope [per_minute, bursty])" by (simp add: sample_rules)
  have v: "\<forall>r \<in> set [per_minute, bursty]. valid_rule r" by (simp add: sample_rules)
  obtain r remaining reset where c: "quota_consume ''u'' [per_minute, bursty] 0 empty_quota_store =
      (Inr \<lparr>qr_allowed = True, qr_limit = rl_max_requests r, qr_remaining = remaining,
            qr_reset_seconds = reset, qr_retry_after = 0, qr_scope = effective_scope r\<rparr>,
       charge_all ''u'' 0 [per_minute, bursty] (tick 0 empty_quota_store))"
    using quota_consume_accept [OF _ d v sample_accepts] by (metis list.distinct(1))
  have "\<forall>r \<in> set [per_minute, bursty]. valid_rule r \<and> sample_rule_of (rule_key ''u'' r) = r"
    by (simp add: sample_rules)
  from quota_run.call [OF quota_run.start [of sample_rule_of 0] _ _ this d c] show ?thesis by simp
qed

text \<open>
  C4. Whatever calls a process serves, no rule is ever exceeded, sweeps of idle keys included. A
  sliding-window rule admits at most \<^verbatim>\<open>max_requests\<close> calls in any stretch of \<^verbatim>\<open>window_seconds\<close>, wherever
  it starts; a token bucket admits in any interval at most its burst plus what the interval refills.
\<close>

theorem quota_never_exceeded:
  assumes "quota_run rule_of hist t1 s" and "valid_rule (rule_of rk)"
  shows "if is_bucket (rule_of rk)
    then \<forall>a b. a \<le> b \<longrightarrow> real (length (filter (\<lambda>t. a \<le> t \<and> t \<le> b) (admitted rk hist))) \<le>
           of_int (capacity (rule_of rk)) + (b - a) * refill_per_second (rule_of rk)
    else \<forall>a. int (length (filter (\<lambda>t. a \<le> t \<and> t < a + rl_window_seconds (rule_of rk)) (admitted rk hist)))
           \<le> rl_max_requests (rule_of rk)"
  using quota_run_inv [OF assms] by (simp add: rule_bound_def)

theorem quota_never_exceeded_witness:
  "\<exists>s. quota_run sample_rule_of [(0, [rule_key ''u'' per_minute, rule_key ''u'' bursty])] 0 s \<and>
     int (length (filter (\<lambda>t. - 30 \<le> t \<and> t < - 30 + 60)
       (admitted (rule_key ''u'' per_minute) [(0, [rule_key ''u'' per_minute, rule_key ''u'' bursty])]))) \<le> 1"
proof -
  obtain s where s: "quota_run sample_rule_of [(0, [rule_key ''u'' per_minute, rule_key ''u'' bursty])] 0 s"
    using sample_quota_run by blast
  have "rl_window_seconds per_minute = 60" "rl_max_requests per_minute = 1" by (simp_all add: per_minute_def)
  with quota_never_exceeded [OF s, of "rule_key ''u'' per_minute"]
  have "\<forall>a. int (length (filter (\<lambda>t. a \<le> t \<and> t < a + 60)
      (admitted (rule_key ''u'' per_minute) [(0, [rule_key ''u'' per_minute, rule_key ''u'' bursty])]))) \<le> 1"
    by (simp add: sample_rules)
  from spec [OF this, of "- 30"] s show ?thesis by blast
qed

subsection \<open>What a refusal means\<close>

lemma dropWhile_twice:
  fixes c1 c2 :: real
  assumes "c1 \<le> c2"
  shows "dropWhile (\<lambda>h. h < c2) (dropWhile (\<lambda>h. h < c1) hs) = dropWhile (\<lambda>h. h < c2) hs"
  using assms by (induction hs) auto

lemma window_state_cong:
  assumes "dropWhile (\<lambda>h. h < now - rl_window_seconds r) hs = dropWhile (\<lambda>h. h < now - rl_window_seconds r) hs'"
  shows "window_state hs now r = window_state hs' now r"
  by (simp only: window_state_def Let_def assms)

lemma rule_view_cong:
  assumes "is_bucket r \<Longrightarrow> qs_buckets s' (rule_key key r) = qs_buckets s (rule_key key r)"
    and "\<not> is_bucket r \<Longrightarrow> qs_windows s' (rule_key key r) = qs_windows s (rule_key key r)"
  shows "rule_view key t r s' = rule_view key t r s"
proof (cases "is_bucket r")
  case True
  then have "tokens_now s' (rule_key key r) r t = tokens_now s (rule_key key r) r t"
    using assms(1) by (simp add: tokens_now_def)
  with True show ?thesis by (simp add: rule_view_def)
next
  case False
  then have "hits_of s' (rule_key key r) = hits_of s (rule_key key r)"
    using assms(2) by (simp add: hits_of_def)
  with False show ?thesis by (simp add: rule_view_def)
qed

lemma rule_view_tick:
  assumes "store_cell rule_of hist t1 s (rule_key key r)" and "rule_of (rule_key key r) = r"
    and "valid_rule r" and "now < t"
  shows "rule_view key t r (tick now s) = rule_view key t r s"
proof (cases "(qs_ops s + 1) mod GC_EVERY = 0 \<and> expired s now (rule_key key r)")
  case False
  then have "qs_windows (tick now s) (rule_key key r) = qs_windows s (rule_key key r)"
    "qs_buckets (tick now s) (rule_key key r) = qs_buckets s (rule_key key r)"
    by (auto simp: tick_def sweep_def expired_def Let_def)
  then show ?thesis by (intro rule_view_cong)
next
  case True
  then have gone: "qs_windows (tick now s) (rule_key key r) = None" "qs_buckets (tick now s) (rule_key key r) = None"
    by (auto simp: tick_def sweep_def expired_def Let_def)
  obtain e where e: "qs_expires s (rule_key key r) = Some e" "e \<le> now"
    using True by (auto simp: expired_def not_less split: option.splits)
  show ?thesis
  proof (cases "is_bucket r")
    case True
    note pos = valid_rule_pos(1) [OF assms(3)]
    obtain tokens u where b: "qs_buckets s (rule_key key r) = Some (tokens, u)" "u \<le> t1"
      "tokens \<le> of_int (capacity r)"
      "e = u + (of_int (capacity r) - tokens) / refill_per_second r"
      using assms(1,2) True e(1) by (auto simp: store_cell_def bucket_cell_def split: option.splits)
    have "0 \<le> (of_int (capacity r) - tokens) / refill_per_second r" using b(3) pos by simp
    then have "u \<le> t" using b(4) e(2) assms(4) by linarith
    have "(of_int (capacity r) - tokens) / refill_per_second r \<le> t - u"
      using b(4) e(2) assms(4) by linarith
    then have "of_int (capacity r) \<le> tokens + (t - u) * refill_per_second r"
      using pos by (simp add: pos_divide_le_eq)
    then have "tokens_now s (rule_key key r) r t = tokens_now (tick now s) (rule_key key r) r t"
      using b(1) gone(2) \<open>u \<le> t\<close> by (simp add: tokens_now_def refilled_tokens_def)
    then show ?thesis using True by (simp add: rule_view_def)
  next
    case False
    have "\<forall>h \<in> set (hits_of s (rule_key key r)). h < t - rl_window_seconds r"
      using assms(1,2,4) False e by (fastforce simp: store_cell_def window_cell_def)
    then have "window_state (hits_of s (rule_key key r)) t r = window_state [] t r"
      by (intro window_state_cong) (simp add: dropWhile_eq_Nil_conv)
    moreover have "hits_of (tick now s) (rule_key key r) = []" using gone(1) by (simp add: hits_of_def)
    ultimately show ?thesis using False by (simp add: rule_view_def)
  qed
qed

lemma rule_view_pruned:
  assumes "distinct (map effective_scope rules)" and "\<forall>r \<in> set rules. rule_of (rule_key key r) = r"
    and "rule_of (rule_key key' r') = r'" and "now \<le> t"
  shows "rule_view key' t r' (fold (prune_rule key now) rules s) = rule_view key' t r' s"
proof (cases "\<not> is_bucket r' \<and> rule_key key' r' \<in> rule_key key ` set rules")
  case False
  then show ?thesis
    using fold_prune_other [of "rule_key key' r'" key rules now s]
    by (intro rule_view_cong) auto
next
  case True
  then obtain r where r: "r \<in> set rules" "rule_key key' r' = rule_key key r" by blast
  with assms(2,3) have "r' = r" by metis
  then have "hits_of (fold (prune_rule key now) rules s) (rule_key key' r') =
      dropWhile (\<lambda>h. h < now - rl_window_seconds r') (hits_of s (rule_key key' r'))"
    using fold_prune_window [OF r(1) _ assms(1), of key now s] True r(2) by (simp add: hits_of_def)
  moreover have "dropWhile (\<lambda>h. h < t - rl_window_seconds r')
      (dropWhile (\<lambda>h. h < now - rl_window_seconds r') (hits_of s (rule_key key' r'))) =
    dropWhile (\<lambda>h. h < t - rl_window_seconds r') (hits_of s (rule_key key' r'))"
    using assms(4) by (intro dropWhile_twice) simp
  ultimately show ?thesis
    using True by (simp add: rule_view_def window_state_def)
qed

text \<open>The rule whose numbers a refusal carries, on the store it leaves.\<close>

lemma refused_recovers:
  assumes cell: "store_cell rule_of hist now s (rule_key key r)" and r: "rule_of (rule_key key r) = r" "valid_rule r"
    and view: "rule_view key now r s = (False, 0, reset, retry)" and t: "now + of_int retry < t"
  shows "fst (rule_view key t r s)"
proof (cases "is_bucket r")
  case True
  note pos = valid_rule_pos(1,2) [OF r(2)]
  have low: "tokens_now s (rule_key key r) r now < 1"
    and retry: "retry = max 1 \<lceil>(1 - tokens_now s (rule_key key r) r now) / refill_per_second r\<rceil>"
    using view True by (auto simp: rule_view_def bucket_view_def Let_def split: if_splits)
  obtain tokens u where b: "qs_buckets s (rule_key key r) = Some (tokens, u)" "u \<le> now"
    using low pos(2) cell r(1) True
    by (auto simp: tokens_now_def refilled_tokens_def store_cell_def bucket_cell_def split: option.splits)
  have f: "tokens_now s (rule_key key r) r now = tokens + (now - u) * refill_per_second r"
    using low b pos(2) by (simp add: tokens_now_def refilled_tokens_def min_def split: if_splits)
  have "(1 - tokens_now s (rule_key key r) r now) / refill_per_second r \<le> t - now"
    using retry t le_of_int_ceiling [of "(1 - tokens_now s (rule_key key r) r now) / refill_per_second r"]
    by linarith
  then have "1 - tokens_now s (rule_key key r) r now \<le> (t - now) * refill_per_second r"
    using pos(1) by (simp add: pos_divide_le_eq)
  then have "1 \<le> tokens + (t - u) * refill_per_second r" using f by (simp add: algebra_simps)
  moreover have "u \<le> t" using b(2) t rule_view_verdict(2) [OF r(2) view, simplified] by linarith
  ultimately have "1 \<le> tokens_now s (rule_key key r) r t"
    using b pos(2) by (simp add: tokens_now_def refilled_tokens_def)
  then show ?thesis using True by (simp add: rule_view_def bucket_view_def Let_def)
next
  case False
  let ?hits = "hits_of s (rule_key key r)"
  have len: "int (length ?hits) \<le> rl_max_requests r"
    using cell r(1) False by (simp add: store_cell_def window_cell_def)
  have "rl_max_requests r \<le> int (length (dropWhile (\<lambda>h. h < now - rl_window_seconds r) ?hits))"
    using view False by (auto simp: rule_view_def window_state_def Let_def split: if_splits)
  moreover have "length (dropWhile (\<lambda>h. h < now - rl_window_seconds r) ?hits) \<le> length ?hits"
    by (rule length_dropWhile_le)
  ultimately have full: "int (length (dropWhile (\<lambda>h. h < now - rl_window_seconds r) ?hits)) = rl_max_requests r"
    using len by linarith
  then obtain h hs where d: "dropWhile (\<lambda>h. h < now - rl_window_seconds r) ?hits = h # hs"
    using valid_rule_pos(4) [OF r(2)]
    by (cases "dropWhile (\<lambda>h. h < now - rl_window_seconds r) ?hits") auto
  have "retry = max 1 \<lceil>h + rl_window_seconds r - now\<rceil>"
    using view False d by (auto simp: rule_view_def window_state_def Let_def split: if_splits)
  then have "h + rl_window_seconds r - now \<le> of_int retry" "0 < retry"
    using le_of_int_ceiling [of "h + rl_window_seconds r - now"] by linarith+
  then have h: "h < t - rl_window_seconds r" and later: "now \<le> t" using t by linarith+
  have "dropWhile (\<lambda>h. h < t - rl_window_seconds r) ?hits =
      dropWhile (\<lambda>h. h < t - rl_window_seconds r) (h # hs)"
    using dropWhile_twice [of "now - rl_window_seconds r" "t - rl_window_seconds r" ?hits] later d by simp
  also have "\<dots> = dropWhile (\<lambda>h. h < t - rl_window_seconds r) hs" using h by simp
  finally have "length (dropWhile (\<lambda>h. h < t - rl_window_seconds r) ?hits) \<le> length hs"
    by (simp add: length_dropWhile_le)
  then have "int (length (dropWhile (\<lambda>h. h < t - rl_window_seconds r) ?hits)) < rl_max_requests r"
    using full d by simp
  then show ?thesis using False by (simp add: rule_view_def window_state_def Let_def)
qed

text \<open>A second call of the sample client, one second after the first.\<close>

lemma sample_denial:
  assumes "s = charge_all ''u'' 0 [per_minute, bursty] (tick 0 empty_quota_store)"
  shows "\<exists>res s'. quota_consume ''u'' [per_minute, bursty] 1 s = (Inr res, s') \<and> \<not> qr_allowed res"
proof -
  have d: "distinct (map effective_scope [per_minute, bursty])" by (simp add: sample_rules)
  have v: "\<forall>r \<in> set [per_minute, bursty]. valid_rule r" by (simp add: sample_rules)
  have "hits_of s (rule_key ''u'' per_minute) = [0]"
    using charge_all_hit(3) [OF _ d refl, of per_minute "''u''" 0 "tick 0 empty_quota_store"] assms
    by (simp add: sample_rules hits_of_def tick_def GC_EVERY_def empty_quota_store_def Let_def)
  moreover have "hits_of (tick 1 s) = hits_of s"
    using assms
    by (simp add: hits_of_def tick_def GC_EVERY_def charge_all_def empty_quota_store_def prune_rule_def
        charge_rule_def sample_rules Let_def fun_eq_iff)
  ultimately have "\<not> fst (rule_view ''u'' 1 per_minute (tick 1 s))"
    by (simp add: rule_view_def sample_rules window_state_def) (simp add: per_minute_def)
  then have "\<not> accepts ''u'' 1 [per_minute, bursty] (tick 1 s)" by simp
  then show ?thesis
    using quota_consume_deny [OF _ d v] by (metis QuotaResult.select_convs(1) list.distinct(1))
qed

text \<open>
  A refused call spends nothing. At every later instant every rule of every key gives the same
  verdict, with the same remaining budget and waiting times, as if the call had not been made: a
  caller blocked by one limit does not drain another, and the sweep a call may trigger frees nothing.
\<close>

theorem refused_call_spends_nothing:
  assumes "quota_run rule_of hist t1 s" and "t1 \<le> now" and "rules \<noteq> []"
    and "\<forall>r \<in> set rules. valid_rule r \<and> rule_of (rule_key key r) = r" and "distinct (map effective_scope rules)"
    and "quota_consume key rules now s = (Inr res, s')" and "\<not> qr_allowed res"
    and "now < t" and "valid_rule r'" and "rule_of (rule_key key' r') = r'"
  shows "rule_view key' t r' s' = rule_view key' t r' s"
proof -
  have valid: "\<forall>r \<in> set rules. valid_rule r" using assms(4) by blast
  have "\<not> accepts key now rules (tick now s)"
  proof
    assume "accepts key now rules (tick now s)"
    from quota_consume_accept [OF assms(3,5) valid this] assms(6,7) show False
      by (metis QuotaResult.select_convs(1) Pair_inject sum.inject(2))
  qed
  from quota_consume_deny [OF assms(3,5) valid this] assms(6)
  have "s' = fold (prune_rule key now) rules (tick now s)" by (metis Pair_inject)
  then have "rule_view key' t r' s' = rule_view key' t r' (tick now s)"
    using rule_view_pruned [of rules rule_of key key' r' now t "tick now s"] assms(4,5,8,10) by simp
  moreover have "store_cell rule_of hist t1 s (rule_key key' r')"
    using quota_run_inv [OF assms(1)] assms(9,10) by simp
  ultimately show ?thesis
    using rule_view_tick [of rule_of hist t1 s key' r' now t] assms(8,9,10) by simp
qed

theorem refused_call_spends_nothing_witness:
  "\<exists>s res s'. quota_consume ''u'' [per_minute, bursty] 1 s = (Inr res, s') \<and> \<not> qr_allowed res \<and>
     rule_view ''u'' 2 bursty s' = rule_view ''u'' 2 bursty s"
proof -
  obtain s where s: "quota_run sample_rule_of [(0, [rule_key ''u'' per_minute, rule_key ''u'' bursty])] 0 s"
    "s = charge_all ''u'' 0 [per_minute, bursty] (tick 0 empty_quota_store)"
    using sample_quota_run by blast
  obtain res s' where d: "quota_consume ''u'' [per_minute, bursty] 1 s = (Inr res, s')" "\<not> qr_allowed res"
    using sample_denial [OF s(2)] by blast
  have "rule_view ''u'' 2 bursty s' = rule_view ''u'' 2 bursty s"
    using refused_call_spends_nothing [OF s(1) _ _ _ _ d] by (simp add: sample_rules)
  with d show ?thesis by blast
qed

text \<open>
  The waiting time of a refusal is honest. The numbers of a refused call are those of one of its
  rules that refuses, the time is at least a second and not longer than the reset, and at any instant
  past it, the counters standing as they are, that very rule lets the call through.
\<close>

theorem retry_after_is_enough:
  assumes "quota_run rule_of hist t1 s" and "t1 \<le> now" and "rules \<noteq> []"
    and "\<forall>r \<in> set rules. valid_rule r \<and> rule_of (rule_key key r) = r" and "distinct (map effective_scope rules)"
    and "quota_consume key rules now s = (Inr res, s')" and "\<not> qr_allowed res"
  shows "\<exists>r \<in> set rules. qr_scope res = effective_scope r \<and> qr_limit res = rl_max_requests r \<and>
    qr_remaining res = 0 \<and> 1 \<le> qr_retry_after res \<and> qr_retry_after res \<le> qr_reset_seconds res \<and>
    \<not> fst (rule_view key now r (tick now s)) \<and>
    (\<forall>t > now + of_int (qr_retry_after res). fst (rule_view key t r s'))"
proof -
  have valid: "\<forall>r \<in> set rules. valid_rule r" using assms(4) by blast
  have no: "\<not> accepts key now rules (tick now s)"
  proof
    assume "accepts key now rules (tick now s)"
    from quota_consume_accept [OF assms(3,5) valid this] assms(6,7) show False
      by (metis QuotaResult.select_convs(1) Pair_inject sum.inject(2))
  qed
  obtain r reset retry where r: "r \<in> set rules" "1 \<le> retry"
    and view: "rule_view key now r (tick now s) = (False, 0, reset, retry)"
    and "quota_consume key rules now s =
      (Inr \<lparr>qr_allowed = False, qr_limit = rl_max_requests r, qr_remaining = 0,
            qr_reset_seconds = reset, qr_retry_after = retry, qr_scope = effective_scope r\<rparr>,
       fold (prune_rule key now) rules (tick now s))"
    by (rule quota_consume_deny [OF assms(3,5) valid no])
  then have res: "res = \<lparr>qr_allowed = False, qr_limit = rl_max_requests r, qr_remaining = 0,
            qr_reset_seconds = reset, qr_retry_after = retry, qr_scope = effective_scope r\<rparr>"
    "s' = fold (prune_rule key now) rules (tick now s)" using assms(6) by simp_all
  have of_r: "rule_of (rule_key key r) = r" "valid_rule r" using assms(4) r(1) by blast+
  have cell: "store_cell rule_of hist now (tick now s) (rule_key key r)"
    using quota_run_inv [OF assms(1), of "rule_key key r"] of_r assms(2) by (intro store_cell_tick) auto
  have "fst (rule_view key t r s')" if t: "t > now + of_int retry" for t
  proof -
    have "now \<le> t" using t r(2) by linarith
    then have "rule_view key t r s' = rule_view key t r (tick now s)"
      using rule_view_pruned [of rules rule_of key key r now t "tick now s"] assms(4,5) of_r(1) res(2) by simp
    then show ?thesis using refused_recovers [OF cell of_r view t] by simp
  qed
  moreover have "retry \<le> reset" using rule_view_verdict(2) [OF of_r(2) view] by simp
  ultimately show ?thesis using r view res(1) by (intro bexI [OF _ r(1)]) simp
qed

theorem retry_after_is_enough_witness:
  "\<exists>s res s'. quota_consume ''u'' [per_minute, bursty] 1 s = (Inr res, s') \<and> \<not> qr_allowed res \<and>
     (\<exists>r \<in> set [per_minute, bursty]. \<forall>t > 1 + of_int (qr_retry_after res). fst (rule_view ''u'' t r s'))"
proof -
  obtain s where s: "quota_run sample_rule_of [(0, [rule_key ''u'' per_minute, rule_key ''u'' bursty])] 0 s"
    "s = charge_all ''u'' 0 [per_minute, bursty] (tick 0 empty_quota_store)"
    using sample_quota_run by blast
  obtain res s' where d: "quota_consume ''u'' [per_minute, bursty] 1 s = (Inr res, s')" "\<not> qr_allowed res"
    using sample_denial [OF s(2)] by blast
  have "\<exists>r \<in> set [per_minute, bursty]. \<forall>t > 1 + of_int (qr_retry_after res). fst (rule_view ''u'' t r s')"
    using retry_after_is_enough [OF s(1) _ _ _ _ d] by (fastforce simp: sample_rules)
  with d show ?thesis by blast
qed

subsection \<open>Every call is decided\<close>

lemma inspect_rules_shape:
  assumes "\<forall>r \<in> set rules. valid_rule r" and "inspect_rules key now rules s = (allowed, cs, pending, s')"
  shows "map fst cs = rules \<and> (\<not> allowed \<longrightarrow> (\<exists>(r, m, e, w) \<in> set cs. 0 < w)) \<and>
    (\<forall>(r, m, e, w) \<in> set cs. 0 < w \<longrightarrow> w \<le> e \<and> m = 0) \<and>
    (allowed \<longrightarrow> (\<forall>(r, m, e, w) \<in> set cs. 0 \<le> m))"
  using assms
proof (induction rules arbitrary: s allowed cs pending s')
  case Nil
  then show ?case by simp
next
  case (Cons r rules)
  obtain ok m e w where v: "rule_view key now r s = (ok, m, e, w)" by (cases "rule_view key now r s")
  obtain allowed1 cs1 pending1 s1 where rest:
    "inspect_rules key now rules (prune_rule key now r s) = (allowed1, cs1, pending1, s1)"
    by (cases "inspect_rules key now rules (prune_rule key now r s)")
  have "allowed = (ok \<and> allowed1)" "cs = (r, m, e, w) # cs1"
    using Cons.prems(2) v rest by (simp_all add: inspect_rule_view)
  moreover have "(ok \<longrightarrow> 0 \<le> m \<and> w = 0) \<and> (\<not> ok \<longrightarrow> m = 0 \<and> 1 \<le> w \<and> w \<le> e)"
    using rule_view_verdict [OF _ v] Cons.prems(1) by simp
  moreover note Cons.IH [OF _ rest]
  ultimately show ?case using Cons.prems(1) by (cases ok; cases allowed1) auto
qed

lemma quota_decision_shape:
  assumes "rules \<noteq> []" and "\<forall>r \<in> set rules. valid_rule r"
  shows "\<exists>res s'. quota_consume key rules now s = (Inr res, s') \<and>
    (qr_allowed res \<longrightarrow> qr_retry_after res = 0 \<and> 0 \<le> qr_remaining res) \<and>
    (\<not> qr_allowed res \<longrightarrow> 1 \<le> qr_retry_after res \<and> qr_retry_after res \<le> qr_reset_seconds res \<and> qr_remaining res = 0) \<and>
    (\<exists>r \<in> set rules. qr_limit res = rl_max_requests r \<and> qr_scope res = effective_scope r)"
proof -
  obtain allowed cs pending s1 where ins: "inspect_rules key now rules (tick now s) = (allowed, cs, pending, s1)"
    by (cases "inspect_rules key now rules (tick now s)")
  note shape = inspect_rules_shape [OF assms(2) ins]
  show ?thesis
  proof (cases allowed)
    case True
    have "cs \<noteq> []" using shape assms(1) by auto
    then obtain c where c: "pick_binding cs = Some c" "c \<in> set cs" by (rule pick_binding_in)
    obtain r m e w where c': "c = (r, m, e, w)" by (cases c)
    then have "r \<in> set rules" "0 \<le> m" using shape c(2) True by force+
    then show ?thesis using True assms(1) ins c(1) c' by (simp add: quota_consume_def) blast
  next
    case False
    then obtain r0 m0 e0 w0 where "(r0, m0, e0, w0) \<in> set cs" "0 < w0" using shape by auto
    then obtain r m e w where d: "pick_denied cs = Some (r, m, e, w)" "(r, m, e, w) \<in> set cs" "0 < w"
      by (rule pick_denied_in)
    then have "r \<in> set rules" "w \<le> e" using shape by force+
    then show ?thesis using False assms(1) ins d by (auto simp: quota_consume_def)
  qed
qed

text \<open>
  C25. Every call with at least one rule is decided: the store never raises, an admitted call carries no
  waiting time and a nonnegative remainder, a refused one waits at least a second, and the numbers
  are always those of one of the call's own rules.
\<close>

theorem quota_decision_total:
  assumes "rules \<noteq> []" and "\<forall>r \<in> set rules. valid_rule r"
  shows "\<exists>res s'. quota_consume key rules now s = (Inr res, s') \<and>
    (qr_allowed res \<longrightarrow> qr_retry_after res = 0 \<and> 0 \<le> qr_remaining res) \<and>
    (\<not> qr_allowed res \<longrightarrow> 1 \<le> qr_retry_after res \<and> qr_retry_after res \<le> qr_reset_seconds res \<and> qr_remaining res = 0) \<and>
    (\<exists>r \<in> set rules. qr_limit res = rl_max_requests r \<and> qr_scope res = effective_scope r)"
  using assms by (rule quota_decision_shape)

theorem quota_decision_total_witness:
  "\<exists>res s'. quota_consume ''u'' [per_minute, bursty] 0 empty_quota_store = (Inr res, s') \<and>
     (\<exists>r \<in> {per_minute, bursty}. qr_limit res = rl_max_requests r)"
  using quota_decision_total [of "[per_minute, bursty]" "''u''" 0 empty_quota_store]
  by (fastforce simp: sample_rules)

subsection \<open>Policies\<close>

lemma check_plans_None: "check_plans plans = None \<longleftrightarrow> (\<forall>(name, rules) \<in> set plans. rules \<noteq> [])"
  by (induction plans) (auto split: if_splits)

definition sample_plans :: "(string \<times> RateLimitRule list) list" where
  "sample_plans = [(''free'', [per_minute]), (''pro'', [bursty])]"

lemma sample_plan_policy:
  "plan_policy_init sample_plans (plan_by_header ''x-plan'') ''free'' =
     Inr \<lparr>pp_plans = map_of sample_plans, pp_resolve = plan_by_header ''x-plan'', pp_default_plan = ''free''\<rparr>"
  by (simp add: plan_policy_init_def sample_plans_def)

text \<open>
  A plan policy that could be built never serves a request without limits: whatever name the
  resolver gives, known, unknown or none, the request is charged against the nonempty rules of a plan
  the policy was built with, the named one if it exists and otherwise the default, so the store
  cannot refuse it for want of rules.
\<close>

theorem plan_policy_always_limits:
  assumes "plan_policy_init plans resolve dflt = Inr p"
    and "\<forall>(name, rules) \<in> set plans. \<forall>r \<in> set rules. valid_rule r"
  shows "plan_rules_for p req \<noteq> [] \<and> (plan_for p req, plan_rules_for p req) \<in> set plans \<and>
    (plan_for p req = dflt \<or> resolve req = Some (plan_for p req)) \<and>
    (\<exists>res s'. quota_consume key (plan_rules_for p req) now s = (Inr res, s'))"
proof -
  have p: "p = \<lparr>pp_plans = map_of plans, pp_resolve = resolve, pp_default_plan = dflt\<rparr>"
    and d: "map_of plans dflt \<noteq> None" and full: "check_plans plans = None"
    using assms(1) by (auto simp: plan_policy_init_def split: if_splits option.splits)
  have name: "plan_for p req = dflt \<or> resolve req = Some (plan_for p req)"
    by (auto simp: plan_for_def p split: option.splits)
  have known: "map_of plans (plan_for p req) = Some (plan_rules_for p req)"
    using d by (auto simp: plan_rules_for_def plan_for_def p split: option.splits)
  then have mem: "(plan_for p req, plan_rules_for p req) \<in> set plans" by (rule map_of_SomeD)
  then have ne: "plan_rules_for p req \<noteq> []" using full check_plans_None by fastforce
  have "\<forall>r \<in> set (plan_rules_for p req). valid_rule r" using mem assms(2) by fastforce
  from quota_decision_shape [OF ne this] name mem ne show ?thesis by blast
qed

theorem plan_policy_always_limits_witness:
  "plan_rules_for \<lparr>pp_plans = map_of sample_plans, pp_resolve = plan_by_header ''x-plan'',
     pp_default_plan = ''free''\<rparr> sample_req \<noteq> []"
proof -
  have "\<forall>(name, rules) \<in> set sample_plans. \<forall>r \<in> set rules. valid_rule r"
    by (simp add: sample_plans_def sample_rules)
  from plan_policy_always_limits [OF sample_plan_policy this] show ?thesis by blast
qed

subsection \<open>Scopes derived from the numbers\<close>

lemma fmt_g_cong:
  assumes "\<lfloor>log 10 x\<rfloor> = \<lfloor>log 10 y\<rfloor>"
    and "round_half_even (x * 10 powi (5 - \<lfloor>log 10 x\<rfloor>)) = round_half_even (y * 10 powi (5 - \<lfloor>log 10 y\<rfloor>))"
  shows "fmt_g x = fmt_g y"
  using assms by (simp add: fmt_g_def)

lemma log10_floor6:
  assumes "1000000 \<le> x" and "x < 10000000"
  shows "\<lfloor>log 10 x\<rfloor> = 6"
proof -
  have "log 10 x \<ge> 6" using assms by (subst le_log_iff) simp_all
  moreover have "log 10 x < 7" using assms by (subst log_less_iff) simp_all
  ultimately show ?thesis by (simp add: floor_eq_iff)
qed

text \<open>
  The scope a rule derives from its own numbers does not tell all rules apart: it prints the window
  with six significant digits, so a limit per 30 days and the same limit per 30 days and one second
  share their counters, and one admitted call is counted twice in them.
\<close>

theorem derived_scopes_collide:
  assumes "r = \<lparr>rl_max_requests = n, rl_window_seconds = 2592000, rl_burst = b, rl_scope = []\<rparr>"
    and "r' = \<lparr>rl_max_requests = n, rl_window_seconds = 2592001, rl_burst = b, rl_scope = []\<rparr>"
  shows "r \<noteq> r' \<and> rule_key key r = rule_key key r'"
proof -
  have "fmt_g 2592000 = fmt_g 2592001"
    using log10_floor6 [of 2592000] log10_floor6 [of 2592001]
    by (intro fmt_g_cong) (simp_all add: round_half_even_def Let_def power_int_def)
  then show ?thesis using assms by (simp add: rule_key_def effective_scope_def)
qed

theorem derived_scopes_collide_witness:
  "rule_key ''u'' \<lparr>rl_max_requests = 5, rl_window_seconds = 2592000, rl_burst = None, rl_scope = []\<rparr> =
   rule_key ''u'' \<lparr>rl_max_requests = 5, rl_window_seconds = 2592001, rl_burst = None, rl_scope = []\<rparr>"
  using derived_scopes_collide [OF refl refl, of 5 None "''u''"] by simp

end
