(* ===== verification/Rate_Limit.thy ===== *)
theory Rate_Limit
  imports Quota
begin

text \<open>
  \<^verbatim>\<open>api/middlewares/rate_limit.py\<close>: the counter stores (in process, on Redis, failing open), the
  key functions and the middleware. The interface of a counter store is the locale \<open>rate_store\<close>, that
  of a quota store the locale \<open>quota_port\<close>; what the middleware promises is proved once inside a
  locale that extends both, and interpreted on the in-process stores.
\<close>

subsection \<open>Stores\<close>

record RateLimitResult =
  rr_allowed :: bool
  rr_remaining :: int
  rr_retry_after :: int

text \<open>The in-process store: the logs per key, oldest first, and the monotonic clock it reads.\<close>

record memory_rate =
  mr_now :: real
  mr_buckets :: "string \<Rightarrow> real list option"

text \<open>
  Reading the oldest entry of an empty log is an \<^verbatim>\<open>IndexError\<close> (\<open>EmptyDeque\<close>), which a positive limit
  excludes.
\<close>

definition memory_hit ::
  "string \<Rightarrow> int \<Rightarrow> real \<Rightarrow> (memory_rate, quota_error, RateLimitResult) action" where
  "memory_hit key max_requests window_seconds s =
     (let now = mr_now s;
          bucket = (case mr_buckets s key of Some b \<Rightarrow> b | None \<Rightarrow> []);
          cutoff = now - window_seconds;
          kept = dropWhile (\<lambda>h. h < cutoff) bucket;
          store = (\<lambda>b. s\<lparr>mr_buckets := (mr_buckets s)(key \<mapsto> b)\<rparr>)
      in if int (length kept) \<ge> max_requests
         then (case kept of
             [] \<Rightarrow> (Inl EmptyDeque, store kept)
           | oldest # _ \<Rightarrow>
               (Inr \<lparr>rr_allowed = False, rr_remaining = 0,
                     rr_retry_after = max 1 \<lceil>oldest + window_seconds - now\<rceil>\<rparr>, store kept))
         else (Inr \<lparr>rr_allowed = True, rr_remaining = max_requests - int (length (kept @ [now])),
                    rr_retry_after = 0\<rparr>, store (kept @ [now])))"

type_synonym ('s, 'e) rate_hit = "string \<Rightarrow> int \<Rightarrow> real \<Rightarrow> ('s, 'e, RateLimitResult) action"

definition fail_open_hit :: "('s, 'e) rate_hit \<Rightarrow> ('s, 'e) rate_hit" where
  "fail_open_hit inner key max_requests window_seconds s =
     (case inner key max_requests window_seconds s of
        (Inr r, s1) \<Rightarrow> (Inr r, s1)
      | (Inl _, s1) \<Rightarrow> (Inr \<lparr>rr_allowed = True, rr_remaining = max_requests, rr_retry_after = 0\<rparr>, s1))"

text \<open>
  The Redis store: \<open>eval\<close> runs the script on the key, the window in milliseconds, the limit and a
  fresh member, and gives the reply \<open>{allowed, remaining, retry_after_ms}\<close> or the error of the
  client. \<^verbatim>\<open>int\<close> truncates towards zero.
\<close>

type_synonym ('s, 'e) redis_eval = "string \<Rightarrow> int \<Rightarrow> int \<Rightarrow> string \<Rightarrow> ('s, 'e, int \<times> int \<times> int) action"

record redis_rate_store =
  rrs_namespace :: string
  rrs_fail_open :: bool

definition py_int_of_float :: "real \<Rightarrow> int" where
  "py_int_of_float x = (if x < 0 then \<lceil>x\<rceil> else \<lfloor>x\<rfloor>)"

definition redis_rate_key :: "redis_rate_store \<Rightarrow> string \<Rightarrow> string" where
  "redis_rate_key store key = rrs_namespace store @ '':'' @ key"

definition redis_hit ::
  "('s, 'e) redis_eval \<Rightarrow> string \<Rightarrow> redis_rate_store \<Rightarrow> ('s, 'e) rate_hit" where
  "redis_hit eval member store key max_requests window_seconds s =
     (case eval (redis_rate_key store key) (py_int_of_float (window_seconds * 1000)) max_requests member s of
        (Inl e, s1) \<Rightarrow>
          if rrs_fail_open store
          then (Inr \<lparr>rr_allowed = True, rr_remaining = max_requests - 1, rr_retry_after = 0\<rparr>, s1)
          else (Inl e, s1)
      | (Inr (raw0, raw1, raw2), s1) \<Rightarrow>
          let allowed = (raw0 \<noteq> 0)
          in (Inr \<lparr>rr_allowed = allowed, rr_remaining = raw1,
                   rr_retry_after = (if allowed then 0 else max 1 \<lceil>(of_int raw2 :: real) / 1000\<rceil>)\<rparr>, s1))"

subsection \<open>Headers and keys\<close>

definition rate_limit_headers ::
  "int \<Rightarrow> int \<Rightarrow> int option \<Rightarrow> int option \<Rightarrow> bool \<Rightarrow> bool \<Rightarrow> (string \<times> string) list" where
  "rate_limit_headers limit remaining reset retry_after limit_headers retry_after_header =
     (if limit_headers
      then [(''RateLimit-Limit'', int_str limit), (''RateLimit-Remaining'', int_str remaining)] @
           (case reset of Some n \<Rightarrow> [(''RateLimit-Reset'', int_str n)] | None \<Rightarrow> [])
      else []) @
     (if retry_after_header
      then (case retry_after of Some n \<Rightarrow> [(''Retry-After'', int_str n)] | None \<Rightarrow> [])
      else [])"

type_synonym ip_parser = "string \<Rightarrow> string option"

definition key_by_ip :: "ip_parser \<Rightarrow> string option \<Rightarrow> request \<Rightarrow> string" where
  "key_by_ip parse trusted_header req = ''ip:'' @ get_client_ip parse req trusted_header"

definition key_by_header ::
  "ip_parser \<Rightarrow> string \<Rightarrow> (string \<Rightarrow> bool) \<Rightarrow> string \<Rightarrow> bool \<Rightarrow> string option \<Rightarrow> request \<Rightarrow> string" where
  "key_by_header parse header_name is_known scope fallback_to_ip trusted_ip_header req =
     (let value = strip (case header_get (req_headers req) header_name of Some v \<Rightarrow> v | None \<Rightarrow> [])
      in if value \<noteq> [] \<and> is_known value then scope @ '':'' @ value
         else if fallback_to_ip then ''ip:'' @ get_client_ip parse req trusted_ip_header
         else scope @ '':anonymous'')"

definition key_by_jwt_claim ::
  "ip_parser \<Rightarrow> jwt_decoder \<Rightarrow> string \<Rightarrow> string option \<Rightarrow> bool \<Rightarrow> string option \<Rightarrow> request \<Rightarrow> string" where
  "key_by_jwt_claim parse decode claim scope fallback_to_ip trusted_ip_header req =
     (let label = (if truthy scope then the scope else claim);
          token = bearer_token req;
          value = (if truthy token
                   then (case decode (the token) of Some claims \<Rightarrow> claim_text claims claim | None \<Rightarrow> None)
                   else None)
      in case value of
          Some v \<Rightarrow> label @ '':'' @ v
        | None \<Rightarrow> if fallback_to_ip then ''ip:'' @ get_client_ip parse req trusted_ip_header
                  else label @ '':anonymous'')"

definition key_by_jwt_subject ::
  "ip_parser \<Rightarrow> jwt_decoder \<Rightarrow> bool \<Rightarrow> string option \<Rightarrow> request \<Rightarrow> string" where
  "key_by_jwt_subject parse decode fallback_to_ip trusted_ip_header =
     key_by_jwt_claim parse decode ''sub'' (Some ''user'') fallback_to_ip trusted_ip_header"

subsection \<open>The middleware\<close>

datatype body = HandlerBody string | TooManyBody string string int int

record response =
  res_status :: int
  res_headers :: "(string \<times> string) list"
  res_body :: body

text \<open>
  Setting one response header: the first occurrence of the name, in any case, takes the value, the
  others go; a new name is appended.
\<close>

fun header_set :: "string \<Rightarrow> string \<Rightarrow> (string \<times> string) list \<Rightarrow> (string \<times> string) list" where
  "header_set k v [] = [(k, v)]"
| "header_set k v ((k', v') # hs) =
     (if lower k' = lower k then (k', v) # filter (\<lambda>(n, _). lower n \<noteq> lower k) hs
      else (k', v') # header_set k v hs)"

definition headers_update :: "(string \<times> string) list \<Rightarrow> response \<Rightarrow> response" where
  "headers_update hs res = res\<lparr>res_headers := fold (\<lambda>(k, v). header_set k v) hs (res_headers res)\<rparr>"

text \<open>The policy of the middleware, as the function that gives the rules of a request.\<close>

type_synonym policy = "request \<Rightarrow> RateLimitRule list"

record RateLimitMiddleware =
  rm_max_requests :: int
  rm_window_seconds :: real
  rm_key_func :: "request \<Rightarrow> string"
  rm_policy :: "policy option"
  rm_exempt :: PathExemption
  rm_retry_after_header :: bool
  rm_limit_headers :: bool
  rm_error_message :: string
  rm_error_code :: string

datatype middleware_error = BadMaxRequests | BadWindow | PolicyAndStore

definition rate_middleware_init ::
  "ip_parser \<Rightarrow> int \<Rightarrow> real \<Rightarrow> (request \<Rightarrow> string) option \<Rightarrow> string option \<Rightarrow> bool \<Rightarrow> policy option \<Rightarrow>
   PathExemption \<Rightarrow> bool \<Rightarrow> bool \<Rightarrow> string \<Rightarrow> string \<Rightarrow> middleware_error + RateLimitMiddleware" where
  "rate_middleware_init parse max_requests window_seconds key_func trusted_ip_header store_given policy
      exempt retry_after_header limit_headers error_message error_code =
     (if max_requests < 1 then Inl BadMaxRequests
      else if window_seconds \<le> 0 then Inl BadWindow
      else if policy \<noteq> None \<and> store_given then Inl PolicyAndStore
      else Inr \<lparr>rm_max_requests = max_requests, rm_window_seconds = window_seconds,
        rm_key_func = (case key_func of
            Some f \<Rightarrow> f | None \<Rightarrow> (\<lambda>req. get_client_ip parse req trusted_ip_header)),
        rm_policy = policy, rm_exempt = exempt, rm_retry_after_header = retry_after_header,
        rm_limit_headers = limit_headers, rm_error_message = error_message, rm_error_code = error_code\<rparr>)"

text \<open>The state a dispatch runs on: both stores, and what the handlers behind it act on.\<close>

record ('s, 'q, 'w) limiter_state =
  ls_store :: 's
  ls_quota :: 'q
  ls_app :: 'w

type_synonym 'w handler = "request \<Rightarrow> 'w \<Rightarrow> response \<times> 'w"

definition rate_dispatch ::
  "('s, 'e) rate_hit \<Rightarrow> (string \<Rightarrow> RateLimitRule list \<Rightarrow> ('q, 'e, QuotaResult) action) \<Rightarrow>
   RateLimitMiddleware \<Rightarrow> 'w handler \<Rightarrow> request \<Rightarrow> (('s, 'q, 'w) limiter_state, 'e, response) action" where
  "rate_dispatch hit consume m call_next req st =
     (if exemption_matches (rm_exempt m) (req_path req)
      then (case call_next req (ls_app st) of (res, w) \<Rightarrow> (Inr res, st\<lparr>ls_app := w\<rparr>))
      else
        let key = rm_key_func m req;
            (decision, st1) = (case rm_policy m of
                Some rules_for \<Rightarrow>
                  (case consume key (rules_for req) (ls_quota st) of
                     (Inl e, q) \<Rightarrow> (Inl e, st\<lparr>ls_quota := q\<rparr>)
                   | (Inr quota, q) \<Rightarrow>
                       (Inr (qr_allowed quota, qr_retry_after quota, qr_limit quota, qr_remaining quota,
                             Some (qr_reset_seconds quota)), st\<lparr>ls_quota := q\<rparr>))
              | None \<Rightarrow>
                  (case hit key (rm_max_requests m) (rm_window_seconds m) (ls_store st) of
                     (Inl e, s) \<Rightarrow> (Inl e, st\<lparr>ls_store := s\<rparr>)
                   | (Inr r, s) \<Rightarrow>
                       (Inr (rr_allowed r, rr_retry_after r, rm_max_requests m, rr_remaining r,
                             if rr_allowed r then None else Some (rr_retry_after r)), st\<lparr>ls_store := s\<rparr>)))
        in case decision of
            Inl e \<Rightarrow> (Inl e, st1)
          | Inr (allowed, retry_after, limit, remaining, reset) \<Rightarrow>
              let headers = rate_limit_headers limit remaining reset (if allowed then None else Some retry_after)
                              (rm_limit_headers m) (rm_retry_after_header m)
              in if \<not> allowed
                 then (Inr \<lparr>res_status = 429, res_headers = headers,
                            res_body = TooManyBody (rm_error_message m) (rm_error_code m) retry_after limit\<rparr>, st1)
                 else case call_next req (ls_app st1) of
                     (res, w) \<Rightarrow> (Inr (headers_update headers res), st1\<lparr>ls_app := w\<rparr>))"

subsection \<open>What the middleware relies on\<close>

lemma headers_retry:
  "map_of (rate_limit_headers limit remaining reset None lh rh) ''Retry-After'' = None"
  "rh \<Longrightarrow> map_of (rate_limit_headers limit remaining reset (Some n) lh rh) ''Retry-After'' = Some (int_str n)"
  by (cases lh; cases rh; cases reset; simp add: rate_limit_headers_def)+

locale rate_store =
  fixes hit :: "('s, 'e) rate_hit"
  assumes hit_denied: "1 \<le> n \<Longrightarrow> hit key n w s = (Inr r, s') \<Longrightarrow> \<not> rr_allowed r \<Longrightarrow> 1 \<le> rr_retry_after r"
    and hit_allowed: "hit key n w s = (Inr r, s') \<Longrightarrow> rr_allowed r \<Longrightarrow> rr_retry_after r = 0"
begin

text \<open>Failing open keeps the contract, and turns every failure into an admission.\<close>

lemma fail_open_is_store: "rate_store (fail_open_hit hit)"
proof unfold_locales
  fix n key w s r s'
  assume "1 \<le> (n :: int)" "fail_open_hit hit key n w s = (Inr r, s')" "\<not> rr_allowed r"
  then show "1 \<le> rr_retry_after r"
    by (auto simp: fail_open_hit_def split: prod.splits sum.splits dest: hit_denied)
next
  fix key n w s r s'
  assume "fail_open_hit hit key n w s = (Inr r, s')" "rr_allowed r"
  then show "rr_retry_after r = 0"
    by (auto simp: fail_open_hit_def split: prod.splits sum.splits dest: hit_allowed)
qed

lemma fail_open_total: "\<exists>r s'. fail_open_hit hit key n w s = (Inr r, s')"
  by (cases "hit key n w s"; cases "fst (hit key n w s)") (auto simp: fail_open_hit_def)

end

locale quota_port =
  fixes consume :: "string \<Rightarrow> RateLimitRule list \<Rightarrow> ('q, 'e, QuotaResult) action"
  assumes consume_denied: "\<forall>r \<in> set rules. valid_rule r \<Longrightarrow> consume key rules q = (Inr res, q') \<Longrightarrow>
      \<not> qr_allowed res \<Longrightarrow> 1 \<le> qr_retry_after res"
    and consume_allowed: "\<forall>r \<in> set rules. valid_rule r \<Longrightarrow> consume key rules q = (Inr res, q') \<Longrightarrow>
      qr_allowed res \<Longrightarrow> qr_retry_after res = 0"

locale limiter = rate_store hit + quota_port consume
  for hit :: "('s, 'e) rate_hit" and consume :: "string \<Rightarrow> RateLimitRule list \<Rightarrow> ('q, 'e, QuotaResult) action"
begin

text \<open>
  A dispatch that answers either ran the handler exactly once, or refused without touching what is
  behind it, with a waiting time of at least a second in the body and in the header.
\<close>

lemma dispatch_answers:
  assumes "rate_dispatch hit consume m call_next req st = (Inr res, st')"
    and "1 \<le> rm_max_requests m"
    and "\<forall>rules_for. rm_policy m = Some rules_for \<longrightarrow> (\<forall>r \<in> set (rules_for req). valid_rule r)"
    and "\<not> exemption_matches (rm_exempt m) (req_path req)"
  shows "(\<exists>res0 hs. call_next req (ls_app st) = (res0, ls_app st') \<and> res = headers_update hs res0 \<and>
      map_of hs ''Retry-After'' = None) \<or>
    (\<exists>retry limit. res_status res = 429 \<and> ls_app st' = ls_app st \<and> 1 \<le> retry \<and>
      res_body res = TooManyBody (rm_error_message m) (rm_error_code m) retry limit \<and>
      (rm_retry_after_header m \<longrightarrow> map_of (res_headers res) ''Retry-After'' = Some (int_str retry)))"
proof -
  have answer: ?thesis
    if "res = (if allowed then headers_update (hs None) res0
               else \<lparr>res_status = 429, res_headers = hs (Some retry),
                      res_body = TooManyBody (rm_error_message m) (rm_error_code m) retry limit\<rparr>)"
      and "ls_app st' = (if allowed then w else ls_app st)"
      and "call_next req (ls_app st) = (res0, w)" and "\<not> allowed \<Longrightarrow> 1 \<le> retry"
      and "hs = (\<lambda>after. rate_limit_headers limit remaining reset after (rm_limit_headers m) (rm_retry_after_header m))"
    for allowed hs res0 retry limit w remaining reset
  proof (cases allowed)
    case True
    then show ?thesis
      using that(1,2,3) headers_retry(1) by (intro disjI1 exI [of _ res0] exI [of _ "hs None"]) (simp add: that(5))
  next
    case False
    then show ?thesis
      using that(1,2,4) headers_retry(2)
      by (intro disjI2 exI [of _ retry] exI [of _ limit]) (simp add: that(5))
  qed
  obtain res0 w where c: "call_next req (ls_app st) = (res0, w)" by (cases "call_next req (ls_app st)")
  show ?thesis
  proof (cases "rm_policy m")
    case None
    obtain out s where h: "hit (rm_key_func m req) (rm_max_requests m) (rm_window_seconds m) (ls_store st) = (out, s)"
      by (cases "hit (rm_key_func m req) (rm_max_requests m) (rm_window_seconds m) (ls_store st)")
    obtain r where out: "out = Inr r"
      using assms(1,4) None h by (cases out) (simp_all add: rate_dispatch_def Let_def)
    have waits: "\<not> rr_allowed r \<Longrightarrow> 1 \<le> rr_retry_after r" using hit_denied [OF assms(2)] h out by blast
    let ?hs = "\<lambda>after. rate_limit_headers (rm_max_requests m) (rr_remaining r)
      (if rr_allowed r then None else Some (rr_retry_after r)) after (rm_limit_headers m) (rm_retry_after_header m)"
    have "res = (if rr_allowed r then headers_update (?hs None) res0
        else \<lparr>res_status = 429, res_headers = ?hs (Some (rr_retry_after r)),
               res_body = TooManyBody (rm_error_message m) (rm_error_code m) (rr_retry_after r) (rm_max_requests m)\<rparr>)"
      "ls_app st' = (if rr_allowed r then w else ls_app st)"
      using assms(1,4) None h out c by (cases "rr_allowed r"; simp add: rate_dispatch_def Let_def; force)+
    from answer [OF this c waits refl] show ?thesis .
  next
    case (Some rules_for)
    obtain out q where h: "consume (rm_key_func m req) (rules_for req) (ls_quota st) = (out, q)"
      by (cases "consume (rm_key_func m req) (rules_for req) (ls_quota st)")
    obtain r where out: "out = Inr r"
      using assms(1,4) Some h by (cases out) (simp_all add: rate_dispatch_def Let_def)
    have valid: "\<forall>r \<in> set (rules_for req). valid_rule r" using assms(3) Some by blast
    have waits: "\<not> qr_allowed r \<Longrightarrow> 1 \<le> qr_retry_after r" using consume_denied [OF valid] h out by blast
    let ?hs = "\<lambda>after. rate_limit_headers (qr_limit r) (qr_remaining r) (Some (qr_reset_seconds r)) after
      (rm_limit_headers m) (rm_retry_after_header m)"
    have "res = (if qr_allowed r then headers_update (?hs None) res0
        else \<lparr>res_status = 429, res_headers = ?hs (Some (qr_retry_after r)),
               res_body = TooManyBody (rm_error_message m) (rm_error_code m) (qr_retry_after r) (qr_limit r)\<rparr>)"
      "ls_app st' = (if qr_allowed r then w else ls_app st)"
      using assms(1,4) Some h out c by (cases "qr_allowed r"; simp add: rate_dispatch_def Let_def; force)+
    from answer [OF this c waits refl] show ?thesis .
  qed
qed

end

interpretation mem_rate: rate_store memory_hit
proof unfold_locales
  fix n key w s r s'
  assume "1 \<le> (n :: int)" "memory_hit key n w s = (Inr r, s')" "\<not> rr_allowed r"
  then show "1 \<le> rr_retry_after r"
    by (auto simp: memory_hit_def Let_def split: if_splits list.splits)
next
  fix key n w s r s'
  assume "memory_hit key n w s = (Inr r, s')" "rr_allowed r"
  then show "rr_retry_after r = 0"
    by (auto simp: memory_hit_def Let_def split: if_splits list.splits)
qed

interpretation redis_rate: rate_store "redis_hit eval member store" for eval member store
proof unfold_locales
  fix n key w s r s'
  assume "1 \<le> (n :: int)" "redis_hit eval member store key n w s = (Inr r, s')" "\<not> rr_allowed r"
  then show "1 \<le> rr_retry_after r"
    by (auto simp: redis_hit_def Let_def split: prod.splits sum.splits if_splits)
next
  fix key n w s r s'
  assume "redis_hit eval member store key n w s = (Inr r, s')" "rr_allowed r"
  then show "rr_retry_after r = 0"
    by (auto simp: redis_hit_def Let_def split: prod.splits sum.splits if_splits)
qed

interpretation open_redis_rate: rate_store "fail_open_hit (redis_hit eval member store)" for eval member store
  by (rule redis_rate.fail_open_is_store)

lemma memory_quota_port: "quota_port (\<lambda>key rules. quota_consume key rules now)"
proof unfold_locales
  fix rules key q res q'
  assume v: "\<forall>r \<in> set rules. valid_rule r" and c: "quota_consume key rules now q = (Inr res, q')"
  have "rules \<noteq> []" using c by (auto simp: quota_consume_def)
  from quota_decision_shape [OF this v, of key now q] c
  show "\<not> qr_allowed res \<Longrightarrow> 1 \<le> qr_retry_after res" "qr_allowed res \<Longrightarrow> qr_retry_after res = 0"
    by auto
qed

interpretation mem_quota: quota_port "\<lambda>key rules. quota_consume key rules now" for now
  by (rule memory_quota_port)

interpretation in_process: limiter memory_hit "\<lambda>key rules. quota_consume key rules now" for now
  by (simp add: limiter_def mem_rate.rate_store_axioms memory_quota_port)

subsection \<open>The in-process store over time\<close>

definition bucket_of :: "memory_rate \<Rightarrow> string \<Rightarrow> real list" where
  "bucket_of s key = (case mr_buckets s key of Some b \<Rightarrow> b | None \<Rightarrow> [])"

inductive rate_run :: "int \<Rightarrow> real \<Rightarrow> (real \<times> string) list \<Rightarrow> memory_rate \<Rightarrow> bool"
  for n :: int and w :: real where
  start: "mr_buckets s = (\<lambda>_. None) \<Longrightarrow> rate_run n w [] s"
| moves: "rate_run n w hist s \<Longrightarrow> mr_now s \<le> t \<Longrightarrow> rate_run n w hist (s\<lparr>mr_now := t\<rparr>)"
| hits: "rate_run n w hist s \<Longrightarrow> memory_hit key n w s = (Inr r, s') \<Longrightarrow>
    rate_run n w (if rr_allowed r then hist @ [(mr_now s, key)] else hist) s'"

definition hits_by :: "string \<Rightarrow> (real \<times> string) list \<Rightarrow> real list" where
  "hits_by key hist = map fst (filter (\<lambda>(_, k). k = key) hist)"

lemma hits_by_simps [simp]:
  "hits_by key [] = []"
  "hits_by key (hist @ [(t, k)]) = hits_by key hist @ (if k = key then [t] else [])"
  by (simp_all add: hits_by_def)

definition rate_inv :: "int \<Rightarrow> real \<Rightarrow> real list \<Rightarrow> real \<Rightarrow> real list \<Rightarrow> bool" where
  "rate_inv n w adm now bucket \<longleftrightarrow>
     (\<forall>t \<in> set adm. t \<le> now) \<and> (\<forall>h \<in> set bucket. h \<le> now) \<and> int (length bucket) \<le> n \<and>
     (\<forall>a \<ge> now - w. since a adm \<le> since a bucket) \<and>
     (\<forall>a. int (length (filter (\<lambda>t. a \<le> t \<and> t \<le> a + w) adm)) \<le> n)"

lemma rate_inv_later: "rate_inv n w adm now bucket \<Longrightarrow> now \<le> t \<Longrightarrow> rate_inv n w adm t bucket"
  by (fastforce simp: rate_inv_def)

lemma rate_inv_pruned:
  assumes "rate_inv n w adm now bucket"
  shows "rate_inv n w adm now (dropWhile (\<lambda>h. h < now - w) bucket)"
proof -
  have "length (dropWhile (\<lambda>h. h < now - w) bucket) \<le> length bucket"
    "set (dropWhile (\<lambda>h. h < now - w) bucket) \<subseteq> set bucket"
    by (simp add: length_dropWhile_le) (meson set_dropWhileD subsetI)
  moreover have "since a (dropWhile (\<lambda>h. h < now - w) bucket) = since a bucket" if "a \<ge> now - w" for a
    using that by (rule since_dropWhile)
  ultimately show ?thesis using assms by (fastforce simp: rate_inv_def)
qed

lemma rate_inv_hit:
  assumes "rate_inv n w adm now bucket" and "int (length bucket) < n"
  shows "rate_inv n w (adm @ [now]) now (bucket @ [now])"
proof -
  have "int (length (filter (\<lambda>t. a \<le> t \<and> t \<le> a + w) (adm @ [now]))) \<le> n" for a
  proof (cases "a \<le> now \<and> now \<le> a + w")
    case True
    then have "since a adm \<le> since a bucket" using assms(1) by (simp add: rate_inv_def)
    then have "int (length (filter (\<lambda>t. a \<le> t \<and> t \<le> a + w) adm)) \<le> int (length bucket)"
      using filter_le_since [of a "\<lambda>t. t \<le> a + w" adm] since_le_length [of a bucket] by linarith
    then show ?thesis using assms(2) True by simp
  next
    case False
    then show ?thesis using assms(1) by (auto simp: rate_inv_def)
  qed
  then show ?thesis using assms by (auto simp: rate_inv_def)
qed

lemma memory_hit_effect:
  assumes "memory_hit key n w s = (Inr r, s')"
  shows "mr_now s' = mr_now s" and "k \<noteq> key \<Longrightarrow> bucket_of s' k = bucket_of s k"
    and "\<not> rr_allowed r \<Longrightarrow> bucket_of s' key = dropWhile (\<lambda>h. h < mr_now s - w) (bucket_of s key)"
    and "rr_allowed r \<Longrightarrow> bucket_of s' key = dropWhile (\<lambda>h. h < mr_now s - w) (bucket_of s key) @ [mr_now s] \<and>
      int (length (dropWhile (\<lambda>h. h < mr_now s - w) (bucket_of s key))) < n"
  using assms
  by (auto simp: memory_hit_def bucket_of_def Let_def split: if_splits list.splits)

lemma rate_run_inv:
  assumes "rate_run n w hist s" and "0 \<le> n"
  shows "rate_inv n w (hits_by key hist) (mr_now s) (bucket_of s key)"
  using assms
proof (induction rule: rate_run.induct)
  case (start s)
  then show ?case by (simp add: rate_inv_def bucket_of_def)
next
  case (moves hist s t)
  then show ?case by (auto simp: bucket_of_def intro: rate_inv_later)
next
  case (hits hist s k r s')
  note eff = memory_hit_effect [OF hits.hyps(2)]
  note inv = hits.IH [OF hits.prems]
  show ?case
  proof (cases "k = key")
    case False
    then show ?thesis using inv eff(1) eff(2) [of key] by auto
  next
    case True
    note pruned = rate_inv_pruned [OF inv]
    show ?thesis
    proof (cases "rr_allowed r")
      case True
      then show ?thesis using rate_inv_hit [OF pruned] eff(1,4) \<open>k = key\<close> by auto
    next
      case False
      then show ?thesis using pruned eff(1,3) \<open>k = key\<close> by auto
    qed
  qed
qed

definition sample_rate :: memory_rate where
  "sample_rate = \<lparr>mr_now = 0, mr_buckets = (\<lambda>_. None)\<rparr>"

lemma sample_hit:
  "memory_hit ''u'' 1 60 sample_rate =
     (Inr \<lparr>rr_allowed = True, rr_remaining = 0, rr_retry_after = 0\<rparr>,
      \<lparr>mr_now = 0, mr_buckets = [''u'' \<mapsto> [0]]\<rparr>)"
  by (simp add: memory_hit_def sample_rate_def Let_def)

lemma sample_rate_run: "rate_run 1 60 [(0, ''u'')] \<lparr>mr_now = 0, mr_buckets = [''u'' \<mapsto> [0]]\<rparr>"
  using rate_run.hits [OF rate_run.start sample_hit] by (simp add: sample_rate_def)

text \<open>
  The in-process limiter never admits more than \<^verbatim>\<open>max_requests\<close> hits of one key in any closed
  stretch of \<^verbatim>\<open>window_seconds\<close>, however the hits of this and other keys and the refusals interleave.
\<close>

theorem memory_rate_bound:
  assumes "rate_run n w hist s" and "0 \<le> n"
  shows "int (length (filter (\<lambda>t. a \<le> t \<and> t \<le> a + w) (hits_by key hist))) \<le> n"
  using rate_run_inv [OF assms] by (simp add: rate_inv_def)

theorem memory_rate_bound_witness:
  "int (length (filter (\<lambda>t. - 10 \<le> t \<and> t \<le> - 10 + 60) (hits_by ''u'' [(0, ''u'')]))) \<le> 1"
  using memory_rate_bound [OF sample_rate_run, of "- 10" "''u''"] by simp

text \<open>
  The two in-process stores are the same limiter. On equal logs, a hit of the sliding-window store
  and a consume of the quota store under the one window rule with the same numbers take the same
  decision with the same remaining budget and waiting time, and leave equal logs.
\<close>

theorem window_rule_is_rate_limit:
  assumes "valid_rule rule" and "\<not> is_bucket rule" and "rl_max_requests rule = n" and "rl_window_seconds rule = w"
    and "hits_of q (rule_key key rule) = bucket_of s key" and "mr_now s = now"
    and "(qs_ops q + 1) mod GC_EVERY \<noteq> 0"
  shows "\<exists>res q' r s'. quota_consume key [rule] now q = (Inr res, q') \<and> memory_hit key n w s = (Inr r, s') \<and>
    qr_allowed res = rr_allowed r \<and> qr_remaining res = rr_remaining r \<and> qr_retry_after res = rr_retry_after r \<and>
    hits_of q' (rule_key key rule) = bucket_of s' key"
proof -
  let ?rk = "rule_key key rule"
  let ?kept = "dropWhile (\<lambda>h. h < now - w) (bucket_of s key)"
  have same: "hits_of (tick now q) ?rk = bucket_of s key"
    using assms(5,7) by (simp add: tick_def hits_of_def Let_def)
  have view: "rule_view key now rule (tick now q) = fst (window_state (bucket_of s key) now rule)"
    using assms(2) same by (simp add: rule_view_def)
  have one: "distinct (map effective_scope [rule])" "[rule] \<noteq> []" "\<forall>r \<in> set [rule]. valid_rule r"
    using assms(1) by simp_all
  show ?thesis
  proof (cases "accepts key now [rule] (tick now q)")
    case True
    then have room: "int (length ?kept) < n"
      using view assms(3,4) by (auto simp: window_state_def Let_def split: if_splits)
    obtain r remaining reset where c: "r = rule" "rule_view key now rule (tick now q) = (True, remaining, reset, 0)"
      "quota_consume key [rule] now q =
        (Inr \<lparr>qr_allowed = True, qr_limit = rl_max_requests r, qr_remaining = remaining,
              qr_reset_seconds = reset, qr_retry_after = 0, qr_scope = effective_scope r\<rparr>,
         charge_all key now [rule] (tick now q))"
      using quota_consume_accept [OF one(2,1,3) True] by auto
    have "remaining = n - int (length ?kept) - 1"
      using c(2) view room assms(3,4) by (simp add: window_state_def Let_def)
    moreover have "hits_of (charge_all key now [rule] (tick now q)) ?rk = ?kept @ [now]"
      using charge_all_hit(3) [OF _ one(1) refl, of rule key now "tick now q"] assms(2,4) same by simp
    ultimately show ?thesis
      using c(3) room assms(6) by (simp add: memory_hit_def bucket_of_def Let_def)
  next
    case False
    then have full: "n \<le> int (length ?kept)"
      using view assms(3,4) by (auto simp: window_state_def Let_def split: if_splits)
    then obtain h hs where kept: "?kept = h # hs"
      using valid_rule_pos(4) [OF assms(1)] assms(3) by (cases ?kept) auto
    obtain r reset retry where in_rules: "r \<in> set [rule]" and "1 \<le> retry"
      and view': "rule_view key now r (tick now q) = (False, 0, reset, retry)"
      and consumed:
      "quota_consume key [rule] now q =
        (Inr \<lparr>qr_allowed = False, qr_limit = rl_max_requests r, qr_remaining = 0,
              qr_reset_seconds = reset, qr_retry_after = retry, qr_scope = effective_scope r\<rparr>,
         fold (prune_rule key now) [rule] (tick now q))"
      by (rule quota_consume_deny [OF one(2,1,3) False])
    have c: "r = rule" "rule_view key now rule (tick now q) = (False, 0, reset, retry)"
      using in_rules view' by simp_all
    have "retry = max 1 \<lceil>h + w - now\<rceil>"
      using c(2) view full kept assms(3,4) by (simp add: window_state_def Let_def)
    moreover have "hits_of (fold (prune_rule key now) [rule] (tick now q)) ?rk = ?kept"
      using fold_prune_window [of rule "[rule]" key now "tick now q"] assms(2,4) same
      by (simp add: hits_of_def)
    ultimately show ?thesis
      using consumed c(1) full kept assms(6) by (simp add: memory_hit_def bucket_of_def Let_def)
  qed
qed

theorem window_rule_is_rate_limit_witness:
  "\<exists>res q' r s'. quota_consume ''u'' [per_minute] 0 empty_quota_store = (Inr res, q') \<and>
     memory_hit ''u'' 1 60 sample_rate = (Inr r, s') \<and> qr_allowed res = rr_allowed r"
proof -
  have "rl_max_requests per_minute = 1" "rl_window_seconds per_minute = 60" by (simp_all add: per_minute_def)
  moreover have "hits_of empty_quota_store (rule_key ''u'' per_minute) = bucket_of sample_rate ''u''"
    "mr_now sample_rate = 0" "(qs_ops empty_quota_store + 1) mod GC_EVERY \<noteq> 0"
    by (simp_all add: hits_of_def empty_quota_store_def bucket_of_def sample_rate_def GC_EVERY_def)
  ultimately show ?thesis
    using window_rule_is_rate_limit [of per_minute 1 60 empty_quota_store "''u''" sample_rate 0]
    by (simp add: sample_rules) blast
qed

subsection \<open>What reaches the handler\<close>

definition sample_limiter :: RateLimitMiddleware where
  "sample_limiter = \<lparr>rm_max_requests = 1, rm_window_seconds = 60, rm_key_func = (\<lambda>_. ''u''), rm_policy = None,
     rm_exempt = \<lparr>pe_exact = [''/health''], pe_prefixes = []\<rparr>, rm_retry_after_header = True,
     rm_limit_headers = True, rm_error_message = ''Too many requests'', rm_error_code = ''TOO_MANY_REQUESTS''\<rparr>"

definition counting_handler :: "nat handler" where
  "counting_handler req w = (\<lparr>res_status = 200, res_headers = [], res_body = HandlerBody ''ok''\<rparr>, w + 1)"

text \<open>
  The rate limit middleware over the in-process stores either runs the handler exactly once and
  adds no \<^verbatim>\<open>Retry-After\<close>, or answers 429 without running it; then the body states a waiting time of at
  least one second, and the header, when it is enabled, carries text that reads back as the same
  number. This holds in window mode and for any policy of valid rules.
\<close>

theorem limited_request_is_not_handled:
  assumes "rate_dispatch memory_hit (\<lambda>key rules. quota_consume key rules now) m call_next req st = (Inr res, st')"
    and "1 \<le> rm_max_requests m"
    and "\<forall>rules_for. rm_policy m = Some rules_for \<longrightarrow> (\<forall>r \<in> set (rules_for req). valid_rule r)"
    and "\<not> exemption_matches (rm_exempt m) (req_path req)"
  shows "(\<exists>res0 hs. call_next req (ls_app st) = (res0, ls_app st') \<and> res = headers_update hs res0 \<and>
      map_of hs ''Retry-After'' = None) \<or>
    (\<exists>retry limit. res_status res = 429 \<and> ls_app st' = ls_app st \<and> 1 \<le> retry \<and>
      res_body res = TooManyBody (rm_error_message m) (rm_error_code m) retry limit \<and>
      (rm_retry_after_header m \<longrightarrow>
         (\<exists>text. map_of (res_headers res) ''Retry-After'' = Some text \<and> py_int text = Some retry)))"
  using in_process.dispatch_answers [OF assms] py_int_int_str by blast

theorem limited_request_is_not_handled_witness:
  "\<exists>res st'. rate_dispatch memory_hit (\<lambda>key rules. quota_consume key rules 5) sample_limiter counting_handler sample_req
      \<lparr>ls_store = \<lparr>mr_now = 5, mr_buckets = [''u'' \<mapsto> [0]]\<rparr>, ls_quota = empty_quota_store, ls_app = 0\<rparr> = (Inr res, st') \<and>
    res_status res = 429 \<and> ls_app st' = 0"
proof -
  let ?st = "\<lparr>ls_store = \<lparr>mr_now = 5, mr_buckets = [''u'' \<mapsto> [0]]\<rparr>, ls_quota = empty_quota_store, ls_app = 0\<rparr>"
  have hit: "memory_hit ''u'' 1 60 \<lparr>mr_now = 5, mr_buckets = [''u'' \<mapsto> [0]]\<rparr> =
      (Inr \<lparr>rr_allowed = False, rr_remaining = 0, rr_retry_after = 55\<rparr>, \<lparr>mr_now = 5, mr_buckets = [''u'' \<mapsto> [0]]\<rparr>)"
    by (simp add: memory_hit_def Let_def)
  have open_path: "\<not> exemption_matches (rm_exempt sample_limiter) (req_path sample_req)"
    by (simp add: exemption_matches_def sample_limiter_def sample_req_def)
  obtain res st' where run: "rate_dispatch memory_hit (\<lambda>key rules. quota_consume key rules 5) sample_limiter
      counting_handler sample_req ?st = (Inr res, st')" and "res_status res = 429"
    using open_path by (simp add: rate_dispatch_def Let_def sample_limiter_def hit)
  moreover have "1 \<le> rm_max_requests sample_limiter" "rm_policy sample_limiter = None"
    by (simp_all add: sample_limiter_def)
  moreover have "res_status (headers_update hs res0) = 200 \<and> n = 1" if "counting_handler sample_req 0 = (res0, n)" for hs res0 n
    using that by (auto simp: counting_handler_def headers_update_def)
  ultimately show ?thesis
    using limited_request_is_not_handled [OF run _ _ open_path] by fastforce
qed

text \<open>
  A client cannot buy a fresh budget with a made-up key. Under \<^verbatim>\<open>key_by_header\<close> two requests from
  the same peer whose header values are not known principals fall into one bucket, whatever the
  values, and that bucket is the peer's own.
\<close>

lemma unknown_header_keeps_bucket:
  assumes "req_client req = req_client req'"
    and "\<forall>v. header_get (req_headers req) name = Some v \<longrightarrow> \<not> is_known (strip v)"
    and "\<forall>v. header_get (req_headers req') name = Some v \<longrightarrow> \<not> is_known (strip v)"
  shows "key_by_header parse name is_known scope True None req =
      key_by_header parse name is_known scope True None req' \<and>
    key_by_header parse name is_known scope True None req = key_by_ip parse None req"
proof -
  have "strip [] = []" by (simp add: strip_def)
  then show ?thesis
    using assms
    by (cases "header_get (req_headers req) name"; cases "header_get (req_headers req') name")
       (simp_all add: key_by_header_def key_by_ip_def get_client_ip_def truthy_def Let_def)
qed

end
