(* ===== verification/Idempotency.thy ===== *)
theory Idempotency
  imports Request
begin

text \<open>
  \<^verbatim>\<open>api/middlewares/idempotency.py\<close> with \<^verbatim>\<open>_credentials.py\<close> and \<^verbatim>\<open>_streaming.py\<close>: the cache key and
  the fingerprint of a request, the in-process store, the dispatch of one request, and the
  concurrent requests of one process with the locks of \<^verbatim>\<open>asyncio\<close>. Bytes are strings; the
  digest \<open>sha\<close> is an argument.
\<close>

subsection \<open>Requests and responses\<close>

record mutation = request +
  mu_method :: string
  mu_query :: string
  mu_body :: string

record handler_response =
  hr_status :: int
  hr_raw_headers :: "(string \<times> string) list"
  hr_chunks :: "string list"
  hr_media_type :: "string option"

record CachedResponse =
  cr_status_code :: int
  cr_headers :: "(string \<times> string) list"
  cr_body :: string
  cr_media_type :: "string option"
  cr_fingerprint :: string

text \<open>The arguments of the \<^verbatim>\<open>Response\<close> the middleware builds; its headers are a dict.\<close>

record built_response =
  br_content :: string
  br_status :: int
  br_headers :: "(string \<times> string) list"
  br_media_type :: "string option"

datatype idem_result = Passed handler_response | Built built_response | KeyReused

definition UNBUFFERED_MEDIA_TYPES :: "string list" where
  "UNBUFFERED_MEDIA_TYPES = [''text/event-stream'', ''multipart/x-mixed-replace'']"

definition response_media_type :: "handler_response \<Rightarrow> string" where
  "response_media_type res =
     (let content_type = (case header_get (hr_raw_headers res) ''content-type'' of Some v \<Rightarrow> v | None \<Rightarrow> [])
      in lower (strip (takeWhile (\<lambda>c. c \<noteq> CHR '';'') content_type)))"

definition is_unbounded_stream :: "handler_response \<Rightarrow> bool" where
  "is_unbounded_stream res =
     (if response_media_type res \<in> set UNBUFFERED_MEDIA_TYPES then True
      else header_get (hr_raw_headers res) ''content-length'' = None)"

subsection \<open>Who is calling\<close>

definition DEFAULT_CREDENTIAL_HEADERS :: "string list" where
  "DEFAULT_CREDENTIAL_HEADERS = [''authorization'', ''cookie'', ''x-token'', ''x-api-key'']"

text \<open>The first occurrence of each name stays; \<open>None\<close> is the \<^verbatim>\<open>ValueError\<close>.\<close>

definition normalize_credential_headers :: "string list \<Rightarrow> string list option" where
  "normalize_credential_headers headers =
     (let normalized = rev (remdups (rev (map (\<lambda>name. lower (strip name))
            (filter (\<lambda>name. strip name \<noteq> []) headers))))
      in if normalized = [] then None else Some normalized)"

fun join :: "string \<Rightarrow> string list \<Rightarrow> string" where
  "join sep [] = []"
| "join sep [x] = x"
| "join sep (x # y # ys) = x @ sep @ join sep (y # ys)"

definition credential_digest ::
  "(string \<Rightarrow> string) \<Rightarrow> (string \<times> string) list \<Rightarrow> string list \<Rightarrow> string option" where
  "credential_digest sha hs headers =
     (let values = map (\<lambda>name. case header_get hs name of Some v \<Rightarrow> v | None \<Rightarrow> []) headers
      in if \<not> list_ex (\<lambda>v. v \<noteq> []) values then None
         else Some (sha (join ''|'' (map2 (\<lambda>name value. name @ ''='' @ value) headers values))))"

record IdempotencyMiddleware =
  im_ttl_seconds :: int
  im_header_name :: string
  im_principal_resolver :: "(mutation \<Rightarrow> string) option"
  im_cache_server_errors :: bool
  im_credential_headers :: "string list"
  im_allow_anonymous :: bool

definition idempotency_init ::
  "int \<Rightarrow> string \<Rightarrow> (mutation \<Rightarrow> string) option \<Rightarrow> bool \<Rightarrow> string list \<Rightarrow> bool \<Rightarrow> IdempotencyMiddleware option" where
  "idempotency_init ttl_seconds header_name principal_resolver cache_server_errors credential_headers allow_anonymous =
     map_option (\<lambda>hs. \<lparr>im_ttl_seconds = ttl_seconds, im_header_name = header_name,
        im_principal_resolver = principal_resolver, im_cache_server_errors = cache_server_errors,
        im_credential_headers = hs, im_allow_anonymous = allow_anonymous\<rparr>)
       (normalize_credential_headers credential_headers)"

definition idem_principal :: "(string \<Rightarrow> string) \<Rightarrow> IdempotencyMiddleware \<Rightarrow> mutation \<Rightarrow> string" where
  "idem_principal sha m req =
     (case im_principal_resolver m of
        Some resolver \<Rightarrow> resolver req
      | None \<Rightarrow> (case credential_digest sha (req_headers req) (im_credential_headers m) of
            None \<Rightarrow> [] | Some digest \<Rightarrow> take 32 digest))"

definition MUTATING_METHODS :: "string list" where
  "MUTATING_METHODS = [''POST'', ''PUT'', ''PATCH'', ''DELETE'']"

text \<open>\<^verbatim>\<open>len(part).to_bytes(8, "big")\<close>; a longer part than \<open>2 ^ 64 - 1\<close> bytes does not fit in memory.\<close>

definition to_bytes8 :: "nat \<Rightarrow> string" where
  "to_bytes8 n = map (\<lambda>i. char_of (n div 256 ^ i mod 256)) [7, 6, 5, 4, 3, 2, 1, 0]"

definition fingerprint_input :: "mutation \<Rightarrow> string" where
  "fingerprint_input req =
     concat (map (\<lambda>part. to_bytes8 (length part) @ part)
       [mu_method req, req_path req, mu_query req, mu_body req])"

definition request_fingerprint :: "(string \<Rightarrow> string) \<Rightarrow> mutation \<Rightarrow> string" where
  "request_fingerprint sha req = sha (fingerprint_input req)"

definition cache_key :: "string \<Rightarrow> mutation \<Rightarrow> string \<Rightarrow> string" where
  "cache_key caller req key =
     caller @ '':'' @ mu_method req @ '':'' @ req_path req @ '':'' @ key"

text \<open>
  Whether the middleware takes a request on, and then under which key: \<open>None\<close> passes it through.
\<close>

definition idem_key_of :: "(string \<Rightarrow> string) \<Rightarrow> IdempotencyMiddleware \<Rightarrow> mutation \<Rightarrow> string option" where
  "idem_key_of sha m req =
     (if mu_method req \<notin> set MUTATING_METHODS then None
      else
        let key = header_get (req_headers req) (im_header_name m)
        in if \<not> truthy key then None
           else
             let caller = idem_principal sha m req
             in if caller = [] \<and> \<not> im_allow_anonymous m then None
                else Some (cache_key caller req (the key)))"

subsection \<open>The in-process store\<close>

record memory_idem =
  mi_now :: real
  mi_store :: "string \<Rightarrow> (real \<times> CachedResponse) option"

definition memory_idem_get :: "string \<Rightarrow> memory_idem \<Rightarrow> CachedResponse option \<times> memory_idem" where
  "memory_idem_get key s =
     (case mi_store s key of
        None \<Rightarrow> (None, s)
      | Some (expires_at, response) \<Rightarrow>
          if expires_at < mi_now s then (None, s\<lparr>mi_store := (mi_store s)(key := None)\<rparr>)
          else (Some response, s))"

definition memory_idem_set :: "string \<Rightarrow> CachedResponse \<Rightarrow> int \<Rightarrow> memory_idem \<Rightarrow> memory_idem" where
  "memory_idem_set key response ttl_seconds s =
     s\<lparr>mi_store := (mi_store s)(key \<mapsto> (mi_now s + of_int ttl_seconds, response))\<rparr>"

subsection \<open>One request\<close>

type_synonym 'w mutation_handler = "mutation \<Rightarrow> 'w \<Rightarrow> handler_response \<times> 'w"
type_synonym 's idem_get = "string \<Rightarrow> 's \<Rightarrow> CachedResponse option \<times> 's"
type_synonym 's idem_set = "string \<Rightarrow> CachedResponse \<Rightarrow> int \<Rightarrow> 's \<Rightarrow> 's"

definition UNREPLAYABLE_HEADERS :: "string list" where
  "UNREPLAYABLE_HEADERS = [''set-cookie'']"

definition replayed :: "CachedResponse \<Rightarrow> built_response" where
  "replayed c = \<lparr>br_content = cr_body c, br_status = cr_status_code c, br_headers = dict_of (cr_headers c),
     br_media_type = cr_media_type c\<rparr>"

definition to_cache :: "handler_response \<Rightarrow> string \<Rightarrow> CachedResponse" where
  "to_cache res fingerprint =
     \<lparr>cr_status_code = hr_status res,
      cr_headers = filter (\<lambda>(name, _). lower name \<notin> set UNREPLAYABLE_HEADERS) (hr_raw_headers res),
      cr_body = concat (hr_chunks res), cr_media_type = hr_media_type res, cr_fingerprint = fingerprint\<rparr>"

definition rebuilt :: "handler_response \<Rightarrow> built_response" where
  "rebuilt res = \<lparr>br_content = concat (hr_chunks res), br_status = hr_status res,
     br_headers = dict_of (hr_raw_headers res), br_media_type = hr_media_type res\<rparr>"

definition is_cacheable :: "IdempotencyMiddleware \<Rightarrow> handler_response \<Rightarrow> bool" where
  "is_cacheable m res \<longleftrightarrow> im_cache_server_errors m \<or> hr_status res < 500"

text \<open>The state: the store, and what the handlers behind the middleware act on.\<close>

definition dispatch_locked ::
  "'s idem_get \<Rightarrow> 's idem_set \<Rightarrow> IdempotencyMiddleware \<Rightarrow> 'w mutation_handler \<Rightarrow> string \<Rightarrow> string
    \<Rightarrow> mutation \<Rightarrow> 's \<times> 'w \<Rightarrow> idem_result \<times> ('s \<times> 'w)" where
  "dispatch_locked get put m call_next key fingerprint req st =
     (case get key (fst st) of
        (Some cached, s1) \<Rightarrow>
          if cr_fingerprint cached \<noteq> fingerprint then (KeyReused, (s1, snd st))
          else (Built (replayed cached), (s1, snd st))
      | (None, s1) \<Rightarrow>
          (case call_next req (snd st) of (res, w) \<Rightarrow>
             if is_unbounded_stream res then (Passed res, (s1, w))
             else (Built (rebuilt res),
                   (if is_cacheable m res then put key (to_cache res fingerprint) (im_ttl_seconds m) s1
                    else s1, w))))"

definition idem_dispatch ::
  "'s idem_get \<Rightarrow> 's idem_set \<Rightarrow> (string \<Rightarrow> string) \<Rightarrow> IdempotencyMiddleware \<Rightarrow> 'w mutation_handler
    \<Rightarrow> mutation \<Rightarrow> 's \<times> 'w \<Rightarrow> idem_result \<times> ('s \<times> 'w)" where
  "idem_dispatch get put sha m call_next req st =
     (case idem_key_of sha m req of
        None \<Rightarrow> (case call_next req (snd st) of (res, w) \<Rightarrow> (Passed res, (fst st, w)))
      | Some key \<Rightarrow> dispatch_locked get put m call_next key (request_fingerprint sha req) req st)"

subsection \<open>The tasks of one process\<close>

text \<open>
  Every task runs until it awaits something unfinished. A lock object is a cache key and a number;
  its queue holds the tasks that wait for it, the first of which may have been woken by a release
  but not have run yet (the lock then reads as free). The table maps a key to its current lock
  object. The store is the in-process one within the lifetime of its entries: reading and writing it
  does not suspend. \<open>ip_runs\<close> counts the starts of the handler per key.
\<close>

type_synonym lock_id = "string \<times> nat"

datatype phase = Waiting lock_id | Woken lock_id | Handling lock_id | Answered

datatype outcome = Stored CachedResponse | NotStored

record idem_proc =
  ip_table :: "string \<Rightarrow> lock_id option"
  ip_held :: "lock_id \<Rightarrow> bool"
  ip_queue :: "lock_id \<Rightarrow> nat list"
  ip_next :: nat
  ip_tasks :: "nat \<Rightarrow> (string \<times> phase) option"
  ip_store :: "string \<Rightarrow> CachedResponse option"
  ip_runs :: "string \<Rightarrow> nat"

definition proc_init :: idem_proc where
  "proc_init = \<lparr>ip_table = (\<lambda>_. None), ip_held = (\<lambda>_. False), ip_queue = (\<lambda>_. []), ip_next = 0,
     ip_tasks = (\<lambda>_. None), ip_store = (\<lambda>_. None), ip_runs = (\<lambda>_. 0)\<rparr>"

definition lock_for :: "string \<Rightarrow> idem_proc \<Rightarrow> lock_id \<times> idem_proc" where
  "lock_for k s =
     (case ip_table s k of
        Some lid \<Rightarrow> (lid, s)
      | None \<Rightarrow> let lid = (k, ip_next s)
                in (lid, s\<lparr>ip_table := (ip_table s)(k \<mapsto> lid), ip_next := ip_next s + 1\<rparr>))"

text \<open>\<^verbatim>\<open>_release_lock\<close>: the entry goes when the lock now in the table reads as free.\<close>

definition release_lock :: "string \<Rightarrow> idem_proc \<Rightarrow> idem_proc" where
  "release_lock k s =
     (case ip_table s k of
        None \<Rightarrow> s
      | Some lid \<Rightarrow> if \<not> ip_held s lid then s\<lparr>ip_table := (ip_table s)(k := None)\<rparr> else s)"

text \<open>\<^verbatim>\<open>Lock.release\<close>: the lock is free and the first waiter is woken, to run later.\<close>

definition asyncio_release :: "lock_id \<Rightarrow> idem_proc \<Rightarrow> idem_proc" where
  "asyncio_release lid s =
     (let s1 = s\<lparr>ip_held := (ip_held s)(lid := False)\<rparr>
      in case ip_queue s lid of
          [] \<Rightarrow> s1
        | t # _ \<Rightarrow> s1\<lparr>ip_tasks := (ip_tasks s)(t \<mapsto> (fst lid, Woken lid))\<rparr>)"

text \<open>Leaving \<^verbatim>\<open>async with lock\<close> and the \<^verbatim>\<open>finally\<close> run without suspending.\<close>

definition leave :: "nat \<Rightarrow> string \<Rightarrow> lock_id \<Rightarrow> idem_proc \<Rightarrow> idem_proc" where
  "leave t k lid s =
     release_lock k (asyncio_release lid (s\<lparr>ip_tasks := (ip_tasks s)(t \<mapsto> (k, Answered))\<rparr>))"

text \<open>With the lock acquired: a hit is answered at once, a miss starts the handler.\<close>

definition enter :: "nat \<Rightarrow> string \<Rightarrow> lock_id \<Rightarrow> idem_proc \<Rightarrow> idem_proc" where
  "enter t k lid s =
     (let s1 = s\<lparr>ip_held := (ip_held s)(lid := True)\<rparr>
      in case ip_store s k of
          Some _ \<Rightarrow> leave t k lid s1
        | None \<Rightarrow> s1\<lparr>ip_tasks := (ip_tasks s)(t \<mapsto> (k, Handling lid)),
                     ip_runs := (ip_runs s)(k := ip_runs s k + 1)\<rparr>)"

definition arrive :: "nat \<Rightarrow> string \<Rightarrow> idem_proc \<Rightarrow> idem_proc" where
  "arrive t k s =
     (case lock_for k s of (lid, s1) \<Rightarrow>
        if \<not> ip_held s1 lid \<and> ip_queue s1 lid = [] then enter t k lid s1
        else s1\<lparr>ip_queue := (ip_queue s1)(lid := ip_queue s1 lid @ [t]),
                ip_tasks := (ip_tasks s1)(t \<mapsto> (k, Waiting lid))\<rparr>)"

definition finish :: "nat \<Rightarrow> string \<Rightarrow> lock_id \<Rightarrow> outcome \<Rightarrow> idem_proc \<Rightarrow> idem_proc" where
  "finish t k lid out s =
     leave t k lid (case out of
        Stored c \<Rightarrow> s\<lparr>ip_store := (ip_store s)(k \<mapsto> c)\<rparr>
      | NotStored \<Rightarrow> s)"

inductive idem_reachable :: "(outcome \<Rightarrow> bool) \<Rightarrow> idem_proc \<Rightarrow> bool" for ok :: "outcome \<Rightarrow> bool" where
  init: "idem_reachable ok proc_init"
| arrives: "idem_reachable ok s \<Longrightarrow> ip_tasks s t = None \<Longrightarrow> idem_reachable ok (arrive t k s)"
| finishes: "idem_reachable ok s \<Longrightarrow> ip_tasks s t = Some (k, Handling lid) \<Longrightarrow> ok out \<Longrightarrow>
    idem_reachable ok (finish t k lid out s)"
| wakes: "idem_reachable ok s \<Longrightarrow> ip_tasks s t = Some (k, Woken lid) \<Longrightarrow>
    idem_reachable ok (enter t k lid (s\<lparr>ip_queue := (ip_queue s)(lid := remove1 t (ip_queue s lid))\<rparr>))"

subsection \<open>At most one handler per key\<close>

text \<open>What one key sees of the process, and what an operation on another key leaves alone.\<close>

definition phase_of :: "idem_proc \<Rightarrow> string \<Rightarrow> nat \<Rightarrow> phase option" where
  "phase_of s k t = (case ip_tasks s t of Some (k', ph) \<Rightarrow> if k' = k then Some ph else None | None \<Rightarrow> None)"

definition same_key :: "string \<Rightarrow> idem_proc \<Rightarrow> idem_proc \<Rightarrow> bool" where
  "same_key k s s' \<longleftrightarrow> ip_table s' k = ip_table s k \<and> (\<forall>n. ip_held s' (k, n) = ip_held s (k, n)) \<and>
     (\<forall>n. ip_queue s' (k, n) = ip_queue s (k, n)) \<and> ip_store s' k = ip_store s k \<and>
     ip_runs s' k = ip_runs s k \<and> phase_of s' k = phase_of s k"

definition queued_ok :: "idem_proc \<Rightarrow> bool" where
  "queued_ok s \<longleftrightarrow> (\<forall>k n. \<forall>t \<in> set (ip_queue s (k, n)). \<exists>ph. ip_tasks s t = Some (k, ph))"

lemma same_key_refl: "same_key k s s"
  by (simp add: same_key_def)

lemma leave_fields [simp]:
  "ip_store (leave t k lid s) = ip_store s" "ip_runs (leave t k lid s) = ip_runs s"
  "ip_queue (leave t k lid s) = ip_queue s" "ip_next (leave t k lid s) = ip_next s"
  "ip_held (leave t k lid s) = (ip_held s)(lid := False)"
  "k' \<noteq> k \<Longrightarrow> ip_table (leave t k lid s) k' = ip_table s k'"
  "ip_table (leave t k lid s) k = (case ip_table s k of
     None \<Rightarrow> None | Some l \<Rightarrow> if l = lid \<or> \<not> ip_held s l then None else Some l)"
  "ip_tasks (leave t k lid s) = (case ip_queue s lid of
     [] \<Rightarrow> (ip_tasks s)(t \<mapsto> (k, Answered))
   | u # _ \<Rightarrow> (ip_tasks s)(t \<mapsto> (k, Answered), u \<mapsto> (fst lid, Woken lid)))"
proof -
  show "ip_table (leave t k lid s) k = (case ip_table s k of
     None \<Rightarrow> None | Some l \<Rightarrow> if l = lid \<or> \<not> ip_held s l then None else Some l)"
    by (cases "ip_queue s lid"; cases "ip_table s k")
       (simp_all add: leave_def asyncio_release_def release_lock_def Let_def)
qed (simp_all add: leave_def asyncio_release_def release_lock_def Let_def split: option.split list.split)

lemma phase_of_Some: "phase_of s k t = Some ph \<longleftrightarrow> ip_tasks s t = Some (k, ph)"
  by (auto simp: phase_of_def split: option.splits)

lemma phase_of_None: "phase_of s k t = None \<longleftrightarrow> (\<forall>ph. ip_tasks s t \<noteq> Some (k, ph))"
  by (auto simp: phase_of_def split: option.splits)

lemma phase_of_frame [simp]:
  "phase_of (s\<lparr>ip_held := h\<rparr>) = phase_of s" "phase_of (s\<lparr>ip_queue := q\<rparr>) = phase_of s"
  "phase_of (s\<lparr>ip_store := c\<rparr>) = phase_of s" "phase_of (s\<lparr>ip_table := tb, ip_next := n\<rparr>) = phase_of s"
  by (simp_all add: phase_of_def fun_eq_iff)

lemma phase_of_cong:
  assumes "\<And>u. ip_tasks s' u = ip_tasks s u \<or> phase_of s k u = None \<and> phase_of s' k u = None"
  shows "phase_of s' k = phase_of s k"
proof
  fix u
  from assms [of u] show "phase_of s' k u = phase_of s k u" by (auto simp: phase_of_def)
qed

lemma leave_other:
  assumes "k \<noteq> k'" and "phase_of s k t = None" and "queued_ok s"
  shows "same_key k s (leave t k' (k', n) s)"
proof -
  have q: "phase_of s k u = None" if "u \<in> set (ip_queue s (k', n))" for u
    using that assms(1,3) by (fastforce simp: queued_ok_def phase_of_None)
  have "phase_of (leave t k' (k', n) s) k = phase_of s k"
  proof (rule phase_of_cong)
    fix u
    show "ip_tasks (leave t k' (k', n) s) u = ip_tasks s u \<or>
        phase_of s k u = None \<and> phase_of (leave t k' (k', n) s) k u = None"
      using assms(1,2) q [of u] by (auto simp: phase_of_def split: list.splits)
  qed
  then show ?thesis using assms(1) by (simp add: same_key_def)
qed

lemma queued_ok_leave:
  assumes "queued_ok s" and "ip_tasks s t = Some (k, ph) \<or> ip_tasks s t = None"
  shows "queued_ok (leave t k (k, n) s)"
  unfolding queued_ok_def leave_fields
proof (intro allI ballI)
  fix k1 n1 u assume u: "u \<in> set (ip_queue s (k1, n1))"
  then obtain ph1 where ph1: "ip_tasks s u = Some (k1, ph1)" using assms(1) by (fastforce simp: queued_ok_def)
  have "k1 = k" if "u = t" using that ph1 assms(2) by auto
  moreover have "k1 = k" if "ip_queue s (k, n) = u # us" for us
  proof -
    have "u \<in> set (ip_queue s (k, n))" using that by simp
    then show ?thesis using assms(1) ph1 by (fastforce simp: queued_ok_def)
  qed
  ultimately show "\<exists>ph. (case ip_queue s (k, n) of
       [] \<Rightarrow> (ip_tasks s)(t \<mapsto> (k, Answered))
     | u # _ \<Rightarrow> (ip_tasks s)(t \<mapsto> (k, Answered), u \<mapsto> (fst (k, n), Woken (k, n)))) u = Some (k1, ph)"
    using ph1 by (cases "ip_queue s (k, n)") auto
qed

lemma enter_other:
  assumes "k \<noteq> k'" and "phase_of s k t = None" and "queued_ok s"
  shows "same_key k s (enter t k' (k', n) s)"
proof (cases "ip_store s k'")
  case None
  then have "phase_of (enter t k' (k', n) s) k = phase_of s k"
    using assms(1,2) by (intro phase_of_cong) (auto simp: enter_def phase_of_def Let_def)
  then show ?thesis using assms(1) None by (simp add: enter_def same_key_def Let_def)
next
  case (Some c)
  let ?s = "s\<lparr>ip_held := (ip_held s)((k', n) := True)\<rparr>"
  have "queued_ok ?s" using assms(3) by (simp add: queued_ok_def)
  moreover have "phase_of ?s k t = None" using assms(2) by (simp add: phase_of_def)
  ultimately have "same_key k ?s (leave t k' (k', n) ?s)" using leave_other [OF assms(1)] by blast
  then show ?thesis using assms(1) Some by (simp add: enter_def same_key_def Let_def)
qed

lemma queued_ok_enter:
  assumes "queued_ok s" and "ip_tasks s t = Some (k, ph) \<or> ip_tasks s t = None"
  shows "queued_ok (enter t k (k, n) s)"
proof (cases "ip_store s k")
  case None
  then show ?thesis using assms by (fastforce simp: enter_def queued_ok_def Let_def)
next
  case (Some c)
  have "queued_ok (s\<lparr>ip_held := (ip_held s)((k, n) := True)\<rparr>)" using assms(1) by (simp add: queued_ok_def)
  then show ?thesis using Some assms(2) queued_ok_leave [of "s\<lparr>ip_held := (ip_held s)((k, n) := True)\<rparr>" t k ph n]
    by (auto simp: enter_def Let_def)
qed

text \<open>
  Every key is untouched, being handled by exactly one task while all others wait for that task's
  lock, or answered and in the store.
\<close>

definition untouched :: "idem_proc \<Rightarrow> string \<Rightarrow> bool" where
  "untouched s k \<longleftrightarrow> ip_store s k = None \<and> ip_runs s k = 0 \<and> ip_table s k = None \<and> phase_of s k = (\<lambda>_. None) \<and>
     (\<forall>n. \<not> ip_held s (k, n) \<and> ip_queue s (k, n) = [])"

definition in_progress :: "idem_proc \<Rightarrow> string \<Rightarrow> bool" where
  "in_progress s k \<longleftrightarrow> ip_store s k = None \<and> ip_runs s k = 1 \<and>
     (\<exists>t n. phase_of s k t = Some (Handling (k, n)) \<and> ip_table s k = Some (k, n) \<and> ip_held s (k, n) \<and>
        (\<forall>t'. t' \<noteq> t \<longrightarrow> phase_of s k t' = None \<or> phase_of s k t' = Some (Waiting (k, n))))"

definition answered :: "idem_proc \<Rightarrow> string \<Rightarrow> bool" where
  "answered s k \<longleftrightarrow> (\<exists>c. ip_store s k = Some c) \<and> ip_runs s k = 1 \<and>
     (\<forall>t lid. phase_of s k t \<noteq> Some (Handling lid)) \<and> (\<forall>lid. ip_table s k = Some lid \<longrightarrow> fst lid = k) \<and>
     (\<forall>t lid. phase_of s k t = Some (Woken lid) \<longrightarrow> fst lid = k)"

definition key_ok :: "idem_proc \<Rightarrow> string \<Rightarrow> bool" where
  "key_ok s k \<longleftrightarrow> untouched s k \<or> in_progress s k \<or> answered s k"

lemma key_ok_same: "same_key k s s' \<Longrightarrow> key_ok s k \<Longrightarrow> key_ok s' k"
  by (simp add: same_key_def key_ok_def untouched_def in_progress_def answered_def)

text \<open>Answering a task of a stored key.\<close>

lemma leave_answered:
  assumes "ip_store s k \<noteq> None" and "ip_runs s k = 1"
    and "\<forall>u lid. u \<noteq> t \<longrightarrow> phase_of s k u \<noteq> Some (Handling lid)"
    and "\<forall>lid. ip_table s k = Some lid \<longrightarrow> fst lid = k"
    and "\<forall>u lid. phase_of s k u = Some (Woken lid) \<longrightarrow> fst lid = k"
  shows "answered (leave t k (k, n) s) k"
proof -
  have "phase_of (leave t k (k, n) s) k u \<noteq> Some (Handling lid)" for u lid
    using assms(3) by (cases lid; cases "ip_queue s (k, n)") (auto simp: phase_of_Some)
  moreover have "fst lid = k" if "phase_of (leave t k (k, n) s) k u = Some (Woken lid)" for u lid
    using that assms(5) by (cases lid; cases "ip_queue s (k, n)") (auto simp: phase_of_Some split: if_splits)
  moreover have "fst lid = k" if "ip_table (leave t k (k, n) s) k = Some lid" for lid
    using that assms(4) by (auto split: option.splits if_splits)
  ultimately show ?thesis using assms(1,2) by (auto simp: answered_def)
qed

definition lids_ok :: "idem_proc \<Rightarrow> bool" where
  "lids_ok s \<longleftrightarrow> (\<forall>t k lid. ip_tasks s t = Some (k, Handling lid) \<or> ip_tasks s t = Some (k, Woken lid) \<longrightarrow> fst lid = k) \<and>
     (\<forall>k lid. ip_table s k = Some lid \<longrightarrow> fst lid = k)"

lemma lids_ok_leave:
  assumes "lids_ok s"
  shows "lids_ok (leave t k lid s)"
proof -
  have "fst l = k1" if "ip_tasks (leave t k lid s) u = Some (k1, Handling l) \<or>
      ip_tasks (leave t k lid s) u = Some (k1, Woken l)" for u k1 l
    using that assms
    by (cases l; cases "ip_queue s lid") (auto simp: lids_ok_def split: if_splits)
  moreover have "fst l = k1" if "ip_table (leave t k lid s) k1 = Some l" for k1 l
    using that assms by (cases l; cases "k1 = k") (auto simp: lids_ok_def split: option.splits if_splits)
  ultimately show ?thesis unfolding lids_ok_def by blast
qed

lemma lids_ok_enter:
  assumes "lids_ok s"
  shows "lids_ok (enter t k (k, n) s)"
proof -
  have "lids_ok (s\<lparr>ip_held := h\<rparr>)" for h using assms by (simp add: lids_ok_def)
  then have "lids_ok (leave t k (k, n) (s\<lparr>ip_held := h\<rparr>))" for h by (rule lids_ok_leave)
  moreover have "lids_ok (s\<lparr>ip_held := h, ip_tasks := (ip_tasks s)(t \<mapsto> (k, Handling (k, n))), ip_runs := r\<rparr>)" for h r
    using assms by (auto simp: lids_ok_def split: if_splits)
  ultimately show ?thesis by (auto simp: enter_def Let_def split: option.split)
qed

definition proc_ok :: "idem_proc \<Rightarrow> bool" where
  "proc_ok s \<longleftrightarrow> queued_ok s \<and> lids_ok s \<and> (\<forall>k. key_ok s k)"

lemma proc_ok_init: "proc_ok proc_init"
  by (simp add: proc_ok_def queued_ok_def lids_ok_def key_ok_def untouched_def proc_init_def phase_of_def fun_eq_iff)

lemma enter_key_ok:
  assumes "answered s k \<or> untouched s k \<and> ip_table s' k = Some (k, n)" and "lids_ok s"
    and "s' = s \<or> s' = s\<lparr>ip_table := (ip_table s)(k \<mapsto> (k, n)), ip_next := m\<rparr> \<or> s' = s\<lparr>ip_queue := q\<rparr>"
  shows "key_ok (enter t k (k, n) s') k"
  using assms(1)
proof
  assume a: "answered s k"
  then obtain c where c: "ip_store s k = Some c" by (auto simp: answered_def)
  let ?s = "s'\<lparr>ip_held := (ip_held s')((k, n) := True)\<rparr>"
  have "phase_of ?s k = phase_of s k" "ip_store ?s k = ip_store s k" "ip_runs ?s k = ip_runs s k"
    using assms(3) by auto
  moreover have "\<forall>lid. ip_table ?s k = Some lid \<longrightarrow> fst lid = k"
    using assms(2,3) by (auto simp: lids_ok_def)
  ultimately have "answered (leave t k (k, n) ?s) k"
    using a by (intro leave_answered) (auto simp: answered_def)
  moreover have "enter t k (k, n) s' = leave t k (k, n) ?s"
    using c assms(3) by (auto simp: enter_def Let_def)
  ultimately show ?thesis by (simp add: key_ok_def)
next
  assume u: "untouched s k \<and> ip_table s' k = Some (k, n)"
  then have s': "s' = s\<lparr>ip_table := (ip_table s)(k \<mapsto> (k, n)), ip_next := m\<rparr>"
    using assms(3) by (auto simp: untouched_def)
  have no: "ip_tasks s v \<noteq> Some (k, ph)" for v ph
    using u by (metis phase_of_Some option.distinct(1) untouched_def)
  have "enter t k (k, n) s' = s'\<lparr>ip_held := (ip_held s')((k, n) := True),
      ip_tasks := (ip_tasks s')(t \<mapsto> (k, Handling (k, n))), ip_runs := (ip_runs s')(k := ip_runs s' k + 1)\<rparr>"
    using u s' by (simp add: enter_def untouched_def)
  then have "in_progress (enter t k (k, n) s') k"
    using u s' no
    by (auto simp: in_progress_def untouched_def phase_of_Some phase_of_None intro!: exI [of _ t] exI [of _ n])
  then show ?thesis by (simp add: key_ok_def)
qed

lemma arrive_ok:
  assumes "proc_ok s" and "ip_tasks s t = None"
  shows "proc_ok (arrive t k s)"
proof -
  obtain lid s1 where l: "lock_for k s = (lid, s1)" by (cases "lock_for k s")
  have key: "fst lid = k" and s1: "ip_table s k = Some lid \<and> s1 = s \<or>
      ip_table s k = None \<and> s1 = s\<lparr>ip_table := (ip_table s)(k \<mapsto> lid), ip_next := ip_next s + 1\<rparr>"
    and table: "ip_table s1 k = Some lid"
    using l assms(1)
    by (cases lid; auto simp: lock_for_def proc_ok_def lids_ok_def Let_def split: option.splits)+
  obtain n where lid: "lid = (k, n)" using key by (cases lid) simp
  have q1: "queued_ok s1" and i1: "lids_ok s1" and t1: "ip_tasks s1 t = None"
    using assms s1 lid by (auto simp: proc_ok_def queued_ok_def lids_ok_def split: if_splits)
  have same1: "same_key k1 s s1" if "k1 \<noteq> k" for k1
    using s1 that by (auto simp: same_key_def)
  have ph: "phase_of s1 k1 t = None" for k1 using t1 by (simp add: phase_of_def)
  have k_ok: "key_ok s k" using assms(1) by (simp add: proc_ok_def)
  show ?thesis
  proof (cases "\<not> ip_held s1 lid \<and> ip_queue s1 lid = []")
    case True
    then have run: "arrive t k s = enter t k (k, n) s1" using l lid by (simp add: arrive_def)
    have "\<not> in_progress s k"
      using True s1 table lid by (auto simp: in_progress_def)
    then have "answered s k \<or> untouched s k \<and> ip_table s1 k = Some (k, n)"
      using k_ok table lid by (auto simp: key_ok_def)
    then have "key_ok (enter t k (k, n) s1) k"
      using assms(1) s1 lid by (intro enter_key_ok [of s k s1 n "ip_next s + 1"]) (auto simp: proc_ok_def)
    moreover have "key_ok (enter t k (k, n) s1) k1" if "k1 \<noteq> k" for k1
    proof -
      have "key_ok s1 k1" using key_ok_same [OF same1 [OF that]] assms(1) by (simp add: proc_ok_def)
      then show ?thesis using key_ok_same [OF enter_other [OF that ph q1]] by blast
    qed
    ultimately have "key_ok (enter t k (k, n) s1) k1" for k1 by (cases "k1 = k") blast+
    then show ?thesis
      using run queued_ok_enter [OF q1, of t k] t1 lids_ok_enter [OF i1] by (simp add: proc_ok_def)
  next
    case False
    let ?s = "s1\<lparr>ip_queue := (ip_queue s1)(lid := ip_queue s1 lid @ [t]), ip_tasks := (ip_tasks s1)(t \<mapsto> (k, Waiting lid))\<rparr>"
    have run: "arrive t k s = ?s" using l by (simp only: arrive_def prod.case if_not_P [OF False])
    have phases: "phase_of ?s k1 = (if k1 = k then (phase_of s k)(t \<mapsto> Waiting lid) else phase_of s k1)" for k1
      using s1 t1 by (auto simp: phase_of_def fun_eq_iff split: option.split)
    have "key_ok ?s k1" for k1
    proof (cases "k1 = k")
      case k1: False
      then have "same_key k1 s1 ?s" using lid phases [of k1] s1 by (auto simp: same_key_def)
      then show ?thesis
        using key_ok_same [OF same1 [OF k1]] key_ok_same assms(1) by (auto simp: proc_ok_def)
    next
      case True
      have "\<not> untouched s k"
        using False s1 lid by (auto simp: untouched_def)
      then consider "in_progress s k" | "answered s k" using k_ok by (auto simp: key_ok_def)
      then have "key_ok ?s k"
      proof cases
        case 1
        then obtain u m where u: "phase_of s k u = Some (Handling (k, m))" "ip_table s k = Some (k, m)" "ip_held s (k, m)"
          "\<forall>t'. t' \<noteq> u \<longrightarrow> phase_of s k t' = None \<or> phase_of s k t' = Some (Waiting (k, m))"
          by (auto simp: in_progress_def)
        then have "m = n" using s1 table lid by auto
        moreover have "u \<noteq> t" using u(1) assms(2) by (auto simp: phase_of_Some)
        ultimately have "in_progress ?s k"
          using 1 u s1 lid phases [of k] by (auto simp: in_progress_def intro!: exI [of _ u])
        then show ?thesis by (simp add: key_ok_def)
      next
        case 2
        then have "answered ?s k" using s1 lid phases [of k] by (auto simp: answered_def)
        then show ?thesis by (simp add: key_ok_def)
      qed
      then show ?thesis using True by simp
    qed
    moreover have "queued_ok ?s" using q1 t1 key lid by (fastforce simp: queued_ok_def)
    moreover have "lids_ok ?s" using i1 by (auto simp: lids_ok_def split: if_splits)
    ultimately show ?thesis using run by (simp add: proc_ok_def)
  qed
qed

lemma finish_ok:
  assumes "proc_ok s" and h: "ip_tasks s t = Some (k, Handling lid)"
  shows "proc_ok (finish t k lid (Stored c) s)"
proof -
  let ?s = "s\<lparr>ip_store := (ip_store s)(k \<mapsto> c)\<rparr>"
  have q: "queued_ok ?s" and i: "lids_ok ?s" using assms(1) by (simp_all add: proc_ok_def queued_ok_def lids_ok_def)
  obtain n where lid: "lid = (k, n)" using h assms(1) by (cases lid) (auto simp: proc_ok_def lids_ok_def)
  have run: "finish t k lid (Stored c) s = leave t k (k, n) ?s" by (simp add: finish_def lid)
  have ph: "phase_of s k t = Some (Handling lid)" using h by (simp add: phase_of_Some)
  then have "\<not> untouched s k" "\<not> answered s k" by (cases lid; auto simp: untouched_def answered_def)+
  then have "in_progress s k" using assms(1) by (auto simp: proc_ok_def key_ok_def)
  then obtain u m where u: "phase_of s k u = Some (Handling (k, m))" "ip_runs s k = 1" "ip_table s k = Some (k, m)"
    "\<forall>t'. t' \<noteq> u \<longrightarrow> phase_of s k t' = None \<or> phase_of s k t' = Some (Waiting (k, m))"
    by (auto simp: in_progress_def)
  have "u = t" using u(4) ph by (metis option.distinct(1) option.inject phase.distinct(3))
  have "answered (leave t k (k, n) ?s) k"
  proof (rule leave_answered)
    show "\<forall>w lid. w \<noteq> t \<longrightarrow> phase_of ?s k w \<noteq> Some (Handling lid)"
      using u(4) \<open>u = t\<close> by fastforce
    show "\<forall>w lid. phase_of ?s k w = Some (Woken lid) \<longrightarrow> fst lid = k"
      using u(1,4) \<open>u = t\<close> by (metis option.distinct(1) option.inject phase.distinct(1) phase.distinct(7) phase_of_frame(3))
  qed (use u in simp_all)
  moreover have "key_ok (leave t k (k, n) ?s) k1" if "k1 \<noteq> k" for k1
  proof -
    have "same_key k1 s ?s" using that by (simp add: same_key_def)
    then have "key_ok ?s k1" using key_ok_same assms(1) by (auto simp: proc_ok_def)
    moreover have "phase_of ?s k1 t = None" using h that by (simp add: phase_of_None)
    ultimately show ?thesis using key_ok_same [OF leave_other [OF that _ q]] by blast
  qed
  ultimately have "key_ok (leave t k (k, n) ?s) k1" for k1 by (cases "k1 = k") (auto simp: key_ok_def)
  moreover have "queued_ok (leave t k (k, n) ?s)" using queued_ok_leave [OF q, of t k "Handling lid"] h by simp
  ultimately show ?thesis
    using run lids_ok_leave [OF i] by (simp add: proc_ok_def)
qed

lemma wake_ok:
  assumes "proc_ok s" and h: "ip_tasks s t = Some (k, Woken lid)"
  shows "proc_ok (enter t k lid (s\<lparr>ip_queue := (ip_queue s)(lid := remove1 t (ip_queue s lid))\<rparr>))"
proof -
  let ?s = "s\<lparr>ip_queue := (ip_queue s)(lid := remove1 t (ip_queue s lid))\<rparr>"
  have q: "queued_ok ?s" and i: "lids_ok ?s"
    using assms(1) by (auto simp: proc_ok_def queued_ok_def lids_ok_def dest: notin_set_remove1 set_remove1_subset [THEN subsetD])
  obtain n where lid: "lid = (k, n)" using h assms(1) by (cases lid) (auto simp: proc_ok_def lids_ok_def)
  have "\<not> untouched s k" "\<not> in_progress s k"
  proof -
    have ph: "phase_of s k t = Some (Woken lid)" using h by (simp add: phase_of_Some)
    then show "\<not> untouched s k" by (auto simp: untouched_def)
    show "\<not> in_progress s k"
    proof
      assume "in_progress s k"
      then obtain u m where u: "phase_of s k u = Some (Handling (k, m))"
        "\<forall>t'. t' \<noteq> u \<longrightarrow> phase_of s k t' = None \<or> phase_of s k t' = Some (Waiting (k, m))"
        by (auto simp: in_progress_def)
      then show False using ph by (cases "t = u") auto
    qed
  qed
  then have "answered s k" using assms(1) by (auto simp: proc_ok_def key_ok_def)
  then have "key_ok (enter t k (k, n) ?s) k"
    using assms(1) lid by (intro enter_key_ok [of s k ?s n]) (auto simp: proc_ok_def)
  moreover have "key_ok (enter t k (k, n) ?s) k1" if "k1 \<noteq> k" for k1
  proof -
    have "same_key k1 s ?s" using that lid by (simp add: same_key_def)
    then have "key_ok ?s k1" using key_ok_same assms(1) by (auto simp: proc_ok_def)
    moreover have "phase_of ?s k1 t = None" using h that by (simp add: phase_of_None)
    ultimately show ?thesis using key_ok_same [OF enter_other [OF that _ q]] by blast
  qed
  ultimately have "key_ok (enter t k (k, n) ?s) k1" for k1 by (cases "k1 = k") blast+
  moreover have "queued_ok (enter t k (k, n) ?s)" using queued_ok_enter [OF q, of t k "Woken lid"] h by simp
  ultimately show ?thesis
    using lids_ok_enter [OF i] lid by (simp add: proc_ok_def)
qed

lemma reachable_ok:
  assumes "idem_reachable ok s" and "\<And>out. ok out \<Longrightarrow> out \<noteq> NotStored"
  shows "proc_ok s"
  using assms
proof (induction rule: idem_reachable.induct)
  case init
  show ?case by (rule proc_ok_init)
next
  case (arrives s t k)
  then show ?case by (simp add: arrive_ok)
next
  case (finishes s t k lid out)
  then obtain c where "out = Stored c" by (cases out) auto
  with finishes show ?case by (simp add: finish_ok)
next
  case (wakes s t k lid)
  then show ?case by (simp add: wake_ok)
qed

text \<open>
  C3. When every handler's response is stored, the concurrent requests of one process that share a
  cache key run the handler at most once between them: however they arrive, wait, wake and finish,
  the count of handler starts never exceeds one, at most one task is inside the handler, and once it
  has finished the key has its response and nobody enters again.
\<close>

theorem one_handler_per_key:
  assumes "idem_reachable (\<lambda>out. out \<noteq> NotStored) s"
  shows "ip_runs s k \<le> 1 \<and>
    (\<forall>t t' lid lid'. ip_tasks s t = Some (k, Handling lid) \<longrightarrow> ip_tasks s t' = Some (k, Handling lid') \<longrightarrow> t = t') \<and>
    (ip_store s k \<noteq> None \<longrightarrow> (\<forall>t lid. ip_tasks s t \<noteq> Some (k, Handling lid)))"
proof -
  have "key_ok s k" using reachable_ok [OF assms] by (simp add: proc_ok_def)
  then consider "untouched s k" | "in_progress s k" | "answered s k" by (auto simp: key_ok_def)
  then show ?thesis
  proof cases
    case 1
    then show ?thesis by (auto simp: untouched_def phase_of_Some [symmetric])
  next
    case 2
    then obtain u where u: "ip_runs s k = 1" "ip_store s k = None"
      "\<forall>t'. t' \<noteq> u \<longrightarrow> phase_of s k t' = None \<or> (\<exists>l. phase_of s k t' = Some (Waiting l))"
      by (auto simp: in_progress_def)
    have "t = u" if "ip_tasks s t = Some (k, Handling lid)" for t lid
      using u(3) that by (metis option.distinct(1) option.inject phase.distinct(3) phase_of_Some)
    then have "t = t'" if "ip_tasks s t = Some (k, Handling lid)" "ip_tasks s t' = Some (k, Handling lid')" for t t' lid lid'
      using that by metis
    then show ?thesis using u(1,2) by simp
  next
    case 3
    then show ?thesis by (auto simp: answered_def phase_of_Some)
  qed
qed

definition two_requests :: idem_proc where
  "two_requests = arrive 1 ''k'' (arrive 0 ''k'' proc_init)"

lemma two_requests_reachable: "idem_reachable ok two_requests"
proof -
  have "idem_reachable ok (arrive 0 ''k'' proc_init)"
    by (rule idem_reachable.arrives [OF idem_reachable.init]) (simp add: proc_init_def)
  then show ?thesis
    unfolding two_requests_def
    by (rule idem_reachable.arrives) (simp add: arrive_def lock_for_def enter_def proc_init_def Let_def)
qed

theorem one_handler_per_key_witness: "ip_runs two_requests ''k'' \<le> 1"
  using one_handler_per_key [OF two_requests_reachable, of "''k''"] by simp

text \<open>
  That guarantee needs the response to be stored. When it is not (a server error, an unbounded
  stream, an exception), the task that leaves deletes the lock from the table while a waiter of it
  has been woken but has not run; the waiter then handles the request under the old lock while a new
  arrival handles it under a fresh one, both inside the handler at the same time.
\<close>

theorem unstored_response_admits_two_handlers:
  "\<exists>s t t' lid lid'. idem_reachable (\<lambda>_. True) s \<and> t \<noteq> t' \<and>
     ip_tasks s t = Some (''k'', Handling lid) \<and> ip_tasks s t' = Some (''k'', Handling lid') \<and> ip_runs s ''k'' = 3"
proof -
  let ?l = "(''k'', 0)"
  have t0: "ip_tasks two_requests 0 = Some (''k'', Handling ?l)"
    by (simp add: two_requests_def arrive_def lock_for_def enter_def proc_init_def Let_def)
  let ?s1 = "finish 0 ''k'' ?l NotStored two_requests"
  have r1: "idem_reachable (\<lambda>_. True) ?s1"
    by (rule idem_reachable.finishes [OF two_requests_reachable t0]) simp
  have t1: "ip_tasks ?s1 1 = Some (''k'', Woken ?l)"
    by (simp add: two_requests_def finish_def arrive_def lock_for_def enter_def proc_init_def Let_def)
  let ?s2 = "enter 1 ''k'' ?l (?s1\<lparr>ip_queue := (ip_queue ?s1)(?l := remove1 1 (ip_queue ?s1 ?l))\<rparr>)"
  have r2: "idem_reachable (\<lambda>_. True) ?s2" by (rule idem_reachable.wakes [OF r1 t1])
  have free: "ip_tasks ?s2 2 = None"
    by (simp add: two_requests_def finish_def arrive_def lock_for_def enter_def proc_init_def Let_def)
  let ?s3 = "arrive 2 ''k'' ?s2"
  have r3: "idem_reachable (\<lambda>_. True) ?s3" by (rule idem_reachable.arrives [OF r2 free])
  have "ip_tasks ?s3 1 = Some (''k'', Handling ?l)" "ip_tasks ?s3 2 = Some (''k'', Handling (''k'', 1))"
    "ip_runs ?s3 ''k'' = 3"
    by (simp_all add: two_requests_def finish_def arrive_def lock_for_def enter_def proc_init_def Let_def)
  with r3 show ?thesis by (intro exI [of _ ?s3] exI [of _ 1] exI [of _ 2]) auto
qed

subsection \<open>Replaying a response\<close>

text \<open>What the middleware relies on in a store; \<open>age d\<close> lets \<open>d\<close> seconds pass.\<close>

locale idem_store =
  fixes get :: "'s idem_get" and put :: "'s idem_set" and age :: "real \<Rightarrow> 's \<Rightarrow> 's"
  assumes get_put_live: "0 \<le> d \<Longrightarrow> d \<le> of_int ttl \<Longrightarrow> fst (get k (age d (put k c ttl s))) = Some c"
    and get_put_expired: "of_int ttl < d \<Longrightarrow> fst (get k (age d (put k c ttl s))) = None"
    and get_put_other: "k' \<noteq> k \<Longrightarrow> fst (get k' (put k c ttl s)) = fst (get k' s)"
begin

lemma first_request_stores:
  assumes "idem_key_of sha m req = Some k" and "fst (get k (fst st)) = None"
    and "call_next req (snd st) = (res, w)" and "\<not> is_unbounded_stream res" and "is_cacheable m res"
    and "idem_dispatch get put sha m call_next req st = (out, st')"
  shows "out = Built (rebuilt res)"
    and "st' = (put k (to_cache res (request_fingerprint sha req)) (im_ttl_seconds m) (snd (get k (fst st))), w)"
  using assms
  by (auto simp: idem_dispatch_def dispatch_locked_def split: prod.splits option.splits)

lemma retry_outcome:
  assumes "idem_key_of sha m req = Some k" and "fst (get k (fst st)) = None"
    and "call_next req (snd st) = (res, w)" and "\<not> is_unbounded_stream res" and "is_cacheable m res"
    and "idem_dispatch get put sha m call_next req st = (out, st')"
    and "idem_key_of sha m req' = Some k" and "0 \<le> d"
    and "idem_dispatch get put sha m call_next' req' (age d (fst st'), w') = (out', st'')"
  shows "d \<le> of_int (im_ttl_seconds m) \<Longrightarrow> snd st'' = w' \<and>
      out' = (if request_fingerprint sha req' = request_fingerprint sha req
              then Built (replayed (to_cache res (request_fingerprint sha req))) else KeyReused)"
    and "of_int (im_ttl_seconds m) < d \<Longrightarrow> snd st'' = snd (call_next' req' w')"
proof -
  let ?c = "to_cache res (request_fingerprint sha req)"
  let ?s = "age d (put k ?c (im_ttl_seconds m) (snd (get k (fst st))))"
  have st': "fst st' = put k ?c (im_ttl_seconds m) (snd (get k (fst st)))"
    using first_request_stores(2) [OF assms(1-6)] by simp
  have fp: "cr_fingerprint ?c = request_fingerprint sha req" by (simp add: to_cache_def)
  show "snd st'' = w' \<and>
      out' = (if request_fingerprint sha req' = request_fingerprint sha req
              then Built (replayed ?c) else KeyReused)"
    if "d \<le> of_int (im_ttl_seconds m)"
  proof -
    have "fst (get k ?s) = Some ?c" using get_put_live [OF assms(8) that] by simp
    then obtain s2 where "get k ?s = (Some ?c, s2)" by (metis prod.collapse)
    then show ?thesis
      using assms(7,9) st' fp by (auto simp: idem_dispatch_def dispatch_locked_def split: if_splits)
  qed
  show "snd st'' = snd (call_next' req' w')" if "of_int (im_ttl_seconds m) < d"
  proof -
    have "fst (get k ?s) = None" using get_put_expired [OF that] by simp
    then obtain s2 where "get k ?s = (None, s2)" by (metis prod.collapse)
    then show ?thesis
      using assms(7,9) st'
      by (auto simp: idem_dispatch_def dispatch_locked_def split: prod.splits if_splits)
  qed
qed

end

definition memory_age :: "real \<Rightarrow> memory_idem \<Rightarrow> memory_idem" where
  "memory_age d s = s\<lparr>mi_now := mi_now s + d\<rparr>"

interpretation mem_idem: idem_store memory_idem_get memory_idem_set memory_age
  by unfold_locales (auto simp: memory_idem_get_def memory_idem_set_def memory_age_def split: option.splits)

definition sample_mutation :: mutation where
  "sample_mutation = \<lparr>req_path = ''/pay'', req_headers = [(''idempotency-key'', ''k1''), (''authorization'', ''t'')],
     req_client = None, mu_method = ''POST'', mu_query = [], mu_body = ''100''\<rparr>"

definition sample_idem :: IdempotencyMiddleware where
  "sample_idem = \<lparr>im_ttl_seconds = 60, im_header_name = ''idempotency-key'', im_principal_resolver = Some (\<lambda>_. ''alice''),
     im_cache_server_errors = False, im_credential_headers = DEFAULT_CREDENTIAL_HEADERS, im_allow_anonymous = False\<rparr>"

definition paying_handler :: "nat mutation_handler" where
  "paying_handler req w =
     (\<lparr>hr_status = 201, hr_raw_headers = [(''content-length'', ''2''), (''set-cookie'', ''a=1''), (''set-cookie'', ''b=2'')],
       hr_chunks = [''ok''], hr_media_type = None\<rparr>, w + 1)"

lemma header_get_same: "header_get ((k, v) # hs) k = Some v"
  by simp

lemma sample_idem_key: "idem_key_of sha sample_idem sample_mutation = Some ''alice:POST:/pay:k1''"
proof -
  have "header_get (req_headers sample_mutation) (im_header_name sample_idem) = Some ''k1''"
    by (simp add: sample_mutation_def sample_idem_def)
  then show ?thesis
    by (simp add: idem_key_of_def MUTATING_METHODS_def truthy_def idem_principal_def)
       (simp add: sample_mutation_def sample_idem_def cache_key_def)
qed

lemma sample_not_stream: "\<not> is_unbounded_stream (fst (paying_handler req w))"
proof -
  have "lower ''content-length'' = ''content-length''" "lower ''content-type'' = ''content-type''" "lower ''set-cookie'' = ''set-cookie''"
    by code_simp+
  then show ?thesis
    by (simp add: is_unbounded_stream_def response_media_type_def UNBUFFERED_MEDIA_TYPES_def paying_handler_def
        strip_def lower_def)
qed

text \<open>
  C8. A retry is replayed, not executed. After a request whose response was stored, any request of the
  same cache key within the lifetime of the entry leaves the application untouched: the same method,
  path, query and body get the stored status, body and headers back, a different request gets the 422
  of a reused key. Past the lifetime the handler runs again.
\<close>

theorem retry_is_replayed:
  assumes "idem_key_of sha m req = Some k" and "fst (memory_idem_get k (fst st)) = None"
    and "call_next req (snd st) = (res, w)" and "\<not> is_unbounded_stream res" and "is_cacheable m res"
    and "idem_dispatch memory_idem_get memory_idem_set sha m call_next req st = (out, st')"
    and "idem_key_of sha m req' = Some k" and "0 \<le> d"
    and "idem_dispatch memory_idem_get memory_idem_set sha m call_next' req' (memory_age d (fst st'), w') = (out', st'')"
  shows "(d \<le> of_int (im_ttl_seconds m) \<longrightarrow> snd st'' = w' \<and>
      out' = (if request_fingerprint sha req' = request_fingerprint sha req
              then Built (replayed (to_cache res (request_fingerprint sha req))) else KeyReused)) \<and>
    (of_int (im_ttl_seconds m) < d \<longrightarrow> snd st'' = snd (call_next' req' w'))"
  using mem_idem.retry_outcome [OF assms] by blast

theorem retry_is_replayed_witness:
  "\<exists>out st' out' st''. idem_dispatch memory_idem_get memory_idem_set (\<lambda>s. s) sample_idem paying_handler sample_mutation
      (\<lparr>mi_now = 0, mi_store = (\<lambda>_. None)\<rparr>, 0) = (out, st') \<and>
    idem_dispatch memory_idem_get memory_idem_set (\<lambda>s. s) sample_idem paying_handler sample_mutation
      (memory_age 30 (fst st'), 1) = (out', st'') \<and> snd st'' = 1"
proof -
  let ?d = "idem_dispatch memory_idem_get memory_idem_set (\<lambda>s. s) sample_idem paying_handler sample_mutation"
  obtain out st' where one: "?d (\<lparr>mi_now = 0, mi_store = (\<lambda>_. None)\<rparr>, 0) = (out, st')" by (metis surj_pair)
  obtain out' st'' where two: "?d (memory_age 30 (fst st'), 1) = (out', st'')" by (metis surj_pair)
  have "is_cacheable sample_idem (fst (paying_handler sample_mutation 0))" "im_ttl_seconds sample_idem = 60"
    by (simp_all add: is_cacheable_def sample_idem_def paying_handler_def)
  moreover have "fst (memory_idem_get ''alice:POST:/pay:k1'' \<lparr>mi_now = 0, mi_store = (\<lambda>_. None)\<rparr>) = None"
    by (simp add: memory_idem_get_def)
  moreover have "paying_handler sample_mutation 0 = (fst (paying_handler sample_mutation 0), 1)"
    by (simp add: paying_handler_def)
  ultimately have "snd st'' = 1"
    using retry_is_replayed [OF sample_idem_key _ _ sample_not_stream _ one sample_idem_key _ two,
        where w = 1 and req4 = sample_mutation and w4 = 0] by simp
  with one two show ?thesis by blast
qed

subsection \<open>Keys and fingerprints\<close>

lemma char_of_inj: "char_of (a mod 256 :: nat) = char_of (b mod 256) \<Longrightarrow> a mod 256 = b mod 256"
  by (metis char_of_eq_iff of_char_of mod_mod_trivial)

lemma digits_determine:
  fixes a b :: nat
  assumes "a < 256 ^ k" and "b < 256 ^ k" and "\<forall>i < k. a div 256 ^ i mod 256 = b div 256 ^ i mod 256"
  shows "a = b"
  using assms
proof (induction k arbitrary: a b)
  case 0
  then show ?case by simp
next
  case (Suc k)
  have "a div 256 < 256 ^ k" "b div 256 < 256 ^ k" using Suc.prems(1,2) by auto
  moreover have "\<forall>i < k. a div 256 div 256 ^ i mod 256 = b div 256 div 256 ^ i mod 256"
    using Suc.prems(3) by (metis Suc_mono div_mult2_eq power_Suc)
  ultimately have "a div 256 = b div 256" by (rule Suc.IH)
  moreover have "a mod 256 = b mod 256" using Suc.prems(3) by (metis div_by_1 power_0 zero_less_Suc)
  ultimately show ?case by (metis div_mult_mod_eq)
qed

lemma to_bytes8_inj:
  assumes "to_bytes8 a = to_bytes8 b" and "a < 256 ^ 8" and "b < 256 ^ 8"
  shows "a = b"
proof (rule digits_determine [OF assms(2,3)])
  have digits: "\<forall>i \<in> set [7, 6, 5, 4, 3, 2, 1, 0 :: nat].
      (char_of (a div 256 ^ i mod 256) :: char) = char_of (b div 256 ^ i mod 256)"
    using assms(1) unfolding to_bytes8_def map_eq_conv .
  show "\<forall>i < 8. a div 256 ^ i mod 256 = b div 256 ^ i mod 256"
  proof (intro allI impI)
    fix i :: nat assume "i < 8"
    then have "i = 0 \<or> i = 1 \<or> i = 2 \<or> i = 3 \<or> i = 4 \<or> i = 5 \<or> i = 6 \<or> i = 7" by arith
    then have "i \<in> set [7, 6, 5, 4, 3, 2, 1, 0]" by (elim disjE) simp_all
    from bspec [OF digits this] show "a div 256 ^ i mod 256 = b div 256 ^ i mod 256" by (rule char_of_inj)
  qed
qed

lemma length_to_bytes8 [simp]: "length (to_bytes8 n) = 8"
  by (simp add: to_bytes8_def)

lemma part_prefix_inj:
  assumes "to_bytes8 (length p) @ p @ xs = to_bytes8 (length q) @ q @ ys"
    and "length p < 256 ^ 8" and "length q < 256 ^ 8"
  shows "p = q \<and> xs = ys"
proof -
  have "to_bytes8 (length p) = to_bytes8 (length q)" and rest: "p @ xs = q @ ys"
    using assms(1) append_eq_append_conv [of "to_bytes8 (length p)" "to_bytes8 (length q)"] by simp_all
  then have "length p = length q" using to_bytes8_inj assms(2,3) by blast
  with rest show ?thesis by (simp add: append_eq_append_conv)
qed

text \<open>
  The fingerprint of a request binds exactly its method, path, query and body: the digested bytes
  of two requests are equal only if all four are, however the parts could be cut differently, so with
  a collision-free digest only the same request is replayed.
\<close>

theorem fingerprint_binds_request:
  assumes "\<forall>part \<in> {mu_method req, req_path req, mu_query req, mu_body req,
      mu_method req', req_path req', mu_query req', mu_body req'}. length part < 256 ^ 8"
    and "inj sha"
  shows "request_fingerprint sha req = request_fingerprint sha req' \<longleftrightarrow>
    mu_method req = mu_method req' \<and> req_path req = req_path req' \<and>
    mu_query req = mu_query req' \<and> mu_body req = mu_body req'"
proof
  assume "request_fingerprint sha req = request_fingerprint sha req'"
  then have eq: "fingerprint_input req = fingerprint_input req'"
    using assms(2) by (simp add: request_fingerprint_def inj_eq)
  let ?rest = "\<lambda>ps. concat (map (\<lambda>part. to_bytes8 (length part) @ part) ps)"
  have cons: "p = q \<and> ?rest ps = ?rest qs" if "?rest (p # ps) = ?rest (q # qs)"
      "length p < 256 ^ 8" "length q < 256 ^ 8" for p q :: string and ps qs
    using part_prefix_inj [of p "?rest ps" q "?rest qs"] that by simp
  from cons [OF eq [unfolded fingerprint_input_def]] assms(1)
  have one: "mu_method req = mu_method req'" "?rest [req_path req, mu_query req, mu_body req] = ?rest [req_path req', mu_query req', mu_body req']"
    by simp_all
  from cons [OF one(2)] assms(1)
  have two: "req_path req = req_path req'" "?rest [mu_query req, mu_body req] = ?rest [mu_query req', mu_body req']"
    by simp_all
  from cons [OF two(2)] assms(1)
  have three: "mu_query req = mu_query req'" "?rest [mu_body req] = ?rest [mu_body req']"
    by simp_all
  from cons [OF three(2)] assms(1) have "mu_body req = mu_body req'" by simp
  with one(1) two(1) three(1) show "mu_method req = mu_method req' \<and> req_path req = req_path req' \<and>
    mu_query req = mu_query req' \<and> mu_body req = mu_body req'" by blast
next
  assume "mu_method req = mu_method req' \<and> req_path req = req_path req' \<and>
    mu_query req = mu_query req' \<and> mu_body req = mu_body req'"
  then show "request_fingerprint sha req = request_fingerprint sha req'"
    by (simp add: request_fingerprint_def fingerprint_input_def)
qed

theorem fingerprint_binds_request_witness:
  "request_fingerprint (\<lambda>s. s) sample_mutation \<noteq> request_fingerprint (\<lambda>s. s) (sample_mutation\<lparr>mu_body := ''900''\<rparr>)"
proof -
  have "inj (\<lambda>s :: string. s)" by simp
  then show ?thesis
    using fingerprint_binds_request [of sample_mutation "sample_mutation\<lparr>mu_body := ''900''\<rparr>" "\<lambda>s. s"]
    by (simp add: sample_mutation_def)
qed

lemma colon_split:
  assumes "CHR '':'' \<notin> set a" and "CHR '':'' \<notin> set b" and "a @ '':'' @ xs = b @ '':'' @ ys"
  shows "a = b"
  using assms
proof (induction a arbitrary: b)
  case Nil
  then show ?case by (cases b) auto
next
  case (Cons c a)
  then show ?case by (cases b) auto
qed

text \<open>
  Responses are never shared between callers. With identities that contain no colon, such as the hex
  digest of the credentials the middleware takes by default, requests of different callers get
  different cache keys, whatever idempotency keys and paths they choose, and a request without an
  identity gets none unless anonymous caching was asked for.
\<close>

theorem callers_are_isolated:
  assumes "CHR '':'' \<notin> set (idem_principal sha m req)" and "CHR '':'' \<notin> set (idem_principal sha m req')"
    and "idem_principal sha m req \<noteq> idem_principal sha m req'"
    and "idem_key_of sha m req = Some k" and "idem_key_of sha m req' = Some k'"
  shows "k \<noteq> k' \<and> (idem_principal sha m req = [] \<longrightarrow> im_allow_anonymous m)"
proof
  obtain i i' where "k = cache_key (idem_principal sha m req) req i"
    "k' = cache_key (idem_principal sha m req') req' i'"
    using assms(4,5) by (auto simp: idem_key_of_def Let_def split: if_splits)
  then show "k \<noteq> k'"
    using colon_split [OF assms(1,2)] assms(3) by (auto simp: cache_key_def)
  show "idem_principal sha m req = [] \<longrightarrow> im_allow_anonymous m"
    using assms(4) by (auto simp: idem_key_of_def Let_def split: if_splits)
qed

definition by_client :: IdempotencyMiddleware where
  "by_client = sample_idem\<lparr>im_principal_resolver := Some (\<lambda>req. case req_client req of Some c \<Rightarrow> c | None \<Rightarrow> ''anyone'')\<rparr>"

theorem callers_are_isolated_witness:
  "idem_key_of (\<lambda>s. s) by_client sample_mutation \<noteq> idem_key_of (\<lambda>s. s) by_client (sample_mutation\<lparr>req_client := Some ''bob''\<rparr>)"
proof -
  let ?bob = "sample_mutation\<lparr>req_client := Some ''bob''\<rparr>"
  have names: "idem_principal (\<lambda>s. s) by_client sample_mutation = ''anyone''"
    "idem_principal (\<lambda>s. s) by_client ?bob = ''bob''"
    by (simp_all add: idem_principal_def by_client_def sample_mutation_def)
  have "header_get (req_headers sample_mutation) (im_header_name by_client) = Some ''k1''"
    "mu_method sample_mutation = ''POST''"
    by (simp_all add: sample_mutation_def by_client_def sample_idem_def)
  then have k: "idem_key_of (\<lambda>s. s) by_client sample_mutation = Some (cache_key ''anyone'' sample_mutation ''k1'')"
    "idem_key_of (\<lambda>s. s) by_client ?bob = Some (cache_key ''bob'' ?bob ''k1'')"
    using names by (simp_all add: idem_key_of_def MUTATING_METHODS_def truthy_def Let_def)
  show ?thesis using callers_are_isolated [OF _ _ _ k] names k by simp
qed

subsection \<open>The headers of a rebuilt response\<close>

lemma fold_dict_set:
  "map_of (fold (\<lambda>(k, v). dict_set k v) kvs d) = map_of d ++ map_of (rev kvs)"
  "distinct (map fst d) \<Longrightarrow> distinct (map fst (fold (\<lambda>(k, v). dict_set k v) kvs d))"
  by (induction kvs arbitrary: d) (auto simp: map_of_dict_set distinct_dict_set map_add_upd_left)

text \<open>
  The middleware rebuilds the response of every request it takes on from a dict of its headers, so a
  header the handler sent several times reaches the client once, with the last value: of two
  \<^verbatim>\<open>Set-Cookie\<close> headers on a first, unreplayed response the first cookie is lost.
\<close>

theorem repeated_headers_collapse:
  "distinct (map fst (br_headers (rebuilt res))) \<and>
   map_of (br_headers (rebuilt res)) = map_of (rev (hr_raw_headers res)) \<and>
   (fst (dispatch_locked memory_idem_get memory_idem_set sample_idem paying_handler ''k'' fp sample_mutation
      (\<lparr>mi_now = 0, mi_store = (\<lambda>_. None)\<rparr>, 0))
    = Built \<lparr>br_content = ''ok'', br_status = 201,
        br_headers = [(''content-length'', ''2''), (''set-cookie'', ''b=2'')], br_media_type = None\<rparr>)"
proof -
  have "dispatch_locked memory_idem_get memory_idem_set sample_idem paying_handler ''k'' fp sample_mutation
      (\<lparr>mi_now = 0, mi_store = (\<lambda>_. None)\<rparr>, 0) =
    (Built (rebuilt (fst (paying_handler sample_mutation 0))), snd (dispatch_locked memory_idem_get memory_idem_set
      sample_idem paying_handler ''k'' fp sample_mutation (\<lparr>mi_now = 0, mi_store = (\<lambda>_. None)\<rparr>, 0)))"
    using sample_not_stream [of sample_mutation 0]
    by (cases "paying_handler sample_mutation 0") (simp add: dispatch_locked_def memory_idem_get_def)
  then have "fst (dispatch_locked memory_idem_get memory_idem_set sample_idem paying_handler ''k'' fp sample_mutation
      (\<lparr>mi_now = 0, mi_store = (\<lambda>_. None)\<rparr>, 0)) = Built (rebuilt (fst (paying_handler sample_mutation 0)))"
    by (metis fst_conv)
  then show ?thesis
    by (simp add: rebuilt_def dict_of_def paying_handler_def fold_dict_set)
qed

end
