(* ===== verification/Permissions.thy ===== *)
theory Permissions
  imports Py_Text
begin

text \<open>
  \<^verbatim>\<open>authz/permissions.py\<close>: the registry of object-level rules and the resolution of a permission.
  Users and objects are of any type; a rule may raise. Awaiting an asynchronous rule or resolver
  gives its result.
\<close>

type_synonym ('u, 'o, 'e) permission_check = "'u \<Rightarrow> 'o option \<Rightarrow> 'e + bool"

record ('u, 'o, 'e) registry =
  pr_is_superuser :: "'u \<Rightarrow> bool"
  pr_resolver :: "'u \<Rightarrow> string list"
  pr_rules :: "(string \<times> ('u, 'o, 'e) permission_check list) list"

text \<open>The defaults read an attribute of the user, \<open>None\<close> when it is missing.\<close>

definition default_superuser :: "('u \<Rightarrow> bool option) \<Rightarrow> 'u \<Rightarrow> bool" where
  "default_superuser is_admin user = (case is_admin user of None \<Rightarrow> False | Some b \<Rightarrow> b)"

definition default_resolver :: "('u \<Rightarrow> string list option) \<Rightarrow> 'u \<Rightarrow> string list" where
  "default_resolver permissions user = (case permissions user of None \<Rightarrow> [] | Some ps \<Rightarrow> ps)"

definition registry_init :: "('u \<Rightarrow> bool) \<Rightarrow> ('u \<Rightarrow> string list) \<Rightarrow> ('u, 'o, 'e) registry" where
  "registry_init is_superuser permission_resolver =
     \<lparr>pr_is_superuser = is_superuser, pr_resolver = permission_resolver, pr_rules = []\<rparr>"

definition perm_matches :: "string \<Rightarrow> string \<Rightarrow> bool" where
  "perm_matches pattern permission =
     (if pattern = ''*'' \<or> pattern = permission then True
      else if endswith pattern ''.*'' then startswith permission (butlast pattern)
      else False)"

text \<open>\<^verbatim>\<open>setdefault(permission, []).append(check)\<close>, in the order of first registration.\<close>

definition register ::
  "string \<Rightarrow> ('u, 'o, 'e) permission_check \<Rightarrow> ('u, 'o, 'e) registry \<Rightarrow> ('u, 'o, 'e) registry" where
  "register permission check reg =
     reg\<lparr>pr_rules := dict_set permission
       ((case map_of (pr_rules reg) permission of Some cs \<Rightarrow> cs | None \<Rightarrow> []) @ [check]) (pr_rules reg)\<rparr>"

definition clear_rules :: "('u, 'o, 'e) registry \<Rightarrow> ('u, 'o, 'e) registry" where
  "clear_rules reg = reg\<lparr>pr_rules := []\<rparr>"

definition rules_for :: "('u, 'o, 'e) registry \<Rightarrow> string \<Rightarrow> ('u, 'o, 'e) permission_check list" where
  "rules_for reg permission =
     concat (map snd (filter (\<lambda>(pattern, _). perm_matches pattern permission) (pr_rules reg)))"

fun any_grants :: "('u, 'o, 'e) permission_check list \<Rightarrow> 'u \<Rightarrow> 'o option \<Rightarrow> 'e + bool" where
  "any_grants [] user obj = Inr False"
| "any_grants (check # checks) user obj =
     (case check user obj of
        Inl e \<Rightarrow> Inl e
      | Inr granted \<Rightarrow> if granted then Inr True else any_grants checks user obj)"

definition has_perm :: "('u, 'o, 'e) registry \<Rightarrow> 'u option \<Rightarrow> string \<Rightarrow> 'o option \<Rightarrow> 'e + bool" where
  "has_perm reg user permission obj =
     (case user of
        None \<Rightarrow> Inr False
      | Some u \<Rightarrow>
          if pr_is_superuser reg u then Inr True
          else
            let rules = rules_for reg permission
            in if rules \<noteq> []
               then (case any_grants rules u obj of
                   Inl e \<Rightarrow> Inl e
                 | Inr True \<Rightarrow> Inr True
                 | Inr False \<Rightarrow>
                     if obj \<noteq> None then Inr False
                     else Inr (permission \<in> set (pr_resolver reg u)))
               else Inr (permission \<in> set (pr_resolver reg u)))"

datatype 'e perm_error = RuleRaised 'e | Forbidden string

definition check_permission ::
  "('u, 'o, 'e) registry \<Rightarrow> 'u option \<Rightarrow> string \<Rightarrow> 'o option \<Rightarrow> string option \<Rightarrow> 'e perm_error + unit" where
  "check_permission reg user permission obj message =
     (case has_perm reg user permission obj of
        Inl e \<Rightarrow> Inl (RuleRaised e)
      | Inr granted \<Rightarrow>
          if granted then Inr ()
          else Inl (Forbidden (case message of
              Some m \<Rightarrow> if m = [] then ''Permission denied: '' @ permission else m
            | None \<Rightarrow> ''Permission denied: '' @ permission)))"

subsection \<open>The decision\<close>

lemma perm_matches_iff:
  "perm_matches pattern permission \<longleftrightarrow>
     pattern = ''*'' \<or> pattern = permission \<or> (\<exists>p rest. pattern = p @ ''.*'' \<and> permission = p @ ''.'' @ rest)"
proof -
  have "endswith pattern ''.*'' \<and> startswith permission (butlast pattern) \<longleftrightarrow>
      (\<exists>p rest. pattern = p @ ''.*'' \<and> permission = p @ ''.'' @ rest)"
    by (auto simp: endswith_iff startswith_iff butlast_append)
  then show ?thesis by (auto simp: perm_matches_def)
qed

lemma rules_for_iff:
  "check \<in> set (rules_for reg permission) \<longleftrightarrow>
     (\<exists>pattern checks. (pattern, checks) \<in> set (pr_rules reg) \<and> perm_matches pattern permission \<and> check \<in> set checks)"
  by (auto simp: rules_for_def)

lemma any_grants_pure:
  assumes "\<forall>check \<in> set checks. \<exists>b. check u obj = Inr b"
  shows "any_grants checks u obj = Inr (\<exists>check \<in> set checks. check u obj = Inr True)"
  using assms by (induction checks) auto

lemma register_rules:
  assumes "distinct (map fst (pr_rules reg))"
  shows "check' \<in> set (rules_for (register permission' check reg) permission) \<longleftrightarrow>
    check' \<in> set (rules_for reg permission) \<or> check' = check \<and> perm_matches permission' permission"
proof -
  have d: "distinct (map fst (pr_rules (register permission' check reg)))"
    using assms by (simp add: register_def distinct_dict_set)
  have m: "map_of (pr_rules (register permission' check reg)) = (map_of (pr_rules reg))(permission' \<mapsto>
      (case map_of (pr_rules reg) permission' of Some cs \<Rightarrow> cs | None \<Rightarrow> []) @ [check])"
    by (simp add: register_def map_of_dict_set)
  have key: "check' \<in> set (rules_for reg permission) \<longleftrightarrow>
      (\<exists>pattern checks. map_of (pr_rules reg) pattern = Some checks \<and> perm_matches pattern permission \<and> check' \<in> set checks)"
    for check' using assms by (auto simp: rules_for_iff)
  have "check' \<in> set (rules_for (register permission' check reg) permission) \<longleftrightarrow>
      (\<exists>pattern checks. map_of (pr_rules (register permission' check reg)) pattern = Some checks \<and>
         perm_matches pattern permission \<and> check' \<in> set checks)"
    using d by (auto simp: rules_for_iff)
  also have "\<dots> \<longleftrightarrow> check' \<in> set (rules_for reg permission) \<or> check' = check \<and> perm_matches permission' permission"
    unfolding m key by (auto split: option.splits if_splits)
  finally show ?thesis .
qed

definition owner_rule :: "(string, string, unit) permission_check" where
  "owner_rule user obj = Inr (obj = Some user)"

definition sample_registry :: "(string, string, unit) registry" where
  "sample_registry = register ''order.*'' owner_rule
     (registry_init (\<lambda>user. user = ''root'') (\<lambda>user. [''order.delete'']))"

text \<open>
  A user holds a permission exactly if the user is a superuser, or some rule registered under a
  matching pattern (the same string, \<^verbatim>\<open>*\<close>, or a dotted prefix ending in \<^verbatim>\<open>.*\<close>) grants it, or the static
  set holds it and either no object was named or no rule matches. So for a concrete object the rules
  have the last word over the token's capability, the order of registration does not matter, and
  nobody but an authenticated user holds anything; \<^verbatim>\<open>check_permission\<close> raises in exactly the other cases.
\<close>

theorem has_perm_decision:
  assumes "\<forall>check \<in> set (rules_for reg permission). \<exists>b. check u obj = Inr b"
  shows "has_perm reg (Some u) permission obj =
      Inr (pr_is_superuser reg u \<or>
        (\<exists>pattern checks check. (pattern, checks) \<in> set (pr_rules reg) \<and> check \<in> set checks \<and>
           (pattern = ''*'' \<or> pattern = permission \<or> (\<exists>p rest. pattern = p @ ''.*'' \<and> permission = p @ ''.'' @ rest)) \<and>
           check u obj = Inr True) \<or>
        permission \<in> set (pr_resolver reg u) \<and> (obj = None \<or> rules_for reg permission = [])) \<and>
    has_perm reg None permission obj = Inr False \<and>
    (check_permission reg (Some u) permission obj message = Inr () \<longleftrightarrow>
      has_perm reg (Some u) permission obj = Inr True)"
proof -
  let ?any = "\<exists>check \<in> set (rules_for reg permission). check u obj = Inr True"
  have any: "?any \<longleftrightarrow> (\<exists>pattern checks check. (pattern, checks) \<in> set (pr_rules reg) \<and> check \<in> set checks \<and>
      (pattern = ''*'' \<or> pattern = permission \<or> (\<exists>p rest. pattern = p @ ''.*'' \<and> permission = p @ ''.'' @ rest)) \<and>
      check u obj = Inr True)"
    unfolding rules_for_iff perm_matches_iff Bex_def by blast
  have "has_perm reg (Some u) permission obj = Inr (pr_is_superuser reg u \<or> ?any \<or>
      permission \<in> set (pr_resolver reg u) \<and> (obj = None \<or> rules_for reg permission = []))"
    using any_grants_pure [OF assms]
    by (cases "rules_for reg permission = []"; cases ?any) (simp_all add: has_perm_def Let_def)
  then show ?thesis
    unfolding any by (simp add: check_permission_def has_perm_def split: sum.split)
qed

theorem has_perm_decision_witness:
  "has_perm sample_registry (Some ''ana'') ''order.delete'' (Some ''bob'') = Inr False"
proof -
  have rules: "pr_rules sample_registry = [(''order.*'', [owner_rule])]"
    by (simp add: sample_registry_def register_def registry_init_def)
  have rs: "rules_for sample_registry ''order.delete'' = [owner_rule]"
    by (simp add: rules_for_def rules perm_matches_def endswith_def startswith_def)
  have pure: "\<forall>check \<in> set (rules_for sample_registry ''order.delete''). \<exists>b. check ''ana'' (Some ''bob'') = Inr b"
    unfolding rs by (auto simp: owner_rule_def)
  have "\<not> pr_is_superuser sample_registry ''ana''"
    by (simp add: sample_registry_def register_def registry_init_def)
  then show ?thesis
    using has_perm_decision [OF pure] rs rules by (simp add: owner_rule_def)
qed

end
