(* ===== verification/Redis.thy ===== *)
theory Redis
  imports Prelude "HOL-Library.List_Lexorder" "HOL-Library.Char_ord"
begin

text \<open>
  The Redis commands the library sends, as a client that is an argument of every definition that
  uses it. \<open>redis\<close> is the record of the commands; \<open>redis_contract\<close> states what the Redis
  documentation promises of them, by comparison with the keyspace commands \<open>key_set\<close>, \<open>key_get\<close>,
  and so on, through an abstraction function. A command runs at a server time, which is an
  argument; a key whose deadline has passed is no longer there. The library never stores a string
  and a set under one key (their prefixes differ), so a keyspace keeps the two kinds apart.

  \<open>keyspace_redis\<close> is the client that runs the commands on a keyspace directly. It satisfies
  the contract and is what the witnesses evaluate.
\<close>

record keyspace =
  ks_strings :: "string \<Rightarrow> (string \<times> real) option"
  ks_sets :: "string \<Rightarrow> (string set \<times> real option) option"

definition unexpired :: "real \<Rightarrow> real option \<Rightarrow> bool" where
  "unexpired t d = (case d of None \<Rightarrow> True | Some x \<Rightarrow> t < x)"

definition live_strings :: "real \<Rightarrow> keyspace \<Rightarrow> string \<Rightarrow> (string \<times> real) option" where
  "live_strings t ks k =
     (case ks_strings ks k of Some (v, d) \<Rightarrow> if t < d then Some (v, d) else None | None \<Rightarrow> None)"

definition live_sets :: "real \<Rightarrow> keyspace \<Rightarrow> string \<Rightarrow> (string set \<times> real option) option" where
  "live_sets t ks k =
     (case ks_sets ks k of Some (v, d) \<Rightarrow> if unexpired t d then Some (v, d) else None | None \<Rightarrow> None)"

definition live :: "real \<Rightarrow> keyspace \<Rightarrow> keyspace" where
  "live t ks = \<lparr>ks_strings = live_strings t ks, ks_sets = live_sets t ks\<rparr>"

text \<open>\<open>SET key value EX ex\<close>, with the options \<open>NX\<close> (only if absent) and \<open>XX\<close> (only if present).\<close>

definition key_set :: "string \<Rightarrow> string \<Rightarrow> bool \<Rightarrow> bool \<Rightarrow> int \<Rightarrow> real \<Rightarrow> keyspace \<Rightarrow> bool \<times> keyspace" where
  "key_set k v nx xx ex t ks =
     (if nx \<and> live_strings t ks k \<noteq> None \<or> xx \<and> live_strings t ks k = None then (False, ks)
      else (True, ks\<lparr>ks_strings := (ks_strings ks)(k \<mapsto> (v, t + of_int ex))\<rparr>))"

definition key_get :: "string \<Rightarrow> real \<Rightarrow> keyspace \<Rightarrow> string option" where
  "key_get k t ks = map_option fst (live_strings t ks k)"

definition key_delete :: "string list \<Rightarrow> keyspace \<Rightarrow> keyspace" where
  "key_delete keys ks =
     ks\<lparr>ks_strings := (\<lambda>k. if k \<in> set keys then None else ks_strings ks k),
        ks_sets := (\<lambda>k. if k \<in> set keys then None else ks_sets ks k)\<rparr>"

definition key_expire :: "string \<Rightarrow> int \<Rightarrow> real \<Rightarrow> keyspace \<Rightarrow> keyspace" where
  "key_expire k ex t ks =
     ks\<lparr>ks_strings := (case live_strings t ks k of
          Some (v, d) \<Rightarrow> (ks_strings ks)(k \<mapsto> (v, t + of_int ex)) | None \<Rightarrow> ks_strings ks),
        ks_sets := (case live_sets t ks k of
          Some (v, d) \<Rightarrow> (ks_sets ks)(k \<mapsto> (v, Some (t + of_int ex))) | None \<Rightarrow> ks_sets ks)\<rparr>"

definition key_sadd :: "string \<Rightarrow> string \<Rightarrow> real \<Rightarrow> keyspace \<Rightarrow> keyspace" where
  "key_sadd k m t ks =
     ks\<lparr>ks_sets := (ks_sets ks)(k \<mapsto>
        (case live_sets t ks k of Some (ms, d) \<Rightarrow> (insert m ms, d) | None \<Rightarrow> ({m}, None)))\<rparr>"

text \<open>A set that loses its last member is removed.\<close>

definition key_srem :: "string \<Rightarrow> string list \<Rightarrow> real \<Rightarrow> keyspace \<Rightarrow> keyspace" where
  "key_srem k ms t ks =
     ks\<lparr>ks_sets := (ks_sets ks)(k :=
        (case live_sets t ks k of
           Some (xs, d) \<Rightarrow> if xs - set ms = {} then None else Some (xs - set ms, d)
         | None \<Rightarrow> None))\<rparr>"

definition key_members :: "string \<Rightarrow> real \<Rightarrow> keyspace \<Rightarrow> string set" where
  "key_members k t ks = (case live_sets t ks k of Some (ms, d) \<Rightarrow> ms | None \<Rightarrow> {})"

record 's redis =
  redis_set :: "string \<Rightarrow> string \<Rightarrow> bool \<Rightarrow> bool \<Rightarrow> int \<Rightarrow> real \<Rightarrow> 's \<Rightarrow> bool \<times> 's"
  redis_get :: "string \<Rightarrow> real \<Rightarrow> 's \<Rightarrow> string option \<times> 's"
  redis_delete :: "string list \<Rightarrow> real \<Rightarrow> 's \<Rightarrow> 's"
  redis_expire :: "string \<Rightarrow> int \<Rightarrow> real \<Rightarrow> 's \<Rightarrow> 's"
  redis_sadd :: "string \<Rightarrow> string \<Rightarrow> real \<Rightarrow> 's \<Rightarrow> 's"
  redis_srem :: "string \<Rightarrow> string list \<Rightarrow> real \<Rightarrow> 's \<Rightarrow> 's"
  redis_smembers :: "string \<Rightarrow> real \<Rightarrow> 's \<Rightarrow> string list \<times> 's"

text \<open>
  The contract: through \<open>ks_of\<close>, every command answers as the keyspace command does and leaves
  a keyspace that agrees with it on everything not yet expired. \<open>EX\<close> takes a positive number.
\<close>

definition redis_contract :: "'s redis \<Rightarrow> ('s \<Rightarrow> keyspace) \<Rightarrow> bool" where
  "redis_contract r ks_of \<longleftrightarrow>
     (\<forall>k v nx xx ex t s. 0 < ex \<longrightarrow>
        fst (redis_set r k v nx xx ex t s) = fst (key_set k v nx xx ex t (ks_of s)) \<and>
        live t (ks_of (snd (redis_set r k v nx xx ex t s))) = live t (snd (key_set k v nx xx ex t (ks_of s)))) \<and>
     (\<forall>k t s. fst (redis_get r k t s) = key_get k t (ks_of s) \<and>
        live t (ks_of (snd (redis_get r k t s))) = live t (ks_of s)) \<and>
     (\<forall>ks t s. live t (ks_of (redis_delete r ks t s)) = live t (key_delete ks (ks_of s))) \<and>
     (\<forall>k ex t s. 0 < ex \<longrightarrow> live t (ks_of (redis_expire r k ex t s)) = live t (key_expire k ex t (ks_of s))) \<and>
     (\<forall>k m t s. live t (ks_of (redis_sadd r k m t s)) = live t (key_sadd k m t (ks_of s))) \<and>
     (\<forall>k ms t s. live t (ks_of (redis_srem r k ms t s)) = live t (key_srem k ms t (ks_of s))) \<and>
     (\<forall>k t s. live t (ks_of (snd (redis_smembers r k t s))) = live t (ks_of s) \<and>
        (finite (key_members k t (ks_of s)) \<longrightarrow>
           distinct (fst (redis_smembers r k t s)) \<and>
           set (fst (redis_smembers r k t s)) = key_members k t (ks_of s)))"

subsection \<open>The commands on what has not expired\<close>

lemma live_strings_live: "live_strings t (live t ks) = live_strings t ks"
  by (auto simp: live_def live_strings_def fun_eq_iff split: option.splits)

lemma live_later:
  assumes "live t ks = live t ks'" and "t \<le> t'"
  shows "live_strings t' ks = live_strings t' ks'" and "live_sets t' ks = live_sets t' ks'"
proof -
  have str: "live_strings t ks = live_strings t ks'" and sets: "live_sets t ks = live_sets t ks'"
    using assms(1) by (simp_all add: live_def)
  have "live_strings t' ks k = (case live_strings t ks k of Some (v, d) \<Rightarrow> if t' < d then Some (v, d) else None | None \<Rightarrow> None)" for ks k
    using assms(2) by (auto simp: live_strings_def split: option.splits)
  with str show "live_strings t' ks = live_strings t' ks'" by (simp add: fun_eq_iff)
  have "live_sets t' ks k = (case live_sets t ks k of Some (v, d) \<Rightarrow> if unexpired t' d then Some (v, d) else None | None \<Rightarrow> None)" for ks k
    using assms(2) by (auto simp: live_sets_def unexpired_def split: option.splits)
  with sets show "live_sets t' ks = live_sets t' ks'" by (simp add: fun_eq_iff)
qed

lemma live_strings_expire:
  "live_strings t ks k = None \<Longrightarrow> t \<le> t' \<Longrightarrow> live_strings t' ks k = None"
  by (auto simp: live_strings_def split: option.splits if_splits)

lemma live_sets_unexpired: "live_sets t ks k = Some (ms, d) \<Longrightarrow> unexpired t d"
  by (auto simp: live_sets_def split: option.splits if_splits)

subsection \<open>The client that is a keyspace\<close>

definition keyspace_redis :: "keyspace redis" where
  "keyspace_redis =
     \<lparr>redis_set = key_set,
      redis_get = (\<lambda>k t ks. (key_get k t ks, ks)),
      redis_delete = (\<lambda>keys t ks. key_delete keys ks),
      redis_expire = key_expire,
      redis_sadd = key_sadd,
      redis_srem = key_srem,
      redis_smembers = (\<lambda>k t ks. (sorted_list_of_set (key_members k t ks), ks))\<rparr>"

definition empty_keyspace :: keyspace where
  "empty_keyspace = \<lparr>ks_strings = (\<lambda>_. None), ks_sets = (\<lambda>_. None)\<rparr>"

lemma keyspace_contract: "redis_contract keyspace_redis id"
  by (simp add: redis_contract_def keyspace_redis_def)

subsection \<open>Consequences of the contract\<close>

text \<open>What a client sees of a key, at or after the time of a command.\<close>

lemma contract_set:
  assumes "redis_contract r ks_of" and "0 < ex" and "t \<le> t'"
  shows "fst (redis_set r k v nx xx ex t s)
           \<longleftrightarrow> \<not> (nx \<and> live_strings t (ks_of s) k \<noteq> None \<or> xx \<and> live_strings t (ks_of s) k = None)"
    and "live_strings t' (ks_of (snd (redis_set r k v nx xx ex t s)))
       = (if fst (redis_set r k v nx xx ex t s)
          then (live_strings t' (ks_of s))(k := if t' < t + of_int ex then Some (v, t + of_int ex) else None)
          else live_strings t' (ks_of s))"
    and "live_sets t' (ks_of (snd (redis_set r k v nx xx ex t s))) = live_sets t' (ks_of s)"
proof -
  let ?res = "key_set k v nx xx ex t (ks_of s)"
  have ok: "fst (redis_set r k v nx xx ex t s) = fst ?res"
    and eq: "live t (ks_of (snd (redis_set r k v nx xx ex t s))) = live t (snd ?res)"
    using assms(1,2) by (simp_all add: redis_contract_def)
  show "fst (redis_set r k v nx xx ex t s)
           \<longleftrightarrow> \<not> (nx \<and> live_strings t (ks_of s) k \<noteq> None \<or> xx \<and> live_strings t (ks_of s) k = None)"
    by (simp add: ok key_set_def)
  show "live_strings t' (ks_of (snd (redis_set r k v nx xx ex t s)))
       = (if fst (redis_set r k v nx xx ex t s)
          then (live_strings t' (ks_of s))(k := if t' < t + of_int ex then Some (v, t + of_int ex) else None)
          else live_strings t' (ks_of s))"
    unfolding ok live_later(1) [OF eq assms(3)]
    by (auto simp: key_set_def live_strings_def fun_eq_iff)
  show "live_sets t' (ks_of (snd (redis_set r k v nx xx ex t s))) = live_sets t' (ks_of s)"
    unfolding live_later(2) [OF eq assms(3)] by (auto simp: key_set_def live_sets_def fun_eq_iff)
qed

lemma contract_get:
  assumes "redis_contract r ks_of" and "t \<le> t'"
  shows "fst (redis_get r k t s) = map_option fst (live_strings t (ks_of s) k)"
    and "live_strings t' (ks_of (snd (redis_get r k t s))) = live_strings t' (ks_of s)"
    and "live_sets t' (ks_of (snd (redis_get r k t s))) = live_sets t' (ks_of s)"
proof -
  have "fst (redis_get r k t s) = key_get k t (ks_of s)"
    and eq: "live t (ks_of (snd (redis_get r k t s))) = live t (ks_of s)"
    using assms(1) by (simp_all add: redis_contract_def)
  then show "fst (redis_get r k t s) = map_option fst (live_strings t (ks_of s) k)"
    by (simp add: key_get_def)
  show "live_strings t' (ks_of (snd (redis_get r k t s))) = live_strings t' (ks_of s)"
    and "live_sets t' (ks_of (snd (redis_get r k t s))) = live_sets t' (ks_of s)"
    by (rule live_later [OF eq assms(2)])+
qed

lemma contract_delete:
  assumes "redis_contract r ks_of" and "t \<le> t'"
  shows "live_strings t' (ks_of (redis_delete r keys t s))
       = (\<lambda>k. if k \<in> set keys then None else live_strings t' (ks_of s) k)"
    and "live_sets t' (ks_of (redis_delete r keys t s))
       = (\<lambda>k. if k \<in> set keys then None else live_sets t' (ks_of s) k)"
proof -
  have eq: "live t (ks_of (redis_delete r keys t s)) = live t (key_delete keys (ks_of s))"
    using assms(1) by (simp add: redis_contract_def)
  show "live_strings t' (ks_of (redis_delete r keys t s))
       = (\<lambda>k. if k \<in> set keys then None else live_strings t' (ks_of s) k)"
    unfolding live_later(1) [OF eq assms(2)] by (auto simp: key_delete_def live_strings_def fun_eq_iff)
  show "live_sets t' (ks_of (redis_delete r keys t s))
       = (\<lambda>k. if k \<in> set keys then None else live_sets t' (ks_of s) k)"
    unfolding live_later(2) [OF eq assms(2)] by (auto simp: key_delete_def live_sets_def fun_eq_iff)
qed

lemma contract_expire:
  assumes "redis_contract r ks_of" and "0 < ex" and "t \<le> t'" and "k' \<noteq> k"
  shows "live_strings t' (ks_of (redis_expire r k ex t s)) k' = live_strings t' (ks_of s) k'"
    and "live_sets t' (ks_of (redis_expire r k ex t s)) k' = live_sets t' (ks_of s) k'"
proof -
  have eq: "live t (ks_of (redis_expire r k ex t s)) = live t (key_expire k ex t (ks_of s))"
    using assms(1,2) by (simp add: redis_contract_def)
  show "live_strings t' (ks_of (redis_expire r k ex t s)) k' = live_strings t' (ks_of s) k'"
    unfolding live_later(1) [OF eq assms(3)] using assms(4)
    by (auto simp: key_expire_def live_strings_def split: option.splits)
  show "live_sets t' (ks_of (redis_expire r k ex t s)) k' = live_sets t' (ks_of s) k'"
    unfolding live_later(2) [OF eq assms(3)] using assms(4)
    by (auto simp: key_expire_def live_sets_def split: option.splits)
qed

lemma contract_index:
  assumes "redis_contract r ks_of" and "t \<le> t'"
  shows "0 < ex \<Longrightarrow> live_sets t' (ks_of (redis_expire r k ex t s)) k
       = (case live_sets t (ks_of s) k of
            Some (ms, d) \<Rightarrow> if t' < t + of_int ex then Some (ms, Some (t + of_int ex)) else None
          | None \<Rightarrow> None)"
    and "live_sets t' (ks_of (redis_sadd r k m t s)) k
       = (case live_sets t (ks_of s) k of
            Some (ms, d) \<Rightarrow> if unexpired t' d then Some (insert m ms, d) else None
          | None \<Rightarrow> Some ({m}, None))"
proof -
  have exp: "live t (ks_of (redis_expire r k ex t s)) = live t (key_expire k ex t (ks_of s))" if "0 < ex"
    using assms(1) that by (simp add: redis_contract_def)
  have add: "live t (ks_of (redis_sadd r k m t s)) = live t (key_sadd k m t (ks_of s))"
    using assms(1) by (simp add: redis_contract_def)
  show "live_sets t' (ks_of (redis_expire r k ex t s)) k
       = (case live_sets t (ks_of s) k of
            Some (ms, d) \<Rightarrow> if t' < t + of_int ex then Some (ms, Some (t + of_int ex)) else None
          | None \<Rightarrow> None)" if "0 < ex"
    unfolding live_later(2) [OF exp [OF that] assms(2)] using assms(2)
    by (auto simp: key_expire_def live_sets_def unexpired_def split: option.splits)
  show "live_sets t' (ks_of (redis_sadd r k m t s)) k
       = (case live_sets t (ks_of s) k of
            Some (ms, d) \<Rightarrow> if unexpired t' d then Some (insert m ms, d) else None
          | None \<Rightarrow> Some ({m}, None))"
    unfolding live_later(2) [OF add assms(2)]
    by (auto simp: key_sadd_def live_sets_def unexpired_def split: option.splits)
qed

lemma contract_members:
  assumes "redis_contract r ks_of"
  shows "finite (key_members k t (ks_of s)) \<Longrightarrow> set (fst (redis_smembers r k t s)) = key_members k t (ks_of s)"
    and "finite (key_members k t (ks_of s)) \<Longrightarrow> distinct (fst (redis_smembers r k t s))"
    and "t \<le> t' \<Longrightarrow> live_strings t' (ks_of (snd (redis_smembers r k t s))) = live_strings t' (ks_of s)"
    and "t \<le> t' \<Longrightarrow> live_sets t' (ks_of (snd (redis_smembers r k t s))) = live_sets t' (ks_of s)"
  using assms live_later [of t "ks_of (snd (redis_smembers r k t s))" "ks_of s" t']
  by (simp_all add: redis_contract_def)

lemma contract_sets:
  assumes "redis_contract r ks_of" and "t \<le> t'"
  shows "live_strings t' (ks_of (redis_sadd r k m t s)) = live_strings t' (ks_of s)"
    and "live_strings t' (ks_of (redis_srem r k ms t s)) = live_strings t' (ks_of s)"
proof -
  have add: "live t (ks_of (redis_sadd r k m t s)) = live t (key_sadd k m t (ks_of s))"
    and rem: "live t (ks_of (redis_srem r k ms t s)) = live t (key_srem k ms t (ks_of s))"
    using assms(1) by (simp_all add: redis_contract_def)
  show "live_strings t' (ks_of (redis_sadd r k m t s)) = live_strings t' (ks_of s)"
    unfolding live_later(1) [OF add assms(2)] by (simp add: key_sadd_def live_strings_def fun_eq_iff)
  show "live_strings t' (ks_of (redis_srem r k ms t s)) = live_strings t' (ks_of s)"
    unfolding live_later(1) [OF rem assms(2)] by (simp add: key_srem_def live_strings_def fun_eq_iff)
qed

end
