(* ===== verification/Dedup.thy ===== *)
theory Dedup
  imports Redis
begin

text \<open>
  \<^verbatim>\<open>queue/dedup.py\<close>: consuming each message of an at-least-once queue once. A store marks a
  message id in flight when a delivery claims it, done when its handler returned, and forgets it
  when the handler failed. Both stores are modelled: a dict of marks with deadlines, and Redis
  through the client of \<open>Redis\<close>. A claim on Redis is two commands with a suspension between
  them, so a claim may answer "not new" first and tell which mark it met in a later step.

  The contract of a store is the locale \<open>dedup_laws\<close>, stated on the marks a reader sees; it is
  interpreted on both stores. The deliveries of one queue are an inductive relation
  (\<open>dedup_reach\<close>) over a store, the clock and the phase of each delivery.
\<close>

subsection \<open>Stores\<close>

definition DEFAULT_DEDUP_TTL_SECONDS :: int where
  "DEFAULT_DEDUP_TTL_SECONDS = 86400"

definition IN_FLIGHT :: string where "IN_FLIGHT = ''in_flight''"

definition DONE :: string where "DONE = ''done''"

datatype DedupStateEnum = DedupNew | DedupInFlight | DedupDone

text \<open>
  The protocol \<^verbatim>\<open>DedupStore\<close>. \<open>dd_claim\<close> answers \<open>None\<close> when the mark it met is told by a
  second command, \<open>dd_read\<close>.
\<close>

record 's dedup_store =
  dd_claim :: "string \<Rightarrow> int \<Rightarrow> real \<Rightarrow> 's \<Rightarrow> DedupStateEnum option \<times> 's"
  dd_read :: "string \<Rightarrow> real \<Rightarrow> 's \<Rightarrow> DedupStateEnum \<times> 's"
  dd_complete :: "string \<Rightarrow> int \<Rightarrow> real \<Rightarrow> 's \<Rightarrow> 's"
  dd_release :: "string \<Rightarrow> real \<Rightarrow> 's \<Rightarrow> 's"

type_synonym dedup_entries = "string \<Rightarrow> (string \<times> real) option"

definition dedup_live :: "string \<Rightarrow> real \<Rightarrow> dedup_entries \<Rightarrow> string option \<times> dedup_entries" where
  "dedup_live key now entries =
     (case entries key of
        None \<Rightarrow> (None, entries)
      | Some (marker, expires_at) \<Rightarrow>
          if expires_at \<le> now then (None, entries(key := None)) else (Some marker, entries))"

definition mem_claim :: "string \<Rightarrow> int \<Rightarrow> real \<Rightarrow> dedup_entries \<Rightarrow> DedupStateEnum \<times> dedup_entries" where
  "mem_claim key ttl now entries =
     (case dedup_live key now entries of
        (marker, entries') \<Rightarrow>
          if marker = Some DONE then (DedupDone, entries')
          else if marker = Some IN_FLIGHT then (DedupInFlight, entries')
          else (DedupNew, entries'(key \<mapsto> (IN_FLIGHT, now + of_int ttl))))"

definition mem_complete :: "string \<Rightarrow> int \<Rightarrow> real \<Rightarrow> dedup_entries \<Rightarrow> dedup_entries" where
  "mem_complete key ttl now entries = entries(key \<mapsto> (DONE, now + of_int ttl))"

definition mem_release :: "string \<Rightarrow> real \<Rightarrow> dedup_entries \<Rightarrow> dedup_entries" where
  "mem_release key now entries = entries(key := None)"

definition memory_dedup :: "dedup_entries dedup_store" where
  "memory_dedup =
     \<lparr>dd_claim = (\<lambda>key ttl now s. case mem_claim key ttl now s of (st, s') \<Rightarrow> (Some st, s')),
      dd_read = (\<lambda>key now s. case dedup_live key now s of
                   (m, s') \<Rightarrow> (if m = Some IN_FLIGHT then DedupInFlight else DedupDone, s')),
      dd_complete = mem_complete,
      dd_release = mem_release\<rparr>"

text \<open>The Redis store: \<^verbatim>\<open>claim\<close> is \<open>SET NX\<close>, and \<open>GET\<close> after a lost race.\<close>

definition dedup_key :: "string \<Rightarrow> string \<Rightarrow> string" where
  "dedup_key prefix key = prefix @ key"

definition redis_claim_set :: "'s redis \<Rightarrow> string \<Rightarrow> string \<Rightarrow> int \<Rightarrow> real \<Rightarrow> 's \<Rightarrow> DedupStateEnum option \<times> 's" where
  "redis_claim_set r prefix key ttl now s =
     (case redis_set r (dedup_key prefix key) IN_FLIGHT True False ttl now s of
        (stored, s') \<Rightarrow> (if stored then Some DedupNew else None, s'))"

definition redis_claim_get :: "'s redis \<Rightarrow> string \<Rightarrow> string \<Rightarrow> real \<Rightarrow> 's \<Rightarrow> DedupStateEnum \<times> 's" where
  "redis_claim_get r prefix key now s =
     (case redis_get r (dedup_key prefix key) now s of
        (marker, s') \<Rightarrow> (if marker = Some IN_FLIGHT then DedupInFlight else DedupDone, s'))"

definition redis_dedup :: "'s redis \<Rightarrow> string \<Rightarrow> 's dedup_store" where
  "redis_dedup r prefix =
     \<lparr>dd_claim = redis_claim_set r prefix,
      dd_read = redis_claim_get r prefix,
      dd_complete = (\<lambda>key ttl now s. snd (redis_set r (dedup_key prefix key) DONE False False ttl now s)),
      dd_release = (\<lambda>key now s. redis_delete r [dedup_key prefix key] now s)\<rparr>"

subsection \<open>The middleware\<close>

record message =
  message_id :: "string option"
  correlation_id :: "string option"

text \<open>An empty id is falsy and passed over, as a missing one is.\<close>

definition message_key :: "message \<Rightarrow> string option" where
  "message_key m =
     (case message_id m of
        Some i \<Rightarrow> if i \<noteq> [] then Some i
                  else (case correlation_id m of Some c \<Rightarrow> if c \<noteq> [] then Some c else None | None \<Rightarrow> None)
      | None \<Rightarrow> (case correlation_id m of Some c \<Rightarrow> if c \<noteq> [] then Some c else None | None \<Rightarrow> None))"

text \<open>
  How a handler ends: it returns, raises an \<^verbatim>\<open>Exception\<close>, or is left by a \<^verbatim>\<open>BaseException\<close> that is
  not one (a cancelled task). How \<^verbatim>\<open>consume_scope\<close> ends: with the result, with \<^verbatim>\<open>None\<close> for a
  message already processed, with \<^verbatim>\<open>ConcurrentDeliveryError\<close>, or with what the handler raised.
\<close>

datatype handler_outcome = Returned string | RaisedException string | RaisedBase string

datatype consumed = Result string | AlreadyDone | ConcurrentDeliveryError string | Propagated handler_outcome

datatype delivery_phase = Idle | Plain | Reading string real | Running string real | Ended consumed

definition after_claim :: "string \<Rightarrow> real \<Rightarrow> DedupStateEnum \<Rightarrow> delivery_phase" where
  "after_claim key now st =
     (case st of
        DedupDone \<Rightarrow> Ended AlreadyDone
      | DedupInFlight \<Rightarrow> Ended (ConcurrentDeliveryError key)
      | DedupNew \<Rightarrow> Running key now)"

definition consume_begin :: "'s dedup_store \<Rightarrow> int \<Rightarrow> message \<Rightarrow> real \<Rightarrow> 's \<Rightarrow> delivery_phase \<times> 's" where
  "consume_begin store ttl msg now s =
     (case message_key msg of
        None \<Rightarrow> (Plain, s)
      | Some key \<Rightarrow>
          (case dd_claim store key ttl now s of
             (None, s') \<Rightarrow> (Reading key now, s')
           | (Some st, s') \<Rightarrow> (after_claim key now st, s')))"

definition consume_read :: "'s dedup_store \<Rightarrow> string \<Rightarrow> real \<Rightarrow> 's \<Rightarrow> delivery_phase \<times> 's" where
  "consume_read store key now s =
     (case dd_read store key now s of (st, s') \<Rightarrow> (after_claim key now st, s'))"

definition consume_end :: "'s dedup_store \<Rightarrow> int \<Rightarrow> string \<Rightarrow> handler_outcome \<Rightarrow> real \<Rightarrow> 's \<Rightarrow> consumed \<times> 's" where
  "consume_end store ttl key out now s =
     (case out of
        Returned result \<Rightarrow> (Result result, dd_complete store key ttl now s)
      | RaisedException e \<Rightarrow> (Propagated out, dd_release store key now s)
      | RaisedBase e \<Rightarrow> (Propagated out, s))"

definition plain_end :: "handler_outcome \<Rightarrow> consumed" where
  "plain_end out = (case out of Returned result \<Rightarrow> Result result | _ \<Rightarrow> Propagated out)"

text \<open>
  One delivery that nothing overlaps: claimed at \<open>t\<close>, read at \<open>t\<close>, its handler ending at \<open>t'\<close>.
\<close>

definition consume_scope ::
  "'s dedup_store \<Rightarrow> int \<Rightarrow> message \<Rightarrow> handler_outcome \<Rightarrow> real \<Rightarrow> real \<Rightarrow> 's \<Rightarrow> (consumed \<times> bool) \<times> 's" where
  "consume_scope store ttl msg out t t' s =
     (case consume_begin store ttl msg t s of (ph, s1) \<Rightarrow>
        (case (case ph of Reading key _ \<Rightarrow> consume_read store key t s1 | _ \<Rightarrow> (ph, s1)) of
           (Plain, s2) \<Rightarrow> ((plain_end out, True), s2)
         | (Running key _, s2) \<Rightarrow>
             (case consume_end store ttl key out t' s2 of (res, s3) \<Rightarrow> ((res, True), s3))
         | (Ended res, s2) \<Rightarrow> ((res, False), s2)
         | (_, s2) \<Rightarrow> ((AlreadyDone, False), s2)))"

subsection \<open>The deliveries of one queue\<close>

text \<open>
  A run of several deliveries over one store. Each step happens at a time not before the last
  one. \<open>dr_overrun\<close> records that a handler was still running when its claim had expired;
  \<open>dr_done\<close> records the id and time of every completion.
\<close>

record 's dedup_run =
  dr_store :: 's
  dr_now :: real
  dr_tasks :: "delivery_phase list"
  dr_overrun :: bool
  dr_done :: "(string \<times> real) list"

definition expired_claim :: "int \<Rightarrow> real \<Rightarrow> delivery_phase \<Rightarrow> bool" where
  "expired_claim ttl t ph = (case ph of Running _ c \<Rightarrow> c + of_int ttl \<le> t | _ \<Rightarrow> False)"

definition clock :: "int \<Rightarrow> real \<Rightarrow> 's dedup_run \<Rightarrow> 's dedup_run" where
  "clock ttl t st =
     st\<lparr>dr_now := t, dr_overrun := dr_overrun st \<or> list_ex (expired_claim ttl t) (dr_tasks st)\<rparr>"

definition dedup_settle :: "nat \<Rightarrow> delivery_phase \<times> 's \<Rightarrow> 's dedup_run \<Rightarrow> 's dedup_run" where
  "dedup_settle i res st = (case res of (ph, s) \<Rightarrow> st\<lparr>dr_store := s, dr_tasks := (dr_tasks st)[i := ph]\<rparr>)"

definition begin_step :: "'s dedup_store \<Rightarrow> int \<Rightarrow> nat \<Rightarrow> message \<Rightarrow> real \<Rightarrow> 's dedup_run \<Rightarrow> 's dedup_run" where
  "begin_step store ttl i msg t st = dedup_settle i (consume_begin store ttl msg t (dr_store st)) (clock ttl t st)"

definition dedup_read_step :: "'s dedup_store \<Rightarrow> int \<Rightarrow> nat \<Rightarrow> string \<Rightarrow> real \<Rightarrow> 's dedup_run \<Rightarrow> 's dedup_run" where
  "dedup_read_step store ttl i key t st = dedup_settle i (consume_read store key t (dr_store st)) (clock ttl t st)"

definition end_step :: "'s dedup_store \<Rightarrow> int \<Rightarrow> nat \<Rightarrow> string \<Rightarrow> handler_outcome \<Rightarrow> real \<Rightarrow> 's dedup_run \<Rightarrow> 's dedup_run" where
  "end_step store ttl i key out t st =
     (case consume_end store ttl key out t (dr_store st) of (res, s) \<Rightarrow>
        (dedup_settle i (Ended res, s) (clock ttl t st))
          \<lparr>dr_done := (case out of Returned _ \<Rightarrow> (key, t) # dr_done st | _ \<Rightarrow> dr_done st)\<rparr>)"


inductive dedup_reach :: "'s dedup_store \<Rightarrow> int \<Rightarrow> 's dedup_run \<Rightarrow> 's dedup_run \<Rightarrow> bool"
  for store :: "'s dedup_store" and ttl :: int and st0 :: "'s dedup_run" where
  start: "dedup_reach store ttl st0 st0"
| begins: "dedup_reach store ttl st0 st \<Longrightarrow> i < length (dr_tasks st) \<Longrightarrow> dr_tasks st ! i = Idle \<Longrightarrow>
    dr_now st \<le> t \<Longrightarrow> dedup_reach store ttl st0 (begin_step store ttl i msg t st)"
| reads: "dedup_reach store ttl st0 st \<Longrightarrow> i < length (dr_tasks st) \<Longrightarrow> dr_tasks st ! i = Reading key c \<Longrightarrow>
    dr_now st \<le> t \<Longrightarrow> dedup_reach store ttl st0 (dedup_read_step store ttl i key t st)"
| ends: "dedup_reach store ttl st0 st \<Longrightarrow> i < length (dr_tasks st) \<Longrightarrow> dr_tasks st ! i = Running key c \<Longrightarrow>
    dr_now st \<le> t \<Longrightarrow> dedup_reach store ttl st0 (end_step store ttl i key out t st)"
| plain_ends: "dedup_reach store ttl st0 st \<Longrightarrow> i < length (dr_tasks st) \<Longrightarrow> dr_tasks st ! i = Plain \<Longrightarrow>
    dr_now st \<le> t \<Longrightarrow>
    dedup_reach store ttl st0 (dedup_settle i (Ended (plain_end out), dr_store st) (clock ttl t st))"

lemma settle_fields [simp]:
  "dr_now (dedup_settle i res st) = dr_now st" "dr_overrun (dedup_settle i res st) = dr_overrun st"
  "dr_done (dedup_settle i res st) = dr_done st" "dr_store (dedup_settle i res st) = snd res"
  "dr_tasks (dedup_settle i res st) = (dr_tasks st)[i := fst res]"
  by (simp_all add: dedup_settle_def split: prod.splits)

lemma clock_fields [simp]:
  "dr_store (clock ttl t st) = dr_store st" "dr_now (clock ttl t st) = t"
  "dr_tasks (clock ttl t st) = dr_tasks st" "dr_done (clock ttl t st) = dr_done st"
  "dr_overrun (clock ttl t st) \<longleftrightarrow> dr_overrun st \<or> list_ex (expired_claim ttl t) (dr_tasks st)"
  by (simp_all add: clock_def)

subsection \<open>The contract of a store\<close>

text \<open>
  \<open>marks s t k\<close> is the mark a reader would find under the id \<open>k\<close> at time \<open>t\<close> if nothing else
  happened to the store \<open>s\<close>.
\<close>

definition known_mark :: "string option \<Rightarrow> bool" where
  "known_mark m \<longleftrightarrow> m = None \<or> m = Some IN_FLIGHT \<or> m = Some DONE"

definition told :: "string option \<Rightarrow> DedupStateEnum" where
  "told m = (if m = Some IN_FLIGHT then DedupInFlight else DedupDone)"

lemma marker_values [simp]: "IN_FLIGHT \<noteq> DONE" "DONE \<noteq> IN_FLIGHT"
  by (simp_all add: IN_FLIGHT_def DONE_def)

lemma known_mark_simps [simp]:
  "known_mark None" "known_mark (Some IN_FLIGHT)" "known_mark (Some DONE)"
  by (simp_all add: known_mark_def)

locale dedup_laws =
  fixes store :: "'s dedup_store" and marks :: "'s \<Rightarrow> real \<Rightarrow> string \<Rightarrow> string option" and ttl :: int
  assumes claim_new: "marks s t k = None \<Longrightarrow> t \<le> t' \<Longrightarrow>
        fst (dd_claim store k ttl t s) = Some DedupNew \<and>
        marks (snd (dd_claim store k ttl t s)) t'
          = (marks s t')(k := if t' < t + of_int ttl then Some IN_FLIGHT else None)"
    and claim_seen: "marks s t k = Some m \<Longrightarrow> known_mark (Some m) \<Longrightarrow> t \<le> t' \<Longrightarrow>
        (fst (dd_claim store k ttl t s) = None \<or> fst (dd_claim store k ttl t s) = Some (told (Some m))) \<and>
        marks (snd (dd_claim store k ttl t s)) t' = marks s t'"
    and read_told: "fst (dd_read store k t s) = told (marks s t k)"
    and read_keeps: "t \<le> t' \<Longrightarrow> marks (snd (dd_read store k t s)) t' = marks s t'"
    and complete_marks: "t \<le> t' \<Longrightarrow> marks (dd_complete store k ttl t s) t'
          = (marks s t')(k := if t' < t + of_int ttl then Some DONE else None)"
    and release_marks: "t \<le> t' \<Longrightarrow> marks (dd_release store k t s) t' = (marks s t')(k := None)"

definition mem_marks :: "dedup_entries \<Rightarrow> real \<Rightarrow> string \<Rightarrow> string option" where
  "mem_marks s t k = fst (dedup_live k t s)"

lemma mem_marks_alt:
  "mem_marks s t k = (case s k of Some (m, d) \<Rightarrow> if t < d then Some m else None | None \<Rightarrow> None)"
  by (simp add: mem_marks_def dedup_live_def not_less split: option.splits)

lemma dedup_live_marks: "t \<le> t' \<Longrightarrow> mem_marks (snd (dedup_live k t s)) t' = mem_marks s t'"
  by (auto simp: mem_marks_alt dedup_live_def fun_eq_iff split: option.splits)

lemma dedup_live_fst: "fst (dedup_live k t s) = mem_marks s t k"
  by (simp add: mem_marks_def)

lemma mem_claim_cases:
  "mem_claim k ttl t s =
     (if mem_marks s t k = Some DONE then (DedupDone, snd (dedup_live k t s))
      else if mem_marks s t k = Some IN_FLIGHT then (DedupInFlight, snd (dedup_live k t s))
      else (DedupNew, (snd (dedup_live k t s))(k \<mapsto> (IN_FLIGHT, t + of_int ttl))))"
  by (simp add: mem_claim_def mem_marks_def split: prod.splits)

lemma mem_marks_update:
  "mem_marks (s(k \<mapsto> (m, d))) t' = (mem_marks s t')(k := if t' < d then Some m else None)"
  "mem_marks (s(k := None)) t' = (mem_marks s t')(k := None)"
  by (auto simp: mem_marks_alt fun_eq_iff)

lemma memory_dedup_laws: "dedup_laws memory_dedup mem_marks ttl"
proof
  fix s t k t'
  show "fst (dd_claim memory_dedup k ttl t s) = Some DedupNew \<and>
      mem_marks (snd (dd_claim memory_dedup k ttl t s)) t'
        = (mem_marks s t')(k := if t' < t + of_int ttl then Some IN_FLIGHT else None)"
    if "mem_marks s t k = None" "t \<le> t'"
    using that by (simp add: memory_dedup_def mem_claim_cases mem_marks_update dedup_live_marks)
  show "(fst (dd_claim memory_dedup k ttl t s) = None \<or>
        fst (dd_claim memory_dedup k ttl t s) = Some (told (Some m))) \<and>
      mem_marks (snd (dd_claim memory_dedup k ttl t s)) t' = mem_marks s t'"
    if "mem_marks s t k = Some m" "known_mark (Some m)" "t \<le> t'" for m
    using that by (auto simp: memory_dedup_def mem_claim_cases known_mark_def told_def dedup_live_marks)
  show "fst (dd_read memory_dedup k t s) = told (mem_marks s t k)"
    by (simp add: memory_dedup_def told_def mem_marks_def split: prod.splits)
  show "mem_marks (snd (dd_read memory_dedup k t s)) t' = mem_marks s t'" if "t \<le> t'"
    using dedup_live_marks [OF that, of k s] by (simp add: memory_dedup_def case_prod_beta)
  show "mem_marks (dd_complete memory_dedup k ttl t s) t'
      = (mem_marks s t')(k := if t' < t + of_int ttl then Some DONE else None)"
    by (simp add: memory_dedup_def mem_complete_def mem_marks_update)
  show "mem_marks (dd_release memory_dedup k t s) t' = (mem_marks s t')(k := None)"
    by (simp add: memory_dedup_def mem_release_def mem_marks_update)
qed

interpretation mem_dedup: dedup_laws memory_dedup mem_marks ttl for ttl
  by (rule memory_dedup_laws)

definition redis_marks :: "('s \<Rightarrow> keyspace) \<Rightarrow> string \<Rightarrow> 's \<Rightarrow> real \<Rightarrow> string \<Rightarrow> string option" where
  "redis_marks ks_of prefix s t k = map_option fst (live_strings t (ks_of s) (dedup_key prefix k))"

lemma dedup_key_inject [simp]: "dedup_key p k = dedup_key p k' \<longleftrightarrow> k = k'"
  by (simp add: dedup_key_def)

lemma redis_dedup_laws:
  assumes r: "redis_contract r ks_of" and ttl: "0 < ttl"
  shows "dedup_laws (redis_dedup r prefix) (redis_marks ks_of prefix) ttl"
proof
  fix s t k t'
  note set = contract_set [OF r ttl] and get = contract_get [OF r]
  show "fst (dd_claim (redis_dedup r prefix) k ttl t s) = Some DedupNew \<and>
      redis_marks ks_of prefix (snd (dd_claim (redis_dedup r prefix) k ttl t s)) t'
        = (redis_marks ks_of prefix s t')(k := if t' < t + of_int ttl then Some IN_FLIGHT else None)"
    if "redis_marks ks_of prefix s t k = None" "t \<le> t'"
    using that by (simp add: redis_dedup_def redis_claim_set_def redis_marks_def set fun_eq_iff case_prod_beta)
  show "(fst (dd_claim (redis_dedup r prefix) k ttl t s) = None \<or>
        fst (dd_claim (redis_dedup r prefix) k ttl t s) = Some (told (Some m))) \<and>
      redis_marks ks_of prefix (snd (dd_claim (redis_dedup r prefix) k ttl t s)) t' = redis_marks ks_of prefix s t'"
    if "redis_marks ks_of prefix s t k = Some m" "known_mark (Some m)" "t \<le> t'" for m
    using that by (auto simp: redis_dedup_def redis_claim_set_def redis_marks_def set fun_eq_iff case_prod_beta)
  show "fst (dd_read (redis_dedup r prefix) k t s) = told (redis_marks ks_of prefix s t k)"
    by (simp add: redis_dedup_def redis_claim_get_def redis_marks_def told_def get(1) [OF order.refl] case_prod_beta)
  show "redis_marks ks_of prefix (snd (dd_read (redis_dedup r prefix) k t s)) t' = redis_marks ks_of prefix s t'"
    if "t \<le> t'"
    using that by (simp add: redis_dedup_def redis_claim_get_def redis_marks_def get(2) fun_eq_iff case_prod_beta)
  show "redis_marks ks_of prefix (dd_complete (redis_dedup r prefix) k ttl t s) t'
      = (redis_marks ks_of prefix s t')(k := if t' < t + of_int ttl then Some DONE else None)" if "t \<le> t'"
    using that by (simp add: redis_dedup_def redis_marks_def set fun_eq_iff)
  show "redis_marks ks_of prefix (dd_release (redis_dedup r prefix) k t s) t' = (redis_marks ks_of prefix s t')(k := None)"
    if "t \<le> t'"
    using that by (simp add: redis_dedup_def redis_marks_def contract_delete(1) [OF r] fun_eq_iff)
qed

interpretation key_dedup: dedup_laws "redis_dedup keyspace_redis prefix" "redis_marks id prefix" DEFAULT_DEDUP_TTL_SECONDS
  for prefix
  by (rule redis_dedup_laws [OF keyspace_contract]) (simp add: DEFAULT_DEDUP_TTL_SECONDS_def)

subsection \<open>One handler per id\<close>

text \<open>
  What holds of a run until a handler outlives its claim: every running handler still owns its
  mark, no two run for one id, every completion is remembered for its time, and nothing else is
  ever written under an id.
\<close>

definition run_ok :: "('s \<Rightarrow> real \<Rightarrow> string \<Rightarrow> string option) \<Rightarrow> int \<Rightarrow> 's dedup_run \<Rightarrow> bool" where
  "run_ok marks ttl st \<longleftrightarrow>
     (\<forall>t k. dr_now st \<le> t \<longrightarrow> known_mark (marks (dr_store st) t k)) \<and>
     (\<not> dr_overrun st \<longrightarrow>
        (\<forall>i k c. i < length (dr_tasks st) \<longrightarrow> dr_tasks st ! i = Running k c \<longrightarrow>
           c \<le> dr_now st \<and>
           (\<forall>t. dr_now st \<le> t \<longrightarrow> t < c + of_int ttl \<longrightarrow> marks (dr_store st) t k = Some IN_FLIGHT)) \<and>
        (\<forall>i j k c d. i < length (dr_tasks st) \<longrightarrow> j < length (dr_tasks st) \<longrightarrow>
           dr_tasks st ! i = Running k c \<longrightarrow> dr_tasks st ! j = Running k d \<longrightarrow> i = j) \<and>
        (\<forall>k c t. (k, c) \<in> set (dr_done st) \<longrightarrow> dr_now st \<le> t \<longrightarrow> t < c + of_int ttl \<longrightarrow>
           marks (dr_store st) t k = Some DONE))"

lemma run_ok_clock:
  assumes "run_ok marks ttl st" and "dr_now st \<le> t"
  shows "run_ok marks ttl (clock ttl t st)"
  using assms by (force simp: run_ok_def)

lemma run_ok_marks:
  assumes "run_ok marks ttl st" and "\<And>t k. dr_now st \<le> t \<Longrightarrow> marks s t k = marks (dr_store st) t k"
  shows "run_ok marks ttl (st\<lparr>dr_store := s\<rparr>)"
  using assms by (simp add: run_ok_def)

lemma nth_update [simp]: "j < length xs \<Longrightarrow> xs[i := x] ! j = (if i = j then x else xs ! j)"
  by (metis length_list_update list_update_beyond not_le nth_list_update)

text \<open>A delivery that is not running may end or wait without disturbing anything.\<close>

lemma run_ok_settle_idle:
  assumes "run_ok marks ttl st" and "\<And>t k. dr_now st \<le> t \<Longrightarrow> marks s t k = marks (dr_store st) t k"
    and "\<And>k c. ph \<noteq> Running k c"
  shows "run_ok marks ttl (dedup_settle i (ph, s) st)"
  using assms unfolding run_ok_def
  by (auto split: if_splits)

lemma live_claims:
  assumes "\<not> dr_overrun (clock ttl t st)" and "i < length (dr_tasks st)" and "dr_tasks st ! i = Running k c"
  shows "t < c + of_int ttl"
  using assms by (force simp: list_ex_iff expired_claim_def in_set_conv_nth not_le)

context dedup_laws
begin

text \<open>The three ways a step can move the marks of a run that the clock has just reached.\<close>

lemma run_ok_claim:
  assumes ok: "run_ok marks ttl st" and now: "dr_now st = t"
    and claims: "\<not> dr_overrun st \<Longrightarrow> \<forall>j k' c. j < length (dr_tasks st) \<longrightarrow> dr_tasks st ! j = Running k' c \<longrightarrow> t < c + of_int ttl"
    and free: "marks (dr_store st) t k = None"
    and s: "\<And>t'. t \<le> t' \<Longrightarrow> marks s t' = (marks (dr_store st) t')(k := if t' < t + of_int ttl then Some IN_FLIGHT else None)"
  shows "run_ok marks ttl (dedup_settle i (Running k t, s) st)"
proof -
  have nobody: "dr_tasks st ! j \<noteq> Running k c" if "\<not> dr_overrun st" "j < length (dr_tasks st)" for j c
    using ok now claims [OF that(1)] free that unfolding run_ok_def by fastforce
  have "\<not> t < c + of_int ttl" if "\<not> dr_overrun st" "(k, c) \<in> set (dr_done st)" for c
    using ok now free that unfolding run_ok_def by fastforce
  then have undone: "\<not> t' < c + of_int ttl" if "\<not> dr_overrun st" "(k, c) \<in> set (dr_done st)" "t \<le> t'" for c t'
    using that by force
  show ?thesis
    using ok nobody undone unfolding run_ok_def settle_fields now fst_conv snd_conv
    by (auto simp: s split: if_splits)
qed

lemma run_ok_end:
  assumes ok: "run_ok marks ttl st" and now: "dr_now st = t"
    and claims: "\<not> dr_overrun st \<Longrightarrow> t < c + of_int ttl"
    and i: "i < length (dr_tasks st)" "dr_tasks st ! i = Running k c"
    and s: "\<And>t'. t \<le> t' \<Longrightarrow> marks s t' = (marks (dr_store st) t')(k := f t')"
    and f: "\<And>t'. t \<le> t' \<Longrightarrow> known_mark (f t')"
    and d: "d = dr_done st \<or> d = (k, t) # dr_done st \<and> (\<forall>t'. t \<le> t' \<longrightarrow> t' < t + of_int ttl \<longrightarrow> f t' = Some DONE)"
  shows "run_ok marks ttl (dedup_settle i (Ended res, s) st\<lparr>dr_done := d\<rparr>)"
proof -
  have others: "dr_tasks st ! j \<noteq> Running k e" if "\<not> dr_overrun st" "j < length (dr_tasks st)" "j \<noteq> i" for j e
    using ok i that unfolding run_ok_def by blast
  have "\<not> t < e + of_int ttl" if "\<not> dr_overrun st" "(k, e) \<in> set (dr_done st)" for e
  proof
    assume "t < e + of_int ttl"
    then have "marks (dr_store st) t k = Some DONE" using ok now that unfolding run_ok_def by blast
    moreover have "marks (dr_store st) t k = Some IN_FLIGHT"
      using ok now i claims that unfolding run_ok_def by blast
    ultimately show False by simp
  qed
  then have undone: "\<not> t' < e + of_int ttl" if "\<not> dr_overrun st" "(k, e) \<in> set (dr_done st)" "t \<le> t'" for e t'
    using that by force
  show ?thesis
    using ok others undone d f unfolding run_ok_def now
    by (auto simp: s now split: if_splits)
qed

lemma reach_ok:
  assumes "dedup_reach store ttl st0 st" and "run_ok marks ttl st0"
  shows "run_ok marks ttl st"
  using assms(1)
proof induction
  case start
  then show ?case by (rule assms(2))
next
  case (begins st i t msg)
  let ?st = "clock ttl t st"
  have ok: "run_ok marks ttl ?st" by (rule run_ok_clock [OF begins.IH begins.hyps(4)])
  show ?case
  proof (cases "message_key msg")
    case None
    then show ?thesis
      using run_ok_settle_idle [OF ok, of "dr_store st" Plain i] by (simp add: begin_step_def consume_begin_def)
  next
    case (Some k)
    show ?thesis
    proof (cases "marks (dr_store st) t k")
      case None
      note new = claim_new [OF None]
      have "run_ok marks ttl (dedup_settle i (Running k t, snd (dd_claim store k ttl t (dr_store st))) ?st)"
        using new live_claims [of ttl t st] None by (intro run_ok_claim [OF ok]) (auto simp del: clock_fields(5))
      then show ?thesis
        using Some new [of t] by (simp add: begin_step_def consume_begin_def after_claim_def case_prod_beta)
    next
      case (Some m)
      have "known_mark (Some m)" using ok Some unfolding run_ok_def by (metis clock_fields(1,2) order.refl)
      note seen = claim_seen [OF Some this]
      have "run_ok marks ttl (dedup_settle i (ph, snd (dd_claim store k ttl t (dr_store st))) ?st)"
        if "\<And>k c. ph \<noteq> Running k c" for ph
        using seen that by (intro run_ok_settle_idle [OF ok]) auto
      then show ?thesis
        using \<open>message_key msg = Some k\<close> seen [of t]
        by (auto simp: begin_step_def consume_begin_def after_claim_def told_def case_prod_beta split: option.splits)
    qed
  qed
next
  case (reads st i key c t)
  let ?st = "clock ttl t st"
  have ok: "run_ok marks ttl ?st" by (rule run_ok_clock [OF reads.IH reads.hyps(4)])
  have "run_ok marks ttl (dedup_settle i (ph, snd (dd_read store key t (dr_store st))) ?st)"
    if "\<And>k c. ph \<noteq> Running k c" for ph
    using read_keeps that by (intro run_ok_settle_idle [OF ok]) auto
  then show ?case
    using read_told [of key t "dr_store st"]
    by (simp add: dedup_read_step_def consume_read_def after_claim_def told_def case_prod_beta)
next
  case (ends st i key c t out)
  let ?st = "clock ttl t st" and ?s = "dr_store st"
  have ok: "run_ok marks ttl ?st" by (rule run_ok_clock [OF ends.IH ends.hyps(4)])
  have claims: "\<not> dr_overrun ?st \<Longrightarrow> t < c + of_int ttl"
    using live_claims [of ttl t st] ends.hyps(2,3) by blast
  note finish = run_ok_end [OF ok _ claims, of i key]
  show ?case
  proof (cases out)
    case (Returned r)
    then show ?thesis
      using finish [of "dd_complete store key ttl t ?s" "\<lambda>t'. if t' < t + of_int ttl then Some DONE else None"] ends.hyps(2,3)
      by (simp add: end_step_def consume_end_def complete_marks)
  next
    case (RaisedException e)
    then show ?thesis
      using finish [of "dd_release store key t ?s" "\<lambda>t'. None"] ends.hyps(2,3)
      by (simp add: end_step_def consume_end_def release_marks)
  next
    case (RaisedBase e)
    have "\<And>t'. t \<le> t' \<Longrightarrow> known_mark (marks ?s t' key)"
      using ok unfolding run_ok_def by simp
    then show ?thesis
      using finish [of ?s "\<lambda>t'. marks ?s t' key"] ends.hyps(2,3) RaisedBase
      by (simp add: end_step_def consume_end_def)
  qed
next
  case (plain_ends st i t out)
  show ?case
    using run_ok_settle_idle [OF run_ok_clock [OF plain_ends.IH plain_ends.hyps(4)], of "dr_store st"] by simp
qed

end

subsection \<open>The specification of a store, and its refinement\<close>

text \<open>
  What the middleware promises of one delivery, on the marks alone: a marked message is not
  handled, an unmarked one is handled and leaves the mark its outcome calls for.
\<close>

type_synonym marking = "real \<Rightarrow> string \<Rightarrow> string option"

definition spec_deliver ::
  "int \<Rightarrow> message \<Rightarrow> handler_outcome \<Rightarrow> real \<Rightarrow> real \<Rightarrow> marking \<Rightarrow> (consumed \<times> bool) \<times> marking" where
  "spec_deliver ttl msg out t t' M =
     (case message_key msg of
        None \<Rightarrow> ((plain_end out, True), M)
      | Some k \<Rightarrow>
          if M t k = Some DONE then ((AlreadyDone, False), M)
          else if M t k = Some IN_FLIGHT then ((ConcurrentDeliveryError k, False), M)
          else (case out of
                  Returned r \<Rightarrow> ((Result r, True), (\<lambda>u. (M u)(k := if u < t' + of_int ttl then Some DONE else None)))
                | RaisedException e \<Rightarrow> ((Propagated out, True), (\<lambda>u. (M u)(k := None)))
                | RaisedBase e \<Rightarrow>
                    ((Propagated out, True), (\<lambda>u. (M u)(k := if u < t + of_int ttl then Some IN_FLIGHT else None)))))"

definition known_marks :: "marking \<Rightarrow> real \<Rightarrow> bool" where
  "known_marks M t \<longleftrightarrow> (\<forall>u k. t \<le> u \<longrightarrow> known_mark (M u k))"

lemma spec_deliver_known:
  "known_marks M t \<Longrightarrow> t \<le> t' \<Longrightarrow> known_marks (snd (spec_deliver ttl msg out t t' M)) t'"
  by (auto simp: known_marks_def spec_deliver_def split: option.splits handler_outcome.splits)

text \<open>A history of deliveries that nothing overlaps: message, outcome, start and end.\<close>

type_synonym delivery = "message \<times> handler_outcome \<times> real \<times> real"

fun deliver_all :: "'s dedup_store \<Rightarrow> int \<Rightarrow> delivery list \<Rightarrow> 's \<Rightarrow> (consumed \<times> bool) list" where
  "deliver_all store ttl [] s = []"
| "deliver_all store ttl ((msg, out, t, t') # ds) s =
     (case consume_scope store ttl msg out t t' s of (res, s') \<Rightarrow> res # deliver_all store ttl ds s')"

fun spec_deliver_all :: "int \<Rightarrow> delivery list \<Rightarrow> marking \<Rightarrow> (consumed \<times> bool) list" where
  "spec_deliver_all ttl [] M = []"
| "spec_deliver_all ttl ((msg, out, t, t') # ds) M =
     (case spec_deliver ttl msg out t t' M of (res, M') \<Rightarrow> res # spec_deliver_all ttl ds M')"

fun in_order :: "real \<Rightarrow> delivery list \<Rightarrow> bool" where
  "in_order now [] \<longleftrightarrow> True"
| "in_order now ((msg, out, t, t') # ds) \<longleftrightarrow> now \<le> t \<and> t \<le> t' \<and> in_order t' ds"

lemma spec_deliver_all_cong:
  "in_order now ds \<Longrightarrow> (\<And>u. now \<le> u \<Longrightarrow> M u = M' u) \<Longrightarrow> spec_deliver_all ttl ds M = spec_deliver_all ttl ds M'"
proof (induction ds arbitrary: now M M')
  case (Cons d ds)
  obtain msg out t t' where d: "d = (msg, out, t, t')" by (cases d)
  with Cons.prems have t: "M t = M' t" and order: "in_order t' ds" "now \<le> t" "t \<le> t'" by simp_all
  have "fst (spec_deliver ttl msg out t t' M) = fst (spec_deliver ttl msg out t t' M')"
    by (simp add: spec_deliver_def t split: option.splits handler_outcome.splits)
  moreover have "snd (spec_deliver ttl msg out t t' M) u = snd (spec_deliver ttl msg out t t' M') u" if "t' \<le> u" for u
    using that order Cons.prems(2) [of u] by (simp add: spec_deliver_def t split: option.splits handler_outcome.splits)
  then have "spec_deliver_all ttl ds (snd (spec_deliver ttl msg out t t' M))
      = spec_deliver_all ttl ds (snd (spec_deliver ttl msg out t t' M'))"
    by (rule Cons.IH [OF order(1)])
  ultimately show ?case by (simp add: d case_prod_beta)
qed simp

context dedup_laws
begin

lemma consume_scope_refines:
  assumes known: "known_marks (marks s) t" and "t \<le> t'"
  shows "fst (consume_scope store ttl msg out t t' s) = fst (spec_deliver ttl msg out t t' (marks s))"
    and "t' \<le> u \<Longrightarrow> marks (snd (consume_scope store ttl msg out t t' s)) u
       = snd (spec_deliver ttl msg out t t' (marks s)) u"
proof -
  let ?res = "consume_scope store ttl msg out t t' s"
  have "fst ?res = fst (spec_deliver ttl msg out t t' (marks s)) \<and>
      (\<forall>u. t' \<le> u \<longrightarrow> marks (snd ?res) u = snd (spec_deliver ttl msg out t t' (marks s)) u)"
  proof (cases "message_key msg")
    case None
    then show ?thesis by (simp add: consume_scope_def consume_begin_def spec_deliver_def)
  next
    case key: (Some k)
    show ?thesis
    proof (cases "marks s t k")
      case None
      note new = claim_new [OF None]
      show ?thesis
        using key None new [of t] new \<open>t \<le> t'\<close>
        by (auto simp: consume_scope_def consume_begin_def spec_deliver_def after_claim_def consume_end_def
            case_prod_beta complete_marks release_marks split: handler_outcome.splits)
    next
      case (Some m)
      have "known_mark (Some m)" using known Some unfolding known_marks_def by (metis order.refl)
      note seen = claim_seen [OF Some this]
      let ?s = "snd (dd_claim store k ttl t s)"
      have again: "marks ?s t k = Some m" using seen [of t] Some by simp
      have keep: "marks ?s u = marks s u" "marks (snd (dd_read store k t ?s)) u = marks s u" if "t' \<le> u" for u
        using seen [of u] that \<open>t \<le> t'\<close> by (simp_all add: read_keeps)
      consider "m = IN_FLIGHT" | "m = DONE" using \<open>known_mark (Some m)\<close> by (auto simp: known_mark_def)
      then show ?thesis
        using key Some again keep seen [of t] \<open>t \<le> t'\<close>
        by cases (auto simp: consume_scope_def consume_begin_def consume_read_def spec_deliver_def
            after_claim_def told_def read_told case_prod_beta split: option.splits)
    qed
  qed
  then show "fst ?res = fst (spec_deliver ttl msg out t t' (marks s))"
    and "t' \<le> u \<Longrightarrow> marks (snd ?res) u = snd (spec_deliver ttl msg out t t' (marks s)) u"
    by simp_all
qed

lemma deliver_all_refines:
  "in_order now ds \<Longrightarrow> known_marks (marks s) now \<Longrightarrow>
     deliver_all store ttl ds s = spec_deliver_all ttl ds (marks s)"
proof (induction ds arbitrary: now s)
  case (Cons d ds)
  obtain msg out t t' where d: "d = (msg, out, t, t')" by (cases d)
  with Cons.prems have order: "now \<le> t" "t \<le> t'" "in_order t' ds" by simp_all
  then have known: "known_marks (marks s) t" using Cons.prems(2) by (simp add: known_marks_def)
  let ?s = "snd (consume_scope store ttl msg out t t' s)"
  note here = consume_scope_refines [OF known order(2)]
  have "known_marks (marks ?s) t'"
    using spec_deliver_known [OF known order(2)] here(2) by (simp add: known_marks_def)
  then have "deliver_all store ttl ds ?s = spec_deliver_all ttl ds (marks ?s)"
    by (rule Cons.IH [OF order(3)])
  also have "\<dots> = spec_deliver_all ttl ds (snd (spec_deliver ttl msg out t t' (marks s)))"
    by (rule spec_deliver_all_cong [OF order(3)]) (simp add: here(2))
  finally show ?case using here(1) by (simp add: d case_prod_beta)
qed simp

end

subsection \<open>Properties\<close>

text \<open>A Redis server that holds nothing under the prefix of the store.\<close>

definition prefix_free :: "string \<Rightarrow> keyspace \<Rightarrow> real \<Rightarrow> bool" where
  "prefix_free prefix ks t \<longleftrightarrow> (\<forall>k. live_strings t ks (dedup_key prefix k) = None)"

lemma prefix_free_known: "prefix_free prefix (ks_of s) t \<Longrightarrow> known_marks (redis_marks ks_of prefix s) t"
  by (simp add: prefix_free_def known_marks_def redis_marks_def live_strings_expire [of t])

lemma prefix_free_none: "prefix_free prefix (ks_of s) t \<Longrightarrow> t \<le> u \<Longrightarrow> redis_marks ks_of prefix s u k = None"
  by (auto simp: prefix_free_def redis_marks_def intro: live_strings_expire)





lemma expired_claim_simps [simp]:
  "\<not> expired_claim ttl t (Ended res)" "\<not> expired_claim ttl t Idle"
  by (simp_all add: expired_claim_def)





definition order_message :: message where
  "order_message = \<lparr>message_id = Some ''m1'', correlation_id = None\<rparr>"





text \<open>
  Both stores refine the specification on marks: any history of deliveries that follow one
  another gives the results of \<open>spec_deliver\<close> on either store, so the in-process store can stand in
  for Redis.
\<close>

theorem dedup_stores_refine_spec:
  assumes "redis_contract r ks_of" and "0 < ttl" and "prefix_free prefix (ks_of s0) now" and "in_order now ds"
  shows "deliver_all memory_dedup ttl ds (\<lambda>_. None) = spec_deliver_all ttl ds (\<lambda>_ _. None)
     \<and> deliver_all (redis_dedup r prefix) ttl ds s0 = spec_deliver_all ttl ds (\<lambda>_ _. None)"
proof
  have "deliver_all memory_dedup ttl ds (\<lambda>_. None) = spec_deliver_all ttl ds (mem_marks (\<lambda>_. None))"
    by (rule mem_dedup.deliver_all_refines [OF assms(4)]) (simp add: known_marks_def mem_marks_alt)
  also have "\<dots> = spec_deliver_all ttl ds (\<lambda>_ _. None)"
    by (rule spec_deliver_all_cong [OF assms(4)]) (simp add: mem_marks_alt fun_eq_iff)
  finally show "deliver_all memory_dedup ttl ds (\<lambda>_. None) = spec_deliver_all ttl ds (\<lambda>_ _. None)" .
  have "deliver_all (redis_dedup r prefix) ttl ds s0 = spec_deliver_all ttl ds (redis_marks ks_of prefix s0)"
    by (rule dedup_laws.deliver_all_refines [OF redis_dedup_laws [OF assms(1,2)] assms(4)])
       (rule prefix_free_known [where ks_of = ks_of, OF assms(3)])
  also have "\<dots> = spec_deliver_all ttl ds (\<lambda>_ _. None)"
    by (rule spec_deliver_all_cong [OF assms(4)])
       (simp add: fun_eq_iff prefix_free_none [where ks_of = ks_of, OF assms(3)])
  finally show "deliver_all (redis_dedup r prefix) ttl ds s0 = spec_deliver_all ttl ds (\<lambda>_ _. None)" .
qed

definition order_history :: "delivery list" where
  "order_history =
     [(order_message, RaisedException ''boom'', 0, 1), (order_message, Returned ''ok'', 2, 3),
      (order_message, Returned ''again'', 4, 5), (order_message, Returned ''late'', 70, 71)]"

theorem dedup_stores_refine_spec_witness:
  "deliver_all memory_dedup 60 order_history (\<lambda>_. None)
     = [(Propagated (RaisedException ''boom''), True), (Result ''ok'', True), (AlreadyDone, False), (Result ''late'', True)]
   \<and> deliver_all (redis_dedup keyspace_redis ''d:'') 60 order_history empty_keyspace
     = deliver_all memory_dedup 60 order_history (\<lambda>_. None)"
proof -
  have "prefix_free ''d:'' (id empty_keyspace) 0"
    by (simp add: prefix_free_def empty_keyspace_def live_strings_def)
  moreover have "in_order 0 order_history" by (simp add: order_history_def)
  moreover have "spec_deliver_all 60 order_history (\<lambda>_ _. None)
     = [(Propagated (RaisedException ''boom''), True), (Result ''ok'', True), (AlreadyDone, False), (Result ''late'', True)]"
    by (simp add: order_history_def spec_deliver_def order_message_def message_key_def)
  ultimately show ?thesis
    using dedup_stores_refine_spec [OF keyspace_contract, of 60 "''d:''" empty_keyspace 0 order_history] by simp
qed

text \<open>
  What a redelivery does is decided by how the first delivery ended. After a return it is
  skipped while the completion is remembered. After an exception it is handled again. After a
  \<^verbatim>\<open>BaseException\<close> such as a cancellation the claim stays: until it expires every redelivery is
  rejected as concurrent, although nobody is handling the message.
\<close>

theorem redelivery_follows_outcome:
  assumes "redis_contract r ks_of" and "0 < ttl" and "prefix_free prefix (ks_of s0) t"
    and "message_key msg = Some k" and "message_key msg' = Some k"
    and "t \<le> t'" and "t' \<le> u" and "u \<le> u'"
  shows "(\<forall>results \<in> {deliver_all memory_dedup ttl [(msg, out, t, t'), (msg', out', u, u')] (\<lambda>_. None),
                      deliver_all (redis_dedup r prefix) ttl [(msg, out, t, t'), (msg', out', u, u')] s0}.
     snd (results ! 0) \<and>
     (case out of
        Returned result \<Rightarrow> fst (results ! 0) = Result result \<and>
          (if u < t' + of_int ttl then results ! 1 = (AlreadyDone, False) else snd (results ! 1))
      | RaisedException e \<Rightarrow> fst (results ! 0) = Propagated out \<and> snd (results ! 1)
      | RaisedBase e \<Rightarrow> fst (results ! 0) = Propagated out \<and>
          (if u < t + of_int ttl then results ! 1 = (ConcurrentDeliveryError k, False) else snd (results ! 1))))"
proof -
  let ?ds = "[(msg, out, t, t'), (msg', out', u, u')]"
  have "in_order t ?ds" using assms(6-8) by simp
  from dedup_stores_refine_spec [OF assms(1-3) this]
  show ?thesis
    using assms(4-8)
    by (simp add: spec_deliver_def case_prod_beta split: handler_outcome.splits)
qed

theorem redelivery_follows_outcome_witness:
  "deliver_all memory_dedup 60 [(order_message, RaisedBase ''CancelledError'', 0, 1), (order_message, Returned ''ok'', 2, 3)]
       (\<lambda>_. None) ! 1 = (ConcurrentDeliveryError ''m1'', False)"
proof -
  have "prefix_free ''d:'' (id empty_keyspace) 0"
    by (simp add: prefix_free_def empty_keyspace_def live_strings_def)
  moreover have "message_key order_message = Some ''m1''" by (simp add: order_message_def message_key_def)
  ultimately show ?thesis
    using redelivery_follows_outcome [OF keyspace_contract, of 60 "''d:''" empty_keyspace 0 order_message "''m1''"
        order_message 1 2 3 "RaisedBase ''CancelledError''" "Returned ''ok''"] by simp
qed

end
