(* ===== verification/Webhook_Inbox.thy ===== *)
theory Webhook_Inbox
  imports Prelude
begin

text \<open>
  \<^verbatim>\<open>db/webhook_inbox.py\<close>: inbound events are recorded once, claimed by one worker at a time,
  handled in the transaction that marks them processed, and given up after their budget of
  attempts. A database is the table of events, in insertion order, together with the data of the
  application (\<open>'d\<close>), which only handlers change. Each call is one transaction, and each conditional
  \<open>UPDATE\<close> is atomic; a handler's effect on the data is applied by the transaction that commits it.
  Times are real seconds; dates are unbounded.

  Workers that run concurrently, crash, outlive their claim and are overtaken by a reclaim are the
  inductive relation \<open>inbox_reach\<close>.
\<close>

subsection \<open>Events\<close>

datatype WebhookEventStatusEnum = RECEIVED | PROCESSING | PROCESSED | FAILED

record webhook_event =
  ev_id :: uuid
  ev_created_at :: real
  provider :: string
  external_id :: string
  event_type :: string
  payload :: string
  ev_status :: WebhookEventStatusEnum
  attempts :: int
  max_attempts :: int
  available_at :: real
  started_at :: "real option"
  processed_at :: "real option"
  last_error :: "string option"

record 'd inbox_db =
  ib_rows :: "webhook_event list"
  ib_data :: 'd

record WebhookInbox =
  wi_max_attempts :: int
  wi_backoff_base_seconds :: real
  wi_stale_after :: "real option"

datatype inbox_error = ValueError

definition DEFAULT_WEBHOOK_MAX_ATTEMPTS :: int where
  "DEFAULT_WEBHOOK_MAX_ATTEMPTS = 5"

definition DEFAULT_WEBHOOK_BACKOFF_SECONDS :: real where
  "DEFAULT_WEBHOOK_BACKOFF_SECONDS = 60"

definition STALE_WEBHOOK_ERROR :: string where
  "STALE_WEBHOOK_ERROR =
     ''The worker stopped responding while processing this event, and the attempt budget is spent.''"

definition ERROR_MAX_LENGTH :: nat where
  "ERROR_MAX_LENGTH = 2000"

definition inbox_init :: "int \<Rightarrow> real \<Rightarrow> real option \<Rightarrow> inbox_error + WebhookInbox" where
  "inbox_init n backoff stale_after =
     (if n < 1 then Inl ValueError
      else if backoff < 0 then Inl ValueError
      else if (\<exists>s. stale_after = Some s \<and> s \<le> 0) then Inl ValueError
      else Inr \<lparr>wi_max_attempts = n, wi_backoff_base_seconds = backoff, wi_stale_after = stale_after\<rparr>)"

subsection \<open>Operations\<close>

text \<open>\<open>UPDATE ... WHERE P SET f\<close>.\<close>

definition update_where ::
  "(webhook_event \<Rightarrow> bool) \<Rightarrow> (webhook_event \<Rightarrow> webhook_event) \<Rightarrow> webhook_event list \<Rightarrow> webhook_event list" where
  "update_where P f rows = map (\<lambda>r. if P r then f r else r) rows"

definition record_event ::
  "WebhookInbox \<Rightarrow> string \<Rightarrow> string \<Rightarrow> string \<Rightarrow> string \<Rightarrow> uuid \<Rightarrow> real \<Rightarrow> 'd inbox_db
     \<Rightarrow> (inbox_error + uuid option) \<times> 'd inbox_db" where
  "record_event inbox prov ext kind body new_id now db =
     (if prov = [] \<or> ext = [] then (Inl ValueError, db)
      else if list_ex (\<lambda>r. provider r = prov \<and> external_id r = ext) (ib_rows db) then (Inr None, db)
      else (Inr (Some new_id),
            db\<lparr>ib_rows := ib_rows db @
              [\<lparr>ev_id = new_id, ev_created_at = now, provider = prov, external_id = ext, event_type = kind,
                payload = body, ev_status = RECEIVED, attempts = 0, max_attempts = wi_max_attempts inbox,
                available_at = now, started_at = None, processed_at = None, last_error = None\<rparr>]\<rparr>))"

definition get_event :: "uuid \<Rightarrow> 'd inbox_db \<Rightarrow> webhook_event option" where
  "get_event e db = find (\<lambda>r. ev_id r = e) (ib_rows db)"

definition claimable :: "uuid \<Rightarrow> real \<Rightarrow> webhook_event \<Rightarrow> bool" where
  "claimable e now r \<longleftrightarrow> ev_id r = e \<and> ev_status r = RECEIVED \<and> available_at r \<le> now"

definition claim :: "uuid \<Rightarrow> real \<Rightarrow> 'd inbox_db \<Rightarrow> webhook_event option \<times> 'd inbox_db" where
  "claim e now db =
     (let db' = db\<lparr>ib_rows := update_where (claimable e now)
            (\<lambda>r. r\<lparr>ev_status := PROCESSING, started_at := Some now, attempts := attempts r + 1\<rparr>) (ib_rows db)\<rparr>
      in if \<not> list_ex (claimable e now) (ib_rows db) then (None, db)
         else (get_event e db', db'))"

definition held :: "uuid \<Rightarrow> webhook_event \<Rightarrow> bool" where
  "held e r \<longleftrightarrow> ev_id r = e \<and> ev_status r = PROCESSING"

definition fail ::
  "WebhookInbox \<Rightarrow> uuid \<Rightarrow> string \<Rightarrow> real \<Rightarrow> 'd inbox_db \<Rightarrow> WebhookEventStatusEnum option \<times> 'd inbox_db" where
  "fail inbox e error now db =
     (let message = take ERROR_MAX_LENGTH error;
          spent = (\<lambda>r. held e r \<and> max_attempts r \<le> attempts r)
      in if list_ex spent (ib_rows db)
         then (Some FAILED,
               db\<lparr>ib_rows := update_where spent (\<lambda>r. r\<lparr>ev_status := FAILED, last_error := Some message\<rparr>) (ib_rows db)\<rparr>)
         else (case find (held e) (ib_rows db) of
                 None \<Rightarrow> (None, db)
               | Some r0 \<Rightarrow>
                   let rows = update_where (held e)
                         (\<lambda>r. r\<lparr>ev_status := RECEIVED, started_at := None, last_error := Some message\<rparr>) (ib_rows db);
                       delay = wi_backoff_base_seconds inbox * 2 ^ nat (max (attempts r0 - 1) 0)
                   in (Some RECEIVED,
                       db\<lparr>ib_rows := update_where (\<lambda>r. ev_id r = e) (\<lambda>r. r\<lparr>available_at := now + delay\<rparr>) rows\<rparr>)))"

text \<open>
  The transaction of \<open>process\<close> around a handler that succeeded: its effect and the mark commit
  together, or, when the row is no longer being processed, both are rolled back.
\<close>

definition commit_processed :: "uuid \<Rightarrow> ('d \<Rightarrow> 'd) \<Rightarrow> real \<Rightarrow> 'd inbox_db \<Rightarrow> WebhookEventStatusEnum option \<times> 'd inbox_db" where
  "commit_processed e effect now db =
     (if \<not> list_ex (held e) (ib_rows db) then (None, db)
      else (Some PROCESSED,
            \<lparr>ib_rows = update_where (held e)
               (\<lambda>r. r\<lparr>ev_status := PROCESSED, processed_at := Some now, last_error := None\<rparr>) (ib_rows db),
             ib_data = effect (ib_data db)\<rparr>))"

text \<open>A handler raises (with the text recorded as the error) or has an effect.\<close>

type_synonym 'd inbox_handler = "webhook_event \<Rightarrow> 'd \<Rightarrow> string + 'd"

definition process ::
  "WebhookInbox \<Rightarrow> uuid \<Rightarrow> 'd inbox_handler \<Rightarrow> real \<Rightarrow> 'd inbox_db \<Rightarrow> WebhookEventStatusEnum option \<times> 'd inbox_db" where
  "process inbox e handler now db =
     (case claim e now db of
        (None, db1) \<Rightarrow> (None, db1)
      | (Some event, db1) \<Rightarrow>
          (case handler event (ib_data db1) of
             Inl error \<Rightarrow> fail inbox e error now db1
           | Inr d \<Rightarrow> commit_processed e (\<lambda>_. d) now db1))"

definition due :: "nat \<Rightarrow> real \<Rightarrow> 'd inbox_db \<Rightarrow> uuid list" where
  "due limit now db =
     map ev_id (take limit
       (sort_key ev_created_at (filter (\<lambda>r. ev_status r = RECEIVED \<and> available_at r \<le> now) (ib_rows db))))"

record InboxDrainReport =
  rep_processed :: "uuid list"
  rep_retrying :: "uuid list"
  rep_failed :: "uuid list"
  rep_skipped :: "uuid list"

definition empty_report :: InboxDrainReport where
  "empty_report = \<lparr>rep_processed = [], rep_retrying = [], rep_failed = [], rep_skipped = []\<rparr>"

definition stale :: "real \<Rightarrow> webhook_event \<Rightarrow> bool" where
  "stale cutoff r \<longleftrightarrow> ev_status r = PROCESSING \<and> (\<exists>s. started_at r = Some s \<and> s < cutoff)"

definition reclaim_stale :: "WebhookInbox \<Rightarrow> real \<Rightarrow> 'd inbox_db \<Rightarrow> InboxDrainReport \<times> 'd inbox_db" where
  "reclaim_stale inbox now db =
     (case wi_stale_after inbox of
        None \<Rightarrow> (empty_report, db)
      | Some after \<Rightarrow>
          let spent = (\<lambda>r. stale (now - after) r \<and> max_attempts r \<le> attempts r);
              rows1 = update_where spent (\<lambda>r. r\<lparr>ev_status := FAILED, last_error := Some STALE_WEBHOOK_ERROR\<rparr>) (ib_rows db);
              again = (\<lambda>r. stale (now - after) r \<and> attempts r < max_attempts r);
              rows2 = update_where again (\<lambda>r. r\<lparr>ev_status := RECEIVED, started_at := None\<rparr>) rows1
          in (empty_report\<lparr>rep_failed := map ev_id (filter spent (ib_rows db)),
                           rep_retrying := map ev_id (filter again rows1)\<rparr>,
              db\<lparr>ib_rows := rows2\<rparr>))"

fun process_all ::
  "WebhookInbox \<Rightarrow> 'd inbox_handler \<Rightarrow> real \<Rightarrow> uuid list \<Rightarrow> InboxDrainReport \<Rightarrow> 'd inbox_db \<Rightarrow> InboxDrainReport \<times> 'd inbox_db" where
  "process_all inbox handler now [] rep db = (rep, db)"
| "process_all inbox handler now (e # es) rep db =
     (case process inbox e handler now db of
        (out, db') \<Rightarrow>
          process_all inbox handler now es
            (case out of
               Some PROCESSED \<Rightarrow> rep\<lparr>rep_processed := rep_processed rep @ [e]\<rparr>
             | Some RECEIVED \<Rightarrow> rep\<lparr>rep_retrying := rep_retrying rep @ [e]\<rparr>
             | Some FAILED \<Rightarrow> rep\<lparr>rep_failed := rep_failed rep @ [e]\<rparr>
             | _ \<Rightarrow> rep\<lparr>rep_skipped := rep_skipped rep @ [e]\<rparr>)
            db')"

definition drain_once :: "WebhookInbox \<Rightarrow> 'd inbox_handler \<Rightarrow> nat \<Rightarrow> real \<Rightarrow> 'd inbox_db \<Rightarrow> InboxDrainReport \<times> 'd inbox_db" where
  "drain_once inbox handler limit now db =
     (case reclaim_stale inbox now db of
        (rep, db1) \<Rightarrow> process_all inbox handler now (due limit now db1) rep db1)"

subsection \<open>Concurrent workers\<close>

text \<open>
  A run of deliveries, workers and reclaims. \<open>ir_workers\<close> are the events whose handler is running,
  once per handler; \<open>ir_runs\<close> records every claim and \<open>ir_log\<close> every committed effect, the last
  one first.
\<close>

record 'd inbox_run =
  ir_db :: "'d inbox_db"
  ir_workers :: "uuid list"
  ir_runs :: "uuid list"
  ir_log :: "(uuid \<times> ('d \<Rightarrow> 'd)) list"

definition inbox_start :: "'d \<Rightarrow> 'd inbox_run" where
  "inbox_start d = \<lparr>ir_db = \<lparr>ib_rows = [], ib_data = d\<rparr>, ir_workers = [], ir_runs = [], ir_log = []\<rparr>"

definition deliver_step where
  "deliver_step inbox prov ext kind body new_id t c =
     c\<lparr>ir_db := snd (record_event inbox prov ext kind body new_id t (ir_db c))\<rparr>"

definition claim_step where
  "claim_step e t c =
     (case claim e t (ir_db c) of
        (None, db) \<Rightarrow> c\<lparr>ir_db := db\<rparr>
      | (Some event, db) \<Rightarrow> c\<lparr>ir_db := db, ir_workers := e # ir_workers c, ir_runs := e # ir_runs c\<rparr>)"

definition commit_step where
  "commit_step e effect t c =
     (case commit_processed e effect t (ir_db c) of
        (out, db) \<Rightarrow> c\<lparr>ir_db := db, ir_workers := remove1 e (ir_workers c),
                         ir_log := (if out = Some PROCESSED then (e, effect) # ir_log c else ir_log c)\<rparr>)"

definition fail_step where
  "fail_step inbox e error t c =
     c\<lparr>ir_db := snd (fail inbox e error t (ir_db c)), ir_workers := remove1 e (ir_workers c)\<rparr>"

definition crash_step where
  "crash_step e c = c\<lparr>ir_workers := remove1 e (ir_workers c)\<rparr>"

definition reclaim_step where
  "reclaim_step inbox t c = c\<lparr>ir_db := snd (reclaim_stale inbox t (ir_db c))\<rparr>"

text \<open>The times of the steps are arbitrary, so workers whose clocks disagree are covered.\<close>

inductive inbox_reach :: "WebhookInbox \<Rightarrow> 'd inbox_run \<Rightarrow> 'd inbox_run \<Rightarrow> bool"
  for inbox :: WebhookInbox and c0 :: "'d inbox_run" where
  start: "inbox_reach inbox c0 c0"
| delivers: "inbox_reach inbox c0 c \<Longrightarrow> new_id \<notin> ev_id ` set (ib_rows (ir_db c)) \<Longrightarrow>
    inbox_reach inbox c0 (deliver_step inbox prov ext kind body new_id t c)"
| claims: "inbox_reach inbox c0 c \<Longrightarrow> inbox_reach inbox c0 (claim_step e t c)"
| commits: "inbox_reach inbox c0 c \<Longrightarrow> e \<in> set (ir_workers c) \<Longrightarrow> inbox_reach inbox c0 (commit_step e effect t c)"
| fails: "inbox_reach inbox c0 c \<Longrightarrow> e \<in> set (ir_workers c) \<Longrightarrow> inbox_reach inbox c0 (fail_step inbox e error t c)"
| crashes: "inbox_reach inbox c0 c \<Longrightarrow> e \<in> set (ir_workers c) \<Longrightarrow> inbox_reach inbox c0 (crash_step e c)"
| reclaims: "inbox_reach inbox c0 c \<Longrightarrow> inbox_reach inbox c0 (reclaim_step inbox t c)"

subsection \<open>Every operation rewrites rows in place\<close>

definition row_key :: "webhook_event \<Rightarrow> string \<times> string" where
  "row_key r = (provider r, external_id r)"

text \<open>What no operation changes of a row.\<close>

definition same_event :: "webhook_event \<Rightarrow> webhook_event \<Rightarrow> bool" where
  "same_event r r' \<longleftrightarrow> ev_id r' = ev_id r \<and> row_key r' = row_key r \<and> max_attempts r' = max_attempts r
     \<and> ev_created_at r' = ev_created_at r \<and> event_type r' = event_type r \<and> payload r' = payload r"

definition claimed_row :: "uuid \<Rightarrow> real \<Rightarrow> webhook_event \<Rightarrow> webhook_event" where
  "claimed_row e now r = (if claimable e now r
     then r\<lparr>ev_status := PROCESSING, started_at := Some now, attempts := attempts r + 1\<rparr> else r)"

definition processed_row :: "uuid \<Rightarrow> real \<Rightarrow> webhook_event \<Rightarrow> webhook_event" where
  "processed_row e now r = (if held e r
     then r\<lparr>ev_status := PROCESSED, processed_at := Some now, last_error := None\<rparr> else r)"

definition reclaimed_row :: "real \<Rightarrow> webhook_event \<Rightarrow> webhook_event" where
  "reclaimed_row cutoff r =
     (if stale cutoff r
      then if max_attempts r \<le> attempts r
           then r\<lparr>ev_status := FAILED, last_error := Some STALE_WEBHOOK_ERROR\<rparr>
           else r\<lparr>ev_status := RECEIVED, started_at := None\<rparr>
      else r)"

lemma claim_rows: "ib_rows (snd (claim e now db)) = map (claimed_row e now) (ib_rows db)"
    and claim_data: "ib_data (snd (claim e now db)) = ib_data db"
proof -
  have "map (claimed_row e now) (ib_rows db) = ib_rows db" if "\<not> list_ex (claimable e now) (ib_rows db)"
    using that by (intro map_idI) (auto simp: claimed_row_def list_ex_iff)
  then show "ib_rows (snd (claim e now db)) = map (claimed_row e now) (ib_rows db)"
    by (auto simp: claim_def Let_def update_where_def claimed_row_def)
qed (simp add: claim_def Let_def)

lemma commit_rows: "ib_rows (snd (commit_processed e f now db)) = map (processed_row e now) (ib_rows db)"
proof -
  have "map (processed_row e now) (ib_rows db) = ib_rows db" if "\<not> list_ex (held e) (ib_rows db)"
    using that by (intro map_idI) (auto simp: processed_row_def list_ex_iff)
  then show ?thesis by (auto simp: commit_processed_def update_where_def processed_row_def)
qed

lemma reclaim_rows:
  "ib_rows (snd (reclaim_stale inbox now db)) =
     (case wi_stale_after inbox of None \<Rightarrow> ib_rows db
      | Some after \<Rightarrow> map (reclaimed_row (now - after)) (ib_rows db))"
  "ib_data (snd (reclaim_stale inbox now db)) = ib_data db"
  by (auto simp: reclaim_stale_def Let_def update_where_def reclaimed_row_def stale_def split: option.splits)

text \<open>A failure: the row that is being processed gives up or goes back, and nothing else moves.\<close>

definition failed_row :: "WebhookInbox \<Rightarrow> uuid \<Rightarrow> string \<Rightarrow> real \<Rightarrow> webhook_event \<Rightarrow> webhook_event" where
  "failed_row inbox e error now r =
     (if held e r
      then if max_attempts r \<le> attempts r
           then r\<lparr>ev_status := FAILED, last_error := Some (take ERROR_MAX_LENGTH error)\<rparr>
           else r\<lparr>ev_status := RECEIVED, started_at := None, last_error := Some (take ERROR_MAX_LENGTH error),
                  available_at := now + wi_backoff_base_seconds inbox * 2 ^ nat (max (attempts r - 1) 0)\<rparr>
      else r)"

lemma fail_rows:
  assumes "distinct (map ev_id (ib_rows db))"
  shows "ib_rows (snd (fail inbox e error now db)) = map (failed_row inbox e error now) (ib_rows db)"
    and "ib_data (snd (fail inbox e error now db)) = ib_data db"
proof -
  have only: "r' = r" if "r \<in> set (ib_rows db)" "r' \<in> set (ib_rows db)" "ev_id r = ev_id r'" for r r'
    using assms that by (metis distinct_map inj_onD)
  show "ib_rows (snd (fail inbox e error now db)) = map (failed_row inbox e error now) (ib_rows db)"
  proof (cases "find (held e) (ib_rows db)")
    case None
    then have "\<not> held e r" if "r \<in> set (ib_rows db)" for r
      using that by (auto simp: find_None_iff)
    then show ?thesis
      by (auto simp: fail_def Let_def None list_ex_iff failed_row_def intro!: map_idI [symmetric])
  next
    case (Some r0)
    then have r0: "r0 \<in> set (ib_rows db)" "held e r0" by (auto simp: find_Some_iff)
    then have held: "held e r \<longleftrightarrow> r = r0" "ev_id r = e \<longleftrightarrow> r = r0" if "r \<in> set (ib_rows db)" for r
      using only [OF that r0(1)] by (auto simp: held_def)
    have spent: "list_ex (\<lambda>r. held e r \<and> max_attempts r \<le> attempts r) (ib_rows db) \<longleftrightarrow> max_attempts r0 \<le> attempts r0"
      using held r0 by (auto simp: list_ex_iff)
    show ?thesis
    proof (cases "max_attempts r0 \<le> attempts r0")
      case True
      then show ?thesis
        using held by (simp add: fail_def Let_def spent update_where_def failed_row_def)
    next
      case False
      have "\<not> held e (r0\<lparr>ev_status := RECEIVED, started_at := s, last_error := m\<rparr>)" for s m
        by (simp add: held_def)
      with False show ?thesis
        using held r0 by (simp add: fail_def Let_def spent Some update_where_def failed_row_def held_def [of e r0])
    qed
  qed
  show "ib_data (snd (fail inbox e error now db)) = ib_data db"
    by (simp add: fail_def Let_def split: option.splits)
qed

subsection \<open>What every reachable state satisfies\<close>

definition terminal :: "webhook_event \<Rightarrow> bool" where
  "terminal r \<longleftrightarrow> ev_status r = PROCESSED \<or> ev_status r = FAILED"

lemmas row_funs = claimed_row_def processed_row_def reclaimed_row_def failed_row_def
lemmas row_guards = claimable_def held_def stale_def

lemma terminal_rows:
  assumes "terminal r"
  shows "claimed_row e t r = r" "processed_row e t r = r" "reclaimed_row t r = r" "failed_row inbox e error t r = r"
  using assms by (auto simp: row_funs row_guards terminal_def)

lemma row_same_event:
  "same_event r (claimed_row e t r)" "same_event r (processed_row e t r)"
  "same_event r (reclaimed_row t r)" "same_event r (failed_row inbox e error t r)"
  by (simp_all add: row_funs same_event_def row_key_def)

lemma same_event_maps:
  assumes "\<And>r. same_event r (f r)"
  shows "map ev_id (map f rows) = map ev_id rows" and "map row_key (map f rows) = map row_key rows"
  using assms by (simp_all add: same_event_def)

text \<open>The row agrees with the runs of its handler, and has not used more than its budget.\<close>

definition row_ok :: "WebhookInbox \<Rightarrow> uuid list \<Rightarrow> webhook_event \<Rightarrow> bool" where
  "row_ok inbox runs r \<longleftrightarrow> max_attempts r = wi_max_attempts inbox
     \<and> attempts r = int (count_list runs (ev_id r)) \<and> attempts r \<le> max_attempts r
     \<and> (ev_status r = RECEIVED \<longrightarrow> attempts r < max_attempts r)"

lemma row_ok_steps:
  assumes "row_ok inbox runs r"
  shows "row_ok inbox runs (processed_row e t r)" "row_ok inbox runs (reclaimed_row t r)"
    "row_ok inbox runs (failed_row inbox e error t r)"
  using assms by (auto simp: row_ok_def row_funs row_guards)

definition processed_ids :: "webhook_event list \<Rightarrow> uuid set" where
  "processed_ids rows = ev_id ` {r \<in> set rows. ev_status r = PROCESSED}"

text \<open>The data a log of committed effects, the last one first, leaves of the initial data.\<close>

definition applied :: "(uuid \<times> ('d \<Rightarrow> 'd)) list \<Rightarrow> 'd \<Rightarrow> 'd" where
  "applied log_of d = foldr snd log_of d"

definition inbox_ok :: "WebhookInbox \<Rightarrow> 'd \<Rightarrow> 'd inbox_run \<Rightarrow> bool" where
  "inbox_ok inbox d c \<longleftrightarrow>
     distinct (map ev_id (ib_rows (ir_db c))) \<and> distinct (map row_key (ib_rows (ir_db c)))
     \<and> (\<forall>r \<in> set (ib_rows (ir_db c)). row_ok inbox (ir_runs c) r)
     \<and> set (ir_runs c) \<subseteq> ev_id ` set (ib_rows (ir_db c))
     \<and> distinct (map fst (ir_log c)) \<and> fst ` set (ir_log c) = processed_ids (ib_rows (ir_db c))
     \<and> ib_data (ir_db c) = applied (ir_log c) d"

lemma processed_ids_map:
  assumes "\<And>r. r \<in> set rows \<Longrightarrow> ev_id (f r) = ev_id r \<and> (ev_status (f r) = PROCESSED \<longleftrightarrow> ev_status r = PROCESSED)"
  shows "processed_ids (map f rows) = processed_ids rows"
proof -
  have "{r \<in> set (map f rows). ev_status r = PROCESSED} = f ` {r \<in> set rows. ev_status r = PROCESSED}"
    using assms by auto
  then have "processed_ids (map f rows) = (\<lambda>r. ev_id (f r)) ` {r \<in> set rows. ev_status r = PROCESSED}"
    by (simp only: processed_ids_def image_image)
  also have "\<dots> = processed_ids rows"
    using assms by (auto simp: processed_ids_def intro!: image_cong)
  finally show ?thesis .
qed

lemma same_event_ids: "(\<And>r. same_event r (f r)) \<Longrightarrow> ev_id ` f ` A = ev_id ` A"
  by (simp add: image_image same_event_def)

text \<open>A step that only rewrites rows, without completing any.\<close>

lemma inbox_ok_rows:
  assumes ok: "inbox_ok inbox d c"
    and f: "\<And>r. same_event r (f r)" "\<And>r. ev_status (f r) = PROCESSED \<longleftrightarrow> ev_status r = PROCESSED"
    and row: "\<And>r. r \<in> set (ib_rows (ir_db c)) \<Longrightarrow> row_ok inbox runs (f r)"
    and runs: "set runs \<subseteq> ev_id ` set (ib_rows (ir_db c))"
    and db: "ib_rows db = map f (ib_rows (ir_db c))" "ib_data db = ib_data (ir_db c)"
  shows "inbox_ok inbox d (c\<lparr>ir_db := db, ir_workers := ws, ir_runs := runs\<rparr>)"
proof -
  have "processed_ids (ib_rows db) = processed_ids (ib_rows (ir_db c))"
    unfolding db by (rule processed_ids_map) (use f in \<open>auto simp: same_event_def\<close>)
  moreover have "distinct (map ev_id (ib_rows db))" "distinct (map row_key (ib_rows db))"
    using ok unfolding db same_event_maps [OF f(1)] by (simp_all add: inbox_ok_def)
  moreover have "ev_id ` set (ib_rows db) = ev_id ` set (ib_rows (ir_db c))"
    using same_event_ids [OF f(1)] by (simp add: db)
  moreover have "\<forall>r \<in> set (ib_rows db). row_ok inbox runs r"
    using row by (simp add: db)
  ultimately show ?thesis
    using ok runs db(2) by (simp add: inbox_ok_def)
qed

lemma claim_out:
  "(fst (claim e t db) = None \<longleftrightarrow> \<not> list_ex (claimable e t) (ib_rows db))"
  by (auto simp: claim_def Let_def get_event_def find_None_iff list_ex_iff update_where_def claimable_def)

lemma claim_step_rows: "ib_rows (ir_db (claim_step e t c)) = map (claimed_row e t) (ib_rows (ir_db c))"
  using claim_rows [of e t "ir_db c"] by (auto simp: claim_step_def split: prod.split option.split)

lemma commit_step_rows: "ib_rows (ir_db (commit_step e effect t c)) = map (processed_row e t) (ib_rows (ir_db c))"
  using commit_rows [of e effect t "ir_db c"] by (simp add: commit_step_def case_prod_beta)

lemma claim_step_ok:
  assumes ok: "inbox_ok inbox d c"
  shows "inbox_ok inbox d (claim_step e t c)"
proof -
  let ?rows = "ib_rows (ir_db c)" and ?db = "snd (claim e t (ir_db c))"
  let ?runs = "if list_ex (claimable e t) ?rows then e # ir_runs c else ir_runs c"
  have status: "ev_status (claimed_row e t r) = PROCESSED \<longleftrightarrow> ev_status r = PROCESSED" for r
    by (simp add: claimed_row_def claimable_def)
  have inj: "r = r'" if "r \<in> set ?rows" "r' \<in> set ?rows" "ev_id r = ev_id r'" for r r'
    using ok that by (auto simp: inbox_ok_def distinct_map inj_on_def)
  have row: "row_ok inbox ?runs (claimed_row e t r)" if r: "r \<in> set ?rows" for r
  proof (cases "list_ex (claimable e t) ?rows")
    case True
    then obtain r0 where r0: "r0 \<in> set ?rows" "claimable e t r0" by (auto simp: list_ex_iff)
    have rok: "row_ok inbox (ir_runs c) r" using ok r by (simp add: inbox_ok_def)
    show ?thesis
    proof (cases "r = r0")
      case True
      then show ?thesis
        using rok r0(2) \<open>list_ex (claimable e t) ?rows\<close> by (simp add: row_ok_def claimed_row_def claimable_def)
    next
      case False
      then have "ev_id r \<noteq> e" using inj [OF r r0(1)] r0(2) by (auto simp: claimable_def)
      then show ?thesis using rok by (auto simp: row_ok_def claimed_row_def claimable_def)
    qed
  next
    case False
    then show ?thesis using ok r by (auto simp: inbox_ok_def claimed_row_def list_ex_iff)
  qed
  have "set ?runs \<subseteq> ev_id ` set ?rows"
    using ok by (auto simp: inbox_ok_def list_ex_iff claimable_def)
  note ok' = inbox_ok_rows [OF ok row_same_event(1) status row this claim_rows claim_data]
  show ?thesis
  proof (cases "claim e t (ir_db c)")
    case (Pair out db)
    then have "out = None \<longleftrightarrow> \<not> list_ex (claimable e t) ?rows" using claim_out [of e t "ir_db c"] by simp
    then show ?thesis
      using ok' [where ws = "ir_workers c"] ok' [where ws = "e # ir_workers c"] Pair
      by (cases out) (auto simp: claim_step_def)
  qed
qed

lemma inbox_runs_ids: "inbox_ok inbox d c \<Longrightarrow> set (ir_runs c) \<subseteq> ev_id ` set (ib_rows (ir_db c))"
  by (simp add: inbox_ok_def)

lemma inbox_row_ok: "inbox_ok inbox d c \<Longrightarrow> r \<in> set (ib_rows (ir_db c)) \<Longrightarrow> row_ok inbox (ir_runs c) r"
  by (simp add: inbox_ok_def)

lemma fail_step_ok:
  assumes ok: "inbox_ok inbox d c"
  shows "inbox_ok inbox d (fail_step inbox e error t c)"
proof -
  have ids: "distinct (map ev_id (ib_rows (ir_db c)))" using ok by (simp add: inbox_ok_def)
  have status: "ev_status (failed_row inbox e error t r) = PROCESSED \<longleftrightarrow> ev_status r = PROCESSED" for r
    by (simp add: failed_row_def held_def)
  have "inbox_ok inbox d (c\<lparr>ir_db := snd (fail inbox e error t (ir_db c)), ir_workers := remove1 e (ir_workers c),
      ir_runs := ir_runs c\<rparr>)"
    by (rule inbox_ok_rows [OF ok row_same_event(4) status row_ok_steps(3) [OF inbox_row_ok [OF ok]]
          inbox_runs_ids [OF ok] fail_rows(1) [OF ids] fail_rows(2) [OF ids]])
  then show ?thesis by (simp add: fail_step_def)
qed

lemma reclaim_step_ok:
  assumes ok: "inbox_ok inbox d c"
  shows "inbox_ok inbox d (reclaim_step inbox t c)"
proof (cases "wi_stale_after inbox")
  case None
  then show ?thesis using ok by (simp add: reclaim_step_def reclaim_stale_def)
next
  case (Some after)
  have status: "ev_status (reclaimed_row (t - after) r) = PROCESSED \<longleftrightarrow> ev_status r = PROCESSED" for r
    by (simp add: reclaimed_row_def stale_def)
  have rows: "ib_rows (snd (reclaim_stale inbox t (ir_db c))) = map (reclaimed_row (t - after)) (ib_rows (ir_db c))"
    by (simp add: reclaim_rows Some)
  have "inbox_ok inbox d (c\<lparr>ir_db := snd (reclaim_stale inbox t (ir_db c)), ir_workers := ir_workers c,
      ir_runs := ir_runs c\<rparr>)"
    by (rule inbox_ok_rows [OF ok row_same_event(3) status row_ok_steps(2) [OF inbox_row_ok [OF ok]]
          inbox_runs_ids [OF ok] rows reclaim_rows(2)])
  then show ?thesis by (simp add: reclaim_step_def)
qed

lemma commit_step_ok:
  assumes ok: "inbox_ok inbox d c"
  shows "inbox_ok inbox d (commit_step e effect t c)"
proof (cases "list_ex (held e) (ib_rows (ir_db c))")
  case False
  then show ?thesis using ok by (simp add: commit_step_def commit_processed_def inbox_ok_def)
next
  case True
  let ?rows = "ib_rows (ir_db c)"
  obtain r0 where r0: "r0 \<in> set ?rows" "held e r0" using True by (auto simp: list_ex_iff)
  have inj: "r = r0" if "r \<in> set ?rows" "ev_id r = e" for r
    using ok that r0 by (auto simp: inbox_ok_def distinct_map inj_on_def held_def)
  let ?c = "commit_step e effect t c"
  have rows: "ib_rows (ir_db ?c) = map (processed_row e t) ?rows"
    by (rule commit_step_rows)
  have c: "ib_data (ir_db ?c) = effect (ib_data (ir_db c))" "ir_log ?c = (e, effect) # ir_log c"
      "ir_runs ?c = ir_runs c"
    using True by (simp_all add: commit_step_def commit_processed_def)
  have status: "ev_status (processed_row e t r) = PROCESSED \<longleftrightarrow> r = r0 \<or> ev_status r = PROCESSED" if "r \<in> set ?rows" for r
    using r0 inj [OF that] by (auto simp: processed_row_def held_def)
  have "{r \<in> set (map (processed_row e t) ?rows). ev_status r = PROCESSED}
      = processed_row e t ` insert r0 {r \<in> set ?rows. ev_status r = PROCESSED}"
    using status r0(1) by auto
  then have marked: "processed_ids (map (processed_row e t) ?rows) = insert e (processed_ids ?rows)"
    using same_event_ids [OF row_same_event(2)] r0(2)
    by (simp only: processed_ids_def) (simp add: held_def)
  have "e \<notin> processed_ids ?rows"
    using inj r0 by (auto simp: processed_ids_def held_def)
  moreover have "\<forall>r \<in> set (ib_rows (ir_db ?c)). row_ok inbox (ir_runs ?c) r"
    using row_ok_steps(1) [OF inbox_row_ok [OF ok]] by (simp add: rows c)
  moreover have "set (ir_runs ?c) \<subseteq> ev_id ` set (ib_rows (ir_db ?c))"
    using inbox_runs_ids [OF ok] same_event_ids [OF row_same_event(2)] by (simp add: rows c)
  moreover have "distinct (map ev_id (ib_rows (ir_db ?c)))" "distinct (map row_key (ib_rows (ir_db ?c)))"
    using ok unfolding rows same_event_maps [OF row_same_event(2)] by (simp_all add: inbox_ok_def)
  ultimately show ?thesis
    using ok by (simp add: inbox_ok_def rows c marked applied_def)
qed

lemma deliver_step_ok:
  assumes ok: "inbox_ok inbox d c" and fresh: "new_id \<notin> ev_id ` set (ib_rows (ir_db c))"
    and budget: "1 \<le> wi_max_attempts inbox"
  shows "inbox_ok inbox d (deliver_step inbox prov ext kind body new_id t c)"
proof -
  have "count_list (ir_runs c) new_id = 0"
    using fresh inbox_runs_ids [OF ok] by (auto simp: count_list_0_iff)
  moreover have "processed_ids (rows @ [r]) = processed_ids rows" if "ev_status r = RECEIVED" for rows r
    using that by (auto simp: processed_ids_def)
  moreover have "row_key r \<noteq> (prov, ext)"
    if "\<not> list_ex (\<lambda>r. provider r = prov \<and> external_id r = ext) (ib_rows (ir_db c))" "r \<in> set (ib_rows (ir_db c))" for r
    using that by (auto simp: row_key_def list_ex_iff)
  ultimately show ?thesis
    using ok fresh budget by (auto simp: inbox_ok_def deliver_step_def record_event_def row_ok_def row_key_def)
qed

lemma inbox_reach_ok:
  assumes "inbox_reach inbox (inbox_start d) c" and "1 \<le> wi_max_attempts inbox"
  shows "inbox_ok inbox d c"
  using assms(1)
proof (induction rule: inbox_reach.induct)
  case start
  then show ?case by (simp add: inbox_ok_def inbox_start_def processed_ids_def applied_def)
next
  case (crashes c e)
  then show ?case by (simp add: crash_step_def inbox_ok_def)
qed (simp_all add: claim_step_ok commit_step_ok fail_step_ok reclaim_step_ok deliver_step_ok assms(2))

text \<open>
  C10. For deliveries, workers, failures, crashes and reclaims in any order and at any times, the
  effect of an event is applied exactly as often as its row is marked processed, which is at most
  once, even when a worker whose claim was reclaimed finishes late: the data are the initial data
  after the committed effects, one per processed event. No event has two rows, and the handler of
  an event ran no more often than its budget of attempts.
\<close>

theorem inbox_effect_exactly_once:
  assumes "inbox_reach inbox (inbox_start d) c" and "1 \<le> wi_max_attempts inbox"
  shows "ib_data (ir_db c) = foldr snd (ir_log c) d
     \<and> distinct (map fst (ir_log c))
     \<and> fst ` set (ir_log c) = ev_id ` {r \<in> set (ib_rows (ir_db c)). ev_status r = PROCESSED}
     \<and> distinct (map (\<lambda>r. (provider r, external_id r)) (ib_rows (ir_db c)))
     \<and> (\<forall>r \<in> set (ib_rows (ir_db c)). int (count_list (ir_runs c) (ev_id r)) \<le> wi_max_attempts inbox)"
  using inbox_reach_ok [OF assms]
  by (auto simp: inbox_ok_def applied_def processed_ids_def row_ok_def row_key_def [abs_def])

text \<open>
  A worker claims the event and outlives its claim; after a reclaim a second worker claims it, the
  late one commits, the second one is rolled back.
\<close>

lemma inbox_effect_exactly_once_witness:
  "let inbox = \<lparr>wi_max_attempts = 2, wi_backoff_base_seconds = 60, wi_stale_after = Some 100\<rparr>;
       c = commit_step 7 ((+) 5) 260 (commit_step 7 ((+) 5) 250 (claim_step 7 200
             (reclaim_step inbox 150 (claim_step 7 10
               (deliver_step inbox ''stripe'' ''evt'' ''paid'' [] 7 0 (inbox_start (0::int)))))))
   in ib_data (ir_db c) = foldr snd (ir_log c) 0 \<and> ib_data (ir_db c) = 5
        \<and> distinct (map fst (ir_log c)) \<and> ir_runs c = [7, 7]"
proof -
  let ?inbox = "\<lparr>wi_max_attempts = 2, wi_backoff_base_seconds = 60, wi_stale_after = Some 100\<rparr>"
  let ?c = "claim_step 7 200 (reclaim_step ?inbox 150 (claim_step 7 10
               (deliver_step ?inbox ''stripe'' ''evt'' ''paid'' [] 7 0 (inbox_start (0::int)))))"
  have c: "?c = \<lparr>ir_db = \<lparr>ib_rows = [\<lparr>ev_id = 7, ev_created_at = 0, provider = ''stripe'', external_id = ''evt'',
       event_type = ''paid'', payload = [], ev_status = PROCESSING, attempts = 2, max_attempts = 2, available_at = 0,
       started_at = Some 200, processed_at = None, last_error = None\<rparr>], ib_data = 0\<rparr>,
     ir_workers = [7, 7], ir_runs = [7, 7], ir_log = []\<rparr>"
    by (simp add: inbox_start_def deliver_step_def record_event_def claim_step_def claim_def get_event_def
        claimable_def update_where_def reclaim_step_def reclaim_stale_def stale_def Let_def)
  have reach: "inbox_reach ?inbox (inbox_start 0) ?c"
    by (intro inbox_reach.claims inbox_reach.reclaims inbox_reach.delivers inbox_reach.start)
      (simp add: inbox_start_def)
  have c1: "commit_step 7 ((+) 5) 250 ?c = ?c\<lparr>ir_db := \<lparr>ib_rows = [(hd (ib_rows (ir_db ?c)))\<lparr>ev_status := PROCESSED,
      processed_at := Some 250\<rparr>], ib_data = 5\<rparr>, ir_workers := [7], ir_log := [(7, (+) 5)]\<rparr>"
    by (simp add: c commit_step_def commit_processed_def held_def update_where_def)
  have "7 \<in> set (ir_workers ?c)" "7 \<in> set (ir_workers (commit_step 7 ((+) 5) 250 ?c))"
    by (simp_all add: c commit_step_def commit_processed_def held_def)
  then have "inbox_reach ?inbox (inbox_start 0) (commit_step 7 ((+) 5) 260 (commit_step 7 ((+) 5) 250 ?c))"
    using inbox_reach.commits [OF inbox_reach.commits [OF reach]] by blast
  then show ?thesis
    using inbox_effect_exactly_once [of ?inbox 0 "commit_step 7 ((+) 5) 260 (commit_step 7 ((+) 5) 250 ?c)"]
    unfolding Let_def c1 by (simp add: c commit_step_def commit_processed_def held_def)
qed

lemma row_kept:
  assumes "distinct (map ev_id rows) \<and> r \<in> set rows" and "\<And>r. same_event r (f r)" and "f r = r"
  shows "distinct (map ev_id (map f rows)) \<and> r \<in> set (map f rows)"
proof
  show "distinct (map ev_id (map f rows))" using assms(1) unfolding same_event_maps(1) [OF assms(2)] by simp
  show "r \<in> set (map f rows)" using assms(1,3) by (metis image_eqI list.set_map)
qed

text \<open>
  A row that is processed or failed is final: no delivery, claim, late commit, late failure or
  reclaim changes any of its columns.
\<close>

theorem inbox_closed_rows_are_final:
  assumes "inbox_reach inbox c c'" and "distinct (map ev_id (ib_rows (ir_db c)))"
    and "r \<in> set (ib_rows (ir_db c))" and "ev_status r = PROCESSED \<or> ev_status r = FAILED"
  shows "r \<in> set (ib_rows (ir_db c'))"
proof -
  have r: "terminal r" using assms(4) by (simp add: terminal_def)
  have "distinct (map ev_id (ib_rows (ir_db c'))) \<and> r \<in> set (ib_rows (ir_db c'))"
    using assms(1)
  proof (induction rule: inbox_reach.induct)
    case start
    then show ?case using assms(2,3) by simp
  next
    case (delivers c new_id prov ext kind body t)
    then show ?case by (auto simp: deliver_step_def record_event_def)
  next
    case (claims c e t)
    show ?case
      unfolding claim_step_rows by (rule row_kept [OF claims.IH row_same_event(1) terminal_rows(1) [OF r]])
  next
    case (commits c e effect t)
    show ?case
      unfolding commit_step_rows by (rule row_kept [OF commits.IH row_same_event(2) terminal_rows(2) [OF r]])
  next
    case (fails c e error t)
    then have rows: "ib_rows (ir_db (fail_step inbox e error t c)) = map (failed_row inbox e error t) (ib_rows (ir_db c))"
      by (simp add: fail_step_def fail_rows(1))
    show ?case
      unfolding rows by (rule row_kept [OF fails.IH row_same_event(4) terminal_rows(4) [OF r]])
  next
    case (reclaims c t)
    show ?case
    proof (cases "wi_stale_after inbox")
      case None
      then show ?thesis using reclaims by (simp add: reclaim_step_def reclaim_rows)
    next
      case (Some after)
      then have rows: "ib_rows (ir_db (reclaim_step inbox t c)) = map (reclaimed_row (t - after)) (ib_rows (ir_db c))"
        by (simp add: reclaim_step_def reclaim_rows)
      show ?thesis
        unfolding rows by (rule row_kept [OF reclaims.IH row_same_event(3) terminal_rows(3) [OF r]])
    qed
  qed (simp_all add: crash_step_def)
  then show ?thesis ..
qed

text \<open>An event was given up; a later claim and a late commit of its handler leave it alone.\<close>

lemma inbox_closed_rows_are_final_witness:
  "let inbox = \<lparr>wi_max_attempts = 1, wi_backoff_base_seconds = 60, wi_stale_after = None\<rparr>;
       r = \<lparr>ev_id = 7, ev_created_at = 0, provider = ''stripe'', external_id = ''evt'', event_type = ''paid'',
            payload = [], ev_status = FAILED, attempts = 1, max_attempts = 1, available_at = 0,
            started_at = Some 10, processed_at = None, last_error = Some ''boom''\<rparr>;
       c = \<lparr>ir_db = \<lparr>ib_rows = [r], ib_data = ()\<rparr>, ir_workers = [7], ir_runs = [7], ir_log = []\<rparr>
   in r \<in> set (ib_rows (ir_db (commit_step 7 id 30 (claim_step 7 20 c))))"
proof -
  let ?inbox = "\<lparr>wi_max_attempts = 1, wi_backoff_base_seconds = 60, wi_stale_after = None\<rparr>"
  let ?r = "\<lparr>ev_id = 7, ev_created_at = 0, provider = ''stripe'', external_id = ''evt'', event_type = ''paid'',
      payload = [], ev_status = FAILED, attempts = 1, max_attempts = 1, available_at = 0,
      started_at = Some 10, processed_at = None, last_error = Some ''boom''\<rparr>"
  let ?c = "\<lparr>ir_db = \<lparr>ib_rows = [?r], ib_data = ()\<rparr>, ir_workers = [7], ir_runs = [7], ir_log = []\<rparr>"
  have "7 \<in> set (ir_workers (claim_step 7 20 ?c))"
    by (simp add: claim_step_def claim_def claimable_def)
  then have "inbox_reach ?inbox ?c (commit_step 7 id 30 (claim_step 7 20 ?c))"
    using inbox_reach.commits [OF inbox_reach.claims [OF inbox_reach.start]] by blast
  from inbox_closed_rows_are_final [OF this, of ?r] show ?thesis by simp
qed

text \<open>\<open>process\<close> and \<open>drain_once\<close> are such runs, so what holds of every run holds of them.\<close>

lemma process_is_a_run:
  assumes "inbox_reach inbox c0 c"
  shows "\<exists>c'. inbox_reach inbox c0 c' \<and> ir_db c' = snd (process inbox e handler t (ir_db c))"
proof (cases "claim e t (ir_db c)")
  case (Pair out db)
  let ?c = "claim_step e t c"
  note claimed = inbox_reach.claims [OF assms, of e t]
  show ?thesis
  proof (cases out)
    case None
    then show ?thesis
      using claimed Pair by (intro exI [where x = ?c]) (simp add: process_def claim_step_def)
  next
    case (Some event)
    then have c: "ir_db ?c = db" "e \<in> set (ir_workers ?c)" using Pair by (simp_all add: claim_step_def)
    show ?thesis
    proof (cases "handler event (ib_data db)")
      case (Inl error)
      then show ?thesis
        using inbox_reach.fails [OF claimed c(2), of error t] Pair Some c(1)
        by (intro exI [where x = "fail_step inbox e error t ?c"]) (simp add: process_def fail_step_def)
    next
      case (Inr d)
      then show ?thesis
        using inbox_reach.commits [OF claimed c(2), of "\<lambda>_. d" t] Pair Some c(1)
        by (intro exI [where x = "commit_step e (\<lambda>_. d) t ?c"])
          (simp add: process_def commit_step_def case_prod_beta)
    qed
  qed
qed

lemma process_all_is_a_run:
  assumes "inbox_reach inbox c0 c"
  shows "\<exists>c'. inbox_reach inbox c0 c' \<and> ir_db c' = snd (process_all inbox handler t es rep (ir_db c))"
  using assms
proof (induction es arbitrary: c rep)
  case Nil
  then show ?case by (intro exI [where x = c]) simp
next
  case (Cons e es)
  obtain c1 where c1: "inbox_reach inbox c0 c1" "ir_db c1 = snd (process inbox e handler t (ir_db c))"
    using process_is_a_run [OF Cons.prems] by blast
  obtain out db where run: "process inbox e handler t (ir_db c) = (out, db)" by (cases "process inbox e handler t (ir_db c)")
  show ?case
    using Cons.IH [OF c1(1)] c1(2) by (simp add: run)
qed

lemma drain_is_a_run:
  assumes "inbox_reach inbox c0 c"
  shows "\<exists>c'. inbox_reach inbox c0 c' \<and> ir_db c' = snd (drain_once inbox handler limit t (ir_db c))"
  using process_all_is_a_run [OF inbox_reach.reclaims [OF assms, of t]]
  by (simp add: drain_once_def reclaim_step_def case_prod_beta)

subsection \<open>Sweeps finish every event\<close>

















end
