(* ===== verification/Outbox.thy ===== *)
theory Outbox
  imports Transaction
begin

text \<open>
  \<^verbatim>\<open>db/outbox.py\<close> and the write half of the pattern, \<^verbatim>\<open>BaseRepository.save_with_outbox\<close>: an event
  is inserted by the transaction that writes the business row, and a relay publishes the events
  that are due. A drain is one transaction over a batch: it takes rows (locking them where the
  backend has row locks), publishes them one by one, and writes the outcomes back at its commit.

  Several relays that run at once, and drains that are interrupted between a publish and their
  commit, are the inductive relation \<open>outbox_reach\<close>. Times are real seconds; dates are unbounded.
\<close>

subsection \<open>Events\<close>

datatype OutboxStatusEnum = PENDING | SENT | FAILED

record outbox_event =
  ob_id :: uuid
  ob_topic :: string
  ob_payload :: string
  ob_status :: OutboxStatusEnum
  ob_attempts :: int
  ob_max_attempts :: int
  ob_available_at :: real
  ob_sent_at :: "real option"
  ob_last_error :: "string option"

definition new_event :: "string \<Rightarrow> string \<Rightarrow> int \<Rightarrow> uuid \<Rightarrow> real \<Rightarrow> outbox_event" where
  "new_event topic body n new_id now =
     \<lparr>ob_id = new_id, ob_topic = topic, ob_payload = body, ob_status = PENDING, ob_attempts = 0,
      ob_max_attempts = n, ob_available_at = now, ob_sent_at = None, ob_last_error = None\<rparr>"

subsection \<open>The write half\<close>

datatype repo_error = ConflictException | OtherError

datatype flush_error = IntegrityError | FlushError

text \<open>
  The database is the business rows and the outbox; \<open>flush\<close> says whether the database refuses the
  two inserts.
\<close>

type_synonym 'r outbox_db = "'r list \<times> outbox_event list"

definition rollback_after_failure :: "'db session \<Rightarrow> 'db session" where
  "rollback_after_failure s = (if in_transaction s then s else session_rollback s)"

definition save_with_outbox ::
  "('r outbox_db \<Rightarrow> flush_error option) \<Rightarrow> 'r \<Rightarrow> outbox_event \<Rightarrow> ('r outbox_db session, repo_error, 'r) action" where
  "save_with_outbox flush model event s =
     (case flush (sess_working s) of
        Some IntegrityError \<Rightarrow> (Inl ConflictException, rollback_after_failure s)
      | Some FlushError \<Rightarrow> (Inl OtherError, rollback_after_failure s)
      | None \<Rightarrow>
          (Inr model, repo_commit (s\<lparr>sess_working :=
             (fst (sess_working s) @ [model], snd (sess_working s) @ [event])\<rparr>)))"

subsection \<open>The relay\<close>

datatype relay_error = ValueError | TypeError

record OutboxRelay =
  batch_size :: int
  backoff_base_seconds :: real

text \<open>
  \<open>callable\<close> and \<open>binds\<close> describe the publish function: whether it can be called at all, and
  whether its signature, when it can be read, takes one positional argument.
\<close>

definition check_publish_arity :: "bool \<Rightarrow> bool option \<Rightarrow> relay_error + unit" where
  "check_publish_arity callable binds =
     (if \<not> callable then Inl TypeError
      else case binds of
             None \<Rightarrow> Inr ()
           | Some ok \<Rightarrow> if ok then Inr () else Inl TypeError)"

definition relay_init :: "bool \<Rightarrow> bool option \<Rightarrow> int \<Rightarrow> real \<Rightarrow> relay_error + OutboxRelay" where
  "relay_init callable binds batch backoff =
     (if batch \<le> 0 then Inl ValueError
      else case check_publish_arity callable binds of
             Inl e \<Rightarrow> Inl e
           | Inr _ \<Rightarrow> Inr \<lparr>batch_size = batch, backoff_base_seconds = backoff\<rparr>)"

definition mark_failure :: "OutboxRelay \<Rightarrow> outbox_event \<Rightarrow> string \<Rightarrow> real \<Rightarrow> outbox_event" where
  "mark_failure relay event exc now =
     (let event = event\<lparr>ob_attempts := ob_attempts event + 1, ob_last_error := Some exc\<rparr>
      in if ob_max_attempts event \<le> ob_attempts event then event\<lparr>ob_status := FAILED\<rparr>
         else event\<lparr>ob_available_at := now + backoff_base_seconds relay * 2 powi (ob_attempts event - 1)\<rparr>)"

text \<open>A publish raises (\<open>Some\<close> the text of the error) or not.\<close>

definition publish_event_outcome :: "OutboxRelay \<Rightarrow> string option \<Rightarrow> real \<Rightarrow> outbox_event \<Rightarrow> outbox_event" where
  "publish_event_outcome relay raised now event =
     (case raised of
        Some exc \<Rightarrow> mark_failure relay event exc now
      | None \<Rightarrow> event\<lparr>ob_status := SENT, ob_sent_at := Some now\<rparr>)"

definition is_due :: "real \<Rightarrow> outbox_event \<Rightarrow> bool" where
  "is_due now event \<longleftrightarrow> ob_status event = PENDING \<and> ob_available_at event \<le> now"

text \<open>The batch of a drain; \<open>locked\<close> are the rows that other transactions hold.\<close>

definition select_batch :: "OutboxRelay \<Rightarrow> bool \<Rightarrow> uuid list \<Rightarrow> real \<Rightarrow> outbox_event list \<Rightarrow> outbox_event list" where
  "select_batch relay row_locks locked now rows =
     take (nat (batch_size relay)) (sort_key ob_available_at
       (filter (\<lambda>event. is_due now event \<and> (row_locks \<longrightarrow> ob_id event \<notin> set locked)) rows))"

text \<open>The commit of a drain writes the events it changed over their rows.\<close>

definition write_back :: "outbox_event list \<Rightarrow> outbox_event list \<Rightarrow> outbox_event list" where
  "write_back changed rows =
     map (\<lambda>r. case find (\<lambda>event. ob_id event = ob_id r) changed of Some event \<Rightarrow> event | None \<Rightarrow> r) rows"

definition relay_drain_once ::
  "OutboxRelay \<Rightarrow> bool \<Rightarrow> uuid list \<Rightarrow> (outbox_event \<Rightarrow> string option) \<Rightarrow> real \<Rightarrow> outbox_event list \<Rightarrow> nat \<times> outbox_event list" where
  "relay_drain_once relay row_locks locked publish now rows =
     (let changed = map (\<lambda>event. publish_event_outcome relay (publish event) now event) (select_batch relay row_locks locked now rows)
      in (length (filter (\<lambda>event. ob_status event = SENT) changed), write_back changed rows))"

text \<open>
  The loop of \<^verbatim>\<open>run\<close>, one record per turn: whether the stop event is set, whether the drain raises,
  what publishing does, and how long the drain takes. It sleeps after a turn that published nothing.
\<close>

record turn =
  tn_stop :: bool
  tn_raises :: bool
  tn_publish :: "outbox_event \<Rightarrow> string option"
  tn_elapsed :: real

fun run_relay :: "OutboxRelay \<Rightarrow> bool \<Rightarrow> real \<Rightarrow> turn list \<Rightarrow> real \<Rightarrow> outbox_event list \<Rightarrow> real \<times> outbox_event list" where
  "run_relay relay row_locks poll_interval [] now rows = (now, rows)"
| "run_relay relay row_locks poll_interval (turn # turns) now rows =
     (if tn_stop turn then (now, rows)
      else case (if tn_raises turn then (0, rows) else relay_drain_once relay row_locks [] (tn_publish turn) now rows) of
             (published, rows') \<Rightarrow>
               run_relay relay row_locks poll_interval turns
                 (now + tn_elapsed turn + (if published = 0 then poll_interval else 0)) rows')"

subsection \<open>Relays that run at once\<close>

text \<open>
  A drain in progress: the events it has taken and not tried yet, and those it has tried.
  \<open>os_published\<close> are the calls of publish that returned, \<open>os_lost\<close> those among them whose drain was
  interrupted before its commit.
\<close>

record drain =
  dr_todo :: "outbox_event list"
  dr_tried :: "outbox_event list"

record outbox_state =
  os_rows :: "outbox_event list"
  os_drains :: "drain list"
  os_published :: "uuid list"
  os_lost :: "uuid list"

definition outbox_start :: outbox_state where
  "outbox_start = \<lparr>os_rows = [], os_drains = [], os_published = [], os_lost = []\<rparr>"

definition held_ids :: "drain list \<Rightarrow> uuid list" where
  "held_ids ds = concat (map (\<lambda>d. map ob_id (dr_todo d) @ map ob_id (dr_tried d)) ds)"

definition sent_ids :: "outbox_event list \<Rightarrow> uuid list" where
  "sent_ids events = map ob_id (filter (\<lambda>event. ob_status event = SENT) events)"

definition begin_drain :: "OutboxRelay \<Rightarrow> bool \<Rightarrow> real \<Rightarrow> outbox_state \<Rightarrow> outbox_state" where
  "begin_drain relay row_locks t c = c\<lparr>os_drains := os_drains c @
     [\<lparr>dr_todo = select_batch relay row_locks (held_ids (os_drains c)) t (os_rows c), dr_tried = []\<rparr>]\<rparr>"

text \<open>The next event of drain number \<open>i\<close>.\<close>

definition publish_next :: "OutboxRelay \<Rightarrow> nat \<Rightarrow> string option \<Rightarrow> real \<Rightarrow> outbox_state \<Rightarrow> outbox_state" where
  "publish_next relay i raised t c =
     (let d = os_drains c ! i; event = hd (dr_todo d)
      in c\<lparr>os_drains := (os_drains c)[i := \<lparr>dr_todo = tl (dr_todo d), dr_tried = dr_tried d @ [publish_event_outcome relay raised t event]\<rparr>],
           os_published := (if raised = None then ob_id event # os_published c else os_published c)\<rparr>)"

definition commit_drain :: "nat \<Rightarrow> outbox_state \<Rightarrow> outbox_state" where
  "commit_drain i c = c\<lparr>os_rows := write_back (dr_tried (os_drains c ! i)) (os_rows c),
     os_drains := take i (os_drains c) @ drop (Suc i) (os_drains c)\<rparr>"

definition interrupt_drain :: "nat \<Rightarrow> outbox_state \<Rightarrow> outbox_state" where
  "interrupt_drain i c = c\<lparr>os_lost := sent_ids (dr_tried (os_drains c ! i)) @ os_lost c,
     os_drains := take i (os_drains c) @ drop (Suc i) (os_drains c)\<rparr>"

text \<open>Without row locks there is one relay, as the class asks for.\<close>

inductive outbox_reach :: "OutboxRelay \<Rightarrow> bool \<Rightarrow> outbox_state \<Rightarrow> bool"
  for relay :: OutboxRelay and row_locks :: bool where
  start: "outbox_reach relay row_locks outbox_start"
| writes: "outbox_reach relay row_locks c \<Longrightarrow> new_id \<notin> ob_id ` set (os_rows c) \<Longrightarrow>
    outbox_reach relay row_locks (c\<lparr>os_rows := os_rows c @ [new_event topic body n new_id t]\<rparr>)"
| begins: "outbox_reach relay row_locks c \<Longrightarrow> row_locks \<or> os_drains c = [] \<Longrightarrow>
    outbox_reach relay row_locks (begin_drain relay row_locks t c)"
| publishes: "outbox_reach relay row_locks c \<Longrightarrow> i < length (os_drains c) \<Longrightarrow> dr_todo (os_drains c ! i) \<noteq> [] \<Longrightarrow>
    outbox_reach relay row_locks (publish_next relay i raised t c)"
| commits: "outbox_reach relay row_locks c \<Longrightarrow> i < length (os_drains c) \<Longrightarrow> dr_todo (os_drains c ! i) = [] \<Longrightarrow>
    outbox_reach relay row_locks (commit_drain i c)"
| interrupts: "outbox_reach relay row_locks c \<Longrightarrow> i < length (os_drains c) \<Longrightarrow>
    outbox_reach relay row_locks (interrupt_drain i c)"

subsection \<open>What every reachable state satisfies\<close>

lemma publish_event_outcome_simps [simp]:
  "ob_id (publish_event_outcome relay raised t event) = ob_id event"
  by (simp add: publish_event_outcome_def mark_failure_def Let_def split: option.split)

lemma publish_event_outcome_sent [simp]:
  "ob_status event = PENDING \<Longrightarrow> ob_status (publish_event_outcome relay raised t event) = SENT \<longleftrightarrow> raised = None"
  by (simp add: publish_event_outcome_def mark_failure_def Let_def split: option.split)

text \<open>An event that was tried: where it came from and what it has used of its budget.\<close>

definition tried_ok :: "outbox_event \<Rightarrow> bool" where
  "tried_ok event \<longleftrightarrow> (ob_status event = FAILED \<longrightarrow> ob_max_attempts event \<le> ob_attempts event)"

definition drains_tried :: "outbox_state \<Rightarrow> outbox_event list" where
  "drains_tried c = concat (map dr_tried (os_drains c))"

text \<open>
  Every drain holds rows of the table that are still pending, no row is held twice, and the
  publications of an event are its sent mark, the ones in flight and the lost ones.
\<close>

definition outbox_ok :: "outbox_state \<Rightarrow> bool" where
  "outbox_ok c \<longleftrightarrow> distinct (map ob_id (os_rows c)) \<and> distinct (held_ids (os_drains c))
     \<and> (\<forall>e \<in> set (held_ids (os_drains c)). \<exists>r \<in> set (os_rows c). ob_id r = e \<and> ob_status r = PENDING)
     \<and> (\<forall>d \<in> set (os_drains c). \<forall>event \<in> set (dr_todo d). ob_status event = PENDING \<and> tried_ok event)
     \<and> (\<forall>r \<in> set (os_rows c) \<union> set (drains_tried c). tried_ok r)
     \<and> set (os_lost c) \<subseteq> ob_id ` set (os_rows c)
     \<and> (\<forall>e. count_list (os_published c) e =
          count_list (sent_ids (os_rows c)) e + count_list (sent_ids (drains_tried c)) e + count_list (os_lost c) e)"

lemma sent_count:
  assumes "distinct (map ob_id xs)"
  shows "count_list (sent_ids xs) e = (if \<exists>x \<in> set xs. ob_id x = e \<and> ob_status x = SENT then 1 else 0)"
  using assms
proof (induction xs)
  case (Cons x xs)
  then show ?case by (auto simp: sent_ids_def image_iff)
qed (simp add: sent_ids_def)

lemma sent_ids_simps [simp]:
  "sent_ids [] = []" "sent_ids (xs @ ys) = sent_ids xs @ sent_ids ys"
  "sent_ids (x # xs) = (if ob_status x = SENT then ob_id x # sent_ids xs else sent_ids xs)"
  by (simp_all add: sent_ids_def)

lemma held_ids_simps [simp]:
  "held_ids [] = []" "held_ids (ds @ ds') = held_ids ds @ held_ids ds'"
  "held_ids (d # ds) = map ob_id (dr_todo d) @ map ob_id (dr_tried d) @ held_ids ds"
  by (simp_all add: held_ids_def)

lemma find_id_Some:
  "find (\<lambda>event. ob_id event = e) xs = Some event \<Longrightarrow> event \<in> set xs \<and> ob_id event = e"
  by (auto simp: find_Some_iff)

lemma find_id_distinct:
  assumes "distinct (map ob_id xs)" and "event \<in> set xs"
  shows "find (\<lambda>x. ob_id x = ob_id event) xs = Some event"
  using assms by (induction xs) (auto simp: image_iff)

lemma write_back_ids [simp]: "map ob_id (write_back changed rows) = map ob_id rows"
  by (auto simp: write_back_def split: option.split dest: find_id_Some)

lemma write_back_set:
  "r \<in> set (write_back changed rows) \<Longrightarrow> r \<in> set rows \<or> r \<in> set changed"
  by (auto simp: write_back_def split: option.splits dest: find_id_Some)

lemma write_back_keeps:
  assumes "r \<in> set rows" and "ob_id r \<notin> ob_id ` set changed"
  shows "r \<in> set (write_back changed rows)"
proof -
  have "find (\<lambda>event. ob_id event = ob_id r) changed = None"
    using assms(2) by (auto simp: find_None_iff) (metis imageI)
  then show ?thesis using assms(1) by (force simp: write_back_def)
qed

lemma write_back_sent:
  assumes "distinct (map ob_id rows)" and "distinct (map ob_id changed)"
    and "\<And>event. event \<in> set changed \<Longrightarrow> \<exists>r \<in> set rows. ob_id r = ob_id event \<and> ob_status r = PENDING"
  shows "count_list (sent_ids (write_back changed rows)) e = count_list (sent_ids rows) e + count_list (sent_ids changed) e"
proof -
  have one: "r = r'" if "r \<in> set rows" "r' \<in> set rows" "ob_id r = ob_id r'" for r r'
    using assms(1) that by (auto simp: distinct_map inj_on_def)
  let ?S = "\<lambda>xs. \<exists>x \<in> set xs. ob_id x = e \<and> ob_status x = SENT"
  have "?S changed \<Longrightarrow> ?S (write_back changed rows)"
  proof -
    assume "?S changed"
    then obtain event where event: "event \<in> set changed" "ob_id event = e" "ob_status event = SENT" by blast
    then obtain r where r: "r \<in> set rows" "ob_id r = e" using assms(3) by blast
    then have "event \<in> set (write_back changed rows)"
      using find_id_distinct [OF assms(2) event(1)] event(2) by (force simp: write_back_def)
    then show ?thesis using event by blast
  qed
  moreover have not_both: False if "?S rows" "?S changed"
    using that assms(3) one by (metis OutboxStatusEnum.distinct(1))
  moreover have "?S rows \<Longrightarrow> ?S (write_back changed rows)"
  proof -
    assume "?S rows"
    then obtain r where r: "r \<in> set rows" "ob_id r = e" "ob_status r = SENT" by blast
    then have "ob_id r \<notin> ob_id ` set changed" using assms(3) one by (metis OutboxStatusEnum.distinct(1) imageE)
    then show ?thesis using write_back_keeps r by blast
  qed
  moreover have "?S (write_back changed rows) \<Longrightarrow> ?S rows \<or> ?S changed"
    using write_back_set by blast
  ultimately show ?thesis
    using assms(1,2) by (auto simp: sent_count simp del: sent_ids_simps)
qed

lemma split_at:
  assumes "i < length ds"
  obtains ds1 ds2 where "ds = ds1 @ ds ! i # ds2" and "\<And>d. ds[i := d] = ds1 @ d # ds2"
    and "take i ds @ drop (Suc i) ds = ds1 @ ds2"
proof (rule that)
  show "ds = take i ds @ ds ! i # drop (Suc i) ds" using assms by (rule id_take_nth_drop)
  show "ds[i := d] = take i ds @ d # drop (Suc i) ds" for d using assms by (rule upd_conv_take_nth_drop)
qed simp

lemma batch_ok:
  assumes "distinct (map ob_id rows)" and "row_locks \<or> locked = []"
  shows "distinct (map ob_id (select_batch relay row_locks locked t rows))"
    and "event \<in> set (select_batch relay row_locks locked t rows) \<Longrightarrow>
      event \<in> set rows \<and> ob_status event = PENDING \<and> ob_id event \<notin> set locked"
proof -
  let ?xs = "sort_key ob_available_at (filter (\<lambda>event. is_due t event \<and> (row_locks \<longrightarrow> ob_id event \<notin> set locked)) rows)"
  have "inj_on ob_id (set ?xs)" and "distinct ?xs"
    using assms(1) by (auto simp: distinct_map inj_on_def)
  then have "distinct (map ob_id ?xs)" by (simp add: distinct_map)
  then show "distinct (map ob_id (select_batch relay row_locks locked t rows))"
    by (simp add: select_batch_def flip: take_map)
  show "event \<in> set rows \<and> ob_status event = PENDING \<and> ob_id event \<notin> set locked"
    if "event \<in> set (select_batch relay row_locks locked t rows)"
    using in_set_takeD [OF that [unfolded select_batch_def]] assms(2) by (auto simp: is_due_def)
qed

lemma begin_drain_ok:
  assumes ok: "outbox_ok c" and "row_locks \<or> os_drains c = []"
  shows "outbox_ok (begin_drain relay row_locks t c)"
proof -
  let ?batch = "select_batch relay row_locks (held_ids (os_drains c)) t (os_rows c)"
  have lock: "row_locks \<or> held_ids (os_drains c) = []" using assms(2) by auto
  have ids: "distinct (map ob_id (os_rows c))" using ok by (simp add: outbox_ok_def)
  note batch = batch_ok [OF ids lock, where t = t and relay = relay]
  have "drains_tried (begin_drain relay row_locks t c) = drains_tried c"
    by (simp add: drains_tried_def begin_drain_def)
  moreover have "distinct (held_ids (os_drains (begin_drain relay row_locks t c)))"
    using ok batch by (auto simp: begin_drain_def outbox_ok_def)
  ultimately show ?thesis
    using ok batch(2) by (fastforce simp: begin_drain_def outbox_ok_def)
qed

lemma publish_next_ok:
  assumes ok: "outbox_ok c" and i: "i < length (os_drains c)" and todo: "dr_todo (os_drains c ! i) \<noteq> []"
  shows "outbox_ok (publish_next relay i raised t c)"
proof -
  obtain ds1 ds2 where ds: "os_drains c = ds1 @ os_drains c ! i # ds2" "\<And>d. (os_drains c)[i := d] = ds1 @ d # ds2"
      "take i (os_drains c) @ drop (Suc i) (os_drains c) = ds1 @ ds2"
    using split_at [OF i] by blast
  obtain event rest where d: "dr_todo (os_drains c ! i) = event # rest" using todo by (cases "dr_todo (os_drains c ! i)") auto
  define tried where "tried = dr_tried (os_drains c ! i)"
  define ev where "ev = publish_event_outcome relay raised t event"
  have dd: "os_drains c ! i = \<lparr>dr_todo = event # rest, dr_tried = tried\<rparr>" by (simp add: d tried_def)
  note split = ds(1) [unfolded dd]
  let ?c = "publish_next relay i raised t c"
  have c: "os_drains ?c = ds1 @ \<lparr>dr_todo = rest, dr_tried = tried @ [ev]\<rparr> # ds2" "os_rows ?c = os_rows c" "os_lost ?c = os_lost c"
      "os_published ?c = (if raised = None then ob_id event # os_published c else os_published c)"
    by (simp_all add: publish_next_def Let_def d ds(2) tried_def ev_def)
  have pending: "ob_status event = PENDING"
    using ok by (auto simp: outbox_ok_def split)
  have "tried_ok ev"
    using pending by (auto simp: tried_ok_def ev_def publish_event_outcome_def mark_failure_def Let_def split: option.split)
  moreover have "set (held_ids (os_drains ?c)) = set (held_ids (os_drains c))"
    by (simp add: c split ev_def insert_commute)
  moreover have "distinct (held_ids (os_drains ?c)) \<longleftrightarrow> distinct (held_ids (os_drains c))"
    by (auto simp: c split ev_def)
  ultimately show ?thesis
    using ok pending
    by (simp add: outbox_ok_def c drains_tried_def split ev_def)
qed

lemma held_recorded: "outbox_ok c \<Longrightarrow> set (held_ids (os_drains c)) \<subseteq> ob_id ` set (os_rows c)"
  by (auto simp: outbox_ok_def)

lemma interrupt_drain_ok:
  assumes ok: "outbox_ok c" and i: "i < length (os_drains c)"
  shows "outbox_ok (interrupt_drain i c)"
proof -
  obtain ds1 ds2 where ds: "os_drains c = ds1 @ os_drains c ! i # ds2" "\<And>d. (os_drains c)[i := d] = ds1 @ d # ds2"
      "take i (os_drains c) @ drop (Suc i) (os_drains c) = ds1 @ ds2"
    using split_at [OF i] by blast
  define d where "d = os_drains c ! i"
  note split = ds(1) [folded d_def]
  have c: "os_drains (interrupt_drain i c) = ds1 @ ds2" "os_rows (interrupt_drain i c) = os_rows c"
      "os_lost (interrupt_drain i c) = sent_ids (dr_tried d) @ os_lost c" "os_published (interrupt_drain i c) = os_published c"
    by (simp_all add: interrupt_drain_def ds(3) d_def)
  have "set (sent_ids (dr_tried d)) \<subseteq> set (held_ids (os_drains c))"
    by (auto simp: split sent_ids_def)
  then have "set (sent_ids (dr_tried d)) \<subseteq> ob_id ` set (os_rows c)"
    using held_recorded [OF ok] by blast
  then show ?thesis
    using ok by (auto simp: outbox_ok_def c drains_tried_def split)
qed

lemma commit_drain_ok:
  assumes ok: "outbox_ok c" and i: "i < length (os_drains c)" and all: "dr_todo (os_drains c ! i) = []"
  shows "outbox_ok (commit_drain i c)"
proof -
  obtain ds1 ds2 where ds: "os_drains c = ds1 @ os_drains c ! i # ds2" "\<And>d. (os_drains c)[i := d] = ds1 @ d # ds2"
      "take i (os_drains c) @ drop (Suc i) (os_drains c) = ds1 @ ds2"
    using split_at [OF i] by blast
  define tried where "tried = dr_tried (os_drains c ! i)"
  have d: "os_drains c ! i = \<lparr>dr_todo = [], dr_tried = tried\<rparr>" by (simp add: all tried_def)
  note split = ds(1) [unfolded d]
  have c: "os_drains (commit_drain i c) = ds1 @ ds2" "os_rows (commit_drain i c) = write_back tried (os_rows c)"
      "os_lost (commit_drain i c) = os_lost c" "os_published (commit_drain i c) = os_published c"
    by (simp_all add: commit_drain_def ds(3) tried_def)
  have ids: "distinct (map ob_id (os_rows c))" "distinct (map ob_id tried)"
      and pending: "\<And>e. e \<in> set (held_ids (os_drains c)) \<Longrightarrow> \<exists>r \<in> set (os_rows c). ob_id r = e \<and> ob_status r = PENDING"
    using ok by (auto simp: outbox_ok_def split)
  have sent: "count_list (sent_ids (write_back tried (os_rows c))) e = count_list (sent_ids (os_rows c)) e + count_list (sent_ids tried) e" for e
    using pending by (intro write_back_sent ids) (auto simp: split)
  have "\<exists>r \<in> set (os_rows (commit_drain i c)). ob_id r = e \<and> ob_status r = PENDING" if e: "e \<in> set (held_ids (ds1 @ ds2))" for e
  proof -
    have "e \<notin> ob_id ` set tried" using e ok by (auto simp: outbox_ok_def split)
    moreover obtain r where "r \<in> set (os_rows c)" "ob_id r = e" "ob_status r = PENDING"
      using pending [of e] e by (auto simp: split)
    ultimately show ?thesis using write_back_keeps [of r "os_rows c" tried] by (auto simp: c)
  qed
  moreover have "\<forall>r \<in> set (os_rows (commit_drain i c)). tried_ok r"
    using ok write_back_set [of _ tried "os_rows c"] by (fastforce simp: outbox_ok_def c drains_tried_def split)
  moreover have "ob_id ` set (os_rows (commit_drain i c)) = ob_id ` set (os_rows c)"
    by (simp add: c flip: set_map)
  ultimately show ?thesis
    using ok ids by (auto simp: outbox_ok_def c drains_tried_def split sent)
qed

lemma outbox_reach_ok: "outbox_reach relay row_locks c \<Longrightarrow> outbox_ok c"
proof (induction rule: outbox_reach.induct)
  case start
  then show ?case by (simp add: outbox_ok_def outbox_start_def drains_tried_def)
next
  case (writes c new_id topic body n t)
  then show ?case by (auto simp: outbox_ok_def drains_tried_def new_event_def tried_ok_def)
qed (simp_all add: begin_drain_ok publish_next_ok commit_drain_ok interrupt_drain_ok)

lemma tried_distinct: "outbox_ok c \<Longrightarrow> distinct (map ob_id (drains_tried c))"
proof -
  have "distinct (held_ids ds) \<Longrightarrow> distinct (map ob_id (concat (map dr_tried ds)))
      \<and> ob_id ` set (concat (map dr_tried ds)) \<subseteq> set (held_ids ds)" for ds
    by (induction ds) auto
  then show "outbox_ok c \<Longrightarrow> ?thesis" by (auto simp: outbox_ok_def drains_tried_def)
qed

text \<open>
  C12. Delivery is at least once, and exactly once unless a drain is interrupted. However relays and
  interruptions interleave, an event marked sent was published, nothing is published that was not
  recorded, and the number of times an event was published exceeds one only by the publications
  whose drain was interrupted. No two drains hold the same event at once, and an event is given up
  only with its budget of attempts used.
\<close>

theorem outbox_at_least_once:
  assumes "outbox_reach relay row_locks c"
  shows "(\<forall>r \<in> set (os_rows c). ob_status r = SENT \<longrightarrow> ob_id r \<in> set (os_published c))
     \<and> set (os_published c) \<subseteq> ob_id ` set (os_rows c)
     \<and> (\<forall>e. count_list (os_published c) e \<le> 1 + count_list (os_lost c) e)
     \<and> distinct (held_ids (os_drains c))
     \<and> (\<forall>r \<in> set (os_rows c). ob_status r = FAILED \<longrightarrow> ob_max_attempts r \<le> ob_attempts r)"
proof -
  have ok: "outbox_ok c" by (rule outbox_reach_ok [OF assms])
  then have ids: "distinct (map ob_id (os_rows c))" and lost: "set (os_lost c) \<subseteq> ob_id ` set (os_rows c)"
      and count: "\<And>e. count_list (os_published c) e =
        count_list (sent_ids (os_rows c)) e + count_list (sent_ids (drains_tried c)) e + count_list (os_lost c) e"
    by (simp_all add: outbox_ok_def)
  have tried: "distinct (map ob_id (drains_tried c))" by (rule tried_distinct [OF ok])
  have pending: "\<exists>r \<in> set (os_rows c). ob_id r = ob_id x \<and> ob_status r = PENDING" if "x \<in> set (drains_tried c)" for x
    using ok that by (fastforce simp: outbox_ok_def drains_tried_def held_ids_def)
  have "r = r'" if "r \<in> set (os_rows c)" "r' \<in> set (os_rows c)" "ob_id r = ob_id r'" for r r'
    using ids that by (auto simp: distinct_map inj_on_def)
  then have "count_list (sent_ids (os_rows c)) e + count_list (sent_ids (drains_tried c)) e \<le> 1" for e
    using pending by (simp add: sent_count [OF ids] sent_count [OF tried]) (metis OutboxStatusEnum.distinct(1))
  then have "count_list (os_published c) e \<le> 1 + count_list (os_lost c) e" for e by (simp add: count)
  moreover have "ob_id r \<in> set (os_published c)" if "r \<in> set (os_rows c)" "ob_status r = SENT" for r
  proof -
    have "count_list (os_published c) (ob_id r) \<noteq> 0" using that by (auto simp: count sent_count [OF ids])
    then show ?thesis by (simp add: count_list_0_iff)
  qed
  moreover have "e \<in> ob_id ` set (os_rows c)" if "e \<in> set (os_published c)" for e
  proof (rule ccontr)
    assume e: "e \<notin> ob_id ` set (os_rows c)"
    then have "\<forall>r \<in> set (os_rows c). ob_id r \<noteq> e" "e \<notin> set (os_lost c)" using lost by auto
    moreover from this(1) have "\<forall>x \<in> set (drains_tried c). ob_id x \<noteq> e" using pending by metis
    ultimately have "count_list (os_published c) e = 0"
      by (simp add: count sent_count [OF ids] sent_count [OF tried] count_list_0_iff)
    then show False using that by (simp add: count_list_0_iff)
  qed
  ultimately show ?thesis
    using ok by (auto simp: outbox_ok_def tried_ok_def)
qed

text \<open>A drain is interrupted after it published; the next one publishes the event again.\<close>

lemma outbox_at_least_once_witness:
  "let relay = \<lparr>batch_size = 10, backoff_base_seconds = 2\<rparr>;
       written = outbox_start\<lparr>os_rows := [] @ [new_event ''orders'' ''paid'' 5 7 0]\<rparr>;
       first = interrupt_drain 0 (publish_next relay 0 None 2 (begin_drain relay True 1 written));
       c = commit_drain 0 (publish_next relay 0 None 4 (begin_drain relay True 3 first))
   in os_published c = [7, 7] \<and> os_lost c = [7] \<and> map ob_status (os_rows c) = [SENT]
      \<and> count_list (os_published c) 7 \<le> 1 + count_list (os_lost c) 7"
proof -
  let ?relay = "\<lparr>batch_size = 10, backoff_base_seconds = 2\<rparr>"
  let ?event = "new_event ''orders'' ''paid'' 5 7 0"
  let ?written = "outbox_start\<lparr>os_rows := [] @ [?event]\<rparr>"
  let ?first = "interrupt_drain 0 (publish_next ?relay 0 None 2 (begin_drain ?relay True 1 ?written))"
  let ?second = "publish_next ?relay 0 None 4 (begin_drain ?relay True 3 ?first)"
  have batch: "select_batch ?relay True [] t [?event] = [?event]" if "0 \<le> t" for t
    using that by (simp add: select_batch_def is_due_def new_event_def)
  have first: "?first = \<lparr>os_rows = [?event], os_drains = [], os_published = [7], os_lost = [7]\<rparr>"
    by (simp add: outbox_start_def begin_drain_def publish_next_def interrupt_drain_def batch publish_event_outcome_def)
      (simp add: new_event_def)
  have second: "?second = \<lparr>os_rows = [?event], os_drains = [\<lparr>dr_todo = [], dr_tried = [?event\<lparr>ob_status := SENT, ob_sent_at := Some 4\<rparr>]\<rparr>],
      os_published = [7, 7], os_lost = [7]\<rparr>"
    unfolding first by (simp add: begin_drain_def publish_next_def batch publish_event_outcome_def) (simp add: new_event_def)
  have "outbox_reach ?relay True (os_rows_update (\<lambda>_. [] @ [?event]) outbox_start)"
    using outbox_reach.writes [OF outbox_reach.start, where relay = ?relay and new_id = 7 and topic = "''orders''" and body = "''paid''" and n = 5 and t = 0]
    by (simp add: outbox_start_def)
  then have "outbox_reach ?relay True (begin_drain ?relay True 1 ?written)"
    by (intro outbox_reach.begins) simp_all
  then have "outbox_reach ?relay True (publish_next ?relay 0 None 2 (begin_drain ?relay True 1 ?written))"
    by (rule outbox_reach.publishes) (simp_all add: outbox_start_def begin_drain_def batch)
  then have "outbox_reach ?relay True ?first"
    by (rule outbox_reach.interrupts) (simp add: outbox_start_def begin_drain_def publish_next_def Let_def)
  then have "outbox_reach ?relay True (begin_drain ?relay True 3 ?first)"
    by (intro outbox_reach.begins) simp_all
  then have "outbox_reach ?relay True ?second"
    by (rule outbox_reach.publishes) (simp_all only: first, simp_all add: begin_drain_def batch)
  then have "outbox_reach ?relay True (commit_drain 0 ?second)"
    by (rule outbox_reach.commits) (simp_all only: second, simp_all)
  from outbox_at_least_once [OF this] show ?thesis
    unfolding Let_def second by (simp add: commit_drain_def write_back_def)
qed

subsection \<open>The event and its row\<close>

lemma disciplined_save: "disciplined (save_with_outbox flush model event)"
  by (rule disciplinedI)
    (auto simp: save_with_outbox_def rollback_after_failure_def session_defs split: option.split flush_error.split)

definition save_then ::
  "('r outbox_db \<Rightarrow> flush_error option) \<Rightarrow> 'r \<Rightarrow> outbox_event \<Rightarrow> ('r outbox_db session, repo_error, 'a) action
     \<Rightarrow> ('r outbox_db session, repo_error, 'a) action" where
  "save_then flush model event rest s =
     (case save_with_outbox flush model event s of
        (Inl e, s') \<Rightarrow> (Inl e, s')
      | (Inr _, s') \<Rightarrow> rest s')"

text \<open>
  An event becomes durable together with its row, or neither does. On its own the write commits
  both or, when the database refuses either of them, leaves the durable database as it was; inside a
  transaction block both become durable exactly when the block ends cleanly, so whatever fails
  after the write takes the event back with the row.
\<close>

theorem event_commits_with_its_row:
  fixes s :: "'r outbox_db session"
  assumes "sess_depth s = 0" and "disciplined rest"
  shows "(case save_with_outbox flush model event s of
            (Inl _, s') \<Rightarrow> sess_durable s' = sess_durable s \<and> sess_working s' = sess_durable s
          | (Inr _, s') \<Rightarrow> sess_durable s' = (fst (sess_working s) @ [model], snd (sess_working s) @ [event]))
     \<and> (case transaction (save_then flush model event rest) s of
            (Inl _, s') \<Rightarrow> sess_durable s' = sess_durable s \<and> sess_working s' = sess_durable s
          | (Inr _, s') \<Rightarrow> \<exists>s1. sess_working s1 = (fst (sess_working s) @ [model], snd (sess_working s) @ [event])
              \<and> sess_durable s' = sess_working (snd (rest s1)))"
proof -
  let ?s0 = "s\<lparr>sess_depth := Suc 0\<rparr>"
  have alone: "case save_with_outbox flush model event s of
            (Inl _, s') \<Rightarrow> sess_durable s' = sess_durable s \<and> sess_working s' = sess_durable s
          | (Inr _, s') \<Rightarrow> sess_durable s' = (fst (sess_working s) @ [model], snd (sess_working s) @ [event])"
    using assms(1)
    by (simp add: save_with_outbox_def rollback_after_failure_def session_defs split: option.split flush_error.split)
  obtain r s1 where run: "save_then flush model event rest ?s0 = (r, s1)" by (cases "save_then flush model event rest ?s0")
  have "disciplined (save_then flush model event rest)"
    using disciplined_save [of flush model event] assms(2)
    by (auto simp: disciplined_def save_then_def split: prod.split sum.split) (metis prod.sel(2))+
  then have durable: "sess_durable s1 = sess_durable s"
    using disciplined_durable [of "save_then flush model event rest" ?s0] run by simp
  have "\<exists>s2. sess_working s2 = (fst (sess_working s) @ [model], snd (sess_working s) @ [event]) \<and> s1 = snd (rest s2)"
    if "r = Inr a" for a
    using run that
    by (auto simp: save_then_def save_with_outbox_def session_defs split: option.splits flush_error.splits)
      (metis prod.sel(2) session.select_convs(3) session.surjective session.update_convs(3))
  then show ?thesis
    using alone run assms(1) durable by (cases r) (auto simp: transaction_Inl transaction_Inr)
qed

text \<open>A payment is refused after its event was written; nothing of either stays.\<close>

lemma event_commits_with_its_row_witness:
  "let s = \<lparr>sess_depth = 0, sess_durable = ([1::int], []), sess_working = ([1], [])\<rparr>;
       event = new_event ''orders'' ''paid'' 5 7 0;
       refused = (\<lambda>s. (Inl OtherError, s)) :: (int outbox_db session, repo_error, unit) action
   in sess_durable (snd (transaction (save_then (\<lambda>_. None) 2 event refused) s)) = ([1], [])
      \<and> sess_durable (snd (save_with_outbox (\<lambda>_. None) 2 event s)) = ([1, 2], [event])"
proof -
  let ?s = "\<lparr>sess_depth = 0, sess_durable = ([1::int], []), sess_working = ([1], [])\<rparr>"
  let ?event = "new_event ''orders'' ''paid'' 5 7 0"
  let ?refused = "(\<lambda>s. (Inl OtherError, s)) :: (int outbox_db session, repo_error, unit) action"
  have "disciplined ?refused" by (rule disciplinedI) simp_all
  from event_commits_with_its_row [OF _ this, where s = ?s and flush = "\<lambda>_. None" and model = 2 and event = ?event]
  show ?thesis
    by (simp add: save_then_def save_with_outbox_def transaction_def session_defs Let_def)
qed

subsection \<open>A healthy relay clears its backlog\<close>

definition sent_row :: "real \<Rightarrow> uuid set \<Rightarrow> outbox_event \<Rightarrow> outbox_event" where
  "sent_row t taken r = (if ob_id r \<in> taken then r\<lparr>ob_status := SENT, ob_sent_at := Some t\<rparr> else r)"

lemma drain_sends:
  assumes ids: "distinct (map ob_id rows)" and batch_def: "batch = select_batch relay row_locks [] t rows"
  shows "relay_drain_once relay row_locks [] (\<lambda>_. None) t rows = (length batch, map (sent_row t (ob_id ` set batch)) rows)"
proof -
  let ?send = "publish_event_outcome relay None t"
  have send: "?send event = event\<lparr>ob_status := SENT, ob_sent_at := Some t\<rparr>" for event
    by (simp add: publish_event_outcome_def)
  have batch: "distinct (map ob_id batch)" "\<And>event. event \<in> set batch \<Longrightarrow> event \<in> set rows"
    using batch_ok [OF ids, of row_locks "[]"] by (auto simp: batch_def)
  have one: "r = r'" if "r \<in> set rows" "r' \<in> set rows" "ob_id r = ob_id r'" for r r'
    using ids that by (auto simp: distinct_map inj_on_def)
  have "(case find (\<lambda>event. ob_id event = ob_id r) (map ?send batch) of Some event \<Rightarrow> event | None \<Rightarrow> r)
      = sent_row t (ob_id ` set batch) r" if r: "r \<in> set rows" for r
  proof (cases "ob_id r \<in> ob_id ` set batch")
    case True
    then have "r \<in> set batch" using one [OF r] batch(2) by force
    then have "?send r \<in> set (map ?send batch)" "distinct (map ob_id (map ?send batch))"
      using batch(1) by (simp_all add: send comp_def)
    then show ?thesis using True find_id_distinct [of "map ?send batch" "?send r"] by (simp add: send sent_row_def)
  next
    case False
    then have "find (\<lambda>event. ob_id event = ob_id r) (map ?send batch) = None"
      by (auto simp: find_None_iff send) (metis imageI)
    then show ?thesis using False by (simp add: sent_row_def)
  qed
  then have "write_back (map ?send batch) rows = map (sent_row t (ob_id ` set batch)) rows"
    by (simp add: write_back_def)
  moreover have "filter (\<lambda>event. ob_status event = SENT) (map ?send batch) = map ?send batch"
    by (simp add: send filter_map comp_def)
  ultimately show ?thesis
    by (simp add: relay_drain_once_def Let_def batch_def [symmetric])
qed

definition pending :: "outbox_event list \<Rightarrow> outbox_event list" where
  "pending rows = filter (\<lambda>event. ob_status event = PENDING) rows"

lemma sent_row_simps [simp]: "ob_id (sent_row t taken r) = ob_id r"
  by (simp add: sent_row_def)

lemma drain_sends_pending:
  assumes ids: "distinct (map ob_id rows)" and batch: "batch = select_batch relay row_locks [] t rows"
  shows "length (pending (map (sent_row t (ob_id ` set batch)) rows)) + length batch = length (pending rows)"
proof -
  let ?taken = "\<lambda>r. ob_id r \<in> ob_id ` set batch"
  have in_batch: "r \<in> set batch" if r: "r \<in> set rows" and taken: "?taken r" for r
  proof -
    obtain event where event: "event \<in> set batch" "ob_id r = ob_id event" using taken by auto
    then have "event \<in> set rows" using batch_ok(2) [OF ids _ event(1) [unfolded batch]] by simp
    then have "r = event" using ids r event(2) by (simp add: distinct_map inj_on_def)
    then show ?thesis using event(1) by simp
  qed
  have "set (filter ?taken (pending rows)) = set batch"
  proof
    show "set (filter ?taken (pending rows)) \<subseteq> set batch" using in_batch by (auto simp: pending_def)
    show "set batch \<subseteq> set (filter ?taken (pending rows))"
      using batch_ok(2) [OF ids, of row_locks "[]" _ relay t] by (auto simp: pending_def batch)
  qed
  moreover have "distinct (filter ?taken (pending rows))" "distinct batch"
    using ids batch_ok(1) [OF ids, of row_locks "[]" relay t] by (simp_all add: pending_def batch distinct_map)
  ultimately have taken: "length (filter ?taken (pending rows)) = length batch"
    by (metis distinct_card)
  have "pending (map (sent_row t (ob_id ` set batch)) rows) = filter (\<lambda>r. \<not> ?taken r) (pending rows)"
    by (induction rows) (simp_all add: pending_def sent_row_def)
  then show ?thesis
    using taken sum_length_filter_compl [of ?taken "pending rows"] by simp
qed

lemma full_batch:
  assumes "batch = select_batch relay row_locks [] t rows" and "r \<in> set rows" and "is_due t r"
    and "0 \<le> batch_size relay"
  shows "r \<in> set batch \<or> int (length batch) = batch_size relay"
proof -
  let ?xs = "sort_key ob_available_at (filter (is_due t) rows)"
  have batch: "batch = take (nat (batch_size relay)) ?xs" by (simp add: assms(1) select_batch_def)
  show ?thesis
  proof (cases "length ?xs \<le> nat (batch_size relay)")
    case True
    then show ?thesis using assms(2,3) by (simp add: batch)
  next
    case False
    then show ?thesis using assms(4) by (simp add: batch)
  qed
qed

lemma drain_keeps_sent:
  assumes ids: "distinct (map ob_id rows)" and r: "r \<in> set rows" "ob_status r = SENT"
  shows "r \<in> set (snd (relay_drain_once relay row_locks [] publish t rows))"
proof -
  have "ob_id r \<noteq> ob_id event" if "event \<in> set (select_batch relay row_locks [] t rows)" for event
  proof
    assume "ob_id r = ob_id event"
    moreover have "event \<in> set rows" "ob_status event = PENDING"
      using batch_ok(2) [OF ids _ that] by auto
    ultimately show False using ids r by (auto simp: distinct_map inj_on_def)
  qed
  then have "ob_id r \<notin> ob_id ` set (map (\<lambda>event. publish_event_outcome relay (publish event) t event) (select_batch relay row_locks [] t rows))"
    by (simp add: image_iff)
  from write_back_keeps [OF r(1) this] show ?thesis
    by (simp add: relay_drain_once_def Let_def)
qed

lemma run_keeps_sent:
  assumes "distinct (map ob_id rows)" and "r \<in> set rows" and "ob_status r = SENT"
  shows "r \<in> set (snd (run_relay relay row_locks poll_interval turns t rows))"
  using assms
proof (induction turns arbitrary: t rows)
  case (Cons turn turns)
  have "distinct (map ob_id (snd (relay_drain_once relay row_locks [] publish t rows)))" for publish
    using Cons.prems(1) by (simp add: relay_drain_once_def Let_def)
  then show ?case
    using Cons.IH drain_keeps_sent [OF Cons.prems] Cons.prems by (simp add: case_prod_beta)
qed simp

text \<open>Turns in which publishing works.\<close>

definition healthy :: "turn \<Rightarrow> bool" where
  "healthy turn \<longleftrightarrow> \<not> tn_stop turn \<and> \<not> tn_raises turn \<and> tn_publish turn = (\<lambda>_. None) \<and> 0 \<le> tn_elapsed turn"

lemma healthy_turns_send:
  assumes batch: "1 \<le> batch_size relay" and poll: "0 \<le> poll_interval"
    and "distinct (map ob_id xs)" and "int (length (pending xs)) \<le> int (length turns) * batch_size relay"
    and "\<exists>x \<in> set xs. ob_id x = e \<and> (ob_status x = SENT \<or> is_due t x)" and "\<forall>turn \<in> set turns. healthy turn"
  shows "\<exists>r' \<in> set (snd (run_relay relay row_locks poll_interval turns t xs)). ob_id r' = e \<and> ob_status r' = SENT"
  using assms(3-6)
proof (induction turns arbitrary: t xs)
  case Nil
  then show ?case by (auto simp: pending_def is_due_def filter_empty_conv)
next
  case (Cons turn turns)
  define batch where "batch = select_batch relay row_locks [] t xs"
  define ys where "ys = map (sent_row t (ob_id ` set batch)) xs"
  define t' where "t' = t + tn_elapsed turn + (if length batch = 0 then poll_interval else 0)"
  obtain x where x: "x \<in> set xs" "ob_id x = e" "ob_status x = SENT \<or> is_due t x" using Cons.prems(3) by blast
  have run: "run_relay relay row_locks poll_interval (turn # turns) t xs = run_relay relay row_locks poll_interval turns t' ys"
    using Cons.prems(4) by (simp add: healthy_def drain_sends [OF Cons.prems(1) batch_def] t'_def ys_def)
  have later: "t \<le> t'" using Cons.prems(4) poll by (simp add: healthy_def t'_def)
  have count: "length (pending ys) + length batch = length (pending xs)"
    unfolding ys_def by (rule drain_sends_pending [OF Cons.prems(1) batch_def])
  let ?y = "sent_row t (ob_id ` set batch) x"
  have y: "?y \<in> set ys" "ob_id ?y = e" "ob_status ?y = SENT \<or> is_due t' ?y"
    using x later by (auto simp: ys_def sent_row_def is_due_def)
  show ?case
  proof (cases "int (length batch) = batch_size relay")
    case True
    then have "int (length (pending ys)) \<le> int (length turns) * batch_size relay"
      using Cons.prems(2) count by (simp add: algebra_simps)
    moreover have "distinct (map ob_id ys)" using Cons.prems(1) by (simp add: ys_def comp_def)
    ultimately show ?thesis
      using Cons.IH [of ys t'] y Cons.prems(4) by (auto simp only: run set_simps)
  next
    case False
    then have "x \<in> set batch \<or> ob_status x = SENT"
      using full_batch [OF batch_def x(1)] x(3) batch by auto
    then have "ob_status ?y = SENT" by (auto simp: sent_row_def)
    moreover have "distinct (map ob_id ys)" using Cons.prems(1) by (simp add: ys_def comp_def)
    ultimately show ?thesis using run_keeps_sent y(1,2) unfolding run by blast
  qed
qed

text \<open>
  A healthy relay clears its backlog: when every publish succeeds, the turns of \<^verbatim>\<open>run\<close> whose
  batches together could take every pending event leave every event that was due at the start
  sent, whatever the other events are.
\<close>

theorem relay_clears_backlog:
  assumes "distinct (map ob_id rows)" and "1 \<le> batch_size relay" and "0 \<le> poll_interval"
    and "\<forall>turn \<in> set turns. \<not> tn_stop turn \<and> \<not> tn_raises turn \<and> tn_publish turn = (\<lambda>_. None) \<and> 0 \<le> tn_elapsed turn"
    and "int (length (filter (\<lambda>r. ob_status r = PENDING) rows)) \<le> int (length turns) * batch_size relay"
    and "r \<in> set rows" and "is_due now r"
  shows "\<exists>r' \<in> set (snd (run_relay relay row_locks poll_interval turns now rows)). ob_id r' = ob_id r \<and> ob_status r' = SENT"
proof -
  have "\<forall>turn \<in> set turns. healthy turn" using assms(4) by (simp add: healthy_def)
  then show ?thesis
    using healthy_turns_send [OF assms(2,3,1), of turns "ob_id r" now] assms(5-7) by (auto simp: pending_def)
qed

text \<open>Two events, a batch of one: the older one goes first, both are sent after two turns.\<close>

lemma relay_clears_backlog_witness:
  "let relay = \<lparr>batch_size = 1, backoff_base_seconds = 2\<rparr>;
       turn = \<lparr>tn_stop = False, tn_raises = False, tn_publish = (\<lambda>_. None), tn_elapsed = 1\<rparr>;
       rows = [new_event ''orders'' ''paid'' 5 7 3, new_event ''orders'' ''shipped'' 5 8 0]
   in \<exists>r' \<in> set (snd (run_relay relay True 1 [turn, turn] 5 rows)). ob_id r' = 7 \<and> ob_status r' = SENT"
proof -
  let ?relay = "\<lparr>batch_size = 1, backoff_base_seconds = 2\<rparr>"
  let ?turn = "\<lparr>tn_stop = False, tn_raises = False, tn_publish = (\<lambda>_. None), tn_elapsed = 1\<rparr>"
  let ?e = "new_event ''orders'' ''paid'' 5 7 3" and ?e' = "new_event ''orders'' ''shipped'' 5 8 0"
  show ?thesis
    using relay_clears_backlog [of "[?e, ?e']" ?relay 1 "[?turn, ?turn]" ?e 5 True]
    by (simp add: new_event_def is_due_def)
qed

subsection \<open>A drain is a run\<close>

lemma publish_all_is_a_run:
  assumes "outbox_reach relay row_locks c" and "os_drains c = ds @ [\<lparr>dr_todo = todo, dr_tried = tried\<rparr>]"
  shows "\<exists>c'. outbox_reach relay row_locks c' \<and> os_rows c' = os_rows c
     \<and> os_drains c' = ds @ [\<lparr>dr_todo = [], dr_tried = tried @ map (\<lambda>event. publish_event_outcome relay (publish event) t event) todo\<rparr>]"
  using assms
proof (induction todo arbitrary: c tried)
  case Nil
  then show ?case by auto
next
  case (Cons event todo)
  let ?c = "publish_next relay (length ds) (publish event) t c"
  have "outbox_reach relay row_locks ?c"
    using Cons.prems by (intro outbox_reach.publishes) simp_all
  moreover have "os_drains ?c = ds @ [\<lparr>dr_todo = todo, dr_tried = tried @ [publish_event_outcome relay (publish event) t event]\<rparr>]"
      and "os_rows ?c = os_rows c"
    using Cons.prems(2) by (simp_all add: publish_next_def Let_def)
  ultimately show ?case using Cons.IH [of ?c] by force
qed

lemma relay_drain_is_a_run:
  assumes "outbox_reach relay row_locks c" and "row_locks \<or> os_drains c = []"
  shows "\<exists>c'. outbox_reach relay row_locks c' \<and> os_drains c' = os_drains c
     \<and> os_rows c' = snd (relay_drain_once relay row_locks (held_ids (os_drains c)) publish t (os_rows c))"
proof -
  let ?batch = "select_batch relay row_locks (held_ids (os_drains c)) t (os_rows c)"
  have "outbox_reach relay row_locks (begin_drain relay row_locks t c)"
    by (rule outbox_reach.begins [OF assms])
  then obtain c1 where c1: "outbox_reach relay row_locks c1" "os_rows c1 = os_rows c"
      "os_drains c1 = os_drains c @ [\<lparr>dr_todo = [], dr_tried = map (\<lambda>event. publish_event_outcome relay (publish event) t event) ?batch\<rparr>]"
    using publish_all_is_a_run [of relay row_locks "begin_drain relay row_locks t c" "os_drains c" ?batch "[]"]
    by (auto simp: begin_drain_def)
  have "outbox_reach relay row_locks (commit_drain (length (os_drains c)) c1)"
    by (rule outbox_reach.commits [OF c1(1)]) (simp_all add: c1)
  then show ?thesis
    by (intro exI [where x = "commit_drain (length (os_drains c)) c1"])
      (simp add: commit_drain_def c1 relay_drain_once_def Let_def)
qed

end
