(* ===== verification/Session_Store.thy ===== *)
theory Session_Store
  imports Redis
begin

text \<open>
  \<^verbatim>\<open>sessions/store.py\<close> and \<^verbatim>\<open>sessions/schemas.py\<close>: where server-side sessions are kept, under the
  digest of their cookie. \<open>mem_sessions\<close> is the in-process store: a dict of sessions and an index
  from a user to the digests of the sessions they own; a Python set is a list without duplicates,
  in the order of its iteration, on which no theorem depends. Each method holds the store's
  lock, so it is one step. \<open>MemorySessionStore.get\<close> hands out the stored object itself, so a
  caller that assigns to its fields changes the store: \<open>mem_assign\<close> is that effect. The Redis
  store sends the commands of \<open>Redis\<close>; \<open>dump\<close> and \<open>load\<close> are the JSON text of a session and
  its inverse.

  Times are in microseconds UTC. The local time zone that \<^verbatim>\<open>timestamp()\<close> of a naive datetime
  consults is taken to be UTC.
\<close>

subsection \<open>Sessions\<close>

record Session =
  session_id :: string
  user_id :: uuid
  created_at :: micros
  expires_at :: micros
  last_seen_at :: micros
  ip :: "string option"
  user_agent :: "string option"
  data :: "(string \<times> string) list"
  amr :: "string list"

definition is_expired :: "micros \<Rightarrow> Session \<Rightarrow> bool" where
  "is_expired now s \<longleftrightarrow> expires_at s < now"

subsection \<open>The in-process store\<close>

record mem_sessions =
  ms_sessions :: "string \<Rightarrow> Session option"
  ms_by_user :: "uuid \<Rightarrow> string list option"

definition empty_mem_sessions :: mem_sessions where
  "empty_mem_sessions = \<lparr>ms_sessions = (\<lambda>_. None), ms_by_user = (\<lambda>_. None)\<rparr>"

definition set_add :: "'a \<Rightarrow> 'a list \<Rightarrow> 'a list" where
  "set_add x xs = (if x \<in> set xs then xs else xs @ [x])"

text \<open>\<open>d.get(u, set()).discard(h)\<close>, and the removal of a user whose set became empty.\<close>

definition index_discard :: "uuid \<Rightarrow> string \<Rightarrow> (uuid \<Rightarrow> string list option) \<Rightarrow> uuid \<Rightarrow> string list option" where
  "index_discard u h idx = (case idx u of None \<Rightarrow> idx | Some hs \<Rightarrow> idx(u \<mapsto> filter (\<lambda>x. x \<noteq> h) hs))"

definition index_prune :: "uuid \<Rightarrow> (uuid \<Rightarrow> string list option) \<Rightarrow> uuid \<Rightarrow> string list option" where
  "index_prune u idx = (if idx u = None \<or> idx u = Some [] then idx(u := None) else idx)"

definition evict_locked :: "Session \<Rightarrow> mem_sessions \<Rightarrow> mem_sessions" where
  "evict_locked s st =
     st\<lparr>ms_sessions := (ms_sessions st)(session_id s := None),
        ms_by_user := index_prune (user_id s) (index_discard (user_id s) (session_id s) (ms_by_user st))\<rparr>"

definition mem_session_get :: "string \<Rightarrow> micros \<Rightarrow> mem_sessions \<Rightarrow> Session option \<times> mem_sessions" where
  "mem_session_get h now st =
     (case ms_sessions st h of
        None \<Rightarrow> (None, st)
      | Some s \<Rightarrow> if is_expired now s then (None, evict_locked s st) else (Some s, st))"

definition mem_assign :: "Session \<Rightarrow> mem_sessions \<Rightarrow> mem_sessions" where
  "mem_assign s st = st\<lparr>ms_sessions := (ms_sessions st)(session_id s \<mapsto> s)\<rparr>"

definition mem_set :: "Session \<Rightarrow> mem_sessions \<Rightarrow> mem_sessions" where
  "mem_set s st =
     (let idx = (case ms_sessions st (session_id s) of
                   Some existing \<Rightarrow>
                     if user_id existing \<noteq> user_id s
                     then index_discard (user_id existing) (session_id s) (ms_by_user st)
                     else ms_by_user st
                 | None \<Rightarrow> ms_by_user st)
      in st\<lparr>ms_sessions := (ms_sessions st)(session_id s \<mapsto> s),
            ms_by_user := idx(user_id s \<mapsto>
              set_add (session_id s) (case idx (user_id s) of Some hs \<Rightarrow> hs | None \<Rightarrow> []))\<rparr>)"

definition mem_touch :: "Session \<Rightarrow> mem_sessions \<Rightarrow> bool \<times> mem_sessions" where
  "mem_touch s st =
     (case ms_sessions st (session_id s) of
        None \<Rightarrow> (False, st)
      | Some existing \<Rightarrow>
          if user_id existing \<noteq> user_id s then (False, st)
          else (True, st\<lparr>ms_sessions := (ms_sessions st)(session_id s \<mapsto> s)\<rparr>))"

definition mem_session_delete :: "string \<Rightarrow> mem_sessions \<Rightarrow> mem_sessions" where
  "mem_session_delete h st =
     (case ms_sessions st h of
        None \<Rightarrow> st
      | Some s \<Rightarrow>
          st\<lparr>ms_sessions := (ms_sessions st)(h := None),
             ms_by_user := index_prune (user_id s) (index_discard (user_id s) h (ms_by_user st))\<rparr>)"

definition mem_delete_by_user :: "uuid \<Rightarrow> mem_sessions \<Rightarrow> nat \<times> mem_sessions" where
  "mem_delete_by_user u st =
     (let hs = (case ms_by_user st u of Some hs \<Rightarrow> hs | None \<Rightarrow> [])
      in (length hs,
          st\<lparr>ms_sessions := (\<lambda>h. if h \<in> set hs then None else ms_sessions st h),
             ms_by_user := (ms_by_user st)(u := None)\<rparr>))"

text \<open>The loop of \<^verbatim>\<open>list_by_user\<close>: expired sessions are evicted on the way.\<close>

fun mem_collect :: "micros \<Rightarrow> string list \<Rightarrow> mem_sessions \<Rightarrow> Session list \<times> mem_sessions" where
  "mem_collect now [] st = ([], st)"
| "mem_collect now (h # hs) st =
     (case ms_sessions st h of
        None \<Rightarrow> mem_collect now hs st
      | Some s \<Rightarrow>
          if is_expired now s then mem_collect now hs (evict_locked s st)
          else (case mem_collect now hs st of (ss, st') \<Rightarrow> (s # ss, st')))"

definition mem_list_by_user :: "uuid \<Rightarrow> micros \<Rightarrow> mem_sessions \<Rightarrow> Session list \<times> mem_sessions" where
  "mem_list_by_user u now st =
     (case mem_collect now (case ms_by_user st u of Some hs \<Rightarrow> hs | None \<Rightarrow> []) st of
        (ss, st') \<Rightarrow> (sort_key created_at ss, st'))"

subsection \<open>The Redis store\<close>

record 's redis_sessions =
  rs_client :: "'s redis"
  rs_prefix :: string
  rs_dump :: "Session \<Rightarrow> string"
  rs_load :: "string \<Rightarrow> Session"
  rs_uuid_text :: "uuid \<Rightarrow> string"

definition session_key :: "'s redis_sessions \<Rightarrow> string \<Rightarrow> string" where
  "session_key rs h = rs_prefix rs @ ''sess:'' @ h"

definition user_key :: "'s redis_sessions \<Rightarrow> uuid \<Rightarrow> string" where
  "user_key rs u = rs_prefix rs @ ''user:'' @ rs_uuid_text rs u"

definition seconds :: "micros \<Rightarrow> real" where
  "seconds t = of_int t / 1000000"

definition ttl_seconds :: "micros \<Rightarrow> Session \<Rightarrow> int" where
  "ttl_seconds now s = max 1 ((expires_at s - now) div 1000000)"

definition redis_session_delete :: "'s redis_sessions \<Rightarrow> string \<Rightarrow> micros \<Rightarrow> 's \<Rightarrow> 's" where
  "redis_session_delete rs h now st =
     (case redis_get (rs_client rs) (session_key rs h) (seconds now) st of
        (raw, st1) \<Rightarrow>
          redis_delete (rs_client rs) [session_key rs h] (seconds now)
            (case raw of
               None \<Rightarrow> st1
             | Some text \<Rightarrow> redis_srem (rs_client rs) (user_key rs (user_id (rs_load rs text))) [h] (seconds now) st1))"

definition redis_session_get :: "'s redis_sessions \<Rightarrow> string \<Rightarrow> micros \<Rightarrow> 's \<Rightarrow> Session option \<times> 's" where
  "redis_session_get rs h now st =
     (case redis_get (rs_client rs) (session_key rs h) (seconds now) st of
        (None, st1) \<Rightarrow> (None, st1)
      | (Some text, st1) \<Rightarrow>
          let s = rs_load rs text
          in if is_expired now s then (None, redis_session_delete rs h now st1) else (Some s, st1))"

definition redis_session_set :: "'s redis_sessions \<Rightarrow> Session \<Rightarrow> micros \<Rightarrow> 's \<Rightarrow> 's" where
  "redis_session_set rs s now st =
     (let ttl = ttl_seconds now s;
          st1 = snd (redis_set (rs_client rs) (session_key rs (session_id s)) (rs_dump rs s) False False ttl (seconds now) st);
          st2 = redis_sadd (rs_client rs) (user_key rs (user_id s)) (session_id s) (seconds now) st1
      in redis_expire (rs_client rs) (user_key rs (user_id s)) ttl (seconds now) st2)"

definition redis_session_touch :: "'s redis_sessions \<Rightarrow> Session \<Rightarrow> micros \<Rightarrow> 's \<Rightarrow> bool \<times> 's" where
  "redis_session_touch rs s now st =
     (let ttl = ttl_seconds now s
      in case redis_set (rs_client rs) (session_key rs (session_id s)) (rs_dump rs s) False True ttl (seconds now) st of
           (written, st1) \<Rightarrow>
             if \<not> written then (False, st1)
             else (True, redis_expire (rs_client rs) (user_key rs (user_id s)) ttl (seconds now) st1))"

definition redis_delete_by_user :: "'s redis_sessions \<Rightarrow> uuid \<Rightarrow> micros \<Rightarrow> 's \<Rightarrow> nat \<times> 's" where
  "redis_delete_by_user rs u now st =
     (case redis_smembers (rs_client rs) (user_key rs u) (seconds now) st of
        (decoded, st1) \<Rightarrow>
          let st2 = (if decoded = [] then st1
                     else redis_delete (rs_client rs) (map (session_key rs) decoded) (seconds now) st1)
          in (length decoded, redis_delete (rs_client rs) [user_key rs u] (seconds now) st2))"

fun redis_collect ::
  "'s redis_sessions \<Rightarrow> micros \<Rightarrow> string list \<Rightarrow> 's \<Rightarrow> (Session list \<times> string list) \<times> 's" where
  "redis_collect rs now [] st = (([], []), st)"
| "redis_collect rs now (h # hs) st =
     (case redis_get (rs_client rs) (session_key rs h) (seconds now) st of
        (raw, st1) \<Rightarrow>
          (case redis_collect rs now hs st1 of
             ((ss, stale), st2) \<Rightarrow>
               (case raw of
                  None \<Rightarrow> ((ss, h # stale), st2)
                | Some text \<Rightarrow>
                    if is_expired now (rs_load rs text) then ((ss, h # stale), st2)
                    else ((rs_load rs text # ss, stale), st2))))"

definition redis_list_by_user :: "'s redis_sessions \<Rightarrow> uuid \<Rightarrow> micros \<Rightarrow> 's \<Rightarrow> Session list \<times> 's" where
  "redis_list_by_user rs u now st =
     (case redis_smembers (rs_client rs) (user_key rs u) (seconds now) st of
        (decoded, st1) \<Rightarrow>
          (case redis_collect rs now decoded st1 of
             ((ss, stale), st2) \<Rightarrow>
               (sort_key created_at ss,
                if stale = [] then st2
                else redis_srem (rs_client rs) (user_key rs u) stale (seconds now) st2)))"

subsection \<open>The index of the in-process store\<close>

text \<open>
  Every stored session is under its own digest and in the index of its owner, and the index of a
  user lists, without repetition, stored sessions of that user.
\<close>

definition ids_ok :: "mem_sessions \<Rightarrow> bool" where
  "ids_ok st \<longleftrightarrow> (\<forall>h s. ms_sessions st h = Some s \<longrightarrow> session_id s = h)"

definition indexed :: "mem_sessions \<Rightarrow> uuid \<Rightarrow> string list" where
  "indexed st u = (case ms_by_user st u of Some hs \<Rightarrow> hs | None \<Rightarrow> [])"

definition owned :: "mem_sessions \<Rightarrow> uuid \<Rightarrow> string set" where
  "owned st u = {h. \<exists>s. ms_sessions st h = Some s \<and> user_id s = u}"

definition index_ok :: "mem_sessions \<Rightarrow> bool" where
  "index_ok st \<longleftrightarrow> ids_ok st \<and> (\<forall>u. distinct (indexed st u) \<and> set (indexed st u) = owned st u)"

lemma indexed_discard:
  "(case index_discard u h idx u' of Some hs \<Rightarrow> hs | None \<Rightarrow> [])
     = (if u' = u then filter (\<lambda>x. x \<noteq> h) (case idx u of Some hs \<Rightarrow> hs | None \<Rightarrow> [])
        else (case idx u' of Some hs \<Rightarrow> hs | None \<Rightarrow> []))"
  by (simp add: index_discard_def split: option.splits)

lemma indexed_prune:
  "(case index_prune u idx u' of Some hs \<Rightarrow> hs | None \<Rightarrow> []) = (case idx u' of Some hs \<Rightarrow> hs | None \<Rightarrow> [])"
  by (auto simp: index_prune_def split: option.splits)

lemma index_ok_empty: "index_ok empty_mem_sessions"
  by (simp add: index_ok_def ids_ok_def indexed_def owned_def empty_mem_sessions_def)

text \<open>Storing a session, and removing one, in terms of the index.\<close>

lemma index_ok_remove:
  assumes ok: "index_ok st" and s: "ms_sessions st h = Some s"
    and st': "ms_sessions st' = (ms_sessions st)(h := None)"
      "\<And>u. indexed st' u = (if u = user_id s then filter (\<lambda>x. x \<noteq> h) (indexed st u) else indexed st u)"
  shows "index_ok st'"
proof -
  have "owned st' u = owned st u - {h}" for u
    using st'(1) by (auto simp: owned_def split: if_splits)
  moreover have "h \<notin> owned st u" if "u \<noteq> user_id s" for u
    using s that by (auto simp: owned_def)
  ultimately show ?thesis
    using ok st'(1) by (auto simp: index_ok_def ids_ok_def st'(2) split: if_splits)
qed

lemma index_ok_evict: "index_ok st \<Longrightarrow> ms_sessions st h = Some s \<Longrightarrow> index_ok (evict_locked s st)"
proof -
  assume ok: "index_ok st" and s: "ms_sessions st h = Some s"
  then have "session_id s = h" by (simp add: index_ok_def ids_ok_def)
  with ok s show ?thesis
    by (intro index_ok_remove [OF ok s]) (simp_all add: evict_locked_def indexed_def indexed_prune indexed_discard)
qed

lemma index_ok_get: "index_ok st \<Longrightarrow> index_ok (snd (mem_session_get h now st))"
  by (simp add: mem_session_get_def index_ok_evict split: option.splits)

lemma index_ok_delete: "index_ok st \<Longrightarrow> index_ok (mem_session_delete h st)"
proof (cases "ms_sessions st h")
  case (Some s)
  assume "index_ok st"
  then show ?thesis
    by (rule index_ok_remove [OF _ Some])
       (simp_all add: mem_session_delete_def Some indexed_def indexed_prune indexed_discard)
qed (simp add: mem_session_delete_def)

lemma index_ok_replace:
  assumes "index_ok st" and "ms_sessions st (session_id s) = Some old" and "user_id old = user_id s"
    and "ms_sessions st' = (ms_sessions st)(session_id s \<mapsto> s)" and "\<And>u. indexed st' u = indexed st u"
  shows "index_ok st'"
proof -
  have "owned st' u = owned st u" for u
    using assms(2-4) by (auto simp: owned_def split: if_splits)
  with assms show ?thesis by (auto simp: index_ok_def ids_ok_def split: if_splits)
qed

lemma index_ok_touch: "index_ok st \<Longrightarrow> index_ok (snd (mem_touch s st))"
proof (cases "ms_sessions st (session_id s)")
  case (Some old)
  assume "index_ok st"
  then show ?thesis
    using index_ok_replace [OF _ Some, of "st\<lparr>ms_sessions := (ms_sessions st)(session_id s \<mapsto> s)\<rparr>"]
    by (simp add: mem_touch_def Some indexed_def)
qed (simp add: mem_touch_def)

lemma index_ok_assign:
  assumes "index_ok st" and "ms_sessions st (session_id s) = Some old" and "user_id old = user_id s"
  shows "index_ok (mem_assign s st)"
  by (rule index_ok_replace [OF assms]) (simp_all add: mem_assign_def indexed_def)

lemma set_set_add [simp]: "set (set_add x xs) = insert x (set xs)"
  by (auto simp: set_add_def)

lemma distinct_set_add [simp]: "distinct (set_add x xs) \<longleftrightarrow> distinct xs"
  by (simp add: set_add_def)

lemma index_ok_set: "index_ok st \<Longrightarrow> index_ok (mem_set s st)"
proof -
  assume ok: "index_ok st"
  let ?h = "session_id s" and ?st = "mem_set s st"
  have sessions: "ms_sessions ?st = (ms_sessions st)(?h \<mapsto> s)" by (simp add: mem_set_def Let_def)
  have kept: "?h \<notin> owned st u" if "u \<noteq> user_id e" "ms_sessions st ?h = Some e" for u e
    using that by (auto simp: owned_def)
  have "indexed ?st u =
      (if u = user_id s then set_add ?h (indexed st u)
       else if (\<exists>e. ms_sessions st ?h = Some e \<and> user_id e = u) then filter (\<lambda>x. x \<noteq> ?h) (indexed st u)
       else indexed st u)" for u
    by (auto simp: mem_set_def indexed_def index_discard_def Let_def split: option.splits)
  moreover have "owned ?st u = (if u = user_id s then insert ?h (owned st u) else owned st u - {?h})" for u
    by (auto simp: owned_def sessions split: if_splits)
  moreover have "?h \<notin> owned st u" if "\<nexists>e. ms_sessions st ?h = Some e \<and> user_id e = u" for u
    using that by (auto simp: owned_def)
  ultimately show ?thesis
    using ok by (auto simp: index_ok_def ids_ok_def sessions split: if_splits)
qed

lemma index_ok_delete_by_user: "index_ok st \<Longrightarrow> index_ok (snd (mem_delete_by_user u st))"
proof -
  assume ok: "index_ok st"
  let ?st = "snd (mem_delete_by_user u st)"
  have "ms_sessions ?st = (\<lambda>h. if h \<in> owned st u then None else ms_sessions st h)"
    using ok by (simp add: mem_delete_by_user_def index_ok_def indexed_def fun_eq_iff)
  moreover have "indexed ?st v = (if v = u then [] else indexed st v)" for v
    by (simp add: mem_delete_by_user_def indexed_def)
  moreover have "owned ?st v = (if v = u then {} else owned st v)" for v
    using calculation(1) by (auto simp: owned_def split: if_splits)
  ultimately show ?thesis
    using ok by (auto simp: index_ok_def ids_ok_def split: if_splits)
qed

lemma index_ok_collect: "index_ok st \<Longrightarrow> index_ok (snd (mem_collect now hs st))"
  by (induction now hs st rule: mem_collect.induct) (auto simp: index_ok_evict case_prod_beta split: option.splits)

lemma index_ok_list: "index_ok st \<Longrightarrow> index_ok (snd (mem_list_by_user u now st))"
  by (simp add: mem_list_by_user_def index_ok_collect case_prod_beta)

end
