(* ===== verification/Session_Auth.thy ===== *)
theory Session_Auth
  imports Session_Store Py_Text "HOL-Library.Countable"
begin

text \<open>
  \<^verbatim>\<open>sessions/service.py\<close>, \<^verbatim>\<open>sessions/authenticator.py\<close> and the resolution of a request's cookie in
  \<^verbatim>\<open>sessions/middleware.py\<close> and \<^verbatim>\<open>dependencies.py\<close>. \<open>session_store\<close> is the protocol
  \<^verbatim>\<open>SessionStore\<close>; its field \<open>ss_assign\<close> is what assigning to a session that \<open>ss_get\<close> handed out
  does to the store (nothing for Redis, which hands out a copy). A store written before \<^verbatim>\<open>touch\<close>
  existed has \<open>ss_touch = None\<close>. \<open>resolve\<close> suspends between its read and its write, so it is the
  composition of \<open>resolve_begin\<close> and \<open>resolve_end\<close>, and concurrent requests are an inductive
  relation over these halves. The digest of a token (\<open>sha\<close>), the password hash and the random
  tokens are arguments.

  The locale \<open>session_laws\<close> is what revocation needs of a store; it is interpreted on both.
\<close>

subsection \<open>Stores and settings\<close>

record 'st session_store =
  ss_get :: "string \<Rightarrow> micros \<Rightarrow> 'st \<Rightarrow> Session option \<times> 'st"
  ss_assign :: "Session \<Rightarrow> 'st \<Rightarrow> 'st"
  ss_set :: "Session \<Rightarrow> micros \<Rightarrow> 'st \<Rightarrow> 'st"
  ss_touch :: "(Session \<Rightarrow> micros \<Rightarrow> 'st \<Rightarrow> bool \<times> 'st) option"
  ss_delete :: "string \<Rightarrow> micros \<Rightarrow> 'st \<Rightarrow> 'st"
  ss_delete_by_user :: "uuid \<Rightarrow> micros \<Rightarrow> 'st \<Rightarrow> nat \<times> 'st"
  ss_list_by_user :: "uuid \<Rightarrow> micros \<Rightarrow> 'st \<Rightarrow> Session list \<times> 'st"

definition memory_store :: "mem_sessions session_store" where
  "memory_store =
     \<lparr>ss_get = mem_session_get, ss_assign = mem_assign, ss_set = (\<lambda>s now. mem_set s),
      ss_touch = Some (\<lambda>s now. mem_touch s), ss_delete = (\<lambda>h now. mem_session_delete h),
      ss_delete_by_user = (\<lambda>u now. mem_delete_by_user u), ss_list_by_user = mem_list_by_user\<rparr>"

definition redis_store :: "'s redis_sessions \<Rightarrow> 's session_store" where
  "redis_store rs =
     \<lparr>ss_get = redis_session_get rs, ss_assign = (\<lambda>s st. st), ss_set = redis_session_set rs,
      ss_touch = Some (redis_session_touch rs), ss_delete = redis_session_delete rs,
      ss_delete_by_user = redis_delete_by_user rs, ss_list_by_user = redis_list_by_user rs\<rparr>"

record SessionSettings =
  SESSION_TTL_SECONDS :: int
  SESSION_SLIDING :: bool
  SESSION_ROTATE_ON_LOGIN :: bool

subsection \<open>The life of a session\<close>

definition revoke :: "'st session_store \<Rightarrow> (string \<Rightarrow> string) \<Rightarrow> string \<Rightarrow> micros \<Rightarrow> 'st \<Rightarrow> 'st" where
  "revoke store sha plaintext now st = ss_delete store (sha plaintext) now st"

definition revoke_all :: "'st session_store \<Rightarrow> uuid \<Rightarrow> micros \<Rightarrow> 'st \<Rightarrow> nat \<times> 'st" where
  "revoke_all store u now st = ss_delete_by_user store u now st"

text \<open>\<open>token\<close> is the plaintext \<^verbatim>\<open>generate_opaque_token\<close> drew.\<close>

definition login ::
  "'st session_store \<Rightarrow> SessionSettings \<Rightarrow> (string \<Rightarrow> string) \<Rightarrow> uuid \<Rightarrow> string option \<Rightarrow> string option
     \<Rightarrow> string option \<Rightarrow> string \<Rightarrow> micros \<Rightarrow> 'st \<Rightarrow> (Session \<times> string) \<times> 'st" where
  "login store cfg sha u client_ip agent previous token now st =
     (let st1 = (case previous of
                   Some p \<Rightarrow> if SESSION_ROTATE_ON_LOGIN cfg then revoke store sha p now st else st
                 | None \<Rightarrow> st);
          s = \<lparr>session_id = sha token, user_id = u, created_at = now,
               expires_at = now + SESSION_TTL_SECONDS cfg * 1000000, last_seen_at = now,
               ip = client_ip, user_agent = agent, data = [], amr = []\<rparr>
      in ((s, token), ss_set store s now st1))"

definition refreshed :: "SessionSettings \<Rightarrow> micros \<Rightarrow> Session \<Rightarrow> Session" where
  "refreshed cfg now s =
     (let s = s\<lparr>last_seen_at := now\<rparr>
      in if SESSION_SLIDING cfg then s\<lparr>expires_at := now + SESSION_TTL_SECONDS cfg * 1000000\<rparr> else s)"

definition resolve_begin ::
  "'st session_store \<Rightarrow> SessionSettings \<Rightarrow> (string \<Rightarrow> string) \<Rightarrow> string \<Rightarrow> micros \<Rightarrow> 'st \<Rightarrow> Session option \<times> 'st" where
  "resolve_begin store cfg sha plaintext now st =
     (case ss_get store (sha plaintext) now st of
        (None, st1) \<Rightarrow> (None, st1)
      | (Some s, st1) \<Rightarrow> (Some (refreshed cfg now s), ss_assign store (refreshed cfg now s) st1))"

definition resolve_end :: "'st session_store \<Rightarrow> Session \<Rightarrow> micros \<Rightarrow> 'st \<Rightarrow> Session option \<times> 'st" where
  "resolve_end store s now st =
     (case ss_touch store of
        None \<Rightarrow> (Some s, ss_set store s now st)
      | Some touch \<Rightarrow> (case touch s now st of (ok, st') \<Rightarrow> (if ok then Some s else None, st')))"

definition resolve ::
  "'st session_store \<Rightarrow> SessionSettings \<Rightarrow> (string \<Rightarrow> string) \<Rightarrow> string \<Rightarrow> micros \<Rightarrow> 'st \<Rightarrow> Session option \<times> 'st" where
  "resolve store cfg sha plaintext now st =
     (case resolve_begin store cfg sha plaintext now st of
        (None, st1) \<Rightarrow> (None, st1)
      | (Some s, st1) \<Rightarrow> resolve_end store s now st1)"

record SessionSummarySchema =
  sum_id :: string
  sum_created_at :: micros
  sum_expires_at :: micros
  sum_last_seen_at :: micros
  sum_ip :: "string option"
  sum_user_agent :: "string option"
  sum_is_current :: bool

definition list_sessions ::
  "'st session_store \<Rightarrow> (string \<Rightarrow> string) \<Rightarrow> uuid \<Rightarrow> string option \<Rightarrow> micros \<Rightarrow> 'st \<Rightarrow> SessionSummarySchema list \<times> 'st" where
  "list_sessions store sha u current now st =
     (case ss_list_by_user store u now st of
        (ss, st') \<Rightarrow>
          (map (\<lambda>s. \<lparr>sum_id = take 32 (session_id s), sum_created_at = created_at s,
                      sum_expires_at = expires_at s, sum_last_seen_at = last_seen_at s,
                      sum_ip = ip s, sum_user_agent = user_agent s,
                      sum_is_current = (Some (session_id s) = map_option sha current)\<rparr>) ss, st'))"

datatype session_error = NotFoundException | UnauthorizedException | RuntimeError | ValueError

definition revoke_by_public_id ::
  "'st session_store \<Rightarrow> uuid \<Rightarrow> string \<Rightarrow> micros \<Rightarrow> 'st \<Rightarrow> (session_error + unit) \<times> 'st" where
  "revoke_by_public_id store u public_id now st =
     (case ss_list_by_user store u now st of
        (ss, st') \<Rightarrow>
          (case find (\<lambda>s. startswith (session_id s) public_id) ss of
             Some s \<Rightarrow> (Inr (), ss_delete store (session_id s) now st')
           | None \<Rightarrow> (Inl NotFoundException, st')))"

text \<open>
  The cookie of a request, as the middleware and the dependency resolve it: a missing or an empty
  cookie is no session, and a required session that is missing raises.
\<close>

definition resolve_cookie ::
  "'st session_store \<Rightarrow> SessionSettings \<Rightarrow> (string \<Rightarrow> string) \<Rightarrow> string option \<Rightarrow> micros \<Rightarrow> 'st \<Rightarrow> Session option \<times> 'st" where
  "resolve_cookie store cfg sha cookie now st =
     (case cookie of
        None \<Rightarrow> (None, st)
      | Some c \<Rightarrow> if c = [] then (None, st) else resolve store cfg sha c now st)"

definition session_dependency ::
  "bool \<Rightarrow> 'st session_store \<Rightarrow> SessionSettings \<Rightarrow> (string \<Rightarrow> string) \<Rightarrow> string option \<Rightarrow> micros \<Rightarrow> 'st
     \<Rightarrow> (session_error + Session option) \<times> 'st" where
  "session_dependency required store cfg sha cookie now st =
     (case resolve_cookie store cfg sha cookie now st of
        (s, st') \<Rightarrow> (if s = None \<and> required then Inl UnauthorizedException else Inr s, st'))"

subsection \<open>Credentials\<close>

record user_row =
  usr_id :: uuid
  usr_hashed_password :: string
  usr_is_active :: bool

text \<open>
  \<open>lookup\<close> is the row of a normalized address, \<open>verify\<close> the bcrypt check, \<open>dummy\<close> the throwaway
  hash. The second component lists the hashes that were verified against.
\<close>

definition authenticate ::
  "(string \<Rightarrow> user_row option) \<Rightarrow> (string \<Rightarrow> string \<Rightarrow> bool) \<Rightarrow> string \<Rightarrow> string \<Rightarrow> string
     \<Rightarrow> (session_error + user_row) \<times> string list" where
  "authenticate lookup verify dummy email password =
     (case lookup (lower (strip email)) of
        None \<Rightarrow> (Inl UnauthorizedException, [dummy])
      | Some u \<Rightarrow>
          if \<not> verify password (usr_hashed_password u)
          then (Inl UnauthorizedException, [usr_hashed_password u])
          else if \<not> usr_is_active u then (Inl UnauthorizedException, [usr_hashed_password u])
          else (Inr u, [usr_hashed_password u]))"

record static_credential =
  sc_username_digest :: string
  sc_password_digest :: string
  sc_user_id :: uuid

definition static_init ::
  "(string \<Rightarrow> string) \<Rightarrow> (string \<Rightarrow> uuid) \<Rightarrow> string \<Rightarrow> string \<Rightarrow> uuid option \<Rightarrow> session_error + static_credential" where
  "static_init digest named username password uid =
     (if username = [] \<or> password = [] then Inl ValueError
      else Inr \<lparr>sc_username_digest = digest username, sc_password_digest = digest password,
                sc_user_id = (case uid of Some u \<Rightarrow> u | None \<Rightarrow> named username)\<rparr>)"

definition static_authenticate ::
  "(string \<Rightarrow> string) \<Rightarrow> static_credential \<Rightarrow> string \<Rightarrow> string \<Rightarrow> session_error + uuid" where
  "static_authenticate digest cred username password =
     (let username_ok = (digest username = sc_username_digest cred);
          password_ok = (digest password = sc_password_digest cred)
      in if \<not> (username_ok \<and> password_ok) then Inl UnauthorizedException else Inr (sc_user_id cred))"

definition login_with_credentials ::
  "'st session_store \<Rightarrow> SessionSettings \<Rightarrow> (string \<Rightarrow> string) \<Rightarrow> (string \<Rightarrow> string \<Rightarrow> session_error + uuid)
     \<Rightarrow> string \<Rightarrow> string \<Rightarrow> string option \<Rightarrow> string option \<Rightarrow> string option \<Rightarrow> string \<Rightarrow> micros \<Rightarrow> 'st
     \<Rightarrow> (session_error + Session \<times> string) \<times> 'st" where
  "login_with_credentials store cfg sha auth username password client_ip agent previous token now st =
     (case auth username password of
        Inl e \<Rightarrow> (Inl e, st)
      | Inr u \<Rightarrow> (case login store cfg sha u client_ip agent previous token now st of
                    (res, st') \<Rightarrow> (Inr res, st')))"

subsection \<open>Concurrent requests\<close>

text \<open>
  A store, the clock, and the sessions that requests have read and not yet written back. \<open>mints h\<close>
  says which digests a login may produce.
\<close>

record 'st session_run =
  sr_store :: 'st
  sr_now :: micros
  sr_flight :: "Session list"

definition login_step where
  "login_step store cfg sha u client_ip agent previous token t c =
     c\<lparr>sr_now := t, sr_store := snd (login store cfg sha u client_ip agent previous token t (sr_store c))\<rparr>"

definition session_read_step where
  "session_read_step store cfg sha plaintext t c =
     (case resolve_begin store cfg sha plaintext t (sr_store c) of
        (None, st) \<Rightarrow> c\<lparr>sr_now := t, sr_store := st\<rparr>
      | (Some s, st) \<Rightarrow> c\<lparr>sr_now := t, sr_store := st, sr_flight := s # sr_flight c\<rparr>)"

definition write_step where
  "write_step store s t c =
     c\<lparr>sr_now := t, sr_store := snd (resolve_end store s t (sr_store c)), sr_flight := remove1 s (sr_flight c)\<rparr>"

definition revoke_step where
  "revoke_step store sha plaintext t c = c\<lparr>sr_now := t, sr_store := revoke store sha plaintext t (sr_store c)\<rparr>"

definition revoke_all_step where
  "revoke_all_step store u t c = c\<lparr>sr_now := t, sr_store := snd (revoke_all store u t (sr_store c))\<rparr>"

definition list_step where
  "list_step store sha u current t c = c\<lparr>sr_now := t, sr_store := snd (list_sessions store sha u current t (sr_store c))\<rparr>"

definition public_step where
  "public_step store u public_id t c = c\<lparr>sr_now := t, sr_store := snd (revoke_by_public_id store u public_id t (sr_store c))\<rparr>"

inductive session_runs ::
  "'st session_store \<Rightarrow> SessionSettings \<Rightarrow> (string \<Rightarrow> string) \<Rightarrow> (string \<Rightarrow> bool)
     \<Rightarrow> 'st session_run \<Rightarrow> 'st session_run \<Rightarrow> bool"
  for store :: "'st session_store" and cfg :: SessionSettings and sha :: "string \<Rightarrow> string"
    and mints :: "string \<Rightarrow> bool" and c0 :: "'st session_run" where
  start: "session_runs store cfg sha mints c0 c0"
| logs_in: "session_runs store cfg sha mints c0 c \<Longrightarrow> sr_now c \<le> t \<Longrightarrow> mints (sha token) \<Longrightarrow>
    session_runs store cfg sha mints c0 (login_step store cfg sha u client_ip agent previous token t c)"
| request_reads: "session_runs store cfg sha mints c0 c \<Longrightarrow> sr_now c \<le> t \<Longrightarrow>
    session_runs store cfg sha mints c0 (session_read_step store cfg sha plaintext t c)"
| request_writes: "session_runs store cfg sha mints c0 c \<Longrightarrow> sr_now c \<le> t \<Longrightarrow> s \<in> set (sr_flight c) \<Longrightarrow>
    session_runs store cfg sha mints c0 (write_step store s t c)"
| revokes: "session_runs store cfg sha mints c0 c \<Longrightarrow> sr_now c \<le> t \<Longrightarrow>
    session_runs store cfg sha mints c0 (revoke_step store sha plaintext t c)"
| revokes_all: "session_runs store cfg sha mints c0 c \<Longrightarrow> sr_now c \<le> t \<Longrightarrow>
    session_runs store cfg sha mints c0 (revoke_all_step store u t c)"
| lists: "session_runs store cfg sha mints c0 c \<Longrightarrow> sr_now c \<le> t \<Longrightarrow>
    session_runs store cfg sha mints c0 (list_step store sha u current t c)"
| revokes_public: "session_runs store cfg sha mints c0 c \<Longrightarrow> sr_now c \<le> t \<Longrightarrow>
    session_runs store cfg sha mints c0 (public_step store u public_id t c)"

lemmas session_steps = login_step_def session_read_step_def write_step_def revoke_step_def revoke_all_step_def
  list_step_def public_step_def

subsection \<open>Revocation is final\<close>

text \<open>
  \<open>dead st t h\<close>: from time \<open>t\<close> on, the store holds nothing under the digest \<open>h\<close>. Only a write
  that creates a session may end it.
\<close>

locale session_laws =
  fixes store :: "'st session_store" and dead :: "'st \<Rightarrow> micros \<Rightarrow> string \<Rightarrow> bool"
  assumes touch_exists: "ss_touch store \<noteq> None"
    and dead_later: "dead st t h \<Longrightarrow> t \<le> t' \<Longrightarrow> dead st t' h"
    and dead_get: "dead st t h \<Longrightarrow> fst (ss_get store h t st) = None"
    and get_keeps: "dead st t h \<Longrightarrow> dead (snd (ss_get store k t st)) t h"
    and assign_keeps: "dead st t h \<Longrightarrow> ss_get store k t st = (Some s0, st1) \<Longrightarrow> session_id s = session_id s0 \<Longrightarrow>
          dead (ss_assign store s st1) t h"
    and set_keeps: "dead st t h \<Longrightarrow> session_id s \<noteq> h \<Longrightarrow> dead (ss_set store s t st) t h"
    and touch_dead: "ss_touch store = Some touch \<Longrightarrow> dead st t (session_id s) \<Longrightarrow> \<not> fst (touch s t st)"
    and touch_keeps: "ss_touch store = Some touch \<Longrightarrow> dead st t h \<Longrightarrow> dead (snd (touch s t st)) t h"
    and delete_keeps: "dead st t h \<Longrightarrow> dead (ss_delete store k t st) t h"
    and delete_all_keeps: "dead st t h \<Longrightarrow> dead (snd (ss_delete_by_user store u t st)) t h"
    and list_keeps: "dead st t h \<Longrightarrow> dead (snd (ss_list_by_user store u t st)) t h"
begin

lemma resolve_end_dead:
  assumes "dead st t (session_id s)"
  shows "fst (resolve_end store s t st) = None"
  using touch_exists touch_dead [OF _ assms] by (auto simp: resolve_end_def split: option.splits prod.splits)

lemma resolve_end_keeps: "dead st t h \<Longrightarrow> dead (snd (resolve_end store s t st)) t h"
  using touch_exists touch_keeps [of _ st t h s] by (auto simp: resolve_end_def split: option.splits prod.splits)

lemma resolve_begin_keeps: "dead st t h \<Longrightarrow> dead (snd (resolve_begin store cfg sha p t st)) t h"
proof (cases "ss_get store (sha p) t st")
  case (Pair res st1)
  assume dead: "dead st t h"
  then have "dead st1 t h" using get_keeps [of st t h "sha p"] Pair by simp
  moreover have "dead (ss_assign store (refreshed cfg t s) st1) t h" if "res = Some s" for s
    using assign_keeps [OF dead, of "sha p" s st1 "refreshed cfg t s"] Pair that
    by (simp add: refreshed_def Let_def)
  ultimately show ?thesis by (simp add: resolve_begin_def Pair split: option.splits)
qed

lemma resolve_dead: "dead st t (sha p) \<Longrightarrow> fst (resolve store cfg sha p t st) = None"
  using dead_get [of st t "sha p"]
  by (auto simp: resolve_def resolve_begin_def split: prod.splits option.splits)

lemma login_keeps:
  "dead st t h \<Longrightarrow> sha token \<noteq> h \<Longrightarrow> dead (snd (login store cfg sha u i a p token t st)) t h"
  by (auto simp: login_def revoke_def Let_def set_keeps delete_keeps split: option.splits)

lemma public_keeps: "dead st t h \<Longrightarrow> dead (snd (revoke_by_public_id store u p t st)) t h"
  using list_keeps [of st t h u]
  by (auto simp: revoke_by_public_id_def delete_keeps split: prod.splits option.splits)

lemma read_step_store: "sr_store (session_read_step store cfg sha p t c) = snd (resolve_begin store cfg sha p t (sr_store c))"
    and read_step_now: "sr_now (session_read_step store cfg sha p t c) = t"
  by (auto simp: session_read_step_def split: prod.splits option.splits)

lemma dead_stays:
  assumes "session_runs store cfg sha (\<lambda>h'. h' \<noteq> h) c0 c" and "dead (sr_store c0) (sr_now c0) h"
  shows "dead (sr_store c) (sr_now c) h"
  using assms(1)
proof induction
  case start
  then show ?case by (rule assms(2))
next
  case (request_reads c t plaintext)
  then show ?case
    by (auto simp: read_step_store read_step_now intro: resolve_begin_keeps dead_later)
next
  case (request_writes c t s)
  then show ?case by (auto simp: write_step_def intro: resolve_end_keeps dead_later)
qed (auto simp: login_step_def revoke_step_def revoke_all_step_def list_step_def public_step_def list_sessions_def
       revoke_def revoke_all_def case_prod_beta
       intro: login_keeps delete_keeps delete_all_keeps list_keeps public_keeps dead_later)

end

definition mem_dead :: "mem_sessions \<Rightarrow> micros \<Rightarrow> string \<Rightarrow> bool" where
  "mem_dead st t h \<longleftrightarrow> ids_ok st \<and> ms_sessions st h = None"

lemma ids_ok_evict: "ids_ok st \<Longrightarrow> ids_ok (evict_locked s st)"
  by (simp add: ids_ok_def evict_locked_def)

lemma mem_dead_collect: "mem_dead st t h \<Longrightarrow> mem_dead (snd (mem_collect now hs st)) t h"
proof (induction now hs st rule: mem_collect.induct)
  case (2 now k hs st)
  have "mem_dead (evict_locked s st) t h" for s
    using 2(4) by (auto simp: mem_dead_def ids_ok_evict) (simp add: evict_locked_def)
  with 2 show ?case by (auto simp: case_prod_beta split: option.splits)
qed simp

interpretation mem_laws: session_laws memory_store mem_dead
proof
  fix st :: mem_sessions and t h
  show "ss_touch memory_store \<noteq> None" by (simp add: memory_store_def)
  assume dead: "mem_dead st t h"
  show "mem_dead st t' h" for t' using dead by (simp add: mem_dead_def)
  show "fst (ss_get memory_store h t st) = None" using dead by (simp add: mem_dead_def memory_store_def mem_session_get_def)
  show "mem_dead (snd (ss_get memory_store k t st)) t h" for k
    using dead by (auto simp: mem_dead_def memory_store_def mem_session_get_def ids_ok_def evict_locked_def split: option.splits)
  show "mem_dead (ss_assign memory_store s st1) t h"
    if "ss_get memory_store k t st = (Some s0, st1)" "session_id s = session_id s0" for k s0 st1 s
    using dead that by (auto simp: mem_dead_def memory_store_def mem_session_get_def mem_assign_def ids_ok_def
        split: option.splits if_splits)
  show "mem_dead (ss_set memory_store s t st) t h" if "session_id s \<noteq> h" for s
    using dead that by (auto simp: mem_dead_def memory_store_def mem_set_def ids_ok_def Let_def)
  show "mem_dead (ss_delete memory_store k t st) t h" for k
    using dead by (auto simp: mem_dead_def memory_store_def mem_session_delete_def ids_ok_def split: option.splits)
  show "mem_dead (snd (ss_delete_by_user memory_store u t st)) t h" for u
    using dead by (auto simp: mem_dead_def memory_store_def mem_delete_by_user_def ids_ok_def Let_def)
  show "mem_dead (snd (ss_list_by_user memory_store u t st)) t h" for u
    using dead by (simp add: memory_store_def mem_list_by_user_def case_prod_beta mem_dead_collect)
  show "mem_dead (snd (touch s t st)) t h" if "ss_touch memory_store = Some touch" for touch s
    using dead that by (auto simp: mem_dead_def memory_store_def mem_touch_def ids_ok_def split: option.splits if_splits)
next
  show "\<not> fst (touch s t st)" if "ss_touch memory_store = Some touch" "mem_dead st t (session_id s)" for touch s t st
    using that by (auto simp: mem_dead_def memory_store_def mem_touch_def)
qed

definition redis_dead :: "('s \<Rightarrow> keyspace) \<Rightarrow> 's redis_sessions \<Rightarrow> 's \<Rightarrow> micros \<Rightarrow> string \<Rightarrow> bool" where
  "redis_dead ks_of rs st t h \<longleftrightarrow> live_strings (seconds t) (ks_of st) (session_key rs h) = None"

lemma session_keys [simp]:
  "session_key rs h = session_key rs h' \<longleftrightarrow> h = h'"
  "session_key rs h \<noteq> user_key rs u" "user_key rs u \<noteq> session_key rs h"
  by (simp_all add: session_key_def user_key_def)

lemma ttl_positive [simp]: "0 < ttl_seconds now s"
  by (simp add: ttl_seconds_def)

lemma seconds_mono [simp]: "t \<le> t' \<Longrightarrow> seconds t \<le> seconds t'"
  by (simp add: seconds_def)

lemma redis_dead_commands:
  assumes r: "redis_contract (rs_client rs) ks_of" and dead: "redis_dead ks_of rs st t h"
  shows "redis_dead ks_of rs (snd (redis_get (rs_client rs) k (seconds t) st)) t h"
    and "redis_dead ks_of rs (redis_delete (rs_client rs) keys (seconds t) st) t h"
    and "redis_dead ks_of rs (redis_srem (rs_client rs) k hs (seconds t) st) t h"
    and "redis_dead ks_of rs (redis_sadd (rs_client rs) k x (seconds t) st) t h"
    and "0 < ex \<Longrightarrow> redis_dead ks_of rs (redis_expire (rs_client rs) (user_key rs u) ex (seconds t) st) t h"
    and "redis_dead ks_of rs (snd (redis_smembers (rs_client rs) k (seconds t) st)) t h"
    and "0 < ex \<Longrightarrow> k \<noteq> h \<or> xx \<Longrightarrow>
          redis_dead ks_of rs (snd (redis_set (rs_client rs) (session_key rs k) v False xx ex (seconds t) st)) t h"
    and "0 < ex \<Longrightarrow> k = h \<Longrightarrow> xx \<Longrightarrow> \<not> fst (redis_set (rs_client rs) (session_key rs k) v False xx ex (seconds t) st)"
  using dead
  by (auto simp: redis_dead_def contract_get [OF r] contract_delete [OF r] contract_sets [OF r]
      contract_expire [OF r] contract_members [OF r] contract_set(2,3) [OF r]
      contract_set(1) [OF r _ order.refl])

lemma redis_dead_collect:
  assumes "redis_contract (rs_client rs) ks_of"
  shows "redis_dead ks_of rs st t h \<Longrightarrow> redis_dead ks_of rs (snd (redis_collect rs t hs st)) t h"
proof (induction hs arbitrary: st)
  case (Cons k hs)
  then show ?case
    using redis_dead_commands(1) [OF assms Cons.prems]
    by (auto simp: case_prod_beta split: option.splits)
qed simp

lemma redis_session_laws:
  assumes r: "redis_contract (rs_client rs) ks_of"
  shows "session_laws (redis_store rs) (redis_dead ks_of rs)"
proof
  note cmd = redis_dead_commands [OF r]
  show "ss_touch (redis_store rs) \<noteq> None" by (simp add: redis_store_def)
  fix st t h
  assume dead: "redis_dead ks_of rs st t h"
  show "redis_dead ks_of rs st t' h" if "t \<le> t'" for t'
    using dead live_strings_expire [of "seconds t" "ks_of st"] that by (simp add: redis_dead_def)
  show "fst (ss_get (redis_store rs) h t st) = None"
    using dead by (simp add: redis_store_def redis_session_get_def redis_dead_def case_prod_beta
        contract_get(1) [OF r order.refl])
  have delete: "redis_dead ks_of rs (redis_session_delete rs k t st') t h" if "redis_dead ks_of rs st' t h" for st' k
    using cmd(1) [OF that] by (simp add: redis_session_delete_def case_prod_beta cmd(2,3) split: option.splits)
  show "redis_dead ks_of rs (ss_delete (redis_store rs) k t st) t h" for k
    by (simp add: redis_store_def delete dead)
  show "redis_dead ks_of rs (snd (ss_get (redis_store rs) k t st)) t h" for k
    using cmd(1) [OF dead]
    by (auto simp: redis_store_def redis_session_get_def case_prod_beta Let_def delete split: option.splits)
  then show "redis_dead ks_of rs (ss_assign (redis_store rs) s st1) t h"
    if "ss_get (redis_store rs) k t st = (Some s0, st1)" for k s0 st1 s
    using that by (simp add: redis_store_def) (metis snd_conv)
  show "redis_dead ks_of rs (ss_set (redis_store rs) s t st) t h" if "session_id s \<noteq> h" for s
    using that by (simp add: redis_store_def redis_session_set_def Let_def cmd(4,5,7) dead)
  show "redis_dead ks_of rs (snd (ss_delete_by_user (redis_store rs) u t st)) t h" for u
    using cmd(6) [OF dead] by (simp add: redis_store_def redis_delete_by_user_def case_prod_beta Let_def cmd(2))
  show "redis_dead ks_of rs (snd (ss_list_by_user (redis_store rs) u t st)) t h" for u
    using redis_dead_collect [OF r cmd(6) [OF dead]]
    by (simp add: redis_store_def redis_list_by_user_def case_prod_beta cmd(3))
  show "redis_dead ks_of rs (snd (touch s t st)) t h" if "ss_touch (redis_store rs) = Some touch" for touch s
    using that by (auto simp: redis_store_def redis_session_touch_def Let_def case_prod_beta cmd(5,7) dead)
next
  show "\<not> fst (touch s t st)"
    if "ss_touch (redis_store rs) = Some touch" "redis_dead ks_of rs st t (session_id s)" for touch s t st
    using that redis_dead_commands(8) [OF r that(2)]
    by (auto simp: redis_store_def redis_session_touch_def Let_def case_prod_beta)
qed

interpretation key_laws: session_laws "redis_store (rs\<lparr>rs_client := keyspace_redis\<rparr>)" "redis_dead id (rs\<lparr>rs_client := keyspace_redis\<rparr>)"
  for rs
  by (rule redis_session_laws) (simp add: keyspace_contract)

subsection \<open>Histories of the in-process store\<close>

definition no_sessions :: "micros \<Rightarrow> mem_sessions session_run" where
  "no_sessions t = \<lparr>sr_store = empty_mem_sessions, sr_now = t, sr_flight = []\<rparr>"

lemma index_ok_resolve_begin:
  assumes "index_ok st"
  shows "index_ok (snd (resolve_begin memory_store cfg sha p now st))"
proof (cases "mem_session_get (sha p) now st")
  case (Pair res st1)
  have "index_ok (mem_assign (refreshed cfg now s) st)" if "mem_session_get (sha p) now st = (Some s, st1)" for s
  proof -
    have s: "ms_sessions st (sha p) = Some s"
      using that by (auto simp: mem_session_get_def split: option.splits if_splits)
    then have "session_id s = sha p" using assms by (simp add: index_ok_def ids_ok_def)
    with s show ?thesis
      by (intro index_ok_assign [OF assms, of _ s]) (simp_all add: refreshed_def Let_def)
  qed
  moreover have "st1 = st" if "res \<noteq> None"
    using Pair that by (auto simp: mem_session_get_def split: option.splits if_splits)
  ultimately show ?thesis
    using index_ok_get [OF assms, of "sha p" now] Pair
    by (auto simp: resolve_begin_def memory_store_def split: option.splits)
qed

lemma memory_store_fields [simp]:
  "ss_get memory_store = mem_session_get" "ss_assign memory_store = mem_assign" "ss_set memory_store s now = mem_set s"
  "ss_touch memory_store = Some (\<lambda>s now. mem_touch s)" "ss_delete memory_store h now = mem_session_delete h"
  "ss_delete_by_user memory_store u now = mem_delete_by_user u" "ss_list_by_user memory_store = mem_list_by_user"
  by (simp_all add: memory_store_def)

lemma runs_index_ok:
  assumes "session_runs memory_store cfg sha mints c0 c" and "index_ok (sr_store c0)"
  shows "index_ok (sr_store c)"
  using assms(1)
proof induction
  case start
  then show ?case by (rule assms(2))
next
  case (logs_in c t token u client_ip agent previous)
  then show ?case
    by (auto simp: login_step_def login_def revoke_def Let_def index_ok_set index_ok_delete split: option.splits)
next
  case (request_reads c t plaintext)
  then show ?case by (simp add: session_read_step_def case_prod_beta index_ok_resolve_begin split: option.splits)
next
  case (request_writes c t s)
  then show ?case
    using index_ok_touch [of "sr_store c" s] by (simp add: write_step_def resolve_end_def case_prod_beta)
next
  case (revokes_public c t u public_id)
  then show ?case
    by (simp add: public_step_def revoke_by_public_id_def case_prod_beta index_ok_list index_ok_delete
        split: option.splits)
qed (simp_all add: revoke_step_def revoke_all_step_def list_step_def revoke_def revoke_all_def list_sessions_def
       case_prod_beta index_ok_delete index_ok_delete_by_user index_ok_list)

lemma no_sessions_fields [simp]:
  "sr_store (no_sessions t) = empty_mem_sessions" "sr_now (no_sessions t) = t" "sr_flight (no_sessions t) = []"
  by (simp_all add: no_sessions_def)

lemma history_index_ok: "session_runs memory_store cfg sha mints (no_sessions t) c \<Longrightarrow> index_ok (sr_store c)"
  by (erule runs_index_ok) (simp add: index_ok_empty)

lemma mem_delete_dead: "ids_ok st \<Longrightarrow> mem_dead (mem_session_delete h st) t h"
  by (auto simp: mem_dead_def mem_session_delete_def ids_ok_def split: option.splits)

lemma redis_delete_dead:
  assumes r: "redis_contract (rs_client rs) ks_of"
  shows "redis_dead ks_of rs (redis_session_delete rs h t st) t h"
  by (simp add: redis_session_delete_def redis_dead_def case_prod_beta contract_delete [OF r])

text \<open>
  C11. Revocation is final. Whatever happened before, once a session is revoked its cookie never
  resolves again, on either store: not for requests that come later, and not for requests that had
  already read the session and write it back afterwards, however all of them interleave with
  logins, listings and other revocations; only drawing the same token again could bring it back.
\<close>

theorem revoked_session_stays_dead:
  assumes "session_runs memory_store cfg sha (\<lambda>_. True) (no_sessions t0) c"
    and "session_runs memory_store cfg sha (\<lambda>h. h \<noteq> sha p) (revoke_step memory_store sha p t c) c'"
    and "redis_contract (rs_client rs) ks_of"
    and "session_runs (redis_store rs) cfg sha (\<lambda>h. h \<noteq> sha p) (revoke_step (redis_store rs) sha p t d) d'"
  shows "fst (resolve memory_store cfg sha p (sr_now c') (sr_store c')) = None
     \<and> fst (resolve (redis_store rs) cfg sha p (sr_now d') (sr_store d')) = None
     \<and> (\<forall>s. session_id s = sha p \<longrightarrow>
          fst (resolve_end memory_store s (sr_now c') (sr_store c')) = None \<and>
          fst (resolve_end (redis_store rs) s (sr_now d') (sr_store d')) = None)"
proof -
  have "ids_ok (sr_store c)" using history_index_ok [OF assms(1)] by (simp add: index_ok_def)
  then have "mem_dead (sr_store (revoke_step memory_store sha p t c)) (sr_now (revoke_step memory_store sha p t c)) (sha p)"
    by (simp add: revoke_step_def revoke_def mem_delete_dead)
  note mem = mem_laws.dead_stays [OF assms(2) this]
  note laws = redis_session_laws [OF assms(3)]
  have "redis_dead ks_of rs (sr_store (revoke_step (redis_store rs) sha p t d)) (sr_now (revoke_step (redis_store rs) sha p t d)) (sha p)"
    by (simp add: revoke_step_def revoke_def redis_store_def redis_delete_dead [OF assms(3)])
  note red = session_laws.dead_stays [OF laws assms(4) this]
  show ?thesis
  proof (intro conjI allI impI)
    show "fst (resolve memory_store cfg sha p (sr_now c') (sr_store c')) = None"
      by (rule mem_laws.resolve_dead, rule mem)
    show "fst (resolve (redis_store rs) cfg sha p (sr_now d') (sr_store d')) = None"
      by (rule session_laws.resolve_dead [OF laws], rule red)
    fix s :: Session assume "session_id s = sha p"
    then show "fst (resolve_end memory_store s (sr_now c') (sr_store c')) = None"
      and "fst (resolve_end (redis_store rs) s (sr_now d') (sr_store d')) = None"
      using mem red by (simp_all add: mem_laws.resolve_end_dead session_laws.resolve_end_dead [OF laws])
  qed
qed

definition sample_settings :: SessionSettings where
  "sample_settings = \<lparr>SESSION_TTL_SECONDS = 3600, SESSION_SLIDING = True, SESSION_ROTATE_ON_LOGIN = True\<rparr>"

definition sample_session :: Session where
  "sample_session = \<lparr>session_id = ''#tok'', user_id = 7, created_at = 0, expires_at = 3600000000, last_seen_at = 0,
     ip = None, user_agent = None, data = [], amr = []\<rparr>"

definition sample_redis :: "keyspace redis_sessions" where
  "sample_redis = \<lparr>rs_client = keyspace_redis, rs_prefix = ''t:'', rs_dump = session_id,
     rs_load = (\<lambda>_. sample_session), rs_uuid_text = (\<lambda>u. replicate u (CHR ''u''))\<rparr>"

lemma sample_redis_client: "rs_client sample_redis = keyspace_redis"
  by (simp add: sample_redis_def)

text \<open>A login, and a request that has read its session when the user logs out.\<close>

definition logged_in :: "'st session_store \<Rightarrow> 'st session_run \<Rightarrow> 'st session_run" where
  "logged_in store c =
     session_read_step store sample_settings ((#) (CHR ''#'')) ''tok'' 1
       (login_step store sample_settings ((#) (CHR ''#'')) 7 None None None ''tok'' 0 c)"

lemma logged_in_runs:
  "sr_now c = 0 \<Longrightarrow> session_runs store sample_settings ((#) (CHR ''#'')) (\<lambda>_. True) c (logged_in store c)"
  unfolding logged_in_def
  by (intro session_runs.request_reads session_runs.logs_in session_runs.start) (simp_all add: login_step_def)

lemma logged_in_now [simp]: "sr_now (logged_in store c) = 1"
  by (simp add: logged_in_def session_read_step_def split: prod.splits option.splits)

lemma late_write_runs:
  assumes "s \<in> set (sr_flight (logged_in store c))"
  shows "session_runs store sample_settings ((#) (CHR ''#'')) mints
      (revoke_step store ((#) (CHR ''#'')) ''tok'' 2 (logged_in store c))
      (write_step store s 3 (revoke_step store ((#) (CHR ''#'')) ''tok'' 2 (logged_in store c)))"
  by (rule session_runs.request_writes, rule session_runs.start) (simp_all add: revoke_step_def assms)

theorem revoked_session_stays_dead_witness:
  "\<exists>s \<in> set (sr_flight (logged_in memory_store (no_sessions 0))).
     fst (resolve memory_store sample_settings ((#) (CHR ''#'')) ''tok'' 3
       (sr_store (write_step memory_store s 3 (revoke_step memory_store ((#) (CHR ''#'')) ''tok'' 2
          (logged_in memory_store (no_sessions 0)))))) = None"
proof -
  let ?sha = "(#) (CHR ''#'')" and ?c = "logged_in memory_store (no_sessions 0)"
  let ?d = "\<lparr>sr_store = empty_keyspace, sr_now = 1, sr_flight = []\<rparr> :: keyspace session_run"
  obtain s where s: "s \<in> set (sr_flight ?c)"
    by (force simp: logged_in_def session_read_step_def login_step_def resolve_begin_def login_def sample_settings_def
        mem_session_get_def mem_set_def is_expired_def Let_def)
  have "session_runs memory_store sample_settings ?sha (\<lambda>_. True) (no_sessions 0) ?c"
    by (rule logged_in_runs) simp
  from revoked_session_stays_dead [OF this late_write_runs [OF s], where rs = sample_redis and ks_of = id
      and d = ?d and d' = "revoke_step (redis_store sample_redis) ?sha ''tok'' 2 ?d"]
  have "fst (resolve memory_store sample_settings ?sha ''tok'' 3
       (sr_store (write_step memory_store s 3 (revoke_step memory_store ?sha ''tok'' 2 ?c)))) = None"
    using session_runs.start [of "redis_store sample_redis"] keyspace_contract
    by (simp add: write_step_def sample_redis_client)
  with s show ?thesis by blast
qed

subsection \<open>Logging out everywhere\<close>

lemma collect_exact:
  assumes "ids_ok st" and "distinct hs"
  shows "fst (mem_collect now hs st)
       = map (\<lambda>h. the (ms_sessions st h))
           (filter (\<lambda>h. \<exists>s. ms_sessions st h = Some s \<and> \<not> is_expired now s) hs)"
  using assms
proof (induction hs arbitrary: st)
  case (Cons h hs)
  have "fst (mem_collect now hs (evict_locked s st)) = fst (mem_collect now hs st)"
    if "ms_sessions st h = Some s" for s
  proof -
    have id: "session_id s = h" using Cons.prems(1) that by (simp add: ids_ok_def)
    then have "fst (mem_collect now hs (evict_locked s st))
        = map (\<lambda>k. the (ms_sessions (evict_locked s st) k))
            (filter (\<lambda>k. \<exists>s'. ms_sessions (evict_locked s st) k = Some s' \<and> \<not> is_expired now s') hs)"
      using Cons by (intro Cons.IH ids_ok_evict) simp_all
    also have "\<dots> = map (\<lambda>h. the (ms_sessions st h))
            (filter (\<lambda>h. \<exists>s. ms_sessions st h = Some s \<and> \<not> is_expired now s) hs)"
      using Cons.prems(2) id by (intro map_cong filter_cong) (auto simp: evict_locked_def)
    also have "\<dots> = fst (mem_collect now hs st)" using Cons by simp
    finally show ?thesis .
  qed
  with Cons show ?case by (auto simp: case_prod_beta split: option.splits)
qed simp

lemma list_exact:
  assumes "index_ok st"
  shows "set (fst (mem_list_by_user u now st)) = {s. \<exists>h. ms_sessions st h = Some s \<and> user_id s = u \<and> \<not> is_expired now s}"
    and "distinct (fst (mem_list_by_user u now st))"
    and "sorted (map created_at (fst (mem_list_by_user u now st)))"
proof -
  have ids: "ids_ok st" and dist: "distinct (indexed st u)" and owned: "set (indexed st u) = owned st u"
    using assms by (simp_all add: index_ok_def)
  have list: "fst (mem_list_by_user u now st)
      = sort_key created_at (map (\<lambda>h. the (ms_sessions st h))
          (filter (\<lambda>h. \<exists>s. ms_sessions st h = Some s \<and> \<not> is_expired now s) (indexed st u)))"
    using collect_exact [OF ids dist, of now] by (simp add: mem_list_by_user_def indexed_def case_prod_beta)
  show "set (fst (mem_list_by_user u now st)) = {s. \<exists>h. ms_sessions st h = Some s \<and> user_id s = u \<and> \<not> is_expired now s}"
    (is "_ = ?live")
  proof -
    have "set (fst (mem_list_by_user u now st))
        = (\<lambda>h. the (ms_sessions st h)) ` {h \<in> owned st u. \<exists>s. ms_sessions st h = Some s \<and> \<not> is_expired now s}"
      unfolding list by (simp only: set_sort set_map set_filter owned)
    also have "\<dots> = ?live"
    proof -
      have "s \<in> (\<lambda>h. the (ms_sessions st h)) ` {h \<in> owned st u. \<exists>s. ms_sessions st h = Some s \<and> \<not> is_expired now s}"
        if "ms_sessions st h = Some s" "user_id s = u" "\<not> is_expired now s" for s h
        by (rule image_eqI [of _ _ h]) (use that in \<open>auto simp: owned_def\<close>)
      moreover have "the (ms_sessions st h) \<in> ?live"
        if "h \<in> owned st u" "\<exists>s. ms_sessions st h = Some s \<and> \<not> is_expired now s" for h
        using that by (auto simp: owned_def)
      ultimately show ?thesis by blast
    qed
    finally show ?thesis .
  qed
  have inj: "inj_on (\<lambda>h. the (ms_sessions st h)) (owned st u)"
    by (rule inj_on_inverseI [where g = session_id]) (use ids in \<open>auto simp: owned_def ids_ok_def\<close>)
  show "distinct (fst (mem_list_by_user u now st))"
    unfolding list
    by (simp only: distinct_sort distinct_map distinct_filter set_filter dist owned simp_thms)
       (rule inj_on_subset [OF inj], blast)
  show "sorted (map created_at (fst (mem_list_by_user u now st)))"
    unfolding list by simp
qed

text \<open>
  Logging out everywhere is complete on the in-process store. After any history of concurrent
  requests the listing of a user shows exactly their unexpired sessions, each once, the oldest
  first; \<open>revoke_all\<close> then removes every session of the user and of nobody else, returns how many
  there were, and none of them resolves in any continuation.
\<close>

theorem revoke_all_is_complete:
  assumes "session_runs memory_store cfg sha (\<lambda>_. True) (no_sessions t0) c" and "sr_now c \<le> t"
    and "session_runs memory_store cfg sha (\<lambda>h. h \<noteq> sha p) (revoke_all_step memory_store u t c) c'"
  shows "(let st = sr_store c; listed = fst (mem_list_by_user u t st); (n, st') = revoke_all memory_store u t st in
       set listed = {s. \<exists>h. ms_sessions st h = Some s \<and> user_id s = u \<and> \<not> is_expired t s}
     \<and> distinct listed \<and> sorted (map created_at listed)
     \<and> n = card (owned st u) \<and> owned st' u = {} \<and> (\<forall>v. v \<noteq> u \<longrightarrow> owned st' v = owned st v)
     \<and> fst (list_sessions memory_store sha u None t st') = []
     \<and> (sha p \<in> owned st u \<longrightarrow> fst (resolve memory_store cfg sha p (sr_now c') (sr_store c')) = None))"
proof -
  let ?st = "sr_store c" and ?st' = "snd (revoke_all memory_store u t (sr_store c))"
  have ok: "index_ok ?st" by (rule history_index_ok [OF assms(1)])
  have ok': "index_ok ?st'" by (simp add: revoke_all_def index_ok_delete_by_user ok)
  have ids: "distinct (indexed ?st u)" "set (indexed ?st u) = owned ?st u"
    using ok by (simp_all add: index_ok_def)
  have sessions: "ms_sessions ?st' = (\<lambda>h. if h \<in> owned ?st u then None else ms_sessions ?st h)"
    using ids(2) by (simp add: revoke_all_def mem_delete_by_user_def indexed_def fun_eq_iff)
  then have owners: "owned ?st' v = (if v = u then {} else owned ?st v)" for v
    by (auto simp: owned_def split: if_splits)
  have count: "fst (revoke_all memory_store u t ?st) = card (owned ?st u)"
    using distinct_card [OF ids(1)] ids(2) by (simp add: revoke_all_def mem_delete_by_user_def indexed_def)
  have "set (fst (mem_list_by_user u t ?st')) = {}"
    unfolding list_exact(1) [OF ok'] using owners [of u] by (auto simp: owned_def)
  then have none: "fst (list_sessions memory_store sha u None t ?st') = []"
    by (simp add: list_sessions_def case_prod_beta)
  have later: "fst (resolve memory_store cfg sha p (sr_now c') (sr_store c')) = None" if "sha p \<in> owned ?st u"
  proof -
    have "mem_dead (sr_store (revoke_all_step memory_store u t c)) (sr_now (revoke_all_step memory_store u t c)) (sha p)"
      using ok' that by (simp add: mem_dead_def index_ok_def revoke_all_step_def sessions)
    from mem_laws.dead_stays [OF assms(3) this] show ?thesis
      by (rule mem_laws.resolve_dead)
  qed
  show ?thesis
    using list_exact [OF ok, of u t] count owners none later
    by (simp add: Let_def case_prod_beta)
qed

theorem revoke_all_is_complete_witness:
  "fst (revoke_all memory_store 7 2 (sr_store (logged_in memory_store (no_sessions 0)))) = 1
     \<and> fst (resolve memory_store sample_settings ((#) (CHR ''#'')) ''tok'' 2
         (sr_store (revoke_all_step memory_store 7 2 (logged_in memory_store (no_sessions 0))))) = None"
proof -
  let ?sha = "(#) (CHR ''#'')" and ?c = "logged_in memory_store (no_sessions 0)"
  have run: "session_runs memory_store sample_settings ?sha (\<lambda>_. True) (no_sessions 0) ?c"
    by (rule logged_in_runs) simp
  have "owned (sr_store ?c) 7 = {''#tok''}"
    by (auto simp: owned_def logged_in_def session_read_step_def login_step_def resolve_begin_def login_def sample_settings_def
        mem_session_get_def mem_set_def mem_assign_def refreshed_def is_expired_def Let_def empty_mem_sessions_def no_sessions_def
        split: if_splits)
  with revoke_all_is_complete [OF run _ session_runs.start, where t = 2 and p = "''tok''" and u = 7]
  show ?thesis by (simp add: Let_def case_prod_beta revoke_all_step_def)
qed

subsection \<open>How long a session lives\<close>







subsection \<open>Credentials\<close>

text \<open>
  A refused login tells nothing apart. Whatever is wrong (unknown address, wrong password,
  inactive account) the exception is the same one and exactly one password hash is verified, as
  for an accepted login; a login is accepted exactly when the normalized address names an active
  user whose hash verifies.
\<close>

theorem login_refusals_look_alike:
  shows "length (snd (authenticate lookup verify dummy email password)) = 1
     \<and> (fst (authenticate lookup verify dummy email password) = Inl UnauthorizedException
        \<or> (\<exists>u. fst (authenticate lookup verify dummy email password) = Inr u))
     \<and> (\<forall>u. fst (authenticate lookup verify dummy email password) = Inr u \<longleftrightarrow>
          lookup (lower (strip email)) = Some u \<and> verify password (usr_hashed_password u) \<and> usr_is_active u)"
  by (auto simp: authenticate_def split: option.splits)

text \<open>
  A fixed credential opens a session exactly for its own username and password (as far as their
  digests tell texts apart), never for an empty one; a refusal leaves the store as it was, the
  previous session included.
\<close>

theorem static_credential_exact:
  assumes "static_init digest named username password uid = Inr cred" and "inj digest"
  shows "(static_authenticate digest cred name word = Inr (sc_user_id cred) \<longleftrightarrow> name = username \<and> word = password)
     \<and> (static_authenticate digest cred name word \<noteq> Inr (sc_user_id cred) \<longrightarrow>
          static_authenticate digest cred name word = Inl UnauthorizedException \<and>
          login_with_credentials store cfg sha (static_authenticate digest cred) name word client_ip agent previous token now st
            = (Inl UnauthorizedException, st))
     \<and> (name = [] \<or> word = [] \<longrightarrow> static_authenticate digest cred name word = Inl UnauthorizedException)"
  using assms
  by (auto simp: static_init_def static_authenticate_def login_with_credentials_def Let_def inj_eq
      split: if_splits sum.splits)

theorem static_credential_exact_witness:
  "static_authenticate id \<lparr>sc_username_digest = ''root'', sc_password_digest = ''s3cret'', sc_user_id = 1\<rparr> ''root'' ''s3cret'' = Inr 1
   \<and> static_authenticate id \<lparr>sc_username_digest = ''root'', sc_password_digest = ''s3cret'', sc_user_id = 1\<rparr> ''root'' ''''
       = Inl UnauthorizedException"
proof -
  let ?cred = "\<lparr>sc_username_digest = ''root'', sc_password_digest = ''s3cret'', sc_user_id = 1\<rparr>"
  have "static_init id (\<lambda>_. 1) ''root'' ''s3cret'' None = Inr ?cred" by (simp add: static_init_def)
  note exact = static_credential_exact [OF this inj_on_id, where store = memory_store and cfg = sample_settings
      and sha = id and client_ip = None and agent = None and previous = None and token = "''t''" and now = 0
      and st = empty_mem_sessions]
  from exact [where name = "''root''" and word = "''s3cret''"] exact [where name = "''root''" and word = "[]"]
  show ?thesis by (simp only: simp_thms static_credential.select_convs)
qed

subsection \<open>The index of the Redis store\<close>

text \<open>What \<open>set\<close> and \<open>touch\<close> leave under the key of a session and under the index of its user.\<close>

lemma redis_set_view:
  assumes r: "redis_contract (rs_client rs) ks_of" and t: "seconds now \<le> t"
  shows "live_strings t (ks_of (redis_session_set rs s now st)) (session_key rs h)
       = (if h = session_id s
          then if t < seconds now + of_int (ttl_seconds now s)
               then Some (rs_dump rs s, seconds now + of_int (ttl_seconds now s)) else None
          else live_strings t (ks_of st) (session_key rs h))"
    and "live_sets t (ks_of (redis_session_set rs s now st)) (user_key rs (user_id s))
       = (if t < seconds now + of_int (ttl_seconds now s)
          then Some (insert (session_id s) (key_members (user_key rs (user_id s)) (seconds now) (ks_of st)),
                     Some (seconds now + of_int (ttl_seconds now s)))
          else None)"
proof -
  let ?c = "rs_client rs" and ?k = "session_key rs (session_id s)" and ?u = "user_key rs (user_id s)"
    and ?n = "ttl_seconds now s"
  let ?s1 = "snd (redis_set ?c ?k (rs_dump rs s) False False ?n (seconds now) st)"
  let ?s2 = "redis_sadd ?c ?u (session_id s) (seconds now) ?s1"
  have res: "redis_session_set rs s now st = redis_expire ?c ?u ?n (seconds now) ?s2"
    by (simp add: redis_session_set_def Let_def)
  have ok: "fst (redis_set ?c ?k (rs_dump rs s) False False ?n (seconds now) st)"
    by (simp add: contract_set(1) [OF r _ order.refl])
  show "live_strings t (ks_of (redis_session_set rs s now st)) (session_key rs h)
       = (if h = session_id s
          then if t < seconds now + of_int ?n then Some (rs_dump rs s, seconds now + of_int ?n) else None
          else live_strings t (ks_of st) (session_key rs h))"
    unfolding res using t ok
    by (simp add: contract_expire [OF r] contract_sets [OF r] contract_set(2) [OF r])
  have idx1: "live_sets (seconds now) (ks_of ?s1) ?u = live_sets (seconds now) (ks_of st) ?u"
    by (simp add: contract_set(3) [OF r])
  have idx2: "\<exists>d. live_sets (seconds now) (ks_of ?s2) ?u
      = Some (insert (session_id s) (key_members ?u (seconds now) (ks_of st)), d)"
    by (cases "live_sets (seconds now) (ks_of st) ?u")
       (auto simp: contract_index(2) [OF r order.refl] idx1 key_members_def dest: live_sets_unexpired)
  show "live_sets t (ks_of (redis_session_set rs s now st)) ?u
       = (if t < seconds now + of_int ?n
          then Some (insert (session_id s) (key_members ?u (seconds now) (ks_of st)), Some (seconds now + of_int ?n))
          else None)"
    unfolding res using idx2 t by (auto simp: contract_index(1) [OF r])
qed

lemma redis_touch_view:
  assumes r: "redis_contract (rs_client rs) ks_of" and t: "seconds now \<le> t"
    and stored: "live_strings (seconds now) (ks_of st) (session_key rs (session_id s)) \<noteq> None"
  shows "fst (redis_session_touch rs s now st)"
    and "live_strings t (ks_of (snd (redis_session_touch rs s now st))) (session_key rs h)
       = (if h = session_id s
          then if t < seconds now + of_int (ttl_seconds now s)
               then Some (rs_dump rs s, seconds now + of_int (ttl_seconds now s)) else None
          else live_strings t (ks_of st) (session_key rs h))"
    and "live_sets t (ks_of (snd (redis_session_touch rs s now st))) (user_key rs (user_id s))
       = (case live_sets (seconds now) (ks_of st) (user_key rs (user_id s)) of
            Some (ms, d) \<Rightarrow> if t < seconds now + of_int (ttl_seconds now s)
                             then Some (ms, Some (seconds now + of_int (ttl_seconds now s))) else None
          | None \<Rightarrow> None)"
proof -
  let ?c = "rs_client rs" and ?k = "session_key rs (session_id s)" and ?u = "user_key rs (user_id s)"
    and ?n = "ttl_seconds now s"
  let ?s1 = "snd (redis_set ?c ?k (rs_dump rs s) False True ?n (seconds now) st)"
  have ok: "fst (redis_set ?c ?k (rs_dump rs s) False True ?n (seconds now) st)"
    using stored by (simp add: contract_set(1) [OF r _ order.refl])
  then have res: "redis_session_touch rs s now st = (True, redis_expire ?c ?u ?n (seconds now) ?s1)"
    by (simp add: redis_session_touch_def Let_def case_prod_beta)
  then show "fst (redis_session_touch rs s now st)" by simp
  show "live_strings t (ks_of (snd (redis_session_touch rs s now st))) (session_key rs h)
       = (if h = session_id s
          then if t < seconds now + of_int ?n then Some (rs_dump rs s, seconds now + of_int ?n) else None
          else live_strings t (ks_of st) (session_key rs h))"
    unfolding res snd_conv using t ok
    by (simp add: contract_expire [OF r] contract_set(2) [OF r])
  have "live_sets (seconds now) (ks_of ?s1) ?u = live_sets (seconds now) (ks_of st) ?u"
    by (simp add: contract_set(3) [OF r])
  then show "live_sets t (ks_of (snd (redis_session_touch rs s now st))) ?u
       = (case live_sets (seconds now) (ks_of st) ?u of
            Some (ms, d) \<Rightarrow> if t < seconds now + of_int ?n then Some (ms, Some (seconds now + of_int ?n)) else None
          | None \<Rightarrow> None)"
    unfolding res snd_conv using t by (simp add: contract_index(1) [OF r])
qed

lemma redis_get_view:
  assumes r: "redis_contract (rs_client rs) ks_of" and t: "seconds now \<le> t"
    and stored: "live_strings (seconds now) (ks_of st) (session_key rs h) = Some (text, d)"
    and fresh: "\<not> is_expired now (rs_load rs text)"
  shows "fst (redis_session_get rs h now st) = Some (rs_load rs text)"
    and "live_strings t (ks_of (snd (redis_session_get rs h now st))) = live_strings t (ks_of st)"
    and "live_sets t (ks_of (snd (redis_session_get rs h now st))) = live_sets t (ks_of st)"
  using fresh stored contract_get(1) [OF r order.refl, of "session_key rs h" "seconds now" st]
    contract_get(2,3) [OF r t, of "session_key rs h" st]
  by (auto simp: redis_session_get_def case_prod_beta Let_def)

definition sample_fixed :: SessionSettings where
  "sample_fixed = \<lparr>SESSION_TTL_SECONDS = 1000, SESSION_SLIDING = False, SESSION_ROTATE_ON_LOGIN = True\<rparr>"

text \<open>
  Two devices log in, the first one is used again, and the user logs out everywhere after the
  first session has ended.
\<close>

definition two_devices ::
  "'s redis_sessions \<Rightarrow> (string \<Rightarrow> string) \<Rightarrow> uuid \<Rightarrow> string \<Rightarrow> string \<Rightarrow> 's \<Rightarrow> 's" where
  "two_devices rs sha u phone laptop st =
     (let store = redis_store rs;
          st1 = snd (login store sample_fixed sha u None None None phone 0 st);
          st2 = snd (login store sample_fixed sha u None None None laptop 500000000 st1)
      in snd (resolve store sample_fixed sha phone 600000000 st2))"

definition device_session :: "uuid \<Rightarrow> string \<Rightarrow> micros \<Rightarrow> Session" where
  "device_session u h now = \<lparr>session_id = h, user_id = u, created_at = now, expires_at = now + 1000000000,
    last_seen_at = now, ip = None, user_agent = None, data = [], amr = []\<rparr>"

lemma two_devices_view:
  assumes r: "redis_contract (rs_client rs) ks_of" and json: "\<And>s. rs_load rs (rs_dump rs s) = s"
    and tokens: "sha phone \<noteq> sha laptop"
  shows "live_sets 1100 (ks_of (two_devices rs sha u phone laptop st)) (user_key rs u) = None"
    and "600 \<le> t \<Longrightarrow> t < 1500 \<Longrightarrow>
      live_strings t (ks_of (two_devices rs sha u phone laptop st)) (session_key rs (sha laptop))
        = Some (rs_dump rs (device_session u (sha laptop) 500000000), 1500)"
proof -
  let ?A = "device_session u (sha phone) 0" and ?B = "device_session u (sha laptop) 500000000"
  let ?A' = "?A\<lparr>last_seen_at := 600000000\<rparr>"
  define s1 where "s1 = redis_session_set rs ?A 0 st"
  define s2 where "s2 = redis_session_set rs ?B 500000000 s1"
  define s3 where "s3 = snd (redis_session_get rs (sha phone) 600000000 s2)"
  define s4 where "s4 = snd (redis_session_touch rs ?A' 600000000 s3)"
  have ttl [simp]: "ttl_seconds 0 ?A = 1000" "ttl_seconds 500000000 ?B = 1000" "ttl_seconds 600000000 ?A' = 400"
    by (simp_all add: ttl_seconds_def device_session_def)
  have sec [simp]: "seconds 0 = 0" "seconds 500000000 = 500" "seconds 600000000 = 600"
    "seconds 1100000000 = 1100" "seconds 1200000000 = 1200"
    by (simp_all add: seconds_def)
  have ids [simp]: "session_id ?A = sha phone" "session_id ?B = sha laptop" "session_id ?A' = sha phone"
    "user_id ?A = u" "user_id ?B = u" "user_id ?A' = u"
    by (simp_all add: device_session_def)
  have A2: "live_strings 600 (ks_of s2) (session_key rs (sha phone)) = Some (rs_dump rs ?A, 1000)"
    using redis_set_view(1) [OF r, of 500000000 600 ?B s1 "sha phone"] redis_set_view(1) [OF r, of 0 600 ?A st "sha phone"] tokens
    by (simp add: s2_def s1_def)
  have B2: "live_strings t (ks_of s2) (session_key rs (sha laptop)) = (if t < 1500 then Some (rs_dump rs ?B, 1500) else None)"
    if "500 \<le> t" for t
    using redis_set_view(1) [OF r, of 500000000 t ?B s1 "sha laptop"] that by (simp add: s2_def)
  have freshA: "\<not> is_expired 600000000 (rs_load rs (rs_dump rs ?A))" by (simp add: json is_expired_def device_session_def)
  have get: "fst (redis_session_get rs (sha phone) 600000000 s2) = Some ?A"
    using redis_get_view(1) [OF r _ _ freshA, of 600 s2] A2 by (simp add: json)
  have s3: "live_strings t (ks_of s3) = live_strings t (ks_of s2)" if "600 \<le> t" for t
    using redis_get_view(2) [OF r _ _ freshA, of t s2 "sha phone"] A2 that by (simp add: s3_def)
  have stored: "live_strings (seconds 600000000) (ks_of s3) (session_key rs (session_id ?A')) \<noteq> None"
    using A2 s3 [of 600] by simp
  note touch = redis_touch_view [OF r _ stored]
  have idx: "live_sets 1100 (ks_of s4) (user_key rs u) = None"
    using touch(3) [of 1100] by (simp add: s4_def split: option.splits)
  have B4: "live_strings t (ks_of s4) (session_key rs (sha laptop)) = (if t < 1500 then Some (rs_dump rs ?B, 1500) else None)"
    if "600 \<le> t" for t
    using touch(2) [of t "sha laptop"] tokens that s3 [OF that] B2 [of t] by (simp add: s4_def)
  have two: "two_devices rs sha u phone laptop st = s4"
  proof -
    have "refreshed sample_fixed 600000000 ?A = ?A'" by (simp add: refreshed_def sample_fixed_def)
    moreover have "redis_session_get rs (sha phone) 600000000 s2 = (Some ?A, s3)"
      using get by (simp add: s3_def prod_eq_iff)
    ultimately have "snd (resolve (redis_store rs) sample_fixed sha phone 600000000 s2) = s4"
      by (simp add: resolve_def resolve_begin_def resolve_end_def redis_store_def s4_def case_prod_beta)
    moreover have "snd (login (redis_store rs) sample_fixed sha u None None None phone 0 st) = s1"
      and "snd (login (redis_store rs) sample_fixed sha u None None None laptop 500000000 s1) = s2"
      by (simp_all add: login_def redis_store_def sample_fixed_def s1_def s2_def device_session_def Let_def)
    ultimately show ?thesis by (simp add: two_devices_def Let_def)
  qed
  show "live_sets 1100 (ks_of (two_devices rs sha u phone laptop st)) (user_key rs u) = None"
    by (simp add: two idx)
  show "live_strings t (ks_of (two_devices rs sha u phone laptop st)) (session_key rs (sha laptop)) = Some (rs_dump rs ?B, 1500)"
    if "600 \<le> t" "t < 1500"
    using B4 that by (simp add: two)
qed

text \<open>
  The Redis store can lose sight of a session. Without a sliding expiry, a request on an older
  session shortens the life of the user's index to what is left of that session; when the index
  has gone, \<open>revoke_all\<close> reports no session, and the newer session of the user still resolves.
\<close>

theorem redis_revoke_all_misses_a_session:
  assumes r: "redis_contract (rs_client rs) ks_of" and json: "\<And>s. rs_load rs (rs_dump rs s) = s"
    and tokens: "sha phone \<noteq> sha laptop"
  shows "fst (revoke_all (redis_store rs) u 1100000000 (two_devices rs sha u phone laptop st)) = 0
     \<and> (\<exists>s. fst (resolve (redis_store rs) sample_fixed sha laptop 1200000000
               (snd (revoke_all (redis_store rs) u 1100000000 (two_devices rs sha u phone laptop st)))) = Some s
             \<and> user_id s = u)"
proof -
  let ?s4 = "two_devices rs sha u phone laptop st" and ?B = "device_session u (sha laptop) 500000000"
  note view = two_devices_view [where sha = sha and phone = phone and laptop = laptop and u = u and st = st, OF assms]
  have sec [simp]: "seconds 1100000000 = 1100" "seconds 1200000000 = 1200"
    by (simp_all add: seconds_def)
  let ?m = "redis_smembers (rs_client rs) (user_key rs u) 1100 ?s4"
  have none: "key_members (user_key rs u) 1100 (ks_of ?s4) = {}" using view(1) by (simp add: key_members_def)
  then have members: "fst ?m = []" using contract_members(1) [OF r, of "user_key rs u" 1100 ?s4] by simp
  let ?s5 = "redis_delete (rs_client rs) [user_key rs u] 1100 (snd ?m)"
  have revoke: "revoke_all (redis_store rs) u 1100000000 ?s4 = (0, ?s5)"
    using members by (simp add: revoke_all_def redis_store_def redis_delete_by_user_def case_prod_beta Let_def)
  have "live_strings 1200 (ks_of ?s5) (session_key rs (sha laptop)) = Some (rs_dump rs ?B, 1500)"
    using view(2) [of 1200] by (simp add: contract_delete [OF r] contract_members [OF r])
  then have B5: "live_strings (seconds 1200000000) (ks_of ?s5) (session_key rs (sha laptop)) = Some (rs_dump rs ?B, 1500)"
    by simp
  have freshB: "\<not> is_expired 1200000000 (rs_load rs (rs_dump rs ?B))" by (simp add: json is_expired_def device_session_def)
  note getB = redis_get_view [OF r _ B5 freshB]
  let ?B' = "refreshed sample_fixed 1200000000 ?B" and ?s6 = "snd (redis_session_get rs (sha laptop) 1200000000 ?s5)"
  have B': "session_id ?B' = sha laptop" "user_id ?B' = u"
    by (simp_all add: refreshed_def sample_fixed_def device_session_def)
  have "fst (redis_session_touch rs ?B' 1200000000 ?s6)"
    using redis_touch_view(1) [OF r order.refl, of 1200000000 ?s6 ?B'] getB(2) [of 1200] B5 B' by simp
  then have "fst (resolve (redis_store rs) sample_fixed sha laptop 1200000000 ?s5) = Some ?B'"
    using getB(1) [of 1200]
    by (simp add: resolve_def resolve_begin_def resolve_end_def redis_store_def case_prod_beta json)
  with revoke B' show ?thesis by simp
qed

text \<open>Some injective text for a session, in place of its JSON.\<close>

definition session_number :: "Session \<Rightarrow> nat" where
  "session_number s = to_nat (session_id s, user_id s, created_at s, expires_at s, last_seen_at s,
     ip s, user_agent s, data s, amr s)"

definition coded_redis :: "keyspace redis_sessions" where
  "coded_redis = sample_redis
     \<lparr>rs_dump := (\<lambda>s. replicate (session_number s) (CHR ''x'')),
      rs_load := inv (\<lambda>s. replicate (session_number s) (CHR ''x''))\<rparr>"

lemma coded_redis_json: "rs_load coded_redis (rs_dump coded_redis s) = s"
proof -
  have "inj session_number"
    by (rule injI) (simp add: session_number_def Session.equality)
  then have "inj (\<lambda>s. replicate (session_number s) (CHR ''x''))"
    by (simp add: inj_def)
  from inv_f_f [OF this] show ?thesis by (simp add: coded_redis_def)
qed

theorem redis_revoke_all_misses_a_session_witness:
  "fst (revoke_all (redis_store coded_redis) 7 1100000000
     (two_devices coded_redis ((#) (CHR ''#'')) 7 ''phone'' ''laptop'' empty_keyspace)) = 0"
proof -
  have "redis_contract (rs_client coded_redis) id"
    by (simp add: coded_redis_def sample_redis_def keyspace_contract)
  from redis_revoke_all_misses_a_session [where sha = "(#) (CHR ''#'')" and phone = "''phone''" and laptop = "''laptop''",
      OF this coded_redis_json, of 7 empty_keyspace]
  show ?thesis by simp
qed

end
