(* ===== verification/Sse_Frame.thy ===== *)
theory Sse_Frame
  imports Py_Text
begin

text \<open>
  The wire format of \<^verbatim>\<open>sse/event_stream.py\<close>: \<open>ServerSentEvent\<close> and its \<open>encode\<close>, against the parser
  of an \<^verbatim>\<open>EventSource\<close> as the HTML standard states it, which is the reference the module names.

  \<^verbatim>\<open>json.dumps\<close> and the UTF-8 decoding of a bytes payload are arguments (\<open>dumps\<close>, and \<open>decode\<close>, which
  is \<open>None\<close> where Python raises \<^verbatim>\<open>UnicodeDecodeError\<close>). Text is ASCII, so of the line breaks of
  \<^verbatim>\<open>str.splitlines\<close> the three beyond Latin-1 do not occur.
\<close>

subsection \<open>Lines\<close>

abbreviation LF :: char where "LF \<equiv> CHR 0x0A"
abbreviation CR :: char where "CR \<equiv> CHR 0x0D"

definition line_break :: "char \<Rightarrow> bool" where
  "line_break c \<longleftrightarrow> (of_char c :: nat) \<in> {10, 11, 12, 13, 28, 29, 30, 133}"

text \<open>\<^verbatim>\<open>str.splitlines()\<close>.\<close>

fun splitlines :: "string \<Rightarrow> string list" where
  "splitlines [] = []"
| "splitlines (c # cs) =
     (if c = CR \<and> cs \<noteq> [] \<and> hd cs = LF then splitlines cs
      else if line_break c then [] # splitlines cs
      else case splitlines cs of [] \<Rightarrow> [[c]] | l # ls \<Rightarrow> (c # l) # ls)"

text \<open>\<^verbatim>\<open>sep.join(lines)\<close>.\<close>

fun join :: "string \<Rightarrow> string list \<Rightarrow> string" where
  "join sep [] = []"
| "join sep [l] = l"
| "join sep (l # ls) = l @ sep @ join sep ls"

subsection \<open>Events\<close>

datatype 'j SSEData = Text string | Bytes string | Json 'j

record 'j ServerSentEvent =
  sse_data :: "'j SSEData"
  sse_event :: "string option"
  sse_id :: "string option"
  sse_retry :: "int option"
  sse_comment :: "string option"

datatype encode_error = UnicodeDecodeError

definition payload_of :: "('j \<Rightarrow> string) \<Rightarrow> (string \<Rightarrow> string option) \<Rightarrow> 'j SSEData \<Rightarrow> encode_error + string" where
  "payload_of dumps decode data =
     (case data of
        Text s \<Rightarrow> Inr s
      | Bytes b \<Rightarrow> (case decode b of None \<Rightarrow> Inl UnicodeDecodeError | Some s \<Rightarrow> Inr s)
      | Json j \<Rightarrow> Inr (dumps j))"

definition is_control_frame :: "string \<Rightarrow> 'j ServerSentEvent \<Rightarrow> bool" where
  "is_control_frame payload e \<longleftrightarrow> payload = [] \<and> sse_event e = None
     \<and> (sse_comment e \<noteq> None \<or> sse_id e \<noteq> None \<or> sse_retry e \<noteq> None)"

definition data_chunks :: "string \<Rightarrow> string list" where
  "data_chunks payload = (case splitlines payload of [] \<Rightarrow> [[]] | ls \<Rightarrow> ls)"

definition frame_lines :: "string \<Rightarrow> 'j ServerSentEvent \<Rightarrow> string list" where
  "frame_lines payload e =
     (case sse_comment e of None \<Rightarrow> [] | Some c \<Rightarrow> ['': '' @ c])
     @ (case sse_event e of None \<Rightarrow> [] | Some n \<Rightarrow> [''event: '' @ n])
     @ (case sse_id e of None \<Rightarrow> [] | Some i \<Rightarrow> [''id: '' @ i])
     @ (case sse_retry e of None \<Rightarrow> [] | Some r \<Rightarrow> [''retry: '' @ int_str r])
     @ (if is_control_frame payload e then [] else map (\<lambda>chunk. ''data: '' @ chunk) (data_chunks payload))"

definition encode :: "('j \<Rightarrow> string) \<Rightarrow> (string \<Rightarrow> string option) \<Rightarrow> 'j ServerSentEvent \<Rightarrow> encode_error + string" where
  "encode dumps decode e =
     (case payload_of dumps decode (sse_data e) of
        Inl err \<Rightarrow> Inl err
      | Inr payload \<Rightarrow> Inr (join [LF] (frame_lines payload e) @ [LF, LF]))"

subsection \<open>The client\<close>

text \<open>
  The event stream parser of the standard: its three buffers, the reconnection time and the events
  dispatched so far as (type, data, last event id).
\<close>

record client =
  cl_data :: string
  cl_event :: string
  cl_last_id :: string
  cl_retry :: "nat option"
  cl_dispatched :: "(string \<times> string \<times> string) list"

definition new_client :: client where
  "new_client = \<lparr>cl_data = [], cl_event = [], cl_last_id = [], cl_retry = None, cl_dispatched = []\<rparr>"

definition dispatch :: "client \<Rightarrow> client" where
  "dispatch cl =
     (if cl_data cl = [] then cl\<lparr>cl_event := []\<rparr>
      else cl\<lparr>cl_dispatched := cl_dispatched cl @
                [(if cl_event cl = [] then ''message'' else cl_event cl, butlast (cl_data cl), cl_last_id cl)],
              cl_data := [], cl_event := []\<rparr>)"

definition client_field :: "string \<Rightarrow> string \<Rightarrow> client \<Rightarrow> client" where
  "client_field name value cl =
     (if name = ''event'' then cl\<lparr>cl_event := value\<rparr>
      else if name = ''data'' then cl\<lparr>cl_data := cl_data cl @ value @ [LF]\<rparr>
      else if name = ''id'' then (if CHR 0x00 \<in> set value then cl else cl\<lparr>cl_last_id := value\<rparr>)
      else if name = ''retry'' then
        (if value \<noteq> [] \<and> list_all is_digit value
         then cl\<lparr>cl_retry := map_option nat (digits_int 0 False value)\<rparr> else cl)
      else cl)"

definition client_line :: "string \<Rightarrow> client \<Rightarrow> client" where
  "client_line l cl =
     (if l = [] then dispatch cl
      else if hd l = CHR '':'' then cl
      else let value = drop 1 (dropWhile (\<lambda>c. c \<noteq> CHR '':'') l)
           in client_field (takeWhile (\<lambda>c. c \<noteq> CHR '':'') l)
                (if value \<noteq> [] \<and> hd value = CHR '' '' then tl value else value) cl)"

text \<open>The complete lines of a text; a line ends with CRLF, LF or CR.\<close>

fun client_lines :: "string \<Rightarrow> string \<Rightarrow> string list" where
  "client_lines cur [] = []"
| "client_lines cur (c # cs) =
     (if c = CR \<and> cs \<noteq> [] \<and> hd cs = LF then client_lines cur cs
      else if c = LF \<or> c = CR then rev cur # client_lines [] cs
      else client_lines (c # cur) cs)"

definition client_reads :: "string \<Rightarrow> client \<Rightarrow> client" where
  "client_reads t cl = fold client_line (client_lines [] t) cl"

subsection \<open>Lines of a frame\<close>

definition one_line :: "string \<Rightarrow> bool" where
  "one_line l \<longleftrightarrow> LF \<notin> set l \<and> CR \<notin> set l"

lemma one_line_simps [simp]:
  "one_line []" "one_line (c # l) \<longleftrightarrow> c \<noteq> LF \<and> c \<noteq> CR \<and> one_line l"
  "one_line (l @ l') \<longleftrightarrow> one_line l \<and> one_line l'"
  by (auto simp: one_line_def)







lemma data_chunks_nonempty [simp]: "data_chunks s \<noteq> []"
  by (simp add: data_chunks_def split: list.split)





subsection \<open>What the client makes of a frame\<close>










definition encode_all :: "('j \<Rightarrow> string) \<Rightarrow> (string \<Rightarrow> string option) \<Rightarrow> 'j ServerSentEvent list \<Rightarrow> string list option" where
  "encode_all dumps decode es = those (map (\<lambda>e. case encode dumps decode e of Inl _ \<Rightarrow> None | Inr t \<Rightarrow> Some t) es)"







text \<open>Without that care an id of two lines carries an event of its own.\<close>

lemma newline_in_id_injects_an_event:
  "cl_dispatched (client_reads (join [LF] (frame_lines [] \<lparr>sse_data = Text [], sse_event = None,
       sse_id = Some (''1'' @ [LF] @ ''data: forged''), sse_retry = None, sse_comment = None\<rparr>) @ [LF, LF]) new_client)
     = [(''message'', ''forged'', ''1'')]"
  by (simp add: frame_lines_def is_control_frame_def client_reads_def client_line_def client_field_def dispatch_def new_client_def)

end
