(* ===== verification/Sse_Broker.thy ===== *)
theory Sse_Broker
  imports Sse_Frame "HOL-Library.Sublist" "HOL-Library.List_Lexorder" "HOL-Library.Char_ord"
begin

text \<open>
  The queue of one connection (\<^verbatim>\<open>EventStream\<close> of \<^verbatim>\<open>sse/event_stream.py\<close>) and the fan-out over channels
  and processes (\<^verbatim>\<open>SSEBroker\<close> of \<^verbatim>\<open>sse/broker.py\<close>).

  A put is atomic: under the drop policies it never suspends, under \<^verbatim>\<open>block\<close> it waits while the queue
  is full, which is \<open>None\<close>. A payload is JSON (\<open>json\<close>), text or bytes; the body of a pub/sub message is
  the JSON value of its text, \<open>None\<close> where \<^verbatim>\<open>json.loads\<close> raises. Redis delivers a message to every
  worker whose pattern matches its channel, and prefixes contain no glob characters.
\<close>

subsection \<open>The stream of one connection\<close>

datatype OverflowPolicy = DropOldest | DropNewest | Block

text \<open>A callable heartbeat builds a frame per beat; its argument is the number of the beat.\<close>

datatype 'j heartbeat = Keepalive | FixedEvent "'j ServerSentEvent" | Callable "nat \<Rightarrow> 'j ServerSentEvent"

record 'j EventStream =
  es_queue :: "'j ServerSentEvent option list"
  es_maxsize :: int
  es_heartbeat_seconds :: "real option"
  es_heartbeat_event :: "'j heartbeat"
  es_max_queue :: int
  es_overflow :: OverflowPolicy
  es_dropped :: nat

definition new_stream :: "real option \<Rightarrow> 'j heartbeat \<Rightarrow> int \<Rightarrow> OverflowPolicy \<Rightarrow> 'j EventStream" where
  "new_stream beat beat_event max_queue overflow =
     \<lparr>es_queue = [], es_maxsize = (if 0 < max_queue \<and> overflow = Block then max_queue else 0),
      es_heartbeat_seconds = beat, es_heartbeat_event = beat_event, es_max_queue = max_queue,
      es_overflow = overflow, es_dropped = 0\<rparr>"

text \<open>\<^verbatim>\<open>asyncio.Queue.put\<close>, and \<open>put\<close> itself with \<open>None\<close> for the end of the stream.\<close>

definition queue_put :: "'j ServerSentEvent option \<Rightarrow> 'j EventStream \<Rightarrow> 'j EventStream option" where
  "queue_put item s =
     (if 0 < es_maxsize s \<and> es_maxsize s \<le> int (length (es_queue s)) then None
      else Some (s\<lparr>es_queue := es_queue s @ [item]\<rparr>))"

definition put :: "'j ServerSentEvent option \<Rightarrow> 'j EventStream \<Rightarrow> 'j EventStream option" where
  "put item s =
     (if item = None \<or> es_max_queue s \<le> 0 \<or> es_overflow s = Block then queue_put item s
      else if int (length (es_queue s)) < es_max_queue s then Some (s\<lparr>es_queue := es_queue s @ [item]\<rparr>)
      else if es_overflow s = DropNewest then Some (s\<lparr>es_dropped := es_dropped s + 1\<rparr>)
      else if es_queue s = [] then Some (s\<lparr>es_queue := [item]\<rparr>)
      else Some (s\<lparr>es_queue := tl (es_queue s) @ [item], es_dropped := es_dropped s + 1\<rparr>))"

definition publish_event :: "'j ServerSentEvent \<Rightarrow> 'j EventStream \<Rightarrow> 'j EventStream option" where
  "publish_event e = put (Some e)"

definition close_stream :: "'j EventStream \<Rightarrow> 'j EventStream option" where
  "close_stream = put None"

definition heartbeat_frame :: "nat \<Rightarrow> 'j heartbeat \<Rightarrow> 'j ServerSentEvent" where
  "heartbeat_frame n hb =
     (case hb of
        Keepalive \<Rightarrow> \<lparr>sse_data = Text [], sse_event = None, sse_id = None, sse_retry = None, sse_comment = Some ''keepalive''\<rparr>
      | FixedEvent e \<Rightarrow> e
      | Callable f \<Rightarrow> f n)"

text \<open>
  One turn of \<open>stream\<close>: what it yields, or that it waits or has ended. \<open>timed_out\<close> says whether the
  heartbeat interval passed with the queue empty.
\<close>

datatype 'j turn = Waits | Yields "'j ServerSentEvent" | Ends

definition stream_turn :: "bool \<Rightarrow> nat \<Rightarrow> 'j EventStream \<Rightarrow> 'j turn \<times> 'j EventStream" where
  "stream_turn timed_out n s =
     (case es_queue s of
        [] \<Rightarrow> (if es_heartbeat_seconds s \<noteq> None \<and> timed_out then Yields (heartbeat_frame n (es_heartbeat_event s)) else Waits, s)
      | None # q \<Rightarrow> (Ends, s\<lparr>es_queue := q\<rparr>)
      | Some e # q \<Rightarrow> (Yields e, s\<lparr>es_queue := q\<rparr>))"

text \<open>Turns of a client that keeps reading, until the end or until the queue is empty.\<close>

fun read_turns :: "nat \<Rightarrow> 'j EventStream \<Rightarrow> 'j ServerSentEvent list \<times> bool" where
  "read_turns 0 s = ([], False)"
| "read_turns (Suc n) s =
     (case stream_turn False 0 s of
        (Waits, s') \<Rightarrow> ([], False)
      | (Ends, s') \<Rightarrow> ([], True)
      | (Yields e, s') \<Rightarrow> (case read_turns n s' of (es, ended) \<Rightarrow> (e # es, ended)))"

subsection \<open>Publishers and one reader\<close>


















fun publish_all :: "'j ServerSentEvent list \<Rightarrow> 'j EventStream \<Rightarrow> 'j EventStream option" where
  "publish_all [] s = Some s"
| "publish_all (e # es) s = Option.bind (publish_event e s) (publish_all es)"

lemma late_publish:
  assumes "es_overflow s = DropOldest" and "0 < es_max_queue s"
  shows "\<exists>s'. publish_event e s = Some s' \<and> es_overflow s' = DropOldest \<and> es_max_queue s' = es_max_queue s
    \<and> es_queue s' = (if int (length (es_queue s)) < es_max_queue s then es_queue s else tl (es_queue s)) @ [Some e]"
  using assms by (cases "es_queue s") (auto simp: publish_event_def put_def)

lemma late_publishes:
  assumes "es_overflow s = DropOldest" and "0 < es_max_queue s"
    and "None \<notin> set (es_queue s) \<or> (\<exists>xs ys. es_queue s = map Some xs @ None # map Some ys
      \<and> int (length xs + length ys) \<le> es_max_queue s \<and> es_max_queue s < int (length es + length ys))"
  shows "\<exists>s'. publish_all es s = Some s' \<and> None \<notin> set (es_queue s')"
  using assms
proof (induction es arbitrary: s)
  case Nil
  then show ?case by auto
next
  case (Cons e es)
  obtain s' where s': "publish_event e s = Some s'" "es_overflow s' = DropOldest" "es_max_queue s' = es_max_queue s"
      "es_queue s' = (if int (length (es_queue s)) < es_max_queue s then es_queue s else tl (es_queue s)) @ [Some e]"
    using late_publish [OF Cons.prems(1,2)] by blast
  have "None \<notin> set (es_queue s') \<or> (\<exists>xs ys. es_queue s' = map Some xs @ None # map Some ys
      \<and> int (length xs + length ys) \<le> es_max_queue s \<and> es_max_queue s < int (length es + length ys))"
  proof (cases "None \<in> set (es_queue s)")
    case False
    then have "None \<notin> set (tl (es_queue s))" by (cases "es_queue s") auto
    then show ?thesis using s'(4) False by simp
  next
    case True
    then obtain xs ys where q: "es_queue s = map Some xs @ None # map Some ys"
        and n: "int (length xs + length ys) \<le> es_max_queue s" "es_max_queue s < int (length (e # es) + length ys)"
      using Cons.prems(3) by auto
    show ?thesis
    proof (cases "int (length (es_queue s)) < es_max_queue s")
      case True
      show ?thesis
      proof -
        have "es_queue s' = map Some xs @ None # map Some (ys @ [e])"
            "int (length xs + length (ys @ [e])) \<le> es_max_queue s" "es_max_queue s < int (length es + length (ys @ [e]))"
          using s'(4) q n True by auto
        then show ?thesis by blast
      qed
    next
      case False
      show ?thesis
      proof (cases xs)
        case Nil
        then have "None \<notin> set (es_queue s')" using s'(4) q False by auto
        then show ?thesis ..
      next
        case (Cons x xs')
        have "es_queue s' = map Some xs' @ None # map Some (ys @ [e])"
            "int (length xs' + length (ys @ [e])) \<le> es_max_queue s" "es_max_queue s < int (length es + length (ys @ [e]))"
          using s'(4) q n False Cons by auto
        then show ?thesis by blast
      qed
    qed
  qed
  then show ?case using Cons.IH [of s'] s'(1-3) Cons.prems(2) by auto
qed

text \<open>
  The end of a stream can be lost. When more than \<open>max_queue\<close> events are published after the
  close on a stream that drops the oldest, the mark of the end is dropped with them: the reader gets
  the events that are left and then waits, and never ends.
\<close>

theorem late_publishes_evict_the_end:
  assumes "es_overflow s = DropOldest" and "0 < es_max_queue s" and "es_maxsize s = 0"
    and "es_queue s = map Some waiting" and "int (length waiting) \<le> es_max_queue s"
    and "es_max_queue s < int (length es)"
  shows "\<exists>s'. Option.bind (close_stream s) (publish_all es) = Some s' \<and> (\<forall>n. \<not> snd (read_turns n s'))"
proof -
  have never: "\<not> snd (read_turns n s)" if "None \<notin> set (es_queue s)" for n and s :: "'a EventStream"
    using that
  proof (induction n arbitrary: s)
    case (Suc n)
    show ?case
    proof (cases "es_queue s")
      case (Cons i q)
      then obtain e where "i = Some e" using Suc.prems by (cases i) auto
      then show ?thesis
        using Suc.IH [of "s\<lparr>es_queue := q\<rparr>"] Suc.prems Cons by (simp add: stream_turn_def case_prod_beta)
    qed (simp add: stream_turn_def)
  qed simp
  have "close_stream s = Some (s\<lparr>es_queue := map Some waiting @ [None]\<rparr>)"
    using assms by (simp add: close_stream_def put_def queue_put_def)
  moreover have "\<exists>s'. publish_all es (s\<lparr>es_queue := map Some waiting @ [None]\<rparr>) = Some s' \<and> None \<notin> set (es_queue s')"
  proof (rule late_publishes)
    have "es_queue (s\<lparr>es_queue := map Some waiting @ [None]\<rparr>) = map Some waiting @ None # map Some []" by simp
    then show "None \<notin> set (es_queue (s\<lparr>es_queue := map Some waiting @ [None]\<rparr>))
        \<or> (\<exists>xs ys. es_queue (s\<lparr>es_queue := map Some waiting @ [None]\<rparr>) = map Some xs @ None # map Some ys
          \<and> int (length xs + length ys) \<le> es_max_queue (s\<lparr>es_queue := map Some waiting @ [None]\<rparr>)
          \<and> es_max_queue (s\<lparr>es_queue := map Some waiting @ [None]\<rparr>) < int (length es + length ys))"
      using assms(5,6) by (intro disjI2) (rule exI [of _ waiting], rule exI [of _ "[]"], simp)
  qed (use assms in simp_all)
  ultimately show ?thesis using never by auto
qed

lemma late_publishes_evict_the_end_witness:
  "let e = \<lparr>sse_data = Json (), sse_event = None, sse_id = None, sse_retry = None, sse_comment = None\<rparr>
   in \<exists>s'. Option.bind (close_stream (new_stream None Keepalive 1 DropOldest)) (publish_all [e, e]) = Some s'
        \<and> (\<forall>n. \<not> snd (read_turns n s'))"
  using late_publishes_evict_the_end [of "new_stream None Keepalive 1 DropOldest" "[]"
      "[\<lparr>sse_data = Json (), sse_event = None, sse_id = None, sse_retry = None, sse_comment = None\<rparr>,
        \<lparr>sse_data = Json (), sse_event = None, sse_id = None, sse_retry = None, sse_comment = None\<rparr>]"]
  by (simp add: new_stream_def)

text \<open>Under \<^verbatim>\<open>block\<close> the end waits for a place like any event.\<close>

lemma close_waits_when_full:
  "es_maxsize s = es_max_queue s \<Longrightarrow> 0 < es_max_queue s \<Longrightarrow> int (length (es_queue s)) = es_max_queue s \<Longrightarrow> close_stream s = None"
  by (simp add: close_stream_def put_def queue_put_def)

subsection \<open>The broker of one process\<close>

datatype json = JNull | JBool bool | JInt int | JFloat real | JStr string | JList "json list" | JObj "(string \<times> json) list"

type_synonym sse_event = "json ServerSentEvent"

text \<open>
  The channels are a dict of sets of streams, streams being known by a number (their identity);
  \<open>br_next\<close> is the next one. \<open>br_redis\<close> says whether the broker was built with a Redis client.
\<close>

record SSEBroker =
  br_redis :: bool
  br_prefix :: string
  br_heartbeat_seconds :: "real option"
  br_heartbeat_event :: "json heartbeat"
  br_max_queue :: int
  br_overflow :: OverflowPolicy
  br_channels :: "(string \<times> nat list) list"
  br_streams :: "nat \<Rightarrow> json EventStream"
  br_next :: nat

definition BROADCAST_CHANNEL :: string where
  "BROADCAST_CHANNEL = ''__broadcast__''"

definition DEFAULT_CHANNEL_PREFIX :: string where
  "DEFAULT_CHANNEL_PREFIX = ''sse''"

definition new_broker :: "bool \<Rightarrow> string \<Rightarrow> real option \<Rightarrow> json heartbeat \<Rightarrow> int \<Rightarrow> OverflowPolicy \<Rightarrow> SSEBroker" where
  "new_broker redis pre beat beat_event max_queue overflow =
     \<lparr>br_redis = redis, br_prefix = pre, br_heartbeat_seconds = beat, br_heartbeat_event = beat_event,
      br_max_queue = max_queue, br_overflow = overflow, br_channels = [],
      br_streams = (\<lambda>_. new_stream beat beat_event max_queue overflow), br_next = 0\<rparr>"

datatype broker_error = ValueError

definition reject_reserved :: "string \<Rightarrow> broker_error option" where
  "reject_reserved channel = (if channel = BROADCAST_CHANNEL then Some ValueError else None)"

definition streams_of :: "string \<Rightarrow> SSEBroker \<Rightarrow> nat list" where
  "streams_of channel b = (case map_of (br_channels b) channel of Some ids \<Rightarrow> ids | None \<Rightarrow> [])"

definition register_stream :: "string \<Rightarrow> SSEBroker \<Rightarrow> (broker_error + nat) \<times> SSEBroker" where
  "register_stream channel b =
     (case reject_reserved channel of
        Some err \<Rightarrow> (Inl err, b)
      | None \<Rightarrow>
          (Inr (br_next b),
           b\<lparr>br_streams := (br_streams b)(br_next b :=
               new_stream (br_heartbeat_seconds b) (br_heartbeat_event b) (br_max_queue b) (br_overflow b)),
             br_channels := dict_set channel (streams_of channel b @ [br_next b]) (br_channels b),
             br_next := br_next b + 1\<rparr>))"

definition unregister_stream :: "string \<Rightarrow> nat \<Rightarrow> SSEBroker \<Rightarrow> SSEBroker" where
  "unregister_stream channel sid b =
     (if streams_of channel b = [] then b
      else let left = filter (\<lambda>i. i \<noteq> sid) (streams_of channel b)
           in if left = [] then b\<lparr>br_channels := filter (\<lambda>(c, _). c \<noteq> channel) (br_channels b)\<rparr>
              else b\<lparr>br_channels := dict_set channel left (br_channels b)\<rparr>)"

definition local_subscribers :: "string \<Rightarrow> SSEBroker \<Rightarrow> nat" where
  "local_subscribers channel b = length (streams_of channel b)"

definition local_channels :: "SSEBroker \<Rightarrow> string list" where
  "local_channels b = sort (map fst (br_channels b))"

text \<open>
  One event put on streams in turn; a put that waits (under \<^verbatim>\<open>block\<close>) suspends the fan-out, and the
  result names the streams still to be served.
\<close>

fun emit :: "nat list \<Rightarrow> sse_event \<Rightarrow> SSEBroker \<Rightarrow> nat list \<times> SSEBroker" where
  "emit [] e b = ([], b)"
| "emit (i # ids) e b =
     (case publish_event e (br_streams b i) of
        None \<Rightarrow> (i # ids, b)
      | Some s \<Rightarrow> emit ids e (b\<lparr>br_streams := (br_streams b)(i := s)\<rparr>))"

definition emit_local :: "string \<Rightarrow> sse_event \<Rightarrow> SSEBroker \<Rightarrow> nat list \<times> SSEBroker" where
  "emit_local channel e b = emit (streams_of channel b) e b"

definition emit_everywhere :: "sse_event \<Rightarrow> SSEBroker \<Rightarrow> nat list \<times> SSEBroker" where
  "emit_everywhere e b = emit (remdups (concat (map snd (br_channels b)))) e b"

subsection \<open>Redis pub/sub\<close>

text \<open>
  \<^verbatim>\<open>json.dumps(..., default=str)\<close> of a payload, as the value \<^verbatim>\<open>json.loads\<close> reads back: a bytes object is
  not JSON, so it becomes the text \<open>bytes_str\<close> of it (\<^verbatim>\<open>str(b"hi")\<close> is \<^verbatim>\<open>b'hi'\<close> with its prefix and quotes).
\<close>

definition json_of :: "(string \<Rightarrow> string) \<Rightarrow> json SSEData \<Rightarrow> json" where
  "json_of bytes_str data = (case data of Text s \<Rightarrow> JStr s | Bytes b \<Rightarrow> JStr (bytes_str b) | Json j \<Rightarrow> j)"

definition data_of :: "json \<Rightarrow> json SSEData" where
  "data_of j = (case j of JStr s \<Rightarrow> Text s | _ \<Rightarrow> Json j)"

definition opt_str :: "string option \<Rightarrow> json" where
  "opt_str v = (case v of None \<Rightarrow> JNull | Some s \<Rightarrow> JStr s)"

definition envelope :: "(string \<Rightarrow> string) \<Rightarrow> json SSEData \<Rightarrow> string option \<Rightarrow> string option \<Rightarrow> int option \<Rightarrow> SSEBroker \<Rightarrow> json" where
  "envelope bytes_str data event eid retry b =
     JObj [(''data'', json_of bytes_str data), (''event'', opt_str event), (''id'', opt_str eid),
           (''retry'', case retry of None \<Rightarrow> JNull | Some r \<Rightarrow> JInt r), (''prefix'', JStr (br_prefix b))]"

definition redis_key :: "string \<Rightarrow> SSEBroker \<Rightarrow> string" where
  "redis_key channel b = br_prefix b @ '':'' @ channel"

text \<open>What a publish does: fan out here, or send one message.\<close>

datatype published = Refused broker_error | Local "nat list" | Sent string json

definition publish ::
  "(string \<Rightarrow> string) \<Rightarrow> string \<Rightarrow> json SSEData \<Rightarrow> string option \<Rightarrow> string option \<Rightarrow> int option \<Rightarrow> SSEBroker \<Rightarrow> published \<times> SSEBroker" where
  "publish bytes_str channel data event eid retry b =
     (case reject_reserved channel of
        Some err \<Rightarrow> (Refused err, b)
      | None \<Rightarrow>
          if \<not> br_redis b
          then (case emit_local channel \<lparr>sse_data = data, sse_event = event, sse_id = eid, sse_retry = retry, sse_comment = None\<rparr> b of
                  (left, b') \<Rightarrow> (Local left, b'))
          else (Sent (redis_key channel b) (envelope bytes_str data event eid retry b), b))"

definition broadcast ::
  "(string \<Rightarrow> string) \<Rightarrow> json SSEData \<Rightarrow> string option \<Rightarrow> string option \<Rightarrow> int option \<Rightarrow> SSEBroker \<Rightarrow> published \<times> SSEBroker" where
  "broadcast bytes_str data event eid retry b =
     (if \<not> br_redis b
      then (case emit_everywhere \<lparr>sse_data = data, sse_event = event, sse_id = eid, sse_retry = retry, sse_comment = None\<rparr> b of
              (left, b') \<Rightarrow> (Local left, b'))
      else (Sent (redis_key BROADCAST_CHANNEL b) (envelope bytes_str data event eid retry b), b))"

definition removeprefix :: "string \<Rightarrow> string \<Rightarrow> string" where
  "removeprefix pre s = (if startswith s pre then drop (length pre) s else s)"

definition dict_get :: "string \<Rightarrow> (string \<times> json) list \<Rightarrow> json" where
  "dict_get k obj = (case map_of obj k of Some v \<Rightarrow> v | None \<Rightarrow> JNull)"

definition str_field :: "json \<Rightarrow> string option option" where
  "str_field j = (case j of JNull \<Rightarrow> Some None | JStr s \<Rightarrow> Some (Some s) | _ \<Rightarrow> None)"

definition int_field :: "json \<Rightarrow> int option option" where
  "int_field j = (case j of JNull \<Rightarrow> Some None | JInt i \<Rightarrow> Some (Some i) | _ \<Rightarrow> None)"

definition dispatch_raw :: "string \<Rightarrow> json option \<Rightarrow> SSEBroker \<Rightarrow> (broker_error + nat list) \<times> SSEBroker" where
  "dispatch_raw key body b =
     (let channel = removeprefix (br_prefix b @ '':'') key
      in case body of
           Some (JObj obj) \<Rightarrow>
             (let sender = dict_get ''prefix'' obj
              in if sender \<noteq> JNull \<and> sender \<noteq> JStr (br_prefix b) then (Inr [], b)
                 else case (str_field (dict_get ''event'' obj), str_field (dict_get ''id'' obj), int_field (dict_get ''retry'' obj)) of
                        (Some event, Some eid, Some retry) \<Rightarrow>
                          (let frame = \<lparr>sse_data = (case map_of obj ''data'' of None \<Rightarrow> Text [] | Some j \<Rightarrow> data_of j),
                                        sse_event = event, sse_id = eid, sse_retry = retry, sse_comment = None\<rparr>
                           in case (if channel = BROADCAST_CHANNEL then emit_everywhere frame b else emit_local channel frame b) of
                                (left, b') \<Rightarrow> (Inr left, b'))
                      | _ \<Rightarrow> (Inl ValueError, b))
         | _ \<Rightarrow> (Inl ValueError, b))"

text \<open>
  A message reaches every worker that runs the loop and whose pattern matches; a worker that cannot
  deliver it logs the error and goes on.
\<close>

definition run_message :: "string \<Rightarrow> json option \<Rightarrow> SSEBroker \<Rightarrow> SSEBroker" where
  "run_message key body b =
     (if startswith key (br_prefix b @ '':'') then snd (dispatch_raw key body b) else b)"

definition redis_publish :: "string \<Rightarrow> json option \<Rightarrow> SSEBroker list \<Rightarrow> SSEBroker list" where
  "redis_publish key body workers = map (run_message key body) workers"

subsection \<open>The registry stays well formed\<close>

inductive broker_reach :: "SSEBroker \<Rightarrow> bool" where
  start: "broker_reach (new_broker redis pre beat beat_event max_queue overflow)"
| registers: "broker_reach b \<Longrightarrow> broker_reach (snd (register_stream channel b))"
| unregisters: "broker_reach b \<Longrightarrow> broker_reach (unregister_stream channel sid b)"
| emits: "broker_reach b \<Longrightarrow> broker_reach (snd (emit ids e b))"

definition broker_ok :: "SSEBroker \<Rightarrow> bool" where
  "broker_ok b \<longleftrightarrow> distinct (map fst (br_channels b))
     \<and> (\<forall>(channel, ids) \<in> set (br_channels b). channel \<noteq> BROADCAST_CHANNEL \<and> ids \<noteq> [] \<and> distinct ids \<and> (\<forall>i \<in> set ids. i < br_next b))
     \<and> (br_overflow b \<noteq> Block \<longrightarrow> (\<forall>i. es_maxsize (br_streams b i) = 0))"

lemma dict_set_entries:
  "distinct (map fst kvs) \<Longrightarrow> set (dict_set k v kvs) = insert (k, v) {kv \<in> set kvs. fst kv \<noteq> k}"
proof (induction kvs)
  case (Cons kv kvs)
  obtain k' v' where kv: "kv = (k', v')" by (cases kv)
  show ?case
  proof (cases "k' = k")
    case True
    then have "fst x \<noteq> k" if "x \<in> set kvs" for x using Cons.prems that by (auto simp: kv)
    then show ?thesis using True by (auto simp: kv)
  next
    case False
    then show ?thesis using Cons by (auto simp: kv)
  qed
qed simp

lemma streams_of_mem: "distinct (map fst (br_channels b)) \<Longrightarrow> (channel, ids) \<in> set (br_channels b) \<Longrightarrow> streams_of channel b = ids"
  by (simp add: streams_of_def)

lemma streams_of_entry: "streams_of channel b \<noteq> [] \<Longrightarrow> (channel, streams_of channel b) \<in> set (br_channels b)"
  by (auto simp: streams_of_def split: option.splits dest: map_of_SomeD)

lemma streams_of_ok:
  assumes "broker_ok b"
  shows "distinct (streams_of channel b)" and "i \<in> set (streams_of channel b) \<Longrightarrow> i < br_next b"
proof -
  have *: "distinct (streams_of channel b) \<and> (\<forall>i \<in> set (streams_of channel b). i < br_next b)"
  proof (cases "streams_of channel b = []")
    case False
    then show ?thesis using assms streams_of_entry [of channel b] by (auto simp: broker_ok_def)
  qed simp
  then show "distinct (streams_of channel b)" and "i \<in> set (streams_of channel b) \<Longrightarrow> i < br_next b" by auto
qed

lemma streams_of_update:
  "streams_of c (b\<lparr>br_channels := dict_set channel ids (br_channels b)\<rparr>) = (if c = channel then ids else streams_of c b)"
  "streams_of c (b\<lparr>br_channels := filter (\<lambda>(k, _). k \<noteq> channel) (br_channels b)\<rparr>) = (if c = channel then [] else streams_of c b)"
proof -
  have "map_of (filter (\<lambda>(k, _). k \<noteq> channel) kvs) c = (if c = channel then None else map_of kvs c)" for kvs :: "(string \<times> nat list) list"
    by (induction kvs) auto
  then show "streams_of c (b\<lparr>br_channels := filter (\<lambda>(k, _). k \<noteq> channel) (br_channels b)\<rparr>) = (if c = channel then [] else streams_of c b)"
    by (simp add: streams_of_def)
qed (simp add: streams_of_def map_of_dict_set)

lemma register_ok: "broker_ok b \<Longrightarrow> broker_ok (snd (register_stream channel b))"
proof -
  assume ok: "broker_ok b"
  have "br_next b \<notin> set (streams_of channel b)" using streams_of_ok(2) [OF ok] by blast
  then have new: "distinct (streams_of channel b @ [br_next b])" using streams_of_ok(1) [OF ok] by simp
  have keys: "distinct (map fst (br_channels b))" using ok by (simp add: broker_ok_def)
  show ?thesis
  proof (cases "channel = BROADCAST_CHANNEL")
    case True
    then show ?thesis using ok by (simp add: register_stream_def reject_reserved_def)
  next
    case False
    then show ?thesis
      using ok new streams_of_ok(2) [OF ok, where channel = channel] distinct_dict_set [OF keys]
      by (auto simp: register_stream_def reject_reserved_def broker_ok_def dict_set_entries [OF keys] new_stream_def
          intro: less_SucI) (fastforce dest!: bspec intro: less_SucI)+
  qed
qed

lemma unregister_ok: "broker_ok b \<Longrightarrow> broker_ok (unregister_stream channel sid b)"
proof -
  assume ok: "broker_ok b"
  have keys: "distinct (map fst (br_channels b))" using ok by (simp add: broker_ok_def)
  let ?left = "filter (\<lambda>i. i \<noteq> sid) (streams_of channel b)"
  have old: "channel \<noteq> BROADCAST_CHANNEL" if "streams_of channel b \<noteq> []"
    using streams_of_entry [OF that] ok by (auto simp: broker_ok_def)
  show ?thesis
  proof (cases "streams_of channel b = [] \<or> ?left = []")
    case True
    then show ?thesis
      using ok by (auto simp: unregister_stream_def broker_ok_def Let_def distinct_map_filter)
  next
    case False
    then have un: "unregister_stream channel sid b = b\<lparr>br_channels := dict_set channel ?left (br_channels b)\<rparr>"
      by (simp add: unregister_stream_def Let_def)
    show ?thesis
      using ok False old streams_of_ok [OF ok, where channel = channel] distinct_dict_set [OF keys]
      unfolding un by (auto simp: broker_ok_def dict_set_entries [OF keys])
  qed
qed

lemma publish_event_maxsize: "publish_event e s = Some s' \<Longrightarrow> es_maxsize s' = es_maxsize s"
  by (auto simp: publish_event_def put_def queue_put_def split: if_splits)

lemma emit_ok: "broker_ok b \<Longrightarrow> broker_ok (snd (emit ids e b))"
proof (induction ids arbitrary: b)
  case (Cons i ids)
  show ?case
  proof (cases "publish_event e (br_streams b i)")
    case (Some s)
    then have "broker_ok (b\<lparr>br_streams := (br_streams b)(i := s)\<rparr>)"
      using Cons.prems publish_event_maxsize [OF Some] by (simp add: broker_ok_def)
    then show ?thesis using Cons.IH Some by simp
  qed (use Cons.prems in simp)
qed simp

lemma broker_reach_ok: "broker_reach b \<Longrightarrow> broker_ok b"
proof (induction rule: broker_reach.induct)
  case (start redis pre beat beat_event max_queue overflow)
  then show ?case by (simp add: broker_ok_def new_broker_def new_stream_def)
qed (simp_all add: register_ok unregister_ok emit_ok)

subsection \<open>Fan-out\<close>

lemma emit_streams:
  assumes "distinct ids" and "\<forall>i \<in> set ids. es_maxsize (br_streams b i) = 0"
  shows "emit ids e b = ([], b\<lparr>br_streams := \<lambda>i. if i \<in> set ids then the (publish_event e (br_streams b i)) else br_streams b i\<rparr>)"
  using assms
proof (induction ids arbitrary: b)
  case Nil
  then show ?case by simp
next
  case (Cons i ids)
  obtain s where s: "publish_event e (br_streams b i) = Some s"
    using Cons.prems(2) by (cases "publish_event e (br_streams b i)") (auto simp: publish_event_def put_def queue_put_def split: if_splits)
  let ?b = "b\<lparr>br_streams := (br_streams b)(i := s)\<rparr>"
  have "emit ids e ?b = ([], ?b\<lparr>br_streams := \<lambda>j. if j \<in> set ids then the (publish_event e (br_streams ?b j)) else br_streams ?b j\<rparr>)"
    using Cons.prems by (intro Cons.IH) auto
  moreover have "(\<lambda>j. if j \<in> set ids then the (publish_event e (br_streams ?b j)) else br_streams ?b j)
      = (\<lambda>j. if j \<in> set (i # ids) then the (publish_event e (br_streams b j)) else br_streams b j)"
    using Cons.prems(1) s by (auto simp: fun_eq_iff)
  ultimately show ?case by (simp add: s)
qed

lemma emit_redis: "emit ids e (b\<lparr>br_redis := x\<rparr>) = (fst (emit ids e b), (snd (emit ids e b))\<lparr>br_redis := x\<rparr>)"
proof (induction ids arbitrary: b)
  case (Cons i ids)
  have swap: "b\<lparr>br_redis := x, br_streams := f\<rparr> = b\<lparr>br_streams := f, br_redis := x\<rparr>" for f by simp
  show ?case
    using Cons.IH [of "b\<lparr>br_streams := (br_streams b)(i := s)\<rparr>" for s] by (simp add: swap split: option.split)
qed simp

lemma emit_redis_same [simp]: "br_redis (snd (emit ids e b)) = br_redis b"
  by (induction ids arbitrary: b) (simp_all split: option.split)

text \<open>A JSON payload that is not a text, which would be given as one.\<close>

definition json_payload :: "json SSEData \<Rightarrow> bool" where
  "json_payload data \<longleftrightarrow> (case data of Text _ \<Rightarrow> True | Bytes _ \<Rightarrow> False | Json j \<Rightarrow> (\<forall>s. j \<noteq> JStr s))"

lemma data_of_json_of: "json_payload data \<Longrightarrow> data_of (json_of bytes_str data) = data"
  by (cases data) (auto simp: json_payload_def data_of_def json_of_def split: json.split)

lemma run_own_message:
  assumes "br_prefix w = br_prefix b"
  shows "run_message (redis_key channel b) (Some (envelope bytes_str data event eid retry b)) w =
    snd ((if channel = BROADCAST_CHANNEL then emit_everywhere else emit_local channel)
      \<lparr>sse_data = data_of (json_of bytes_str data), sse_event = event, sse_id = eid, sse_retry = retry, sse_comment = None\<rparr> w)"
proof -
  have "removeprefix (br_prefix w @ '':'') (redis_key channel b) = channel" "startswith (redis_key channel b) (br_prefix w @ '':'')"
    using assms startswith_append [of "br_prefix b @ '':''" channel] by (simp_all add: removeprefix_def redis_key_def)
  moreover have "str_field (opt_str v) = Some v" for v by (cases v) (simp_all add: str_field_def opt_str_def)
  moreover have "int_field (case r of None \<Rightarrow> JNull | Some r \<Rightarrow> JInt r) = Some r" for r by (cases r) (simp_all add: int_field_def)
  ultimately show ?thesis
    using assms by (simp add: run_message_def dispatch_raw_def envelope_def dict_get_def case_prod_beta Let_def)
qed

lemma run_other_message:
  assumes "br_prefix w \<noteq> br_prefix b"
  shows "run_message key (Some (envelope bytes_str data event eid retry b)) w = w"
  using assms by (simp add: run_message_def dispatch_raw_def envelope_def dict_get_def)

text \<open>
  Redis mode is local fan-out in every process. A message one worker publishes leaves every
  worker of the same prefix as if it had published the event itself in single-process mode, and
  every worker of another prefix untouched, prefixes that extend each other included. This is so
  for text and JSON payloads.
\<close>

theorem redis_fanout_is_local_fanout:
  assumes "publish bytes_str channel data event eid retry b = (Sent key body, b)" and "json_payload data"
  shows "redis_publish key (Some body) workers =
     map (\<lambda>w. if br_prefix w = br_prefix b
              then (snd (publish bytes_str channel data event eid retry (w\<lparr>br_redis := False\<rparr>)))\<lparr>br_redis := br_redis w\<rparr>
              else w) workers"
proof -
  have key: "key = redis_key channel b" "body = envelope bytes_str data event eid retry b" and c: "channel \<noteq> BROADCAST_CHANNEL"
    using assms(1) by (auto simp: publish_def reject_reserved_def split: if_splits prod.splits)
  show ?thesis
  proof (unfold redis_publish_def, rule map_cong [OF refl])
    fix w
    let ?frame = "\<lparr>sse_data = data, sse_event = event, sse_id = eid, sse_retry = retry, sse_comment = None\<rparr>"
    have "snd (publish bytes_str channel data event eid retry (w\<lparr>br_redis := False\<rparr>))
        = (snd (emit_local channel ?frame w))\<lparr>br_redis := False\<rparr>"
      using c by (simp add: publish_def reject_reserved_def emit_local_def streams_of_def emit_redis case_prod_beta)
    moreover have "br_redis (snd (emit_local channel ?frame w)) = br_redis w"
      by (simp add: emit_local_def)
    ultimately show "run_message key (Some body) w =
        (if br_prefix w = br_prefix b
         then (snd (publish bytes_str channel data event eid retry (w\<lparr>br_redis := False\<rparr>)))\<lparr>br_redis := br_redis w\<rparr> else w)"
      using c run_own_message [of w b channel bytes_str data event eid retry] run_other_message [of w b]
      by (simp add: key data_of_json_of [OF assms(2)])
  qed
qed

text \<open>Two workers of one prefix and one of a longer prefix; the event reaches the first two.\<close>

definition chat_worker :: "string \<Rightarrow> SSEBroker" where
  "chat_worker pre = snd (register_stream ''room'' (new_broker True pre None Keepalive 10 DropOldest))"

lemma redis_fanout_is_local_fanout_witness:
  "let e = \<lparr>sse_data = Text ''hi'', sse_event = None, sse_id = None, sse_retry = None, sse_comment = None\<rparr>;
       b = chat_worker ''app'';
       workers = redis_publish (redis_key ''room'' b) (Some (envelope id (Text ''hi'') None None None b))
         [chat_worker ''app'', chat_worker ''app'', chat_worker ''app:chat'']
   in map (\<lambda>w. es_queue (br_streams w 0)) workers = [[Some e], [Some e], []]"
proof -
  have "publish id ''room'' (Text ''hi'') None None None (chat_worker ''app'')
      = (Sent (redis_key ''room'' (chat_worker ''app'')) (envelope id (Text ''hi'') None None None (chat_worker ''app'')), chat_worker ''app'')"
    by (simp add: publish_def reject_reserved_def BROADCAST_CHANNEL_def chat_worker_def register_stream_def new_broker_def)
  from redis_fanout_is_local_fanout [OF this, of "[chat_worker ''app'', chat_worker ''app'', chat_worker ''app:chat'']"]
  show ?thesis
    by (simp add: json_payload_def chat_worker_def register_stream_def new_broker_def reject_reserved_def BROADCAST_CHANNEL_def
        publish_def emit_local_def streams_of_def publish_event_def put_def new_stream_def Let_def)
qed

text \<open>
  A local publish puts its event exactly once on every stream registered on its channel, and a
  broadcast exactly once on every registered stream, in any state the operations reach; no other
  stream changes. The drop policies never make a publisher wait.
\<close>

theorem publish_reaches_the_channel:
  assumes "broker_reach b" and "br_overflow b \<noteq> Block" and "\<not> br_redis b" and "channel \<noteq> BROADCAST_CHANNEL"
    and "e = \<lparr>sse_data = data, sse_event = event, sse_id = eid, sse_retry = retry, sse_comment = None\<rparr>"
    and "registered = (\<Union>(channel, ids) \<in> set (br_channels b). set ids)"
  shows "publish bytes_str channel data event eid retry b
      = (Local [], b\<lparr>br_streams := \<lambda>i. if i \<in> set (streams_of channel b) then the (publish_event e (br_streams b i)) else br_streams b i\<rparr>)
    \<and> broadcast bytes_str data event eid retry b
      = (Local [], b\<lparr>br_streams := \<lambda>i. if i \<in> registered then the (publish_event e (br_streams b i)) else br_streams b i\<rparr>)"
proof -
  have ok: "broker_ok b" by (rule broker_reach_ok [OF assms(1)])
  then have maxsize: "es_maxsize (br_streams b i) = 0" for i using assms(2) by (simp add: broker_ok_def)
  have all: "set (remdups (concat (map snd (br_channels b)))) = registered"
    by (auto simp: assms(6))
  show ?thesis
    using emit_streams [of "streams_of channel b" b e] emit_streams [of "remdups (concat (map snd (br_channels b)))" b e]
      streams_of_ok(1) [OF ok, of channel] assms(3-5) maxsize
    unfolding all by (simp add: publish_def broadcast_def reject_reserved_def emit_local_def emit_everywhere_def)
qed

lemma publish_reaches_the_channel_witness:
  "let b = snd (register_stream ''lobby'' (snd (register_stream ''room'' (new_broker False ''sse'' None Keepalive 10 DropOldest))));
       e = \<lparr>sse_data = Text ''hi'', sse_event = None, sse_id = None, sse_retry = None, sse_comment = None\<rparr>
   in map (\<lambda>i. es_queue (br_streams (snd (publish id ''room'' (Text ''hi'') None None None b)) i)) [0, 1] = [[Some e], []]
      \<and> map (\<lambda>i. es_queue (br_streams (snd (broadcast id (Text ''hi'') None None None b)) i)) [0, 1] = [[Some e], [Some e]]"
proof -
  let ?b = "snd (register_stream ''lobby'' (snd (register_stream ''room'' (new_broker False ''sse'' None Keepalive 10 DropOldest))))"
  let ?e = "\<lparr>sse_data = Text ''hi'', sse_event = None, sse_id = None, sse_retry = None, sse_comment = None\<rparr> :: sse_event"
  note defs = register_stream_def new_broker_def reject_reserved_def BROADCAST_CHANNEL_def streams_of_def
  have reach: "broker_reach ?b"
    by (intro broker_reach.registers broker_reach.start)
  have b: "br_overflow ?b = DropOldest" "\<not> br_redis ?b" "br_channels ?b = [(''room'', [0]), (''lobby'', [1])]"
      "es_queue (br_streams ?b 0) = []" "es_queue (br_streams ?b 1) = []"
      "es_max_queue (br_streams ?b 0) = 10" "es_max_queue (br_streams ?b 1) = 10"
    by (simp_all add: defs new_stream_def)
  have put: "es_queue (the (publish_event ?e (br_streams ?b i))) = [Some ?e]" if "i = 0 \<or> i = 1" for i
    using that b(4-7) by (auto simp: publish_event_def put_def queue_put_def b(1))
  show ?thesis
    using publish_reaches_the_channel [OF reach _ _ _ refl refl, of "''room''" id "Text ''hi''" None None None] put [of 0] put [of 1] b
    by (simp add: Let_def streams_of_def BROADCAST_CHANNEL_def)
qed

text \<open>
  Bytes do not survive Redis. In Redis mode a bytes payload reaches every worker, the publishing
  one included, as the text that \<^verbatim>\<open>str\<close> makes of the bytes object, while the same call in
  single-process mode sends the bytes as they are.
\<close>

theorem redis_mode_alters_bytes:
  assumes "publish bytes_str channel (Bytes raw) event eid retry b = (Sent key body, b)"
    and "br_prefix w = br_prefix b" and "\<not> br_redis l"
  shows "redis_publish key (Some body) [w] = [snd (emit_local channel \<lparr>sse_data = Text (bytes_str raw), sse_event = event,
       sse_id = eid, sse_retry = retry, sse_comment = None\<rparr> w)]
    \<and> snd (publish bytes_str channel (Bytes raw) event eid retry l) = snd (emit_local channel \<lparr>sse_data = Bytes raw,
       sse_event = event, sse_id = eid, sse_retry = retry, sse_comment = None\<rparr> l)
    \<and> payload_of dumps Some (Text (bytes_str raw)) = Inr (bytes_str raw) \<and> payload_of dumps Some (Bytes raw) = Inr raw"
proof -
  have key: "key = redis_key channel b" "body = envelope bytes_str (Bytes raw) event eid retry b" and c: "channel \<noteq> BROADCAST_CHANNEL"
    using assms(1) by (auto simp: publish_def reject_reserved_def split: if_splits prod.splits)
  show ?thesis
    using run_own_message [OF assms(2), of channel bytes_str "Bytes raw" event eid retry] c assms(3)
    by (simp add: redis_publish_def key data_of_def json_of_def publish_def reject_reserved_def case_prod_beta payload_of_def)
qed

lemma redis_mode_alters_bytes_witness:
  "let b = chat_worker ''app'';
       b' = hd (redis_publish (redis_key ''room'' b) (Some (envelope (\<lambda>s. ''b'' @ [CHR 39] @ s @ [CHR 39]) (Bytes ''hi'') None None None b)) [b])
   in map (\<lambda>i. map_option sse_data i) (es_queue (br_streams b' 0)) = [Some (Text (''b'' @ [CHR 39] @ ''hi'' @ [CHR 39]))]"
proof -
  let ?str = "\<lambda>s. ''b'' @ [CHR 39] @ s @ [CHR 39]"
  note defs = chat_worker_def register_stream_def new_broker_def reject_reserved_def BROADCAST_CHANNEL_def
  have "publish ?str ''room'' (Bytes ''hi'') None None None (chat_worker ''app'')
      = (Sent (redis_key ''room'' (chat_worker ''app'')) (envelope ?str (Bytes ''hi'') None None None (chat_worker ''app'')), chat_worker ''app'')"
    by (simp add: publish_def defs)
  moreover have "\<not> br_redis ((chat_worker ''app'')\<lparr>br_redis := False\<rparr>)" by simp
  ultimately have "redis_publish (redis_key ''room'' (chat_worker ''app'')) (Some (envelope ?str (Bytes ''hi'') None None None (chat_worker ''app''))) [chat_worker ''app'']
      = [snd (emit_local ''room'' \<lparr>sse_data = Text (?str ''hi''), sse_event = None, sse_id = None, sse_retry = None, sse_comment = None\<rparr> (chat_worker ''app''))]"
    by (rule conjunct1 [OF redis_mode_alters_bytes [OF _ refl]])
  then show ?thesis
    by (simp add: Let_def) (simp add: defs emit_local_def streams_of_def publish_event_def put_def new_stream_def Let_def)
qed

text \<open>
  The registry is well typed in every state: the channels of a broker are distinct and never
  the reserved one, each holds at least one stream and none twice, and unregistering what was just
  registered gives back the subscribers of every channel.
\<close>

theorem broker_registry_well_formed:
  assumes "broker_reach b" and "register_stream channel b = (Inr sid, b')"
  shows "distinct (map fst (br_channels b'))
    \<and> (\<forall>(channel, ids) \<in> set (br_channels b'). channel \<noteq> BROADCAST_CHANNEL \<and> ids \<noteq> [] \<and> distinct ids)
    \<and> streams_of channel b' = streams_of channel b @ [sid]
    \<and> (\<forall>c. streams_of c (unregister_stream channel sid b') = streams_of c b)
    \<and> local_subscribers channel b' = local_subscribers channel b + 1"
proof -
  have ok: "broker_ok b" and ok': "broker_ok b'"
    using broker_reach_ok [OF assms(1)] broker_reach_ok [OF broker_reach.registers [OF assms(1), of channel]] assms(2) by simp_all
  have b': "sid = br_next b" "br_channels b' = dict_set channel (streams_of channel b @ [sid]) (br_channels b)"
    using assms(2) by (auto simp: register_stream_def split: option.splits)
  have streams: "streams_of c b' = (if c = channel then streams_of channel b @ [sid] else streams_of c b)" for c
    by (simp add: streams_of_def b'(2) map_of_dict_set)
  have "\<forall>i \<in> set (streams_of channel b). i \<noteq> sid" using streams_of_ok(2) [OF ok] b'(1) by blast
  then have left: "filter (\<lambda>i. i \<noteq> sid) (streams_of channel b') = streams_of channel b"
    by (simp add: streams filter_id_conv)
  have "streams_of c (unregister_stream channel sid b') = streams_of c b" for c
    using left streams [of channel] by (auto simp: unregister_stream_def Let_def streams_of_update streams)
  then show ?thesis
    using ok' streams by (auto simp: broker_ok_def local_subscribers_def)
qed

lemma broker_registry_well_formed_witness:
  "let (r, b') = register_stream ''room'' (chat_worker ''app'')
   in r = Inr 1 \<and> streams_of ''room'' b' = [0, 1] \<and> streams_of ''room'' (unregister_stream ''room'' 1 b') = [0]"
proof -
  have "broker_reach (chat_worker ''app'')"
    unfolding chat_worker_def by (intro broker_reach.registers broker_reach.start)
  moreover have "fst (register_stream ''room'' (chat_worker ''app'')) = Inr 1" "streams_of ''room'' (chat_worker ''app'') = [0]"
    by (simp_all add: register_stream_def reject_reserved_def BROADCAST_CHANNEL_def chat_worker_def new_broker_def streams_of_def)
  ultimately show ?thesis
    using broker_registry_well_formed [of "chat_worker ''app''" "''room''" 1 "snd (register_stream ''room'' (chat_worker ''app''))"]
    by (simp add: case_prod_beta prod_eq_iff)
qed

end
