(* ===== verification/Polyline.thy ===== *)
theory Polyline
  imports Prelude
begin

unbundle bit_operations_syntax

text \<open>
  \<^verbatim>\<open>geo/polyline.py\<close>: the encoded polyline codec. A coordinate is a pair of exact reals in
  place of two floats; the text is a \<open>string\<close>, whose characters are read with \<^verbatim>\<open>ord\<close>. The bit
  operations are those of Python's unbounded integers. Decoding can fail in two ways: the index
  runs past the end of the text (\<^verbatim>\<open>IndexError\<close>), or a decoded pair is refused by the bounds of
  \<^verbatim>\<open>Coordinate\<close> (a validation error).

  Shown here: the chunks of one integer decode to it whatever follows them, the whole codec is
  a round trip up to the grid of its precision, and the decoder always ends.
\<close>

subsection \<open>Coordinates\<close>

record Coordinate =
  latitude :: real
  longitude :: real

datatype polyline_error = IndexError | ValidationError

text \<open>The bounds of \<^verbatim>\<open>LatitudeField\<close> and \<^verbatim>\<open>LongitudeField\<close>, checked when a \<^verbatim>\<open>Coordinate\<close> is built.\<close>

definition coordinate_ok :: "real \<Rightarrow> real \<Rightarrow> bool" where
  "coordinate_ok lat lon \<longleftrightarrow> -90 \<le> lat \<and> lat \<le> 90 \<and> -180 \<le> lon \<and> lon \<le> 180"

definition mk_coordinate :: "real \<Rightarrow> real \<Rightarrow> polyline_error + Coordinate" where
  "mk_coordinate lat lon =
     (if coordinate_ok lat lon then Inr \<lparr>latitude = lat, longitude = lon\<rparr> else Inl ValidationError)"

text \<open>Python's \<^verbatim>\<open>round\<close>: to the nearest integer, halves to the even one.\<close>

definition py_round :: "real \<Rightarrow> int" where
  "py_round x =
     (let f = \<lfloor>x\<rfloor>; d = x - of_int f
      in if d < 1/2 then f else if 1/2 < d then f + 1 else if even f then f else f + 1)"

subsection \<open>Encoding\<close>

function encode_chunks :: "int \<Rightarrow> string" where
  "encode_chunks v =
     (if 32 \<le> v
      then char_of (((32 OR (v AND 31)) + 63) :: int) # encode_chunks (drop_bit 5 v)
      else [char_of (v + 63)])"
  by pat_completeness auto
termination
  by (relation "measure nat") (auto simp: drop_bit_eq_div)

declare encode_chunks.simps [simp del]

definition encode_signed :: "int \<Rightarrow> string" where
  "encode_signed value =
     (let v = push_bit 1 value; v = (if v < 0 then NOT v else v) in encode_chunks v)"

fun encode_points :: "real \<Rightarrow> int \<Rightarrow> int \<Rightarrow> Coordinate list \<Rightarrow> string" where
  "encode_points factor prev_lat prev_lon [] = []"
| "encode_points factor prev_lat prev_lon (point # points) =
     (let lat = py_round (latitude point * factor); lon = py_round (longitude point * factor)
      in encode_signed (lat - prev_lat) @ encode_signed (lon - prev_lon)
         @ encode_points factor lat lon points)"

definition encode_polyline :: "Coordinate list \<Rightarrow> nat \<Rightarrow> string" where
  "encode_polyline points precision = encode_points (10 ^ precision) 0 0 points"

subsection \<open>Decoding\<close>

text \<open>The inner loop: the chunks of one integer, and the text after them.\<close>

fun read_chunks :: "nat \<Rightarrow> int \<Rightarrow> string \<Rightarrow> polyline_error + (int \<times> string)" where
  "read_chunks shift result [] = Inl IndexError"
| "read_chunks shift result (c # cs) =
     (let byte = of_char c - 63 :: int;
          result' = result OR push_bit shift (byte AND 31)
      in if byte < 32 then Inr (result', cs) else read_chunks (shift + 5) result' cs)"

definition read_delta :: "string \<Rightarrow> polyline_error + (int \<times> string)" where
  "read_delta cs =
     (case read_chunks 0 0 cs of
        Inl e \<Rightarrow> Inl e
      | Inr (result, rest) \<Rightarrow>
          Inr (if result AND 1 \<noteq> 0 then NOT (drop_bit 1 result) else drop_bit 1 result, rest))"

lemma read_chunks_shorter: "read_chunks sh r cs = Inr (v, rest) \<Longrightarrow> length rest < length cs"
  by (induction sh r cs rule: read_chunks.induct) (force simp: Let_def split: if_splits)+

lemma read_delta_shorter: "read_delta cs = Inr (v, rest) \<Longrightarrow> length rest < length cs"
  by (auto simp: read_delta_def split: sum.splits dest: read_chunks_shorter)

function decode_points :: "real \<Rightarrow> int \<Rightarrow> int \<Rightarrow> string \<Rightarrow> polyline_error + Coordinate list" where
  "decode_points factor lat lon encoded =
     (if encoded = [] then Inr []
      else (case read_delta encoded of
              Inl e \<Rightarrow> Inl e
            | Inr (dlat, rest) \<Rightarrow>
                (case read_delta rest of
                   Inl e \<Rightarrow> Inl e
                 | Inr (dlon, rest') \<Rightarrow>
                     (case mk_coordinate (of_int (lat + dlat) / factor) (of_int (lon + dlon) / factor) of
                        Inl e \<Rightarrow> Inl e
                      | Inr point \<Rightarrow>
                          (case decode_points factor (lat + dlat) (lon + dlon) rest' of
                             Inl e \<Rightarrow> Inl e
                           | Inr points \<Rightarrow> Inr (point # points))))))"
  by pat_completeness auto
termination
  by (relation "measure (\<lambda>(_, _, _, cs). length cs)")
     (auto dest!: read_delta_shorter)

declare decode_points.simps [simp del]

definition decode_polyline :: "string \<Rightarrow> nat \<Rightarrow> polyline_error + Coordinate list" where
  "decode_polyline encoded precision = decode_points (10 ^ precision) 0 0 encoded"

subsection \<open>One integer\<close>

lemma low_bits: "(v :: int) AND 31 = v mod 32"
  using take_bit_eq_mask [of 5 v] by (simp add: take_bit_eq_mod mask_eq_exp_minus_1)

lemma or_above: "take_bit k x = x \<Longrightarrow> push_bit k 1 OR x = push_bit k 1 + (x :: int)"
  by (rule disjunctive_add [symmetric]) (metis bit_push_bit_iff bit_take_bit_iff not_less)

lemma high_bit: "0 \<le> x \<Longrightarrow> x < 32 \<Longrightarrow> 32 OR (x :: int) = x + 32"
  using or_above [of 5 x] by (simp add: take_bit_int_eq_self)

lemma chunk_byte:
  fixes v :: int
  shows "of_char (char_of ((32 OR (v AND 31)) + 63) :: char) - (63 :: int) = v mod 32 + 32"
proof -
  have "32 OR (v AND 31) = v mod 32 + 32"
    by (simp add: low_bits high_bit)
  then show ?thesis by (simp add: of_char_of)
qed

lemma last_byte: "0 \<le> v \<Longrightarrow> v < 32 \<Longrightarrow> of_char (char_of (v + 63) :: char) - (63 :: int) = v"
  by (simp add: of_char_of)

lemma split_low: "((v :: int) mod 32) OR push_bit 5 (drop_bit 5 v) = v"
proof -
  have "take_bit 5 v OR push_bit 5 (drop_bit 5 v) = v"
  proof (rule bit_eqI)
    show "bit (take_bit 5 v OR push_bit 5 (drop_bit 5 v)) n = bit v n" for n
      by (cases "n < 5") (auto simp: bit_simps)
  qed
  then show ?thesis by (simp add: take_bit_eq_mod)
qed

lemma read_more:
  "read_chunks sh r (char_of ((32 OR (v AND 31)) + 63) # cs)
     = read_chunks (sh + 5) (r OR push_bit sh (v mod 32)) cs"
proof -
  have "\<not> v mod 32 + 32 < 32" and "(v mod 32 + 32) AND 31 = v mod 32" by (simp_all add: low_bits not_less)
  then show ?thesis by (simp only: read_chunks.simps Let_def chunk_byte if_False)
qed

lemma read_last:
  "0 \<le> v \<Longrightarrow> v < 32 \<Longrightarrow> read_chunks sh r (char_of (v + 63) # cs) = Inr (r OR push_bit sh v, cs)"
  by (simp only: read_chunks.simps Let_def last_byte) (simp add: low_bits)

lemma read_encoded_chunks:
  "0 \<le> v \<Longrightarrow> read_chunks sh r (encode_chunks v @ rest) = Inr (r OR push_bit sh v, rest)"
proof (induction v arbitrary: sh r rule: encode_chunks.induct)
  case (1 v)
  show ?case
  proof (cases "32 \<le> v")
    case True
    have "push_bit sh (v mod 32) OR push_bit (sh + 5) (drop_bit 5 v)
        = push_bit sh (v mod 32 OR push_bit 5 (drop_bit 5 v))"
      by (simp only: push_bit_or push_bit_push_bit)
    moreover have "read_chunks (sh + 5) (r OR push_bit sh (v mod 32)) (encode_chunks (drop_bit 5 v) @ rest)
        = Inr ((r OR push_bit sh (v mod 32)) OR push_bit (sh + 5) (drop_bit 5 v), rest)"
      using True 1 by simp
    ultimately show ?thesis
      using True by (simp only: encode_chunks.simps [of v] if_True append_Cons read_more split_low or.assoc)
  next
    case False
    then have "encode_chunks v = [char_of (v + 63)]" by (subst encode_chunks.simps) simp
    moreover have "0 \<le> v" and "v < 32" using False 1 by simp_all
    ultimately show ?thesis by (simp only: append_Cons append_Nil read_last)
  qed
qed

lemma zigzag_neg: "d < 0 \<Longrightarrow> (NOT (push_bit 1 d)) AND 1 \<noteq> (0 :: int) \<and> NOT (drop_bit 1 (NOT (push_bit 1 d))) = d"
  by (simp add: not_int_def push_bit_eq_mult drop_bit_eq_div and_one_eq) presburger

lemma zigzag_nonneg: "(push_bit 1 d) AND 1 = (0 :: int) \<and> drop_bit 1 (push_bit 1 d) = d"
  by (simp add: push_bit_eq_mult drop_bit_eq_div and_one_eq)

lemma read_delta_chunks:
  "0 \<le> u \<Longrightarrow> read_delta (encode_chunks u @ rest)
     = Inr (if u AND 1 \<noteq> 0 then NOT (drop_bit 1 u) else drop_bit 1 u, rest)"
  by (simp only: read_delta_def read_encoded_chunks push_bit_0_id id_apply or.left_neutral
        sum.case prod.case)

lemma read_encoded_delta: "read_delta (encode_signed d @ rest) = Inr (d, rest)"
proof (cases "d < 0")
  case True
  then have "push_bit 1 d < 0" and "0 \<le> NOT (push_bit 1 d)" by simp_all
  then have "read_delta (encode_signed d @ rest) = read_delta (encode_chunks (NOT (push_bit 1 d)) @ rest)"
    by (simp only: encode_signed_def Let_def if_True)
  also have "\<dots> = Inr (d, rest)"
    using \<open>0 \<le> NOT (push_bit 1 d)\<close> zigzag_neg [OF True] by (simp add: read_delta_chunks)
  finally show ?thesis .
next
  case False
  then have "\<not> push_bit 1 d < 0" and "0 \<le> push_bit 1 d" by simp_all
  then have "read_delta (encode_signed d @ rest) = read_delta (encode_chunks (push_bit 1 d) @ rest)"
    by (simp only: encode_signed_def Let_def if_False)
  also have "\<dots> = Inr (d, rest)"
    using \<open>0 \<le> push_bit 1 d\<close> zigzag_nonneg [of d]
    by (simp only: read_delta_chunks not_False_eq_True if_False simp_thms)
  finally show ?thesis .
qed

subsection \<open>Rounding to the grid\<close>

definition snap :: "nat \<Rightarrow> real \<Rightarrow> real" where
  "snap precision x = of_int (py_round (x * 10 ^ precision)) / 10 ^ precision"

lemma py_round_near: "\<bar>of_int (py_round x) - x\<bar> \<le> 1/2"
  unfolding py_round_def Let_def by (auto split: if_splits)

lemma py_round_floor: "\<lfloor>x\<rfloor> \<le> py_round x \<and> py_round x \<le> \<lfloor>x\<rfloor> + 1"
  unfolding py_round_def Let_def by (auto split: if_splits)

lemma py_round_int [simp]: "py_round (of_int n) = n"
  by (simp add: py_round_def)

lemma py_round_ge: "of_int n \<le> x \<Longrightarrow> n \<le> py_round x"
  using py_round_floor [of x] by (simp flip: le_floor_iff)

lemma py_round_le:
  assumes "x \<le> of_int n"
  shows "py_round x \<le> n"
proof (cases "\<lfloor>x\<rfloor> < n")
  case True
  then show ?thesis using py_round_floor [of x] by simp
next
  case False
  then have "x = of_int n" using assms by (simp add: le_floor_iff not_less)
  then show ?thesis by simp
qed

lemma snap_near: "\<bar>snap p x - x\<bar> \<le> 1 / (2 * 10 ^ p)"
proof -
  have "snap p x - x = (of_int (py_round (x * 10 ^ p)) - x * 10 ^ p) / 10 ^ p"
    by (simp add: snap_def diff_divide_distrib)
  then have "\<bar>snap p x - x\<bar> = \<bar>of_int (py_round (x * 10 ^ p)) - x * 10 ^ p\<bar> / 10 ^ p"
    by (simp add: abs_divide)
  also have "\<dots> \<le> (1/2) / 10 ^ p"
    by (intro divide_right_mono py_round_near) simp
  finally show ?thesis by simp
qed

lemma snap_bounds:
  assumes "of_int (- b) \<le> x" and "x \<le> of_int b"
  shows "of_int (- b) \<le> snap p x \<and> snap p x \<le> of_int b"
proof -
  have "of_int (- b * 10 ^ p) \<le> x * 10 ^ p" and "x * 10 ^ p \<le> of_int (b * 10 ^ p)"
    using assms mult_right_mono [of "of_int (- b)" x "10 ^ p"] mult_right_mono [of x "of_int b" "10 ^ p"]
    by simp_all
  then have "- b * 10 ^ p \<le> py_round (x * 10 ^ p)" and "py_round (x * 10 ^ p) \<le> b * 10 ^ p"
    by (blast intro: py_round_ge py_round_le)+
  then have "of_int (- b * 10 ^ p) \<le> (of_int (py_round (x * 10 ^ p)) :: real)"
    and "(of_int (py_round (x * 10 ^ p)) :: real) \<le> of_int (b * 10 ^ p)"
    by (simp_all only: of_int_le_iff)
  then show ?thesis by (simp add: snap_def field_simps)
qed

subsection \<open>The round trip\<close>

definition snap_point :: "nat \<Rightarrow> Coordinate \<Rightarrow> Coordinate" where
  "snap_point precision c =
     \<lparr>latitude = snap precision (latitude c), longitude = snap precision (longitude c)\<rparr>"

definition in_bounds :: "Coordinate \<Rightarrow> bool" where
  "in_bounds c = coordinate_ok (latitude c) (longitude c)"

lemma mk_coordinate_snap:
  assumes "in_bounds c"
  shows "mk_coordinate (snap p (latitude c)) (snap p (longitude c)) = Inr (snap_point p c)"
  using assms snap_bounds [of 90 "latitude c" p] snap_bounds [of 180 "longitude c" p]
  by (simp add: in_bounds_def coordinate_ok_def mk_coordinate_def snap_point_def)

lemma decode_encoded_point:
  assumes "in_bounds c"
  shows "decode_points (10 ^ p) lat lon
           (encode_signed (py_round (latitude c * 10 ^ p) - lat)
              @ encode_signed (py_round (longitude c * 10 ^ p) - lon) @ rest)
       = (case decode_points (10 ^ p) (py_round (latitude c * 10 ^ p)) (py_round (longitude c * 10 ^ p)) rest of
            Inl e \<Rightarrow> Inl e
          | Inr points \<Rightarrow> Inr (snap_point p c # points))"
proof -
  have nonempty: "encode_signed d @ cs \<noteq> []" for d cs
    using read_encoded_delta [of d cs] by (auto simp: read_delta_def)
  have "decode_points (10 ^ p) lat lon
           (encode_signed (py_round (latitude c * 10 ^ p) - lat)
              @ encode_signed (py_round (longitude c * 10 ^ p) - lon) @ rest)
      = (case mk_coordinate (snap p (latitude c)) (snap p (longitude c)) of
           Inl e \<Rightarrow> Inl e
         | Inr point \<Rightarrow>
             (case decode_points (10 ^ p) (py_round (latitude c * 10 ^ p)) (py_round (longitude c * 10 ^ p)) rest of
                Inl e \<Rightarrow> Inl e
              | Inr points \<Rightarrow> Inr (point # points)))"
    by (subst decode_points.simps)
       (simp only: nonempty if_False read_encoded_delta sum.case prod.case add_diff_cancel_left'
          diff_add_cancel add_diff_eq diff_add_eq snap_def add.commute add_diff_cancel)
  then show ?thesis by (simp only: mk_coordinate_snap [OF assms] sum.case)
qed

lemma decode_encode_points:
  "list_all in_bounds points \<Longrightarrow>
     decode_points (10 ^ p) lat lon (encode_points (10 ^ p) lat lon points) = Inr (map (snap_point p) points)"
proof (induction points arbitrary: lat lon)
  case Nil
  then show ?case by (simp add: decode_points.simps)
next
  case (Cons c points)
  then show ?case by (simp add: Let_def decode_encoded_point)
qed

lemma snap_grid: "x * 10 ^ p = of_int n \<Longrightarrow> snap p x = x"
  by (simp add: snap_def field_simps)

text \<open>
  The codec is a round trip. Decoding what was encoded from valid coordinates never fails and
  returns every point in order, moved to the grid of the precision: at most half a unit of the
  last digit away in each component, and not at all when the component is already on the grid.
\<close>

theorem polyline_roundtrip:
  assumes "list_all in_bounds points"
  shows "decode_polyline (encode_polyline points precision) precision = Inr (map (snap_point precision) points)
     \<and> list_all (\<lambda>c. \<bar>latitude (snap_point precision c) - latitude c\<bar> \<le> 1 / (2 * 10 ^ precision)
                    \<and> \<bar>longitude (snap_point precision c) - longitude c\<bar> \<le> 1 / (2 * 10 ^ precision)) points
     \<and> (list_all (\<lambda>c. latitude c * 10 ^ precision \<in> \<int> \<and> longitude c * 10 ^ precision \<in> \<int>) points
          \<longrightarrow> decode_polyline (encode_polyline points precision) precision = Inr points)"
proof (intro conjI impI)
  show round: "decode_polyline (encode_polyline points precision) precision
      = Inr (map (snap_point precision) points)"
    using assms by (simp add: decode_polyline_def encode_polyline_def decode_encode_points)
  show "list_all (\<lambda>c. \<bar>latitude (snap_point precision c) - latitude c\<bar> \<le> 1 / (2 * 10 ^ precision)
                    \<and> \<bar>longitude (snap_point precision c) - longitude c\<bar> \<le> 1 / (2 * 10 ^ precision)) points"
    by (simp add: list_all_iff snap_point_def snap_near)
  assume grid: "list_all (\<lambda>c. latitude c * 10 ^ precision \<in> \<int> \<and> longitude c * 10 ^ precision \<in> \<int>) points"
  have "snap_point precision c = c" if "c \<in> set points" for c
    using grid that by (cases c) (auto simp: list_all_iff snap_point_def elim!: Ints_cases dest!: snap_grid)
  then have "map (snap_point precision) points = points" by (simp add: map_idI)
  with round show "decode_polyline (encode_polyline points precision) precision = Inr points" by simp
qed

definition sample_path :: "Coordinate list" where
  "sample_path = [\<lparr>latitude = 77/2, longitude = - 1202/10\<rparr>, \<lparr>latitude = 407/10, longitude = - 12095/100\<rparr>]"

theorem polyline_roundtrip_witness:
  "list_all in_bounds sample_path \<and> encode_polyline sample_path 5 = ''_p~iF~ps|U_ulLnnqC''
     \<and> decode_polyline (encode_polyline sample_path 5) 5 = Inr sample_path"
proof -
  have "list_all in_bounds sample_path"
    by (simp add: sample_path_def in_bounds_def coordinate_ok_def)
  moreover have "list_all (\<lambda>c. latitude c * 10 ^ 5 \<in> \<int> \<and> longitude c * 10 ^ 5 \<in> \<int>) sample_path"
    by (simp add: sample_path_def)
  moreover have "encode_polyline sample_path 5 = ''_p~iF~ps|U_ulLnnqC''"
    by code_simp
  ultimately show ?thesis using polyline_roundtrip [of sample_path 5] by blast
qed

subsection \<open>Damaged text\<close>

lemma read_chunks_truncated:
  "0 \<le> v \<Longrightarrow> read_chunks sh r (butlast (encode_chunks v)) = Inl IndexError"
proof (induction v arbitrary: sh r rule: encode_chunks.induct)
  case (1 v)
  have cons: "encode_chunks w \<noteq> []" for w by (subst encode_chunks.simps) simp
  show ?case
  proof (cases "32 \<le> v")
    case True
    with 1 cons show ?thesis
      by (simp only: encode_chunks.simps [of v] if_True butlast.simps if_False read_more)
         (simp add: drop_bit_eq_div pos_imp_zdiv_nonneg_iff)
  next
    case False
    then show ?thesis by (subst encode_chunks.simps) simp
  qed
qed

lemma encode_chunks_nonempty [simp]: "encode_chunks v \<noteq> []"
  by (subst encode_chunks.simps) simp

lemma encode_signed_nonempty [simp]: "encode_signed d \<noteq> []"
  by (simp add: encode_signed_def Let_def)

lemma read_delta_truncated: "read_delta (butlast (encode_signed d)) = Inl IndexError"
proof -
  have "0 \<le> (if push_bit 1 d < 0 then NOT (push_bit 1 d) else push_bit 1 d)" by simp
  from read_chunks_truncated [OF this] show ?thesis
    by (simp only: read_delta_def encode_signed_def Let_def sum.case)
qed

lemma decode_truncated_points:
  "list_all in_bounds points \<Longrightarrow> points \<noteq> [] \<Longrightarrow>
     decode_points (10 ^ p) lat lon (butlast (encode_points (10 ^ p) lat lon points)) = Inl IndexError"
proof (induction points arbitrary: lat lon)
  case Nil
  then show ?case by simp
next
  case (Cons c points)
  let ?lat = "py_round (latitude c * 10 ^ p)" and ?lon = "py_round (longitude c * 10 ^ p)"
  show ?case
  proof (cases points)
    case Nil
    have "read_delta (encode_signed (?lat - lat) @ butlast (encode_signed (?lon - lon)))
        = Inr (?lat - lat, butlast (encode_signed (?lon - lon)))"
      by (rule read_encoded_delta)
    with Nil show ?thesis
      by (simp add: Let_def butlast_append read_delta_truncated decode_points.simps)
  next
    case (Cons c' rest)
    then have "encode_points (10 ^ p) ?lat ?lon points \<noteq> []" by (simp add: Let_def)
    with Cons.prems Cons.IH [of ?lat ?lon] Cons show ?thesis
      by (simp add: Let_def butlast_append decode_encoded_point)
  qed
qed

text \<open>
  A polyline that lost its last character is noticed: decoding it raises an index error, and
  it never yields a shorter or a different path.
\<close>

theorem truncated_polyline_rejected:
  assumes "list_all in_bounds points" and "points \<noteq> []"
  shows "decode_polyline (butlast (encode_polyline points precision)) precision = Inl IndexError"
  using assms by (simp add: decode_polyline_def encode_polyline_def decode_truncated_points)

theorem truncated_polyline_rejected_witness:
  "decode_polyline ''_p~iF~ps|U_ulLnnq'' 5 = Inl IndexError"
proof -
  have "list_all in_bounds sample_path" and "sample_path \<noteq> []"
    by (simp_all add: sample_path_def in_bounds_def coordinate_ok_def)
  moreover have "butlast (encode_polyline sample_path 5) = ''_p~iF~ps|U_ulLnnq''"
    by code_simp
  ultimately show ?thesis using truncated_polyline_rejected [of sample_path 5] by simp
qed

end
