(* ===== verification/Token_Types.thy ===== *)
theory Token_Types
  imports Py_Text
begin

text \<open>
  The signed tokens of the library and the dependencies that read them: \<^verbatim>\<open>utils/token_types.py\<close>,
  \<^verbatim>\<open>utils/jwt.py\<close>, \<^verbatim>\<open>api/dependencies/auth.py\<close> and the issuing half of \<^verbatim>\<open>auth/service.py\<close>. One secret
  signs the access token, the refresh token and the token between the two steps of a login; the
  theorems say that none of them passes for another and that a refresh never adds a factor.

  PyJWT is an argument (\<open>pyjwt\<close>): how it writes claims, and how it reads a token at a time.
  \<open>pyjwt_contract\<close> is what its documentation promises of a token it wrote itself. The type \<open>'t\<close> is
  that of the serialized token. The text of a \<^verbatim>\<open>UUID\<close> and its parser are arguments too.
\<close>

subsection \<open>Claims\<close>

datatype jwt_claim = CNull | CBool bool | CNum int | CStr string | CArr "jwt_claim list" | CObj "(string \<times> jwt_claim) list"

type_synonym payload = "(string \<times> jwt_claim) list"

text \<open>\<^verbatim>\<open>payload.get(name)\<close>: an absent claim and a null one are both \<^verbatim>\<open>None\<close>.\<close>

definition get_claim :: "payload \<Rightarrow> string \<Rightarrow> jwt_claim" where
  "get_claim p name = (case map_of p name of None \<Rightarrow> CNull | Some c \<Rightarrow> c)"

fun claim_str :: "jwt_claim \<Rightarrow> string option" where
  "claim_str (CStr s) = Some s"
| "claim_str _ = None"

abbreviation ACCESS_TOKEN_TYPE :: string where "ACCESS_TOKEN_TYPE \<equiv> ''access''"
abbreviation REFRESH_TOKEN_TYPE :: string where "REFRESH_TOKEN_TYPE \<equiv> ''refresh''"
abbreviation MFA_TOKEN_TYPE :: string where "MFA_TOKEN_TYPE \<equiv> ''mfa''"
abbreviation PASSWORD_AMR :: "string list" where "PASSWORD_AMR \<equiv> [''pwd'']"
abbreviation MFA_AMR :: "string list" where "MFA_AMR \<equiv> [''pwd'', ''otp'']"
abbreviation MFA_AMR_METHODS :: "string list" where "MFA_AMR_METHODS \<equiv> [''otp'']"

fun first_str :: "payload \<Rightarrow> string list \<Rightarrow> string option" where
  "first_str p [] = None"
| "first_str p (claim # rest) = (case claim_str (get_claim p claim) of Some s \<Rightarrow> Some s | None \<Rightarrow> first_str p rest)"

definition token_type_allowed :: "payload \<Rightarrow> string list \<Rightarrow> bool \<Rightarrow> string list \<Rightarrow> bool" where
  "token_type_allowed p accepted strict legacy_claims =
     (let declared = (case claim_str (get_claim p ''typ'') of
                        Some s \<Rightarrow> Some s
                      | None \<Rightarrow> first_str p legacy_claims)
      in case declared of
           Some s \<Rightarrow> s \<in> set accepted
         | None \<Rightarrow>
             if get_claim p ''refresh'' = CBool True then REFRESH_TOKEN_TYPE \<in> set accepted
             else let purpose = get_claim p ''purpose''
                  in if purpose = CStr ''mfa_pending'' then MFA_TOKEN_TYPE \<in> set accepted
                     else if purpose \<noteq> CNull
                          then (case claim_str purpose of Some s \<Rightarrow> s \<in> set accepted | None \<Rightarrow> False)
                          else \<not> strict)"

fun all_strs :: "jwt_claim list \<Rightarrow> string list option" where
  "all_strs [] = Some []"
| "all_strs (c # cs) =
     (case claim_str c of None \<Rightarrow> None | Some s \<Rightarrow> map_option ((#) s) (all_strs cs))"

definition token_amr :: "payload \<Rightarrow> string list option" where
  "token_amr p = (case get_claim p ''amr'' of CArr cs \<Rightarrow> all_strs cs | _ \<Rightarrow> None)"

lemma all_strs_CStr [simp]: "all_strs (map CStr ms) = Some ms"
  by (induction ms) auto

subsection \<open>\<^verbatim>\<open>JWTUtils\<close>\<close>

datatype pyjwt_error = ExpiredSignatureError | OtherInvalidTokenError

text \<open>\<open>pj_decode\<close> is given the issuer to demand, the time and the token.\<close>

record 't pyjwt =
  pj_encode :: "payload \<Rightarrow> 't"
  pj_decode :: "string option \<Rightarrow> real \<Rightarrow> 't \<Rightarrow> pyjwt_error + payload"

record JWTUtils =
  ju_default_ttl :: real
  ju_issuer :: "string option"

datatype auth_error =
    Unauthorized
  | InvalidToken
  | ExpiredToken
  | NotFound
  | Forbidden
  | MFARequired

text \<open>\<^verbatim>\<open>int(x)\<close> of a float drops the fraction.\<close>

definition py_trunc :: "real \<Rightarrow> int" where
  "py_trunc x = (if 0 \<le> x then \<lfloor>x\<rfloor> else \<lceil>x\<rceil>)"

text \<open>\<^verbatim>\<open>ttl or self.default_ttl\<close>: a zero lifetime is falsy.\<close>

definition ttl_or :: "real option \<Rightarrow> real \<Rightarrow> real" where
  "ttl_or ttl dflt = (case ttl of None \<Rightarrow> dflt | Some d \<Rightarrow> if d = 0 then dflt else d)"

definition jwt_claims :: "JWTUtils \<Rightarrow> real option \<Rightarrow> real \<Rightarrow> payload \<Rightarrow> payload" where
  "jwt_claims J ttl now p =
     (let claims = dict_set ''exp'' (CNum (py_trunc (now + ttl_or ttl (ju_default_ttl J))))
                     (dict_set ''iat'' (CNum (py_trunc now)) p)
      in case ju_issuer J of
           None \<Rightarrow> claims
         | Some issuer \<Rightarrow> if map_of claims ''iss'' = None then dict_set ''iss'' (CStr issuer) claims else claims)"

definition jwt_encode :: "'t pyjwt \<Rightarrow> JWTUtils \<Rightarrow> real option \<Rightarrow> real \<Rightarrow> payload \<Rightarrow> 't" where
  "jwt_encode P J ttl now p = pj_encode P (jwt_claims J ttl now p)"

definition jwt_decode :: "'t pyjwt \<Rightarrow> JWTUtils \<Rightarrow> real \<Rightarrow> 't \<Rightarrow> auth_error + payload" where
  "jwt_decode P J now token =
     (case pj_decode P (ju_issuer J) now token of
        Inl ExpiredSignatureError \<Rightarrow> Inl ExpiredToken
      | Inl OtherInvalidTokenError \<Rightarrow> Inl InvalidToken
      | Inr p \<Rightarrow> Inr p)"

definition jwt_decode_or_none :: "'t pyjwt \<Rightarrow> JWTUtils \<Rightarrow> real \<Rightarrow> 't \<Rightarrow> payload option" where
  "jwt_decode_or_none P J now token = (case jwt_decode P J now token of Inl _ \<Rightarrow> None | Inr p \<Rightarrow> Some p)"

text \<open>
  The promise of PyJWT for a token written with the same key: inside its lifetime the claims come
  back, from \<^verbatim>\<open>exp\<close> on the token is expired. It holds of claims whose registered names are those
  the library writes; a text subject, no \<^verbatim>\<open>nbf\<close>, \<^verbatim>\<open>aud\<close> or \<^verbatim>\<open>jti\<close>, the issuer that is demanded.
\<close>

definition plain_claims :: "string option \<Rightarrow> payload \<Rightarrow> bool" where
  "plain_claims issuer p \<longleftrightarrow>
     distinct (map fst p) \<and> claim_str (get_claim p ''sub'') \<noteq> None \<and>
     map_of p ''nbf'' = None \<and> map_of p ''aud'' = None \<and> map_of p ''jti'' = None \<and>
     (\<forall>i. issuer = Some i \<longrightarrow> map_of p ''iss'' = Some (CStr i))"

definition pyjwt_contract :: "'t pyjwt \<Rightarrow> bool" where
  "pyjwt_contract P \<longleftrightarrow>
     (\<forall>issuer p now issued until. plain_claims issuer p \<longrightarrow>
        map_of p ''iat'' = Some (CNum issued) \<longrightarrow> map_of p ''exp'' = Some (CNum until) \<longrightarrow>
        of_int issued \<le> now \<longrightarrow>
        pj_decode P issuer now (pj_encode P p) =
          (if now < of_int until then Inr p else Inl ExpiredSignatureError))"

subsection \<open>Issuing\<close>

record BaseUserModel =
  us_id :: uuid
  us_email :: string
  us_is_active :: bool
  us_hashed_password :: string
  us_totp_secret :: "string option"
  us_totp_enabled_at :: "micros option"
  us_totp_last_step :: "int option"
  us_email_verified_at :: "micros option"
  us_last_login_at :: "micros option"

text \<open>What the service reads of itself and of its settings when it signs tokens.\<close>

record 't token_service =
  sv_pyjwt :: "'t pyjwt"
  sv_jwt :: JWTUtils
  sv_access_ttl :: int
  sv_refresh_ttl :: int
  sv_mfa_ttl :: int
  sv_uuid_str :: "uuid \<Rightarrow> string"
  sv_uuid_parse :: "string \<Rightarrow> uuid option"

definition amr_claim :: "string list \<Rightarrow> jwt_claim" where
  "amr_claim amr = CArr (map CStr amr)"

definition access_claims :: "'t token_service \<Rightarrow> BaseUserModel \<Rightarrow> string list option \<Rightarrow> payload" where
  "access_claims S user amr =
     [(''sub'', CStr (sv_uuid_str S (us_id user))), (''email'', CStr (us_email user)),
      (''typ'', CStr ACCESS_TOKEN_TYPE)] @
     (case amr of None \<Rightarrow> [] | Some methods \<Rightarrow> [(''amr'', amr_claim methods)])"

definition encode_access :: "'t token_service \<Rightarrow> real \<Rightarrow> BaseUserModel \<Rightarrow> string list option \<Rightarrow> 't" where
  "encode_access S now user amr =
     jwt_encode (sv_pyjwt S) (sv_jwt S) (Some (of_int (sv_access_ttl S))) now (access_claims S user amr)"

definition refresh_claims :: "'t token_service \<Rightarrow> BaseUserModel \<Rightarrow> string list option \<Rightarrow> payload" where
  "refresh_claims S user amr =
     [(''sub'', CStr (sv_uuid_str S (us_id user))), (''refresh'', CBool True),
      (''typ'', CStr REFRESH_TOKEN_TYPE)] @
     (case amr of None \<Rightarrow> [] | Some methods \<Rightarrow> [(''amr'', amr_claim methods)])"

definition encode_refresh :: "'t token_service \<Rightarrow> real \<Rightarrow> BaseUserModel \<Rightarrow> string list option \<Rightarrow> 't" where
  "encode_refresh S now user amr =
     jwt_encode (sv_pyjwt S) (sv_jwt S) (Some (of_int (sv_refresh_ttl S))) now (refresh_claims S user amr)"

definition issue_jwt_pair :: "'t token_service \<Rightarrow> real \<Rightarrow> BaseUserModel \<Rightarrow> string list option \<Rightarrow> 't \<times> 't" where
  "issue_jwt_pair S now user amr = (encode_access S now user amr, encode_refresh S now user amr)"

text \<open>\<^verbatim>\<open>if amr\<close>: an empty list of methods is omitted from the token between the steps.\<close>

definition mfa_claims :: "'t token_service \<Rightarrow> BaseUserModel \<Rightarrow> string list option \<Rightarrow> payload" where
  "mfa_claims S user amr =
     [(''sub'', CStr (sv_uuid_str S (us_id user))), (''purpose'', CStr ''mfa_pending''),
      (''typ'', CStr MFA_TOKEN_TYPE)] @
     (case amr of None \<Rightarrow> [] | Some methods \<Rightarrow> if methods = [] then [] else [(''amr'', amr_claim methods)])"

definition issue_mfa_token :: "'t token_service \<Rightarrow> real \<Rightarrow> BaseUserModel \<Rightarrow> string list option \<Rightarrow> 't" where
  "issue_mfa_token S now user amr =
     jwt_encode (sv_pyjwt S) (sv_jwt S) (Some (of_int (sv_mfa_ttl S))) now (mfa_claims S user amr)"

text \<open>\<^verbatim>\<open>token_amr(...) or PASSWORD_AMR\<close>: no methods and unknown methods both count as a password.\<close>

definition second_factor_amr :: "'t token_service \<Rightarrow> real \<Rightarrow> 't \<Rightarrow> auth_error + string list" where
  "second_factor_amr S now mfa_token =
     (case jwt_decode (sv_pyjwt S) (sv_jwt S) now mfa_token of
        Inl e \<Rightarrow> Inl e
      | Inr p \<Rightarrow>
          (let first = (case token_amr p of
                          None \<Rightarrow> PASSWORD_AMR
                        | Some methods \<Rightarrow> if methods = [] then PASSWORD_AMR else methods)
           in Inr (filter (\<lambda>method. method \<noteq> ''otp'') first @ [''otp''])))"

subsection \<open>Resolving the subject\<close>

text \<open>\<^verbatim>\<open>UUID(str(subject))\<close>; the text of a list, an object, a boolean or a null is no UUID.\<close>

definition subject_uuid :: "'t token_service \<Rightarrow> jwt_claim \<Rightarrow> uuid option" where
  "subject_uuid S subject =
     (case subject of
        CStr s \<Rightarrow> sv_uuid_parse S s
      | CNum i \<Rightarrow> sv_uuid_parse S (int_str i)
      | _ \<Rightarrow> None)"

definition get_user ::
  "'t token_service \<Rightarrow> (uuid \<Rightarrow> BaseUserModel option) \<Rightarrow> jwt_claim \<Rightarrow> auth_error + BaseUserModel" where
  "get_user S users subject =
     (case subject_uuid S subject of
        None \<Rightarrow> Inl NotFound
      | Some user_id \<Rightarrow> (case users user_id of None \<Rightarrow> Inl NotFound | Some user \<Rightarrow> Inr user))"

definition require_active :: "BaseUserModel \<Rightarrow> auth_error + BaseUserModel" where
  "require_active user = (if us_is_active user then Inr user else Inl Forbidden)"

fun claim_falsy :: "jwt_claim \<Rightarrow> bool" where
  "claim_falsy CNull = True"
| "claim_falsy (CBool b) = (\<not> b)"
| "claim_falsy (CNum i) = (i = 0)"
| "claim_falsy (CStr s) = (s = [])"
| "claim_falsy (CArr cs) = (cs = [])"
| "claim_falsy (CObj kvs) = (kvs = [])"

text \<open>\<^verbatim>\<open>refresh_tokens\<close> without a refresh table: the refresh token is a signed one.\<close>

definition refresh_stateless ::
  "'t token_service \<Rightarrow> (uuid \<Rightarrow> BaseUserModel option) \<Rightarrow> real \<Rightarrow> 't \<Rightarrow> auth_error + BaseUserModel \<times> 't \<times> 't" where
  "refresh_stateless S users now token =
     (case jwt_decode (sv_pyjwt S) (sv_jwt S) now token of
        Inl e \<Rightarrow> Inl e
      | Inr claims \<Rightarrow>
          if \<not> (get_claim claims ''refresh'' = CBool True \<or> get_claim claims ''typ'' = CStr REFRESH_TOKEN_TYPE)
          then Inl InvalidToken
          else if claim_falsy (get_claim claims ''sub'') then Inl InvalidToken
          else (case get_user S users (get_claim claims ''sub'') of
                  Inl e \<Rightarrow> Inl e
                | Inr user \<Rightarrow>
                    (case require_active user of
                       Inl e \<Rightarrow> Inl e
                     | Inr user \<Rightarrow> Inr (user, issue_jwt_pair S now user (token_amr claims)))))"

subsection \<open>The dependencies\<close>

text \<open>The credentials are what \<^verbatim>\<open>HTTPBearer(auto_error=False)\<close> reads of the header.\<close>

record 't bearer_request =
  br_credentials :: "'t option"
  br_cookies :: "string \<Rightarrow> 't option"
  br_query_params :: "string \<Rightarrow> 't option"

record bearer_config =
  bc_soft :: bool
  bc_cookie_name :: "string option"
  bc_query_param :: "string option"
  bc_accepted_typ :: "string list"
  bc_strict :: bool
  bc_legacy_claims :: "string list"

definition default_bearer :: bearer_config where
  "default_bearer = \<lparr>bc_soft = False, bc_cookie_name = None, bc_query_param = None,
     bc_accepted_typ = [ACCESS_TOKEN_TYPE], bc_strict = False, bc_legacy_claims = []\<rparr>"

definition raw_token :: "bearer_config \<Rightarrow> 't bearer_request \<Rightarrow> 't option" where
  "raw_token C req =
     (case br_credentials req of
        Some token \<Rightarrow> Some token
      | None \<Rightarrow>
          (case Option.bind (bc_cookie_name C) (br_cookies req) of
             Some token \<Rightarrow> Some token
           | None \<Rightarrow> Option.bind (bc_query_param C) (br_query_params req)))"

definition decode_bearer ::
  "'t pyjwt \<Rightarrow> JWTUtils \<Rightarrow> bearer_config \<Rightarrow> real \<Rightarrow> 't bearer_request \<Rightarrow> auth_error + payload option" where
  "decode_bearer P J C now req =
     (case raw_token C req of
        None \<Rightarrow> if bc_soft C then Inr None else Inl Unauthorized
      | Some token \<Rightarrow>
          if bc_soft C
          then (case jwt_decode_or_none P J now token of
                  None \<Rightarrow> Inr None
                | Some p \<Rightarrow> if token_type_allowed p (bc_accepted_typ C) (bc_strict C) (bc_legacy_claims C)
                            then Inr (Some p) else Inr None)
          else (case jwt_decode P J now token of
                  Inl e \<Rightarrow> Inl e
                | Inr p \<Rightarrow> if token_type_allowed p (bc_accepted_typ C) (bc_strict C) (bc_legacy_claims C)
                           then Inr (Some p) else Inl Unauthorized))"

text \<open>\<^verbatim>\<open>make_mfa_required_dependency\<close>; \<open>methods\<close> count as a second factor.\<close>

definition require_mfa ::
  "'t pyjwt \<Rightarrow> JWTUtils \<Rightarrow> bearer_config \<Rightarrow> string list \<Rightarrow> real \<Rightarrow> 't bearer_request \<Rightarrow> auth_error + payload" where
  "require_mfa P J C methods now req =
     (case decode_bearer P J
             (C\<lparr>bc_soft := False, bc_query_param := None, bc_accepted_typ := [ACCESS_TOKEN_TYPE]\<rparr>) now req of
        Inl e \<Rightarrow> Inl e
      | Inr None \<Rightarrow> Inl Unauthorized
      | Inr (Some p) \<Rightarrow>
          (case token_amr p of
             None \<Rightarrow> Inl MFARequired
           | Some amr \<Rightarrow> if set methods \<inter> set amr = {} then Inl MFARequired else Inr p))"

text \<open>
  \<^verbatim>\<open>make_role_dependency\<close> and, with another claim and default, \<^verbatim>\<open>make_permission_dependency\<close>. \<open>text_of\<close>
  is \<^verbatim>\<open>str\<close> of a value that is not text; an object iterates over its keys.
\<close>

definition held_roles :: "(jwt_claim \<Rightarrow> string) \<Rightarrow> jwt_claim option \<Rightarrow> string list" where
  "held_roles text_of raw =
     (case raw of
        None \<Rightarrow> []
      | Some (CStr s) \<Rightarrow> [s]
      | Some (CArr cs) \<Rightarrow> map (\<lambda>c. case claim_str c of Some s \<Rightarrow> s | None \<Rightarrow> text_of c) cs
      | Some (CObj kvs) \<Rightarrow> map fst kvs
      | Some _ \<Rightarrow> [])"

definition roles_ok :: "bool \<Rightarrow> string list \<Rightarrow> string list \<Rightarrow> bool" where
  "roles_ok require_all required held =
     (if require_all then set required \<subseteq> set held else set required \<inter> set held \<noteq> {})"

definition require_roles ::
  "'t pyjwt \<Rightarrow> JWTUtils \<Rightarrow> (jwt_claim \<Rightarrow> string) \<Rightarrow> string list \<Rightarrow> string \<Rightarrow> bool \<Rightarrow> real \<Rightarrow> 't bearer_request
     \<Rightarrow> auth_error + unit" where
  "require_roles P J text_of required roles_claim require_all now req =
     (case decode_bearer P J default_bearer now req of
        Inl e \<Rightarrow> Inl e
      | Inr None \<Rightarrow> Inl Unauthorized
      | Inr (Some p) \<Rightarrow>
          if roles_ok require_all required (held_roles text_of (map_of p roles_claim))
          then Inr () else Inl Forbidden)"

definition require_permissions ::
  "'t pyjwt \<Rightarrow> JWTUtils \<Rightarrow> (jwt_claim \<Rightarrow> string) \<Rightarrow> string list \<Rightarrow> string \<Rightarrow> bool \<Rightarrow> real \<Rightarrow> 't bearer_request
     \<Rightarrow> auth_error + unit" where
  "require_permissions P J text_of required permissions_claim require_all =
     require_roles P J text_of required permissions_claim require_all"

text \<open>\<^verbatim>\<open>make_jwt_user_dependency\<close>: the loader may raise, or decline a subject with \<^verbatim>\<open>None\<close>.\<close>

definition jwt_user ::
  "'t pyjwt \<Rightarrow> JWTUtils \<Rightarrow> bearer_config \<Rightarrow> string \<Rightarrow> (jwt_claim \<Rightarrow> auth_error + 'u option) \<Rightarrow> real \<Rightarrow>
     't bearer_request \<Rightarrow> auth_error + 'u option" where
  "jwt_user P J C subject_claim user_loader now req =
     (case decode_bearer P J C now req of
        Inl e \<Rightarrow> Inl e
      | Inr None \<Rightarrow> Inr None
      | Inr (Some p) \<Rightarrow>
          (let subject = get_claim p subject_claim
           in if subject = CNull then (if bc_soft C then Inr None else Inl Unauthorized)
              else (case user_loader subject of
                      Inl e \<Rightarrow> Inl e
                    | Inr user \<Rightarrow> if user = None \<and> \<not> bc_soft C then Inl Unauthorized else Inr user)))"

definition load_token_user ::
  "'t token_service \<Rightarrow> (uuid \<Rightarrow> BaseUserModel option) \<Rightarrow> jwt_claim \<Rightarrow> auth_error + BaseUserModel option" where
  "load_token_user S users subject =
     (case get_user S users subject of
        Inl NotFound \<Rightarrow> Inr None
      | Inl e \<Rightarrow> Inl e
      | Inr user \<Rightarrow> Inr (Some user))"

definition load_active_user ::
  "'t token_service \<Rightarrow> (uuid \<Rightarrow> BaseUserModel option) \<Rightarrow> bool \<Rightarrow> jwt_claim \<Rightarrow> auth_error + BaseUserModel option" where
  "load_active_user S users soft subject =
     (case load_token_user S users subject of
        Inl e \<Rightarrow> Inl e
      | Inr None \<Rightarrow> Inr None
      | Inr (Some user) \<Rightarrow>
          if us_is_active user then Inr (Some user)
          else if soft then Inr None
          else (case require_active user of Inl e \<Rightarrow> Inl e | Inr u \<Rightarrow> Inr (Some u)))"

text \<open>
  \<^verbatim>\<open>current_user_dependency\<close>: the cookie is the one given or the configured one (\<open>access_cookie\<close>,
  \<^verbatim>\<open>None\<close> under a bearer-only delivery); only access tokens are accepted.
\<close>

definition current_user ::
  "'t token_service \<Rightarrow> (uuid \<Rightarrow> BaseUserModel option) \<Rightarrow> string option \<Rightarrow> bool \<Rightarrow> bearer_config \<Rightarrow> real \<Rightarrow>
     't bearer_request \<Rightarrow> auth_error + BaseUserModel option" where
  "current_user S users access_cookie active C now req =
     (let cookie = (case bc_cookie_name C of Some name \<Rightarrow> Some name | None \<Rightarrow> access_cookie)
      in jwt_user (sv_pyjwt S) (sv_jwt S)
           (C\<lparr>bc_cookie_name := cookie, bc_accepted_typ := [ACCESS_TOKEN_TYPE]\<rparr>) ''sub''
           (if active then load_active_user S users (bc_soft C) else load_token_user S users) now req)"

definition access_cookie_name :: "string \<Rightarrow> string \<Rightarrow> string option" where
  "access_cookie_name delivery cookie_name =
     (if delivery \<in> {''cookie'', ''both''} then Some cookie_name else None)"

subsection \<open>The shared-secret header\<close>

definition refuse_empty_secret :: "string \<Rightarrow> bool \<Rightarrow> bool" where
  "refuse_empty_secret secret allow_unauthenticated \<longleftrightarrow> strip secret = [] \<and> \<not> allow_unauthenticated"

text \<open>
  \<^verbatim>\<open>make_token_dependency\<close>: \<open>None\<close> is the \<^verbatim>\<open>ValueError\<close> at import. The dependency answers with the
  \<^verbatim>\<open>Cache-Control\<close> value it sets, if any, before it raises or returns.
\<close>

definition token_dependency :: "string \<Rightarrow> bool \<Rightarrow> (string \<Rightarrow> string option \<times> (auth_error + unit)) option" where
  "token_dependency secret allow_unauthenticated =
     (if refuse_empty_secret secret allow_unauthenticated then None
      else Some (\<lambda>token.
        if secret = [] then (None, Inr ())
        else (Some ''no-store'', if token = secret then Inr () else Inl Unauthorized)))"

definition require_x_token :: "string \<Rightarrow> string \<Rightarrow> bool \<Rightarrow> (auth_error + unit) option" where
  "require_x_token secret token allow_unauthenticated =
     (if refuse_empty_secret secret allow_unauthenticated then None
      else Some (if secret = [] then Inr ()
                 else if token = secret then Inr () else Inl Unauthorized))"

subsection \<open>What a token says when it is read\<close>

text \<open>A token is live until the whole second its lifetime ends in.\<close>

definition token_live :: "'t token_service \<Rightarrow> int \<Rightarrow> real \<Rightarrow> real \<Rightarrow> bool" where
  "token_live S ttl issued now \<longleftrightarrow>
     now < of_int (py_trunc (issued + ttl_or (Some (of_int ttl)) (ju_default_ttl (sv_jwt S))))"

lemma jwt_claims_get:
  "map_of (jwt_claims J ttl now p) name =
     (if name = ''exp'' then Some (CNum (py_trunc (now + ttl_or ttl (ju_default_ttl J))))
      else if name = ''iat'' then Some (CNum (py_trunc now))
      else if name = ''iss'' \<and> map_of p ''iss'' = None then map_option CStr (ju_issuer J)
      else map_of p name)"
  by (auto simp: jwt_claims_def map_of_dict_set Let_def split: option.splits)

lemma jwt_claims_distinct: "distinct (map fst p) \<Longrightarrow> distinct (map fst (jwt_claims J ttl now p))"
  by (auto simp: jwt_claims_def Let_def intro!: distinct_dict_set split: option.splits)

lemma get_claim_jwt_claims:
  "name \<notin> {''exp'', ''iat'', ''iss''} \<Longrightarrow> get_claim (jwt_claims J ttl now p) name = get_claim p name"
  by (auto simp: get_claim_def jwt_claims_get)

lemma issued_token_reads_back:
  assumes P: "pyjwt_contract P" and "distinct (map fst p)" and "claim_str (get_claim p ''sub'') \<noteq> None"
    and "\<forall>name \<in> {''nbf'', ''aud'', ''jti'', ''iss''}. map_of p name = None"
    and "0 \<le> issued" and "issued \<le> now"
  shows "jwt_decode P J now (jwt_encode P J ttl issued p) =
    (if now < of_int (py_trunc (issued + ttl_or ttl (ju_default_ttl J)))
     then Inr (jwt_claims J ttl issued p) else Inl ExpiredToken)"
proof -
  let ?c = "jwt_claims J ttl issued p"
  have "plain_claims (ju_issuer J) ?c"
    using assms by (auto simp: plain_claims_def jwt_claims_get jwt_claims_distinct get_claim_jwt_claims)
  moreover have "of_int (py_trunc issued) \<le> now"
    using assms by (auto simp: py_trunc_def intro: order_trans [OF of_int_floor_le])
  ultimately have "pj_decode P (ju_issuer J) now (pj_encode P ?c) =
      (if now < of_int (py_trunc (issued + ttl_or ttl (ju_default_ttl J))) then Inr ?c else Inl ExpiredSignatureError)"
    using P [unfolded pyjwt_contract_def] by (simp add: jwt_claims_get)
  then show ?thesis by (simp add: jwt_decode_def jwt_encode_def)
qed

definition issued_payload :: "'t token_service \<Rightarrow> int \<Rightarrow> real \<Rightarrow> payload \<Rightarrow> payload" where
  "issued_payload S ttl issued = jwt_claims (sv_jwt S) (Some (of_int ttl)) issued"

lemma decode_issued:
  assumes "pyjwt_contract (sv_pyjwt S)" and "0 \<le> issued" and "issued \<le> now"
  shows "jwt_decode (sv_pyjwt S) (sv_jwt S) now (encode_access S issued user amr) =
      (if token_live S (sv_access_ttl S) issued now
       then Inr (issued_payload S (sv_access_ttl S) issued (access_claims S user amr)) else Inl ExpiredToken)"
    and "jwt_decode (sv_pyjwt S) (sv_jwt S) now (encode_refresh S issued user amr) =
      (if token_live S (sv_refresh_ttl S) issued now
       then Inr (issued_payload S (sv_refresh_ttl S) issued (refresh_claims S user amr)) else Inl ExpiredToken)"
    and "jwt_decode (sv_pyjwt S) (sv_jwt S) now (issue_mfa_token S issued user amr) =
      (if token_live S (sv_mfa_ttl S) issued now
       then Inr (issued_payload S (sv_mfa_ttl S) issued (mfa_claims S user amr)) else Inl ExpiredToken)"
  unfolding encode_access_def encode_refresh_def issue_mfa_token_def token_live_def issued_payload_def
  using assms
  by (auto intro!: issued_token_reads_back [THEN trans]
      simp: access_claims_def refresh_claims_def mfa_claims_def get_claim_def split: option.splits)

lemma get_issued_payload [simp]:
  "name \<notin> {''exp'', ''iat'', ''iss''} \<Longrightarrow> get_claim (issued_payload S ttl issued p) name = get_claim p name"
  by (simp add: issued_payload_def get_claim_jwt_claims)

lemma claims_simps [simp]:
  "get_claim (access_claims S user amr) ''typ'' = CStr ''access''"
  "get_claim (refresh_claims S user amr) ''typ'' = CStr ''refresh''"
  "get_claim (mfa_claims S user amr) ''typ'' = CStr ''mfa''"
  "get_claim (access_claims S user amr) ''refresh'' = CNull"
  "get_claim (mfa_claims S user amr) ''refresh'' = CNull"
  "get_claim (refresh_claims S user amr) ''refresh'' = CBool True"
  "get_claim (access_claims S user amr) ''purpose'' = CNull"
  "get_claim (refresh_claims S user amr) ''purpose'' = CNull"
  "get_claim (mfa_claims S user amr) ''purpose'' = CStr ''mfa_pending''"
  "get_claim (access_claims S user amr) ''sub'' = CStr (sv_uuid_str S (us_id user))"
  "get_claim (refresh_claims S user amr) ''sub'' = CStr (sv_uuid_str S (us_id user))"
  "get_claim (mfa_claims S user amr) ''sub'' = CStr (sv_uuid_str S (us_id user))"
  by (auto simp: access_claims_def refresh_claims_def mfa_claims_def get_claim_def split: option.splits)

lemma token_amr_claims:
  "token_amr (issued_payload S ttl issued (access_claims S user amr)) = amr"
  "token_amr (issued_payload S ttl issued (refresh_claims S user amr)) = amr"
  "token_amr (issued_payload S ttl issued (mfa_claims S user amr)) = (if amr = Some [] then None else amr)"
  by (auto simp: token_amr_def amr_claim_def access_claims_def refresh_claims_def mfa_claims_def
      split: option.splits) (auto simp: get_claim_def)

lemmas gate_defs =
  decode_bearer_def raw_token_def default_bearer_def token_type_allowed_def
  jwt_user_def current_user_def load_active_user_def load_token_user_def get_user_def subject_uuid_def
  require_active_def

subsection \<open>No token passes for another\<close>

definition bearing :: "'t \<Rightarrow> 't bearer_request" where
  "bearing token = \<lparr>br_credentials = Some token, br_cookies = (\<lambda>_. None), br_query_params = (\<lambda>_. None)\<rparr>"


lemma decode_bearer_issued:
  assumes "pyjwt_contract (sv_pyjwt S)" and "0 \<le> issued" and "issued \<le> now"
  shows "decode_bearer (sv_pyjwt S) (sv_jwt S) default_bearer now (bearing (encode_access S issued user amr)) =
      (if token_live S (sv_access_ttl S) issued now
       then Inr (Some (issued_payload S (sv_access_ttl S) issued (access_claims S user amr))) else Inl ExpiredToken)"
    and "decode_bearer (sv_pyjwt S) (sv_jwt S) default_bearer now (bearing (encode_refresh S issued user amr)) =
      Inl (if token_live S (sv_refresh_ttl S) issued now then Unauthorized else ExpiredToken)"
    and "decode_bearer (sv_pyjwt S) (sv_jwt S) default_bearer now (bearing (issue_mfa_token S issued user amr)) =
      Inl (if token_live S (sv_mfa_ttl S) issued now then Unauthorized else ExpiredToken)"
  using decode_issued [OF assms] by (simp_all add: bearing_def gate_defs)


definition demo_pyjwt :: "payload pyjwt" where
  "demo_pyjwt = \<lparr>pj_encode = id, pj_decode = (\<lambda>issuer now token.
     case (map_of token ''iat'', map_of token ''exp'') of
       (Some (CNum issued), Some (CNum until)) \<Rightarrow>
         if now < of_int issued \<or> issuer \<noteq> None \<and> map_of token ''iss'' \<noteq> map_option CStr issuer
         then Inl OtherInvalidTokenError
         else if now < of_int until then Inr token else Inl ExpiredSignatureError
     | _ \<Rightarrow> Inl OtherInvalidTokenError)\<rparr>"

lemma demo_pyjwt_contract: "pyjwt_contract demo_pyjwt"
  by (auto simp: pyjwt_contract_def plain_claims_def demo_pyjwt_def)

definition demo_tokens :: "payload token_service" where
  "demo_tokens = \<lparr>sv_pyjwt = demo_pyjwt, sv_jwt = \<lparr>ju_default_ttl = 3600, ju_issuer = Some ''api''\<rparr>,
     sv_access_ttl = 900, sv_refresh_ttl = 86400, sv_mfa_ttl = 300,
     sv_uuid_str = nat_str, sv_uuid_parse = (\<lambda>s. map_option nat (py_int s))\<rparr>"

definition demo_user :: BaseUserModel where
  "demo_user = \<lparr>us_id = 7, us_email = ''a@b.c'', us_is_active = True, us_hashed_password = ''h'',
     us_totp_secret = None, us_totp_enabled_at = None, us_totp_last_step = None,
     us_email_verified_at = None, us_last_login_at = None\<rparr>"

lemma demo_uuid: "sv_uuid_parse demo_tokens (sv_uuid_str demo_tokens (us_id demo_user)) = Some (us_id demo_user)"
  by code_simp


subsection \<open>A refresh never adds a factor\<close>

text \<open>Exchanging the refresh token of the newest pair, again and again, as accounts change.\<close>

fun refresh_chain ::
  "'t token_service \<Rightarrow> BaseUserModel \<times> 't \<times> 't \<Rightarrow> (real \<times> (uuid \<Rightarrow> BaseUserModel option)) list \<Rightarrow>
     auth_error + BaseUserModel \<times> 't \<times> 't" where
  "refresh_chain S pair [] = Inr pair"
| "refresh_chain S pair ((now, users) # rest) =
     (case refresh_stateless S users now (snd (snd pair)) of
        Inl e \<Rightarrow> Inl e
      | Inr pair \<Rightarrow> refresh_chain S pair rest)"

lemma refresh_stateless_issued:
  assumes "pyjwt_contract (sv_pyjwt S)" and "0 \<le> issued" and "issued \<le> now"
    and "refresh_stateless S users now (encode_refresh S issued user amr) = Inr pair"
  shows "\<exists>u. pair = (u, issue_jwt_pair S now u amr) \<and> us_is_active u"
  using assms(4) decode_issued(2) [OF assms(1-3), of user amr]
  by (auto simp: refresh_stateless_def require_active_def token_amr_claims get_user_def
      split: if_splits sum.splits option.splits)

lemma refresh_chain_issued:
  assumes P: "pyjwt_contract (sv_pyjwt S)"
  shows "refresh_chain S (user, issue_jwt_pair S issued user amr) steps = Inr pair \<Longrightarrow> 0 \<le> issued \<Longrightarrow>
    sorted (issued # map fst steps) \<Longrightarrow>
    \<exists>u. pair = (u, issue_jwt_pair S (last (issued # map fst steps)) u amr)"
proof (induction steps arbitrary: user issued)
  case Nil
  then show ?case by auto
next
  case (Cons step steps)
  obtain now users where step: "step = (now, users)" by (cases step)
  from Cons.prems obtain p where p: "refresh_stateless S users now (encode_refresh S issued user amr) = Inr p"
      and rest: "refresh_chain S p steps = Inr pair"
    by (auto simp: step issue_jwt_pair_def split: sum.splits)
  from Cons.prems have times: "issued \<le> now" "0 \<le> now" "sorted (now # map fst steps)" by (auto simp: step)
  from refresh_stateless_issued [OF P _ times(1) p] Cons.prems(2)
  obtain u where "p = (u, issue_jwt_pair S now u amr)" by auto
  with rest Cons.IH [of u now] times show ?case by (auto simp: step)
qed

definition first_step :: "string list option \<Rightarrow> string list" where
  "first_step amr = (case amr of None \<Rightarrow> PASSWORD_AMR | Some ms \<Rightarrow> if ms = [] then PASSWORD_AMR else ms)"

lemma require_mfa_issued:
  assumes "pyjwt_contract (sv_pyjwt S)" and "0 \<le> issued" and "issued \<le> now"
    and "token_live S (sv_access_ttl S) issued now"
  shows "require_mfa (sv_pyjwt S) (sv_jwt S) default_bearer methods now (bearing (encode_access S issued user amr)) =
    (if \<exists>ms. amr = Some ms \<and> set methods \<inter> set ms \<noteq> {}
     then Inr (issued_payload S (sv_access_ttl S) issued (access_claims S user amr)) else Inl MFARequired)"
proof -
  have C: "default_bearer\<lparr>bc_soft := False, bc_query_param := None, bc_accepted_typ := [''access'']\<rparr> = default_bearer"
    by (simp add: default_bearer_def)
  show ?thesis
    using decode_bearer_issued(1) [OF assms(1-3), of user amr] assms(4)
    unfolding require_mfa_def C by (auto simp: token_amr_claims split: option.splits)
qed

text \<open>
  A session does not gain a second factor by refreshing. However often, and against whatever
  accounts, a pair is exchanged, the access token passes the second-factor gate exactly when the
  pair of the login did; the step that adds \<^verbatim>\<open>otp\<close> is the exchange of the token between the login
  steps, which keeps the methods of the first step and counts an unknown one as a password.
\<close>

theorem refresh_never_promotes:
  assumes "pyjwt_contract (sv_pyjwt S)" and "0 \<le> issued" and "sorted (issued # map fst steps)"
    and "refresh_chain S (user, issue_jwt_pair S issued user amr) steps = Inr pair"
    and "last (issued # map fst steps) \<le> now"
    and "token_live S (sv_access_ttl S) (last (issued # map fst steps)) now"
    and "issued \<le> verified" and "token_live S (sv_mfa_ttl S) issued verified"
  shows "(\<exists>p. require_mfa (sv_pyjwt S) (sv_jwt S) default_bearer methods now (bearing (fst (snd pair))) = Inr p) =
           (\<exists>ms. amr = Some ms \<and> set methods \<inter> set ms \<noteq> {}) \<and>
         second_factor_amr S verified (issue_mfa_token S issued user amr) =
           Inr (filter (\<lambda>m. m \<noteq> ''otp'') (first_step amr) @ [''otp''])"
proof -
  let ?t = "last (issued # map fst steps)"
  obtain u where "fst (snd pair) = encode_access S ?t u amr"
    using refresh_chain_issued [OF assms(1,4,2,3)] by (auto simp: issue_jwt_pair_def)
  moreover have "issued \<le> ?t" using assms(3) by (cases "map fst steps") auto
  ultimately show ?thesis
    using require_mfa_issued [OF assms(1) _ assms(5,6), of methods u amr] assms(2)
      decode_issued(3) [OF assms(1,2,7), of user amr] assms(8)
    by (auto simp: second_factor_amr_def first_step_def token_amr_claims split: option.splits)
qed

theorem refresh_never_promotes_witness:
  "\<exists>pair. refresh_chain demo_tokens (demo_user, issue_jwt_pair demo_tokens 1000 demo_user (Some PASSWORD_AMR))
       [(1500, \<lambda>_. Some demo_user), (2000, \<lambda>_. Some demo_user)] = Inr pair \<and>
     \<not> (\<exists>p. require_mfa (sv_pyjwt demo_tokens) (sv_jwt demo_tokens) default_bearer MFA_AMR_METHODS 2500
              (bearing (fst (snd pair))) = Inr p)"
proof -
  have P: "pyjwt_contract (sv_pyjwt demo_tokens)" by (simp add: demo_tokens_def demo_pyjwt_contract)
  let ?pair = "(demo_user, issue_jwt_pair demo_tokens 2000 demo_user (Some PASSWORD_AMR))"
  have live: "token_live demo_tokens (sv_refresh_ttl demo_tokens) 1000 1500"
    "token_live demo_tokens (sv_refresh_ttl demo_tokens) 1500 2000"
    "token_live demo_tokens (sv_access_ttl demo_tokens) 2000 2500"
    "token_live demo_tokens (sv_mfa_ttl demo_tokens) 1000 1200"
    by (simp_all add: token_live_def py_trunc_def ttl_or_def demo_tokens_def)
  have step: "refresh_stateless demo_tokens (\<lambda>_. Some demo_user) t (encode_refresh demo_tokens s demo_user (Some PASSWORD_AMR)) =
      Inr (demo_user, issue_jwt_pair demo_tokens t demo_user (Some PASSWORD_AMR))"
    if "0 \<le> s" "s \<le> t" "token_live demo_tokens (sv_refresh_ttl demo_tokens) s t" for s t
    using decode_issued(2) [OF P that(1,2), of demo_user "Some PASSWORD_AMR"] that(3) demo_uuid
    by (auto simp: refresh_stateless_def get_user_def subject_uuid_def require_active_def token_amr_claims
        demo_user_def) (simp_all add: demo_tokens_def)
  have chain: "refresh_chain demo_tokens (demo_user, issue_jwt_pair demo_tokens 1000 demo_user (Some PASSWORD_AMR))
      [(1500, \<lambda>_. Some demo_user), (2000, \<lambda>_. Some demo_user)] = Inr ?pair"
    by (simp add: issue_jwt_pair_def step live)
  from refresh_never_promotes [OF P _ _ chain, of 2500 1200 MFA_AMR_METHODS] live
  have "\<not> (\<exists>p. require_mfa (sv_pyjwt demo_tokens) (sv_jwt demo_tokens) default_bearer MFA_AMR_METHODS 2500
              (bearing (fst (snd ?pair))) = Inr p)"
    by (simp add: issue_jwt_pair_def)
  with chain show ?thesis by blast
qed

end
