(* ===== verification/Refresh_Tokens.thy ===== *)
theory Refresh_Tokens
  imports Token_Types Transaction
begin

text \<open>
  The opaque refresh tokens of \<^verbatim>\<open>auth/service.py\<close> over the table of
  \<^verbatim>\<open>db/user_refresh_token_model.py\<close>: issuing, the exchange that spends a token, the detection of a
  replay and the revocation of a family or of a user.

  First the calls one by one, on the session of \<open>Transaction\<close>. A call reads the clock several
  times; \<open>clock n\<close> is the \<open>n\<close>-th reading. The digest of a token is an argument, and so are the random
  values (\<open>plain\<close>, a new family). Then requests that run at once against one database, whose statements
  see what is committed when they start and wait for the rows another transaction has written: the
  relation \<open>refresh_reach\<close>.
\<close>

subsection \<open>The table\<close>

record refresh_row =
  rr_user_id :: uuid
  rr_token_hash :: string
  rr_family_id :: uuid
  rr_expires_at :: micros
  rr_used_at :: "micros option"
  rr_revoked_at :: "micros option"
  rr_amr :: "string option"

datatype refresh_error =
    InvalidTokenException string
  | UserError auth_error
  | IntegrityError

definition unspent :: "refresh_row \<Rightarrow> bool" where
  "unspent r \<longleftrightarrow> rr_used_at r = None \<and> rr_revoked_at r = None"

definition spendable :: "micros \<Rightarrow> refresh_row \<Rightarrow> bool" where
  "spendable now r \<longleftrightarrow> rr_used_at r = None \<and> rr_revoked_at r = None \<and> now < rr_expires_at r"

text \<open>\<^verbatim>\<open>" ".join(amr)\<close> and \<^verbatim>\<open>text.split()\<close>.\<close>

fun join_words :: "string list \<Rightarrow> string" where
  "join_words [] = []"
| "join_words [w] = w"
| "join_words (w # ws) = w @ CHR '' '' # join_words ws"

fun split_from :: "string \<Rightarrow> string \<Rightarrow> string list" where
  "split_from word [] = (if word = [] then [] else [word])"
| "split_from word (c # cs) =
     (if is_space c then (if word = [] then split_from [] cs else word # split_from [] cs)
      else split_from (word @ [c]) cs)"

definition split_words :: "string \<Rightarrow> string list" where
  "split_words s = split_from [] s"

text \<open>The methods are stored as one text; no methods are stored as \<^verbatim>\<open>NULL\<close>.\<close>

definition stored_amr :: "string list option \<Rightarrow> string option" where
  "stored_amr amr = (case amr of None \<Rightarrow> None | Some ms \<Rightarrow> if ms = [] then None else Some (join_words ms))"

definition loaded_amr :: "string option \<Rightarrow> string list option" where
  "loaded_amr amr = (case amr of None \<Rightarrow> None | Some s \<Rightarrow> if s = [] then None else Some (split_words s))"

subsection \<open>Issuing\<close>

definition new_refresh_row ::
  "uuid \<Rightarrow> string \<Rightarrow> uuid \<Rightarrow> int \<Rightarrow> string list option \<Rightarrow> micros \<Rightarrow> refresh_row" where
  "new_refresh_row user_id digest family_id ttl_seconds amr now =
     \<lparr>rr_user_id = user_id, rr_token_hash = digest, rr_family_id = family_id,
      rr_expires_at = now + ttl_seconds * 1000000, rr_used_at = None, rr_revoked_at = None,
      rr_amr = stored_amr amr\<rparr>"

text \<open>\<open>new_family\<close> is what \<^verbatim>\<open>uuid4()\<close> answers; the hash is a unique column, which the flush enforces.\<close>

definition issue_refresh_record ::
  "(string \<Rightarrow> string) \<Rightarrow> int \<Rightarrow> uuid \<Rightarrow> uuid option \<Rightarrow> string list option \<Rightarrow> string \<Rightarrow> uuid \<Rightarrow> micros \<Rightarrow>
     (refresh_row list session, refresh_error, string) action" where
  "issue_refresh_record digest ttl_seconds user_id family_id amr plain new_family now s =
     (let family = (case family_id of Some f \<Rightarrow> f | None \<Rightarrow> new_family);
          row = new_refresh_row user_id (digest plain) family ttl_seconds amr now
      in if digest plain \<in> rr_token_hash ` set (sess_working s) then (Inl IntegrityError, s)
         else (Inr plain, s\<lparr>sess_working := sess_working s @ [row]\<rparr>))"

subsection \<open>Revoking\<close>

definition revoke_where :: "(refresh_row \<Rightarrow> bool) \<Rightarrow> micros \<Rightarrow> refresh_row list \<Rightarrow> refresh_row list" where
  "revoke_where P now rows =
     map (\<lambda>r. if P r \<and> rr_revoked_at r = None then r\<lparr>rr_revoked_at := Some now\<rparr> else r) rows"

definition revoke_family :: "uuid \<Rightarrow> micros \<Rightarrow> refresh_row list \<Rightarrow> refresh_row list" where
  "revoke_family family_id now rows = revoke_where (\<lambda>r. rr_family_id r = family_id) now rows"

text \<open>The rows of a user that this call revokes are counted.\<close>

definition revoke_user_refresh_tokens :: "uuid \<Rightarrow> micros \<Rightarrow> refresh_row list \<Rightarrow> nat \<times> refresh_row list" where
  "revoke_user_refresh_tokens user_id now rows =
     (length (filter (\<lambda>r. rr_user_id r = user_id \<and> rr_revoked_at r = None) rows),
      revoke_where (\<lambda>r. rr_user_id r = user_id) now rows)"

definition revoke_reused_family ::
  "uuid \<Rightarrow> micros \<Rightarrow> refresh_row list session \<Rightarrow> refresh_row list session" where
  "revoke_reused_family family_id now s =
     (let s = session_rollback s
      in session_commit (s\<lparr>sess_working := revoke_family family_id now (sess_working s)\<rparr>))"

text \<open>\<^verbatim>\<open>revoke_refresh_token\<close> (logout); without a table it does nothing.\<close>

definition revoke_refresh_token ::
  "(string \<Rightarrow> string) \<Rightarrow> bool \<Rightarrow> bool \<Rightarrow> string \<Rightarrow> micros \<Rightarrow> refresh_row list session \<Rightarrow> refresh_row list session" where
  "revoke_refresh_token digest has_model all_sessions token now s =
     (if \<not> has_model then s
      else case find (\<lambda>r. rr_token_hash r = digest token) (sess_working s) of
             None \<Rightarrow> s
           | Some r \<Rightarrow>
               if all_sessions
               then s\<lparr>sess_working := snd (revoke_user_refresh_tokens (rr_user_id r) now (sess_working s))\<rparr>
               else s\<lparr>sess_working := revoke_family (rr_family_id r) now (sess_working s)\<rparr>)"

text \<open>
  \<^verbatim>\<open>revoke_user_sessions\<close>: the rows of the table, then every registered revoker in turn, each over
  its own store (\<open>'o\<close>) with the number it ended.
\<close>

definition revoke_user_sessions ::
  "bool \<Rightarrow> (uuid \<Rightarrow> 'o \<Rightarrow> nat \<times> 'o) list \<Rightarrow> uuid \<Rightarrow> micros \<Rightarrow> refresh_row list \<Rightarrow> 'o \<Rightarrow> nat \<times> refresh_row list \<times> 'o" where
  "revoke_user_sessions has_model revokers user_id now rows others =
     (let (n, rows) = (if has_model then revoke_user_refresh_tokens user_id now rows else (0, rows));
          (m, others) = fold (\<lambda>revoker (m, others). let (k, others) = revoker user_id others in (m + k, others))
                          revokers (0, others)
      in (n + m, rows, others))"

subsection \<open>Spending\<close>

definition lookup_refresh_record ::
  "(string \<Rightarrow> string) \<Rightarrow> (nat \<Rightarrow> micros) \<Rightarrow> string \<Rightarrow> (refresh_row list session, refresh_error, refresh_row) action" where
  "lookup_refresh_record digest clock token s =
     (case find (\<lambda>r. rr_token_hash r = digest token) (sess_working s) of
        None \<Rightarrow> (Inl (InvalidTokenException ''refresh token not recognized''), s)
      | Some r \<Rightarrow>
          if rr_revoked_at r \<noteq> None then (Inl (InvalidTokenException ''refresh token revoked''), s)
          else if rr_used_at r \<noteq> None
          then (Inl (InvalidTokenException ''refresh token reuse detected''),
                revoke_reused_family (rr_family_id r) (clock 2) s)
          else if rr_expires_at r < clock 1 then (Inl (InvalidTokenException ''refresh token expired''), s)
          else (Inr r, s))"

text \<open>The conditional \<^verbatim>\<open>UPDATE\<close>: the row it marks, if any, and the table after it.\<close>

definition spend_update :: "string \<Rightarrow> micros \<Rightarrow> refresh_row list \<Rightarrow> refresh_row option \<times> refresh_row list" where
  "spend_update h now rows =
     (map_option (\<lambda>r. r\<lparr>rr_used_at := Some now\<rparr>) (find (\<lambda>r. rr_token_hash r = h \<and> spendable now r) rows),
      map (\<lambda>r. if rr_token_hash r = h \<and> spendable now r then r\<lparr>rr_used_at := Some now\<rparr> else r) rows)"

definition spend_refresh_record ::
  "(string \<Rightarrow> string) \<Rightarrow> (nat \<Rightarrow> micros) \<Rightarrow> string \<Rightarrow> (refresh_row list session, refresh_error, refresh_row) action" where
  "spend_refresh_record digest clock token s =
     (case spend_update (digest token) (clock 0) (sess_working s) of
        (Some r, rows) \<Rightarrow> (Inr r, s\<lparr>sess_working := rows\<rparr>)
      | (None, _) \<Rightarrow>
          (case lookup_refresh_record digest clock token s of
             (Inl e, s) \<Rightarrow> (Inl e, s)
           | (Inr live, s) \<Rightarrow>
               (Inl (InvalidTokenException ''refresh token reuse detected''),
                revoke_reused_family (rr_family_id live) (clock 2) s)))"

text \<open>
  \<^verbatim>\<open>refresh_tokens\<close> with a table. \<open>present\<close> is the time the access token is signed at; a row of the
  account is asked by its id.
\<close>

definition refresh_tokens ::
  "'t token_service \<Rightarrow> (string \<Rightarrow> string) \<Rightarrow> (uuid \<Rightarrow> BaseUserModel option) \<Rightarrow> (nat \<Rightarrow> micros) \<Rightarrow> real \<Rightarrow>
     string \<Rightarrow> uuid \<Rightarrow> string \<Rightarrow> (refresh_row list session, refresh_error, BaseUserModel \<times> 't \<times> string) action" where
  "refresh_tokens S digest users clock present plain new_family token s =
     (case spend_refresh_record digest clock token s of
        (Inl e, s) \<Rightarrow> (Inl e, s)
      | (Inr record, s) \<Rightarrow>
          (case users (rr_user_id record) of
             None \<Rightarrow> (Inl (UserError NotFound), s)
           | Some user \<Rightarrow>
               (case require_active user of
                  Inl e \<Rightarrow> (Inl (UserError e), s)
                | Inr user \<Rightarrow>
                    (let amr = loaded_amr (rr_amr record)
                     in case issue_refresh_record digest (sv_refresh_ttl S) (us_id user)
                               (Some (rr_family_id record)) amr plain new_family (clock 3) s of
                          (Inl e, s) \<Rightarrow> (Inl e, s)
                        | (Inr refresh, s) \<Rightarrow> (Inr (user, encode_access S present user amr, refresh), s)))))"

text \<open>
  The route \<^verbatim>\<open>POST /refresh\<close> on a session of its own, which is committed when the service returns
  and closed, undoing what is not committed, when it raises. The answer and the table it leaves.
\<close>

definition fresh_session :: "'db \<Rightarrow> 'db session" where
  "fresh_session db = \<lparr>sess_depth = 0, sess_durable = db, sess_working = db\<rparr>"

definition refresh_route ::
  "'t token_service \<Rightarrow> (string \<Rightarrow> string) \<Rightarrow> (uuid \<Rightarrow> BaseUserModel option) \<Rightarrow> (nat \<Rightarrow> micros) \<Rightarrow> real \<Rightarrow>
     string \<Rightarrow> uuid \<Rightarrow> string \<Rightarrow> (refresh_row list, refresh_error, BaseUserModel \<times> 't \<times> string) action" where
  "refresh_route S digest users clock present plain new_family token rows =
     (case refresh_tokens S digest users clock present plain new_family token (fresh_session rows) of
        (Inl e, s) \<Rightarrow> (Inl e, sess_durable s)
      | (Inr pair, s) \<Rightarrow> (Inr pair, sess_durable (session_commit s)))"

definition logout_route ::
  "(string \<Rightarrow> string) \<Rightarrow> bool \<Rightarrow> bool \<Rightarrow> string \<Rightarrow> micros \<Rightarrow> refresh_row list \<Rightarrow> refresh_row list" where
  "logout_route digest has_model all_sessions token now rows =
     sess_durable (session_commit (revoke_refresh_token digest has_model all_sessions token now (fresh_session rows)))"

subsection \<open>The calls\<close>

lemma revoke_where_simps [simp]:
  "length (revoke_where P now rows) = length rows"
  "map rr_token_hash (revoke_where P now rows) = map rr_token_hash rows"
  "map rr_family_id (revoke_where P now rows) = map rr_family_id rows"
  by (induction rows) (auto simp: revoke_where_def)

lemma hash_revoke_where [simp]: "rr_token_hash ` set (revoke_where P now rows) = rr_token_hash ` set rows"
  by (metis list.set_map revoke_where_simps(2))

lemma unspent_revoke_where:
  "filter unspent (revoke_where P now rows) = filter (\<lambda>r. unspent r \<and> \<not> P r) rows"
  by (induction rows) (auto simp: revoke_where_def unspent_def)

lemma split_from_word:
  "\<forall>c \<in> set w. \<not> is_space c \<Longrightarrow> split_from acc (w @ rest) = split_from (acc @ w) rest"
  by (induction w arbitrary: acc) auto

lemma split_join_words:
  "\<forall>w \<in> set ws. w \<noteq> [] \<and> (\<forall>c \<in> set w. \<not> is_space c) \<Longrightarrow> split_words (join_words ws) = ws"
proof (induction ws rule: join_words.induct)
  case (2 w)
  then show ?case using split_from_word [of w "[]" "[]"] by (simp add: split_words_def)
next
  case (3 w v ws)
  have "is_space CHR '' ''" by (simp add: is_space_def)
  then show ?case
    using 3 split_from_word [of w "[]" "CHR '' '' # join_words (v # ws)"] by (simp add: split_words_def)
qed (simp add: split_words_def)

text \<open>The methods survive the table when none is empty or holds white space and there is one.\<close>

lemma stored_amr_round_trip:
  assumes "\<forall>w \<in> set ms. w \<noteq> [] \<and> (\<forall>c \<in> set w. \<not> is_space c)"
  shows "loaded_amr (stored_amr (Some ms)) = (if ms = [] then None else Some ms)"
proof -
  have "join_words ms \<noteq> []" if "ms \<noteq> []"
    using that assms by (cases ms rule: join_words.cases) auto
  then show ?thesis using split_join_words [OF assms] by (simp add: stored_amr_def loaded_amr_def)
qed

text \<open>Methods with white space in them come back as others: one method here reads as a second factor.\<close>

lemma stored_amr_splits_a_method: "loaded_amr (stored_amr (Some [''x otp''])) = Some [''x'', ''otp'']"
  by (simp add: stored_amr_def loaded_amr_def split_words_def is_space_def)

subsection \<open>One exchange\<close>

lemma find_unique:
  "distinct (map key rows) \<Longrightarrow>
   find (\<lambda>r. key r = k \<and> P r) rows =
     (case find (\<lambda>r. key r = k) rows of None \<Rightarrow> None | Some r \<Rightarrow> if P r then Some r else None)"
proof (induction rows)
  case (Cons r rows)
  have "find (\<lambda>r. key r = k \<and> P r) rows = None" if "key r = k"
    using Cons.prems that by (auto simp: find_None_iff) (metis image_eqI)
  with Cons show ?case by auto
qed simp

lemma spend_hashes [simp]: "rr_token_hash ` set (snd (spend_update h now rows)) = rr_token_hash ` set rows"
proof -
  have "map rr_token_hash (snd (spend_update h now rows)) = map rr_token_hash rows"
    by (simp add: spend_update_def)
  then show ?thesis by (metis list.set_map)
qed

lemma fresh_session_simps [simp]:
  "sess_durable (fresh_session db) = db" "sess_working (fresh_session db) = db"
  "session_commit (fresh_session db) = fresh_session db"
  by (simp_all add: fresh_session_def session_commit_def)

text \<open>What a presented row answers, and the table it leaves, written as one case distinction.\<close>

definition exchange_outcome ::
  "'t token_service \<Rightarrow> (string \<Rightarrow> string) \<Rightarrow> (uuid \<Rightarrow> BaseUserModel option) \<Rightarrow> (nat \<Rightarrow> micros) \<Rightarrow> real \<Rightarrow>
     string \<Rightarrow> refresh_row list \<Rightarrow> refresh_row option \<Rightarrow> (refresh_error + BaseUserModel \<times> 't \<times> string) \<times> refresh_row list" where
  "exchange_outcome S digest users clock present plain rows found =
     (case found of
        None \<Rightarrow> (Inl (InvalidTokenException ''refresh token not recognized''), rows)
      | Some r \<Rightarrow>
          if rr_revoked_at r \<noteq> None then (Inl (InvalidTokenException ''refresh token revoked''), rows)
          else if rr_used_at r \<noteq> None \<or> rr_expires_at r = clock 0 \<and> clock 1 = clock 0
          then (Inl (InvalidTokenException ''refresh token reuse detected''),
                revoke_family (rr_family_id r) (clock 2) rows)
          else if rr_expires_at r \<le> clock 0 then (Inl (InvalidTokenException ''refresh token expired''), rows)
          else (case users (rr_user_id r) of
                  None \<Rightarrow> (Inl (UserError NotFound), rows)
                | Some user \<Rightarrow>
                    if \<not> us_is_active user then (Inl (UserError Forbidden), rows)
                    else if digest plain \<in> rr_token_hash ` set rows then (Inl IntegrityError, rows)
                    else (Inr (user, encode_access S present user (loaded_amr (rr_amr r)), plain),
                          map (\<lambda>x. if rr_token_hash x = rr_token_hash r then x\<lparr>rr_used_at := Some (clock 0)\<rparr> else x) rows @
                          [new_refresh_row (us_id user) (digest plain) (rr_family_id r) (sv_refresh_ttl S)
                             (loaded_amr (rr_amr r)) (clock 3)])))"

lemma spend_refresh_record_eq:
  assumes "distinct (map rr_token_hash rows)" and "clock 0 \<le> clock 1"
  shows "spend_refresh_record digest clock token (fresh_session rows) =
    (case find (\<lambda>r. rr_token_hash r = digest token) rows of
       Some r \<Rightarrow>
         if spendable (clock 0) r
         then (Inr (r\<lparr>rr_used_at := Some (clock 0)\<rparr>), (fresh_session rows)\<lparr>sess_working := snd (spend_update (digest token) (clock 0) rows)\<rparr>)
         else if rr_revoked_at r \<noteq> None then (Inl (InvalidTokenException ''refresh token revoked''), fresh_session rows)
         else if rr_used_at r = None \<and> rr_expires_at r < clock 1
         then (Inl (InvalidTokenException ''refresh token expired''), fresh_session rows)
         else (Inl (InvalidTokenException ''refresh token reuse detected''),
               fresh_session (revoke_family (rr_family_id r) (clock 2) rows))
     | None \<Rightarrow> (Inl (InvalidTokenException ''refresh token not recognized''), fresh_session rows))"
proof (cases "find (\<lambda>r. rr_token_hash r = digest token) rows")
  case None
  then show ?thesis
    using find_unique [OF assms(1), of "digest token" "spendable (clock 0)"]
    by (simp add: spend_refresh_record_def spend_update_def lookup_refresh_record_def fresh_session_def)
next
  case (Some r)
  have "find (\<lambda>r. rr_token_hash r = digest token \<and> spendable (clock 0) r) rows = (if spendable (clock 0) r then Some r else None)"
    using find_unique [OF assms(1), of "digest token" "spendable (clock 0)"] Some by simp
  with Some assms(2) show ?thesis
    by (auto simp: spend_refresh_record_def spend_update_def lookup_refresh_record_def fresh_session_def
        spendable_def revoke_reused_family_def session_defs)
qed

lemma refresh_route_eq:
  assumes "distinct (map rr_token_hash rows)" and "clock 0 \<le> clock 1"
  shows "refresh_route S digest users clock present plain new_family token rows =
    exchange_outcome S digest users clock present plain rows (find (\<lambda>r. rr_token_hash r = digest token) rows)"
proof (cases "find (\<lambda>r. rr_token_hash r = digest token) rows")
  case None
  then show ?thesis
    by (simp add: refresh_route_def refresh_tokens_def spend_refresh_record_eq [OF assms] exchange_outcome_def)
next
  case (Some r)
  then have r: "r \<in> set rows" "rr_token_hash r = digest token" by (auto simp: find_Some_iff)
  have same: "rr_token_hash x = digest token \<longleftrightarrow> x = r" if "x \<in> set rows" for x
    using assms(1) r that by (auto simp: distinct_map inj_on_def)
  have marked: "snd (spend_update (digest token) (clock 0) rows) =
      map (\<lambda>x. if rr_token_hash x = rr_token_hash r then x\<lparr>rr_used_at := Some (clock 0)\<rparr> else x) rows"
    if "spendable (clock 0) r"
    using that same by (auto simp: spend_update_def r(2))
  show ?thesis
  proof (cases "spendable (clock 0) r")
    case True
    then show ?thesis
      using Some
      by (auto simp: refresh_route_def refresh_tokens_def spend_refresh_record_eq [OF assms] exchange_outcome_def
          require_active_def issue_refresh_record_def session_commit_def Let_def marked [symmetric]
          split: option.splits) (simp_all add: spendable_def)
  next
    case False
    then show ?thesis
      using Some assms(2)
      by (auto simp: refresh_route_def refresh_tokens_def spend_refresh_record_eq [OF assms] exchange_outcome_def
          spendable_def)
  qed
qed

subsection \<open>Requests that run at once\<close>

text \<open>
  What a revocation names. A request is \<open>Presented\<close> until its conditional update ran; \<open>Spending\<close> holds
  the row it marked and has not committed; \<open>Looking\<close> found nothing to mark and asks why; \<open>Doomed\<close> is
  about to revoke, after a replay, a logout or a change of the password; \<open>Revoking\<close> is an update that
  waits for rows it saw when it started and another transaction holds.
\<close>

datatype revoke_target = Family uuid | User uuid

fun targets :: "revoke_target \<Rightarrow> refresh_row \<Rightarrow> bool" where
  "targets (Family f) r = (rr_family_id r = f)"
| "targets (User u) r = (rr_user_id r = u)"

datatype refresh_task =
    Presented string
  | Spending refresh_row
  | Looking string
  | Doomed revoke_target
  | Revoking revoke_target "string list"
  | Finished

record refresh_state =
  rts_rows :: "refresh_row list"
  rts_tasks :: "refresh_task list"
  rts_minted :: "(string \<times> string) list"
  rts_killed :: "revoke_target list"

text \<open>The rows that transactions hold: marked by an exchange, or seen by a revocation that waits.\<close>

fun spending_hashes :: "refresh_task list \<Rightarrow> string list" where
  "spending_hashes [] = []"
| "spending_hashes (Spending row # tasks) = rr_token_hash row # spending_hashes tasks"
| "spending_hashes (_ # tasks) = spending_hashes tasks"

fun waiting_hashes :: "refresh_task list \<Rightarrow> string list" where
  "waiting_hashes [] = []"
| "waiting_hashes (Revoking _ hs # tasks) = hs @ waiting_hashes tasks"
| "waiting_hashes (_ # tasks) = waiting_hashes tasks"

definition target_hashes :: "revoke_target \<Rightarrow> refresh_row list \<Rightarrow> string list" where
  "target_hashes tgt rows = map rr_token_hash (filter (\<lambda>r. targets tgt r \<and> rr_revoked_at r = None) rows)"

definition begin_spend :: "nat \<Rightarrow> string \<Rightarrow> micros \<Rightarrow> refresh_state \<Rightarrow> refresh_state" where
  "begin_spend i h now st =
     (case fst (spend_update h now (rts_rows st)) of
        Some row \<Rightarrow> st\<lparr>rts_tasks := (rts_tasks st)[i := Spending row]\<rparr>
      | None \<Rightarrow> st\<lparr>rts_tasks := (rts_tasks st)[i := Looking h]\<rparr>)"

definition mark_used :: "refresh_row \<Rightarrow> refresh_row list \<Rightarrow> refresh_row list" where
  "mark_used row rows =
     map (\<lambda>x. if rr_token_hash x = rr_token_hash row then x\<lparr>rr_used_at := rr_used_at row\<rparr> else x) rows"

definition commit_spend :: "nat \<Rightarrow> refresh_row \<Rightarrow> string \<Rightarrow> int \<Rightarrow> micros \<Rightarrow> refresh_state \<Rightarrow> refresh_state" where
  "commit_spend i row h ttl_seconds now st =
     st\<lparr>rts_rows := mark_used row (rts_rows st) @
          [new_refresh_row (rr_user_id row) h (rr_family_id row) ttl_seconds (loaded_amr (rr_amr row)) now],
        rts_tasks := (rts_tasks st)[i := Finished],
        rts_minted := (rr_token_hash row, h) # rts_minted st\<rparr>"

definition look_up :: "nat \<Rightarrow> string \<Rightarrow> micros \<Rightarrow> refresh_state \<Rightarrow> refresh_state" where
  "look_up i h now st =
     (let verdict = (case find (\<lambda>r. rr_token_hash r = h) (rts_rows st) of
                       None \<Rightarrow> Finished
                     | Some r \<Rightarrow>
                         if rr_revoked_at r \<noteq> None then Finished
                         else if rr_used_at r = None \<and> rr_expires_at r < now then Finished
                         else Doomed (Family (rr_family_id r)))
      in st\<lparr>rts_tasks := (rts_tasks st)[i := verdict]\<rparr>)"

definition revoke_rows :: "nat \<Rightarrow> revoke_target \<Rightarrow> string list \<Rightarrow> micros \<Rightarrow> refresh_state \<Rightarrow> refresh_state" where
  "revoke_rows i tgt hs now st =
     st\<lparr>rts_rows := revoke_where (\<lambda>r. targets tgt r \<and> rr_token_hash r \<in> set hs) now (rts_rows st),
        rts_tasks := (rts_tasks st)[i := Finished],
        rts_killed := tgt # rts_killed st\<rparr>"

inductive refresh_reach :: "refresh_state \<Rightarrow> refresh_state \<Rightarrow> bool" for st0 :: refresh_state where
  stays: "refresh_reach st0 st0"
| logs_in: "refresh_reach st0 st \<Longrightarrow> h \<notin> rr_token_hash ` set (rts_rows st) \<Longrightarrow>
    f \<notin> rr_family_id ` set (rts_rows st) \<Longrightarrow>
    refresh_reach st0 (st\<lparr>rts_rows := rts_rows st @ [new_refresh_row u h f ttl_seconds amr now]\<rparr>)"
| presents: "refresh_reach st0 st \<Longrightarrow> refresh_reach st0 (st\<lparr>rts_tasks := rts_tasks st @ [Presented h]\<rparr>)"
| revokes: "refresh_reach st0 st \<Longrightarrow> refresh_reach st0 (st\<lparr>rts_tasks := rts_tasks st @ [Doomed tgt]\<rparr>)"
| spends: "refresh_reach st0 st \<Longrightarrow> i < length (rts_tasks st) \<Longrightarrow> rts_tasks st ! i = Presented h \<Longrightarrow>
    fst (spend_update h now (rts_rows st)) = None \<or>
      h \<notin> set (spending_hashes (rts_tasks st)) \<union> set (waiting_hashes (rts_tasks st)) \<Longrightarrow>
    refresh_reach st0 (begin_spend i h now st)"
| mints: "refresh_reach st0 st \<Longrightarrow> i < length (rts_tasks st) \<Longrightarrow> rts_tasks st ! i = Spending row \<Longrightarrow>
    h \<notin> rr_token_hash ` set (rts_rows st) \<Longrightarrow>
    refresh_reach st0 (commit_spend i row h ttl_seconds now st)"
| looks: "refresh_reach st0 st \<Longrightarrow> i < length (rts_tasks st) \<Longrightarrow> rts_tasks st ! i = Looking h \<Longrightarrow>
    refresh_reach st0 (look_up i h now st)"
| kills: "refresh_reach st0 st \<Longrightarrow> i < length (rts_tasks st) \<Longrightarrow> rts_tasks st ! i = Doomed tgt \<Longrightarrow>
    set (target_hashes tgt (rts_rows st)) \<inter> set (spending_hashes (rts_tasks st)) = {} \<Longrightarrow>
    refresh_reach st0 (revoke_rows i tgt (target_hashes tgt (rts_rows st)) now st)"
| waits: "refresh_reach st0 st \<Longrightarrow> i < length (rts_tasks st) \<Longrightarrow> rts_tasks st ! i = Doomed tgt \<Longrightarrow>
    set (target_hashes tgt (rts_rows st)) \<inter> set (spending_hashes (rts_tasks st)) \<noteq> {} \<Longrightarrow>
    refresh_reach st0 (st\<lparr>rts_tasks := (rts_tasks st)[i := Revoking tgt (target_hashes tgt (rts_rows st))]\<rparr>)"
| resumes: "refresh_reach st0 st \<Longrightarrow> i < length (rts_tasks st) \<Longrightarrow> rts_tasks st ! i = Revoking tgt hs \<Longrightarrow>
    set hs \<inter> set (spending_hashes (rts_tasks st)) = {} \<Longrightarrow>
    refresh_reach st0 (revoke_rows i tgt hs now st)"
| aborts: "refresh_reach st0 st \<Longrightarrow> i < length (rts_tasks st) \<Longrightarrow>
    refresh_reach st0 (st\<lparr>rts_tasks := (rts_tasks st)[i := Finished]\<rparr>)"

definition no_requests :: refresh_state where
  "no_requests = \<lparr>rts_rows = [], rts_tasks = [], rts_minted = [], rts_killed = []\<rparr>"

subsection \<open>What every reachable state satisfies\<close>

definition live_rows :: "uuid \<Rightarrow> refresh_row list \<Rightarrow> refresh_row list" where
  "live_rows f rows = filter (\<lambda>r. rr_family_id r = f \<and> unspent r) rows"

text \<open>
  An exchange in flight holds a row that is still unspent in the database; no two hold the same. A
  token that was exchanged is marked, a family has one user and no two unspent tokens.
\<close>

definition one_user_per_family :: "refresh_row list \<Rightarrow> bool" where
  "one_user_per_family rows \<longleftrightarrow>
     (\<forall>r \<in> set rows. \<forall>x \<in> set rows. rr_family_id r = rr_family_id x \<longrightarrow> rr_user_id r = rr_user_id x)"

definition refresh_ok :: "refresh_state \<Rightarrow> bool" where
  "refresh_ok st \<longleftrightarrow>
     distinct (map rr_token_hash (rts_rows st)) \<and>
     (\<forall>f. length (live_rows f (rts_rows st)) \<le> 1) \<and>
     distinct (spending_hashes (rts_tasks st)) \<and>
     (\<forall>row. Spending row \<in> set (rts_tasks st) \<longrightarrow> rr_used_at row \<noteq> None \<and>
        (\<exists>r \<in> set (rts_rows st). rr_token_hash r = rr_token_hash row \<and> rr_family_id r = rr_family_id row \<and>
           rr_user_id r = rr_user_id row \<and> unspent r)) \<and>
     one_user_per_family (rts_rows st) \<and>
     distinct (map fst (rts_minted st)) \<and>
     (\<forall>p c. (p, c) \<in> set (rts_minted st) \<longrightarrow> (\<exists>r \<in> set (rts_rows st). rr_token_hash r = p \<and> rr_used_at r \<noteq> None))"

lemma set_spending_hashes: "set (spending_hashes tasks) = {rr_token_hash row |row. Spending row \<in> set tasks}"
  by (induction tasks rule: spending_hashes.induct) auto

lemma spending_hashes_append [simp]: "spending_hashes (xs @ ys) = spending_hashes xs @ spending_hashes ys"
  by (induction xs rule: spending_hashes.induct) auto

text \<open>A task that goes from one phase to another that holds no marked row.\<close>

lemma spending_update:
  assumes "i < length tasks" and "\<forall>row. task \<noteq> Spending row"
  shows "distinct (spending_hashes tasks) \<Longrightarrow> distinct (spending_hashes (tasks[i := task]))"
    and "set (spending_hashes (tasks[i := task])) \<subseteq> set (spending_hashes tasks)"
    and "Spending row \<in> set (tasks[i := task]) \<Longrightarrow> Spending row \<in> set tasks"
proof -
  have eq: "tasks[i := task] = take i tasks @ task # drop (Suc i) tasks"
    using assms(1) by (simp add: upd_conv_take_nth_drop)
  have old: "tasks = take i tasks @ tasks ! i # drop (Suc i) tasks"
    using assms(1) by (simp add: id_take_nth_drop)
  have one: "spending_hashes (task # rest) = spending_hashes rest" for rest
    using assms(2) by (cases task) auto
  have "spending_hashes (tasks[i := task]) = spending_hashes (take i tasks) @ spending_hashes (drop (Suc i) tasks)"
    by (simp add: eq one)
  moreover have "\<exists>mid. spending_hashes tasks = spending_hashes (take i tasks) @ mid @ spending_hashes (drop (Suc i) tasks)"
    by (subst old) (cases "tasks ! i", auto)
  ultimately show "distinct (spending_hashes tasks) \<Longrightarrow> distinct (spending_hashes (tasks[i := task]))"
      and "set (spending_hashes (tasks[i := task])) \<subseteq> set (spending_hashes tasks)"
    by auto
  show "Spending row \<in> set (tasks[i := task]) \<Longrightarrow> Spending row \<in> set tasks"
    using assms set_update_subset_insert [of tasks i task] by auto
qed

lemma spending_update_same:
  assumes "i < length tasks" and "\<forall>row. tasks ! i \<noteq> Spending row"
  shows "distinct (spending_hashes (tasks[i := Spending row])) \<longleftrightarrow>
    distinct (spending_hashes tasks) \<and> rr_token_hash row \<notin> set (spending_hashes tasks)"
proof -
  have eq: "tasks[i := Spending row] = take i tasks @ Spending row # drop (Suc i) tasks"
    using assms(1) by (simp add: upd_conv_take_nth_drop)
  have "spending_hashes (tasks ! i # rest) = spending_hashes rest" for rest
    using assms(2) by (cases "tasks ! i") auto
  then have "spending_hashes tasks = spending_hashes (take i tasks) @ spending_hashes (drop (Suc i) tasks)"
    using assms(1) by (metis id_take_nth_drop spending_hashes_append)
  then show ?thesis by (auto simp: eq)
qed

lemma live_rows_revoke: "live_rows f (revoke_where P now rows) = filter (\<lambda>r. \<not> P r) (live_rows f rows)"
  by (induction rows) (auto simp: live_rows_def revoke_where_def unspent_def)

lemma live_rows_mark:
  "rr_used_at row \<noteq> None \<Longrightarrow>
   live_rows f (mark_used row rows) = filter (\<lambda>r. rr_token_hash r \<noteq> rr_token_hash row) (live_rows f rows)"
  by (induction rows) (auto simp: live_rows_def mark_used_def unspent_def)

lemma live_rows_append: "live_rows f (xs @ ys) = live_rows f xs @ live_rows f ys"
  by (simp add: live_rows_def)

lemma live_rows_new:
  "live_rows f [new_refresh_row u h g ttl_seconds amr now] =
     (if g = f then [new_refresh_row u h g ttl_seconds amr now] else [])"
  by (simp add: live_rows_def new_refresh_row_def unspent_def)

lemma hash_mark_used [simp]: "map rr_token_hash (mark_used row rows) = map rr_token_hash rows"
  by (auto simp: mark_used_def)

lemma hash_mark_used_set [simp]: "rr_token_hash ` set (mark_used row rows) = rr_token_hash ` set rows"
  by (metis hash_mark_used list.set_map)

lemma mark_used_keeps_used:
  "r \<in> set rows \<Longrightarrow> rr_used_at r \<noteq> None \<Longrightarrow> rr_used_at row \<noteq> None \<Longrightarrow>
   \<exists>x \<in> set (mark_used row rows). rr_token_hash x = rr_token_hash r \<and> rr_used_at x \<noteq> None"
  unfolding mark_used_def
  by (rule bexI [of _ "if rr_token_hash r = rr_token_hash row then r\<lparr>rr_used_at := rr_used_at row\<rparr> else r"]) auto

lemma revoke_where_keeps:
  "r \<in> set rows \<Longrightarrow> \<exists>x \<in> set (revoke_where P now rows).
     rr_token_hash x = rr_token_hash r \<and> rr_used_at x = rr_used_at r \<and> rr_family_id x = rr_family_id r \<and>
     rr_user_id x = rr_user_id r \<and> (\<not> P r \<longrightarrow> x = r)"
  unfolding revoke_where_def
  by (rule bexI [of _ "if P r \<and> rr_revoked_at r = None then r\<lparr>rr_revoked_at := Some now\<rparr> else r"]) auto

text \<open>A change of the table that keeps, for each row, an old row of its family and user.\<close>

lemma one_user_per_family_mono:
  assumes "one_user_per_family rows"
    and "\<And>r. r \<in> set rows' \<Longrightarrow> \<exists>x \<in> set rows. rr_family_id x = rr_family_id r \<and> rr_user_id x = rr_user_id r"
  shows "one_user_per_family rows'"
  unfolding one_user_per_family_def
proof (intro ballI impI)
  fix r y assume "r \<in> set rows'" "y \<in> set rows'" "rr_family_id r = rr_family_id y"
  with assms(2) [of r] assms(2) [of y] obtain a b where "a \<in> set rows" "b \<in> set rows"
      "rr_family_id a = rr_family_id b" "rr_user_id a = rr_user_id r" "rr_user_id b = rr_user_id y"
    by metis
  with assms(1) show "rr_user_id r = rr_user_id y" by (metis one_user_per_family_def)
qed

lemma refresh_okD:
  assumes "refresh_ok st"
  shows "distinct (map rr_token_hash (rts_rows st))" and "length (live_rows f (rts_rows st)) \<le> 1"
    and "distinct (spending_hashes (rts_tasks st))"
    and "Spending row \<in> set (rts_tasks st) \<Longrightarrow> rr_used_at row \<noteq> None"
    and "Spending row \<in> set (rts_tasks st) \<Longrightarrow> \<exists>r \<in> set (rts_rows st).
      rr_token_hash r = rr_token_hash row \<and> rr_family_id r = rr_family_id row \<and> rr_user_id r = rr_user_id row \<and> unspent r"
    and "distinct (map fst (rts_minted st))"
    and "(p, c) \<in> set (rts_minted st) \<Longrightarrow> \<exists>r \<in> set (rts_rows st). rr_token_hash r = p \<and> rr_used_at r \<noteq> None"
    and "one_user_per_family (rts_rows st)"
  using assms by (auto simp: refresh_ok_def)

lemma refresh_ok_tasks:
  assumes "refresh_ok st" and "distinct (spending_hashes tasks)"
    and "\<And>row. Spending row \<in> set tasks \<Longrightarrow> Spending row \<in> set (rts_tasks st)"
  shows "refresh_ok (st\<lparr>rts_tasks := tasks\<rparr>)"
  using assms unfolding refresh_ok_def by simp

lemma refresh_ok_phase:
  assumes "refresh_ok st" and "i < length (rts_tasks st)" and "\<forall>row. task \<noteq> Spending row"
  shows "refresh_ok (st\<lparr>rts_tasks := (rts_tasks st)[i := task]\<rparr>)"
  using assms refresh_okD(3) [OF assms(1)]
  by (intro refresh_ok_tasks) (simp_all add: spending_update(1,3))

lemma refresh_ok_begin_spend:
  assumes ok: "refresh_ok st" and i: "i < length (rts_tasks st)" "rts_tasks st ! i = Presented h"
    and free: "fst (spend_update h now (rts_rows st)) = None \<or> h \<notin> set (spending_hashes (rts_tasks st))"
  shows "refresh_ok (begin_spend i h now st)"
proof (cases "find (\<lambda>r. rr_token_hash r = h \<and> spendable now r) (rts_rows st)")
  case None
  then show ?thesis using refresh_ok_phase [OF ok i(1)] by (simp add: begin_spend_def spend_update_def)
next
  case (Some r)
  let ?row = "r\<lparr>rr_used_at := Some now\<rparr>" and ?tasks = "(rts_tasks st)[i := Spending (r\<lparr>rr_used_at := Some now\<rparr>)]"
  have r: "r \<in> set (rts_rows st)" "rr_token_hash r = h" "unspent r"
    using Some by (auto simp: find_Some_iff spendable_def unspent_def)
  have "distinct (spending_hashes ?tasks)"
    using spending_update_same [OF i(1), of ?row] i(2) refresh_okD(3) [OF ok] free Some r(2)
    by (auto simp: spend_update_def)
  moreover have "rr_used_at row \<noteq> None \<and> (\<exists>r \<in> set (rts_rows st). rr_token_hash r = rr_token_hash row \<and>
      rr_family_id r = rr_family_id row \<and> rr_user_id r = rr_user_id row \<and> unspent r)"
    if "Spending row \<in> set ?tasks" for row
  proof (cases "row = ?row")
    case True
    then show ?thesis using r by auto
  next
    case False
    then have "Spending row \<in> set (rts_tasks st)"
      using that set_update_subset_insert [of "rts_tasks st" i] by auto
    then show ?thesis using refresh_okD(4,5) [OF ok] by blast
  qed
  ultimately show ?thesis
    using ok Some unfolding refresh_ok_def begin_spend_def spend_update_def by simp
qed

lemma refresh_ok_revoke_rows:
  assumes ok: "refresh_ok st" and i: "i < length (rts_tasks st)"
    and free: "set hs \<inter> set (spending_hashes (rts_tasks st)) = {}"
  shows "refresh_ok (revoke_rows i tgt hs now st)"
proof -
  let ?P = "\<lambda>r. targets tgt r \<and> rr_token_hash r \<in> set hs"
  let ?tasks = "(rts_tasks st)[i := Finished]" and ?rows = "revoke_where ?P now (rts_rows st)"
  have sub: "Spending row \<in> set (rts_tasks st)" if "Spending row \<in> set ?tasks" for row
    using spending_update(3) [OF i _ that] by simp
  have "rr_used_at row \<noteq> None \<and>
      (\<exists>r \<in> set ?rows. rr_token_hash r = rr_token_hash row \<and> rr_family_id r = rr_family_id row \<and>
         rr_user_id r = rr_user_id row \<and> unspent r)"
    if task: "Spending row \<in> set ?tasks" for row
  proof -
    obtain r where r: "r \<in> set (rts_rows st)" "rr_token_hash r = rr_token_hash row"
        "rr_family_id r = rr_family_id row" "rr_user_id r = rr_user_id row" "unspent r"
      using refresh_okD(5) [OF ok sub [OF task]] by blast
    have "rr_token_hash row \<notin> set hs"
      using free sub [OF task] by (auto simp: set_spending_hashes)
    then show ?thesis
      using revoke_where_keeps [OF r(1), of ?P now] r refresh_okD(4) [OF ok sub [OF task]] by auto
  qed
  moreover have "\<exists>r \<in> set ?rows. rr_token_hash r = p \<and> rr_used_at r \<noteq> None"
    if "(p, c) \<in> set (rts_minted st)" for p c
  proof -
    obtain r where r: "r \<in> set (rts_rows st)" "rr_token_hash r = p" "rr_used_at r \<noteq> None"
      using refresh_okD(7) [OF ok \<open>(p, c) \<in> set (rts_minted st)\<close>] by blast
    then show ?thesis using revoke_where_keeps [OF r(1), of ?P now] by auto
  qed
  moreover have "length (live_rows f ?rows) \<le> 1" for f
    using le_trans [OF length_filter_le refresh_okD(2) [OF ok]] by (simp add: live_rows_revoke)
  moreover have "one_user_per_family ?rows"
    by (rule one_user_per_family_mono [OF refresh_okD(8) [OF ok]]) (auto simp: revoke_where_def)
  ultimately show ?thesis
    using refresh_okD(1,6) [OF ok] spending_update(1) [OF i _ refresh_okD(3) [OF ok], of Finished]
    unfolding refresh_ok_def revoke_rows_def by simp
qed

lemma refresh_ok_commit_spend:
  assumes ok: "refresh_ok st" and i: "i < length (rts_tasks st)" "rts_tasks st ! i = Spending row"
    and new: "h \<notin> rr_token_hash ` set (rts_rows st)"
  shows "refresh_ok (commit_spend i row h ttl_seconds now st)"
proof -
  let ?tasks = "(rts_tasks st)[i := Finished]" and ?old = "mark_used row (rts_rows st)"
  let ?child = "new_refresh_row (rr_user_id row) h (rr_family_id row) ttl_seconds (loaded_amr (rr_amr row)) now"
  have task: "Spending row \<in> set (rts_tasks st)" using i by (metis nth_mem)
  note used = refresh_okD(4) [OF ok task]
  obtain r where r: "r \<in> set (rts_rows st)" "rr_token_hash r = rr_token_hash row"
      "rr_family_id r = rr_family_id row" "rr_user_id r = rr_user_id row" "unspent r"
    using refresh_okD(5) [OF ok task] by blast
  have sub: "Spending x \<in> set (rts_tasks st)" if "Spending x \<in> set ?tasks" for x
    using spending_update(3) [OF i(1) _ that] by simp
  have others: "rr_token_hash x \<noteq> rr_token_hash row" if "Spending x \<in> set ?tasks" for x
  proof -
    have "(rts_tasks st)[i := Spending row] = rts_tasks st" using i(2) by (metis list_update_id)
    with refresh_okD(3) [OF ok] spending_update_same [of i ?tasks row] i(1)
    have "rr_token_hash row \<notin> set (spending_hashes ?tasks)" by simp
    with that show ?thesis by (auto simp: set_spending_hashes)
  qed
  have live: "length (live_rows f (?old @ [?child])) \<le> 1" for f
  proof (cases "f = rr_family_id row")
    case True
    then have "r \<in> set (live_rows f (rts_rows st))" using r by (simp add: live_rows_def)
    with refresh_okD(2) [OF ok, of f] have "live_rows f (rts_rows st) = [r]"
      by (cases "live_rows f (rts_rows st)") auto
    then show ?thesis using r(2) used by (simp add: live_rows_append live_rows_mark live_rows_new)
  next
    case False
    then show ?thesis
      using le_trans [OF length_filter_le refresh_okD(2) [OF ok, of f]] used
      by (simp add: live_rows_append live_rows_mark live_rows_new)
  qed
  have held: "\<exists>r \<in> set (?old @ [?child]). rr_token_hash r = rr_token_hash x \<and> rr_family_id r = rr_family_id x \<and>
      rr_user_id r = rr_user_id x \<and> unspent r"
    if "Spending x \<in> set ?tasks" for x
    using refresh_okD(5) [OF ok sub [OF that]] others [OF that] by (force simp: mark_used_def)
  have "rr_token_hash row \<notin> set (map fst (rts_minted st))"
  proof
    assume "rr_token_hash row \<in> set (map fst (rts_minted st))"
    then obtain c where "(rr_token_hash row, c) \<in> set (rts_minted st)" by auto
    from refresh_okD(7) [OF ok this] obtain x where x: "x \<in> set (rts_rows st)"
        "rr_token_hash x = rr_token_hash row" "rr_used_at x \<noteq> None" by blast
    with r refresh_okD(1) [OF ok] have "x = r" by (auto simp: distinct_map inj_on_def)
    with x r(5) show False by (simp add: unspent_def)
  qed
  moreover have "\<exists>x \<in> set (?old @ [?child]). rr_token_hash x = p \<and> rr_used_at x \<noteq> None"
    if "(p, c) \<in> set ((rr_token_hash row, h) # rts_minted st)" for p c
  proof (cases "(p, c) \<in> set (rts_minted st)")
    case True
    then show ?thesis using refresh_okD(7) [OF ok True] mark_used_keeps_used used by (metis Un_iff set_append)
  next
    case False
    then have "p = rr_token_hash row" using that by auto
    moreover have "r\<lparr>rr_used_at := rr_used_at row\<rparr> \<in> set ?old"
      using r by (auto simp: mark_used_def image_iff intro!: bexI [of _ r])
    ultimately show ?thesis using used r(2) by (intro bexI [of _ "r\<lparr>rr_used_at := rr_used_at row\<rparr>"]) auto
  qed
  moreover have "one_user_per_family (?old @ [?child])"
    using r by (intro one_user_per_family_mono [OF refresh_okD(8) [OF ok]])
      (auto simp: mark_used_def new_refresh_row_def)
  ultimately show ?thesis
    using refresh_okD(1,6) [OF ok] spending_update(1) [OF i(1) _ refresh_okD(3) [OF ok], of Finished] live held
      refresh_okD(4) [OF ok sub] new
    unfolding refresh_ok_def commit_spend_def by (simp add: new_refresh_row_def)
qed

lemma refresh_ok_login:
  assumes "refresh_ok st" and "h \<notin> rr_token_hash ` set (rts_rows st)" and "f \<notin> rr_family_id ` set (rts_rows st)"
  shows "refresh_ok (st\<lparr>rts_rows := rts_rows st @ [new_refresh_row u h f ttl_seconds amr now]\<rparr>)"
proof -
  let ?new = "new_refresh_row u h f ttl_seconds amr now"
  have "length (live_rows g (rts_rows st @ [?new])) \<le> 1" for g
  proof -
    have "live_rows f (rts_rows st) = []" using assms(3) by (auto simp: live_rows_def filter_empty_conv)
    with refresh_okD(2) [OF assms(1), of g] show ?thesis by (auto simp: live_rows_append live_rows_new)
  qed
  moreover have "one_user_per_family (rts_rows st @ [?new])"
    unfolding one_user_per_family_def
  proof (intro ballI impI)
    fix r x
    assume rx: "r \<in> set (rts_rows st @ [?new])" "x \<in> set (rts_rows st @ [?new])" "rr_family_id r = rr_family_id x"
    have "rr_family_id y \<noteq> rr_family_id ?new" if "y \<in> set (rts_rows st)" for y
      using assms(3) that by (auto simp: new_refresh_row_def)
    with rx have "r \<in> set (rts_rows st) \<and> x \<in> set (rts_rows st) \<or> r = ?new \<and> x = ?new" by (auto dest: sym)
    then show "rr_user_id r = rr_user_id x"
      using refresh_okD(8) [OF assms(1)] rx(3) unfolding one_user_per_family_def by metis
  qed
  moreover have "distinct (map rr_token_hash (rts_rows st @ [?new]))"
    using refresh_okD(1) [OF assms(1)] assms(2) by (simp add: new_refresh_row_def)
  moreover have "\<exists>r \<in> set (rts_rows st @ [?new]). rr_token_hash r = rr_token_hash row \<and>
      rr_family_id r = rr_family_id row \<and> rr_user_id r = rr_user_id row \<and> unspent r"
    if "Spending row \<in> set (rts_tasks st)" for row
    using refresh_okD(5) [OF assms(1) that] by auto
  moreover have "\<exists>r \<in> set (rts_rows st @ [?new]). rr_token_hash r = p \<and> rr_used_at r \<noteq> None"
    if "(p, c) \<in> set (rts_minted st)" for p c
    using refresh_okD(7) [OF assms(1) that] by auto
  ultimately show ?thesis
    using refresh_okD(3,4,6) [OF assms(1)] unfolding refresh_ok_def by simp
qed

lemma refresh_ok_step:
  "refresh_reach st0 st \<Longrightarrow> refresh_ok st0 \<Longrightarrow> refresh_ok st"
proof (induction rule: refresh_reach.induct)
  case (presents st h)
  then show ?case using refresh_okD(3) [of st] by (auto intro!: refresh_ok_tasks)
next
  case (revokes st tgt)
  then show ?case using refresh_okD(3) [of st] by (auto intro!: refresh_ok_tasks)
next
  case (spends st i h now)
  then show ?case by (intro refresh_ok_begin_spend) auto
next
  case (looks st i h now)
  then show ?case using refresh_ok_phase [of st i] by (auto simp: look_up_def Let_def split: option.splits)
next
  case (kills st i tgt now)
  then show ?case by (intro refresh_ok_revoke_rows) auto
next
  case (waits st i tgt)
  then show ?case by (intro refresh_ok_phase) auto
next
  case (resumes st i tgt hs now)
  then show ?case by (intro refresh_ok_revoke_rows) auto
next
  case (aborts st i)
  then show ?case by (intro refresh_ok_phase) auto
qed (simp_all add: refresh_ok_login refresh_ok_commit_spend)

lemma refresh_ok_start: "refresh_ok no_requests"
  by (simp add: refresh_ok_def no_requests_def live_rows_def one_user_per_family_def)

lemmas refresh_reach_ok = refresh_ok_step [OF _ refresh_ok_start]

text \<open>A family that exists and has no unspent token never has one again.\<close>

definition family_dead :: "uuid \<Rightarrow> refresh_state \<Rightarrow> bool" where
  "family_dead f st \<longleftrightarrow> f \<in> rr_family_id ` set (rts_rows st) \<and> live_rows f (rts_rows st) = []"

lemma family_revoke_where [simp]: "rr_family_id ` set (revoke_where P now rows) = rr_family_id ` set rows"
  by (metis list.set_map revoke_where_simps(3))

lemma family_mark_used [simp]: "rr_family_id ` set (mark_used row rows) = rr_family_id ` set rows"
proof -
  have "map rr_family_id (mark_used row rows) = map rr_family_id rows" by (auto simp: mark_used_def)
  then show ?thesis by (metis list.set_map)
qed

lemma family_dead_step:
  assumes "refresh_ok st0" and "family_dead f st0"
  shows "refresh_reach st0 st \<Longrightarrow> family_dead f st"
proof (induction rule: refresh_reach.induct)
  case (logs_in st h g u ttl_seconds amr now)
  then have "g \<noteq> f" by (auto simp: family_dead_def)
  with logs_in show ?case by (simp add: family_dead_def live_rows_append live_rows_new)
next
  case (mints st i row h ttl_seconds now)
  note ok = refresh_ok_step [OF mints.hyps(1) assms(1)]
  have task: "Spending row \<in> set (rts_tasks st)" using mints.hyps by (metis nth_mem)
  have "rr_family_id row \<noteq> f"
    using refresh_okD(5) [OF ok task] mints.IH by (auto simp: family_dead_def live_rows_def filter_empty_conv)
  then show ?case
    using mints.IH refresh_okD(4) [OF ok task]
    by (simp add: family_dead_def commit_spend_def live_rows_append live_rows_new live_rows_mark)
next
  case (looks st i h now)
  then show ?case by (simp add: family_dead_def look_up_def Let_def)
next
  case (spends st i h now)
  then show ?case by (simp add: family_dead_def begin_spend_def split: option.splits)
qed (simp_all add: assms(2), simp_all add: family_dead_def revoke_rows_def live_rows_revoke)

subsection \<open>The contract of refresh tokens\<close>

text \<open>
  The route that exchanges a refresh token answers every presented token as follows. An unknown or
  revoked token is refused and nothing changes; a token that was exchanged before (or that expires at
  the very instant both clock readings show) is a replay, whose whole family is revoked although the
  request fails; an expired one is refused; a missing or deactivated account refuses and leaves the
  token unspent. Otherwise the token is marked, and one new row of its family, with the methods of
  the login, is committed with it.
\<close>

theorem refresh_route_outcomes:
  assumes "distinct (map rr_token_hash rows)" and "clock 0 \<le> clock 1"
  shows "refresh_route S digest users clock present plain new_family token rows =
    exchange_outcome S digest users clock present plain rows (find (\<lambda>r. rr_token_hash r = digest token) rows)"
  using assms by (rule refresh_route_eq)

definition demo_row :: refresh_row where
  "demo_row = new_refresh_row 7 ''h0'' 1 86400 (Some [''pwd'', ''otp'']) 0"

lemma demo_amr: "loaded_amr (stored_amr (Some [''pwd'', ''otp''])) = Some [''pwd'', ''otp'']"
  using stored_amr_round_trip [of "[''pwd'', ''otp'']"] by (simp add: is_space_def)

theorem refresh_route_outcomes_witness:
  "refresh_route demo_tokens (\<lambda>t. CHR ''h'' # t) (\<lambda>_. Some demo_user) (\<lambda>_. 10) 10 ''1'' 5 ''0'' [demo_row] =
     (Inr (demo_user, encode_access demo_tokens 10 demo_user (Some [''pwd'', ''otp'']), ''1''),
      [demo_row\<lparr>rr_used_at := Some 10\<rparr>, new_refresh_row 7 ''h1'' 1 86400 (Some [''pwd'', ''otp'']) 10])"
  using refresh_route_outcomes [of "[demo_row]" "\<lambda>_. 10" demo_tokens "\<lambda>t. CHR ''h'' # t" "\<lambda>_. Some demo_user"]
  by (simp add: exchange_outcome_def demo_row_def new_refresh_row_def demo_amr demo_user_def demo_tokens_def)

text \<open>
  C17. Whatever logins, exchanges, replays, logouts and failures run at once, a refresh token is
  exchanged at most once, and a family never has two tokens that are neither exchanged nor revoked.
\<close>

theorem one_live_token_per_family:
  assumes "refresh_reach no_requests st"
  shows "distinct (map fst (rts_minted st)) \<and> length (live_rows f (rts_rows st)) \<le> 1 \<and>
    distinct (map rr_token_hash (rts_rows st))"
  using refresh_okD [OF refresh_reach_ok [OF assms]] by blast

text \<open>A login, an exchange of its token, and a request that waits to exchange the new one.\<close>

definition line_st1 :: refresh_state where
  "line_st1 = no_requests\<lparr>rts_rows := [new_refresh_row 7 ''a'' 1 86400 None 0]\<rparr>"

definition line_st2 :: refresh_state where
  "line_st2 = commit_spend 0 ((new_refresh_row 7 ''a'' 1 86400 None 0)\<lparr>rr_used_at := Some 10\<rparr>) ''b'' 86400 10
     (begin_spend 0 ''a'' 10 (line_st1\<lparr>rts_tasks := [Presented ''a'']\<rparr>))"

lemmas line_simps =
  line_st1_def line_st2_def no_requests_def commit_spend_def begin_spend_def spend_update_def spendable_def
  new_refresh_row_def stored_amr_def loaded_amr_def mark_used_def look_up_def revoke_rows_def revoke_where_def
  target_hashes_def live_rows_def unspent_def Let_def

lemma line_st2_reach: "refresh_reach no_requests line_st2"
proof -
  have "refresh_reach no_requests line_st1"
    using refresh_reach.logs_in [OF refresh_reach.stays, of "''a''" no_requests 1 7 86400 None 0]
    by (simp add: line_simps)
  from refresh_reach.presents [OF this, of "''a''"]
  have "refresh_reach no_requests (line_st1\<lparr>rts_tasks := [Presented ''a'']\<rparr>)" by (simp add: line_simps)
  from refresh_reach.spends [OF this, of 0 "''a''" 10]
  have "refresh_reach no_requests (begin_spend 0 ''a'' 10 (line_st1\<lparr>rts_tasks := [Presented ''a'']\<rparr>))"
    by (simp add: line_simps)
  from refresh_reach.mints [OF this, of 0 "(new_refresh_row 7 ''a'' 1 86400 None 0)\<lparr>rr_used_at := Some 10\<rparr>" "''b''" 86400 10]
  show ?thesis unfolding line_st2_def by (simp add: line_simps)
qed

theorem one_live_token_per_family_witness:
  "rts_minted line_st2 = [(''a'', ''b'')] \<and> distinct (map fst (rts_minted line_st2)) \<and>
   length (live_rows 1 (rts_rows line_st2)) \<le> 1"
  using one_live_token_per_family [OF line_st2_reach, of 1] by (simp add: line_simps)

lemma one_user_targets:
  assumes "one_user_per_family rows" and "r \<in> set rows" and "x \<in> set rows"
    and "rr_family_id x = rr_family_id r" and "targets tgt r"
  shows "targets tgt x"
proof -
  have "rr_user_id x = rr_user_id r"
    using assms(1-4) unfolding one_user_per_family_def by blast
  with assms(4,5) show ?thesis by (cases tgt) simp_all
qed

text \<open>
  C18. A revocation that starts when no exchange of the tokens it names is in flight is complete and
  final: from then on, whatever happens, none of the families it touched has an unspent token.
\<close>

theorem revoked_family_stays_dead:
  assumes "refresh_reach no_requests st"
    and "i < length (rts_tasks st)" and "rts_tasks st ! i = Doomed tgt"
    and "set (target_hashes tgt (rts_rows st)) \<inter> set (spending_hashes (rts_tasks st)) = {}"
    and "refresh_reach (revoke_rows i tgt (target_hashes tgt (rts_rows st)) now st) st'"
    and "r \<in> set (rts_rows st)" and "targets tgt r"
  shows "live_rows (rr_family_id r) (rts_rows st') = []"
proof -
  let ?st = "revoke_rows i tgt (target_hashes tgt (rts_rows st)) now st"
  have "targets tgt x" if "x \<in> set (rts_rows st)" "rr_family_id x = rr_family_id r" for x
    using one_user_targets [OF refresh_okD(8) [OF refresh_reach_ok [OF assms(1)]] assms(6) that assms(7)] .
  then have "targets tgt x \<and> rr_token_hash x \<in> set (target_hashes tgt (rts_rows st))"
    if "x \<in> set (live_rows (rr_family_id r) (rts_rows st))" for x
    using that by (auto simp: live_rows_def target_hashes_def unspent_def)
  then have "live_rows (rr_family_id r) (rts_rows ?st) = []"
    by (simp add: revoke_rows_def live_rows_revoke filter_empty_conv)
  then have "family_dead (rr_family_id r) ?st"
    using assms(6) by (simp add: family_dead_def revoke_rows_def)
  moreover have "refresh_ok ?st"
    using refresh_reach.kills [OF assms(1-4)] by (rule refresh_reach_ok)
  ultimately show ?thesis
    using family_dead_step [OF _ _ assms(5)] by (simp add: family_dead_def)
qed

theorem revoked_family_stays_dead_witness:
  "live_rows 1 (rts_rows (revoke_rows 1 (User 7) [''a'', ''b''] 20
      (line_st2\<lparr>rts_tasks := rts_tasks line_st2 @ [Doomed (User 7)]\<rparr>))) = []"
proof -
  let ?st = "line_st2\<lparr>rts_tasks := rts_tasks line_st2 @ [Doomed (User 7)]\<rparr>"
  have "refresh_reach no_requests ?st" using line_st2_reach by (rule refresh_reach.revokes)
  from revoked_family_stays_dead [OF this, of 1 "User 7" 20 _ "hd (rts_rows ?st)", OF _ _ _ refresh_reach.stays]
  show ?thesis by (simp add: line_simps)
qed

subsection \<open>A revocation that misses an exchange\<close>

text \<open>
  The owner exchanges \<open>b\<close> while a replay of \<open>a\<close> is detected. The revocation sees \<open>a\<close> and \<open>b\<close>, waits for
  \<open>b\<close>, and then does not name the row that the exchange inserted.
\<close>

definition race_row :: refresh_row where
  "race_row = (new_refresh_row 7 ''b'' 1 86400 None 10)\<lparr>rr_used_at := Some 20\<rparr>"

definition race_st :: refresh_state where
  "race_st = look_up 2 ''a'' 20 (begin_spend 2 ''a'' 20 (begin_spend 1 ''b'' 20
     (line_st2\<lparr>rts_tasks := rts_tasks line_st2 @ [Presented ''b'', Presented ''a'']\<rparr>)))"

lemma race_st_eq:
  "rts_tasks race_st = [Finished, Spending race_row, Doomed (Family 1)]"
  "rts_rows race_st = rts_rows line_st2" "rts_killed race_st = []"
  by (simp_all add: race_st_def race_row_def line_simps)

lemma race_st_reach: "refresh_reach no_requests race_st"
proof -
  have "refresh_reach no_requests (line_st2\<lparr>rts_tasks := rts_tasks line_st2 @ [Presented ''b'', Presented ''a'']\<rparr>)"
    using refresh_reach.presents [OF refresh_reach.presents [OF line_st2_reach, of "''b''"], of "''a''"] by simp
  from refresh_reach.spends [OF this, of 1 "''b''" 20]
  have "refresh_reach no_requests (begin_spend 1 ''b'' 20
      (line_st2\<lparr>rts_tasks := rts_tasks line_st2 @ [Presented ''b'', Presented ''a'']\<rparr>))"
    by (simp add: line_simps)
  from refresh_reach.spends [OF this, of 2 "''a''" 20]
  have "refresh_reach no_requests (begin_spend 2 ''a'' 20 (begin_spend 1 ''b'' 20
      (line_st2\<lparr>rts_tasks := rts_tasks line_st2 @ [Presented ''b'', Presented ''a'']\<rparr>)))"
    by (simp add: line_simps)
  from refresh_reach.looks [OF this, of 2 "''a''" 20]
  show ?thesis unfolding race_st_def by (simp add: line_simps)
qed

text \<open>
  The guarantee does not extend to an exchange that is in flight. There is a run in which the
  replay of a token is detected, the revocation of its family is committed, every request has
  ended, and the family still has a token that can be exchanged.
\<close>

theorem revocation_misses_an_exchange:
  "\<exists>st. refresh_reach no_requests st \<and> Family 1 \<in> set (rts_killed st) \<and> set (rts_tasks st) = {Finished} \<and>
     map rr_token_hash (live_rows 1 (rts_rows st)) = [''c'']"
proof -
  let ?wait = "race_st\<lparr>rts_tasks := (rts_tasks race_st)[2 := Revoking (Family 1) [''a'', ''b'']]\<rparr>"
  let ?mint = "commit_spend 1 race_row ''c'' 86400 30 ?wait"
  let ?st = "revoke_rows 2 (Family 1) [''a'', ''b''] 40 ?mint"
  have hashes: "target_hashes (Family 1) (rts_rows race_st) = [''a'', ''b'']"
    by (simp add: race_st_eq line_simps)
  have "refresh_reach no_requests ?wait"
    using refresh_reach.waits [OF race_st_reach, of 2 "Family 1", unfolded hashes]
    by (simp add: race_st_eq race_row_def new_refresh_row_def)
  from refresh_reach.mints [OF this, of 1 race_row "''c''" 86400 30]
  have "refresh_reach no_requests ?mint" by (simp add: race_st_eq line_simps)
  from refresh_reach.resumes [OF this, of 2 "Family 1" "[''a'', ''b'']" 40]
  have "refresh_reach no_requests ?st" by (simp add: commit_spend_def race_st_eq)
  moreover have "Family 1 \<in> set (rts_killed ?st)" "set (rts_tasks ?st) = {Finished}"
    by (simp_all add: revoke_rows_def commit_spend_def race_st_eq)
  moreover have "map rr_token_hash (live_rows 1 (rts_rows ?st)) = [''c'']"
  proof -
    have old: "live_rows 1 (rts_rows race_st) = [new_refresh_row 7 ''b'' 1 86400 None 10]"
      by (simp add: race_st_eq line_simps)
    have row: "rr_used_at race_row = Some 20" "rr_token_hash race_row = ''b''" "rr_family_id race_row = 1"
      by (simp_all add: race_row_def new_refresh_row_def)
    have "live_rows 1 (rts_rows ?mint) = [new_refresh_row (rr_user_id race_row) ''c'' 1 86400 (loaded_amr (rr_amr race_row)) 30]"
      by (simp add: commit_spend_def live_rows_append live_rows_mark live_rows_new row old del: One_nat_def)
        (simp add: new_refresh_row_def)
    then show ?thesis by (simp add: revoke_rows_def live_rows_revoke new_refresh_row_def del: One_nat_def)
  qed
  ultimately show ?thesis by (intro exI [of _ ?st] conjI)
qed

end
