(* ===== verification/Passwords.thy ===== *)
theory Passwords
  imports Py_Text "HOL-Library.Multiset"
begin

text \<open>
  \<^verbatim>\<open>utils/password.py\<close>: the password policy and the generator of passwords nobody types. The text is
  ASCII, so the length in UTF-8 bytes is the length. The random choices are an argument: \<open>pick n\<close> is
  the \<open>n\<close>-th draw, \<open>shuffle\<close> the permutation of \<^verbatim>\<open>secrets.SystemRandom\<close>. Hashing is bcrypt and stays an
  argument of the theories that use it.
\<close>

record PasswordPolicy =
  pp_min_length :: int
  pp_max_bytes :: int
  pp_require_complexity :: bool

datatype PasswordViolation =
    PasswordTooShort int
  | PasswordTooLong int int
  | PasswordTooWeak "string list"

definition is_lower :: "char \<Rightarrow> bool" where
  "is_lower c \<longleftrightarrow> 97 \<le> (of_char c :: nat) \<and> (of_char c :: nat) \<le> 122"

definition is_upper :: "char \<Rightarrow> bool" where
  "is_upper c \<longleftrightarrow> 65 \<le> (of_char c :: nat) \<and> (of_char c :: nat) \<le> 90"

definition is_alnum :: "char \<Rightarrow> bool" where
  "is_alnum c \<longleftrightarrow> is_lower c \<or> is_upper c \<or> is_digit c"

definition length_floor :: "int \<Rightarrow> bool \<Rightarrow> int" where
  "length_floor min_length require_complexity = (if require_complexity then max min_length 8 else min_length)"

definition missing_classes :: "string \<Rightarrow> string list" where
  "missing_classes password =
     (if list_ex is_lower password then [] else [''lowercase'']) @
     (if list_ex is_upper password then [] else [''uppercase'']) @
     (if list_ex is_digit password then [] else [''digit'']) @
     (if list_ex (\<lambda>c. \<not> is_alnum c) password then [] else [''special''])"

definition check_password_policy :: "PasswordPolicy \<Rightarrow> string \<Rightarrow> PasswordViolation option" where
  "check_password_policy policy password =
     (let least = length_floor (pp_min_length policy) (pp_require_complexity policy)
      in if int (length password) < least then Some (PasswordTooShort least)
         else if pp_max_bytes policy < int (length password)
         then Some (PasswordTooLong (pp_max_bytes policy) (int (length password)))
         else if \<not> pp_require_complexity policy then None
         else if missing_classes password \<noteq> [] then Some (PasswordTooWeak (missing_classes password))
         else None)"

subsection \<open>The generator\<close>

definition character_classes :: "string list" where
  "character_classes =
     [''abcdefghijklmnopqrstuvwxyz'', ''ABCDEFGHIJKLMNOPQRSTUVWXYZ'', ''0123456789'', ''!#$%&*+-=?@^_'']"

text \<open>\<^verbatim>\<open>secrets.choice\<close> with the \<open>n\<close>-th draw.\<close>

definition secret_choice :: "(nat \<Rightarrow> nat) \<Rightarrow> nat \<Rightarrow> string \<Rightarrow> char" where
  "secret_choice pick n chars_of = chars_of ! (pick n mod length chars_of)"

definition draw_classes :: "(nat \<Rightarrow> nat) \<Rightarrow> string" where
  "draw_classes pick = map (\<lambda>(n, chars_of). secret_choice pick n chars_of) (zip [0..<4] character_classes)"

definition generate_password ::
  "(nat \<Rightarrow> nat) \<Rightarrow> (string \<Rightarrow> string) \<Rightarrow> int \<Rightarrow> int \<Rightarrow> bool \<Rightarrow> string option" where
  "generate_password pick shuffle min_length max_bytes require_complexity =
     (let least = length_floor min_length require_complexity
      in if max_bytes < least then None
         else let size = min (max least 24) max_bytes;
                  alphabet = concat character_classes;
                  chars = (if 4 \<le> size then draw_classes pick else []);
                  rest = map (\<lambda>n. secret_choice pick n alphabet) [length chars..<nat size]
              in Some (shuffle (chars @ rest)))"

lemma choice_in_class: "chars_of \<noteq> [] \<Longrightarrow> secret_choice pick n chars_of \<in> set chars_of"
  by (simp add: secret_choice_def)

lemma class_members:
  "c \<in> set ''abcdefghijklmnopqrstuvwxyz'' \<Longrightarrow> is_lower c"
  "c \<in> set ''ABCDEFGHIJKLMNOPQRSTUVWXYZ'' \<Longrightarrow> is_upper c"
  "c \<in> set ''0123456789'' \<Longrightarrow> is_digit c"
  "c \<in> set ''!#$%&*+-=?@^_'' \<Longrightarrow> \<not> is_alnum c"
  by (auto simp: is_lower_def is_upper_def is_digit_def is_alnum_def)

lemma draw_classes_eq:
  "draw_classes pick =
     [secret_choice pick 0 ''abcdefghijklmnopqrstuvwxyz'', secret_choice pick 1 ''ABCDEFGHIJKLMNOPQRSTUVWXYZ'',
      secret_choice pick 2 ''0123456789'', secret_choice pick 3 ''!#$%&*+-=?@^_'']"
  by (simp add: draw_classes_def character_classes_def upt_rec eval_nat_numeral)

lemma draw_classes_complete:
  assumes "set (draw_classes pick) \<subseteq> set password"
  shows "missing_classes password = []"
proof -
  note members = choice_in_class [of _ pick, THEN class_members(1)] choice_in_class [of _ pick, THEN class_members(2)]
    choice_in_class [of _ pick, THEN class_members(3)] choice_in_class [of _ pick, THEN class_members(4)]
  have "is_lower (secret_choice pick 0 ''abcdefghijklmnopqrstuvwxyz'')"
      "is_upper (secret_choice pick 1 ''ABCDEFGHIJKLMNOPQRSTUVWXYZ'')"
      "is_digit (secret_choice pick 2 ''0123456789'')" "\<not> is_alnum (secret_choice pick 3 ''!#$%&*+-=?@^_'')"
    by (rule members; simp)+
  with assms have "\<exists>c \<in> set password. is_lower c" "\<exists>c \<in> set password. is_upper c"
      "\<exists>c \<in> set password. is_digit c" "\<exists>c \<in> set password. \<not> is_alnum c"
    unfolding draw_classes_eq by auto
  then show ?thesis unfolding missing_classes_def list_ex_iff by simp
qed

text \<open>
  A generated password is accepted by the policy it was generated for, whatever is drawn and
  however it is shuffled; there is one exactly when the policy can be satisfied by some length.
\<close>

theorem generated_password_is_accepted:
  assumes "\<And>xs. mset (shuffle xs) = mset xs" and "0 \<le> max_bytes"
  shows "(case generate_password pick shuffle min_length max_bytes complex of
            None \<Rightarrow> max_bytes < length_floor min_length complex \<and>
              (\<forall>p. check_password_policy \<lparr>pp_min_length = min_length, pp_max_bytes = max_bytes, pp_require_complexity = complex\<rparr> p \<noteq> None)
          | Some password \<Rightarrow> length_floor min_length complex \<le> max_bytes \<and>
              check_password_policy \<lparr>pp_min_length = min_length, pp_max_bytes = max_bytes, pp_require_complexity = complex\<rparr> password = None)"
proof (cases "max_bytes < length_floor min_length complex")
  case True
  then show ?thesis by (auto simp: generate_password_def check_password_policy_def Let_def)
next
  case False
  let ?least = "length_floor min_length complex"
  let ?size = "min (max ?least 24) max_bytes"
  let ?chars = "if 4 \<le> ?size then draw_classes pick else []"
  let ?all = "?chars @ map (\<lambda>n. secret_choice pick n (concat character_classes)) [length ?chars..<nat ?size]"
  have four: "length (draw_classes pick) = 4" by (simp add: draw_classes_eq)
  have len: "int (length (shuffle ?all)) = ?size"
    using False assms(2) four by (auto simp: mset_eq_length [OF assms(1)])
  have "missing_classes (shuffle ?all) = []" if complex
  proof -
    have "8 \<le> ?size" using that False by (auto simp: length_floor_def split: if_splits)
    then show ?thesis
      by (intro draw_classes_complete [of pick]) (simp add: mset_eq_setD [OF assms(1)])
  qed
  then show ?thesis
    using False len unfolding generate_password_def check_password_policy_def Let_def by auto
qed

theorem generated_password_is_accepted_witness:
  "check_password_policy \<lparr>pp_min_length = 12, pp_max_bytes = 72, pp_require_complexity = True\<rparr>
     (the (generate_password Suc rev 12 72 True)) = None"
proof -
  have "generate_password Suc rev 12 72 True \<noteq> None"
    by (simp add: generate_password_def length_floor_def Let_def)
  with generated_password_is_accepted [where shuffle = rev and max_bytes = 72 and pick = Suc and min_length = 12 and complex = True] show ?thesis
    by (auto split: option.splits)
qed

end
