(* ===== verification/Accounts.thy ===== *)
theory Accounts
  imports Refresh_Tokens Passwords Throttle
begin

text \<open>
  What the flows of \<^verbatim>\<open>UserAuthService\<close> (\<^verbatim>\<open>auth/service.py\<close>) share: the tables of a service, the state
  a request works on, its settings, the mail, and the flows on a password (login, change). The
  second factor and the mailed links are the theories \<open>Second_Factor\<close> and \<open>Email_Links\<close>.

  A request works on a session of \<open>Transaction\<close>; the throttle (\<open>'b\<close>), the other stores of sessions
  (\<open>'o\<close>) and the mail that left are outside of it and survive its rollback. Bcrypt and the digest of
  opaque tokens are arguments. Mail is sent inline (\<^verbatim>\<open>AUTH_SEND_EMAILS_IN_BACKGROUND\<close> off); the columns
  a project adds to its user table are left out.
\<close>

subsection \<open>State\<close>

record link_row =
  lk_user_id :: uuid
  lk_token_hash :: string
  lk_purpose :: string
  lk_expires_at :: micros
  lk_used_at :: "micros option"
  lk_payload :: "string option"

record recovery_row =
  rc_user_id :: uuid
  rc_code_hash :: string
  rc_used_at :: "micros option"

text \<open>Of a passkey only its owner matters.\<close>

record account_db =
  ad_users :: "BaseUserModel list"
  ad_links :: "link_row list"
  ad_codes :: "recovery_row list"
  ad_refresh :: "refresh_row list"
  ad_passkeys :: "uuid list"

text \<open>A mail is its address, what it is about and the token it carries.\<close>

record ('b, 'o) account_state =
  ac_session :: "account_db session"
  ac_throttle :: 'b
  ac_others :: 'o
  ac_mail :: "(string \<times> string \<times> string) list"

text \<open>
  The service and its settings. \<open>cf_email\<close> is the mailer, if any, and whether it is enabled;
  \<open>cf_environment\<close> the resolved \<^verbatim>\<open>ENV\<close>; \<open>cf_code\<close> the code of a secret at a step (pyotp).
\<close>

record 'o account_config =
  cf_email :: "bool option"
  cf_environment :: "string option"
  cf_return_token :: bool
  cf_auto_activate :: bool
  cf_single_active_token :: bool
  cf_notify_old :: bool
  cf_reveal_inactive :: bool
  cf_activation_ttl :: int
  cf_reset_ttl :: int
  cf_email_change_ttl :: int
  cf_verification_ttl :: int
  cf_refuses_email_link :: "(BaseUserModel \<Rightarrow> bool) option"
  cf_policy :: PasswordPolicy
  cf_verify :: "string \<Rightarrow> string \<Rightarrow> bool"
  cf_hash :: "string \<Rightarrow> string"
  cf_digest :: "string \<Rightarrow> string"
  cf_has_refresh :: bool
  cf_has_passkeys :: bool
  cf_revokers :: "(uuid \<Rightarrow> 'o \<Rightarrow> nat \<times> 'o) list"
  cf_mfa_enabled :: bool
  cf_mfa_window :: int
  cf_code :: "string \<Rightarrow> int \<Rightarrow> string"

datatype account_error =
    InvalidLink string
  | IntegrationDisabled
  | EmailUnavailable
  | EmailTaken
  | SameEmail
  | LinkForbidden
  | InvalidCredentials
  | WrongPassword
  | AccountInactive
  | PolicyViolation PasswordViolation
  | UserMissing
  | UniqueViolation
  | MFAAlreadyEnrolled
  | MFANotEnrolled
  | MFANotActive
  | MFANotInitialized
  | InvalidMFAToken
  | InvalidMFACode
  | LoginThrottled int
  | MfaThrottled int
  | ThrottleFailed throttle_error
  | RecoveryModelMissing
  | Crash

subsection \<open>The tables\<close>

definition user_by_id :: "uuid \<Rightarrow> account_db \<Rightarrow> BaseUserModel option" where
  "user_by_id i db = find (\<lambda>u. us_id u = i) (ad_users db)"

definition user_by_email :: "string \<Rightarrow> account_db \<Rightarrow> BaseUserModel option" where
  "user_by_email email db = find (\<lambda>u. us_email u = email) (ad_users db)"

definition update_user :: "uuid \<Rightarrow> (BaseUserModel \<Rightarrow> BaseUserModel) \<Rightarrow> account_db \<Rightarrow> account_db" where
  "update_user i f db = db\<lparr>ad_users := map (\<lambda>u. if us_id u = i then f u else u) (ad_users db)\<rparr>"

text \<open>\<^verbatim>\<open>email.strip().lower()\<close>.\<close>

definition normalize_email :: "string \<Rightarrow> string" where
  "normalize_email email = lower (strip email)"

definition email_taken :: "string \<Rightarrow> uuid \<Rightarrow> account_db \<Rightarrow> bool" where
  "email_taken email exclude_user_id db \<longleftrightarrow> list_ex (\<lambda>u. us_email u = email \<and> us_id u \<noteq> exclude_user_id) (ad_users db)"

definition working :: "('b, 'o) account_state \<Rightarrow> account_db" where
  "working st = sess_working (ac_session st)"

definition put_db :: "account_db \<Rightarrow> ('b, 'o) account_state \<Rightarrow> ('b, 'o) account_state" where
  "put_db db st = st\<lparr>ac_session := (ac_session st)\<lparr>sess_working := db\<rparr>\<rparr>"

text \<open>A route commits when its handler returns; a session that is closed forgets what is not durable.\<close>

definition account_route ::
  "(('b, 'o) account_state, account_error, 'a) action \<Rightarrow> (('b, 'o) account_state, account_error, 'a) action" where
  "account_route handler st =
     (case handler st of
        (Inl e, st) \<Rightarrow> (Inl e, st\<lparr>ac_session := session_rollback (ac_session st)\<rparr>)
      | (Inr a, st) \<Rightarrow> (Inr a, st\<lparr>ac_session := session_commit (ac_session st)\<rparr>))"

subsection \<open>Ending sessions\<close>

definition revoke_sessions ::
  "'o account_config \<Rightarrow> uuid \<Rightarrow> micros \<Rightarrow> ('b, 'o) account_state \<Rightarrow> nat \<times> ('b, 'o) account_state" where
  "revoke_sessions C user_id now st =
     (let db = working st;
          (n, rows, others) = revoke_user_sessions (cf_has_refresh C) (cf_revokers C) user_id now (ad_refresh db) (ac_others st)
      in (n, (put_db (db\<lparr>ad_refresh := rows\<rparr>) st)\<lparr>ac_others := others\<rparr>))"

definition revoke_user_passkeys :: "bool \<Rightarrow> uuid \<Rightarrow> account_db \<Rightarrow> nat \<times> account_db" where
  "revoke_user_passkeys has_model user_id db =
     (if \<not> has_model then (0, db)
      else (length (filter ((=) user_id) (ad_passkeys db)), db\<lparr>ad_passkeys := filter ((\<noteq>) user_id) (ad_passkeys db)\<rparr>))"

subsection \<open>Mail\<close>

definition links_surface_in_production :: "'o account_config \<Rightarrow> bool" where
  "links_surface_in_production C \<longleftrightarrow>
     \<not> (cf_environment C = Some ''development'' \<or> cf_environment C = Some ''test'') \<and>
     (cf_email C = None \<or> cf_return_token C)"

definition require_mail_delivery :: "'o account_config \<Rightarrow> bool \<Rightarrow> account_error option" where
  "require_mail_delivery C carries_token =
     (if carries_token \<and> links_surface_in_production C then Some IntegrationDisabled
      else if cf_email C = None \<or> cf_email C = Some True then None
      else if carries_token \<and> cf_return_token C then None
      else Some IntegrationDisabled)"

text \<open>\<open>deliver\<close> says which addresses the mail server takes; a refused mail raises.\<close>

definition send_email ::
  "'o account_config \<Rightarrow> (string \<Rightarrow> bool) \<Rightarrow> string \<Rightarrow> string \<Rightarrow> string \<Rightarrow> (('b, 'o) account_state, account_error, unit) action" where
  "send_email C deliver kind to plain st =
     (if cf_email C = None then (Inr (), st)
      else if cf_email C = Some False then (Inl IntegrationDisabled, st)
      else if deliver to then (Inr (), st\<lparr>ac_mail := ac_mail st @ [(to, kind, plain)]\<rparr>)
      else (Inl EmailUnavailable, st))"

text \<open>The four mails that carry a link; they are not sent when the link travels in the response.\<close>

definition maybe_send_link ::
  "'o account_config \<Rightarrow> (string \<Rightarrow> bool) \<Rightarrow> string \<Rightarrow> string \<Rightarrow> string \<Rightarrow> (('b, 'o) account_state, account_error, unit) action" where
  "maybe_send_link C deliver kind to plain st =
     (if cf_email C = None \<or> cf_return_token C then (Inr (), st) else send_email C deliver kind to plain st)"

definition maybe_send_email_changed_notice ::
  "'o account_config \<Rightarrow> (string \<Rightarrow> bool) \<Rightarrow> string \<Rightarrow> (('b, 'o) account_state, account_error, unit) action" where
  "maybe_send_email_changed_notice C deliver old_email st =
     (if cf_email C = None \<or> \<not> cf_notify_old C then (Inr (), st)
      else send_email C deliver ''email_changed_notice'' old_email '''' st)"

subsection \<open>The password\<close>

definition enforce_password_policy :: "'o account_config \<Rightarrow> string \<Rightarrow> account_error option" where
  "enforce_password_policy C password = map_option PolicyViolation (check_password_policy (cf_policy C) password)"

definition account_login ::
  "'o account_config \<Rightarrow> string \<Rightarrow> string \<Rightarrow> micros \<Rightarrow> (('b, 'o) account_state, account_error, BaseUserModel) action" where
  "account_login C email password now st =
     (case user_by_email (normalize_email email) (working st) of
        None \<Rightarrow> (Inl InvalidCredentials, st)
      | Some user \<Rightarrow>
          if \<not> cf_verify C password (us_hashed_password user) then (Inl InvalidCredentials, st)
          else if \<not> us_is_active user
          then (Inl (if cf_reveal_inactive C then AccountInactive else InvalidCredentials), st)
          else (Inr (user\<lparr>us_last_login_at := Some now\<rparr>),
                put_db (update_user (us_id user) (\<lambda>u. u\<lparr>us_last_login_at := Some now\<rparr>) (working st)) st))"

definition change_password ::
  "'o account_config \<Rightarrow> BaseUserModel \<Rightarrow> string \<Rightarrow> string \<Rightarrow> bool \<Rightarrow> micros \<Rightarrow>
     (('b, 'o) account_state, account_error, unit) action" where
  "change_password C user current_password new_password revoke now st =
     (if \<not> cf_verify C current_password (us_hashed_password user) then (Inl WrongPassword, st)
      else case enforce_password_policy C new_password of
             Some e \<Rightarrow> (Inl e, st)
           | None \<Rightarrow>
               (let st = put_db (update_user (us_id user) (\<lambda>u. u\<lparr>us_hashed_password := cf_hash C new_password\<rparr>) (working st)) st
                in (Inr (), if revoke then snd (revoke_sessions C (us_id user) now st) else st)))"

subsection \<open>Attempts\<close>

definition on_throttle ::
  "('b, throttle_error, 'a) action \<Rightarrow> (('b, 'o) account_state, account_error, 'a) action" where
  "on_throttle call st =
     (case call (ac_throttle st) of
        (Inl (TooManyRequests n), b) \<Rightarrow> (Inl (LoginThrottled n), st\<lparr>ac_throttle := b\<rparr>)
      | (Inl e, b) \<Rightarrow> (Inl (ThrottleFailed e), st\<lparr>ac_throttle := b\<rparr>)
      | (Inr a, b) \<Rightarrow> (Inr a, st\<lparr>ac_throttle := b\<rparr>))"

text \<open>
  The attempt that is reserved before a secret is checked: \<^verbatim>\<open>hit\<close>, then a refusal past the budget.
  Without a throttle nothing is counted.
\<close>

definition spend_attempt ::
  "'b throttle_backend \<Rightarrow> AttemptThrottle option \<Rightarrow> string \<Rightarrow> (int \<Rightarrow> account_error) \<Rightarrow>
     (('b, 'o) account_state, account_error, unit) action" where
  "spend_attempt B throttle key refusal st =
     (case throttle of
        None \<Rightarrow> (Inr (), st)
      | Some th \<Rightarrow>
          (case on_throttle (hit B th key) st of
             (Inl e, st) \<Rightarrow> (Inl e, st)
           | (Inr attempt, st) \<Rightarrow>
               if th_max_attempts th < ts_attempts attempt
               then (Inl (refusal (ts_retry_after_seconds attempt)), st) else (Inr (), st)))"

definition reset_attempts ::
  "'b throttle_backend \<Rightarrow> AttemptThrottle option \<Rightarrow> string \<Rightarrow> (('b, 'o) account_state, account_error, unit) action" where
  "reset_attempts B throttle key st =
     (case throttle of None \<Rightarrow> (Inr (), st) | Some th \<Rightarrow> on_throttle (reset B th key) st)"

text \<open>
  \<^verbatim>\<open>throttled_login\<close> of \<^verbatim>\<open>auth/_login_flow.py\<close>: the part under the budget of the address, and the
  whole. The slot of the address is given back unless the credentials were refused.
\<close>

definition budgeted_login ::
  "'b throttle_backend \<Rightarrow> 'o account_config \<Rightarrow> AttemptThrottle option \<Rightarrow> string \<Rightarrow> string \<Rightarrow> string \<Rightarrow> micros \<Rightarrow>
     (('b, 'o) account_state, account_error, BaseUserModel) action" where
  "budgeted_login B C login_throttle email_key email password now st =
     (case spend_attempt B login_throttle email_key LoginThrottled st of
        (Inl e, st) \<Rightarrow> (Inl e, st)
      | (Inr _, st) \<Rightarrow> account_login C email password now st)"

definition throttled_login ::
  "'b throttle_backend \<Rightarrow> 'o account_config \<Rightarrow> (string \<Rightarrow> string) \<Rightarrow> string \<Rightarrow> string \<Rightarrow> string \<Rightarrow>
     AttemptThrottle option \<Rightarrow> AttemptThrottle option \<Rightarrow> micros \<Rightarrow> (('b, 'o) account_state, account_error, BaseUserModel) action" where
  "throttled_login B C sha256_hex email password client_ip login_throttle login_ip_throttle now st =
     (let ip_key = ''login-ip:'' @ client_ip;
          email_key = login_throttle_key sha256_hex email
      in case (case login_ip_throttle of None \<Rightarrow> (Inr (), st)
               | Some ip \<Rightarrow> (case on_throttle (reserve B ip ip_key) st of
                    (Inl e, st) \<Rightarrow> (Inl e, st) | (Inr _, st) \<Rightarrow> (Inr (), st))) of
           (Inl e, st) \<Rightarrow> (Inl e, st)
         | (Inr _, st) \<Rightarrow>
             (case budgeted_login B C login_throttle email_key email password now st of
                (answer, st) \<Rightarrow>
                  (case (case login_ip_throttle of None \<Rightarrow> (Inr (), st)
                         | Some ip \<Rightarrow> if answer = Inl InvalidCredentials then (Inr (), st)
                                     else on_throttle (release B ip ip_key) st) of
                     (Inl e, st) \<Rightarrow> (Inl e, st)
                   | (Inr _, st) \<Rightarrow>
                       (case answer of
                          Inl e \<Rightarrow> (Inl e, st)
                        | Inr user \<Rightarrow>
                            (case reset_attempts B login_throttle email_key st of
                               (Inl e, st) \<Rightarrow> (Inl e, st)
                             | (Inr _, st) \<Rightarrow> (Inr user, st))))))"

subsection \<open>Lemmas on the state\<close>

lemma put_db_simps [simp]:
  "working (put_db db st) = db" "ac_throttle (put_db db st) = ac_throttle st"
  "ac_others (put_db db st) = ac_others st" "ac_mail (put_db db st) = ac_mail st"
  "sess_durable (ac_session (put_db db st)) = sess_durable (ac_session st)"
  by (simp_all add: working_def put_db_def)

lemma working_update [simp]:
  "working (st\<lparr>ac_throttle := b\<rparr>) = working st" "working (st\<lparr>ac_others := oth\<rparr>) = working st"
  "working (st\<lparr>ac_mail := ms\<rparr>) = working st"
  by (simp_all add: working_def)

lemma on_throttle_db [simp]:
  "working (snd (on_throttle call st)) = working st" "ac_mail (snd (on_throttle call st)) = ac_mail st"
  "ac_session (snd (on_throttle call st)) = ac_session st"
  by (auto simp: on_throttle_def split: prod.splits sum.splits throttle_error.splits)

lemma on_throttle_keeps:
  "on_throttle call st = (answer, st') \<Longrightarrow> ac_session st' = ac_session st \<and> ac_mail st' = ac_mail st \<and> ac_others st' = ac_others st"
  by (auto simp: on_throttle_def split: prod.splits sum.splits throttle_error.splits)

lemma spend_attempt_db [simp]:
  "ac_session (snd (spend_attempt B th key refusal st)) = ac_session st"
  "ac_mail (snd (spend_attempt B th key refusal st)) = ac_mail st"
  "working (snd (spend_attempt B th key refusal st)) = working st"
  by (auto simp: spend_attempt_def working_def dest!: on_throttle_keeps split: option.splits prod.splits sum.splits)

lemma reset_attempts_db [simp]:
  "ac_session (snd (reset_attempts B th key st)) = ac_session st"
  "ac_mail (snd (reset_attempts B th key st)) = ac_mail st"
  "working (snd (reset_attempts B th key st)) = working st"
  by (auto simp: reset_attempts_def split: option.splits)

lemma find_map_same:
  "(\<And>x. key (f x) = key x) \<Longrightarrow>
   find (\<lambda>x. key x = k) (map (\<lambda>x. if key x = i then f x else x) xs) =
     map_option (\<lambda>x. if key x = i then f x else x) (find (\<lambda>x. key x = k) xs)"
  by (induction xs) auto

lemma user_by_id_update:
  "(\<And>u. us_id (f u) = us_id u) \<Longrightarrow>
   user_by_id k (update_user i f db) = map_option (\<lambda>u. if us_id u = i then f u else u) (user_by_id k db)"
  by (simp add: user_by_id_def update_user_def find_map_same)

lemma user_by_id_id: "user_by_id i db = Some u \<Longrightarrow> us_id u = i \<and> u \<in> set (ad_users db)"
  by (auto simp: user_by_id_def find_Some_iff)

lemma update_user_other [simp]:
  "ad_links (update_user i f db) = ad_links db" "ad_codes (update_user i f db) = ad_codes db"
  "ad_refresh (update_user i f db) = ad_refresh db" "ad_passkeys (update_user i f db) = ad_passkeys db"
  by (simp_all add: update_user_def)

lemma revoke_sessions_simps [simp]:
  "ad_users (working (snd (revoke_sessions C i now st))) = ad_users (working st)"
  "ad_links (working (snd (revoke_sessions C i now st))) = ad_links (working st)"
  "ad_codes (working (snd (revoke_sessions C i now st))) = ad_codes (working st)"
  "ad_passkeys (working (snd (revoke_sessions C i now st))) = ad_passkeys (working st)"
  "ac_mail (snd (revoke_sessions C i now st)) = ac_mail st"
  "ac_throttle (snd (revoke_sessions C i now st)) = ac_throttle st"
  "sess_durable (ac_session (snd (revoke_sessions C i now st))) = sess_durable (ac_session st)"
  by (simp_all add: revoke_sessions_def Let_def split: prod.splits)

lemma revoke_sessions_refresh:
  "ad_refresh (working (snd (revoke_sessions C i now st))) =
     (if cf_has_refresh C then revoke_where (\<lambda>r. rr_user_id r = i) now (ad_refresh (working st)) else ad_refresh (working st))"
  by (simp add: revoke_sessions_def revoke_user_sessions_def revoke_user_refresh_tokens_def Let_def split: prod.splits)

end
