(* ===== verification/Second_Factor.thy ===== *)
theory Second_Factor
  imports Accounts
begin

text \<open>
  The second factor of \<^verbatim>\<open>auth/service.py\<close> and \<^verbatim>\<open>utils/totp.py\<close>: enrolling, confirming, the second
  step of a login, proving the factor again, removing it. A time-based code spends its step with one
  conditional update of the user's row; a recovery code is read and then written.

  \<open>time\<close> is the clock in seconds that selects the step, \<open>now\<close> the timestamp that is stored. The user a
  handler is given is the copy its request loaded. What requests that run at once make of the two
  kinds of codes are the relations \<open>totp_reach\<close> and \<open>recovery_reach\<close>.
\<close>

subsection \<open>Codes\<close>

definition is_mfa_enrolled :: "'o account_config \<Rightarrow> BaseUserModel \<Rightarrow> bool" where
  "is_mfa_enrolled C user \<longleftrightarrow> cf_mfa_enabled C \<and> us_totp_enabled_at user \<noteq> None"

definition has_secret :: "BaseUserModel \<Rightarrow> bool" where
  "has_secret user \<longleftrightarrow> us_totp_secret user \<noteq> None \<and> us_totp_secret user \<noteq> Some []"

text \<open>The steps of the window are tried oldest first; a step lasts 30 seconds.\<close>

definition matching_step :: "(string \<Rightarrow> int \<Rightarrow> string) \<Rightarrow> string \<Rightarrow> string \<Rightarrow> int \<Rightarrow> real \<Rightarrow> int option" where
  "matching_step generate_otp secret code window time =
     (let cleaned = filter (\<lambda>c. c \<noteq> CHR '' '' \<and> c \<noteq> CHR ''-'') (strip code);
          current = py_trunc time div 30
      in if \<not> list_all is_digit cleaned \<or> length cleaned \<noteq> 6 then None
         else find (\<lambda>step. generate_otp secret step = cleaned) [current - window..current + window])"

definition step_free :: "int option \<Rightarrow> int \<Rightarrow> bool" where
  "step_free last_step step \<longleftrightarrow> (case last_step of None \<Rightarrow> True | Some l \<Rightarrow> l < step)"

text \<open>The secret is that of the loaded copy; the row in the database decides about the step.\<close>

definition claim_totp_step ::
  "'o account_config \<Rightarrow> real \<Rightarrow> BaseUserModel \<Rightarrow> string \<Rightarrow> account_db \<Rightarrow> bool \<times> account_db" where
  "claim_totp_step C time user code db =
     (if \<not> has_secret user then (False, db)
      else case matching_step (cf_code C) (the (us_totp_secret user)) code (cf_mfa_window C) time of
             None \<Rightarrow> (False, db)
           | Some step \<Rightarrow>
               (case user_by_id (us_id user) db of
                  None \<Rightarrow> (False, db)
                | Some row \<Rightarrow>
                    if step_free (us_totp_last_step row) step
                    then (True, update_user (us_id user) (\<lambda>u. u\<lparr>us_totp_last_step := Some step\<rparr>) db)
                    else (False, db)))"

definition code_usable :: "uuid \<Rightarrow> string \<Rightarrow> recovery_row \<Rightarrow> bool" where
  "code_usable user_id h r \<longleftrightarrow> rc_user_id r = user_id \<and> rc_code_hash r = h \<and> rc_used_at r = None"

definition stamp_code :: "string \<Rightarrow> micros \<Rightarrow> recovery_row list \<Rightarrow> recovery_row list" where
  "stamp_code h now codes = map (\<lambda>r. if rc_code_hash r = h then r\<lparr>rc_used_at := Some now\<rparr> else r) codes"

definition verify_mfa_code ::
  "'o account_config \<Rightarrow> real \<Rightarrow> micros \<Rightarrow> BaseUserModel \<Rightarrow> string \<Rightarrow> account_db \<Rightarrow> bool \<times> account_db" where
  "verify_mfa_code C time now user code db =
     (case claim_totp_step C time user code db of
        (True, db) \<Rightarrow> (True, db)
      | (False, _) \<Rightarrow>
          (let h = cf_digest C (strip code)
           in case find (code_usable (us_id user) h) (ad_codes db) of
                None \<Rightarrow> (False, db)
              | Some _ \<Rightarrow> (True, db\<lparr>ad_codes := stamp_code h now (ad_codes db)\<rparr>)))"

subsection \<open>Proving the factor\<close>

text \<open>Without the table of recovery codes only time-based codes are accepted.\<close>

definition check_code ::
  "'o account_config \<Rightarrow> bool \<Rightarrow> real \<Rightarrow> micros \<Rightarrow> BaseUserModel \<Rightarrow> string \<Rightarrow> account_db \<Rightarrow> bool \<times> account_db" where
  "check_code C has_codes time now user code db =
     (if has_codes then verify_mfa_code C time now user code db else claim_totp_step C time user code db)"

text \<open>
  What \<^verbatim>\<open>mfa_verify\<close>, \<^verbatim>\<open>reauthenticate\<close> and \<^verbatim>\<open>change_password_with_mfa\<close> do alike: reserve an attempt on
  the key of the account, check the code (recovery codes too, where their table is given), and clear
  the key on success.
\<close>

definition check_factor ::
  "'b throttle_backend \<Rightarrow> 'o account_config \<Rightarrow> AttemptThrottle option \<Rightarrow> string \<Rightarrow> bool \<Rightarrow> real \<Rightarrow> micros \<Rightarrow>
     BaseUserModel \<Rightarrow> string \<Rightarrow> (('b, 'o) account_state, account_error, unit) action" where
  "check_factor B C throttle factor_key has_codes time now user code st =
     (case spend_attempt B throttle factor_key MfaThrottled st of
        (Inl e, st) \<Rightarrow> (Inl e, st)
      | (Inr _, st) \<Rightarrow>
          (case check_code C has_codes time now user code (working st) of
             (False, _) \<Rightarrow> (Inl InvalidMFACode, st)
           | (True, db) \<Rightarrow> reset_attempts B throttle factor_key (put_db db st)))"

definition mfa_key :: "'t token_service \<Rightarrow> uuid \<Rightarrow> string" where
  "mfa_key S user_id = ''mfa:'' @ sv_uuid_str S user_id"

definition reauthenticate ::
  "'b throttle_backend \<Rightarrow> 'o account_config \<Rightarrow> 't token_service \<Rightarrow> AttemptThrottle option \<Rightarrow> bool \<Rightarrow> real \<Rightarrow> micros \<Rightarrow>
     BaseUserModel \<Rightarrow> string \<Rightarrow> string option \<Rightarrow> (('b, 'o) account_state, account_error, unit) action" where
  "reauthenticate B C S throttle has_codes time now user current_password code st =
     (if \<not> cf_verify C current_password (us_hashed_password user) then (Inl WrongPassword, st)
      else if \<not> is_mfa_enrolled C user then (Inr (), st)
      else case code of
             None \<Rightarrow> (Inl InvalidMFACode, st)
           | Some c \<Rightarrow> check_factor B C throttle (mfa_key S (us_id user)) has_codes time now user c st)"

definition change_password_with_mfa ::
  "'b throttle_backend \<Rightarrow> 'o account_config \<Rightarrow> 't token_service \<Rightarrow> AttemptThrottle option \<Rightarrow> bool \<Rightarrow> real \<Rightarrow> micros \<Rightarrow>
     BaseUserModel \<Rightarrow> string \<Rightarrow> string \<Rightarrow> bool \<Rightarrow> (('b, 'o) account_state, account_error, unit) action" where
  "change_password_with_mfa B C S throttle has_codes time now user code new_password revoke st =
     (if \<not> is_mfa_enrolled C user then (Inl MFANotEnrolled, st)
      else case enforce_password_policy C new_password of
             Some e \<Rightarrow> (Inl e, st)
           | None \<Rightarrow>
               (case check_factor B C throttle (mfa_key S (us_id user)) has_codes time now user code st of
                  (Inl e, st) \<Rightarrow> (Inl e, st)
                | (Inr _, st) \<Rightarrow>
                    (let st = put_db (update_user (us_id user)
                                (\<lambda>u. u\<lparr>us_hashed_password := cf_hash C new_password\<rparr>) (working st)) st
                     in (Inr (), if revoke then snd (revoke_sessions C (us_id user) now st) else st))))"

text \<open>
  The second step of a login. \<^verbatim>\<open>UUID(payload["sub"])\<close> raises what the handler catches for an absent
  subject and for text that is no UUID, and something else for a subject that is not text.
\<close>

definition mfa_verify ::
  "'b throttle_backend \<Rightarrow> 'o account_config \<Rightarrow> 't token_service \<Rightarrow> AttemptThrottle option \<Rightarrow> real \<Rightarrow> micros \<Rightarrow>
     't \<Rightarrow> string \<Rightarrow> (('b, 'o) account_state, account_error, BaseUserModel) action" where
  "mfa_verify B C S throttle time now mfa_token code st =
     (case jwt_decode (sv_pyjwt S) (sv_jwt S) time mfa_token of
        Inl e \<Rightarrow> (Inl InvalidMFAToken, st)
      | Inr p \<Rightarrow>
          if get_claim p ''purpose'' \<noteq> CStr ''mfa_pending'' then (Inl InvalidMFAToken, st)
          else (case map_of p ''sub'' of
                  None \<Rightarrow> (Inl InvalidMFAToken, st)
                | Some subject \<Rightarrow>
                    (case claim_str subject of
                       None \<Rightarrow> (Inl Crash, st)
                     | Some s \<Rightarrow>
                         (case Option.bind (sv_uuid_parse S s) (\<lambda>i. user_by_id i (working st)) of
                            None \<Rightarrow> (Inl InvalidMFAToken, st)
                          | Some user \<Rightarrow>
                              if \<not> us_is_active user then (Inl InvalidMFAToken, st)
                              else if \<not> is_mfa_enrolled C user then (Inl MFANotEnrolled, st)
                              else (case check_factor B C throttle (mfa_key S (us_id user)) True time now user code st of
                                      (Inl e, st) \<Rightarrow> (Inl e, st)
                                    | (Inr _, st) \<Rightarrow>
                                        (Inr (user\<lparr>us_last_login_at := Some now\<rparr>),
                                         put_db (update_user (us_id user) (\<lambda>u. u\<lparr>us_last_login_at := Some now\<rparr>) (working st)) st))))))"

subsection \<open>Enrolling and removing\<close>

text \<open>\<open>secret\<close> and \<open>plaintexts\<close> are the random values; the hash of a recovery code is a unique column.\<close>

definition mfa_enroll ::
  "'o account_config \<Rightarrow> BaseUserModel \<Rightarrow> string \<Rightarrow> string list \<Rightarrow>
     (('b, 'o) account_state, account_error, string \<times> string list) action" where
  "mfa_enroll C user secret plaintexts st =
     (if us_totp_enabled_at user \<noteq> None then (Inl MFAAlreadyEnrolled, st)
      else let db = working st;
               kept = filter (\<lambda>r. rc_user_id r \<noteq> us_id user) (ad_codes db);
               fresh = map (\<lambda>p. \<lparr>rc_user_id = us_id user, rc_code_hash = cf_digest C p, rc_used_at = None\<rparr>) plaintexts
           in if \<not> distinct (map rc_code_hash (kept @ fresh)) then (Inl UniqueViolation, st)
              else (Inr (secret, plaintexts),
                    put_db (update_user (us_id user) (\<lambda>u. u\<lparr>us_totp_secret := Some secret, us_totp_last_step := None\<rparr>)
                             (db\<lparr>ad_codes := kept @ fresh\<rparr>)) st))"

definition mfa_confirm ::
  "'o account_config \<Rightarrow> real \<Rightarrow> micros \<Rightarrow> BaseUserModel \<Rightarrow> string \<Rightarrow> bool \<Rightarrow>
     (('b, 'o) account_state, account_error, unit) action" where
  "mfa_confirm C time now user code revoke st =
     (if \<not> has_secret user then (Inl MFANotInitialized, st)
      else case claim_totp_step C time user code (working st) of
             (False, _) \<Rightarrow> (Inl InvalidMFACode, st)
           | (True, db) \<Rightarrow>
               (let st = put_db (update_user (us_id user) (\<lambda>u. u\<lparr>us_totp_enabled_at := Some now\<rparr>) db) st
                in (Inr (), if revoke then snd (revoke_sessions C (us_id user) now st) else st)))"

definition mfa_reset ::
  "'o account_config \<Rightarrow> micros \<Rightarrow> BaseUserModel \<Rightarrow> bool \<Rightarrow> bool \<Rightarrow> (('b, 'o) account_state, account_error, nat) action" where
  "mfa_reset C now user revoke revoke_passkeys st =
     (if \<not> has_secret user \<or> us_totp_enabled_at user = None then (Inl MFANotActive, st)
      else let db = update_user (us_id user)
                      (\<lambda>u. u\<lparr>us_totp_secret := None, us_totp_enabled_at := None, us_totp_last_step := None\<rparr>) (working st);
               db = db\<lparr>ad_codes := filter (\<lambda>r. rc_user_id r \<noteq> us_id user) (ad_codes db)\<rparr>;
               db = (if revoke_passkeys then snd (revoke_user_passkeys (cf_has_passkeys C) (us_id user) db) else db);
               st = put_db db st
           in if revoke then (let (n, st) = revoke_sessions C (us_id user) now st in (Inr n, st)) else (Inr 0, st))"

definition mfa_disable ::
  "'o account_config \<Rightarrow> real \<Rightarrow> micros \<Rightarrow> BaseUserModel \<Rightarrow> string \<Rightarrow> string \<Rightarrow>
     (('b, 'o) account_state, account_error, unit) action" where
  "mfa_disable C time now user password code st =
     (if \<not> cf_verify C password (us_hashed_password user) then (Inl WrongPassword, st)
      else if \<not> has_secret user \<or> us_totp_enabled_at user = None then (Inl MFANotActive, st)
      else case verify_mfa_code C time now user code (working st) of
             (False, _) \<Rightarrow> (Inl InvalidMFACode, st)
           | (True, db) \<Rightarrow>
               (case mfa_reset C now user False False (put_db db st) of
                  (Inl e, st) \<Rightarrow> (Inl e, st)
                | (Inr _, st) \<Rightarrow> (Inr (), st)))"

subsection \<open>Requests on the factor, one after the other\<close>

text \<open>Each loads its user, runs the handler and commits or forgets; \<open>None\<close> is a user that does not exist.\<close>

datatype 't mfa_op =
    Enroll uuid string "string list"
  | Confirm uuid string bool
  | Verify 't string
  | Reauthenticate uuid string "string option"
  | ChangeWithFactor uuid string string bool
  | Disable uuid string string

definition as_user ::
  "uuid \<Rightarrow> (BaseUserModel \<Rightarrow> (('b, 'o) account_state, account_error, unit) action) \<Rightarrow> (('b, 'o) account_state, account_error, unit) action" where
  "as_user i handler st = (case user_by_id i (working st) of None \<Rightarrow> (Inl UserMissing, st) | Some user \<Rightarrow> handler user st)"

definition drop_result :: "(('b, 'o) account_state, account_error, 'a) action \<Rightarrow> (('b, 'o) account_state, account_error, unit) action" where
  "drop_result handler st = (case handler st of (Inl e, st) \<Rightarrow> (Inl e, st) | (Inr _, st) \<Rightarrow> (Inr (), st))"

fun mfa_handler ::
  "'b throttle_backend \<Rightarrow> 'o account_config \<Rightarrow> 't token_service \<Rightarrow> AttemptThrottle option \<Rightarrow> bool \<Rightarrow> real \<Rightarrow> micros \<Rightarrow>
     't mfa_op \<Rightarrow> (('b, 'o) account_state, account_error, unit) action" where
  "mfa_handler B C S th has_codes time now (Enroll i secret plains) = as_user i (\<lambda>u. drop_result (mfa_enroll C u secret plains))"
| "mfa_handler B C S th has_codes time now (Confirm i code revoke) = as_user i (\<lambda>u. mfa_confirm C time now u code revoke)"
| "mfa_handler B C S th has_codes time now (Verify token code) = drop_result (mfa_verify B C S th time now token code)"
| "mfa_handler B C S th has_codes time now (Reauthenticate i pw code) = as_user i (\<lambda>u. reauthenticate B C S th has_codes time now u pw code)"
| "mfa_handler B C S th has_codes time now (ChangeWithFactor i code pw revoke) =
     as_user i (\<lambda>u. change_password_with_mfa B C S th has_codes time now u code pw revoke)"
| "mfa_handler B C S th has_codes time now (Disable i pw code) = as_user i (\<lambda>u. mfa_disable C time now u pw code)"

definition run_mfa_op ::
  "'b throttle_backend \<Rightarrow> 'o account_config \<Rightarrow> 't token_service \<Rightarrow> AttemptThrottle option \<Rightarrow> bool \<Rightarrow>
     real \<times> micros \<times> 't mfa_op \<Rightarrow> ('b, 'o) account_state \<Rightarrow> ('b, 'o) account_state" where
  "run_mfa_op B C S th has_codes step st =
     (case step of (time, now, op) \<Rightarrow> snd (account_route (mfa_handler B C S th has_codes time now op) st))"

definition run_mfa_ops ::
  "'b throttle_backend \<Rightarrow> 'o account_config \<Rightarrow> 't token_service \<Rightarrow> AttemptThrottle option \<Rightarrow> bool \<Rightarrow>
     (real \<times> micros \<times> 't mfa_op) list \<Rightarrow> ('b, 'o) account_state \<Rightarrow> ('b, 'o) account_state" where
  "run_mfa_ops B C S th has_codes steps st = fold (run_mfa_op B C S th has_codes) steps st"

text \<open>The account \<open>i\<close> has the active second factor with this secret.\<close>

definition armed :: "uuid \<Rightarrow> string \<Rightarrow> account_db \<Rightarrow> bool" where
  "armed i secret db \<longleftrightarrow>
     (case user_by_id i db of
        None \<Rightarrow> False
      | Some u \<Rightarrow> us_totp_secret u = Some secret \<and> us_totp_enabled_at u \<noteq> None)"

lemma armed_iff:
  "armed i secret db \<longleftrightarrow>
     (\<exists>u. user_by_id i db = Some u \<and> us_totp_secret u = Some secret \<and> us_totp_enabled_at u \<noteq> None)"
  by (simp add: armed_def split: option.splits)
lemma armed_update:
  assumes "armed i secret db" and "\<And>u. us_id (f u) = us_id u"
    and "j \<noteq> i \<or> (\<forall>u. us_totp_secret (f u) = us_totp_secret u \<and> (us_totp_enabled_at u \<noteq> None \<longrightarrow> us_totp_enabled_at (f u) \<noteq> None))"
  shows "armed i secret (update_user j f db)"
proof -
  obtain u where u: "user_by_id i db = Some u" "us_totp_secret u = Some secret" "us_totp_enabled_at u \<noteq> None"
    using assms(1) by (auto simp: armed_iff)
  then show ?thesis
    using assms(2,3) user_by_id_id [OF u(1)] by (auto simp: armed_iff user_by_id_update)
qed

lemma armed_other [simp]:
  "armed i secret (db\<lparr>ad_codes := cs\<rparr>) = armed i secret db" "armed i secret (db\<lparr>ad_refresh := rs\<rparr>) = armed i secret db"
  "armed i secret (db\<lparr>ad_passkeys := ps\<rparr>) = armed i secret db"
  by (simp_all add: armed_iff user_by_id_def)

lemma armed_revoke [simp]: "armed i secret (working (snd (revoke_sessions C j now st))) = armed i secret (working st)"
  by (simp add: armed_iff user_by_id_def)

lemma armed_claim:
  "armed i secret db \<Longrightarrow> armed i secret (snd (claim_totp_step C time user code db))"
  by (auto simp: claim_totp_step_def intro!: armed_update split: option.splits)

lemma armed_verify:
  "armed i secret db \<Longrightarrow> armed i secret (snd (verify_mfa_code C time now user code db))"
  using armed_claim [of i secret db C time user code]
  by (auto simp: verify_mfa_code_def Let_def split: prod.splits bool.splits option.splits)

lemma armed_check_code:
  "armed i secret db \<Longrightarrow> armed i secret (snd (check_code C has_codes time now user code db))"
  by (simp add: check_code_def armed_verify armed_claim)

text \<open>The database after a check is what it was, or what accepting the code makes of it.\<close>

lemma check_factor_working:
  assumes "check_factor B C th key has_codes time now user code st = (answer, st')"
  shows "working st' = working st \<and> (\<forall>x. answer \<noteq> Inr x) \<or>
    fst (check_code C has_codes time now user code (working st)) \<and>
    working st' = snd (check_code C has_codes time now user code (working st))"
proof (cases "spend_attempt B th key MfaThrottled st")
  case (Pair r st1)
  have w: "working st1 = working st" using spend_attempt_db(3) [of B th key MfaThrottled st] Pair by simp
  show ?thesis
  proof (cases r)
    case (Inl e)
    then show ?thesis using assms Pair w by (auto simp: check_factor_def)
  next
    case (Inr x)
    obtain ok db where c: "check_code C has_codes time now user code (working st1) = (ok, db)" by fastforce
    have "working s' = db" if "reset_attempts B th key (put_db db st1) = (a, s')" for a s'
      using reset_attempts_db(3) [of B th key "put_db db st1"] that by simp
    then show ?thesis using assms Pair w Inr c by (cases ok) (auto simp: check_factor_def)
  qed
qed

lemma check_factor_durable:
  "sess_durable (ac_session (snd (check_factor B C th key has_codes time now user code st))) = sess_durable (ac_session st)"
proof (cases "spend_attempt B th key MfaThrottled st")
  case (Pair r st1)
  have "ac_session st1 = ac_session st" using spend_attempt_db(1) [of B th key MfaThrottled st] Pair by simp
  then show ?thesis using Pair by (auto simp: check_factor_def split: sum.splits prod.splits bool.splits)
qed

lemma armed_check_factor:
  assumes "armed i secret (working st)"
  shows "armed i secret (working (snd (check_factor B C th key has_codes time now user code st)))"
  using check_factor_working [of B C th key has_codes time now user code st] armed_check_code [OF assms] assms
  by (metis prod.collapse)

lemma armed_change_password_with_mfa:
  assumes "armed i secret (working st)"
  shows "armed i secret (working (snd (change_password_with_mfa B C S th has_codes time now user code pw revoke st)))"
  using armed_check_factor [OF assms, of B C th "mfa_key S (us_id user)" has_codes time now user code] assms
  by (auto simp: change_password_with_mfa_def Let_def intro!: armed_update split: option.splits prod.splits sum.splits)

lemma armed_reauthenticate:
  assumes "armed i secret (working st)"
  shows "armed i secret (working (snd (reauthenticate B C S th has_codes time now user pw code st)))"
  using armed_check_factor [OF assms] assms
  by (auto simp: reauthenticate_def split: option.splits)

lemma armed_mfa_verify:
  assumes "armed i secret (working st)"
  shows "armed i secret (working (snd (mfa_verify B C S th time now token code st)))"
proof -
  have "armed i secret (working s)"
    if "check_factor B C th key True time now user code st = (r, s)" for key user r s
    using armed_check_factor [OF assms, of B C th key True time now user code] that by simp
  then show ?thesis
    using assms unfolding mfa_verify_def
    by (auto intro!: armed_update split: sum.splits option.splits prod.splits)
qed

lemma armed_mfa_confirm:
  assumes "armed i secret (working st)"
  shows "armed i secret (working (snd (mfa_confirm C time now user code revoke st)))"
  using armed_claim [OF assms, of C time user code] assms
  by (auto simp: mfa_confirm_def Let_def intro!: armed_update split: prod.splits bool.splits)

text \<open>Enrolling is refused over an active factor, of which the request loaded a current copy.\<close>

lemma armed_mfa_enroll:
  assumes "armed i secret (working st)" and "user_by_id j (working st) = Some user"
  shows "armed i secret (working (snd (mfa_enroll C user s plains st)))"
proof (cases "us_totp_enabled_at user = None")
  case True
  then have "us_id user \<noteq> i"
    using assms user_by_id_id [OF assms(2)] by (auto simp: armed_iff)
  with assms show ?thesis by (auto simp: mfa_enroll_def Let_def intro!: armed_update)
qed (simp add: mfa_enroll_def assms)

lemma armed_mfa_disable:
  assumes "armed i secret (working st)" and "user_by_id j (working st) = Some user"
    and "\<not> armed i secret (working (snd (mfa_disable C time now user pw code st)))"
  shows "j = i \<and> cf_verify C pw (us_hashed_password user) \<and> fst (verify_mfa_code C time now user code (working st))"
proof (cases "verify_mfa_code C time now user code (working st)")
  case (Pair ok db)
  have db: "armed i secret db" using armed_verify [OF assms(1), of C time now user code] Pair by simp
  have "armed i secret (working (snd (mfa_reset C now user False False (put_db db st))))" if "j \<noteq> i"
    using db user_by_id_id [OF assms(2)] that by (auto simp: mfa_reset_def intro!: armed_update)
  then show ?thesis
    using assms Pair by (auto simp: mfa_disable_def split: if_splits bool.splits prod.splits sum.splits)
qed

subsection \<open>The factor guards itself\<close>

definition settled :: "('b, 'o) account_state \<Rightarrow> bool" where
  "settled st \<longleftrightarrow> working st = sess_durable (ac_session st)"

lemma settled_account_route: "settled (snd (account_route handler st))"
  by (auto simp: account_route_def settled_def working_def session_defs split: prod.splits sum.splits)

text \<open>A route leaves the database of its handler when it returns, the one it found when it raises.\<close>

lemma account_route_working:
  assumes "settled st" and "sess_durable (ac_session (snd (handler st))) = sess_durable (ac_session st)"
  shows "working (snd (account_route handler st)) =
    (case fst (handler st) of Inl _ \<Rightarrow> working st | Inr _ \<Rightarrow> working (snd (handler st)))"
  using assms
  by (auto simp: account_route_def settled_def working_def session_defs split: prod.splits sum.splits)

definition keeps_durable :: "(('b, 'o) account_state, account_error, 'a) action \<Rightarrow> bool" where
  "keeps_durable handler \<longleftrightarrow> (\<forall>st. sess_durable (ac_session (snd (handler st))) = sess_durable (ac_session st))"

lemma revoke_sessions_durable:
  "revoke_sessions C i now st = (n, st') \<Longrightarrow> sess_durable (ac_session st') = sess_durable (ac_session st)"
  by (metis revoke_sessions_simps(7) snd_conv)

lemma keeps_durable_handlers:
  "keeps_durable (check_factor B C th key has_codes time now user code)"
  "keeps_durable (mfa_enroll C user secret plains)" "keeps_durable (mfa_confirm C time now user code revoke)"
  "keeps_durable (mfa_reset C now user revoke passkeys)"
  by (auto simp: keeps_durable_def check_factor_durable mfa_enroll_def mfa_confirm_def mfa_reset_def Let_def
      split: prod.splits bool.splits dest!: revoke_sessions_durable)

lemma keeps_durableD: "keeps_durable handler \<Longrightarrow> handler st = (r, st') \<Longrightarrow> sess_durable (ac_session st') = sess_durable (ac_session st)"
  by (metis keeps_durable_def snd_conv)

lemmas check_durable = keeps_durable_handlers(1) [THEN keeps_durableD]

lemma keeps_durable_reauthenticate: "keeps_durable (reauthenticate B C S th has_codes time now user pw code)"
  by (auto simp: keeps_durable_def reauthenticate_def check_factor_durable split: option.splits)

lemma keeps_durable_change_password:
  "keeps_durable (change_password_with_mfa B C S th has_codes time now user c new revoke)"
  by (auto simp: keeps_durable_def change_password_with_mfa_def Let_def
      split: option.splits prod.splits sum.splits dest!: check_durable)

lemma keeps_durable_mfa_verify: "keeps_durable (mfa_verify B C S th time now token c)"
  unfolding keeps_durable_def mfa_verify_def
  by (auto split: sum.splits option.splits prod.splits dest!: check_durable)

lemma keeps_durable_mfa_disable: "keeps_durable (mfa_disable C time now user pw c)"
  by (auto simp: keeps_durable_def mfa_disable_def split: prod.splits bool.splits sum.splits
      dest!: keeps_durable_handlers(4) [THEN keeps_durableD])

lemma keeps_durable_drop_result: "keeps_durable handler \<Longrightarrow> keeps_durable (drop_result handler)"
  by (auto simp: keeps_durable_def drop_result_def split: prod.splits sum.splits) (metis snd_conv)+

lemma keeps_durable_as_user: "(\<And>u. keeps_durable (handler u)) \<Longrightarrow> keeps_durable (as_user i handler)"
  by (simp add: keeps_durable_def as_user_def split: option.splits)

lemma keeps_durable_mfa_handler: "keeps_durable (mfa_handler B C S th has_codes time now op)"
  by (cases op) (simp_all add: keeps_durable_as_user keeps_durable_drop_result keeps_durable_handlers
      keeps_durable_reauthenticate keeps_durable_change_password keeps_durable_mfa_verify keeps_durable_mfa_disable)

text \<open>One request: the factor survives, or it is the request that removes it, with both proofs.\<close>

lemma run_mfa_op_armed:
  assumes "settled st" and "armed i secret (working st)"
    and "\<not> armed i secret (working (run_mfa_op B C S th has_codes (time, now, op) st))"
  shows "\<exists>pw code u. op = Disable i pw code \<and> user_by_id i (working st) = Some u \<and>
    cf_verify C pw (us_hashed_password u) \<and> fst (verify_mfa_code C time now u code (working st))"
proof -
  let ?h = "mfa_handler B C S th has_codes time now op"
  have gone: "\<not> armed i secret (working (snd (?h st)))"
    using assms account_route_working [OF assms(1), of ?h] keeps_durable_mfa_handler [of B C S th has_codes time now op]
    by (auto simp: run_mfa_op_def keeps_durable_def split: sum.splits)
  have keep: "armed i secret (working (snd (drop_result h st)))" if "armed i secret (working (snd (h st)))" for h
    using that by (auto simp: drop_result_def split: prod.splits sum.splits)
  show ?thesis
  proof (cases op)
    case (Enroll j s plains)
    have "armed i secret (working (snd (drop_result (mfa_enroll C u s plains) st)))" if "user_by_id j (working st) = Some u" for u
      by (rule keep) (rule armed_mfa_enroll [OF assms(2) that])
    with gone Enroll assms(2) show ?thesis by (auto simp: as_user_def split: option.splits)
  next
    case (Verify token code)
    have "armed i secret (working (snd (drop_result (mfa_verify B C S th time now token code) st)))"
      by (rule keep) (rule armed_mfa_verify [OF assms(2)])
    with gone Verify show ?thesis by simp
  next
    case (Disable j pw code)
    then show ?thesis
      using gone assms(2) armed_mfa_disable [OF assms(2)] by (fastforce simp: as_user_def split: option.splits)
  qed (use gone assms(2) in \<open>auto simp: as_user_def armed_mfa_confirm armed_reauthenticate
         armed_change_password_with_mfa split: option.splits\<close>)
qed

lemma run_mfa_ops_armed:
  assumes "settled st" and "armed i secret (working st)"
  shows "armed i secret (working (run_mfa_ops B C S th has_codes steps st)) \<or>
    (\<exists>pre post time now pw code u. steps = pre @ (time, now, Disable i pw code) # post \<and>
       user_by_id i (working (run_mfa_ops B C S th has_codes pre st)) = Some u \<and> cf_verify C pw (us_hashed_password u) \<and>
       fst (verify_mfa_code C time now u code (working (run_mfa_ops B C S th has_codes pre st))))"
  using assms
proof (induction steps arbitrary: st)
  case (Cons step steps)
  obtain time now op where step: "step = (time, now, op)" by (cases step)
  let ?st = "run_mfa_op B C S th has_codes step st"
  have settled: "settled ?st" by (simp add: run_mfa_op_def step settled_account_route)
  show ?case
  proof (cases "armed i secret (working ?st)")
    case True
    from Cons.IH [OF settled True] show ?thesis
    proof (elim disjE exE conjE)
      fix pre post time' now' pw code u
      assume "steps = pre @ (time', now', Disable i pw code) # post"
        "user_by_id i (working (run_mfa_ops B C S th has_codes pre ?st)) = Some u" "cf_verify C pw (us_hashed_password u)"
        "fst (verify_mfa_code C time' now' u code (working (run_mfa_ops B C S th has_codes pre ?st)))"
      then show ?thesis
        by (intro disjI2 exI [of _ "step # pre"] exI [of _ post] exI [of _ time'] exI [of _ now'] exI [of _ pw]
            exI [of _ code] exI [of _ u]) (simp add: run_mfa_ops_def)
    qed (simp add: run_mfa_ops_def)
  next
    case False
    from run_mfa_op_armed [OF Cons.prems, of B C S th has_codes time now op] False
    obtain pw code u where "op = Disable i pw code" "user_by_id i (working st) = Some u"
        "cf_verify C pw (us_hashed_password u)" "fst (verify_mfa_code C time now u code (working st))"
      by (auto simp: step)
    then show ?thesis
      by (intro disjI2 exI [of _ "[]"] exI [of _ steps] exI [of _ time] exI [of _ now] exI [of _ pw]
          exI [of _ code] exI [of _ u]) (simp add: run_mfa_ops_def step)
  qed
qed (simp add: run_mfa_ops_def)

text \<open>
  C19. An active second factor guards itself. However requests of any users to enroll, confirm, log in,
  prove a factor, change a password or disable the factor follow one another, the account keeps its
  secret and stays enrolled, unless one of them was a request of that user to disable it whose
  password was right and whose code was accepted at that moment.
\<close>

theorem factor_needs_password_and_code:
  assumes "settled st" and "armed i secret (working st)"
    and "\<not> armed i secret (working (run_mfa_ops B C S th has_codes steps st))"
  shows "\<exists>pre post time now pw code u. steps = pre @ (time, now, Disable i pw code) # post \<and>
    user_by_id i (working (run_mfa_ops B C S th has_codes pre st)) = Some u \<and> cf_verify C pw (us_hashed_password u) \<and>
    fst (verify_mfa_code C time now u code (working (run_mfa_ops B C S th has_codes pre st)))"
  using run_mfa_ops_armed [OF assms(1,2), of B C S th has_codes steps] assms(3) by blast

definition demo_config :: "unit account_config" where
  "demo_config = \<lparr>cf_email = Some True, cf_environment = None, cf_return_token = False, cf_auto_activate = False,
     cf_single_active_token = True, cf_notify_old = True, cf_reveal_inactive = False,
     cf_activation_ttl = 3600, cf_reset_ttl = 600, cf_email_change_ttl = 600, cf_verification_ttl = 600,
     cf_refuses_email_link = None,
     cf_policy = \<lparr>pp_min_length = 4, pp_max_bytes = 72, pp_require_complexity = False\<rparr>,
     cf_verify = (=), cf_hash = (\<lambda>s. s), cf_digest = (\<lambda>s. CHR ''#'' # s),
     cf_has_refresh = True, cf_has_passkeys = True, cf_revokers = [], cf_mfa_enabled = True, cf_mfa_window = 1,
     cf_code = (\<lambda>secret step. if step = 1 then ''000001'' else ''999999'')\<rparr>"

definition demo_armed_user :: BaseUserModel where
  "demo_armed_user = demo_user\<lparr>us_totp_secret := Some ''s'', us_totp_enabled_at := Some 5\<rparr>"

definition demo_account :: "(mem_throttle, unit) account_state" where
  "demo_account = \<lparr>ac_session = fresh_session \<lparr>ad_users = [demo_armed_user], ad_links = [],
       ad_codes = [\<lparr>rc_user_id = 7, rc_code_hash = ''#code'', rc_used_at = None\<rparr>], ad_refresh = [], ad_passkeys = []\<rparr>,
     ac_throttle = fresh_backend, ac_others = (), ac_mail = []\<rparr>"

lemma demo_account_armed: "settled demo_account" "armed 7 ''s'' (working demo_account)"
  by (simp_all add: settled_def armed_iff user_by_id_def working_def demo_account_def demo_armed_user_def demo_user_def)

theorem factor_needs_password_and_code_witness:
  "\<exists>pre post time now pw code u. [(0, 9, Disable 7 ''h'' ''code'')] = pre @ (time, now, Disable 7 pw code) # post \<and>
     user_by_id 7 (working (run_mfa_ops mem_backend demo_config demo_tokens None True pre demo_account)) = Some u \<and>
     cf_verify demo_config pw (us_hashed_password u) \<and>
     fst (verify_mfa_code demo_config time now u code
       (working (run_mfa_ops mem_backend demo_config demo_tokens None True pre demo_account)))"
proof (rule factor_needs_password_and_code [OF demo_account_armed])
  show "\<not> armed 7 ''s'' (working (run_mfa_ops mem_backend demo_config demo_tokens None True [(0, 9, Disable 7 ''h'' ''code'')] demo_account))"
    by code_simp
qed

end
