(* ===== verification/Factor_Races.thy ===== *)
theory Factor_Races
  imports Second_Factor
begin

text \<open>
  What guessing and racing make of the second factor: how many codes may be tried in a window of the
  throttle, time-based codes that are presented at the same time (\<open>totp_reach\<close>), and recovery codes
  that are (\<open>recovery_reach\<close>). The database is at READ COMMITTED, the level a server has by default.
\<close>

subsection \<open>Guessing\<close>

text \<open>Attempts on one key: the seconds since the one before, and what \<open>check_factor\<close> is called with.\<close>

type_synonym factor_attempt = "real \<times> real \<times> micros \<times> BaseUserModel \<times> string"

fun attempt_answers ::
  "'b throttle_backend \<Rightarrow> (real \<Rightarrow> 'b \<Rightarrow> 'b) \<Rightarrow> 'o account_config \<Rightarrow> AttemptThrottle \<Rightarrow> string \<Rightarrow> bool \<Rightarrow>
     factor_attempt list \<Rightarrow> ('b, 'o) account_state \<Rightarrow> (account_error + unit) list" where
  "attempt_answers B tick C th key has_codes [] st = []"
| "attempt_answers B tick C th key has_codes ((delay, time, now, user, code) # attempts) st =
     (case check_factor B C (Some th) key has_codes time now user code (st\<lparr>ac_throttle := tick delay (ac_throttle st)\<rparr>) of
        (answer, st) \<Rightarrow> answer # attempt_answers B tick C th key has_codes attempts st)"

context throttle_verbs
begin

lemma reset_attempts_returns: "\<exists>st'. reset_attempts B (Some th) key st = (Inr (), st')"
  using verb_delete [of "throttle_key th key" "ac_throttle st"] by (auto simp: reset_attempts_def on_throttle_def reset_def)

text \<open>One attempt counts, and past the budget it is refused without a look at the code.\<close>

lemma check_factor_counts:
  assumes w: "0 < th_window_seconds th" and k: "k = throttle_key th key"
    and c: "c = entry_count (view (ac_throttle st) k)"
    and run: "check_factor B C (Some th) key has_codes time t user code st = (answer, st')"
    and wrong: "c < th_max_attempts th \<Longrightarrow> answer \<noteq> Inr ()"
  shows "view (ac_throttle st') k = Some (c + 1, if c = 0 then Some (now (ac_throttle st) + of_int (th_window_seconds th))
        else entry_expiry (view (ac_throttle st) k)) \<and> now (ac_throttle st') = now (ac_throttle st) \<and>
    (if c < th_max_attempts th then answer = Inl InvalidMFACode else \<exists>n. answer = Inl (MfaThrottled n))"
proof -
  obtain left b where h: "hit B th key (ac_throttle st) = (Inr (status_of th (c + 1) left), b)"
    "now b = now (ac_throttle st)"
    "view b k = Some (c + 1, if c = 0 then Some (now (ac_throttle st) + of_int (th_window_seconds th))
        else entry_expiry (view (ac_throttle st) k))"
    using hit_effect [OF w k, of "ac_throttle st"] c by auto
  have spend: "spend_attempt B (Some th) key MfaThrottled st =
    (if th_max_attempts th < c + 1 then (Inl (MfaThrottled (ts_retry_after_seconds (status_of th (c + 1) left))), st\<lparr>ac_throttle := b\<rparr>)
     else (Inr (), st\<lparr>ac_throttle := b\<rparr>))"
    using h(1) by (simp add: spend_attempt_def on_throttle_def status_of_def Let_def)
  show ?thesis
  proof (cases "c < th_max_attempts th")
    case True
    obtain ok db where check: "check_code C has_codes time t user code (working (st\<lparr>ac_throttle := b\<rparr>)) = (ok, db)"
      by fastforce
    obtain st2 where "reset_attempts B (Some th) key (put_db db (st\<lparr>ac_throttle := b\<rparr>)) = (Inr (), st2)"
      using reset_attempts_returns by blast
    with run spend True wrong check have "\<not> ok" by (auto simp: check_factor_def)
    with run spend True check have "answer = Inl InvalidMFACode" "st' = st\<lparr>ac_throttle := b\<rparr>"
      by (auto simp: check_factor_def)
    with h True show ?thesis by simp
  qed (use run h spend in \<open>auto simp: check_factor_def\<close>)
qed

lemma attempts_in_window:
  assumes w: "0 < th_window_seconds th" and k: "k = throttle_key th key"
    and v: "view (ac_throttle st) k = Some (c, Some e)" and c: "1 \<le> c"
    and d: "\<forall>a \<in> set attempts. 0 \<le> fst a" and before: "now (ac_throttle st) + sum_list (map fst attempts) < e"
    and wrong: "Inr () \<notin> set (take (nat (th_max_attempts th - c)) (attempt_answers B tick C th key has_codes attempts st))"
    and j: "j < length attempts"
  shows "if c + int j < th_max_attempts th then attempt_answers B tick C th key has_codes attempts st ! j = Inl InvalidMFACode
    else \<exists>n. attempt_answers B tick C th key has_codes attempts st ! j = Inl (MfaThrottled n)"
  using v c d before wrong j
proof (induction attempts arbitrary: st c j)
  case (Cons a attempts)
  obtain delay time t user code where a: "a = (delay, time, t, user, code)" by (cases a)
  let ?st = "st\<lparr>ac_throttle := tick delay (ac_throttle st)\<rparr>"
  obtain answer st' where run: "check_factor B C (Some th) key has_codes time t user code ?st = (answer, st')"
    by fastforce
  have rest: "0 \<le> sum_list (map fst attempts)" using Cons.prems(3) by (intro sum_list_nonneg) auto
  have v1: "view (ac_throttle ?st) k = Some (c, Some e)" "now (ac_throttle ?st) = now (ac_throttle st) + delay"
    using Cons.prems(1,3,4) rest tick_view [of delay "ac_throttle st" k] by (auto simp: a tick_now)
  have first: "answer \<noteq> Inr ()" if "c < th_max_attempts th"
    using Cons.prems(5) that by (cases "nat (th_max_attempts th - c)") (auto simp: a run)
  note step = check_factor_counts [OF w k, of c ?st, OF _ run first]
  have later: "Inr () \<notin> set (take (nat (th_max_attempts th - (c + 1))) (attempt_answers B tick C th key has_codes attempts st'))"
  proof (cases "c < th_max_attempts th")
    case True
    then have "nat (th_max_attempts th - c) = Suc (nat (th_max_attempts th - (c + 1)))" by linarith
    with Cons.prems(5) show ?thesis by (simp add: a run)
  qed simp
  show ?case
  proof (cases j)
    case 0
    with step v1 show ?thesis by (auto simp: a run)
  next
    case (Suc i)
    have "if c + 1 + int i < th_max_attempts th then attempt_answers B tick C th key has_codes attempts st' ! i = Inl InvalidMFACode
      else \<exists>n. attempt_answers B tick C th key has_codes attempts st' ! i = Inl (MfaThrottled n)"
      by (rule Cons.IH [OF _ _ _ _ later]) (use step v1 Cons.prems Suc in \<open>auto simp: a\<close>)
    with Suc show ?thesis by (simp add: a run add.assoc)
  qed
qed simp

lemma attempts_from_fresh:
  assumes w: "0 < th_window_seconds th" "1 \<le> th_max_attempts th" and k: "k = throttle_key th key"
    and v: "view (ac_throttle st) k = None"
    and d: "\<forall>a \<in> set attempts. 0 \<le> fst a" and before: "sum_list (map fst (tl attempts)) < of_int (th_window_seconds th)"
    and wrong: "Inr () \<notin> set (take (nat (th_max_attempts th)) (attempt_answers B tick C th key has_codes attempts st))"
    and j: "j < length attempts"
  shows "if int j < th_max_attempts th then attempt_answers B tick C th key has_codes attempts st ! j = Inl InvalidMFACode
    else \<exists>n. attempt_answers B tick C th key has_codes attempts st ! j = Inl (MfaThrottled n)"
proof (cases attempts)
  case (Cons a rest)
  obtain delay time t user code where a: "a = (delay, time, t, user, code)" by (cases a)
  let ?st = "st\<lparr>ac_throttle := tick delay (ac_throttle st)\<rparr>"
  obtain answer st' where run: "check_factor B C (Some th) key has_codes time t user code ?st = (answer, st')"
    by fastforce
  have v1: "view (ac_throttle ?st) k = None" using v d tick_view [of delay "ac_throttle st" k] by (simp add: Cons a)
  have n: "nat (th_max_attempts th) = Suc (nat (th_max_attempts th - 1))" using w by linarith
  have first: "answer \<noteq> Inr ()" using wrong w(2) by (auto simp: Cons a run n)
  have step: "view (ac_throttle st') k = Some (1, Some (now (ac_throttle st') + of_int (th_window_seconds th)))"
      "answer = Inl InvalidMFACode"
    using check_factor_counts [OF w(1) k _ run, of 0] v1 first w(2) by simp_all
  show ?thesis
  proof (cases j)
    case 0
    with step w show ?thesis by (simp add: Cons a run)
  next
    case (Suc i)
    have "if 1 + int i < th_max_attempts th then attempt_answers B tick C th key has_codes rest st' ! i = Inl InvalidMFACode
      else \<exists>n. attempt_answers B tick C th key has_codes rest st' ! i = Inl (MfaThrottled n)"
      by (rule attempts_in_window [OF w(1) k step(1)]) (use wrong d before j Suc in \<open>auto simp: Cons a run n\<close>)
    with Suc show ?thesis by (simp add: Cons a run)
  qed
qed (use j in simp)

end

text \<open>
  Guessing is bounded by the throttle, not by the number of requests. On a fresh key of the
  in-process backend, in a window in which the first \<^verbatim>\<open>max_attempts\<close> codes are all wrong, each of them is
  answered as an invalid code, and every later one is turned away unread, the right code included.
\<close>

theorem guesses_are_bounded:
  assumes "0 < th_window_seconds th" and "1 \<le> th_max_attempts th"
    and "mem_view (ac_throttle st) (throttle_key th key) = None"
    and "\<forall>a \<in> set attempts. 0 \<le> fst a" and "sum_list (map fst (tl attempts)) < of_int (th_window_seconds th)"
    and "Inr () \<notin> set (take (nat (th_max_attempts th)) (attempt_answers mem_backend mem_tick C th key has_codes attempts st))"
    and "j < length attempts"
  shows "if int j < th_max_attempts th
    then attempt_answers mem_backend mem_tick C th key has_codes attempts st ! j = Inl InvalidMFACode
    else \<exists>n. attempt_answers mem_backend mem_tick C th key has_codes attempts st ! j = Inl (MfaThrottled n)"
  by (rule mem.attempts_from_fresh [OF assms(1,2) refl assms(3-7)])

text \<open>Two wrong codes spend the budget of two; the recovery code of the account is not looked at.\<close>

theorem guesses_are_bounded_witness:
  "\<exists>n. attempt_answers mem_backend mem_tick demo_config demo_throttle ''mfa:7'' True
     [(0, 0, 9, demo_armed_user, ''x''), (1, 0, 9, demo_armed_user, ''y''), (1, 0, 9, demo_armed_user, ''code'')] demo_account ! 2 =
     Inl (MfaThrottled n)"
proof -
  let ?as = "[(0, 0, 9, demo_armed_user, ''x''), (1, 0, 9, demo_armed_user, ''y''), (1, 0, 9, demo_armed_user, ''code'')]"
  have fresh: "mem_view (ac_throttle demo_account) (throttle_key demo_throttle ''mfa:7'') = None"
    by (simp add: mem_view_def demo_account_def fresh_backend_def)
  have wrong: "Inr () \<notin> set (take (nat (th_max_attempts demo_throttle))
      (attempt_answers mem_backend mem_tick demo_config demo_throttle ''mfa:7'' True ?as demo_account))"
    by code_simp
  show ?thesis
    using guesses_are_bounded [OF _ _ fresh _ _ wrong, of 2] by (simp add: demo_throttle_def)
qed


subsection \<open>Time-based codes at the same time\<close>

text \<open>
  The \<^verbatim>\<open>UPDATE\<close> of a claim waits for the transaction that last wrote the row of the user to end, decides
  on the committed step, and holds the row until its own request commits or fails. The row starts with
  the step \<open>l0\<close>, the state after an enrolment being \<open>None\<close>; \<open>tr_accepted\<close> lists the steps of committed
  requests, the newest first.
\<close>

datatype totp_task = Matched int | Claimed int | Answered bool

record totp_state =
  tr_last_step :: "int option"
  tr_tasks :: "totp_task list"
  tr_accepted :: "int list"

definition is_claimed :: "totp_task \<Rightarrow> bool" where
  "is_claimed task = (case task of Claimed _ \<Rightarrow> True | _ \<Rightarrow> False)"

definition row_free :: "totp_state \<Rightarrow> bool" where
  "row_free st \<longleftrightarrow> list_all (\<lambda>task. \<not> is_claimed task) (tr_tasks st)"

inductive totp_reach :: "(string \<Rightarrow> int \<Rightarrow> string) \<Rightarrow> string \<Rightarrow> int \<Rightarrow> int option \<Rightarrow> totp_state \<Rightarrow> bool"
  for otp :: "string \<Rightarrow> int \<Rightarrow> string" and secret :: string and window :: int and l0 :: "int option" where
  enrolled: "totp_reach otp secret window l0 \<lparr>tr_last_step = l0, tr_tasks = [], tr_accepted = []\<rparr>"
| matches: "totp_reach otp secret window l0 st \<Longrightarrow> matching_step otp secret code window time = Some step \<Longrightarrow>
    totp_reach otp secret window l0 (st\<lparr>tr_tasks := tr_tasks st @ [Matched step]\<rparr>)"
| claims: "totp_reach otp secret window l0 st \<Longrightarrow> i < length (tr_tasks st) \<Longrightarrow> tr_tasks st ! i = Matched step \<Longrightarrow>
    row_free st \<Longrightarrow> step_free (tr_last_step st) step \<Longrightarrow>
    totp_reach otp secret window l0 (st\<lparr>tr_tasks := (tr_tasks st)[i := Claimed step]\<rparr>)"
| late: "totp_reach otp secret window l0 st \<Longrightarrow> i < length (tr_tasks st) \<Longrightarrow> tr_tasks st ! i = Matched step \<Longrightarrow>
    row_free st \<Longrightarrow> \<not> step_free (tr_last_step st) step \<Longrightarrow>
    totp_reach otp secret window l0 (st\<lparr>tr_tasks := (tr_tasks st)[i := Answered False]\<rparr>)"
| commits: "totp_reach otp secret window l0 st \<Longrightarrow> i < length (tr_tasks st) \<Longrightarrow> tr_tasks st ! i = Claimed step \<Longrightarrow>
    totp_reach otp secret window l0
      (st\<lparr>tr_last_step := Some step, tr_tasks := (tr_tasks st)[i := Answered True], tr_accepted := step # tr_accepted st\<rparr>)"
| rolls_back: "totp_reach otp secret window l0 st \<Longrightarrow> i < length (tr_tasks st) \<Longrightarrow> tr_tasks st ! i = Claimed step \<Longrightarrow>
    totp_reach otp secret window l0 (st\<lparr>tr_tasks := (tr_tasks st)[i := Answered False]\<rparr>)"

text \<open>The relation moves as \<open>claim_totp_step\<close> does.\<close>

lemma claim_totp_step_iff:
  assumes "user_by_id (us_id user) db = Some row" and "has_secret user"
  shows "fst (claim_totp_step C time user code db) \<longleftrightarrow>
      (\<exists>step. matching_step (cf_code C) (the (us_totp_secret user)) code (cf_mfa_window C) time = Some step \<and>
        step_free (us_totp_last_step row) step)"
  using assms by (simp add: claim_totp_step_def split: option.splits)

definition totp_ok :: "int option \<Rightarrow> totp_state \<Rightarrow> bool" where
  "totp_ok l0 st \<longleftrightarrow> sorted_wrt (>) (tr_accepted st) \<and> (\<forall>s \<in> set (tr_accepted st). step_free l0 s) \<and>
     tr_last_step st = (case tr_accepted st of [] \<Rightarrow> l0 | s # _ \<Rightarrow> Some s) \<and>
     (\<forall>i step. i < length (tr_tasks st) \<longrightarrow> tr_tasks st ! i = Claimed step \<longrightarrow>
        step_free (tr_last_step st) step \<and> (\<forall>j < length (tr_tasks st). is_claimed (tr_tasks st ! j) \<longrightarrow> j = i))"

lemma is_claimed_simps [simp]: "\<not> is_claimed (Matched s)" "is_claimed (Claimed s)" "\<not> is_claimed (Answered b)"
  by (simp_all add: is_claimed_def)

lemma row_freeD: "row_free st \<Longrightarrow> j < length (tr_tasks st) \<Longrightarrow> \<not> is_claimed (tr_tasks st ! j)"
  by (simp add: row_free_def list_all_length)

lemma row_free_unclaimed: "row_free st \<Longrightarrow> j < length (tr_tasks st) \<Longrightarrow> tr_tasks st ! j \<noteq> Claimed s"
  using row_freeD by force

lemma falling_distinct: "sorted_wrt (>) (xs :: int list) \<Longrightarrow> distinct xs"
  by (induction xs) auto

lemma totp_ok_accept:
  assumes "totp_ok l0 st" and "step_free (tr_last_step st) step"
  shows "sorted_wrt (>) (step # tr_accepted st) \<and> step_free l0 step"
  using assms by (auto simp: totp_ok_def step_free_def split: list.splits option.splits)

lemma totp_reach_ok: "totp_reach otp secret window l0 st \<Longrightarrow> totp_ok l0 st"
proof (induction rule: totp_reach.induct)
  case (matches st code time step)
  then show ?case by (auto simp: totp_ok_def nth_append)
next
  case (claims st i step)
  then show ?case using row_freeD [OF claims.hyps(4)] row_free_unclaimed [OF claims.hyps(4)]
    by (auto simp: totp_ok_def nth_list_update split: if_splits)
next
  case (late st i step)
  then show ?case using row_freeD [OF late.hyps(4)] row_free_unclaimed [OF late.hyps(4)]
    by (auto simp: totp_ok_def nth_list_update split: if_splits)
next
  case (commits st i step)
  have free: "step_free (tr_last_step st) step" and only: "\<And>j. j < length (tr_tasks st) \<Longrightarrow> is_claimed (tr_tasks st ! j) \<Longrightarrow> j = i"
    using commits by (auto simp: totp_ok_def)
  have "(tr_tasks st)[i := Answered True] ! j \<noteq> Claimed s" if "j < length (tr_tasks st)" for j s
    using only [OF that] commits.hyps(2) that by (cases "j = i") auto
  then show ?case
    using totp_ok_accept [OF commits.IH free] commits.IH
    by (auto simp: totp_ok_def nth_list_update split: if_splits)
next
  case (rolls_back st i step)
  then show ?case by (auto simp: totp_ok_def nth_list_update split: if_splits)
qed (simp add: totp_ok_def)

text \<open>
  C20. A time-based code is accepted at most once: whatever requests present codes at the same time,
  commit or fail, the steps accepted since the factor was set up are strictly increasing, all later
  than the step the row started with, and at no time do two requests hold the row.
\<close>

theorem totp_step_is_spent_once:
  assumes "totp_reach otp secret window l0 st"
  shows "sorted_wrt (>) (tr_accepted st) \<and> distinct (tr_accepted st) \<and> (\<forall>s \<in> set (tr_accepted st). step_free l0 s) \<and>
    tr_last_step st = (case tr_accepted st of [] \<Rightarrow> l0 | s # _ \<Rightarrow> Some s) \<and> length (filter is_claimed (tr_tasks st)) \<le> 1"
proof -
  note ok = totp_reach_ok [OF assms]
  then have sorted: "sorted_wrt (>) (tr_accepted st)" by (simp add: totp_ok_def)
  then have "distinct (tr_accepted st)" by (rule falling_distinct)
  moreover have "card {i. i < length (tr_tasks st) \<and> is_claimed (tr_tasks st ! i)} \<le> 1"
  proof (rule card_le_Suc0_iff_eq [THEN iffD2, folded One_nat_def], simp, intro ballI)
    fix i j
    assume i: "i \<in> {i. i < length (tr_tasks st) \<and> is_claimed (tr_tasks st ! i)}"
      and j: "j \<in> {i. i < length (tr_tasks st) \<and> is_claimed (tr_tasks st ! i)}"
    then obtain step where "tr_tasks st ! j = Claimed step" by (auto simp: is_claimed_def split: totp_task.splits)
    with ok i j show "i = j" by (auto simp: totp_ok_def)
  qed
  ultimately show ?thesis using ok sorted by (simp add: totp_ok_def length_filter_conv_card)
qed

text \<open>The same code twice at the same time: the first request to reach the row wins.\<close>

theorem totp_step_is_spent_once_witness:
  "\<exists>st. totp_reach (cf_code demo_config) ''s'' 1 None st \<and> tr_tasks st = [Answered True, Answered False] \<and>
     tr_accepted st = [1] \<and> distinct (tr_accepted st)"
proof -
  let ?r = "totp_reach (cf_code demo_config) ''s'' 1 None"
  have m: "matching_step (cf_code demo_config) ''s'' ''000001'' 1 30 = Some 1"
    by code_simp
  have "?r \<lparr>tr_last_step = None, tr_tasks = [Matched 1], tr_accepted = []\<rparr>"
    using totp_reach.matches [OF totp_reach.enrolled m] by simp
  from totp_reach.matches [OF this m]
  have "?r \<lparr>tr_last_step = None, tr_tasks = [Matched 1, Matched 1], tr_accepted = []\<rparr>" by simp
  from totp_reach.claims [OF this, of 0 1]
  have "?r \<lparr>tr_last_step = None, tr_tasks = [Claimed 1, Matched 1], tr_accepted = []\<rparr>"
    by (simp add: row_free_def step_free_def)
  from totp_reach.commits [OF this, of 0 1]
  have "?r \<lparr>tr_last_step = Some 1, tr_tasks = [Answered True, Matched 1], tr_accepted = [1]\<rparr>" by simp
  from totp_reach.late [OF this, of 1 1]
  have "?r \<lparr>tr_last_step = Some 1, tr_tasks = [Answered True, Answered False], tr_accepted = [1]\<rparr>"
    by (simp add: row_free_def step_free_def)
  from this totp_step_is_spent_once [OF this] show ?thesis by fastforce
qed

subsection \<open>Recovery codes at the same time\<close>

text \<open>
  The row of a recovery code is read, then written by its primary key: the write has no condition on
  \<^verbatim>\<open>used_at\<close>. One account, one code with the hash \<open>h\<close>; the request of task \<open>i\<close> has found the code, or
  has answered.
\<close>

datatype recovery_task = Submitted | Found | Replied bool

record recovery_state =
  ry_codes :: "recovery_row list"
  ry_tasks :: "recovery_task list"

inductive recovery_reach :: "uuid \<Rightarrow> string \<Rightarrow> recovery_state \<Rightarrow> recovery_state \<Rightarrow> bool"
  for user_id :: uuid and h :: string and st0 :: recovery_state where
  idle: "recovery_reach user_id h st0 st0"
| submits: "recovery_reach user_id h st0 st \<Longrightarrow> recovery_reach user_id h st0 (st\<lparr>ry_tasks := ry_tasks st @ [Submitted]\<rparr>)"
| selects: "recovery_reach user_id h st0 st \<Longrightarrow> i < length (ry_tasks st) \<Longrightarrow> ry_tasks st ! i = Submitted \<Longrightarrow>
    recovery_reach user_id h st0
      (st\<lparr>ry_tasks := (ry_tasks st)[i := (case find (code_usable user_id h) (ry_codes st) of None \<Rightarrow> Replied False | Some _ \<Rightarrow> Found)]\<rparr>)"
| stamps: "recovery_reach user_id h st0 st \<Longrightarrow> i < length (ry_tasks st) \<Longrightarrow> ry_tasks st ! i = Found \<Longrightarrow>
    recovery_reach user_id h st0 \<lparr>ry_codes = stamp_code h now (ry_codes st), ry_tasks = (ry_tasks st)[i := Replied True]\<rparr>"
| breaks: "recovery_reach user_id h st0 st \<Longrightarrow> i < length (ry_tasks st) \<Longrightarrow> ry_tasks st ! i = Found \<Longrightarrow>
    recovery_reach user_id h st0 (st\<lparr>ry_tasks := (ry_tasks st)[i := Replied False]\<rparr>)"

definition code_spent :: "uuid \<Rightarrow> string \<Rightarrow> recovery_state \<Rightarrow> bool" where
  "code_spent user_id h st \<longleftrightarrow> list_all (\<lambda>r. \<not> code_usable user_id h r) (ry_codes st) \<and> Found \<notin> set (ry_tasks st)"

definition times_accepted :: "recovery_state \<Rightarrow> nat" where
  "times_accepted st = length (filter ((=) (Replied True)) (ry_tasks st))"

lemma stamp_code_spends: "list_all (\<lambda>r. \<not> code_usable user_id h r) (stamp_code h now codes)"
  by (induction codes) (simp_all add: stamp_code_def code_usable_def)

lemma count_list_update_same:
  "i < length xs \<Longrightarrow> P (xs ! i) = P y \<Longrightarrow> length (filter P (xs[i := y])) = length (filter P xs)"
proof (induction xs arbitrary: i)
  case (Cons x xs)
  then show ?case by (cases i) auto
qed simp

text \<open>Once a use is committed and nobody is between the read and the write, the code is spent for good.\<close>

lemma spent_code_stays_spent:
  assumes "recovery_reach user_id h st0 st" and "code_spent user_id h st0"
  shows "code_spent user_id h st \<and> times_accepted st = times_accepted st0"
  using assms
proof (induction rule: recovery_reach.induct)
  case (selects st i)
  have none: "find (code_usable user_id h) (ry_codes st) = None"
    using selects by (auto simp: code_spent_def find_None_iff list_all_iff)
  show ?case
    using selects count_list_update_same [of i "ry_tasks st" "(=) (Replied True)" "Replied False"]
    by (auto simp: code_spent_def times_accepted_def none dest: set_update_subset_insert [THEN subsetD])
qed (auto simp: code_spent_def times_accepted_def dest: nth_mem)

text \<open>
  A recovery code is single-use only as long as its uses do not overlap: two requests that both
  read the unused row are both accepted.
\<close>

theorem recovery_code_accepted_twice:
  "\<exists>st. recovery_reach 7 ''#code'' \<lparr>ry_codes = [\<lparr>rc_user_id = 7, rc_code_hash = ''#code'', rc_used_at = None\<rparr>], ry_tasks = []\<rparr> st \<and>
     times_accepted st = 2"
proof -
  let ?row = "\<lparr>rc_user_id = 7, rc_code_hash = ''#code'', rc_used_at = None\<rparr>"
  let ?used = "\<lparr>rc_user_id = 7, rc_code_hash = ''#code'', rc_used_at = Some 9\<rparr>"
  let ?r = "recovery_reach 7 ''#code'' \<lparr>ry_codes = [?row], ry_tasks = []\<rparr>"
  have "?r \<lparr>ry_codes = [?row], ry_tasks = [Submitted]\<rparr>" 
    using recovery_reach.submits [OF recovery_reach.idle [of 7 "''#code''" "\<lparr>ry_codes = [?row], ry_tasks = []\<rparr>"]]
    by (simp del: One_nat_def)
  from recovery_reach.submits [OF this] have "?r \<lparr>ry_codes = [?row], ry_tasks = [Submitted, Submitted]\<rparr>" by simp
  from recovery_reach.selects [OF this, of 0] have "?r \<lparr>ry_codes = [?row], ry_tasks = [Found, Submitted]\<rparr>"
    by (simp add: code_usable_def)
  from recovery_reach.selects [OF this, of 1] have "?r \<lparr>ry_codes = [?row], ry_tasks = [Found, Found]\<rparr>"
    by (simp add: code_usable_def)
  from recovery_reach.stamps [OF this, of 0 9] have "?r \<lparr>ry_codes = [?used], ry_tasks = [Replied True, Found]\<rparr>"
    by (simp add: stamp_code_def)
  from recovery_reach.stamps [OF this, of 1 9] have "?r \<lparr>ry_codes = [?used], ry_tasks = [Replied True, Replied True]\<rparr>"
    by (simp add: stamp_code_def)
  then show ?thesis by (intro exI conjI) (assumption, simp add: times_accepted_def)
qed

end
