(* ===== verification/Email_Links.thy ===== *)
theory Email_Links
  imports Second_Factor
begin

text \<open>
  The flows of \<^verbatim>\<open>auth/service.py\<close> that hand out a link and act when it comes back: activation,
  password reset, e-mail change, verification and recovery, and the sign-up that starts them.

  A token is an opaque secret \<open>plain\<close>, a random argument; the table keeps its digest. A request reads
  one clock, \<open>now\<close>. \<open>deliver\<close> says which addresses the mail server takes during the request. The text
  and the language of a mail, and the URL around its token, are left out.
\<close>

subsection \<open>Tokens\<close>

definition mint_token :: "'o account_config \<Rightarrow> int \<Rightarrow> string \<Rightarrow> micros \<Rightarrow> string \<times> string \<times> micros" where
  "mint_token C ttl_seconds plain now = (plain, cf_digest C plain, now + ttl_seconds * 1000000)"

definition pending_link :: "uuid \<Rightarrow> string \<Rightarrow> link_row \<Rightarrow> bool" where
  "pending_link user_id purpose k \<longleftrightarrow> lk_user_id k = user_id \<and> lk_purpose k = purpose \<and> lk_used_at k = None"

definition burn_pending_tokens :: "uuid \<Rightarrow> string \<Rightarrow> micros \<Rightarrow> account_db \<Rightarrow> account_db" where
  "burn_pending_tokens user_id purpose now db =
     db\<lparr>ad_links := map (\<lambda>k. if pending_link user_id purpose k then k\<lparr>lk_used_at := Some now\<rparr> else k) (ad_links db)\<rparr>"

text \<open>The hash is a unique column.\<close>

definition store_token ::
  "'o account_config \<Rightarrow> uuid \<Rightarrow> string \<Rightarrow> string \<Rightarrow> micros \<Rightarrow> string option \<Rightarrow> micros \<Rightarrow>
     (('b, 'o) account_state, account_error, unit) action" where
  "store_token C user_id purpose digest expires_at payload now st =
     (let db = (if cf_single_active_token C then burn_pending_tokens user_id purpose now (working st) else working st)
      in if list_ex (\<lambda>k. lk_token_hash k = digest) (ad_links db) then (Inl UniqueViolation, put_db db st)
         else (Inr (), put_db (db\<lparr>ad_links := ad_links db @
                [\<lparr>lk_user_id = user_id, lk_token_hash = digest, lk_purpose = purpose, lk_expires_at = expires_at,
                  lk_used_at = None, lk_payload = payload\<rparr>]\<rparr>) st))"

definition issue_token ::
  "'o account_config \<Rightarrow> uuid \<Rightarrow> string \<Rightarrow> int \<Rightarrow> string option \<Rightarrow> string \<Rightarrow> micros \<Rightarrow>
     (('b, 'o) account_state, account_error, string) action" where
  "issue_token C user_id purpose ttl_seconds payload plain now st =
     (let (plain, digest, expires_at) = mint_token C ttl_seconds plain now
      in case store_token C user_id purpose digest expires_at payload now st of
           (Inl e, st) \<Rightarrow> (Inl e, st)
         | (Inr _, st) \<Rightarrow> (Inr plain, st))"

text \<open>The link is mailed first; a mail that is refused leaves no trace and answers \<open>None\<close>.\<close>

definition issue_token_after_mail ::
  "'o account_config \<Rightarrow> (string \<Rightarrow> bool) \<Rightarrow> BaseUserModel \<Rightarrow> string \<Rightarrow> int \<Rightarrow> string option \<Rightarrow> string \<Rightarrow> micros \<Rightarrow>
     (('b, 'o) account_state, account_error, string option) action" where
  "issue_token_after_mail C deliver user purpose ttl_seconds payload plain now st =
     (let (plain, digest, expires_at) = mint_token C ttl_seconds plain now
      in case maybe_send_link C deliver purpose (us_email user) plain st of
           (Inl EmailUnavailable, st) \<Rightarrow> (Inr None, st)
         | (Inl e, st) \<Rightarrow> (Inl e, st)
         | (Inr _, st) \<Rightarrow>
             (case store_token C (us_id user) purpose digest expires_at payload now st of
                (Inl e, st) \<Rightarrow> (Inl e, st)
              | (Inr _, st) \<Rightarrow> (Inr (Some plain), st)))"

definition lookup_token :: "'o account_config \<Rightarrow> string \<Rightarrow> string \<Rightarrow> micros \<Rightarrow> account_db \<Rightarrow> account_error + link_row" where
  "lookup_token C token purpose now db =
     (case find (\<lambda>k. lk_token_hash k = cf_digest C token \<and> lk_purpose k = purpose) (ad_links db) of
        None \<Rightarrow> Inl (InvalidLink ''token not recognized'')
      | Some k \<Rightarrow>
          if lk_used_at k \<noteq> None then Inl (InvalidLink ''token already used'')
          else if lk_expires_at k < now then Inl (InvalidLink ''token expired'')
          else Inr k)"

definition redeemable :: "string \<Rightarrow> string \<Rightarrow> micros \<Rightarrow> link_row \<Rightarrow> bool" where
  "redeemable h purpose now k \<longleftrightarrow>
     lk_token_hash k = h \<and> lk_purpose k = purpose \<and> lk_used_at k = None \<and> now < lk_expires_at k"

text \<open>One conditional update spends the link; when it finds no row the look-up only names the reason.\<close>

definition consume_token ::
  "'o account_config \<Rightarrow> string \<Rightarrow> string \<Rightarrow> micros \<Rightarrow> (('b, 'o) account_state, account_error, link_row) action" where
  "consume_token C token purpose now st =
     (let db = working st; P = redeemable (cf_digest C token) purpose now
      in case find P (ad_links db) of
           Some k \<Rightarrow> (Inr (k\<lparr>lk_used_at := Some now\<rparr>),
                      put_db (db\<lparr>ad_links := map (\<lambda>k. if P k then k\<lparr>lk_used_at := Some now\<rparr> else k) (ad_links db)\<rparr>) st)
         | None \<Rightarrow> (case lookup_token C token purpose now db of
                      Inl e \<Rightarrow> (Inl e, st)
                    | Inr _ \<Rightarrow> (Inl (InvalidLink ''token is no longer valid''), st)))"

definition peek_token :: "'o account_config \<Rightarrow> string \<Rightarrow> string \<Rightarrow> micros \<Rightarrow> account_db \<Rightarrow> account_error + link_row \<times> BaseUserModel" where
  "peek_token C token purpose now db =
     (case lookup_token C token purpose now db of
        Inl e \<Rightarrow> Inl e
      | Inr k \<Rightarrow> (case user_by_id (lk_user_id k) db of None \<Rightarrow> Inl UserMissing | Some user \<Rightarrow> Inr (k, user)))"

subsection \<open>What a link proves\<close>

definition email_link_refused :: "'o account_config \<Rightarrow> BaseUserModel \<Rightarrow> bool" where
  "email_link_refused C user = (case cf_refuses_email_link C of None \<Rightarrow> False | Some predicate \<Rightarrow> predicate user)"

text \<open>The spent token is committed before the refusal leaves the handler.\<close>

definition refuse_email_link :: "(('b, 'o) account_state, account_error, 'a) action" where
  "refuse_email_link st = (Inl LinkForbidden, st\<lparr>ac_session := session_commit (ac_session st)\<rparr>)"

definition links_prove_mailbox :: "'o account_config \<Rightarrow> bool" where
  "links_prove_mailbox C \<longleftrightarrow> cf_email C \<noteq> None \<and> \<not> cf_auto_activate C \<and> \<not> cf_return_token C"

definition mailed_address :: "'o account_config \<Rightarrow> BaseUserModel \<Rightarrow> string option" where
  "mailed_address C user = (if links_prove_mailbox C then Some (us_email user) else None)"

definition record_email_proof :: "'o account_config \<Rightarrow> link_row \<Rightarrow> micros \<Rightarrow> BaseUserModel \<Rightarrow> BaseUserModel" where
  "record_email_proof C record now user =
     (if lk_payload record = None \<or> lk_payload record \<noteq> Some (us_email user) then user
      else if \<not> links_prove_mailbox C then user
      else user\<lparr>us_email_verified_at := Some now\<rparr>)"

text \<open>A link travels in the response when mail is not how it travels.\<close>

definition surfaced :: "'o account_config \<Rightarrow> string \<Rightarrow> string option" where
  "surfaced C plain = (if cf_return_token C \<or> cf_email C = None then Some plain else None)"

text \<open>
  \<^verbatim>\<open>_forget_proof_of_previous_email\<close> runs before every write of a user row: an address that moves
  without a proof of its own takes the old proof with it. An edit of the address by the admin site
  or a script is such a write.
\<close>

definition forget_proof_of_previous_email :: "BaseUserModel \<Rightarrow> BaseUserModel \<Rightarrow> BaseUserModel" where
  "forget_proof_of_previous_email before target =
     (if us_email target = us_email before then target
      else if us_email_verified_at target \<noteq> us_email_verified_at before then target
      else target\<lparr>us_email_verified_at := None\<rparr>)"

definition edit_email :: "uuid \<Rightarrow> string \<Rightarrow> account_db \<Rightarrow> account_db" where
  "edit_email i email =
     update_user i (\<lambda>u. forget_proof_of_previous_email u (u\<lparr>us_email := email\<rparr>))"

subsection \<open>Sign-up and activation\<close>

definition SIGNUP_PROTECTED_FIELDS :: "string list" where
  "SIGNUP_PROTECTED_FIELDS =
     [''id'', ''email'', ''hashed_password'', ''is_active'', ''is_admin'', ''email_verified_at'', ''totp_secret'',
      ''totp_enabled_at'', ''totp_last_step'', ''last_login_at'', ''created_at'', ''updated_at'', ''deleted_at'',
      ''created_by'', ''updated_by'']"

text \<open>
  \<open>columns\<close> are the mapped columns of the user table, \<open>secrets\<close> those it declares secret. The two
  refusals are one \<^verbatim>\<open>ValueError\<close>.
\<close>

definition signup_protected_fields :: "string list \<Rightarrow> string list" where
  "signup_protected_fields secrets = SIGNUP_PROTECTED_FIELDS @ secrets"

definition signup_column_names :: "string list \<Rightarrow> string list \<Rightarrow> string list" where
  "signup_column_names columns secrets = filter (\<lambda>c. \<not> List.member (signup_protected_fields secrets) c) columns"

definition check_signup_fields :: "string list \<Rightarrow> string list \<Rightarrow> string list \<Rightarrow> bool" where
  "check_signup_fields columns secrets extra \<longleftrightarrow>
     list_all (\<lambda>f. \<not> List.member (signup_protected_fields secrets) f) extra \<and>
     list_all (List.member (signup_column_names columns secrets)) extra"

datatype signup_outcome = BornActive | ActivationToken string | ActivationWithheld

definition new_user :: "'o account_config \<Rightarrow> uuid \<Rightarrow> string \<Rightarrow> string \<Rightarrow> BaseUserModel" where
  "new_user C new_id email password =
     \<lparr>us_id = new_id, us_email = email, us_is_active = cf_auto_activate C, us_hashed_password = cf_hash C password,
      us_totp_secret = None, us_totp_enabled_at = None, us_totp_last_step = None, us_email_verified_at = None,
      us_last_login_at = None\<rparr>"

text \<open>\<open>fields_ok\<close> is \<open>check_signup_fields\<close> of the extra columns; \<open>new_id\<close> what \<^verbatim>\<open>uuid4\<close> answers.\<close>

definition signup ::
  "'o account_config \<Rightarrow> (string \<Rightarrow> bool) \<Rightarrow> bool \<Rightarrow> uuid \<Rightarrow> string \<Rightarrow> string \<Rightarrow> string \<Rightarrow> micros \<Rightarrow>
     (('b, 'o) account_state, account_error, BaseUserModel \<times> signup_outcome) action" where
  "signup C deliver fields_ok new_id email password plain now st =
     (case (if cf_auto_activate C then None else require_mail_delivery C True) of
        Some e \<Rightarrow> (Inl e, st)
      | None \<Rightarrow>
          if \<not> fields_ok then (Inl Crash, st)
          else (case enforce_password_policy C password of
                  Some e \<Rightarrow> (Inl e, st)
                | None \<Rightarrow>
                    let normalized = normalize_email email; db = working st; user = new_user C new_id normalized password
                    in if user_by_email normalized db \<noteq> None then (Inl EmailTaken, st)
                       else if user_by_id new_id db \<noteq> None then (Inl UniqueViolation, st)
                       else let st = put_db (db\<lparr>ad_users := ad_users db @ [user]\<rparr>) st
                            in if cf_auto_activate C then (Inr (user, BornActive), st)
                               else if email_link_refused C user then (Inr (user, ActivationWithheld), st)
                               else (case issue_token C new_id ''activation'' (cf_activation_ttl C) (mailed_address C user) plain now st of
                                       (Inl e, st) \<Rightarrow> (Inl e, st)
                                     | (Inr token, st) \<Rightarrow>
                                         (case maybe_send_link C deliver ''activation'' (us_email user) token st of
                                            (Inl e, st) \<Rightarrow> (Inl e, st)
                                          | (Inr _, st) \<Rightarrow> (Inr (user, ActivationToken token), st)))))"

text \<open>What the confirmations share: the spent row and the user it names.\<close>

definition redeem ::
  "'o account_config \<Rightarrow> string \<Rightarrow> string \<Rightarrow> micros \<Rightarrow> (('b, 'o) account_state, account_error, link_row \<times> BaseUserModel) action" where
  "redeem C token purpose now st =
     (case consume_token C token purpose now st of
        (Inl e, st) \<Rightarrow> (Inl e, st)
      | (Inr record, st) \<Rightarrow>
          (case user_by_id (lk_user_id record) (working st) of
             None \<Rightarrow> (Inl (InvalidLink ''token references a missing user''), st)
           | Some user \<Rightarrow> (Inr (record, user), st)))"

definition activate :: "'o account_config \<Rightarrow> string \<Rightarrow> micros \<Rightarrow> (('b, 'o) account_state, account_error, unit) action" where
  "activate C token now st =
     (case redeem C token ''activation'' now st of
        (Inl e, st) \<Rightarrow> (Inl e, st)
      | (Inr (record, user), st) \<Rightarrow>
          if email_link_refused C user then refuse_email_link st
          else (Inr (), put_db (update_user (us_id user) (\<lambda>u. record_email_proof C record now (u\<lparr>us_is_active := True\<rparr>)) (working st)) st))"

definition request_activation ::
  "'o account_config \<Rightarrow> (string \<Rightarrow> bool) \<Rightarrow> string \<Rightarrow> string \<Rightarrow> micros \<Rightarrow> (('b, 'o) account_state, account_error, string option) action" where
  "request_activation C deliver email plain now st =
     (case require_mail_delivery C True of
        Some e \<Rightarrow> (Inl e, st)
      | None \<Rightarrow>
          (case user_by_email (normalize_email email) (working st) of
             None \<Rightarrow> (Inr None, st)
           | Some user \<Rightarrow>
               if us_is_active user \<or> email_link_refused C user then (Inr None, st)
               else (case issue_token_after_mail C deliver user ''activation'' (cf_activation_ttl C) (mailed_address C user) plain now st of
                       (Inl e, st) \<Rightarrow> (Inl e, st)
                     | (Inr None, st) \<Rightarrow> (Inr None, st)
                     | (Inr (Some token), st) \<Rightarrow> (Inr (surfaced C token), st))))"

subsection \<open>Password reset\<close>

definition request_password_reset ::
  "'o account_config \<Rightarrow> (string \<Rightarrow> bool) \<Rightarrow> string \<Rightarrow> string \<Rightarrow> micros \<Rightarrow> (('b, 'o) account_state, account_error, string option) action" where
  "request_password_reset C deliver email plain now st =
     (case require_mail_delivery C True of
        Some e \<Rightarrow> (Inl e, st)
      | None \<Rightarrow>
          (case user_by_email (normalize_email email) (working st) of
             None \<Rightarrow> (Inr None, st)
           | Some user \<Rightarrow>
               if email_link_refused C user then (Inr None, st)
               else (case issue_token_after_mail C deliver user ''password_reset'' (cf_reset_ttl C) None plain now st of
                       (Inl e, st) \<Rightarrow> (Inl e, st)
                     | (Inr None, st) \<Rightarrow> (Inr None, st)
                     | (Inr (Some token), st) \<Rightarrow> (Inr (surfaced C token), st))))"

definition confirm_password_reset ::
  "'o account_config \<Rightarrow> string \<Rightarrow> string \<Rightarrow> bool \<Rightarrow> bool \<Rightarrow> micros \<Rightarrow> (('b, 'o) account_state, account_error, uuid) action" where
  "confirm_password_reset C token new_password revoke revoke_passkeys now st =
     (case enforce_password_policy C new_password of
        Some e \<Rightarrow> (Inl e, st)
      | None \<Rightarrow>
          (case redeem C token ''password_reset'' now st of
             (Inl e, st) \<Rightarrow> (Inl e, st)
           | (Inr (record, user), st) \<Rightarrow>
               if email_link_refused C user then refuse_email_link st
               else let db = update_user (us_id user) (\<lambda>u. u\<lparr>us_hashed_password := cf_hash C new_password\<rparr>) (working st);
                        db = (if revoke_passkeys then snd (revoke_user_passkeys (cf_has_passkeys C) (us_id user) db) else db);
                        st = put_db db st
                    in (Inr (us_id user), if revoke then snd (revoke_sessions C (us_id user) now st) else st)))"

subsection \<open>Moving and verifying an address\<close>

text \<open>What the two requests for a move do once the caller is known.\<close>

definition stage_email_change ::
  "'o account_config \<Rightarrow> (string \<Rightarrow> bool) \<Rightarrow> BaseUserModel \<Rightarrow> string \<Rightarrow> string \<Rightarrow> micros \<Rightarrow>
     (('b, 'o) account_state, account_error, string option) action" where
  "stage_email_change C deliver user new_email plain now st =
     (let normalized = normalize_email new_email
      in if normalized = us_email user then (Inl SameEmail, st)
         else if email_taken normalized (us_id user) (working st) then (Inl EmailTaken, st)
         else (case issue_token C (us_id user) ''email_change'' (cf_email_change_ttl C) (Some normalized) plain now st of
                 (Inl e, st) \<Rightarrow> (Inl e, st)
               | (Inr token, st) \<Rightarrow>
                   (case maybe_send_link C deliver ''email_change'' normalized token st of
                      (Inl e, st) \<Rightarrow> (Inl e, st)
                    | (Inr _, st) \<Rightarrow> (Inr (surfaced C token), st))))"

definition request_email_change ::
  "'o account_config \<Rightarrow> (string \<Rightarrow> bool) \<Rightarrow> BaseUserModel \<Rightarrow> string \<Rightarrow> string \<Rightarrow> string \<Rightarrow> micros \<Rightarrow>
     (('b, 'o) account_state, account_error, string option) action" where
  "request_email_change C deliver user current_password new_email plain now st =
     (case require_mail_delivery C True of
        Some e \<Rightarrow> (Inl e, st)
      | None \<Rightarrow>
          if \<not> cf_verify C current_password (us_hashed_password user) then (Inl WrongPassword, st)
          else stage_email_change C deliver user new_email plain now st)"

text \<open>The text \<open>[]\<close> is what \<^verbatim>\<open>record.payload or ""\<close> gives for an absent payload.\<close>

definition confirm_email_change ::
  "'o account_config \<Rightarrow> (string \<Rightarrow> bool) \<Rightarrow> string \<Rightarrow> bool \<Rightarrow> micros \<Rightarrow> (('b, 'o) account_state, account_error, unit) action" where
  "confirm_email_change C deliver token revoke now st =
     (case (if cf_notify_old C then require_mail_delivery C False else None) of
        Some e \<Rightarrow> (Inl e, st)
      | None \<Rightarrow>
          (case consume_token C token ''email_change'' now st of
             (Inl e, st) \<Rightarrow> (Inl e, st)
           | (Inr record, st) \<Rightarrow>
               let new_email = normalize_email (case lk_payload record of None \<Rightarrow> [] | Some p \<Rightarrow> p)
               in if new_email = [] then (Inl (InvalidLink ''email-change token has no target address''), st)
                  else (case user_by_id (lk_user_id record) (working st) of
                          None \<Rightarrow> (Inl (InvalidLink ''token references a missing user''), st)
                        | Some user \<Rightarrow>
                            if email_taken new_email (us_id user) (working st) then (Inl EmailTaken, st)
                            else let proof = (if links_prove_mailbox C then Some now else None);
                                     st = put_db (update_user (us_id user)
                                            (\<lambda>u. u\<lparr>us_email := new_email, us_email_verified_at := proof\<rparr>) (working st)) st;
                                     st = (if revoke then snd (revoke_sessions C (us_id user) now st) else st)
                                 in maybe_send_email_changed_notice C deliver (us_email user) st)))"

definition request_email_verification ::
  "'o account_config \<Rightarrow> (string \<Rightarrow> bool) \<Rightarrow> BaseUserModel \<Rightarrow> string \<Rightarrow> micros \<Rightarrow> (('b, 'o) account_state, account_error, string option) action" where
  "request_email_verification C deliver user plain now st =
     (case require_mail_delivery C True of
        Some e \<Rightarrow> (Inl e, st)
      | None \<Rightarrow>
          (case issue_token C (us_id user) ''email_verification'' (cf_verification_ttl C) (mailed_address C user) plain now st of
             (Inl e, st) \<Rightarrow> (Inl e, st)
           | (Inr token, st) \<Rightarrow>
               (case maybe_send_link C deliver ''email_verification'' (us_email user) token st of
                  (Inl e, st) \<Rightarrow> (Inl e, st)
                | (Inr _, st) \<Rightarrow> (Inr (surfaced C token), st))))"

definition confirm_email_verification :: "'o account_config \<Rightarrow> string \<Rightarrow> micros \<Rightarrow> (('b, 'o) account_state, account_error, unit) action" where
  "confirm_email_verification C token now st =
     (case redeem C token ''email_verification'' now st of
        (Inl e, st) \<Rightarrow> (Inl e, st)
      | (Inr (record, user), st) \<Rightarrow>
          (Inr (), put_db (update_user (us_id user) (\<lambda>u. record_email_proof C record now (u\<lparr>us_is_active := True\<rparr>)) (working st)) st))"

subsection \<open>Recovery without the mailbox\<close>

text \<open>
  Who asks is proved by password and second factor under the budgets of the login; a budget that is
  spent, an unknown address and a wrong proof all answer \<open>None\<close>. The slot of the client's address is
  given back only after both proofs.
\<close>

definition quiet_attempt ::
  "'b throttle_backend \<Rightarrow> AttemptThrottle option \<Rightarrow> string \<Rightarrow> (('b, 'o) account_state, account_error, bool) action" where
  "quiet_attempt B throttle key st =
     (case throttle of
        None \<Rightarrow> (Inr True, st)
      | Some th \<Rightarrow>
          (case on_throttle (hit B th key) st of
             (Inl e, st) \<Rightarrow> (Inl e, st)
           | (Inr attempt, st) \<Rightarrow> (Inr (ts_attempts attempt \<le> th_max_attempts th), st)))"

definition quiet_reserve ::
  "'b throttle_backend \<Rightarrow> AttemptThrottle option \<Rightarrow> string \<Rightarrow> (('b, 'o) account_state, account_error, bool) action" where
  "quiet_reserve B throttle key st =
     (case throttle of
        None \<Rightarrow> (Inr True, st)
      | Some th \<Rightarrow>
          (case on_throttle (reserve B th key) st of
             (Inl (LoginThrottled n), st) \<Rightarrow> (Inr False, st)
           | (Inl e, st) \<Rightarrow> (Inl e, st)
           | (Inr _, st) \<Rightarrow> (Inr True, st)))"

definition release_slot ::
  "'b throttle_backend \<Rightarrow> AttemptThrottle option \<Rightarrow> string \<Rightarrow> (('b, 'o) account_state, account_error, unit) action" where
  "release_slot B throttle key st =
     (case throttle of None \<Rightarrow> (Inr (), st) | Some th \<Rightarrow> on_throttle (release B th key) st)"

text \<open>The part of the second factor: \<open>True\<close> when it is not asked for or proved.\<close>

definition recovery_factor ::
  "'b throttle_backend \<Rightarrow> 'o account_config \<Rightarrow> 't token_service \<Rightarrow> AttemptThrottle option \<Rightarrow> bool \<Rightarrow> real \<Rightarrow> micros \<Rightarrow>
     BaseUserModel \<Rightarrow> string option \<Rightarrow> (('b, 'o) account_state, account_error, bool) action" where
  "recovery_factor B C S mfa_throttle has_codes time now user mfa_code st =
     (if \<not> is_mfa_enrolled C user then (Inr True, st)
      else if mfa_code = None \<or> mfa_code = Some [] then (Inr False, st)
      else if \<not> has_codes then (Inl RecoveryModelMissing, st)
      else (case quiet_attempt B mfa_throttle (mfa_key S (us_id user)) st of
              (Inl e, st) \<Rightarrow> (Inl e, st)
            | (Inr False, st) \<Rightarrow> (Inr False, st)
            | (Inr True, st) \<Rightarrow>
                (case verify_mfa_code C time now user (the mfa_code) (working st) of
                   (False, _) \<Rightarrow> (Inr False, st)
                 | (True, db) \<Rightarrow>
                     (case reset_attempts B mfa_throttle (mfa_key S (us_id user)) (put_db db st) of
                        (Inl e, st) \<Rightarrow> (Inl e, st)
                      | (Inr _, st) \<Rightarrow> (Inr True, st)))))"

definition proven_recovery ::
  "'b throttle_backend \<Rightarrow> 'o account_config \<Rightarrow> 't token_service \<Rightarrow> (string \<Rightarrow> bool) \<Rightarrow> AttemptThrottle option \<Rightarrow> AttemptThrottle option \<Rightarrow>
     string \<Rightarrow> bool \<Rightarrow> real \<Rightarrow> micros \<Rightarrow> BaseUserModel \<Rightarrow> string \<Rightarrow> string option \<Rightarrow> string \<Rightarrow>
     (('b, 'o) account_state, account_error, string option) action" where
  "proven_recovery B C S deliver ip_throttle mfa_throttle ip_key has_codes time now user new_email mfa_code plain st =
     (case recovery_factor B C S mfa_throttle has_codes time now user mfa_code st of
        (Inl e, st) \<Rightarrow> (Inl e, st)
      | (Inr False, st) \<Rightarrow> (Inr None, st)
      | (Inr True, st) \<Rightarrow>
          (case release_slot B ip_throttle ip_key st of
             (Inl e, st) \<Rightarrow> (Inl e, st)
           | (Inr _, st) \<Rightarrow> stage_email_change C deliver user new_email plain now st))"

definition request_email_recovery ::
  "'b throttle_backend \<Rightarrow> 'o account_config \<Rightarrow> 't token_service \<Rightarrow> (string \<Rightarrow> string) \<Rightarrow> (string \<Rightarrow> bool) \<Rightarrow>
     AttemptThrottle option \<Rightarrow> AttemptThrottle option \<Rightarrow> AttemptThrottle option \<Rightarrow> string option \<Rightarrow> bool \<Rightarrow> real \<Rightarrow> micros \<Rightarrow>
     string \<Rightarrow> string \<Rightarrow> string \<Rightarrow> string option \<Rightarrow> string \<Rightarrow> (('b, 'o) account_state, account_error, string option) action" where
  "request_email_recovery B C S sha256_hex deliver login_throttle login_ip_throttle mfa_throttle client_ip has_codes time now
       email new_email current_password mfa_code plain st =
     (let ip_throttle = (if client_ip = None then None else login_ip_throttle);
          ip_key = ''login-ip:'' @ (case client_ip of None \<Rightarrow> ''None'' | Some ip \<Rightarrow> ip);
          email_key = login_throttle_key sha256_hex email
      in case require_mail_delivery C True of
           Some e \<Rightarrow> (Inl e, st)
         | None \<Rightarrow>
             (case quiet_reserve B ip_throttle ip_key st of
                (Inl e, st) \<Rightarrow> (Inl e, st)
              | (Inr False, st) \<Rightarrow> (Inr None, st)
              | (Inr True, st) \<Rightarrow>
                  (case quiet_attempt B login_throttle email_key st of
                     (Inl e, st) \<Rightarrow> (Inl e, st)
                   | (Inr False, st) \<Rightarrow> (Inr None, st)
                   | (Inr True, st) \<Rightarrow>
                       (case user_by_email (normalize_email email) (working st) of
                          None \<Rightarrow> (Inr None, st)
                        | Some user \<Rightarrow>
                            if \<not> cf_verify C current_password (us_hashed_password user) then (Inr None, st)
                            else (case reset_attempts B login_throttle email_key st of
                                    (Inl e, st) \<Rightarrow> (Inl e, st)
                                  | (Inr _, st) \<Rightarrow>
                                      proven_recovery B C S deliver ip_throttle mfa_throttle ip_key has_codes time now user
                                        new_email mfa_code plain st)))))"

subsection \<open>Requests on links, one after the other\<close>

datatype link_op =
    SignUp bool uuid string string string
  | Activate string
  | RequestActivation string string
  | RequestReset string string
  | ConfirmReset string string bool bool
  | RequestChange uuid string string string
  | ConfirmChange string bool
  | RequestVerification uuid string
  | ConfirmVerification string
  | Recover string string string "string option" string
  | EditEmail uuid string

text \<open>What the requests of a service have in common.\<close>

record ('b, 't) link_env =
  le_backend :: "'b throttle_backend"
  le_service :: "'t token_service"
  le_sha256 :: "string \<Rightarrow> string"
  le_login :: "AttemptThrottle option"
  le_ip :: "AttemptThrottle option"
  le_mfa :: "AttemptThrottle option"
  le_client_ip :: "string option"
  le_has_codes :: bool

fun link_handler ::
  "('b, 't) link_env \<Rightarrow> 'o account_config \<Rightarrow> (string \<Rightarrow> bool) \<Rightarrow> real \<Rightarrow> micros \<Rightarrow> link_op \<Rightarrow>
     (('b, 'o) account_state, account_error, unit) action" where
  "link_handler V C deliver time now (SignUp ok i email pw plain) = drop_result (signup C deliver ok i email pw plain now)"
| "link_handler V C deliver time now (Activate token) = activate C token now"
| "link_handler V C deliver time now (RequestActivation email plain) = drop_result (request_activation C deliver email plain now)"
| "link_handler V C deliver time now (RequestReset email plain) = drop_result (request_password_reset C deliver email plain now)"
| "link_handler V C deliver time now (ConfirmReset token pw revoke passkeys) = drop_result (confirm_password_reset C token pw revoke passkeys now)"
| "link_handler V C deliver time now (RequestChange i pw email plain) =
     as_user i (\<lambda>u. drop_result (request_email_change C deliver u pw email plain now))"
| "link_handler V C deliver time now (ConfirmChange token revoke) = confirm_email_change C deliver token revoke now"
| "link_handler V C deliver time now (RequestVerification i plain) =
     as_user i (\<lambda>u. drop_result (request_email_verification C deliver u plain now))"
| "link_handler V C deliver time now (ConfirmVerification token) = confirm_email_verification C token now"
| "link_handler V C deliver time now (Recover email new pw code plain) =
     drop_result (request_email_recovery (le_backend V) C (le_service V) (le_sha256 V) deliver (le_login V) (le_ip V) (le_mfa V)
       (le_client_ip V) (le_has_codes V) time now email new pw code plain)"
| "link_handler V C deliver time now (EditEmail i email) = (\<lambda>st. (Inr (), put_db (edit_email i email (working st)) st))"

type_synonym link_step = "(string \<Rightarrow> bool) \<times> real \<times> micros \<times> link_op"

definition run_link_op ::
  "('b, 't) link_env \<Rightarrow> 'o account_config \<Rightarrow> link_step \<Rightarrow> ('b, 'o) account_state \<Rightarrow> ('b, 'o) account_state" where
  "run_link_op V C step st =
     (case step of (deliver, time, now, op) \<Rightarrow> snd (account_route (link_handler V C deliver time now op) st))"

definition run_link_ops ::
  "('b, 't) link_env \<Rightarrow> 'o account_config \<Rightarrow> link_step list \<Rightarrow> ('b, 'o) account_state \<Rightarrow> ('b, 'o) account_state" where
  "run_link_ops V C steps st = fold (run_link_op V C) steps st"

subsection \<open>What requests do to accounts, links and mail\<close>

text \<open>
  The specification that every request refines: of an account its address and proof, the links, the
  mail that left. A request is a sequence of moves: a mail leaves, an account joins, a link is
  issued, spent, spent as a proof or as a change of address, an address is edited.
\<close>

type_synonym account_view = "uuid \<times> string \<times> micros option"
type_synonym sent_mail = "string \<times> string \<times> string"
type_synonym link_view = "account_view list \<times> link_row list \<times> sent_mail list"

definition account_view :: "BaseUserModel \<Rightarrow> account_view" where
  "account_view u = (us_id u, us_email u, us_email_verified_at u)"

definition view_of :: "account_db \<Rightarrow> sent_mail list \<Rightarrow> link_view" where
  "view_of db ms = (map account_view (ad_users db), ad_links db, ms)"

definition burn_links :: "uuid \<Rightarrow> string \<Rightarrow> micros \<Rightarrow> link_row list \<Rightarrow> link_row list" where
  "burn_links i purpose now ls = map (\<lambda>k. if pending_link i purpose k then k\<lparr>lk_used_at := Some now\<rparr> else k) ls"

definition spend_links :: "string \<Rightarrow> string \<Rightarrow> micros \<Rightarrow> link_row list \<Rightarrow> link_row list" where
  "spend_links h purpose now ls = map (\<lambda>k. if redeemable h purpose now k then k\<lparr>lk_used_at := Some now\<rparr> else k) ls"

text \<open>A payload of a link that only travels by mail is an address the link was mailed to.\<close>

definition payload_ok :: "'o account_config \<Rightarrow> sent_mail list \<Rightarrow> link_row \<Rightarrow> bool" where
  "payload_ok C ms k \<longleftrightarrow> (\<forall>a. lk_payload k = Some a \<longrightarrow>
     (lk_purpose k = ''email_change'' \<longrightarrow> normalize_email a = a) \<and>
     (links_prove_mailbox C \<longrightarrow> (\<exists>kind plain. (a, kind, plain) \<in> set ms \<and> cf_digest C plain = lk_token_hash k)))"

definition proven_view :: "'o account_config \<Rightarrow> link_row \<Rightarrow> micros \<Rightarrow> account_view \<Rightarrow> account_view" where
  "proven_view C k now v = (case v of (i, email, proof) \<Rightarrow>
     (i, email, if lk_payload k = Some email \<and> links_prove_mailbox C then Some now else proof))"

definition moved_view :: "'o account_config \<Rightarrow> link_row \<Rightarrow> micros \<Rightarrow> account_view \<Rightarrow> account_view" where
  "moved_view C k now v = (case v of (i, email, proof) \<Rightarrow>
     (i, normalize_email (the (lk_payload k)), if links_prove_mailbox C then Some now else None))"

definition on_account :: "uuid \<Rightarrow> (account_view \<Rightarrow> account_view) \<Rightarrow> account_view list \<Rightarrow> account_view list" where
  "on_account i g us = map (\<lambda>v. if fst v = i then g v else v) us"

inductive link_move :: "'o account_config \<Rightarrow> link_view \<Rightarrow> link_view \<Rightarrow> bool" for C :: "'o account_config" where
  mails: "link_move C (us, ls, ms) (us, ls, ms @ [m])"
| joins: "link_move C (us, ls, ms) (us @ [(i, email, None)], ls, ms)"
| issues: "lk_token_hash k \<notin> lk_token_hash ` set ls \<Longrightarrow> lk_used_at k = None \<Longrightarrow> payload_ok C ms k \<Longrightarrow>
    link_move C (us, ls, ms)
      (us, (if cf_single_active_token C then burn_links (lk_user_id k) (lk_purpose k) now ls else ls) @ [k], ms)"
| spends: "link_move C (us, ls, ms) (us, spend_links h purpose now ls, ms)"
| proves: "k \<in> set ls \<Longrightarrow> redeemable h purpose now k \<Longrightarrow>
    link_move C (us, ls, ms) (on_account (lk_user_id k) (proven_view C k now) us, spend_links h purpose now ls, ms)"
| moves: "k \<in> set ls \<Longrightarrow> redeemable h ''email_change'' now k \<Longrightarrow> lk_payload k \<noteq> None \<Longrightarrow>
    link_move C (us, ls, ms) (on_account (lk_user_id k) (moved_view C k now) us, spend_links h ''email_change'' now ls, ms)"
| edits: "link_move C (us, ls, ms)
    (on_account i (\<lambda>v. case v of (i, old, proof) \<Rightarrow> (i, email, if email = old then proof else None)) us, ls, ms)"

abbreviation link_moves :: "'o account_config \<Rightarrow> link_view \<Rightarrow> link_view \<Rightarrow> bool" where
  "link_moves C \<equiv> (link_move C)\<^sup>*\<^sup>*"

definition refines_links :: "'o account_config \<Rightarrow> (('b, 'o) account_state, account_error, 'a) action \<Rightarrow> bool" where
  "refines_links C h \<longleftrightarrow> (\<forall>st r st'. settled st \<longrightarrow> h st = (r, st') \<longrightarrow>
     link_moves C (view_of (working st) (ac_mail st))
       (view_of (case r of Inl _ \<Rightarrow> sess_durable (ac_session st') | Inr _ \<Rightarrow> working st') (ac_mail st')))"

lemma refines_route:
  assumes "refines_links C h" and "settled st"
  shows "link_moves C (view_of (working st) (ac_mail st))
    (view_of (working (snd (account_route h st))) (ac_mail (snd (account_route h st))))"
proof (cases "h st")
  case (Pair r st')
  from assms Pair have "link_moves C (view_of (working st) (ac_mail st))
       (view_of (case r of Inl _ \<Rightarrow> sess_durable (ac_session st') | Inr _ \<Rightarrow> working st') (ac_mail st'))"
    unfolding refines_links_def by blast
  then show ?thesis using Pair
    by (cases r) (simp_all add: account_route_def working_def session_defs)
qed

subsection \<open>Normalized addresses\<close>

lemma is_space_lower_char [simp]: "is_space (lower_char c) = is_space c"
  by (auto simp: is_space_def lower_char_def)

lemma lower_lower [simp]: "lower (lower s) = lower s"
  by (simp add: lower_def lower_char_def)

lemma strip_lower: "strip (lower s) = lower (strip s)"
  by (simp add: strip_def lower_def dropWhile_map o_def rev_map)

lemma strip_strip: "strip (strip s) = strip s"
proof (cases "strip s = []")
  case False
  define t w where "t = dropWhile is_space s" and "w = dropWhile is_space (rev t)"
  have w: "strip s = rev w" by (simp add: strip_def t_def w_def)
  have "rev t = takeWhile is_space (rev t) @ w" by (simp add: w_def)
  then have "t = rev w @ rev (takeWhile is_space (rev t))" by (metis rev_append rev_rev_ident)
  with False w have "hd (strip s) = hd t" "t \<noteq> []" by (metis hd_append2 rev_is_Nil_conv, metis Nil_is_append_conv)
  then have "\<not> is_space (hd (strip s))" using hd_dropWhile [of is_space s] by (simp add: t_def)
  moreover have "\<not> is_space (last (strip s))"
    using False w hd_dropWhile [of is_space "rev t"] by (simp add: w_def last_rev)
  ultimately show ?thesis by (intro strip_id) (use False in auto)
next
  case True
  have "strip [] = []" by (simp add: strip_def)
  with True show ?thesis by simp
qed

lemma normalize_email_idem [simp]: "normalize_email (normalize_email email) = normalize_email email"
  by (simp add: normalize_email_def strip_lower strip_strip)

subsection \<open>Every request refines the moves\<close>

lemma view_of_update:
  assumes "\<And>u. account_view (f u) = g (account_view u)"
  shows "view_of (update_user i f db) ms = (on_account i g (map account_view (ad_users db)), ad_links db, ms)"
  using assms by (auto simp: view_of_def update_user_def on_account_def account_view_def)

lemma view_of_update_same:
  "(\<And>u. account_view (f u) = account_view u) \<Longrightarrow> view_of (update_user i f db) ms = view_of db ms"
  by (auto simp: view_of_def update_user_def)

lemma view_of_other [simp]:
  "view_of (db\<lparr>ad_codes := cs\<rparr>) ms = view_of db ms" "view_of (db\<lparr>ad_refresh := rs\<rparr>) ms = view_of db ms"
  "view_of (db\<lparr>ad_passkeys := ps\<rparr>) ms = view_of db ms"
  by (simp_all add: view_of_def)

lemma view_of_revoke [simp]: "view_of (working (snd (revoke_sessions C i now st))) ms = view_of (working st) ms"
  by (simp add: view_of_def)

lemma view_of_passkeys [simp]: "view_of (snd (revoke_user_passkeys b i db)) ms = view_of db ms"
  by (simp add: revoke_user_passkeys_def)

lemma moves_mail: "link_moves C (view_of db ms) (view_of db (ms @ [m]))"
  unfolding view_of_def by (rule r_into_rtranclp) (rule link_move.mails)

lemma links_hashes [simp]:
  "map lk_token_hash (burn_links i purpose now ls) = map lk_token_hash ls"
  "map lk_token_hash (spend_links h p now ls) = map lk_token_hash ls"
  by (simp_all add: burn_links_def spend_links_def)

lemma links_hash_set [simp]:
  "lk_token_hash ` set (burn_links i purpose now ls) = lk_token_hash ` set ls"
  "lk_token_hash ` set (spend_links h p now ls) = lk_token_hash ` set ls"
  by (metis links_hashes list.set_map)+

lemma list_ex_hash: "list_ex (\<lambda>k. lk_token_hash k = h) ls \<longleftrightarrow> h \<in> lk_token_hash ` set ls"
  by (auto simp: list_ex_iff)

lemma burn_pending_view [simp]: "ad_links (burn_pending_tokens i purpose now db) = burn_links i purpose now (ad_links db)"
  "ad_users (burn_pending_tokens i purpose now db) = ad_users db"
  by (simp_all add: burn_pending_tokens_def burn_links_def)

lemma store_token_frame:
  "store_token C i purpose h expires payload now st = (r, st') \<Longrightarrow>
     sess_durable (ac_session st') = sess_durable (ac_session st) \<and> ac_mail st' = ac_mail st \<and> ac_throttle st' = ac_throttle st"
  by (auto simp: store_token_def Let_def split: if_splits)

lemma store_token_Inr:
  assumes "store_token C i purpose h expires payload now st = (Inr x, st')"
  shows "h \<notin> lk_token_hash ` set (ad_links (working st)) \<and> ad_users (working st') = ad_users (working st) \<and>
    ad_links (working st') =
      (if cf_single_active_token C then burn_links i purpose now (ad_links (working st)) else ad_links (working st)) @
      [\<lparr>lk_user_id = i, lk_token_hash = h, lk_purpose = purpose, lk_expires_at = expires, lk_used_at = None, lk_payload = payload\<rparr>]"
  using assms by (auto simp: store_token_def Let_def list_ex_hash split: if_splits)

lemma store_token_moves:
  assumes "store_token C i purpose h expires payload now st = (Inr x, st')"
    and "payload_ok C ms \<lparr>lk_user_id = i, lk_token_hash = h, lk_purpose = purpose, lk_expires_at = expires, lk_used_at = None, lk_payload = payload\<rparr>"
  shows "link_moves C (view_of (working st) ms) (view_of (working st') ms)"
proof -
  let ?k = "\<lparr>lk_user_id = i, lk_token_hash = h, lk_purpose = purpose, lk_expires_at = expires, lk_used_at = None, lk_payload = payload\<rparr>"
  show ?thesis
    using store_token_Inr [OF assms(1)]
      link_move.issues [of ?k "ad_links (working st)" C ms "map account_view (ad_users (working st))" now] assms(2)
    by (auto simp: view_of_def)
qed

lemma send_link_frame:
  "maybe_send_link C deliver kind to plain st = (r, st') \<Longrightarrow>
     ac_session st' = ac_session st \<and> working st' = working st \<and> ac_throttle st' = ac_throttle st \<and>
     (case r of Inl _ \<Rightarrow> st' = st
      | Inr _ \<Rightarrow> ac_mail st' = ac_mail st @ (if cf_email C = None \<or> cf_return_token C then [] else [(to, kind, plain)]))"
  by (auto simp: maybe_send_link_def send_email_def working_def split: if_splits)

lemma send_link_moves:
  "maybe_send_link C deliver kind to plain st = (r, st') \<Longrightarrow> link_moves C (view_of db (ac_mail st)) (view_of db (ac_mail st'))"
  using send_link_frame [of C deliver kind to plain st r st']
  by (cases r) (auto intro: moves_mail split: if_splits)

text \<open>What a mailed link may carry.\<close>

lemma payload_ok_mailed:
  assumes "maybe_send_link C deliver kind to plain st = (Inr x, st')"
    and "lk_token_hash k = cf_digest C plain" and "lk_payload k = None \<or> lk_payload k = Some to"
    and "lk_purpose k = ''email_change'' \<Longrightarrow> normalize_email to = to"
  shows "payload_ok C (ac_mail st') k"
proof -
  have "(to, kind, plain) \<in> set (ac_mail st')" if "links_prove_mailbox C"
    using send_link_frame [OF assms(1)] that by (auto simp: links_prove_mailbox_def)
  with assms(2-4) show ?thesis unfolding payload_ok_def by fastforce
qed

lemma consume_token_Inl: "consume_token C token purpose now st = (Inl e, st') \<Longrightarrow> st' = st"
  by (auto simp: consume_token_def Let_def split: option.splits sum.splits)

lemma consume_token_Inr:
  assumes "consume_token C token purpose now st = (Inr record, st')"
  shows "\<exists>k. k \<in> set (ad_links (working st)) \<and> redeemable (cf_digest C token) purpose now k \<and>
    record = k\<lparr>lk_used_at := Some now\<rparr> \<and>
    working st' = (working st)\<lparr>ad_links := spend_links (cf_digest C token) purpose now (ad_links (working st))\<rparr> \<and>
    sess_durable (ac_session st') = sess_durable (ac_session st) \<and> ac_mail st' = ac_mail st"
  using assms by (auto simp: consume_token_def Let_def spend_links_def find_Some_iff in_set_conv_nth split: option.splits sum.splits)

lemma redeem_Inl:
  assumes "redeem C token purpose now st = (Inl e, st')"
  shows "sess_durable (ac_session st') = sess_durable (ac_session st) \<and> ac_mail st' = ac_mail st"
proof (cases "consume_token C token purpose now st")
  case (Pair r st1)
  then show ?thesis
    using assms by (cases r) (auto simp: redeem_def dest!: consume_token_Inl consume_token_Inr split: option.splits)
qed

lemma redeem_Inr:
  assumes "redeem C token purpose now st = (Inr (record, user), st')"
  shows "\<exists>k. k \<in> set (ad_links (working st)) \<and> redeemable (cf_digest C token) purpose now k \<and>
    record = k\<lparr>lk_used_at := Some now\<rparr> \<and> user_by_id (lk_user_id k) (working st) = Some user \<and>
    working st' = (working st)\<lparr>ad_links := spend_links (cf_digest C token) purpose now (ad_links (working st))\<rparr> \<and>
    sess_durable (ac_session st') = sess_durable (ac_session st) \<and> ac_mail st' = ac_mail st"
  using assms by (auto simp: redeem_def user_by_id_def dest!: consume_token_Inr split: prod.splits sum.splits option.splits)

lemma issue_token_frame:
  "issue_token C i purpose ttl payload plain now st = (r, st') \<Longrightarrow>
     sess_durable (ac_session st') = sess_durable (ac_session st) \<and> ac_mail st' = ac_mail st"
  by (auto simp: issue_token_def mint_token_def dest!: store_token_frame split: prod.splits sum.splits)

lemma issue_token_Inr:
  "issue_token C i purpose ttl payload plain now st = (Inr token, st') \<Longrightarrow>
     token = plain \<and> store_token C i purpose (cf_digest C plain) (now + ttl * 1000000) payload now st = (Inr (), st')"
  by (auto simp: issue_token_def mint_token_def split: prod.splits sum.splits)

lemma issue_then_mail:
  assumes issue: "issue_token C i purpose ttl payload plain now st = (Inr token, st1)"
    and mail: "maybe_send_link C deliver kind to token st1 = (Inr x, st2)"
    and payload: "payload = None \<or> payload = Some to" "purpose = ''email_change'' \<Longrightarrow> normalize_email to = to"
  shows "link_moves C (view_of (working st) (ac_mail st)) (view_of (working st2) (ac_mail st2))"
proof -
  note store = issue_token_Inr [OF issue]
  have ms: "ac_mail st1 = ac_mail st" using issue_token_frame [OF issue] by simp
  have "link_moves C (view_of (working st) (ac_mail st)) (view_of (working st) (ac_mail st2))"
    using send_link_moves [OF mail, of "working st"] ms by simp
  also have "link_moves C \<dots> (view_of (working st1) (ac_mail st2))"
    using store payload by (intro store_token_moves payload_ok_mailed [OF mail]) auto
  finally show ?thesis using send_link_frame [OF mail] by simp
qed

lemma mailed_address_cases: "mailed_address C user = None \<or> mailed_address C user = Some (us_email user)"
  by (simp add: mailed_address_def)

text \<open>A refusal leaves what is durable and may have sent mail.\<close>

lemma refines_linksI:
  assumes "\<And>st e st'. settled st \<Longrightarrow> h st = (Inl e, st') \<Longrightarrow>
      link_moves C (view_of (working st) (ac_mail st)) (view_of (sess_durable (ac_session st')) (ac_mail st'))"
    and "\<And>st x st'. settled st \<Longrightarrow> h st = (Inr x, st') \<Longrightarrow>
      link_moves C (view_of (working st) (ac_mail st)) (view_of (working st') (ac_mail st'))"
  shows "refines_links C h"
  unfolding refines_links_def using assms by (auto split: sum.split)

lemma refines_linksD:
  assumes "refines_links C h" and "settled st"
  shows "h st = (Inl e, st') \<Longrightarrow>
      link_moves C (view_of (working st) (ac_mail st)) (view_of (sess_durable (ac_session st')) (ac_mail st'))"
    and "h st = (Inr x, st') \<Longrightarrow> link_moves C (view_of (working st) (ac_mail st)) (view_of (working st') (ac_mail st'))"
  using assms unfolding refines_links_def by force+

lemma settled_durable: "settled st \<Longrightarrow> sess_durable (ac_session st) = working st"
  by (simp add: settled_def)

lemma stage_email_change_moves:
  assumes "stage_email_change C deliver user new_email plain now st = (Inr x, st')"
  shows "link_moves C (view_of (working st) (ac_mail st)) (view_of (working st') (ac_mail st'))"
proof -
  obtain token st1 u where "issue_token C (us_id user) ''email_change'' (cf_email_change_ttl C)
      (Some (normalize_email new_email)) plain now st = (Inr token, st1)"
    "maybe_send_link C deliver ''email_change'' (normalize_email new_email) token st1 = (Inr u, st')"
    using assms by (auto simp: stage_email_change_def Let_def split: if_splits prod.splits sum.splits)
  from issue_then_mail [OF this] show ?thesis by simp
qed

lemma stage_email_change_refused:
  "stage_email_change C deliver user new_email plain now st = (Inl e, st') \<Longrightarrow>
     sess_durable (ac_session st') = sess_durable (ac_session st) \<and> ac_mail st' = ac_mail st"
  by (auto simp: stage_email_change_def Let_def dest!: issue_token_frame send_link_frame split: if_splits prod.splits sum.splits)

lemma refines_stage_email_change: "refines_links C (stage_email_change C deliver user new_email plain now)"
  by (rule refines_linksI) (auto simp: settled_durable stage_email_change_moves dest!: stage_email_change_refused)

lemma refines_refusal: "refines_links C (\<lambda>st. (Inl e, st))"
  by (simp add: refines_links_def settled_durable)

lemma refines_request_email_change: "refines_links C (request_email_change C deliver user pw new_email plain now)"
proof (cases "require_mail_delivery C True")
  case None
  then show ?thesis
    using refines_stage_email_change [of C deliver user new_email plain now] refines_refusal
    by (cases "cf_verify C pw (us_hashed_password user)") (simp_all add: request_email_change_def refines_links_def settled_durable)
qed (simp add: request_email_change_def refines_links_def settled_durable)

lemma refines_request_email_verification: "refines_links C (request_email_verification C deliver user plain now)"
proof (rule refines_linksI)
  fix st e st'
  assume "settled st" "request_email_verification C deliver user plain now st = (Inl e, st')"
  then show "link_moves C (view_of (working st) (ac_mail st)) (view_of (sess_durable (ac_session st')) (ac_mail st'))"
    by (auto simp: request_email_verification_def settled_durable dest!: issue_token_frame send_link_frame
        split: option.splits prod.splits sum.splits)
next
  fix st x st'
  assume "request_email_verification C deliver user plain now st = (Inr x, st')"
  then obtain token st1 u where "issue_token C (us_id user) ''email_verification'' (cf_verification_ttl C) (mailed_address C user) plain now st = (Inr token, st1)"
    "maybe_send_link C deliver ''email_verification'' (us_email user) token st1 = (Inr u, st')"
    by (auto simp: request_email_verification_def split: option.splits prod.splits sum.splits)
  from issue_then_mail [OF this mailed_address_cases]
  show "link_moves C (view_of (working st) (ac_mail st)) (view_of (working st') (ac_mail st'))" by simp
qed

lemma issue_after_mail_frame:
  "issue_token_after_mail C deliver user purpose ttl payload plain now st = (r, st') \<Longrightarrow>
     sess_durable (ac_session st') = sess_durable (ac_session st) \<and> link_moves C (view_of db (ac_mail st)) (view_of db (ac_mail st'))"
proof -
  assume run: "issue_token_after_mail C deliver user purpose ttl payload plain now st = (r, st')"
  obtain r1 st1 where mail: "maybe_send_link C deliver purpose (us_email user) plain st = (r1, st1)" by fastforce
  have "sess_durable (ac_session st') = sess_durable (ac_session st1) \<and> ac_mail st' = ac_mail st1"
    using run mail by (auto simp: issue_token_after_mail_def mint_token_def Let_def dest!: store_token_frame
        split: sum.splits account_error.splits prod.splits)
  then show ?thesis using send_link_frame [OF mail] send_link_moves [OF mail, of db] by simp
qed

lemma issue_after_mail_moves:
  assumes "issue_token_after_mail C deliver user purpose ttl payload plain now st = (Inr x, st')"
    and "payload = None \<or> payload = Some (us_email user)" and "purpose \<noteq> ''email_change''"
  shows "link_moves C (view_of (working st) (ac_mail st)) (view_of (working st') (ac_mail st'))"
proof -
  obtain r1 st1 where mail: "maybe_send_link C deliver purpose (us_email user) plain st = (r1, st1)" by fastforce
  note sent = send_link_moves [OF mail, of "working st"] send_link_frame [OF mail]
  show ?thesis
  proof (cases r1)
    case (Inl e)
    then show ?thesis
      using assms(1) mail sent by (auto simp: issue_token_after_mail_def mint_token_def Let_def split: account_error.splits)
  next
    case (Inr y)
    then obtain z where store: "store_token C (us_id user) purpose (cf_digest C plain) (now + ttl * 1000000) payload now st1 = (Inr z, st')"
      using assms(1) mail by (auto simp: issue_token_after_mail_def mint_token_def split: sum.splits prod.splits)
    have "link_moves C (view_of (working st1) (ac_mail st1)) (view_of (working st') (ac_mail st1))"
      by (rule store_token_moves [OF store]) (use mail Inr assms(2,3) in \<open>auto intro!: payload_ok_mailed\<close>)
    then show ?thesis using sent store_token_frame [OF store] by (auto intro: rtranclp_trans)
  qed
qed

lemma refines_request_activation: "refines_links C (request_activation C deliver email plain now)"
proof (rule refines_linksI)
  fix st e st'
  assume "settled st" "request_activation C deliver email plain now st = (Inl e, st')"
  then show "link_moves C (view_of (working st) (ac_mail st)) (view_of (sess_durable (ac_session st')) (ac_mail st'))"
    by (auto simp: request_activation_def settled_durable dest!: issue_after_mail_frame
        split: if_splits option.splits prod.splits sum.splits)
next
  fix st x st'
  assume "request_activation C deliver email plain now st = (Inr x, st')"
  then show "link_moves C (view_of (working st) (ac_mail st)) (view_of (working st') (ac_mail st'))"
    by (auto simp: request_activation_def mailed_address_def dest!: issue_after_mail_moves
        split: if_splits option.splits prod.splits sum.splits)
qed

lemma refines_request_password_reset: "refines_links C (request_password_reset C deliver email plain now)"
proof (rule refines_linksI)
  fix st e st'
  assume "settled st" "request_password_reset C deliver email plain now st = (Inl e, st')"
  then show "link_moves C (view_of (working st) (ac_mail st)) (view_of (sess_durable (ac_session st')) (ac_mail st'))"
    by (auto simp: request_password_reset_def settled_durable dest!: issue_after_mail_frame
        split: if_splits option.splits prod.splits sum.splits)
next
  fix st x st'
  assume "request_password_reset C deliver email plain now st = (Inr x, st')"
  then show "link_moves C (view_of (working st) (ac_mail st)) (view_of (working st') (ac_mail st'))"
    by (auto simp: request_password_reset_def dest!: issue_after_mail_moves
        split: if_splits option.splits prod.splits sum.splits)
qed

lemma view_of_links: "view_of (db\<lparr>ad_links := ls\<rparr>) ms = (map account_view (ad_users db), ls, ms)"
  by (simp add: view_of_def)

lemma moves_spend:
  "link_moves C (view_of db ms) (view_of (db\<lparr>ad_links := spend_links h purpose now (ad_links db)\<rparr>) ms)"
  unfolding view_of_links unfolding view_of_def by (rule r_into_rtranclp) (rule link_move.spends)

text \<open>A confirmation spends its link; what it writes on the account is a proof, or nothing the view shows.\<close>

lemma refuse_email_link_simps [simp]:
  "fst (refuse_email_link st) = Inl LinkForbidden" "sess_durable (ac_session (snd (refuse_email_link st))) = working st"
  "ac_mail (snd (refuse_email_link st)) = ac_mail st"
  by (simp_all add: refuse_email_link_def working_def session_defs)

lemma refuse_email_link_cases: "refuse_email_link st = (r, st') \<Longrightarrow>
    r = Inl LinkForbidden \<and> sess_durable (ac_session st') = working st \<and> ac_mail st' = ac_mail st"
  by (metis refuse_email_link_simps prod.collapse fst_conv snd_conv)

lemma proof_view: "account_view (record_email_proof C (k\<lparr>lk_used_at := t\<rparr>) now (u\<lparr>us_is_active := a\<rparr>)) = proven_view C k now (account_view u)"
  by (auto simp: account_view_def record_email_proof_def proven_view_def)

lemma moves_prove:
  assumes "k \<in> set (ad_links db)" and "redeemable h purpose now k" and "\<And>u. account_view (f u) = proven_view C k now (account_view u)"
  shows "link_moves C (view_of db ms)
    (view_of (update_user (lk_user_id k) f (db\<lparr>ad_links := spend_links h purpose now (ad_links db)\<rparr>)) ms)"
proof -
  have "link_move C (map account_view (ad_users db), ad_links db, ms)
      (on_account (lk_user_id k) (proven_view C k now) (map account_view (ad_users db)), spend_links h purpose now (ad_links db), ms)"
    by (rule link_move.proves [OF assms(1,2)])
  then show ?thesis by (simp add: view_of_update [of f "proven_view C k now", OF assms(3)]) (auto simp: view_of_def)
qed

lemma redeemed_proof_moves:
  assumes "redeem C token purpose now st = (Inr (row, user), st1)"
  shows "link_moves C (view_of (working st) (ac_mail st))
    (view_of (update_user (us_id user) (\<lambda>u. record_email_proof C row now (u\<lparr>us_is_active := True\<rparr>)) (working st1)) (ac_mail st1))"
proof -
  from redeem_Inr [OF assms] obtain k where k: "k \<in> set (ad_links (working st))" "redeemable (cf_digest C token) purpose now k"
    "row = k\<lparr>lk_used_at := Some now\<rparr>" "user_by_id (lk_user_id k) (working st) = Some user" "ac_mail st1 = ac_mail st"
    "working st1 = (working st)\<lparr>ad_links := spend_links (cf_digest C token) purpose now (ad_links (working st))\<rparr>" by blast
  show ?thesis
    using moves_prove [where ms = "ac_mail st", OF k(1,2) proof_view] user_by_id_id [OF k(4)] by (simp add: k(3,5,6))
qed

lemma refines_activate: "refines_links C (activate C token now)"
proof (rule refines_linksI)
  fix st e st'
  assume st: "settled st" "activate C token now st = (Inl e, st')"
  show "link_moves C (view_of (working st) (ac_mail st)) (view_of (sess_durable (ac_session st')) (ac_mail st'))"
  proof (cases "redeem C token ''activation'' now st")
    case (Pair r st1)
    with st show ?thesis
      by (cases r) (auto simp: activate_def settled_durable dest!: redeem_Inl redeem_Inr refuse_email_link_cases
          split: if_splits, rule moves_spend)
  qed
next
  fix st x st'
  assume "activate C token now st = (Inr x, st')"
  then obtain row user st1 where r: "redeem C token ''activation'' now st = (Inr (row, user), st1)"
    and st': "st' = put_db (update_user (us_id user) (\<lambda>u. record_email_proof C row now (u\<lparr>us_is_active := True\<rparr>)) (working st1)) st1"
    by (auto simp: activate_def refuse_email_link_def split: prod.splits sum.splits if_splits)
  from redeemed_proof_moves [OF r]
  show "link_moves C (view_of (working st) (ac_mail st)) (view_of (working st') (ac_mail st'))" by (simp add: st')
qed

lemma refines_confirm_email_verification: "refines_links C (confirm_email_verification C token now)"
proof (rule refines_linksI)
  fix st e st'
  assume st: "settled st" "confirm_email_verification C token now st = (Inl e, st')"
  then show "link_moves C (view_of (working st) (ac_mail st)) (view_of (sess_durable (ac_session st')) (ac_mail st'))"
    by (auto simp: confirm_email_verification_def settled_durable dest!: redeem_Inl split: prod.splits sum.splits)
next
  fix st x st'
  assume "confirm_email_verification C token now st = (Inr x, st')"
  then obtain row user st1 where r: "redeem C token ''email_verification'' now st = (Inr (row, user), st1)"
    and st': "st' = put_db (update_user (us_id user) (\<lambda>u. record_email_proof C row now (u\<lparr>us_is_active := True\<rparr>)) (working st1)) st1"
    by (auto simp: confirm_email_verification_def split: prod.splits sum.splits)
  from redeemed_proof_moves [OF r]
  show "link_moves C (view_of (working st) (ac_mail st)) (view_of (working st') (ac_mail st'))" by (simp add: st')
qed

text \<open>After a reset only the hash, the passkeys and the sessions differ, and the link is spent.\<close>

definition reset_password_state ::
  "'o account_config \<Rightarrow> string \<Rightarrow> bool \<Rightarrow> bool \<Rightarrow> micros \<Rightarrow> BaseUserModel \<Rightarrow> ('b, 'o) account_state \<Rightarrow> ('b, 'o) account_state" where
  "reset_password_state C new_password revoke revoke_passkeys now user st =
     (let db = update_user (us_id user) (\<lambda>u. u\<lparr>us_hashed_password := cf_hash C new_password\<rparr>) (working st);
          db = (if revoke_passkeys then snd (revoke_user_passkeys (cf_has_passkeys C) (us_id user) db) else db);
          st = put_db db st
      in if revoke then snd (revoke_sessions C (us_id user) now st) else st)"

lemma reset_password_state_view:
  "view_of (working (reset_password_state C pw revoke passkeys now user st)) ms = view_of (working st) ms"
  "ac_mail (reset_password_state C pw revoke passkeys now user st) = ac_mail st"
  by (simp_all add: reset_password_state_def Let_def view_of_update_same account_view_def)

lemma confirm_password_reset_Inr:
  assumes "confirm_password_reset C token pw revoke passkeys now st = (Inr i, st')"
  shows "enforce_password_policy C pw = None \<and> (\<exists>row user st1. redeem C token ''password_reset'' now st = (Inr (row, user), st1) \<and>
    \<not> email_link_refused C user \<and> i = us_id user \<and> st' = reset_password_state C pw revoke passkeys now user st1)"
  using assms
  by (auto simp: confirm_password_reset_def reset_password_state_def Let_def refuse_email_link_def
      split: option.splits prod.splits sum.splits if_splits)

lemma refines_confirm_password_reset: "refines_links C (confirm_password_reset C token pw revoke passkeys now)"
proof (rule refines_linksI)
  fix st e st'
  assume st: "settled st" "confirm_password_reset C token pw revoke passkeys now st = (Inl e, st')"
  show "link_moves C (view_of (working st) (ac_mail st)) (view_of (sess_durable (ac_session st')) (ac_mail st'))"
  proof (cases "redeem C token ''password_reset'' now st")
    case (Pair r st1)
    with st show ?thesis
      by (cases r) (auto simp: confirm_password_reset_def settled_durable Let_def dest!: redeem_Inl redeem_Inr refuse_email_link_cases
          split: if_splits option.splits, rule moves_spend)
  qed
next
  fix st i st'
  assume "confirm_password_reset C token pw revoke passkeys now st = (Inr i, st')"
  then obtain row user st1 where "redeem C token ''password_reset'' now st = (Inr (row, user), st1)"
    "st' = reset_password_state C pw revoke passkeys now user st1"
    using confirm_password_reset_Inr by blast
  then show "link_moves C (view_of (working st) (ac_mail st)) (view_of (working st') (ac_mail st'))"
    by (auto simp: reset_password_state_view dest!: redeem_Inr) (rule moves_spend)
qed

lemma notice_frame:
  "maybe_send_email_changed_notice C deliver old st = (r, st') \<Longrightarrow>
     ac_session st' = ac_session st \<and> working st' = working st \<and> link_moves C (view_of db (ac_mail st)) (view_of db (ac_mail st'))"
  by (auto simp: maybe_send_email_changed_notice_def send_email_def working_def intro: moves_mail split: if_splits)

lemma confirm_email_change_Inr:
  assumes "confirm_email_change C deliver token revoke now st = (Inr x, st')"
  shows "\<exists>row st1 p user st2. consume_token C token ''email_change'' now st = (Inr row, st1) \<and>
    lk_payload row = Some p \<and> user_by_id (lk_user_id row) (working st1) = Some user \<and>
    \<not> email_taken (normalize_email p) (us_id user) (working st1) \<and>
    st2 = put_db (update_user (us_id user) (\<lambda>u. u\<lparr>us_email := normalize_email p,
            us_email_verified_at := (if links_prove_mailbox C then Some now else None)\<rparr>) (working st1)) st1 \<and>
    maybe_send_email_changed_notice C deliver (us_email user)
      (if revoke then snd (revoke_sessions C (us_id user) now st2) else st2) = (Inr x, st')"
proof -
  have [simp]: "normalize_email [] = []" by (simp add: normalize_email_def strip_def lower_def)
  show ?thesis
    using assms by (auto simp: confirm_email_change_def Let_def split: option.splits prod.splits sum.splits if_splits)
qed

lemma moves_move:
  assumes "k \<in> set (ad_links db)" and "redeemable h ''email_change'' now k" and "lk_payload k \<noteq> None"
    and "\<And>u. us_id u = lk_user_id k \<Longrightarrow> account_view (f u) = moved_view C k now (account_view u)"
  shows "link_moves C (view_of db ms)
    (view_of (update_user (lk_user_id k) f (db\<lparr>ad_links := spend_links h ''email_change'' now (ad_links db)\<rparr>)) ms)"
proof -
  have "link_move C (map account_view (ad_users db), ad_links db, ms)
      (on_account (lk_user_id k) (moved_view C k now) (map account_view (ad_users db)), spend_links h ''email_change'' now (ad_links db), ms)"
    by (rule link_move.moves [OF assms(1-3)])
  moreover have "map account_view (map (\<lambda>u. if us_id u = lk_user_id k then f u else u) us) =
      on_account (lk_user_id k) (moved_view C k now) (map account_view us)" for us
    using assms(4) by (auto simp: on_account_def account_view_def)
  ultimately show ?thesis by (simp add: view_of_def update_user_def)
qed

lemma refines_confirm_email_change: "refines_links C (confirm_email_change C deliver token revoke now)"
proof (rule refines_linksI)
  fix st e st'
  assume "settled st" "confirm_email_change C deliver token revoke now st = (Inl e, st')"
  then show "link_moves C (view_of (working st) (ac_mail st)) (view_of (sess_durable (ac_session st')) (ac_mail st'))"
    by (auto simp: confirm_email_change_def Let_def settled_durable
        dest!: consume_token_Inl consume_token_Inr notice_frame split: option.splits prod.splits sum.splits if_splits)
next
  fix st x st'
  assume "confirm_email_change C deliver token revoke now st = (Inr x, st')"
  then obtain row st1 p user st2 where r: "consume_token C token ''email_change'' now st = (Inr row, st1)"
    and p: "lk_payload row = Some p" "user_by_id (lk_user_id row) (working st1) = Some user"
    and st2: "st2 = put_db (update_user (us_id user) (\<lambda>u. u\<lparr>us_email := normalize_email p,
            us_email_verified_at := (if links_prove_mailbox C then Some now else None)\<rparr>) (working st1)) st1"
    and notice: "maybe_send_email_changed_notice C deliver (us_email user)
      (if revoke then snd (revoke_sessions C (us_id user) now st2) else st2) = (Inr x, st')"
    using confirm_email_change_Inr by blast
  from consume_token_Inr [OF r] obtain k where k: "k \<in> set (ad_links (working st))"
    "redeemable (cf_digest C token) ''email_change'' now k" "row = k\<lparr>lk_used_at := Some now\<rparr>" "ac_mail st1 = ac_mail st"
    "working st1 = (working st)\<lparr>ad_links := spend_links (cf_digest C token) ''email_change'' now (ad_links (working st))\<rparr>" by blast
  have "link_moves C (view_of (working st) (ac_mail st)) (view_of (working st2) (ac_mail st2))"
    using moves_move [where ms = "ac_mail st" and C = C, OF k(1,2)] p user_by_id_id [OF p(2)]
    by (simp add: st2 k(3-5) account_view_def moved_view_def)
  also have "link_moves C \<dots> (view_of (working st') (ac_mail st'))"
    using notice_frame [OF notice, of "working st2"] by (auto simp: view_of_def split: if_splits)
  finally show "link_moves C (view_of (working st) (ac_mail st)) (view_of (working st') (ac_mail st'))" .
qed

lemma moves_join:
  "link_moves C (view_of db ms) (view_of (db\<lparr>ad_users := ad_users db @ [new_user C' i email pw]\<rparr>) ms)"
proof -
  have "account_view (new_user C' i email pw) = (i, email, None)" by (simp add: account_view_def new_user_def)
  then show ?thesis
    using link_move.joins [of C "map account_view (ad_users db)" "ad_links db" ms i email] by (simp add: view_of_def)
qed

lemma signup_Inr:
  assumes "signup C deliver ok i email pw plain now st = (Inr (user, outcome), st')"
  shows "\<exists>st1. user = new_user C i (normalize_email email) pw \<and>
    st1 = put_db ((working st)\<lparr>ad_users := ad_users (working st) @ [user]\<rparr>) st \<and>
    user_by_email (normalize_email email) (working st) = None \<and> user_by_id i (working st) = None \<and>
    (outcome \<noteq> BornActive \<and> outcome \<noteq> ActivationWithheld \<longrightarrow>
      (\<exists>token st2 x. issue_token C i ''activation'' (cf_activation_ttl C) (mailed_address C user) plain now st1 = (Inr token, st2) \<and>
        maybe_send_link C deliver ''activation'' (us_email user) token st2 = (Inr x, st') \<and> outcome = ActivationToken token)) \<and>
    (outcome = BornActive \<or> outcome = ActivationWithheld \<longrightarrow> st' = st1)"
  using assms by (auto simp: signup_def Let_def split: option.splits if_splits prod.splits sum.splits)

lemma refines_signup: "refines_links C (signup C deliver ok i email pw plain now)"
proof (rule refines_linksI)
  fix st e st'
  assume "settled st" "signup C deliver ok i email pw plain now st = (Inl e, st')"
  then show "link_moves C (view_of (working st) (ac_mail st)) (view_of (sess_durable (ac_session st')) (ac_mail st'))"
    by (auto simp: signup_def Let_def settled_durable dest!: issue_token_frame send_link_frame
        split: option.splits if_splits prod.splits sum.splits)
next
  fix st x st'
  assume run: "signup C deliver ok i email pw plain now st = (Inr x, st')"
  obtain user outcome where x: "x = (user, outcome)" by (cases x)
  from signup_Inr [OF run [unfolded x]] obtain st1 where user: "user = new_user C i (normalize_email email) pw"
    and st1: "st1 = put_db ((working st)\<lparr>ad_users := ad_users (working st) @ [user]\<rparr>) st"
    and link: "outcome \<noteq> BornActive \<and> outcome \<noteq> ActivationWithheld \<longrightarrow>
      (\<exists>token st2 x. issue_token C i ''activation'' (cf_activation_ttl C) (mailed_address C user) plain now st1 = (Inr token, st2) \<and>
        maybe_send_link C deliver ''activation'' (us_email user) token st2 = (Inr x, st') \<and> outcome = ActivationToken token)"
    and none: "outcome = BornActive \<or> outcome = ActivationWithheld \<longrightarrow> st' = st1"
    by blast
  have "link_moves C (view_of (working st) (ac_mail st)) (view_of (working st1) (ac_mail st1))"
    by (simp add: st1 user moves_join)
  also have "link_moves C \<dots> (view_of (working st') (ac_mail st'))"
    using none link issue_then_mail [OF _ _ mailed_address_cases [of C user], of C i "''activation''"]
    by (cases outcome) auto
  finally show "link_moves C (view_of (working st) (ac_mail st)) (view_of (working st') (ac_mail st'))" .
qed

text \<open>The proofs of a recovery touch attempts and codes, which the view does not show.\<close>

lemma quiet_attempt_frame: "quiet_attempt B th key st = (r, st') \<Longrightarrow> ac_session st' = ac_session st \<and> ac_mail st' = ac_mail st"
  by (auto simp: quiet_attempt_def dest!: on_throttle_keeps split: option.splits prod.splits sum.splits)

lemma quiet_reserve_frame: "quiet_reserve B th key st = (r, st') \<Longrightarrow> ac_session st' = ac_session st \<and> ac_mail st' = ac_mail st"
  by (auto simp: quiet_reserve_def dest!: on_throttle_keeps split: option.splits prod.splits sum.splits account_error.splits)

lemma release_slot_frame: "release_slot B th key st = (r, st') \<Longrightarrow> ac_session st' = ac_session st \<and> ac_mail st' = ac_mail st"
  by (auto simp: release_slot_def dest!: on_throttle_keeps split: option.splits)

lemma reset_attempts_frame: "reset_attempts B th key st = (r, st') \<Longrightarrow> ac_session st' = ac_session st \<and> ac_mail st' = ac_mail st"
  by (metis reset_attempts_db(1,2) snd_conv)

lemma verify_mfa_code_view: "view_of (snd (verify_mfa_code C time now user code db)) ms = view_of db ms"
  by (auto simp: verify_mfa_code_def claim_totp_step_def view_of_update_same account_view_def Let_def
      split: option.splits prod.splits bool.splits)

lemma recovery_factor_frame:
  assumes "recovery_factor B C S th has_codes time now user code st = (r, st')"
  shows "sess_durable (ac_session st') = sess_durable (ac_session st) \<and> ac_mail st' = ac_mail st \<and>
    view_of (working st') ms = view_of (working st) ms"
proof -
  have view: "view_of db ms = view_of (working s) ms" if "verify_mfa_code C time now user (the code) (working s) = (b, db)" for b db s
    using verify_mfa_code_view [of C time now user "the code" "working s" ms] that by simp
  show ?thesis
    using assms by (auto simp: recovery_factor_def working_def put_db_def view [unfolded working_def]
        dest!: quiet_attempt_frame reset_attempts_frame split: if_splits prod.splits sum.splits bool.splits)
qed

lemma proven_recovery_moves:
  assumes run: "proven_recovery B C S deliver ip mfa ip_key has_codes time now user new_email code plain st = (r, st')"
  shows "case r of
      Inl _ \<Rightarrow> sess_durable (ac_session st') = sess_durable (ac_session st) \<and> ac_mail st' = ac_mail st
    | Inr _ \<Rightarrow> link_moves C (view_of (working st) (ac_mail st)) (view_of (working st') (ac_mail st'))"
proof -
  obtain f st1 where f: "recovery_factor B C S mfa has_codes time now user code st = (f, st1)" by fastforce
  note ff = recovery_factor_frame [OF f, of "ac_mail st"]
  show ?thesis
  proof (cases "f = Inr True")
    case True
    obtain g st2 where g: "release_slot B ip ip_key st1 = (g, st2)" by fastforce
    note gf = release_slot_frame [OF g]
    show ?thesis
    proof (cases g)
      case (Inl e)
      then show ?thesis using run f g ff gf True by (auto simp: proven_recovery_def)
    next
      case (Inr u)
      then have stage: "stage_email_change C deliver user new_email plain now st2 = (r, st')"
        using run f g True by (simp add: proven_recovery_def)
      have "view_of (working st2) (ac_mail st2) = view_of (working st) (ac_mail st)"
        using ff gf by (simp add: working_def)
      then show ?thesis
        using stage ff gf by (cases r) (auto dest: stage_email_change_moves stage_email_change_refused)
    qed
  next
    case False
    then show ?thesis using run f ff by (auto simp: proven_recovery_def split: sum.splits bool.splits)
  qed
qed

lemma refines_request_email_recovery:
  "refines_links C (request_email_recovery B C S sha deliver login ip mfa client has_codes time now email new_email pw code plain)"
proof (rule refines_linksI)
  fix st e st'
  assume "settled st"
    "request_email_recovery B C S sha deliver login ip mfa client has_codes time now email new_email pw code plain st = (Inl e, st')"
  then show "link_moves C (view_of (working st) (ac_mail st)) (view_of (sess_durable (ac_session st')) (ac_mail st'))"
    by (auto simp: request_email_recovery_def Let_def settled_durable dest!: quiet_reserve_frame quiet_attempt_frame
        reset_attempts_frame proven_recovery_moves split: option.splits if_splits prod.splits sum.splits bool.splits)
next
  fix st x st'
  assume "request_email_recovery B C S sha deliver login ip mfa client has_codes time now email new_email pw code plain st = (Inr x, st')"
  then show "link_moves C (view_of (working st) (ac_mail st)) (view_of (working st') (ac_mail st'))"
    by (auto simp: request_email_recovery_def Let_def working_def dest!: quiet_reserve_frame quiet_attempt_frame
        reset_attempts_frame proven_recovery_moves split: option.splits if_splits prod.splits sum.splits bool.splits)
qed

lemma refines_edit_email: "refines_links C (\<lambda>st. (Inr (), put_db (edit_email i email (working st)) st))"
proof (rule refines_linksI)
  fix st :: "('b, 'o) account_state" and x st'
  assume "(Inr (), put_db (edit_email i email (working st)) st) = (Inr x, st')"
  then have st': "st' = put_db (edit_email i email (working st)) st" by simp
  have "map account_view (ad_users (edit_email i email db)) = on_account i (\<lambda>v. case v of (i, old, proof) \<Rightarrow>
      (i, email, if email = old then proof else None)) (map account_view (ad_users db))" for db
    by (auto simp: edit_email_def update_user_def on_account_def account_view_def forget_proof_of_previous_email_def)
  then show "link_moves C (view_of (working st) (ac_mail st)) (view_of (working st') (ac_mail st'))"
    using link_move.edits [of C "map account_view (ad_users (working st))" "ad_links (working st)" "ac_mail st" i email]
    by (auto simp: st' view_of_def edit_email_def)
qed simp

text \<open>Every request on a service refines the moves, and so do their sequences.\<close>

lemma refines_drop_result: "refines_links C h \<Longrightarrow> refines_links C (drop_result h)"
  by (rule refines_linksI) (auto simp: drop_result_def dest: refines_linksD split: prod.splits sum.splits)

lemma refines_as_user: "(\<And>u. refines_links C (h u)) \<Longrightarrow> refines_links C (as_user i h)"
  unfolding refines_links_def as_user_def by (auto simp: settled_durable split: option.splits)

lemma refines_link_handler: "refines_links C (link_handler V C deliver time now op)"
  by (cases op) (simp_all add: refines_drop_result refines_as_user refines_signup refines_activate refines_request_activation
      refines_request_password_reset refines_confirm_password_reset refines_request_email_change refines_confirm_email_change
      refines_request_email_verification refines_confirm_email_verification refines_request_email_recovery refines_edit_email)

lemma settled_run_link_op: "settled (run_link_op V C step st)"
  by (cases step) (simp add: run_link_op_def settled_account_route)

lemma run_link_ops_moves:
  "settled st \<Longrightarrow> settled (run_link_ops V C steps st) \<and>
     link_moves C (view_of (working st) (ac_mail st)) (view_of (working (run_link_ops V C steps st)) (ac_mail (run_link_ops V C steps st)))"
proof (induction steps arbitrary: st)
  case (Cons step steps)
  obtain deliver time now op where step: "step = (deliver, time, now, op)" by (cases step)
  have "link_moves C (view_of (working st) (ac_mail st)) (view_of (working (run_link_op V C step st)) (ac_mail (run_link_op V C step st)))"
    using refines_route [OF refines_link_handler Cons.prems] by (simp add: run_link_op_def step)
  then show ?case using Cons.IH [OF settled_run_link_op [of V C step st]] by (auto simp: run_link_ops_def)
qed (simp add: run_link_ops_def)

end
