(* ===== verification/Link_Properties.thy ===== *)
theory Link_Properties
  imports Email_Links
begin

text \<open>
  What the mailed links guarantee: an address is marked as verified only by a link that was mailed to
  it, a link opens once and only the newest of its kind opens, a reset throws everyone else out, and the
  requests that need no login say nothing about who has an account. The invariants are proved on the
  moves of \<open>Email_Links\<close>, which every request refines.
\<close>

subsection \<open>Proof of a mailbox\<close>




lemma payload_ok_used [simp]: "payload_ok C ms (k\<lparr>lk_used_at := u\<rparr>) = payload_ok C ms k"
  by (simp add: payload_ok_def)


lemma used_links_stay:
  "k \<in> set ls \<Longrightarrow> lk_used_at k \<noteq> None \<Longrightarrow> k \<in> set (burn_links i purpose now ls)"
  "k \<in> set ls \<Longrightarrow> lk_used_at k \<noteq> None \<Longrightarrow> k \<in> set (spend_links h purpose now ls)"
  by (force simp: burn_links_def spend_links_def pending_link_def redeemable_def)+






text \<open>A sign-up, the mail it sends and the activation it asks for.\<close>

definition demo_links :: "(mem_throttle, unit) account_state" where
  "demo_links = demo_account\<lparr>ac_session := fresh_session \<lparr>ad_users = [], ad_links = [], ad_codes = [], ad_refresh = [], ad_passkeys = []\<rparr>\<rparr>"

definition demo_env :: "(mem_throttle, payload) link_env" where
  "demo_env = \<lparr>le_backend = mem_backend, le_service = demo_tokens, le_sha256 = (\<lambda>s. s), le_login = None, le_ip = None,
     le_mfa = None, le_client_ip = None, le_has_codes = True\<rparr>"

definition demo_steps :: "link_step list" where
  "demo_steps = [(\<lambda>_. True, 0, 5, SignUp True 3 ''A@b '' ''Pa55word!'' ''t1''), (\<lambda>_. True, 0, 9, Activate ''t1'')]"


subsection \<open>A link opens once, and only the newest one opens\<close>

definition link_spent :: "string \<Rightarrow> link_row list \<Rightarrow> bool" where
  "link_spent h ls \<longleftrightarrow> distinct (map lk_token_hash ls) \<and> list_ex (\<lambda>k. lk_token_hash k = h \<and> lk_used_at k \<noteq> None) ls"

text \<open>A row that can still be redeemed is the last one of its account and purpose.\<close>

definition same_flow :: "link_row \<Rightarrow> link_row \<Rightarrow> bool" where
  "same_flow k k' \<longleftrightarrow> lk_user_id k = lk_user_id k' \<and> lk_purpose k = lk_purpose k'"

definition only_newest :: "link_row list \<Rightarrow> bool" where
  "only_newest ls \<longleftrightarrow> sorted_wrt (\<lambda>k k'. lk_used_at k = None \<longrightarrow> \<not> same_flow k k') ls"

lemma link_spentI: "distinct (map lk_token_hash ls) \<Longrightarrow> k \<in> set ls \<Longrightarrow> lk_token_hash k = h \<Longrightarrow> lk_used_at k \<noteq> None \<Longrightarrow> link_spent h ls"
  by (auto simp: link_spent_def list_ex_iff)

lemma link_spentE:
  assumes "link_spent h ls"
  obtains k where "distinct (map lk_token_hash ls)" "k \<in> set ls" "lk_token_hash k = h" "lk_used_at k \<noteq> None"
  using assms by (auto simp: link_spent_def list_ex_iff)

lemma link_spent_spend: "link_spent h ls \<Longrightarrow> link_spent h (spend_links h' purpose now ls)"
proof (elim link_spentE)
  fix k
  assume k: "k \<in> set ls" "lk_token_hash k = h" "lk_used_at k \<noteq> None" and "distinct (map lk_token_hash ls)"
  then show ?thesis by (intro link_spentI [OF _ used_links_stay(2) [OF k(1,3)] k(2,3)]) simp
qed

lemma link_spent_move: "link_move C v v' \<Longrightarrow> link_spent h (fst (snd v)) \<Longrightarrow> link_spent h (fst (snd v'))"
proof (induction rule: link_move.induct)
  case (issues k ls ms us now)
  let ?ls = "(if cf_single_active_token C then burn_links (lk_user_id k) (lk_purpose k) now ls else ls) @ [k]"
  from issues.prems obtain k' where k': "k' \<in> set ls" "lk_token_hash k' = h" "lk_used_at k' \<noteq> None" and
    d: "distinct (map lk_token_hash ls)" by (auto elim: link_spentE)
  have "distinct (map lk_token_hash ?ls)" using issues.hyps(1) d by simp
  moreover have "k' \<in> set ?ls" using k' used_links_stay(1) by simp
  ultimately show ?case using k' by (auto intro: link_spentI)
qed (simp_all add: link_spent_spend)

lemma only_newest_used:
  assumes "only_newest ls"
  shows "only_newest (burn_links i purpose now ls)" "only_newest (spend_links h purpose now ls)"
  using assms unfolding only_newest_def burn_links_def spend_links_def sorted_wrt_map
  by (auto elim!: sorted_wrt_mono_rel [rotated] simp: same_flow_def)

lemma only_newest_move:
  assumes "cf_single_active_token C"
  shows "link_move C v v' \<Longrightarrow> only_newest (fst (snd v)) \<Longrightarrow> only_newest (fst (snd v'))"
proof (induction rule: link_move.induct)
  case (issues k ls ms us now)
  have "lk_used_at k' = None \<longrightarrow> \<not> same_flow k' k" if "k' \<in> set (burn_links (lk_user_id k) (lk_purpose k) now ls)" for k'
    using that by (auto simp: burn_links_def pending_link_def same_flow_def)
  then show ?case
    using only_newest_used(1) [of ls "lk_user_id k" "lk_purpose k" now] issues.prems assms
    by (auto simp: only_newest_def sorted_wrt_append)
qed (simp_all add: only_newest_used)

lemma link_moves_spent: "link_moves C v v' \<Longrightarrow> link_spent h (fst (snd v)) \<Longrightarrow> link_spent h (fst (snd v'))"
  by (induction rule: rtranclp_induct) (auto intro: link_spent_move)

lemma link_moves_newest:
  "link_moves C v v' \<Longrightarrow> cf_single_active_token C \<Longrightarrow> only_newest (fst (snd v)) \<Longrightarrow> only_newest (fst (snd v'))"
  by (induction rule: rtranclp_induct) (auto intro: only_newest_move)

lemma find_SomeD: "find P xs = Some x \<Longrightarrow> x \<in> set xs \<and> P x"
  by (metis find_Some_iff nth_mem)

lemma spent_link_refused:
  assumes "link_spent (cf_digest C token) (ad_links (working st))"
  shows "\<exists>why. consume_token C token purpose now st = (Inl (InvalidLink why), st)"
proof -
  have used: "lk_token_hash k \<noteq> cf_digest C token" if "k \<in> set (ad_links (working st))" "lk_used_at k = None" for k
  proof
    assume h: "lk_token_hash k = cf_digest C token"
    obtain k' where k': "k' \<in> set (ad_links (working st))" "lk_token_hash k' = cf_digest C token" "lk_used_at k' \<noteq> None"
      using assms by (auto simp: link_spent_def list_ex_iff)
    have "k = k'"
      using assms that h k'(1,2) by (auto simp: link_spent_def distinct_map inj_on_def)
    with k' that show False by simp
  qed
  then have "find (redeemable (cf_digest C token) purpose now) (ad_links (working st)) = None"
    by (auto simp: find_None_iff redeemable_def)
  moreover have "\<exists>why. lookup_token C token purpose now (working st) = Inl (InvalidLink why)"
    using used by (auto simp: lookup_token_def dest!: find_SomeD split: option.split)
  ultimately show ?thesis by (auto simp: consume_token_def Let_def)
qed

text \<open>
  C22. A link opens once: after the request that redeemed it commits, whatever requests follow, every
  further redemption of the same secret, for any purpose and at any time, is refused and changes nothing.
\<close>

theorem link_opens_once:
  assumes "distinct (map lk_token_hash (ad_links (working st)))"
    and "consume_token C token purpose now st = (Inr record, st1)"
    and "st2 = run_link_ops V C steps (st1\<lparr>ac_session := session_commit (ac_session st1)\<rparr>)"
  shows "\<exists>why. consume_token C token purpose' now' st2 = (Inl (InvalidLink why), st2)"
proof -
  let ?st = "st1\<lparr>ac_session := session_commit (ac_session st1)\<rparr>"
  obtain k where k: "k \<in> set (ad_links (working st))" "redeemable (cf_digest C token) purpose now k"
    "working st1 = (working st)\<lparr>ad_links := spend_links (cf_digest C token) purpose now (ad_links (working st))\<rparr>"
    using consume_token_Inr [OF assms(2)] by blast
  have w: "working ?st = working st1" "settled ?st" by (simp_all add: working_def settled_def session_defs)
  have "k\<lparr>lk_used_at := Some now\<rparr> \<in> set (ad_links (working st1))"
    using k by (force simp: spend_links_def)
  then have "link_spent (cf_digest C token) (ad_links (working ?st))"
    using assms(1) k by (intro link_spentI [where k = "k\<lparr>lk_used_at := Some now\<rparr>"]) (simp_all add: w redeemable_def)
  then have "link_spent (cf_digest C token) (ad_links (working st2))"
    using link_moves_spent [OF conjunct2 [OF run_link_ops_moves [OF w(2), of V C steps]]] by (simp add: assms(3) view_of_def)
  then show ?thesis by (rule spent_link_refused)
qed

text \<open>
  Only the newest link opens: with \<^verbatim>\<open>AUTH_SINGLE_ACTIVE_TOKEN\<close>, after any requests one after the
  other, a link that can still be redeemed is the last one issued for its account and purpose, so there is
  at most one of them.
\<close>

theorem only_newest_link_opens:
  assumes "settled st" and "cf_single_active_token C" and "only_newest (ad_links (working st))"
    and "ad_links (working (run_link_ops V C steps st)) = older @ k # newer" and "lk_used_at k = None"
  shows "\<forall>k' \<in> set newer. lk_user_id k' \<noteq> lk_user_id k \<or> lk_purpose k' \<noteq> lk_purpose k"
proof -
  have "only_newest (ad_links (working (run_link_ops V C steps st)))"
    using link_moves_newest [OF conjunct2 [OF run_link_ops_moves [OF assms(1), of V C steps]] assms(2)] assms(3)
    by (simp add: view_of_def)
  then show ?thesis using assms(4,5) by (auto simp: only_newest_def sorted_wrt_append same_flow_def)
qed

text \<open>A second link of the same kind kills the first, and opens once.\<close>

definition demo_asked :: "(mem_throttle, unit) account_state" where
  "demo_asked = run_link_ops demo_env demo_config
     (demo_steps @ [(\<lambda>_. True, 0, 10, RequestReset ''a@b'' ''r1''), (\<lambda>_. True, 0, 11, RequestReset ''a@b'' ''r2'')]) demo_links"

theorem link_opens_once_witness:
  "\<exists>why. consume_token demo_config ''r2'' ''password_reset'' 13
     (run_link_ops demo_env demo_config []
       ((snd (consume_token demo_config ''r2'' ''password_reset'' 12 demo_asked))
          \<lparr>ac_session := session_commit (ac_session (snd (consume_token demo_config ''r2'' ''password_reset'' 12 demo_asked)))\<rparr>)) =
     (Inl (InvalidLink why),
      run_link_ops demo_env demo_config []
       ((snd (consume_token demo_config ''r2'' ''password_reset'' 12 demo_asked))
          \<lparr>ac_session := session_commit (ac_session (snd (consume_token demo_config ''r2'' ''password_reset'' 12 demo_asked)))\<rparr>))"
proof -
  have d: "distinct (map lk_token_hash (ad_links (working demo_asked)))" by code_simp
  have "\<not> Option.is_none (case fst (consume_token demo_config ''r2'' ''password_reset'' 12 demo_asked) of Inl _ \<Rightarrow> None | Inr k \<Rightarrow> Some k)"
    by code_simp
  then obtain k where "fst (consume_token demo_config ''r2'' ''password_reset'' 12 demo_asked) = Inr k"
    by (auto simp: Option.is_none_def split: sum.splits)
  then have "consume_token demo_config ''r2'' ''password_reset'' 12 demo_asked =
      (Inr k, snd (consume_token demo_config ''r2'' ''password_reset'' 12 demo_asked))"
    by (metis prod.collapse)
  from link_opens_once [OF d this refl] show ?thesis .
qed

theorem only_newest_link_opens_witness:
  "\<exists>older k. ad_links (working demo_asked) = older @ [k] \<and> lk_used_at k = None \<and>
     (\<forall>k' \<in> set older. same_flow k' k \<longrightarrow> lk_used_at k' \<noteq> None) \<and>
     (\<forall>k' \<in> set []. lk_user_id k' \<noteq> lk_user_id k \<or> lk_purpose k' \<noteq> lk_purpose k)"
proof -
  let ?ls = "ad_links (working demo_asked)"
  have ends: "?ls \<noteq> [] \<and> lk_used_at (last ?ls) = None \<and>
      list_all (\<lambda>k'. same_flow k' (last ?ls) \<longrightarrow> lk_used_at k' \<noteq> None) (butlast ?ls)" by code_simp
  then have ls: "?ls = butlast ?ls @ last ?ls # []" by simp
  have "settled demo_links" "cf_single_active_token demo_config" "only_newest (ad_links (working demo_links))"
    by (simp_all add: settled_def working_def demo_links_def demo_account_def demo_config_def only_newest_def)
  from only_newest_link_opens [OF this ls [unfolded demo_asked_def], folded demo_asked_def] ends ls show ?thesis
    by (auto simp: list_all_iff intro!: exI [of _ "butlast ?ls"] exI [of _ "last ?ls"])
qed

subsection \<open>A reset throws everyone else out\<close>

lemma filter_map_other:
  "(\<And>x. P (f x) = P x) \<Longrightarrow> (\<And>x. P x \<Longrightarrow> f x = x) \<Longrightarrow> filter P (map f xs) = filter P xs"
  by (induction xs) auto

text \<open>What \<open>reset_password_state\<close> leaves, table by table.\<close>

lemma reset_password_state_tables:
  assumes "cf_has_refresh C" and "cf_has_passkeys C"
  shows "ad_users (working (reset_password_state C pw True True now user st)) = map (\<lambda>u. if us_id u = us_id user then u\<lparr>us_hashed_password := cf_hash C pw\<rparr> else u) (ad_users (working st))"
    and "ad_refresh (working (reset_password_state C pw True True now user st)) = revoke_where (\<lambda>r. rr_user_id r = us_id user) now (ad_refresh (working st))"
    and "ad_passkeys (working (reset_password_state C pw True True now user st)) = filter ((\<noteq>) (us_id user)) (ad_passkeys (working st))"
    and "ad_links (working (reset_password_state C pw True True now user st)) = ad_links (working st)"
  using assms(1,2)
  by (simp_all add: reset_password_state_def Let_def revoke_user_passkeys_def revoke_sessions_refresh update_user_def)

text \<open>
  C23. A reset is a takeover by the owner: when its route answers, the account has the new hash, none of
  its refresh tokens is left alive, its passkeys are gone, the link is spent, all of this durable; every
  other account keeps its row, its tokens and its passkeys. When the route refuses, no account, token
  or passkey has changed.
\<close>

theorem password_reset_evicts:
  assumes "settled st" and "cf_has_refresh C" and "cf_has_passkeys C"
    and "account_route (confirm_password_reset C token pw True True now) st = (r, st')"
  shows "case r of
      Inr i \<Rightarrow> settled st' \<and> (\<forall>u. user_by_id i (working st') = Some u \<longrightarrow> us_hashed_password u = cf_hash C pw) \<and>
        (\<forall>t \<in> set (ad_refresh (working st')). rr_user_id t = i \<longrightarrow> rr_revoked_at t \<noteq> None) \<and> i \<notin> set (ad_passkeys (working st')) \<and>
        list_ex (\<lambda>k. lk_token_hash k = cf_digest C token \<and> lk_user_id k = i \<and> lk_used_at k = Some now) (ad_links (working st')) \<and>
        filter (\<lambda>u. us_id u \<noteq> i) (ad_users (working st')) = filter (\<lambda>u. us_id u \<noteq> i) (ad_users (working st)) \<and>
        filter (\<lambda>t. rr_user_id t \<noteq> i) (ad_refresh (working st')) = filter (\<lambda>t. rr_user_id t \<noteq> i) (ad_refresh (working st)) \<and>
        filter ((\<noteq>) i) (ad_passkeys (working st')) = filter ((\<noteq>) i) (ad_passkeys (working st))
    | Inl e \<Rightarrow> settled st' \<and> ad_users (working st') = ad_users (working st) \<and> ad_refresh (working st') = ad_refresh (working st) \<and>
        ad_passkeys (working st') = ad_passkeys (working st)"
proof (cases "confirm_password_reset C token pw True True now st")
  case (Pair r0 st0)
  have settled: "settled st'" using settled_account_route [of "confirm_password_reset C token pw True True now" st] assms(4) by simp
  show ?thesis
  proof (cases r0)
    case (Inl e)
    then have "r = Inl e" and w: "working st' = sess_durable (ac_session st0)"
      using assms(4) Pair by (auto simp: account_route_def working_def session_defs)
    moreover have "sess_durable (ac_session st0) = working st \<or>
        (\<exists>ls. sess_durable (ac_session st0) = (working st)\<lparr>ad_links := ls\<rparr>)"
      using Pair Inl assms(1)
      by (auto simp: confirm_password_reset_def Let_def settled_durable dest!: redeem_Inl redeem_Inr refuse_email_link_cases
          split: option.splits prod.splits sum.splits if_splits)
    ultimately show ?thesis using settled by auto
  next
    case (Inr i)
    then have r: "r = Inr i" and w: "working st' = working st0"
      using assms(4) Pair by (auto simp: account_route_def working_def session_defs)
    obtain row user st1 where red: "redeem C token ''password_reset'' now st = (Inr (row, user), st1)"
      and i: "i = us_id user" and st0: "st0 = reset_password_state C pw True True now user st1"
      using confirm_password_reset_Inr [OF Pair [unfolded Inr]] by blast
    obtain k where k: "k \<in> set (ad_links (working st))" "redeemable (cf_digest C token) ''password_reset'' now k"
      "user_by_id (lk_user_id k) (working st) = Some user"
      "working st1 = (working st)\<lparr>ad_links := spend_links (cf_digest C token) ''password_reset'' now (ad_links (working st))\<rparr>"
      using redeem_Inr [OF red] by blast
    have "k\<lparr>lk_used_at := Some now\<rparr> \<in> set (ad_links (working st'))"
      using k by (force simp: w st0 reset_password_state_tables(4) [OF assms(2,3)] spend_links_def)
    moreover have "lk_user_id k = i" using user_by_id_id [OF k(3)] i by simp
    ultimately have link: "list_ex (\<lambda>k. lk_token_hash k = cf_digest C token \<and> lk_user_id k = i \<and> lk_used_at k = Some now)
        (ad_links (working st'))"
      using k(2) unfolding list_ex_iff by (intro bexI [of _ "k\<lparr>lk_used_at := Some now\<rparr>"]) (simp_all add: redeemable_def)
    show ?thesis
      using settled link k(4)
      by (auto simp: r w st0 i reset_password_state_tables [OF assms(2,3)] user_by_id_def find_Some_iff revoke_where_def
          intro!: filter_map_other split: if_splits)
  qed
qed

theorem password_reset_evicts_witness:
  "\<exists>r st'. account_route (confirm_password_reset demo_config ''r2'' ''N3w!pass'' True True 12) demo_asked = (r, st') \<and>
     \<not> Option.is_none (case r of Inl _ \<Rightarrow> None | Inr i \<Rightarrow> Some i) \<and> settled st'"
proof -
  let ?out = "account_route (confirm_password_reset demo_config ''r2'' ''N3w!pass'' True True 12) demo_asked"
  have ok: "\<not> Option.is_none (case fst ?out of Inl _ \<Rightarrow> None | Inr i \<Rightarrow> Some i)" by code_simp
  have "settled demo_links" by (simp add: settled_def working_def demo_links_def demo_account_def)
  then have s: "settled demo_asked" using run_link_ops_moves unfolding demo_asked_def by blast
  have c: "cf_has_refresh demo_config" "cf_has_passkeys demo_config" by (simp_all add: demo_config_def)
  have "settled (snd ?out)" using password_reset_evicts [OF s c, of "''r2''" "''N3w!pass''" 12 "fst ?out" "snd ?out"]
    by (auto split: sum.splits)
  with ok show ?thesis by (intro exI [of _ "fst ?out"] exI [of _ "snd ?out"]) simp
qed

subsection \<open>Requests that need no login\<close>

definition fresh_secret :: "'o account_config \<Rightarrow> string \<Rightarrow> ('b, 'o) account_state \<Rightarrow> bool" where
  "fresh_secret C plain st \<longleftrightarrow> \<not> list_ex (\<lambda>k. lk_token_hash k = cf_digest C plain) (ad_links (working st))"

lemma issue_after_mail_silent:
  assumes "cf_email C = Some True" and "fresh_secret C plain st"
  shows "\<exists>a. fst (issue_token_after_mail C deliver user purpose ttl payload plain now st) = Inr a"
proof -
  obtain r st1 where mail: "maybe_send_link C deliver purpose (us_email user) plain st = (r, st1)" by fastforce
  have "r = Inl EmailUnavailable \<or> r = Inr ()"
    using mail assms(1) by (auto simp: maybe_send_link_def send_email_def split: if_splits)
  moreover have "fst (store_token C i p (cf_digest C plain) expires payload now st1) = Inr ()" for i p expires
    using assms(2) send_link_frame [OF mail]
    by (simp add: store_token_def Let_def fresh_secret_def list_ex_hash)
  ultimately show ?thesis
    using mail by (auto simp: issue_token_after_mail_def mint_token_def split: prod.splits sum.splits) (metis fst_conv sum.distinct(1))+
qed

lemma silent_answers:
  assumes "cf_email C \<noteq> None" and "\<not> cf_return_token C" and "fresh_secret C plain st"
  shows "fst (request_password_reset C deliver email plain now st) =
      (case require_mail_delivery C True of Some e \<Rightarrow> Inl e | None \<Rightarrow> Inr None)"
    and "fst (request_activation C deliver email plain now st) =
      (case require_mail_delivery C True of Some e \<Rightarrow> Inl e | None \<Rightarrow> Inr None)"
proof -
  have on: "cf_email C = Some True" if "require_mail_delivery C True = None"
    using assms(1,2) that by (auto simp: require_mail_delivery_def split: if_splits)
  have quiet: "surfaced C s = None" for s using assms(1,2) by (simp add: surfaced_def)
  have issue: "fst (case issue_token_after_mail C deliver u p ttl payload plain now st of
      (Inl e, st) \<Rightarrow> (Inl e, st) | (Inr None, st) \<Rightarrow> (Inr None, st) | (Inr (Some token), st) \<Rightarrow> (Inr (surfaced C token), st)) = Inr None"
    if none: "require_mail_delivery C True = None" for u p ttl payload
  proof -
    obtain a s where "issue_token_after_mail C deliver u p ttl payload plain now st = (Inr a, s)"
      using issue_after_mail_silent [OF on [OF none] assms(3)] by (metis prod.collapse)
    then show ?thesis by (cases a) (simp_all add: quiet)
  qed
  show "fst (request_password_reset C deliver email plain now st) =
      (case require_mail_delivery C True of Some e \<Rightarrow> Inl e | None \<Rightarrow> Inr None)"
    by (cases "user_by_email (normalize_email email) (working st)"; cases "require_mail_delivery C True")
      (simp_all add: request_password_reset_def issue)
  show "fst (request_activation C deliver email plain now st) =
      (case require_mail_delivery C True of Some e \<Rightarrow> Inl e | None \<Rightarrow> Inr None)"
    by (cases "user_by_email (normalize_email email) (working st)"; cases "require_mail_delivery C True")
      (simp_all add: request_activation_def issue)
qed

text \<open>
  Asking for a reset or for the activation link again reveals nothing: where links travel by mail,
  the answer is the same in every state for every address: known or unknown, active or not, closed to
  links, with a mail server that takes the mail or not.
\<close>

theorem requests_reveal_nothing:
  assumes "cf_email C \<noteq> None" and "\<not> cf_return_token C" and "fresh_secret C plain st" and "fresh_secret C plain' st'"
  shows "fst (request_password_reset C deliver email plain now st) = fst (request_password_reset C deliver' email' plain' now' st') \<and>
    fst (request_activation C deliver email plain now st) = fst (request_activation C deliver' email' plain' now' st')"
  using silent_answers [OF assms(1,2,3)] silent_answers [OF assms(1,2,4)] by simp

theorem requests_reveal_nothing_witness:
  "fst (request_password_reset demo_config (\<lambda>_. False) ''a@b'' ''r3'' 12 demo_asked) =
     fst (request_password_reset demo_config (\<lambda>_. True) ''nobody'' ''r4'' 0 demo_links) \<and>
   user_by_email ''a@b'' (working demo_asked) \<noteq> None \<and> user_by_email ''nobody'' (working demo_links) = None"
proof -
  have "cf_email demo_config \<noteq> None" "\<not> cf_return_token demo_config" by (simp_all add: demo_config_def)
  moreover have "fresh_secret demo_config ''r3'' demo_asked" "fresh_secret demo_config ''r4'' demo_links" by code_simp+
  moreover have "\<not> Option.is_none (user_by_email ''a@b'' (working demo_asked))"
      "Option.is_none (user_by_email ''nobody'' (working demo_links))" by code_simp+
  ultimately show ?thesis
    using requests_reveal_nothing [of demo_config "''r3''" demo_asked "''r4''" demo_links] by (auto simp: Option.is_none_def)
qed

subsection \<open>What the links do not guarantee\<close>

text \<open>
  An account that \<^verbatim>\<open>refuses_email_link\<close> closes is opened again by a verification link that was sent
  before: only the confirmations of activation and reset ask the predicate.
\<close>

definition closed_config :: "unit account_config" where
  "closed_config = demo_config\<lparr>cf_refuses_email_link := Some (\<lambda>u. us_id u = 3)\<rparr>"

definition close_account :: "uuid \<Rightarrow> (mem_throttle, unit) account_state \<Rightarrow> (mem_throttle, unit) account_state" where
  "close_account i st = put_db (update_user i (\<lambda>u. u\<lparr>us_is_active := False\<rparr>) (working st)) st"

definition demo_closed :: "(mem_throttle, unit) account_state" where
  "demo_closed = close_account 3 (run_link_ops demo_env demo_config (demo_steps @ [(\<lambda>_. True, 0, 10, RequestVerification 3 ''v1'')]) demo_links)"

lemma verification_reopens_closed_account:
  "list_all (\<lambda>u. email_link_refused closed_config u \<and> \<not> us_is_active u) (ad_users (working demo_closed)) \<and>
   (case confirm_email_verification closed_config ''v1'' 11 demo_closed of
      (Inl _, _) \<Rightarrow> False | (Inr _, st) \<Rightarrow> list_all us_is_active (ad_users (working st)))"
  by code_simp

text \<open>
  The payload of a link for a change is the address however the link travelled: one that came back in
  the response of a development setting proves the mailbox once links travel by mail.
\<close>

definition development_config :: "unit account_config" where
  "development_config = demo_config\<lparr>cf_return_token := True, cf_environment := Some ''development''\<rparr>"

definition demo_surfaced :: "(mem_throttle, unit) account_state" where
  "demo_surfaced = run_link_ops demo_env demo_config [(\<lambda>_. True, 0, 11, ConfirmChange ''c1'' True)]
     (run_link_ops demo_env development_config [(\<lambda>_. True, 0, 10, RequestChange 3 ''Pa55word!'' ''c@d'' ''c1'')]
       (run_link_ops demo_env demo_config demo_steps demo_links))"

lemma surfaced_change_link_proves_mailbox:
  "list_all (\<lambda>u. us_email u = ''c@d'' \<and> us_email_verified_at u = Some 11) (ad_users (working demo_surfaced)) \<and>
   ad_users (working demo_surfaced) \<noteq> [] \<and> list_all (\<lambda>m. fst m \<noteq> ''c@d'') (ac_mail demo_surfaced)"
  by code_simp

end
