(* ===== verification/Jobs.thy ===== *)
theory Jobs
  imports Py_Text
begin

text \<open>
  Long-running work as rows: \<^verbatim>\<open>JobStore\<close> of \<^verbatim>\<open>tasks/jobs.py\<close> and \<^verbatim>\<open>run_cancellable\<close> of \<^verbatim>\<open>tasks/cancellation.py\<close>.
  Each call of the store is one short transaction around one conditional \<^verbatim>\<open>UPDATE\<close> (two in the
  sweep), so calls of any number of requests, workers and screens interleave whole: a history is a
  list of calls.

  The table is the list of its rows. JSON and bytes are text, the columns a project adds a map from
  their names. The database chooses the order of rows with equal timestamps; here it is insertion order.
\<close>

subsection \<open>Rows\<close>

datatype JobStatusEnum = QUEUED | RUNNING | DONE | FAILED | CANCELLED

definition TERMINAL_JOB_STATUSES :: "JobStatusEnum list" where
  "TERMINAL_JOB_STATUSES = [DONE, FAILED, CANCELLED]"

definition CANCELLABLE_JOB_STATUSES :: "JobStatusEnum list" where
  "CANCELLABLE_JOB_STATUSES = [QUEUED, RUNNING]"

definition STALE_JOB_ERROR :: string where
  "STALE_JOB_ERROR = ''The worker stopped responding while this job was running, and the claim budget is spent.''"

definition STORE_OWNED_JOB_COLUMNS :: "string list" where
  "STORE_OWNED_JOB_COLUMNS = [''id'', ''is_active'', ''created_at'', ''updated_at'', ''kind'', ''status'', ''stage'',
     ''progress'', ''params'', ''payload'', ''result_id'', ''error'', ''attempts'', ''max_attempts'', ''started_at'',
     ''finished_at'']"

record job =
  jb_id :: uuid
  jb_kind :: string
  jb_status :: JobStatusEnum
  jb_stage :: string
  jb_progress :: real
  jb_params :: string
  jb_payload :: "string option"
  jb_result_id :: "uuid option"
  jb_error :: "string option"
  jb_attempts :: int
  jb_max_attempts :: int
  jb_started_at :: "micros option"
  jb_finished_at :: "micros option"
  jb_created_at :: micros
  jb_updated_at :: micros
  jb_values :: "string \<Rightarrow> string option"

datatype job_error =
    JobNotFound
  | JobAlreadyFinished JobStatusEnum
  | JobCancelled
  | BadArgument
  | NoStaleAfter
  | IdTaken
  | DispatchFailed string

definition is_terminal :: "job \<Rightarrow> bool" where
  "is_terminal j \<longleftrightarrow> List.member TERMINAL_JOB_STATUSES (jb_status j)"

definition new_job :: "uuid \<Rightarrow> string \<Rightarrow> string \<Rightarrow> string option \<Rightarrow> int \<Rightarrow> micros \<Rightarrow> job" where
  "new_job i kind params payload max_attempts now =
     \<lparr>jb_id = i, jb_kind = kind, jb_status = QUEUED, jb_stage = [], jb_progress = 0, jb_params = params, jb_payload = payload,
      jb_result_id = None, jb_error = None, jb_attempts = 0, jb_max_attempts = max_attempts, jb_started_at = None,
      jb_finished_at = None, jb_created_at = now, jb_updated_at = now, jb_values = Map.empty\<rparr>"

subsection \<open>The store\<close>

text \<open>A conditional \<^verbatim>\<open>UPDATE\<close>: its row count, and the table with \<^verbatim>\<open>updated_at\<close> refreshed where it wrote.\<close>

definition update_jobs :: "(job \<Rightarrow> bool) \<Rightarrow> (job \<Rightarrow> job) \<Rightarrow> micros \<Rightarrow> job list \<Rightarrow> nat \<times> job list" where
  "update_jobs P f now jobs =
     (length (filter P jobs), map (\<lambda>j. if P j then (f j)\<lparr>jb_updated_at := now\<rparr> else j) jobs)"

definition require_job :: "uuid \<Rightarrow> job list \<Rightarrow> job_error + job" where
  "require_job i jobs = (case find (\<lambda>j. jb_id j = i) jobs of None \<Rightarrow> Inl JobNotFound | Some j \<Rightarrow> Inr j)"

definition enqueue :: "uuid \<Rightarrow> string \<Rightarrow> string \<Rightarrow> string option \<Rightarrow> int \<Rightarrow> micros \<Rightarrow> (job list, job_error, job) action" where
  "enqueue i kind params payload max_attempts now jobs =
     (let j = new_job i kind params payload max_attempts now
      in if list_ex (\<lambda>k. jb_id k = i) jobs then (Inl IdTaken, jobs) else (Inr j, jobs @ [j]))"

definition get_job :: "uuid \<Rightarrow> (job list, job_error, job) action" where
  "get_job i jobs = (require_job i jobs, jobs)"

definition claim_job :: "uuid \<Rightarrow> micros \<Rightarrow> job list \<Rightarrow> job option \<times> job list" where
  "claim_job i now jobs =
     (case update_jobs (\<lambda>j. jb_id j = i \<and> jb_status j = QUEUED)
             (\<lambda>j. j\<lparr>jb_status := RUNNING, jb_started_at := Some now, jb_attempts := jb_attempts j + 1\<rparr>) now jobs of
        (n, jobs) \<Rightarrow> (if n = 0 then None else find (\<lambda>j. jb_id j = i) jobs, jobs))"

definition report_progress :: "uuid \<Rightarrow> real \<Rightarrow> string option \<Rightarrow> micros \<Rightarrow> job list \<Rightarrow> bool \<times> job list" where
  "report_progress i progress stage now jobs =
     (let v = min (max progress 0) 1
      in case update_jobs (\<lambda>j. jb_id j = i \<and> jb_status j = RUNNING \<and> jb_progress j < v)
                (\<lambda>j. j\<lparr>jb_progress := v, jb_stage := (case stage of None \<Rightarrow> jb_stage j | Some s \<Rightarrow> s)\<rparr>) now jobs of
           (n, jobs) \<Rightarrow> (n \<noteq> 0, jobs))"

definition finish_job ::
  "uuid \<Rightarrow> JobStatusEnum \<Rightarrow> uuid option \<Rightarrow> string option \<Rightarrow> (string \<times> string) list \<Rightarrow> micros \<Rightarrow> (job list, job_error, job) action" where
  "finish_job i status result_id error values now jobs =
     (case update_jobs (\<lambda>j. jb_id j = i \<and> \<not> List.member TERMINAL_JOB_STATUSES (jb_status j))
             (\<lambda>j. j\<lparr>jb_status := status, jb_result_id := result_id, jb_error := error, jb_payload := None,
                    jb_finished_at := Some now, jb_progress := (if status = DONE then 1 else jb_progress j),
                    jb_values := jb_values j ++ map_of values\<rparr>) now jobs of
        (n, jobs) \<Rightarrow>
          (case require_job i jobs of
             Inl e \<Rightarrow> (Inl e, jobs)
           | Inr j \<Rightarrow>
               if n \<noteq> 0 then (Inr j, jobs)
               else if jb_status j = CANCELLED then (Inl JobCancelled, jobs)
               else (Inl (JobAlreadyFinished (jb_status j)), jobs)))"

text \<open>\<open>columns\<close> are the mapped columns of the project's model.\<close>

definition project_values :: "string list \<Rightarrow> (string \<times> string) list \<Rightarrow> job_error + (string \<times> string) list" where
  "project_values columns values =
     (if list_ex (\<lambda>(name, _). \<not> List.member columns name) values then Inl BadArgument
      else if list_ex (\<lambda>(name, _). List.member STORE_OWNED_JOB_COLUMNS name) values then Inl BadArgument
      else Inr values)"

definition succeed ::
  "string list \<Rightarrow> uuid \<Rightarrow> uuid option \<Rightarrow> (string \<times> string) list option \<Rightarrow> micros \<Rightarrow> (job list, job_error, job) action" where
  "succeed columns i result_id values now jobs =
     (case (case values of None \<Rightarrow> Inr [] | Some vs \<Rightarrow> project_values columns vs) of
        Inl e \<Rightarrow> (Inl e, jobs)
      | Inr extra \<Rightarrow> finish_job i DONE result_id None extra now jobs)"

definition fail_job :: "uuid \<Rightarrow> string \<Rightarrow> micros \<Rightarrow> (job list, job_error, job) action" where
  "fail_job i reason now jobs = finish_job i FAILED None (Some reason) [] now jobs"

definition cancel_job :: "uuid \<Rightarrow> string option \<Rightarrow> micros \<Rightarrow> job list \<Rightarrow> job option \<times> job list" where
  "cancel_job i reason now jobs =
     (case update_jobs (\<lambda>j. jb_id j = i \<and> List.member CANCELLABLE_JOB_STATUSES (jb_status j))
             (\<lambda>j. j\<lparr>jb_status := CANCELLED, jb_error := reason, jb_payload := None, jb_finished_at := Some now\<rparr>) now jobs of
        (n, jobs) \<Rightarrow> (if n = 0 then None else find (\<lambda>j. jb_id j = i) jobs, jobs))"

definition is_cancelled :: "uuid \<Rightarrow> job list \<Rightarrow> bool" where
  "is_cancelled i jobs =
     (case find (\<lambda>j. jb_id j = i) jobs of None \<Rightarrow> True | Some j \<Rightarrow> jb_status j = CANCELLED)"

text \<open>\<open>statuses\<close> is \<^verbatim>\<open>status\<close> or \<^verbatim>\<open>statuses\<close>; giving both is refused.\<close>

definition list_recent ::
  "string option \<Rightarrow> JobStatusEnum option \<Rightarrow> JobStatusEnum list option \<Rightarrow> int \<Rightarrow> job list \<Rightarrow> job_error + job list" where
  "list_recent kind status statuses limit jobs =
     (if limit \<le> 0 then Inl BadArgument
      else if status \<noteq> None \<and> statuses \<noteq> None then Inl BadArgument
      else Inr (take (nat limit) (rev (sort_key jb_created_at (rev (filter
        (\<lambda>j. (case kind of None \<Rightarrow> True | Some k \<Rightarrow> jb_kind j = k) \<and>
             (case status of None \<Rightarrow> True | Some s \<Rightarrow> jb_status j = s) \<and>
             (case statuses of None \<Rightarrow> True | Some ss \<Rightarrow> List.member ss (jb_status j))) jobs))))))"

subsection \<open>Sweeps\<close>

definition started_before :: "micros \<Rightarrow> job \<Rightarrow> bool" where
  "started_before cutoff j \<longleftrightarrow> (case jb_started_at j of None \<Rightarrow> False | Some s \<Rightarrow> s < cutoff)"

definition stale_job :: "micros \<Rightarrow> job \<Rightarrow> bool" where
  "stale_job cutoff j \<longleftrightarrow> jb_status j = RUNNING \<and> started_before cutoff j"

text \<open>The pair is \<^verbatim>\<open>ReclaimedJobs\<close>: the ids back in the queue and the ids given up.\<close>

definition reclaim_stale_jobs :: "micros option \<Rightarrow> micros \<Rightarrow> (job list, job_error, uuid list \<times> uuid list) action" where
  "reclaim_stale_jobs stale_after now jobs =
     (case stale_after of
        None \<Rightarrow> (Inl NoStaleAfter, jobs)
      | Some after \<Rightarrow>
          (let cutoff = now - after;
               spent = (\<lambda>j. stale_job cutoff j \<and> jb_max_attempts j \<le> jb_attempts j);
               given_up = map jb_id (filter spent jobs);
               (_, jobs) = update_jobs spent
                 (\<lambda>j. j\<lparr>jb_status := FAILED, jb_error := Some STALE_JOB_ERROR, jb_payload := None, jb_finished_at := Some now\<rparr>) now jobs;
               left = (\<lambda>j. stale_job cutoff j \<and> jb_attempts j < jb_max_attempts j);
               requeued = map jb_id (filter left jobs);
               (_, jobs) = update_jobs left (\<lambda>j. j\<lparr>jb_status := QUEUED, jb_started_at := None\<rparr>) now jobs
           in (Inr (requeued, given_up), jobs)))"

text \<open>
  \<open>dispatch\<close> may change the table: whatever other workers do while it runs. Each refresh reads the
  clock \<open>clock\<close> anew.
\<close>

fun redispatch_loop ::
  "(job \<Rightarrow> (job list, string, unit) action) \<Rightarrow> (nat \<Rightarrow> micros) \<Rightarrow> nat \<Rightarrow> job list \<Rightarrow> uuid list \<Rightarrow> (job list, job_error, uuid list) action" where
  "redispatch_loop dispatch clock k [] sent jobs = (Inr sent, jobs)"
| "redispatch_loop dispatch clock k (j # js) sent jobs =
     (case dispatch j jobs of
        (Inl e, jobs) \<Rightarrow> (Inl (DispatchFailed e), jobs)
      | (Inr _, jobs) \<Rightarrow>
          redispatch_loop dispatch clock (Suc k) js (sent @ [jb_id j])
            (snd (update_jobs (\<lambda>r. jb_id r = jb_id j \<and> jb_status r = QUEUED) (\<lambda>r. r) (clock k) jobs)))"

definition redispatch_queued ::
  "(job \<Rightarrow> (job list, string, unit) action) \<Rightarrow> micros \<Rightarrow> int \<Rightarrow> (nat \<Rightarrow> micros) \<Rightarrow> (job list, job_error, uuid list) action" where
  "redispatch_queued dispatch older_than limit clock jobs =
     (if older_than \<le> 0 \<or> limit \<le> 0 then (Inl BadArgument, jobs)
      else let cutoff = clock 0 - older_than;
               candidates = take (nat limit) (sort_key jb_updated_at (filter (\<lambda>j. jb_status j = QUEUED \<and> jb_updated_at j < cutoff) jobs))
           in redispatch_loop dispatch clock 1 candidates [] jobs)"

subsection \<open>Watching and cancelling\<close>

text \<open>
  \<^verbatim>\<open>watch\<close> over what its polls find: the row, or none, and the monotonic clock after it. \<open>watched\<close> is the
  tuple of watched columns; \<open>Waiting\<close> is a watch that has not ended with the polls given.
\<close>

datatype watch_end = Waiting | Ended | NotFound | TimedOut

fun watch_polls :: "(job \<Rightarrow> 'f) \<Rightarrow> real option \<Rightarrow> 'f option \<Rightarrow> (job option \<times> real) list \<Rightarrow> job list \<times> watch_end" where
  "watch_polls watched deadline last_seen [] = ([], Waiting)"
| "watch_polls watched deadline last_seen ((None, t) # polls) = ([], NotFound)"
| "watch_polls watched deadline last_seen ((Some j, t) # polls) =
     (let out = (if Some (watched j) = last_seen then [] else [j])
      in if is_terminal j then (out, Ended)
         else if (case deadline of None \<Rightarrow> False | Some d \<Rightarrow> d \<le> t) then (out, TimedOut)
         else (case watch_polls watched deadline (Some (watched j)) polls of (js, e) \<Rightarrow> (out @ js, e)))"

text \<open>
  \<^verbatim>\<open>run_cancellable\<close>: each round waits for the work, then asks whether to stop. A round is the result
  of the work if it came, and otherwise what the predicate answered (\<open>None\<close> when it raised) and whether the
  work finished while it was asked. The flags say whether the stop event was set and the work cancelled.
\<close>

datatype ('a, 'e) work_result = Returned 'a | Raised 'e
datatype ('a, 'e) cancellable_end = WorkDone "('a, 'e) work_result" | StageInterrupted | BadPoll | StillRunning

record ('a, 'e) cancellable_run =
  cr_end :: "('a, 'e) cancellable_end"
  cr_stop_set :: bool
  cr_work_cancelled :: bool

fun cancellable_rounds :: "bool \<Rightarrow> (('a, 'e) work_result option \<times> bool option \<times> bool) list \<Rightarrow> ('a, 'e) cancellable_run" where
  "cancellable_rounds has_stop [] = \<lparr>cr_end = StillRunning, cr_stop_set = False, cr_work_cancelled = False\<rparr>"
| "cancellable_rounds has_stop ((Some r, _) # rounds) = \<lparr>cr_end = WorkDone r, cr_stop_set = False, cr_work_cancelled = False\<rparr>"
| "cancellable_rounds has_stop ((None, answer, finished) # rounds) =
     (if answer = Some True then \<lparr>cr_end = StageInterrupted, cr_stop_set = has_stop, cr_work_cancelled = \<not> finished\<rparr>
      else cancellable_rounds has_stop rounds)"

definition run_cancellable ::
  "bool \<Rightarrow> real \<Rightarrow> (('a, 'e) work_result option \<times> bool option \<times> bool) list \<Rightarrow> ('a, 'e) cancellable_run" where
  "run_cancellable has_stop poll_seconds rounds =
     (if poll_seconds \<le> 0 then \<lparr>cr_end = BadPoll, cr_stop_set = False, cr_work_cancelled = True\<rparr>
      else cancellable_rounds has_stop rounds)"

subsection \<open>Histories\<close>

datatype job_call =
    Enqueue uuid string string "string option" int
  | Claim uuid
  | Report uuid real "string option"
  | Succeed uuid "uuid option" "(string \<times> string) list option"
  | Fail uuid string
  | Cancel uuid "string option"
  | Reclaim
  | Refresh uuid

text \<open>\<open>Refresh\<close> is the update \<^verbatim>\<open>redispatch_queued\<close> makes after it sent a row.\<close>

fun call_store :: "string list \<Rightarrow> micros option \<Rightarrow> micros \<Rightarrow> job_call \<Rightarrow> job list \<Rightarrow> job list" where
  "call_store columns stale_after now (Enqueue i kind params payload budget) jobs = snd (enqueue i kind params payload budget now jobs)"
| "call_store columns stale_after now (Claim i) jobs = snd (claim_job i now jobs)"
| "call_store columns stale_after now (Report i progress stage) jobs = snd (report_progress i progress stage now jobs)"
| "call_store columns stale_after now (Succeed i result_id values) jobs = snd (succeed columns i result_id values now jobs)"
| "call_store columns stale_after now (Fail i reason) jobs = snd (fail_job i reason now jobs)"
| "call_store columns stale_after now (Cancel i reason) jobs = snd (cancel_job i reason now jobs)"
| "call_store columns stale_after now Reclaim jobs = snd (reclaim_stale_jobs stale_after now jobs)"
| "call_store columns stale_after now (Refresh i) jobs =
     snd (update_jobs (\<lambda>r. jb_id r = i \<and> jb_status r = QUEUED) (\<lambda>r. r) now jobs)"

definition call_all :: "string list \<Rightarrow> micros option \<Rightarrow> (micros \<times> job_call) list \<Rightarrow> job list \<Rightarrow> job list" where
  "call_all columns stale_after calls jobs = fold (\<lambda>(now, c). call_store columns stale_after now c) calls jobs"

text \<open>How many claims of \<open>i\<close> in a history handed out the job.\<close>

fun claims_won :: "string list \<Rightarrow> micros option \<Rightarrow> uuid \<Rightarrow> (micros \<times> job_call) list \<Rightarrow> job list \<Rightarrow> int" where
  "claims_won columns stale_after i [] jobs = 0"
| "claims_won columns stale_after i ((now, c) # calls) jobs =
     (if c = Claim i \<and> fst (claim_job i now jobs) \<noteq> None then 1 else 0) +
     claims_won columns stale_after i calls (call_store columns stale_after now c jobs)"

subsection \<open>What holds of a row, and what a call may do to it\<close>

definition job_ok :: "job \<Rightarrow> bool" where
  "job_ok j \<longleftrightarrow> 0 \<le> jb_progress j \<and> jb_progress j \<le> 1 \<and> 0 \<le> jb_attempts j \<and> jb_attempts j \<le> max 1 (jb_max_attempts j) \<and>
     (case jb_status j of
        QUEUED \<Rightarrow> jb_started_at j = None \<and> jb_finished_at j = None \<and> (jb_attempts j = 0 \<or> jb_attempts j < jb_max_attempts j)
      | RUNNING \<Rightarrow> jb_started_at j \<noteq> None \<and> jb_finished_at j = None \<and> 1 \<le> jb_attempts j
      | DONE \<Rightarrow> jb_finished_at j \<noteq> None \<and> jb_payload j = None \<and> jb_progress j = 1 \<and> jb_error j = None
      | FAILED \<Rightarrow> jb_finished_at j \<noteq> None \<and> jb_payload j = None \<and> jb_error j \<noteq> None
      | CANCELLED \<Rightarrow> jb_finished_at j \<noteq> None \<and> jb_payload j = None)"

text \<open>The edges of the lifecycle, and the identity of a row.\<close>

fun job_edge :: "JobStatusEnum \<Rightarrow> JobStatusEnum \<Rightarrow> bool" where
  "job_edge QUEUED s \<longleftrightarrow> True"
| "job_edge RUNNING s \<longleftrightarrow> True"
| "job_edge s s' \<longleftrightarrow> s' = s"

definition job_next :: "job \<Rightarrow> job \<Rightarrow> bool" where
  "job_next j j' \<longleftrightarrow> (is_terminal j \<longrightarrow> j' = j) \<and> job_edge (jb_status j) (jb_status j') \<and> jb_progress j \<le> jb_progress j' \<and>
     jb_attempts j' = jb_attempts j + (if jb_status j = QUEUED \<and> jb_status j' = RUNNING then 1 else 0) \<and>
     (jb_id j', jb_kind j', jb_params j', jb_max_attempts j', jb_created_at j') =
     (jb_id j, jb_kind j, jb_params j, jb_max_attempts j, jb_created_at j)"

text \<open>
  Every call rewrites the rows one by one and may add a fresh one. Only the claim of its id starts a
  row that waits, and only a sweep puts one back.
\<close>

definition lawful :: "micros \<Rightarrow> job_call \<Rightarrow> (job \<Rightarrow> job) \<Rightarrow> bool" where
  "lawful now c f \<longleftrightarrow> (\<forall>j. jb_id (f j) = jb_id j \<and> (\<forall>s. jb_started_at (f j) = Some s \<longrightarrow> s = now \<or> jb_started_at j = Some s) \<and> (job_ok j \<longrightarrow> job_ok (f j) \<and> job_next j (f j)) \<and>
     (jb_status j = QUEUED \<longrightarrow> (jb_status (f j) = RUNNING \<longleftrightarrow> c = Claim (jb_id j))) \<and>
     (c \<noteq> Reclaim \<and> jb_status j \<noteq> QUEUED \<longrightarrow> jb_status (f j) \<noteq> QUEUED))"

definition rowwise :: "micros \<Rightarrow> job_call \<Rightarrow> job list \<Rightarrow> job list \<Rightarrow> bool" where
  "rowwise now c jobs jobs' \<longleftrightarrow> (\<exists>f added. lawful now c f \<and> jobs' = map f jobs @ added \<and>
     (added = [] \<or> (\<exists>j. added = [j] \<and> job_ok j \<and> jb_attempts j = 0 \<and> jb_status j = QUEUED \<and> jb_id j \<notin> jb_id ` set jobs)))"

lemma update_jobs_simps [simp]:
  "fst (update_jobs P f now jobs) = length (filter P jobs)"
  "snd (update_jobs P f now jobs) = map (\<lambda>j. if P j then (f j)\<lparr>jb_updated_at := now\<rparr> else j) jobs"
  by (simp_all add: update_jobs_def)

lemmas job_status_defs = is_terminal_def TERMINAL_JOB_STATUSES_def CANCELLABLE_JOB_STATUSES_def

lemma job_next_refl [simp]: "job_next j j"
  by (cases "jb_status j") (simp_all add: job_next_def)

lemma rowwise_map: "lawful now c f \<Longrightarrow> rowwise now c jobs (map f jobs)"
  unfolding rowwise_def by (intro exI [of _ f] exI [of _ "[]"]) simp

lemma rowwise_same:
  assumes "\<And>i. c \<noteq> Claim i"
  shows "rowwise now c jobs jobs"
proof -
  have "lawful now c (\<lambda>j. j)" using assms by (simp add: lawful_def)
  from rowwise_map [OF this] show ?thesis by simp
qed

lemma rowwise_update:
  assumes "\<And>j. jb_id ((f j)\<lparr>jb_updated_at := now\<rparr>) = jb_id j"
    and "\<And>j. P j \<Longrightarrow> job_ok j \<Longrightarrow> job_ok ((f j)\<lparr>jb_updated_at := now\<rparr>) \<and> job_next j ((f j)\<lparr>jb_updated_at := now\<rparr>)"
    and "\<And>j. jb_status j = QUEUED \<Longrightarrow> P j \<and> jb_status (f j) = RUNNING \<longleftrightarrow> c = Claim (jb_id j)"
    and "\<And>j. P j \<Longrightarrow> jb_status j \<noteq> QUEUED \<Longrightarrow> jb_status (f j) \<noteq> QUEUED"
    and "\<And>j s. P j \<Longrightarrow> jb_started_at (f j) = Some s \<Longrightarrow> s = now \<or> jb_started_at j = Some s"
  shows "rowwise now c jobs (snd (update_jobs P f now jobs))"
proof -
  have "lawful now c (\<lambda>j. if P j then (f j)\<lparr>jb_updated_at := now\<rparr> else j)"
    using assms by (auto simp: lawful_def)
  from rowwise_map [OF this] show ?thesis by simp
qed

lemma snd_claim_job: "snd (claim_job i now jobs) = snd (update_jobs (\<lambda>j. jb_id j = i \<and> jb_status j = QUEUED)
    (\<lambda>j. j\<lparr>jb_status := RUNNING, jb_started_at := Some now, jb_attempts := jb_attempts j + 1\<rparr>) now jobs)"
  by (simp add: claim_job_def split_beta)

lemma snd_report_progress: "snd (report_progress i progress stage now jobs) =
    snd (update_jobs (\<lambda>j. jb_id j = i \<and> jb_status j = RUNNING \<and> jb_progress j < min (max progress 0) 1)
      (\<lambda>j. j\<lparr>jb_progress := min (max progress 0) 1, jb_stage := (case stage of None \<Rightarrow> jb_stage j | Some s \<Rightarrow> s)\<rparr>) now jobs)"
  by (simp add: report_progress_def Let_def split_beta)

lemma snd_finish_job: "snd (finish_job i status result_id error values now jobs) =
    snd (update_jobs (\<lambda>j. jb_id j = i \<and> \<not> List.member TERMINAL_JOB_STATUSES (jb_status j))
      (\<lambda>j. j\<lparr>jb_status := status, jb_result_id := result_id, jb_error := error, jb_payload := None,
             jb_finished_at := Some now, jb_progress := (if status = DONE then 1 else jb_progress j),
             jb_values := jb_values j ++ map_of values\<rparr>) now jobs)"
  by (simp add: finish_job_def split_beta split: sum.split)

lemma snd_cancel_job: "snd (cancel_job i reason now jobs) =
    snd (update_jobs (\<lambda>j. jb_id j = i \<and> List.member CANCELLABLE_JOB_STATUSES (jb_status j))
      (\<lambda>j. j\<lparr>jb_status := CANCELLED, jb_error := reason, jb_payload := None, jb_finished_at := Some now\<rparr>) now jobs)"
  by (simp add: cancel_job_def split_beta)

lemma rowwise_finish:
  assumes "status = DONE \<and> error = None \<or> status = FAILED \<and> error \<noteq> None" and "\<And>i. c \<noteq> Claim i"
  shows "rowwise now c jobs (snd (finish_job i status result_id error values now jobs))"
  unfolding snd_finish_job
  by (rule rowwise_update)
    (use assms in \<open>auto simp: job_ok_def job_next_def job_status_defs split: JobStatusEnum.splits\<close>)

definition reclaimed_job :: "micros \<Rightarrow> micros \<Rightarrow> job \<Rightarrow> job" where
  "reclaimed_job cutoff now j =
     (if \<not> stale_job cutoff j then j
      else if jb_max_attempts j \<le> jb_attempts j
      then j\<lparr>jb_status := FAILED, jb_error := Some STALE_JOB_ERROR, jb_payload := None, jb_finished_at := Some now, jb_updated_at := now\<rparr>
      else j\<lparr>jb_status := QUEUED, jb_started_at := None, jb_updated_at := now\<rparr>)"

lemma snd_reclaim_stale_jobs:
  "snd (reclaim_stale_jobs stale_after now jobs) =
     (case stale_after of None \<Rightarrow> jobs | Some after \<Rightarrow> map (reclaimed_job (now - after) now) jobs)"
  by (auto simp: reclaim_stale_jobs_def Let_def split_beta reclaimed_job_def stale_job_def split: option.split)

lemma fst_reclaim_stale_jobs:
  "fst (reclaim_stale_jobs (Some after) now jobs) =
     Inr (map jb_id (filter (\<lambda>j. stale_job (now - after) j \<and> jb_attempts j < jb_max_attempts j) jobs),
          map jb_id (filter (\<lambda>j. stale_job (now - after) j \<and> jb_max_attempts j \<le> jb_attempts j) jobs))"
proof -
  have "filter (\<lambda>j. stale_job c j \<and> jb_attempts j < jb_max_attempts j)
      (map (\<lambda>j. if stale_job c j \<and> jb_max_attempts j \<le> jb_attempts j
         then j\<lparr>jb_status := FAILED, jb_error := Some STALE_JOB_ERROR, jb_payload := None, jb_finished_at := Some now, jb_updated_at := now\<rparr> else j) js) =
      filter (\<lambda>j. stale_job c j \<and> jb_attempts j < jb_max_attempts j) js" for c js
    by (induction js) (auto simp: stale_job_def)
  then show ?thesis by (simp add: reclaim_stale_jobs_def Let_def split_beta)
qed

lemma rowwise_reclaim: "rowwise now Reclaim jobs (snd (reclaim_stale_jobs stale_after now jobs))"
proof (cases stale_after)
  case None
  then show ?thesis by (simp add: snd_reclaim_stale_jobs rowwise_same)
next
  case (Some after)
  have "lawful now Reclaim (reclaimed_job c now)" for c
    unfolding lawful_def
  proof (intro allI)
    fix j
    show "jb_id (reclaimed_job c now j) = jb_id j \<and> (\<forall>s. jb_started_at (reclaimed_job c now j) = Some s \<longrightarrow> s = now \<or> jb_started_at j = Some s) \<and>
      (job_ok j \<longrightarrow> job_ok (reclaimed_job c now j) \<and> job_next j (reclaimed_job c now j)) \<and>
      (jb_status j = QUEUED \<longrightarrow> (jb_status (reclaimed_job c now j) = RUNNING \<longleftrightarrow> Reclaim = Claim (jb_id j))) \<and>
      (Reclaim \<noteq> Reclaim \<and> jb_status j \<noteq> QUEUED \<longrightarrow> jb_status (reclaimed_job c now j) \<noteq> QUEUED)"
      by (cases "jb_status j") (auto simp: reclaimed_job_def job_ok_def job_next_def stale_job_def job_status_defs)
  qed
  then show ?thesis by (simp add: snd_reclaim_stale_jobs Some rowwise_map)
qed

lemma rowwise_enqueue: "rowwise now (Enqueue i kind params payload budget) jobs (snd (enqueue i kind params payload budget now jobs))"
proof (cases "list_ex (\<lambda>k. jb_id k = i) jobs")
  case True
  then show ?thesis by (simp add: enqueue_def Let_def rowwise_same)
next
  case False
  let ?j = "new_job i kind params payload budget now"
  have "job_ok ?j \<and> jb_attempts ?j = 0 \<and> jb_status ?j = QUEUED \<and> jb_id ?j \<notin> jb_id ` set jobs"
    using False by (auto simp: job_ok_def new_job_def list_ex_iff)
  moreover have "lawful now (Enqueue i kind params payload budget) (\<lambda>j. j)" by (simp add: lawful_def)
  ultimately show ?thesis
    using False unfolding rowwise_def by (intro exI [of _ "\<lambda>j. j"] exI [of _ "[?j]"]) (simp add: enqueue_def Let_def)
qed

lemma call_rowwise: "rowwise now c jobs (call_store columns stale_after now c jobs)"
proof (cases c)
  case (Claim i)
  have "rowwise now (Claim i) jobs (snd (claim_job i now jobs))"
    unfolding snd_claim_job by (rule rowwise_update) (auto simp: job_ok_def job_next_def job_status_defs)
  with Claim show ?thesis by simp
next
  case (Report i progress stage)
  have "rowwise now c jobs (snd (report_progress i progress stage now jobs))"
    unfolding snd_report_progress by (rule rowwise_update) (auto simp: Report job_ok_def job_next_def job_status_defs)
  with Report show ?thesis by simp
next
  case (Cancel i reason)
  have "rowwise now c jobs (snd (cancel_job i reason now jobs))"
    unfolding snd_cancel_job by (rule rowwise_update) (auto simp: Cancel job_ok_def job_next_def job_status_defs)
  with Cancel show ?thesis by simp
next
  case (Refresh i)
  have "rowwise now c jobs (snd (update_jobs (\<lambda>r. jb_id r = i \<and> jb_status r = QUEUED) (\<lambda>r. r) now jobs))"
    by (rule rowwise_update) (auto simp: Refresh job_ok_def job_next_def job_status_defs)
  with Refresh show ?thesis by simp
next
  case (Succeed i r vs)
  then show ?thesis by (auto simp: succeed_def rowwise_same rowwise_finish split: sum.split)
qed (simp_all add: rowwise_enqueue rowwise_reclaim fail_job_def rowwise_finish)

definition row_of :: "uuid \<Rightarrow> job list \<Rightarrow> job option" where
  "row_of i jobs = find (\<lambda>j. jb_id j = i) jobs"

lemma row_of_map: "(\<And>j. jb_id (g j) = jb_id j) \<Longrightarrow> row_of i (map g jobs) = map_option g (row_of i jobs)"
  by (induction jobs) (auto simp: row_of_def)

lemma row_of_append: "row_of i (jobs @ js) = (case row_of i jobs of None \<Rightarrow> row_of i js | Some j \<Rightarrow> Some j)"
  by (induction jobs) (auto simp: row_of_def)

lemma row_of_Some: "row_of i jobs = Some j \<Longrightarrow> j \<in> set jobs \<and> jb_id j = i"
  by (induction jobs) (auto simp: row_of_def split: if_splits)

lemma row_of_None: "row_of i jobs = None \<longleftrightarrow> i \<notin> jb_id ` set jobs"
  by (auto simp: row_of_def find_None_iff)

lemma row_of_distinct: "distinct (map jb_id jobs) \<Longrightarrow> j \<in> set jobs \<Longrightarrow> row_of (jb_id j) jobs = Some j"
  by (induction jobs) (auto simp: row_of_def)

lemma claim_job_won: "fst (claim_job i now jobs) \<noteq> None \<longleftrightarrow> (\<exists>j \<in> set jobs. jb_id j = i \<and> jb_status j = QUEUED)"
proof -
  have "row_of i (snd (claim_job i now jobs)) \<noteq> None \<longleftrightarrow> i \<in> jb_id ` set jobs"
    unfolding snd_claim_job update_jobs_simps using row_of_None [of i jobs] by (subst row_of_map) auto
  then show ?thesis
    by (auto simp: row_of_def claim_job_def split_beta filter_empty_conv split: if_splits)
qed

subsection \<open>A row along a history\<close>

definition jobs_ok :: "job list \<Rightarrow> bool" where
  "jobs_ok jobs \<longleftrightarrow> distinct (map jb_id jobs) \<and> (\<forall>j \<in> set jobs. job_ok j)"

lemma jobs_ok_Nil [simp]: "jobs_ok []"
  by (simp add: jobs_ok_def)

lemma jobs_ok_call: "jobs_ok jobs \<Longrightarrow> jobs_ok (call_store columns stale_after now c jobs)"
proof -
  assume ok: "jobs_ok jobs"
  obtain f added where f: "lawful now c f" and eq: "call_store columns stale_after now c jobs = map f jobs @ added"
    and added: "added = [] \<or> (\<exists>j. added = [j] \<and> job_ok j \<and> jb_attempts j = 0 \<and> jb_status j = QUEUED \<and> jb_id j \<notin> jb_id ` set jobs)"
    using call_rowwise [of now c jobs columns stale_after] unfolding rowwise_def by blast
  have ids: "map jb_id (map f jobs) = map jb_id jobs" using f by (simp add: lawful_def)
  have "\<forall>j \<in> set jobs. job_ok (f j)" using ok f by (simp add: jobs_ok_def lawful_def)
  moreover have "jb_id ` f ` set jobs = jb_id ` set jobs" using ids by (metis list.set_map)
  ultimately show ?thesis using ok added ids unfolding jobs_ok_def eq by (auto simp del: map_map) (metis image_eqI)
qed

lemma jobs_ok_call_all: "jobs_ok jobs \<Longrightarrow> jobs_ok (call_all columns stale_after calls jobs)"
  by (induction calls arbitrary: jobs) (auto simp: call_all_def jobs_ok_call)

lemma row_ok: "jobs_ok jobs \<Longrightarrow> row_of i jobs = Some j \<Longrightarrow> job_ok j"
  using row_of_Some by (auto simp: jobs_ok_def)

text \<open>What one call leaves of the row of an id.\<close>

lemma call_row:
  assumes "row_of i jobs = Some j" "job_ok j"
  obtains j' where "row_of i (call_store columns stale_after now c jobs) = Some j'" "job_ok j'" "job_next j j'"
    "jb_status j = QUEUED \<Longrightarrow> jb_status j' = RUNNING \<longleftrightarrow> c = Claim i"
    "c \<noteq> Reclaim \<Longrightarrow> jb_status j \<noteq> QUEUED \<Longrightarrow> jb_status j' \<noteq> QUEUED"
    "\<And>s. jb_started_at j' = Some s \<Longrightarrow> s = now \<or> jb_started_at j = Some s"
proof -
  obtain f added where f: "lawful now c f" and eq: "call_store columns stale_after now c jobs = map f jobs @ added"
    using call_rowwise [of now c jobs columns stale_after] unfolding rowwise_def by blast
  have "row_of i (call_store columns stale_after now c jobs) = Some (f j)"
    using f assms(1) by (simp add: eq row_of_append row_of_map lawful_def)
  then show thesis
    using f assms row_of_Some [OF assms(1)] by (intro that [of "f j"]) (auto simp: lawful_def)
qed

lemma call_no_row:
  assumes "row_of i jobs = None"
  shows "row_of i (call_store columns stale_after now c jobs) = None \<or>
    (\<exists>j. row_of i (call_store columns stale_after now c jobs) = Some j \<and> job_ok j \<and> jb_attempts j = 0 \<and> jb_status j = QUEUED)"
proof -
  obtain f added where f: "lawful now c f" and eq: "call_store columns stale_after now c jobs = map f jobs @ added"
    and added: "added = [] \<or> (\<exists>j. added = [j] \<and> job_ok j \<and> jb_attempts j = 0 \<and> jb_status j = QUEUED \<and> jb_id j \<notin> jb_id ` set jobs)"
    using call_rowwise [of now c jobs columns stale_after] unfolding rowwise_def by blast
  have "row_of i (call_store columns stale_after now c jobs) = row_of i added"
    using f assms by (simp add: eq row_of_append row_of_map lawful_def)
  with added show ?thesis by (auto simp: row_of_def)
qed

lemma claim_won_row:
  assumes "jobs_ok jobs"
  shows "fst (claim_job i now jobs) \<noteq> None \<longleftrightarrow> (\<exists>j. row_of i jobs = Some j \<and> jb_status j = QUEUED)"
  using assms row_of_distinct [of jobs] row_of_Some [of i jobs] unfolding claim_job_won jobs_ok_def by metis

text \<open>\<open>job_later\<close> is what stays true between a row and any later version of it.\<close>

definition job_later :: "job \<Rightarrow> job \<Rightarrow> bool" where
  "job_later j j' \<longleftrightarrow> (is_terminal j \<longrightarrow> j' = j) \<and> jb_progress j \<le> jb_progress j' \<and> jb_attempts j \<le> jb_attempts j' \<and>
     (jb_status j = QUEUED \<and> jb_status j' = RUNNING \<longrightarrow> jb_attempts j < jb_attempts j') \<and>
     (jb_id j', jb_kind j', jb_params j', jb_max_attempts j', jb_created_at j') =
     (jb_id j, jb_kind j, jb_params j, jb_max_attempts j, jb_created_at j)"

lemma job_later_refl [simp]: "job_later j j"
  by (simp add: job_later_def)

lemma job_next_later: "job_next j j' \<Longrightarrow> job_later j j'"
  by (auto simp: job_next_def job_later_def)

lemma job_later_trans: "job_later j j' \<Longrightarrow> job_later j' j'' \<Longrightarrow> job_later j j''"
  by (cases "jb_status j'") (auto simp: job_later_def job_status_defs)

lemma history_row:
  "row_of i jobs = Some j \<Longrightarrow> job_ok j \<Longrightarrow>
   \<exists>j'. row_of i (call_all columns stale_after calls jobs) = Some j' \<and> job_ok j' \<and> job_later j j'"
proof (induction calls arbitrary: jobs j)
  case Nil
  then show ?case by (simp add: call_all_def)
next
  case (Cons x calls)
  obtain now c where x: "x = (now, c)" by fastforce
  obtain j1 where j1: "row_of i (call_store columns stale_after now c jobs) = Some j1" "job_ok j1" "job_next j j1"
    using call_row [OF Cons.prems] by metis
  from Cons.IH [OF j1(1,2)] job_next_later [OF j1(3)] show ?case
    by (auto simp: call_all_def x intro: job_later_trans)
qed

lemma claims_won_row:
  assumes "jobs_ok jobs"
  shows "case row_of i (call_all columns stale_after calls jobs) of
      None \<Rightarrow> row_of i jobs = None \<and> claims_won columns stale_after i calls jobs = 0
    | Some j' \<Rightarrow> claims_won columns stale_after i calls jobs =
        jb_attempts j' - (case row_of i jobs of None \<Rightarrow> 0 | Some j \<Rightarrow> jb_attempts j)"
  using assms
proof (induction calls arbitrary: jobs)
  case Nil
  then show ?case by (simp add: call_all_def split: option.split)
next
  case (Cons x calls)
  obtain now c where x: "x = (now, c)" by fastforce
  let ?jobs = "call_store columns stale_after now c jobs"
  let ?n = "if c = Claim i \<and> fst (claim_job i now jobs) \<noteq> None then 1 else 0 :: int"
  note IH = Cons.IH [OF jobs_ok_call [OF Cons.prems], of columns stale_after now c]
  have "(case row_of i ?jobs of None \<Rightarrow> row_of i jobs = None \<and> ?n = 0
      | Some j1 \<Rightarrow> ?n = jb_attempts j1 - (case row_of i jobs of None \<Rightarrow> 0 | Some j \<Rightarrow> jb_attempts j))"
  proof (cases "row_of i jobs")
    case None
    with call_no_row [OF None, of columns stale_after now c] claim_won_row [OF Cons.prems, of i now]
    show ?thesis by auto
  next
    case (Some j)
    then obtain j1 where j1: "row_of i ?jobs = Some j1" "job_next j j1"
      "jb_status j = QUEUED \<Longrightarrow> jb_status j1 = RUNNING \<longleftrightarrow> c = Claim i"
      using call_row [OF Some row_ok [OF Cons.prems Some]] by metis
    then show ?thesis using Some claim_won_row [OF Cons.prems, of i now] by (auto simp: job_next_def)
  qed
  with IH show ?case by (auto simp: x call_all_def split: option.splits)
qed

subsection \<open>Properties\<close>

text \<open>
  C26. Along any history of calls, from the empty table on, a row that exists is well formed: progress
  within 0 and 1, attempts within the budget, a payload exactly until the end, an error on every
  failure, full progress on every success. Whatever calls follow, it keeps its identity, its progress
  and its attempts never go back, and a row that has ended is never written again.
\<close>

theorem job_history_sound:
  assumes "row_of i (call_all columns stale_after calls []) = Some j"
  shows "job_ok j \<and> (\<exists>j'. row_of i (call_all columns stale_after (calls @ rest) []) = Some j' \<and> job_later j j')"
proof -
  have ok: "job_ok j" using row_ok [OF jobs_ok_call_all [OF jobs_ok_Nil] assms] .
  from history_row [OF assms ok, of columns stale_after rest] ok
  show ?thesis
    by (auto simp: call_all_def)
qed

theorem job_history_sound_witness:
  "let calls = [(1, Enqueue 7 ''k'' [] (Some ''doc'') 2), (5, Claim 7), (6, Report 7 (1/2) None), (9, Succeed 7 (Some 3) None)];
       rest = [(10, Cancel 7 None), (20, Claim 7), (30, Fail 7 ''late'')]
   in (\<exists>j. row_of 7 (call_all [] (Some 10) calls []) = Some j \<and> job_ok j \<and> jb_status j = DONE \<and>
         row_of 7 (call_all [] (Some 10) (calls @ rest) []) = Some j)"
proof -
  let ?calls = "[(1, Enqueue 7 ''k'' [] (Some ''doc'') 2), (5, Claim 7), (6, Report 7 (1/2) None), (9, Succeed 7 (Some 3) None)]"
  have "case row_of 7 (call_all [] (Some 10) ?calls []) of None \<Rightarrow> False | Some j \<Rightarrow> jb_status j = DONE"
    by code_simp
  then obtain j where j: "row_of 7 (call_all [] (Some 10) ?calls []) = Some j" "jb_status j = DONE"
    by (auto split: option.splits)
  with job_history_sound [OF j(1)] show ?thesis
    by (auto simp: Let_def job_later_def is_terminal_def TERMINAL_JOB_STATUSES_def)
qed

text \<open>
  However the calls of requests and workers interleave, a job is handed out exactly as often as its
  row has counted, and never more often than its budget of attempts allows.
\<close>

theorem job_claims_bounded:
  "case row_of i (call_all columns stale_after calls []) of
     None \<Rightarrow> claims_won columns stale_after i calls [] = 0
   | Some j \<Rightarrow> claims_won columns stale_after i calls [] = jb_attempts j \<and> jb_attempts j \<le> max 1 (jb_max_attempts j)"
proof (cases "row_of i (call_all columns stale_after calls [])")
  case None
  then show ?thesis using claims_won_row [of "[]" i columns stale_after calls] by simp
next
  case (Some j)
  have "job_ok j" using row_ok [OF jobs_ok_call_all [OF jobs_ok_Nil] Some] .
  then show ?thesis
    using Some claims_won_row [of "[]" i columns stale_after calls] by (simp add: row_of_def job_ok_def)
qed

lemma claims_won_without_sweep:
  assumes "jobs_ok jobs" "Reclaim \<notin> snd ` set calls"
  shows "claims_won columns stale_after i calls jobs \<le>
    (case row_of i jobs of None \<Rightarrow> 1 | Some j \<Rightarrow> if jb_status j = QUEUED then 1 else 0)"
  using assms
proof (induction calls arbitrary: jobs)
  case Nil
  then show ?case by (simp split: option.split)
next
  case (Cons x calls)
  obtain now c where x: "x = (now, c)" by fastforce
  note IH = Cons.IH [OF jobs_ok_call [OF Cons.prems(1)], of columns stale_after now c]
  show ?case
  proof (cases "row_of i jobs")
    case None
    with IH call_no_row [OF None, of columns stale_after now c] claim_won_row [OF Cons.prems(1), of i now] Cons.prems(2)
    show ?thesis by (auto simp: x split: option.splits)
  next
    case (Some j)
    then obtain j1 where "row_of i (call_store columns stale_after now c jobs) = Some j1"
      "jb_status j = QUEUED \<Longrightarrow> jb_status j1 = RUNNING \<longleftrightarrow> c = Claim i"
      "c \<noteq> Reclaim \<Longrightarrow> jb_status j \<noteq> QUEUED \<Longrightarrow> jb_status j1 \<noteq> QUEUED"
      using call_row [OF Some row_ok [OF Cons.prems(1) Some]] by metis
    then show ?thesis
      using IH Some claim_won_row [OF Cons.prems(1), of i now] Cons.prems(2) by (auto simp: x split: if_splits)
  qed
qed

text \<open>
  C28. Between two sweeps a job is handed to one worker only: of all the claims of it, by any number of
  workers and deliveries, at most one wins.
\<close>

theorem one_claim_between_sweeps:
  assumes "Reclaim \<notin> snd ` set calls"
  shows "claims_won columns stale_after i calls (call_all columns stale_after before []) \<le> 1"
  using claims_won_without_sweep [OF jobs_ok_call_all [OF jobs_ok_Nil] assms, where columns = columns and i = i]
  by (smt (verit) option.case_eq_if)

theorem one_claim_between_sweeps_witness:
  "claims_won [] (Some 10) 7 [(5, Claim 7), (6, Claim 7), (7, Fail 7 ''x''), (8, Claim 7)]
     (call_all [] (Some 10) [(1, Enqueue 7 ''k'' [] None 2)] []) = 1 \<and>
   claims_won [] (Some 10) 7 [(5, Claim 7), (6, Claim 7), (7, Fail 7 ''x''), (8, Claim 7)]
     (call_all [] (Some 10) [(1, Enqueue 7 ''k'' [] None 2)] []) \<le> 1"
proof
  show "claims_won [] (Some 10) 7 [(5, Claim 7), (6, Claim 7), (7, Fail 7 ''x''), (8, Claim 7)]
     (call_all [] (Some 10) [(1, Enqueue 7 ''k'' [] None 2)] []) = 1" by code_simp
qed (rule one_claim_between_sweeps, simp)

subsection \<open>Sweeps end every job\<close>

text \<open>
  An epoch of a history: it opens with a sweep more than \<^verbatim>\<open>stale_after\<close> later than every call before,
  and closes with a delivery of the job to a worker. What the worker does then is left open: it may die.
\<close>

fun swept :: "micros \<Rightarrow> uuid \<Rightarrow> micros \<Rightarrow> (micros \<times> job_call) list list \<Rightarrow> bool" where
  "swept after i t0 [] \<longleftrightarrow> True"
| "swept after i t0 (epoch # epochs) \<longleftrightarrow>
     (case epoch of
        [] \<Rightarrow> False
      | (t, c) # calls \<Rightarrow>
          c = Reclaim \<and> t0 + after < t \<and> calls \<noteq> [] \<and> snd (last calls) = Claim i \<and>
          swept after i (fold (max \<circ> fst) epoch t) epochs)"

definition started_by :: "micros \<Rightarrow> job \<Rightarrow> bool" where
  "started_by m j \<longleftrightarrow> (case jb_started_at j of None \<Rightarrow> True | Some s \<Rightarrow> s \<le> m)"

lemma history_started:
  assumes "row_of i jobs = Some j" "job_ok j" "started_by m j" "\<forall>x \<in> set calls. fst x \<le> m"
    "row_of i (call_all columns stale_after calls jobs) = Some j'"
  shows "started_by m j'"
  using assms
proof (induction calls arbitrary: jobs j)
  case Nil
  then show ?case by (simp add: call_all_def)
next
  case (Cons x calls)
  obtain now c where x: "x = (now, c)" by fastforce
  obtain j1 where j1: "row_of i (call_store columns stale_after now c jobs) = Some j1" "job_ok j1"
    "\<And>s. jb_started_at j1 = Some s \<Longrightarrow> s = now \<or> jb_started_at j = Some s"
    using call_row [OF Cons.prems(1,2)] by metis
  have "started_by m j1" using j1(3) Cons.prems(3,4) by (auto simp: started_by_def x split: option.splits)
  from Cons.IH [OF j1(1,2) this] Cons.prems(4,5) show ?case by (simp add: call_all_def x)
qed

lemma sweep_frees:
  assumes "row_of i jobs = Some j" "job_ok j" "started_by t0 j" "t0 + after < t" "\<not> is_terminal j"
  obtains j1 where "row_of i (call_store columns (Some after) t Reclaim jobs) = Some j1"
    "is_terminal j1 \<or> jb_status j1 = QUEUED \<and> jb_attempts j1 = jb_attempts j"
proof -
  have "row_of i (call_store columns (Some after) t Reclaim jobs) = Some (reclaimed_job (t - after) t j)"
    using assms(1) by (simp add: snd_reclaim_stale_jobs row_of_map reclaimed_job_def)
  moreover have "is_terminal (reclaimed_job (t - after) t j) \<or>
      jb_status (reclaimed_job (t - after) t j) = QUEUED \<and> jb_attempts (reclaimed_job (t - after) t j) = jb_attempts j"
    using assms(2-5) by (cases "jb_status j")
      (auto simp: reclaimed_job_def job_ok_def stale_job_def started_before_def started_by_def job_status_defs)
  ultimately show thesis by (rule that)
qed

lemma claim_ends_waiting:
  assumes "row_of i jobs = Some j" "job_ok j" "row_of i (call_store columns stale_after now (Claim i) jobs) = Some j'"
  shows "jb_status j' \<noteq> QUEUED"
  by (rule call_row [OF assms(1,2), of columns stale_after now "Claim i"], cases "jb_status j = QUEUED") (use assms(3) in auto)

lemma call_all_append: "call_all columns stale_after (xs @ ys) jobs =
    call_all columns stale_after ys (call_all columns stale_after xs jobs)"
  by (simp add: call_all_def)

lemma delivered_row:
  assumes "row_of i jobs = Some j" "job_ok j" "calls \<noteq> []" "snd (last calls) = Claim i"
  obtains j' where "row_of i (call_all columns stale_after calls jobs) = Some j'" "job_ok j'" "job_later j j'" "jb_status j' \<noteq> QUEUED"
proof -
  obtain j' where j': "row_of i (call_all columns stale_after calls jobs) = Some j'" "job_ok j'" "job_later j j'"
    using history_row [OF assms(1,2)] by blast
  obtain k where k: "row_of i (call_all columns stale_after (butlast calls) jobs) = Some k" "job_ok k"
    using history_row [OF assms(1,2)] by blast
  have "call_all columns stale_after calls jobs =
      call_store columns stale_after (fst (last calls)) (Claim i) (call_all columns stale_after (butlast calls) jobs)"
    using call_all_append [of columns stale_after "butlast calls" "[last calls]" jobs] assms(3,4)
    by (simp add: call_all_def split_beta)
  with claim_ends_waiting [OF k] j'(1) have "jb_status j' \<noteq> QUEUED" by simp
  with j' show thesis by (rule that)
qed

lemma fold_max_ge: "t \<le> fold (max \<circ> fst) xs (t :: micros) \<and> (\<forall>x \<in> set xs. fst x \<le> fold (max \<circ> fst) xs t)"
  by (induction xs arbitrary: t) (auto intro: order_trans [OF max.cobounded2] order_trans [OF max.cobounded1])

lemma terminal_stays:
  assumes "row_of i jobs = Some j" "job_ok j" "is_terminal j"
  shows "row_of i (call_all columns stale_after calls jobs) = Some j"
  using history_row [OF assms(1,2), of columns stale_after calls] assms(3) by (auto simp: job_later_def)

lemma epoch_row:
  assumes "row_of i jobs = Some j" "job_ok j" "started_by t0 j" "\<not> is_terminal j" "swept after i t0 (epoch # epochs)"
  obtains j' m where "row_of i (call_all columns (Some after) epoch jobs) = Some j'" "job_ok j'" "job_later j j'" "swept after i m epochs"
    "is_terminal j' \<or> jb_attempts j < jb_attempts j' \<and> started_by m j'"
proof -
  obtain t calls where epoch: "epoch = (t, Reclaim) # calls" and t: "t0 + after < t"
    and calls: "calls \<noteq> []" "snd (last calls) = Claim i"
    and rest: "swept after i (fold (max \<circ> fst) epoch t) epochs"
    using assms(5) by (auto split: list.splits)
  let ?m = "fold (max \<circ> fst) epoch t"
  let ?jobs = "call_store columns (Some after) t Reclaim jobs"
  obtain j1 where j1: "row_of i ?jobs = Some j1" "is_terminal j1 \<or> jb_status j1 = QUEUED \<and> jb_attempts j1 = jb_attempts j"
    using sweep_frees [OF assms(1-3) t assms(4)] by metis
  have ok1: "job_ok j1" and later: "job_later j j1" and st1: "started_by t j1 \<or> started_by t0 j1"
    using call_row [OF assms(1,2), of columns "Some after" t Reclaim] j1(1) assms(3) job_next_later
    by (auto simp: started_by_def split: option.splits)
  show thesis
  proof (cases "is_terminal j1")
    case True
    have "row_of i (call_all columns (Some after) epoch jobs) = Some j1"
      using terminal_stays [OF j1(1) ok1 True, of columns "Some after" calls] by (simp add: epoch call_all_def)
    then show thesis using ok1 later rest True by (intro that [of j1 ?m]) auto
  next
    case False
    then have queued: "jb_status j1 = QUEUED" and same: "jb_attempts j1 = jb_attempts j" using j1(2) by auto
    obtain j' where j': "row_of i (call_all columns (Some after) calls ?jobs) = Some j'" "job_ok j'" "job_later j1 j'"
      "jb_status j' \<noteq> QUEUED"
      using delivered_row [OF j1(1) ok1 calls] by metis
    have row: "row_of i (call_all columns (Some after) epoch jobs) = Some j'" using j'(1) by (simp add: epoch call_all_def)
    have "started_by ?m j1" using ok1 queued by (simp add: job_ok_def started_by_def)
    then have "started_by ?m j'"
      by (rule history_started [OF j1(1) ok1 _ _ j'(1)]) (use fold_max_ge [of t epoch] in \<open>simp add: epoch\<close>)
    moreover have "is_terminal j' \<or> jb_attempts j < jb_attempts j'"
      using j'(3,4) queued same by (cases "jb_status j'") (auto simp: job_later_def job_status_defs)
    ultimately show thesis
      using row j'(2) job_later_trans [OF later j'(3)] rest by (intro that [of j' ?m]) auto
  qed
qed

lemma epochs_row:
  "row_of i jobs = Some j \<Longrightarrow> job_ok j \<Longrightarrow> started_by t0 j \<Longrightarrow> swept after i t0 epochs \<Longrightarrow>
   \<exists>j'. row_of i (call_all columns (Some after) (concat epochs) jobs) = Some j' \<and> job_ok j' \<and> job_later j j' \<and>
     (is_terminal j' \<or> jb_attempts j + int (length epochs) \<le> jb_attempts j')"
proof (induction epochs arbitrary: jobs j t0)
  case Nil
  then show ?case by (simp add: call_all_def)
next
  case (Cons epoch epochs)
  show ?case
  proof (cases "is_terminal j")
    case True
    then show ?thesis using terminal_stays [OF Cons.prems(1,2)] Cons.prems(2) by fastforce
  next
    case False
    obtain j1 m where j1: "row_of i (call_all columns (Some after) epoch jobs) = Some j1" "job_ok j1" "job_later j j1"
      "swept after i m epochs" "is_terminal j1 \<or> jb_attempts j < jb_attempts j1 \<and> started_by m j1"
      using epoch_row [OF Cons.prems(1-3) False Cons.prems(4)] by metis
    show ?thesis
    proof (cases "is_terminal j1")
      case True
      then show ?thesis using terminal_stays [OF j1(1,2)] j1(2,3) by (fastforce simp: call_all_append)
    next
      case False
      then obtain j' where "row_of i (call_all columns (Some after) (concat epochs) (call_all columns (Some after) epoch jobs)) = Some j'"
        "job_ok j'" "job_later j1 j'" "is_terminal j' \<or> jb_attempts j1 + int (length epochs) \<le> jb_attempts j'"
        using Cons.IH [OF j1(1,2) _ j1(4)] j1(5) by blast
      then show ?thesis using j1(3,5) False job_later_trans by (fastforce simp: call_all_append)
    qed
  qed
qed

text \<open>
  C27. A dying worker cannot keep a job open: whatever else is called and however many workers die, once
  the job was swept and delivered more often than its budget of attempts allows, it has ended.
\<close>

theorem swept_jobs_end:
  assumes "row_of i (call_all columns (Some after) calls []) = Some j"
    and "started_by t0 j" "swept after i t0 epochs" "nat (max 1 (jb_max_attempts j)) < length epochs"
  shows "\<exists>j'. row_of i (call_all columns (Some after) (calls @ concat epochs) []) = Some j' \<and> is_terminal j' \<and> job_later j j'"
proof -
  have ok: "job_ok j" using row_ok [OF jobs_ok_call_all [OF jobs_ok_Nil] assms(1)] .
  obtain j' where j': "row_of i (call_all columns (Some after) (calls @ concat epochs) []) = Some j'" "job_ok j'" "job_later j j'"
    "is_terminal j' \<or> jb_attempts j + int (length epochs) \<le> jb_attempts j'"
    using epochs_row [OF assms(1) ok assms(2,3), of columns] by (auto simp: call_all_append)
  have "jb_max_attempts j' = jb_max_attempts j" using j'(3) by (simp add: job_later_def)
  then have "\<not> jb_attempts j + int (length epochs) \<le> jb_attempts j'"
    using assms(4) ok j'(2) by (auto simp: job_ok_def)
  with j' show ?thesis by blast
qed

theorem swept_jobs_end_witness:
  "\<exists>j'. row_of 7 (call_all [] (Some 10) ([(1, Enqueue 7 ''k'' [] None 2)] @ concat
      [[(20, Reclaim), (21, Claim 7)], [(40, Reclaim), (41, Claim 7)], [(60, Reclaim), (61, Claim 7)]]) []) = Some j' \<and>
    is_terminal j' \<and> job_later (new_job 7 ''k'' [] None 2 1) j'"
  by (rule swept_jobs_end [where ?t0.0 = 1]) (simp_all add: call_all_def enqueue_def Let_def row_of_def new_job_def started_by_def)

text \<open>The outcome of the conditional updates, read off the row.\<close>

lemma none_matches:
  assumes "jobs_ok jobs" "row_of i jobs = Some j"
  shows "(\<forall>k \<in> set jobs. \<not> (jb_id k = i \<and> Q k)) \<longleftrightarrow> \<not> Q j"
proof -
  have "k = j" if "k \<in> set jobs" "jb_id k = i" for k
    using row_of_distinct [OF _ that(1)] assms that(2) by (simp add: jobs_ok_def)
  then show ?thesis using row_of_Some [OF assms(2)] by blast
qed

lemma row_of_update:
  assumes "\<And>j. jb_id (f j) = jb_id j"
  shows "row_of i (snd (update_jobs P f now jobs)) = map_option (\<lambda>j. if P j then (f j)\<lparr>jb_updated_at := now\<rparr> else j) (row_of i jobs)"
  using assms by (simp add: row_of_map)

definition closed_job :: "JobStatusEnum \<Rightarrow> uuid option \<Rightarrow> string option \<Rightarrow> (string \<times> string) list \<Rightarrow> micros \<Rightarrow> job \<Rightarrow> job" where
  "closed_job status result_id error values now j =
     j\<lparr>jb_status := status, jb_result_id := result_id, jb_error := error, jb_payload := None,
       jb_finished_at := Some now, jb_progress := (if status = DONE then 1 else jb_progress j),
       jb_values := jb_values j ++ map_of values, jb_updated_at := now\<rparr>"

lemma finish_outcome:
  assumes "jobs_ok jobs" "row_of i jobs = Some j"
  shows "fst (finish_job i status result_id error values now jobs) =
      (if \<not> is_terminal j then Inr (closed_job status result_id error values now j)
       else if jb_status j = CANCELLED then Inl JobCancelled else Inl (JobAlreadyFinished (jb_status j)))"
    and "row_of i (snd (finish_job i status result_id error values now jobs)) =
      Some (if \<not> is_terminal j then closed_job status result_id error values now j else j)"
proof -
  show row: "row_of i (snd (finish_job i status result_id error values now jobs)) =
      Some (if \<not> is_terminal j then closed_job status result_id error values now j else j)"
    unfolding snd_finish_job using assms(2) row_of_Some [OF assms(2)]
    by (subst row_of_update) (auto simp: closed_job_def is_terminal_def)
  have n: "length (filter (\<lambda>j. jb_id j = i \<and> \<not> List.member TERMINAL_JOB_STATUSES (jb_status j)) jobs) = 0 \<longleftrightarrow> is_terminal j"
    using none_matches [OF assms, of "\<lambda>j. \<not> List.member TERMINAL_JOB_STATUSES (jb_status j)"]
    by (auto simp: filter_empty_conv is_terminal_def)
  have "fst (finish_job i status result_id error values now jobs) =
      (case row_of i (snd (finish_job i status result_id error values now jobs)) of
         None \<Rightarrow> Inl JobNotFound
       | Some j' \<Rightarrow> if \<not> is_terminal j then Inr j' else if jb_status j' = CANCELLED then Inl JobCancelled
           else Inl (JobAlreadyFinished (jb_status j')))"
    unfolding snd_finish_job using n
    by (simp add: finish_job_def split_beta require_job_def row_of_def split: option.split)
  with row show "fst (finish_job i status result_id error values now jobs) =
      (if \<not> is_terminal j then Inr (closed_job status result_id error values now j)
       else if jb_status j = CANCELLED then Inl JobCancelled else Inl (JobAlreadyFinished (jb_status j)))" by simp
qed

lemma claim_outcome:
  assumes "jobs_ok jobs" "row_of i jobs = Some j" "jb_status j = QUEUED"
  defines "j' \<equiv> (\<lambda>now. j\<lparr>jb_status := RUNNING, jb_started_at := Some now, jb_attempts := jb_attempts j + 1, jb_updated_at := now\<rparr>)"
  shows "fst (claim_job i now jobs) = Some (j' now)" "row_of i (snd (claim_job i now jobs)) = Some (j' now)"
proof -
  show row: "row_of i (snd (claim_job i now jobs)) = Some (j' now)"
    unfolding snd_claim_job using assms(2,3) row_of_Some [OF assms(2)] by (subst row_of_update) (auto simp: j'_def)
  have "filter (\<lambda>j. jb_id j = i \<and> jb_status j = QUEUED) jobs \<noteq> []"
    using assms(3) row_of_Some [OF assms(2)] by (auto simp: filter_empty_conv)
  then have "fst (claim_job i now jobs) = row_of i (snd (claim_job i now jobs))"
    unfolding snd_claim_job by (simp add: claim_job_def split_beta row_of_def)
  with row show "fst (claim_job i now jobs) = Some (j' now)" by simp
qed

text \<open>
  Closing a job asks only whether it is open, not who holds it: when a worker outlives its staleness,
  the sweep hands its job to a second worker, and the result of the first is then accepted while the second,
  which holds the job, is refused.
\<close>

theorem reclaimed_worker_still_closes:
  assumes "jobs_ok jobs" "row_of i jobs = Some j" "stale_job (t - after) j" "jb_attempts j < jb_max_attempts j"
  shows "let jobs = snd (reclaim_stale_jobs (Some after) t jobs);
             (second, jobs) = claim_job i t' jobs;
             (first_end, jobs) = succeed columns i first_result None t1 jobs;
             (second_end, jobs) = succeed columns i second_result None t2 jobs
         in \<not> Option.is_none second \<and> map_sum id jb_result_id first_end = Inr first_result \<and>
            second_end = Inl (JobAlreadyFinished DONE)"
proof -
  let ?j1 = "reclaimed_job (t - after) t j"
  define jobs1 where "jobs1 = snd (reclaim_stale_jobs (Some after) t jobs)"
  have ok1: "jobs_ok jobs1" using jobs_ok_call [OF assms(1), of columns "Some after" t Reclaim] by (simp add: jobs1_def)
  have row1: "row_of i jobs1 = Some ?j1" "jb_status ?j1 = QUEUED"
    using assms(2-4) by (simp_all add: jobs1_def snd_reclaim_stale_jobs row_of_map reclaimed_job_def)
  define jobs2 where "jobs2 = snd (claim_job i t' jobs1)"
  have ok2: "jobs_ok jobs2" using jobs_ok_call [OF ok1, of columns None t' "Claim i"] by (simp add: jobs2_def)
  obtain j2 where claim: "fst (claim_job i t' jobs1) = Some j2" and row2: "row_of i jobs2 = Some j2" and st2: "jb_status j2 = RUNNING"
    using claim_outcome [OF ok1 row1, of t'] by (simp add: jobs2_def)
  define jobs3 where "jobs3 = snd (finish_job i DONE first_result None [] t1 jobs2)"
  have ok3: "jobs_ok jobs3"
    using jobs_ok_call [OF ok2, of columns None t1 "Succeed i first_result None"] by (simp add: jobs3_def succeed_def)
  have open2: "\<not> is_terminal j2" using st2 by (simp add: job_status_defs)
  note first = finish_outcome [OF ok2 row2, of DONE first_result None "[]" t1, folded jobs3_def]
  have row3: "row_of i jobs3 = Some (closed_job DONE first_result None [] t1 j2)" using first(2) open2 by simp
  have "fst (finish_job i DONE second_result None [] t2 jobs3) = Inl (JobAlreadyFinished DONE)"
    using finish_outcome(1) [OF ok3 row3] by (simp add: closed_job_def job_status_defs)
  then show ?thesis
    using claim first(1) open2
    by (simp add: Let_def split_beta succeed_def closed_job_def flip: jobs1_def jobs2_def jobs3_def)
qed

theorem reclaimed_worker_still_closes_witness:
  "let jobs = call_all [] (Some 10) [(1, Enqueue 7 ''k'' [] None 2), (5, Claim 7)] [];
       jobs = snd (reclaim_stale_jobs (Some 10) 30 jobs);
       (second, jobs) = claim_job 7 31 jobs;
       (first_end, jobs) = succeed [] 7 (Some 100) None 32 jobs;
       (second_end, jobs) = succeed [] 7 (Some 200) None 33 jobs
   in \<not> Option.is_none second \<and> map_sum id jb_result_id first_end = Inr (Some 100) \<and>
      second_end = Inl (JobAlreadyFinished DONE)"
proof -
  let ?jobs = "call_all [] (Some 10) [(1, Enqueue 7 ''k'' [] None 2), (5, Claim 7)] []"
  have "jobs_ok ?jobs" by (rule jobs_ok_call_all) simp
  moreover have "case row_of 7 ?jobs of None \<Rightarrow> False | Some j \<Rightarrow> stale_job (30 - 10) j \<and> jb_attempts j < jb_max_attempts j"
    by code_simp
  then obtain j where "row_of 7 ?jobs = Some j" "stale_job (30 - 10) j" "jb_attempts j < jb_max_attempts j"
    by (auto split: option.splits)
  ultimately show ?thesis
    unfolding Let_def [of ?jobs] by (rule reclaimed_worker_still_closes)
qed

text \<open>\<open>shown w ws\<close>: what is new in \<open>ws\<close> after \<open>w\<close>, repetitions left out.\<close>

fun shown :: "'f option \<Rightarrow> 'f list \<Rightarrow> 'f list" where
  "shown w [] = []"
| "shown w (x # xs) = (if w = Some x then [] else [x]) @ shown (Some x) xs"

lemma shown_after: "w # shown (Some w) ws = remdups_adj (w # ws)"
proof (induction ws arbitrary: w)
  case (Cons x ws)
  then show ?case using Cons.IH [of x] by (cases "w = x") simp_all
qed simp

lemma shown_remdups_adj: "shown None ws = remdups_adj ws"
  by (cases ws) (simp_all add: shown_after)

lemma watch_polls_shown:
  "watch_polls watched deadline w polls = (out, e) \<Longrightarrow>
   \<exists>rows rest. map fst polls = map Some rows @ rest \<and> map watched out = shown w (map watched rows) \<and>
     (case e of Waiting \<Rightarrow> rest = [] | Ended \<Rightarrow> rows \<noteq> [] \<and> is_terminal (last rows) \<and> (\<forall>j \<in> set (butlast rows). \<not> is_terminal j)
      | NotFound \<Rightarrow> rest \<noteq> [] \<and> hd rest = None | TimedOut \<Rightarrow> deadline \<noteq> None)"
proof (induction watched deadline w polls arbitrary: out e rule: watch_polls.induct)
  case (3 watched deadline w j t polls)
  show ?case
  proof (cases "is_terminal j \<or> (case deadline of None \<Rightarrow> False | Some d \<Rightarrow> d \<le> t)")
    case True
    then show ?thesis using 3(2)
      by (intro exI [of _ "[j]"] exI [of _ "map fst polls"])
        (auto simp: Let_def split: if_splits option.splits)
  next
    case False
    then obtain out' where rec: "watch_polls watched deadline (Some (watched j)) polls = (out', e)"
      and out: "out = (if Some (watched j) = w then [] else [j]) @ out'"
      using 3(2) by (auto simp: Let_def split: prod.splits)
    from False 3(1) [OF refl _ _ rec] obtain rows rest where
      "map fst polls = map Some rows @ rest" "map watched out' = shown (Some (watched j)) (map watched rows)"
      "case e of Waiting \<Rightarrow> rest = [] | Ended \<Rightarrow> rows \<noteq> [] \<and> is_terminal (last rows) \<and> (\<forall>j \<in> set (butlast rows). \<not> is_terminal j)
        | NotFound \<Rightarrow> rest \<noteq> [] \<and> hd rest = None | TimedOut \<Rightarrow> deadline \<noteq> None"
      by blast
    then show ?thesis using False
      by (intro exI [of _ "j # rows"] exI [of _ rest]) (auto simp: out split: watch_end.splits)
  qed
next
  case (2 watched deadline w t polls)
  then show ?case by (intro exI [of _ "[]"] exI [of _ "None # map fst polls"]) auto
qed auto

text \<open>
  A watch yields the first row it reads and then each row that differs from the one before it, in
  every watched column, and nothing else; it ends with the row that ended the job, which it has yielded,
  and otherwise only with a missing row or its deadline.
\<close>

theorem watch_shows_every_change:
  assumes "\<And>j k. watched j = watched k \<Longrightarrow> jb_status j = jb_status k" "watch_polls watched deadline None polls = (out, e)"
  shows "\<exists>rows rest. map fst polls = map Some rows @ rest \<and> map watched out = remdups_adj (map watched rows) \<and>
     (case e of Waiting \<Rightarrow> rest = [] | Ended \<Rightarrow> out \<noteq> [] \<and> is_terminal (last out)
      | NotFound \<Rightarrow> rest \<noteq> [] \<and> hd rest = None | TimedOut \<Rightarrow> deadline \<noteq> None)"
proof -
  obtain rows rest where r: "map fst polls = map Some rows @ rest" "map watched out = remdups_adj (map watched rows)"
    "case e of Waiting \<Rightarrow> rest = [] | Ended \<Rightarrow> rows \<noteq> [] \<and> is_terminal (last rows) \<and> (\<forall>j \<in> set (butlast rows). \<not> is_terminal j)
      | NotFound \<Rightarrow> rest \<noteq> [] \<and> hd rest = None | TimedOut \<Rightarrow> deadline \<noteq> None"
    using watch_polls_shown [OF assms(2)] by (auto simp: shown_remdups_adj)
  have "out \<noteq> [] \<and> is_terminal (last out)" if "rows \<noteq> []" "is_terminal (last rows)"
  proof -
    have ne: "out \<noteq> []" using that(1) r(2) by (metis list.map_disc_iff remdups_adj_Nil_iff)
    then have "watched (last out) = watched (last rows)"
      using r(2) that(1) by (metis last_map last_remdups_adj map_is_Nil_conv)
    then have "jb_status (last out) = jb_status (last rows)" by (rule assms(1))
    with that ne show ?thesis by (simp add: is_terminal_def)
  qed
  with r show ?thesis by (intro exI [of _ rows] exI [of _ rest]) (auto split: watch_end.splits)
qed

theorem watch_shows_every_change_witness:
  "let j = new_job 7 ''k'' [] None 2 1;
       polls = [(Some j, 0), (Some j, 1), (Some (j\<lparr>jb_status := RUNNING\<rparr>), 2), (Some (j\<lparr>jb_status := DONE\<rparr>), 3), (None, 4)]
   in \<exists>rows rest. map fst polls = map Some rows @ rest \<and>
        map jb_status (fst (watch_polls jb_status None None polls)) = remdups_adj (map jb_status rows) \<and>
        fst (watch_polls jb_status None None polls) \<noteq> [] \<and> is_terminal (last (fst (watch_polls jb_status None None polls)))"
proof -
  let ?j = "new_job 7 ''k'' [] None 2 1"
  let ?polls = "[(Some ?j, 0), (Some ?j, 1), (Some (?j\<lparr>jb_status := RUNNING\<rparr>), 2), (Some (?j\<lparr>jb_status := DONE\<rparr>), 3), (None, 4)]"
  have "snd (watch_polls jb_status None None ?polls) = Ended" by code_simp
  then have "watch_polls jb_status None None ?polls = (fst (watch_polls jb_status None None ?polls), Ended)"
    by (metis prod.collapse)
  from watch_shows_every_change [OF _ this] show ?thesis by (simp add: Let_def)
qed

end
