(* ===== verification/Progress.thy ===== *)
theory Progress
  imports Jobs
begin

text \<open>
  The progress bar of a job: \<^verbatim>\<open>PhasePlan\<close> and \<^verbatim>\<open>ProgressTracker\<close> of \<^verbatim>\<open>tasks/progress.py\<close>, over the store of
  \<^verbatim>\<open>Jobs\<close> and \<^verbatim>\<open>run_cancellable\<close>. Floating-point fractions are real numbers.
\<close>

subsection \<open>The plan\<close>

record Phase =
  ph_name :: string
  ph_weight :: real
  ph_seconds :: real
  ph_seconds_per_kilochar :: real

datatype plan_error = NoPhases | NamesRepeat | WeightNotPositive | MarginOutside

record PhasePlan =
  pp_ceiling_margin :: real
  pp_phases :: "Phase list"
  pp_bounds :: "string \<Rightarrow> (real \<times> real) option"

fun place_phases :: "real \<Rightarrow> real \<Rightarrow> Phase list \<Rightarrow> (string \<Rightarrow> (real \<times> real) option) \<Rightarrow> (string \<Rightarrow> (real \<times> real) option)" where
  "place_phases whole floor0 [] m = m"
| "place_phases whole floor0 (p # ps) m =
     (let ceiling0 = floor0 + ph_weight p / whole in place_phases whole ceiling0 ps (m(ph_name p \<mapsto> (floor0, ceiling0))))"

definition make_plan :: "Phase list \<Rightarrow> real \<Rightarrow> plan_error + PhasePlan" where
  "make_plan phases ceiling_margin =
     (if phases = [] then Inl NoPhases
      else if \<not> distinct (map ph_name phases) then Inl NamesRepeat
      else if list_ex (\<lambda>p. ph_weight p \<le> 0) phases then Inl WeightNotPositive
      else if \<not> (0 < ceiling_margin \<and> ceiling_margin \<le> 1) then Inl MarginOutside
      else Inr \<lparr>pp_ceiling_margin = ceiling_margin, pp_phases = phases,
                pp_bounds = place_phases (sum_list (map ph_weight phases)) 0 phases Map.empty\<rparr>)"

definition from_seconds :: "(string \<times> real) list \<Rightarrow> (string \<Rightarrow> real option) \<Rightarrow> real \<Rightarrow> plan_error + PhasePlan" where
  "from_seconds medians per_kilochar ceiling_margin =
     make_plan (map (\<lambda>(name, seconds).
       \<lparr>ph_name = name, ph_weight = seconds, ph_seconds = seconds,
        ph_seconds_per_kilochar = (case per_kilochar name of None \<Rightarrow> 0 | Some r \<Rightarrow> r)\<rparr>) medians) ceiling_margin"

definition plan_names :: "PhasePlan \<Rightarrow> string list" where
  "plan_names plan = map ph_name (pp_phases plan)"

text \<open>\<open>None\<close> is \<^verbatim>\<open>KeyError\<close>.\<close>

definition bounds :: "PhasePlan \<Rightarrow> string \<Rightarrow> (real \<times> real) option" where
  "bounds plan phase = pp_bounds plan phase"

definition find_phase :: "PhasePlan \<Rightarrow> string \<Rightarrow> Phase option" where
  "find_phase plan name = find (\<lambda>p. ph_name p = name) (pp_phases plan)"

definition expected :: "PhasePlan \<Rightarrow> string \<Rightarrow> real option \<Rightarrow> real option" where
  "expected plan phase input =
     (case find_phase plan phase of
        None \<Rightarrow> None
      | Some measured \<Rightarrow>
          (case input of
             None \<Rightarrow> Some (ph_seconds measured)
           | Some n \<Rightarrow>
               if ph_seconds_per_kilochar measured \<le> 0 then Some (ph_seconds measured)
               else Some (ph_seconds measured + ph_seconds_per_kilochar measured * n / 1000)))"

definition fraction :: "PhasePlan \<Rightarrow> string \<Rightarrow> real \<Rightarrow> real option \<Rightarrow> real option \<Rightarrow> real option" where
  "fraction plan phase elapsed input count =
     (case bounds plan phase of
        None \<Rightarrow> None
      | Some (floor0, ceiling0) \<Rightarrow>
          (let span = ceiling0 - floor0
           in case count of
                Some d \<Rightarrow> Some (floor0 + span * min (max d 0) 1)
              | None \<Rightarrow>
                  (case expected plan phase input of
                     None \<Rightarrow> None
                   | Some seconds \<Rightarrow>
                       if seconds \<le> 0 \<or> elapsed \<le> 0 then Some floor0
                       else (let share = min (elapsed / seconds) 1 * pp_ceiling_margin plan in Some (floor0 + span * share)))))"

subsection \<open>The tracker\<close>

text \<open>
  The tracker sees its job through two calls only, \<^verbatim>\<open>ProgressSink\<close>: they are its first arguments, bound to
  the job it tracks. \<open>None\<close> is \<^verbatim>\<open>KeyError\<close>.
\<close>

definition enter_phase :: "(real \<Rightarrow> string \<Rightarrow> micros \<Rightarrow> 's \<Rightarrow> 's) \<Rightarrow> PhasePlan \<Rightarrow> string \<Rightarrow> micros \<Rightarrow> 's \<Rightarrow> unit option \<times> 's" where
  "enter_phase report plan phase now s =
     (case bounds plan phase of
        None \<Rightarrow> (None, s)
      | Some (floor0, _) \<Rightarrow> (Some (), report floor0 phase now s))"

definition report_done :: "(real \<Rightarrow> string \<Rightarrow> micros \<Rightarrow> 's \<Rightarrow> 's) \<Rightarrow> PhasePlan \<Rightarrow> string \<Rightarrow> real \<Rightarrow> micros \<Rightarrow> 's \<Rightarrow> unit option \<times> 's" where
  "report_done report plan phase count now s =
     (case fraction plan phase 0 None (Some count) of
        None \<Rightarrow> (None, s)
      | Some v \<Rightarrow> (Some (), report v phase now s))"

definition progress_tick ::
  "(real \<Rightarrow> string \<Rightarrow> micros \<Rightarrow> 's \<Rightarrow> 's) \<Rightarrow> ('s \<Rightarrow> bool) \<Rightarrow> PhasePlan \<Rightarrow> string \<Rightarrow> real option \<Rightarrow> real \<Rightarrow> micros \<Rightarrow> 's \<Rightarrow> bool option \<times> 's" where
  "progress_tick report stopped plan phase input elapsed now s =
     (case fraction plan phase elapsed input None of
        None \<Rightarrow> (None, s)
      | Some v \<Rightarrow> (let s = report v phase now s in (Some (stopped s), s)))"

text \<open>
  A round of the tracker: the result of the work if it came; otherwise what others do to the store before the
  tick, the seconds since the phase was entered, the time of the tick, and whether the work finished during
  it. \<open>tracked\<close> is the rounds as \<^verbatim>\<open>run_cancellable\<close> sees them, up to the one that stops it.
\<close>

record ('a, 'e, 's) tracked_round =
  tr_result :: "('a, 'e) work_result option"
  tr_others :: "'s \<Rightarrow> 's"
  tr_elapsed :: real
  tr_now :: micros
  tr_finished :: bool

fun tracked ::
  "(real \<Rightarrow> string \<Rightarrow> micros \<Rightarrow> 's \<Rightarrow> 's) \<Rightarrow> ('s \<Rightarrow> bool) \<Rightarrow> PhasePlan \<Rightarrow> string \<Rightarrow> real option \<Rightarrow> ('a, 'e, 's) tracked_round list \<Rightarrow> 's \<Rightarrow>
   (('a, 'e) work_result option \<times> bool option \<times> bool) list \<times> 's" where
  "tracked report stopped plan phase input [] s = ([], s)"
| "tracked report stopped plan phase input (r # rounds) s =
     (let s = tr_others r s
      in case tr_result r of
           Some result \<Rightarrow> ([(Some result, None, True)], s)
         | None \<Rightarrow>
             (case progress_tick report stopped plan phase input (tr_elapsed r) (tr_now r) s of
                (answer, s) \<Rightarrow>
                  if answer = Some True then ([(None, answer, tr_finished r)], s)
                  else (case tracked report stopped plan phase input rounds s of
                          (answers, s) \<Rightarrow> ((None, answer, tr_finished r) # answers, s))))"

definition tracker_run ::
  "(real \<Rightarrow> string \<Rightarrow> micros \<Rightarrow> 's \<Rightarrow> 's) \<Rightarrow> ('s \<Rightarrow> bool) \<Rightarrow> PhasePlan \<Rightarrow> real \<Rightarrow> bool \<Rightarrow> string \<Rightarrow> real option \<Rightarrow> micros \<Rightarrow>
   ('a, 'e, 's) tracked_round list \<Rightarrow> 's \<Rightarrow> ('a, 'e) cancellable_run option \<times> 's" where
  "tracker_run report stopped plan interval has_stop phase input now rounds s =
     (case enter_phase report plan phase now s of
        (None, s) \<Rightarrow> (None, s)
      | (Some _, s) \<Rightarrow>
          (case tracked report stopped plan phase input (if interval \<le> 0 then [] else rounds) s of
             (answers, s) \<Rightarrow> (Some (run_cancellable has_stop interval answers), s)))"

text \<open>The sink a job store is, for one job.\<close>

definition sink_report :: "uuid \<Rightarrow> real \<Rightarrow> string \<Rightarrow> micros \<Rightarrow> job list \<Rightarrow> job list" where
  "sink_report i progress stage now jobs = snd (report_progress i progress (Some stage) now jobs)"

subsection \<open>Where the phases lie\<close>

lemma place_phases_other: "name \<notin> ph_name ` set ps \<Longrightarrow> place_phases whole f ps m name = m name"
  by (induction ps arbitrary: f m) (auto simp: Let_def)

definition start_of :: "real \<Rightarrow> Phase list \<Rightarrow> nat \<Rightarrow> real" where
  "start_of whole ps k = sum_list (map ph_weight (take k ps)) / whole"

lemma place_phases_at:
  "distinct (map ph_name ps) \<Longrightarrow> k < length ps \<Longrightarrow>
   place_phases whole f ps m (ph_name (ps ! k)) = Some (f + start_of whole ps k, f + start_of whole ps (Suc k))"
proof (induction ps arbitrary: f m k)
  case (Cons p ps)
  show ?case
  proof (cases k)
    case 0
    with Cons.prems show ?thesis by (simp add: Let_def place_phases_other start_of_def)
  next
    case (Suc l)
    with Cons.prems have "ph_name (ps ! l) \<in> ph_name ` set ps" "ph_name p \<notin> ph_name ` set ps" by auto
    then have "ph_name (ps ! l) \<noteq> ph_name p" by metis
    with Suc Cons show ?thesis by (simp add: Let_def start_of_def add_divide_distrib)
  qed
qed simp

lemma made_plan:
  assumes "make_plan phases margin = Inr plan"
  shows "phases \<noteq> []" "distinct (map ph_name phases)" "\<And>p. p \<in> set phases \<Longrightarrow> 0 < ph_weight p" "0 < margin" "margin \<le> 1"
    "pp_ceiling_margin plan = margin" "pp_phases plan = phases"
    "pp_bounds plan = place_phases (sum_list (map ph_weight phases)) 0 phases Map.empty"
  using assms by (auto simp: make_plan_def list_ex_iff not_le split: if_splits)

lemma weights_positive:
  "(\<And>p. p \<in> set ps \<Longrightarrow> 0 < ph_weight p) \<Longrightarrow> ps \<noteq> [] \<Longrightarrow> 0 < sum_list (map ph_weight ps)"
proof (induction ps)
  case (Cons p ps)
  then show ?case by (cases "ps = []") (auto intro: add_pos_pos)
qed simp

lemma phase_place:
  assumes "make_plan phases margin = Inr plan" "k < length phases"
  defines "edge \<equiv> start_of (sum_list (map ph_weight phases)) phases"
  shows "bounds plan (ph_name (phases ! k)) = Some (edge k, edge (Suc k))"
    and "edge (Suc k) - edge k = ph_weight (phases ! k) / sum_list (map ph_weight phases)" "edge k < edge (Suc k)"
proof -
  note plan = made_plan [OF assms(1)]
  have pos: "0 < sum_list (map ph_weight phases)" using weights_positive plan(1,3) by blast
  show "bounds plan (ph_name (phases ! k)) = Some (edge k, edge (Suc k))"
    using place_phases_at [OF plan(2) assms(2), of _ 0] by (simp add: bounds_def plan(8) edge_def)
  show step: "edge (Suc k) - edge k = ph_weight (phases ! k) / sum_list (map ph_weight phases)"
    using assms(2) by (simp add: edge_def start_of_def take_Suc_conv_app_nth add_divide_distrib)
  have "0 < ph_weight (phases ! k) / sum_list (map ph_weight phases)" using assms(2) pos plan(3) by simp
  with step show "edge k < edge (Suc k)" by linarith
qed

lemma start_of_within:
  assumes "\<And>p. p \<in> set ps \<Longrightarrow> 0 < ph_weight p" "ps \<noteq> []"
  defines "edge \<equiv> start_of (sum_list (map ph_weight ps)) ps"
  shows "0 \<le> edge k \<and> edge k \<le> 1 \<and> edge (length ps) = 1"
proof -
  have pos: "0 < sum_list (map ph_weight ps)" using weights_positive assms(1,2) by blast
  have "0 \<le> sum_list (map ph_weight qs)" if "set qs \<subseteq> set ps" for qs
    using that assms(1) by (intro sum_list_nonneg) (auto intro: less_imp_le)
  from this [OF set_take_subset, of k] this [OF set_drop_subset, of k] have
    "0 \<le> sum_list (map ph_weight (take k ps))" "0 \<le> sum_list (map ph_weight (drop k ps))" .
  moreover have "sum_list (map ph_weight (take k ps)) + sum_list (map ph_weight (drop k ps)) = sum_list (map ph_weight ps)"
    by (metis append_take_drop_id map_append sum_list_append)
  ultimately show ?thesis using pos by (simp add: edge_def start_of_def)
qed

lemma bounds_ordered:
  assumes "make_plan phases margin = Inr plan" "bounds plan phase = Some (f, c)"
  shows "0 \<le> f \<and> f < c \<and> c \<le> 1 \<and> phase \<in> ph_name ` set phases"
proof -
  note plan = made_plan [OF assms(1)]
  have "phase \<in> ph_name ` set phases"
    using assms(2) place_phases_other [of phase phases] by (fastforce simp: bounds_def plan(8))
  then obtain k where "k < length phases" "phase = ph_name (phases ! k)" by (metis imageE in_set_conv_nth)
  with phase_place [OF assms(1)] assms(2) start_of_within [OF plan(3,1)] show ?thesis by auto
qed

lemma phase_known:
  assumes "make_plan phases margin = Inr plan"
  shows "phase \<in> ph_name ` set phases \<longleftrightarrow> bounds plan phase \<noteq> None"
    and "phase \<in> ph_name ` set phases \<longleftrightarrow> expected plan phase input \<noteq> None"
proof -
  note plan = made_plan [OF assms]
  show "phase \<in> ph_name ` set phases \<longleftrightarrow> bounds plan phase \<noteq> None"
    using phase_place(1) [OF assms] bounds_ordered [OF assms] by (fastforce simp: in_set_conv_nth)
  show "phase \<in> ph_name ` set phases \<longleftrightarrow> expected plan phase input \<noteq> None"
  proof -
    have "find (\<lambda>p. ph_name p = phase) phases = None \<longleftrightarrow> phase \<notin> ph_name ` set phases" by (auto simp: find_None_iff)
    then show ?thesis
      by (cases "find (\<lambda>p. ph_name p = phase) phases") (auto simp: expected_def find_phase_def plan(7) split: option.splits)
  qed
qed

text \<open>The number written for a running phase, and for one that counts.\<close>

lemma fraction_running:
  assumes "make_plan phases margin = Inr plan" "bounds plan phase = Some (f, c)"
  obtains v where "fraction plan phase elapsed input None = Some v" "f \<le> v" "v \<le> f + (c - f) * margin"
proof -
  note plan = made_plan [OF assms(1)]
  have fc: "0 \<le> c - f" "phase \<in> ph_name ` set phases" using bounds_ordered [OF assms] by auto
  then obtain x where x: "expected plan phase input = Some x" using phase_known(2) [OF assms(1)] by blast
  have "0 \<le> (c - f) * margin" using fc plan(4) by simp
  moreover have "0 \<le> min (elapsed / x) 1 * margin \<and> min (elapsed / x) 1 * margin \<le> margin" if "0 < x" "0 < elapsed"
    using that plan(4) by (auto simp: mult_le_cancel_right1 intro!: mult_nonneg_nonneg)
  then have "0 \<le> (c - f) * (min (elapsed / x) 1 * margin) \<and> (c - f) * (min (elapsed / x) 1 * margin) \<le> (c - f) * margin"
    if "0 < x" "0 < elapsed" using that fc(1) by (auto intro: mult_left_mono)
  ultimately show thesis
    by (intro that [of "if x \<le> 0 \<or> elapsed \<le> 0 then f else f + (c - f) * (min (elapsed / x) 1 * margin)"])
      (auto simp: fraction_def assms(2) x plan(6) Let_def)
qed

text \<open>
  The phases of a plan tile the bar: in their order each starts where the one before it ends, the first at
  0 and the last ending at 1, and each takes the share of its weight, which is positive.
\<close>

theorem phases_tile_the_bar:
  assumes "make_plan phases margin = Inr plan"
  defines "edge \<equiv> start_of (sum_list (map ph_weight phases)) phases"
  shows "edge 0 = 0 \<and> edge (length phases) = 1 \<and>
    (\<forall>k < length phases. bounds plan (ph_name (phases ! k)) = Some (edge k, edge (Suc k)) \<and>
       edge (Suc k) - edge k = ph_weight (phases ! k) / sum_list (map ph_weight phases) \<and> edge k < edge (Suc k))"
  using phase_place [OF assms(1)] start_of_within [OF made_plan(3) [OF assms(1)] made_plan(1) [OF assms(1)]]
  unfolding edge_def by (auto simp: start_of_def [where k = 0])

theorem phases_tile_the_bar_witness:
  "let phases = [\<lparr>ph_name = ''pdf'', ph_weight = 1, ph_seconds = 2, ph_seconds_per_kilochar = 0\<rparr>,
       \<lparr>ph_name = ''table'', ph_weight = 3, ph_seconds = 5, ph_seconds_per_kilochar = 1\<rparr>];
     plan = \<lparr>pp_ceiling_margin = 9/10, pp_phases = phases, pp_bounds = place_phases 4 0 phases Map.empty\<rparr>
   in make_plan phases (9/10) = Inr plan \<and> bounds plan ''table'' = Some (1/4, 1)"
proof -
  let ?phases = "[\<lparr>ph_name = ''pdf'', ph_weight = 1, ph_seconds = 2, ph_seconds_per_kilochar = 0\<rparr>,
       \<lparr>ph_name = ''table'', ph_weight = 3, ph_seconds = 5, ph_seconds_per_kilochar = 1\<rparr>]"
  let ?plan = "\<lparr>pp_ceiling_margin = 9/10, pp_phases = ?phases, pp_bounds = place_phases 4 0 ?phases Map.empty\<rparr>"
  have "make_plan ?phases (9/10) = Inr ?plan" by (simp add: make_plan_def)
  from phases_tile_the_bar [OF this, THEN conjunct2, THEN conjunct2, rule_format, of 1]
  have "bounds ?plan ''table'' = Some (1/4, 1)" by (simp add: start_of_def)
  with \<open>make_plan ?phases (9/10) = Inr ?plan\<close> show ?thesis by (simp add: Let_def)
qed

subsection \<open>What a sink promises\<close>

text \<open>
  \<^verbatim>\<open>ProgressSink\<close>: a report moves the level of the job forward only, and never past the number
  reported; it does not stop the job. \<open>steady\<close> is the invariant of the provider.
\<close>

locale progress_sink =
  fixes report :: "real \<Rightarrow> string \<Rightarrow> micros \<Rightarrow> 's \<Rightarrow> 's"
    and stopped :: "'s \<Rightarrow> bool"
    and level :: "'s \<Rightarrow> real option"
    and steady :: "'s \<Rightarrow> bool"
  assumes steady_report: "steady s \<Longrightarrow> steady (report v stage now s)"
    and level_report: "steady s \<Longrightarrow> level s = Some x \<Longrightarrow>
      \<exists>y. level (report v stage now s) = Some y \<and> x \<le> y \<and> y \<le> max x (max 0 v)"
    and stopped_report: "stopped (report v stage now s) = stopped s"
begin

definition quiet :: "('a, 'e, 's) tracked_round \<Rightarrow> bool" where
  "quiet r \<longleftrightarrow> (\<forall>s. steady s \<longrightarrow> steady (tr_others r s) \<and> level (tr_others r s) = level s)"

lemma tracked_level:
  assumes "make_plan phases margin = Inr plan" "bounds plan phase = Some (f, c)" "\<forall>r \<in> set rounds. quiet r"
    "steady s" "level s = Some x" "tracked report stopped plan phase input rounds s = (answers, s')"
  shows "\<exists>y. level s' = Some y \<and> x \<le> y \<and> y \<le> max x (f + (c - f) * margin)"
  using assms(3-)
proof (induction rounds arbitrary: s x answers)
  case (Cons r rounds)
  let ?s = "tr_others r s"
  have s: "steady ?s" "level ?s = Some x" using Cons.prems(1-3) by (auto simp: quiet_def)
  obtain v where v: "fraction plan phase (tr_elapsed r) input None = Some v" "f \<le> v" "v \<le> f + (c - f) * margin"
    using fraction_running [OF assms(1,2)] by metis
  have "0 \<le> v" using v(2) bounds_ordered [OF assms(1,2)] by simp
  let ?t = "report v phase (tr_now r) ?s"
  obtain y where y: "level ?t = Some y" "x \<le> y" "y \<le> max x (f + (c - f) * margin)"
    using level_report [OF s, of v phase "tr_now r"] v(3) \<open>0 \<le> v\<close> by (fastforce simp: max_def split: if_splits)
  show ?case
  proof (cases "tr_result r = None \<and> \<not> stopped ?t")
    case True
    then obtain as where "tracked report stopped plan phase input rounds ?t = (as, s')"
      using Cons.prems(4) v(1) by (auto simp: Let_def progress_tick_def split: prod.splits)
    from Cons.IH [OF _ steady_report [OF s(1)] y(1) this] Cons.prems(1) y show ?thesis by fastforce
  next
    case False
    then have "s' = ?s \<or> s' = ?t"
      using Cons.prems(4) v(1) by (auto simp: Let_def progress_tick_def split: option.splits)
    with s(2) y show ?thesis by auto
  qed
qed auto

lemma tracked_stop:
  assumes "make_plan phases margin = Inr plan" "bounds plan phase = Some (f, c)" "0 < interval"
    "tracked report stopped plan phase input rounds s = (answers, s')"
  shows "case cr_end (run_cancellable has_stop interval answers) of
      WorkDone r \<Rightarrow> r \<in> set (List.map_filter tr_result rounds)
    | StageInterrupted \<Rightarrow> stopped s'
    | StillRunning \<Rightarrow> (\<forall>r \<in> set rounds. tr_result r = None) \<and> (rounds \<noteq> [] \<longrightarrow> \<not> stopped s')
    | BadPoll \<Rightarrow> False"
  using assms(3,4)
proof (induction rounds arbitrary: s answers)
  case (Cons r rounds)
  let ?s = "tr_others r s"
  obtain v where v: "fraction plan phase (tr_elapsed r) input None = Some v"
    using fraction_running [OF assms(1,2)] by metis
  let ?t = "report v phase (tr_now r) ?s"
  show ?case
  proof (cases "tr_result r = None \<and> \<not> stopped ?t")
    case True
    then obtain as where as: "tracked report stopped plan phase input rounds ?t = (as, s')" "answers = (None, Some False, tr_finished r) # as"
      using Cons.prems(2) v(1) by (auto simp: Let_def progress_tick_def split: prod.splits)
    from Cons.IH [OF Cons.prems(1) as(1)] True as assms(3) show ?thesis
      by (cases rounds) (auto simp: run_cancellable_def List.map_filter_simps split: cancellable_end.splits)
  next
    case False
    then show ?thesis using Cons.prems v(1)
      by (auto simp: Let_def progress_tick_def run_cancellable_def List.map_filter_simps split: option.splits)
  qed
qed (auto simp: run_cancellable_def)

end

subsection \<open>The job store is a sink\<close>

lemma row_sink_report: "row_of i (sink_report i v stage now jobs) =
    map_option (\<lambda>j. if jb_id j = i \<and> jb_status j = RUNNING \<and> jb_progress j < min (max v 0) 1
      then j\<lparr>jb_progress := min (max v 0) 1, jb_stage := stage, jb_updated_at := now\<rparr> else j) (row_of i jobs)"
  unfolding sink_report_def snd_report_progress by (subst row_of_update) (simp_all, cases "row_of i jobs", simp_all)

lemma is_cancelled_row: "is_cancelled i jobs \<longleftrightarrow> (case row_of i jobs of None \<Rightarrow> True | Some j \<Rightarrow> jb_status j = CANCELLED)"
  by (simp add: is_cancelled_def row_of_def)

interpretation job_sink: progress_sink "sink_report i" "is_cancelled i" "\<lambda>jobs. map_option jb_progress (row_of i jobs)" jobs_ok
  for i
proof
  show "jobs_ok (sink_report i v stage now jobs)" if "jobs_ok jobs" for v stage now jobs
    using jobs_ok_call [OF that, of "[]" None now "Report i v (Some stage)"] by (simp add: sink_report_def)
  show "\<exists>y. map_option jb_progress (row_of i (sink_report i v stage now jobs)) = Some y \<and> x \<le> y \<and> y \<le> max x (max 0 v)"
    if "map_option jb_progress (row_of i jobs) = Some x" for v stage now jobs x
    using that by (cases "row_of i jobs") (auto simp: row_sink_report)
  show "is_cancelled i (sink_report i v stage now jobs) = is_cancelled i jobs" for v stage now jobs
    by (auto simp: is_cancelled_row row_sink_report split: option.splits)
qed

lemma tracker_run_parts:
  assumes "bounds plan phase = Some (f, c)" "tracker_run report stopped plan interval has_stop phase input now rounds s = (run, s')"
  obtains answers where
    "tracked report stopped plan phase input (if interval \<le> 0 then [] else rounds) (report f phase now s) = (answers, s')"
    "run = Some (run_cancellable has_stop interval answers)"
  using assms by (auto simp: tracker_run_def enter_phase_def split: prod.splits)

text \<open>
  While its phase runs, the bar of a job stays short of the end of the phase, however long the work takes:
  from a row at or below the start of the phase, whatever number of ticks passes, the progress has not gone back
  and has not reached the ceiling, provided nothing else writes it.
\<close>

theorem running_phase_never_fills:
  assumes "make_plan phases margin = Inr plan" "margin < 1" "bounds plan phase = Some (f, c)"
    and "jobs_ok jobs" "row_of i jobs = Some j" "jb_progress j \<le> f"
    and "\<And>r s. r \<in> set rounds \<Longrightarrow> jobs_ok s \<Longrightarrow>
      jobs_ok (tr_others r s) \<and> map_option jb_progress (row_of i (tr_others r s)) = map_option jb_progress (row_of i s)"
    and "tracker_run (sink_report i) (is_cancelled i) plan interval has_stop phase input now rounds jobs = (run, jobs')"
  shows "\<exists>j'. row_of i jobs' = Some j' \<and> jb_progress j \<le> jb_progress j' \<and> jb_progress j' < c"
proof -
  obtain answers where run: "tracked (sink_report i) (is_cancelled i) plan phase input
      (if interval \<le> 0 then [] else rounds) (sink_report i f phase now jobs) = (answers, jobs')"
    using tracker_run_parts [OF assms(3,8)] by metis
  have fc: "0 \<le> f" "0 < c - f" using bounds_ordered [OF assms(1,3)] by auto
  obtain y where y: "map_option jb_progress (row_of i (sink_report i f phase now jobs)) = Some y" "jb_progress j \<le> y" "y \<le> f"
    using job_sink.level_report [OF assms(4), of i "jb_progress j" f phase now] assms(5,6) fc(1) by auto
  have "\<exists>z. map_option jb_progress (row_of i jobs') = Some z \<and> y \<le> z \<and> z \<le> max y (f + (c - f) * margin)"
    by (rule job_sink.tracked_level [OF assms(1,3) _ job_sink.steady_report [OF assms(4)] y(1) run])
      (use assms(7) in \<open>auto simp: job_sink.quiet_def\<close>)
  then obtain z where z: "map_option jb_progress (row_of i jobs') = Some z" "y \<le> z" "z \<le> max y (f + (c - f) * margin)"
    by blast
  have "(c - f) * margin < (c - f) * 1" using fc(2) assms(2) by (rule mult_strict_left_mono [rotated])
  then have "f + (c - f) * margin < c" by simp
  with z(3) y(3) fc(2) have "z < c" by (simp add: max_def split: if_splits)
  with z(1,2) y(2) show ?thesis by auto
qed

lemma one_phase_plan:
  "make_plan [\<lparr>ph_name = ''read'', ph_weight = 2, ph_seconds = 4, ph_seconds_per_kilochar = 0\<rparr>] (1/2) =
     Inr \<lparr>pp_ceiling_margin = 1/2, pp_phases = [\<lparr>ph_name = ''read'', ph_weight = 2, ph_seconds = 4, ph_seconds_per_kilochar = 0\<rparr>],
          pp_bounds = [''read'' \<mapsto> (0, 1)]\<rparr>"
  by (simp add: make_plan_def Let_def)

lemma cancel_keeps_level:
  "map_option jb_progress (row_of i (snd (cancel_job k reason now jobs))) = map_option jb_progress (row_of i jobs)"
  unfolding snd_cancel_job by (subst row_of_update) (auto simp: option.map_comp comp_def intro!: option.map_cong)

theorem running_phase_never_fills_witness:
  "let plan = \<lparr>pp_ceiling_margin = 1/2, pp_phases = [\<lparr>ph_name = ''read'', ph_weight = 2, ph_seconds = 4, ph_seconds_per_kilochar = 0\<rparr>],
          pp_bounds = [''read'' \<mapsto> (0, 1)]\<rparr>;
       jobs = call_all [] None [(1, Enqueue 7 ''k'' [] None 2), (5, Claim 7)] [];
       rounds = [\<lparr>tr_result = None, tr_others = id, tr_elapsed = 100, tr_now = 8, tr_finished = False\<rparr>,
         \<lparr>tr_result = None :: (nat, nat) work_result option, tr_others = (\<lambda>s. snd (cancel_job 7 None 9 s)), tr_elapsed = 102, tr_now = 10, tr_finished = False\<rparr>]
   in \<exists>j'. row_of 7 (snd (tracker_run (sink_report 7) (is_cancelled 7) plan 2 False ''read'' None 6 rounds jobs)) = Some j' \<and>
         0 \<le> jb_progress j' \<and> jb_progress j' < 1"
proof -
  let ?plan = "\<lparr>pp_ceiling_margin = 1/2, pp_phases = [\<lparr>ph_name = ''read'', ph_weight = 2, ph_seconds = 4, ph_seconds_per_kilochar = 0\<rparr>],
          pp_bounds = [''read'' \<mapsto> (0, 1)]\<rparr>"
  let ?jobs = "call_all [] None [(1, Enqueue 7 ''k'' [] None 2), (5, Claim 7)] []"
  let ?rounds = "[\<lparr>tr_result = None, tr_others = id, tr_elapsed = 100, tr_now = 8, tr_finished = False\<rparr>,
         \<lparr>tr_result = None :: (nat, nat) work_result option, tr_others = (\<lambda>s. snd (cancel_job 7 None 9 s)), tr_elapsed = 102, tr_now = 10, tr_finished = False\<rparr>]"
  let ?run = "tracker_run (sink_report 7) (is_cancelled 7) ?plan 2 False ''read'' None 6 ?rounds ?jobs"
  have "\<exists>j. row_of 7 ?jobs = Some j \<and> jb_progress j = 0"
    by (simp add: call_all_def enqueue_def claim_job_def update_jobs_def Let_def row_of_def new_job_def)
  then obtain j where j: "row_of 7 ?jobs = Some j" "jb_progress j = 0" by blast
  have ok: "jobs_ok ?jobs" by (rule jobs_ok_call_all) simp
  have cancel: "jobs_ok (snd (cancel_job 7 None 9 s))" if "jobs_ok s" for s
    using jobs_ok_call [OF that, of "[]" None 9 "Cancel 7 None"] by simp
  have others: "jobs_ok (tr_others r s) \<and> map_option jb_progress (row_of 7 (tr_others r s)) = map_option jb_progress (row_of 7 s)"
    if "r \<in> set ?rounds" "jobs_ok s" for r s
    using that cancel by (auto simp: cancel_keeps_level)
  have "\<exists>j'. row_of 7 (snd ?run) = Some j' \<and> jb_progress j \<le> jb_progress j' \<and> jb_progress j' < 1"
    by (rule running_phase_never_fills [OF one_phase_plan _ _ ok j(1) _ others surjective_pairing, where f = 0])
      (simp_all add: bounds_def j(2))
  with j(2) show ?thesis unfolding Let_def by simp
qed

text \<open>
  The work of a phase learns of a cancellation by the next tick, and of nothing else: it is interrupted
  only for a job that is cancelled or gone; if it is still running, no result has come and its job was
  not cancelled at its last tick; and a result that came is handed on.
\<close>

theorem cancel_reaches_the_work:
  assumes "make_plan phases margin = Inr plan" "phase \<in> ph_name ` set phases" "0 < interval"
    and "tracker_run (sink_report i) (is_cancelled i) plan interval has_stop phase input now rounds jobs = (run, jobs')"
  shows "\<exists>r. run = Some r \<and>
    (case cr_end r of
       WorkDone result \<Rightarrow> result \<in> set (List.map_filter tr_result rounds)
     | StageInterrupted \<Rightarrow> is_cancelled i jobs'
     | StillRunning \<Rightarrow> (\<forall>x \<in> set rounds. tr_result x = None) \<and> (rounds \<noteq> [] \<longrightarrow> \<not> is_cancelled i jobs')
     | BadPoll \<Rightarrow> False)"
proof -
  obtain f c where fc: "bounds plan phase = Some (f, c)" using phase_known(1) [OF assms(1)] assms(2) by auto
  obtain answers where "tracked (sink_report i) (is_cancelled i) plan phase input rounds (sink_report i f phase now jobs) = (answers, jobs')"
    "run = Some (run_cancellable has_stop interval answers)"
    using tracker_run_parts [OF fc assms(4)] assms(3) by auto
  with job_sink.tracked_stop [OF assms(1) fc assms(3)] show ?thesis by blast
qed

theorem cancel_reaches_the_work_witness:
  "let plan = \<lparr>pp_ceiling_margin = 1/2, pp_phases = [\<lparr>ph_name = ''read'', ph_weight = 2, ph_seconds = 4, ph_seconds_per_kilochar = 0\<rparr>],
          pp_bounds = [''read'' \<mapsto> (0, 1)]\<rparr>;
       jobs = call_all [] None [(1, Enqueue 7 ''k'' [] None 2), (5, Claim 7)] [];
       rounds = [\<lparr>tr_result = None :: (nat, nat) work_result option, tr_others = (\<lambda>s. snd (cancel_job 7 None 9 s)), tr_elapsed = 102, tr_now = 10, tr_finished = False\<rparr>];
       run = tracker_run (sink_report 7) (is_cancelled 7) plan 2 True ''read'' None 6 rounds jobs
   in map_option cr_end (fst run) = Some StageInterrupted \<and> is_cancelled 7 (snd run)"
proof -
  let ?plan = "\<lparr>pp_ceiling_margin = 1/2, pp_phases = [\<lparr>ph_name = ''read'', ph_weight = 2, ph_seconds = 4, ph_seconds_per_kilochar = 0\<rparr>],
          pp_bounds = [''read'' \<mapsto> (0, 1)]\<rparr>"
  let ?jobs = "call_all [] None [(1, Enqueue 7 ''k'' [] None 2), (5, Claim 7)] []"
  let ?rounds = "[\<lparr>tr_result = None :: (nat, nat) work_result option, tr_others = (\<lambda>s. snd (cancel_job 7 None 9 s)), tr_elapsed = 102, tr_now = 10, tr_finished = False\<rparr>]"
  let ?run = "tracker_run (sink_report 7) (is_cancelled 7) ?plan 2 True ''read'' None 6 ?rounds ?jobs"
  have stopped: "map_option cr_end (fst ?run) = Some StageInterrupted" by code_simp
  have "?run = (fst ?run, snd ?run)" by simp
  from cancel_reaches_the_work [OF one_phase_plan _ _ this] stopped show ?thesis by (auto simp: Let_def)
qed

end
