(* ===== verification/Stages.thy ===== *)
theory Stages
  imports Py_Text
begin

text \<open>
  Stages of work kept on the columns of a record: \<^verbatim>\<open>StageMap\<close> of \<^verbatim>\<open>tasks/stages.py\<close>. A record is its text
  columns by name; a column that is absent or empty is \<open>None\<close>.
\<close>

subsection \<open>Stage maps\<close>

datatype StageStatusEnum = STAGE_PENDING | STAGE_RUNNING | STAGE_DONE | STAGE_FAILED | STAGE_CANCELLED

fun stage_value :: "StageStatusEnum \<Rightarrow> string" where
  "stage_value STAGE_PENDING = ''pending''"
| "stage_value STAGE_RUNNING = ''running''"
| "stage_value STAGE_DONE = ''done''"
| "stage_value STAGE_FAILED = ''failed''"
| "stage_value STAGE_CANCELLED = ''cancelled''"

definition all_stage_statuses :: "StageStatusEnum list" where
  "all_stage_statuses = [STAGE_PENDING, STAGE_RUNNING, STAGE_DONE, STAGE_FAILED, STAGE_CANCELLED]"

text \<open>The constructor of the enumeration: \<open>None\<close> is \<^verbatim>\<open>ValueError\<close>.\<close>

definition read_stage_status :: "string \<Rightarrow> StageStatusEnum option" where
  "read_stage_status raw = find (\<lambda>s. stage_value s = raw) all_stage_statuses"

definition RUNNING_STAGE_STATUSES :: "StageStatusEnum list" where
  "RUNNING_STAGE_STATUSES = [STAGE_PENDING, STAGE_RUNNING]"

definition TERMINAL_STAGE_STATUSES :: "StageStatusEnum list" where
  "TERMINAL_STAGE_STATUSES = [STAGE_DONE, STAGE_FAILED, STAGE_CANCELLED]"

record StageColumns =
  sc_name :: string
  sc_status :: string
  sc_error :: string
  sc_result :: string

datatype stage_error = NoStages | StagesRepeat | ColumnsClash | UnknownStage | BadStageStatus | ErrorWithoutFailure

record StageMap =
  sm_prefix :: string
  sm_order :: "string list"
  sm_columns :: "string \<Rightarrow> StageColumns option"

type_synonym columns_row = "string \<Rightarrow> string option"

text \<open>The three templates are functions of the stage: what \<^verbatim>\<open>str.format\<close> makes of them.\<close>

definition stage_columns :: "string \<Rightarrow> (string \<Rightarrow> string) \<Rightarrow> (string \<Rightarrow> string) \<Rightarrow> (string \<Rightarrow> string) \<Rightarrow> string \<Rightarrow> StageColumns" where
  "stage_columns prefix status_template error_template result_template stage =
     \<lparr>sc_name = stage, sc_status = prefix @ status_template stage, sc_error = prefix @ error_template stage,
      sc_result = prefix @ result_template stage\<rparr>"

definition column_names :: "StageColumns \<Rightarrow> string list" where
  "column_names c = [sc_status c, sc_error c, sc_result c]"

definition make_stages ::
  "string list \<Rightarrow> string \<Rightarrow> (string \<Rightarrow> string) \<Rightarrow> (string \<Rightarrow> string) \<Rightarrow> (string \<Rightarrow> string) \<Rightarrow> stage_error + StageMap" where
  "make_stages stages prefix status_template error_template result_template =
     (if stages = [] then Inl NoStages
      else if \<not> distinct stages then Inl StagesRepeat
      else let cols = stage_columns prefix status_template error_template result_template
           in if \<not> distinct (concat (map (\<lambda>s. column_names (cols s)) stages)) then Inl ColumnsClash
              else Inr \<lparr>sm_prefix = prefix, sm_order = stages, sm_columns = (\<lambda>s. if List.member stages s then Some (cols s) else None)\<rparr>)"

definition default_templates :: "(string \<Rightarrow> string) list" where
  "default_templates = [(@) ''status_'', (@) ''error_'', (@) ''result_'']"

definition columns_of :: "StageMap \<Rightarrow> string \<Rightarrow> stage_error + StageColumns" where
  "columns_of M stage = (case sm_columns M stage of None \<Rightarrow> Inl UnknownStage | Some c \<Rightarrow> Inr c)"

subsection \<open>Reading and moving a stage\<close>

definition stage_status :: "StageMap \<Rightarrow> columns_row \<Rightarrow> string \<Rightarrow> stage_error + StageStatusEnum option" where
  "stage_status M row stage =
     (case columns_of M stage of
        Inl e \<Rightarrow> Inl e
      | Inr c \<Rightarrow>
          (case row (sc_status c) of
             None \<Rightarrow> Inr None
           | Some raw \<Rightarrow> (case read_stage_status raw of None \<Rightarrow> Inl BadStageStatus | Some s \<Rightarrow> Inr (Some s))))"

definition stage_is_running :: "StageMap \<Rightarrow> columns_row \<Rightarrow> string \<Rightarrow> stage_error + bool" where
  "stage_is_running M row stage =
     map_sum id (\<lambda>s. case s of None \<Rightarrow> False | Some st \<Rightarrow> List.member RUNNING_STAGE_STATUSES st) (stage_status M row stage)"

definition owns :: "StageMap \<Rightarrow> columns_row \<Rightarrow> string \<Rightarrow> StageStatusEnum \<Rightarrow> stage_error + bool" where
  "owns M row stage expected_status = map_sum id (\<lambda>s. s = Some expected_status) (stage_status M row stage)"

definition mark ::
  "StageMap \<Rightarrow> string \<Rightarrow> StageStatusEnum \<Rightarrow> string option \<Rightarrow> string option \<Rightarrow> (columns_row, stage_error, unit) action" where
  "mark M stage status error result row =
     (if error \<noteq> None \<and> status \<noteq> STAGE_FAILED then (Inl ErrorWithoutFailure, row)
      else case columns_of M stage of
             Inl e \<Rightarrow> (Inl e, row)
           | Inr c \<Rightarrow>
               (let row = row(sc_status c \<mapsto> stage_value status);
                    row = row(sc_error c := (if status = STAGE_FAILED then error else None));
                    row = (if result \<noteq> None then row(sc_result c := result) else row)
                in (Inr (), row)))"

text \<open>An undeclared stage raises when its turn comes, after the stages before it were marked.\<close>

fun cancel_loop :: "StageMap \<Rightarrow> string list \<Rightarrow> string list \<times> string list \<Rightarrow> (columns_row, stage_error, string list \<times> string list) action" where
  "cancel_loop M [] acc row = (Inr acc, row)"
| "cancel_loop M (stage # stages) (cancelled, ignored) row =
     (case stage_is_running M row stage of
        Inl e \<Rightarrow> (Inl e, row)
      | Inr True \<Rightarrow>
          (case mark M stage STAGE_CANCELLED None None row of
             (Inl e, row) \<Rightarrow> (Inl e, row)
           | (Inr _, row) \<Rightarrow> cancel_loop M stages (cancelled @ [stage], ignored) row)
      | Inr False \<Rightarrow> cancel_loop M stages (cancelled, ignored @ [stage]) row)"

text \<open>\<open>first_seen\<close> is \<^verbatim>\<open>list(dict.fromkeys(...))\<close>.\<close>

definition first_seen :: "string list \<Rightarrow> string list" where
  "first_seen xs = rev (remdups (rev xs))"

definition cancel_stages :: "StageMap \<Rightarrow> string list option \<Rightarrow> (columns_row, stage_error, string list \<times> string list) action" where
  "cancel_stages M stages row =
     cancel_loop M (first_seen (case stages of None \<Rightarrow> sm_order M | Some ss \<Rightarrow> ss)) ([], []) row"

fun snapshot_loop :: "StageMap \<Rightarrow> columns_row \<Rightarrow> string list \<Rightarrow> stage_error + (string \<times> StageStatusEnum option) list" where
  "snapshot_loop M row [] = Inr []"
| "snapshot_loop M row (stage # stages) =
     (case stage_status M row stage of
        Inl e \<Rightarrow> Inl e
      | Inr st \<Rightarrow> map_sum id ((#) (stage, st)) (snapshot_loop M row stages))"

definition snapshot :: "StageMap \<Rightarrow> columns_row \<Rightarrow> stage_error + (string \<times> StageStatusEnum option) list" where
  "snapshot M row = snapshot_loop M row (sm_order M)"

subsection \<open>Columns of a declared map\<close>

definition stages_ok :: "StageMap \<Rightarrow> bool" where
  "stages_ok M \<longleftrightarrow> distinct (sm_order M) \<and> (\<forall>s. sm_columns M s \<noteq> None \<longleftrightarrow> s \<in> set (sm_order M)) \<and>
     (\<forall>s c. sm_columns M s = Some c \<longrightarrow> distinct (column_names c)) \<and>
     (\<forall>s t c d. s \<noteq> t \<longrightarrow> sm_columns M s = Some c \<longrightarrow> sm_columns M t = Some d \<longrightarrow> set (column_names c) \<inter> set (column_names d) = {})"

lemma concat_disjoint: "distinct (concat (map g xs)) \<Longrightarrow> s \<in> set xs \<Longrightarrow> t \<in> set xs \<Longrightarrow> s \<noteq> t \<Longrightarrow> set (g s) \<inter> set (g t) = {}"
  by (induction xs) auto

lemma concat_each_distinct: "distinct (concat (map g xs)) \<Longrightarrow> s \<in> set xs \<Longrightarrow> distinct (g s)"
  by (induction xs) auto

lemma make_stages_ok:
  assumes "make_stages stages prefix st et rt = Inr M"
  shows "stages_ok M" "sm_order M = stages" "stages \<noteq> []"
proof -
  let ?cols = "stage_columns prefix st et rt"
  have M: "M = \<lparr>sm_prefix = prefix, sm_order = stages, sm_columns = (\<lambda>s. if List.member stages s then Some (?cols s) else None)\<rparr>"
    and d: "distinct stages" "distinct (concat (map (\<lambda>s. column_names (?cols s)) stages))" and "stages \<noteq> []"
    using assms by (auto simp: make_stages_def Let_def split: if_splits)
  then show "sm_order M = stages" "stages \<noteq> []" by simp_all
  show "stages_ok M"
    using d concat_disjoint [OF d(2)] concat_each_distinct [OF d(2)]
    by (auto simp: stages_ok_def M split: if_splits)
qed

lemma read_stage_value [simp]: "read_stage_status (stage_value s) = Some s"
  by (cases s) (simp_all add: read_stage_status_def all_stage_statuses_def)

lemma mark_writes:
  assumes "stages_ok M" "mark M stage st error result row = (Inr u, row')"
  obtains c where "columns_of M stage = Inr c" "stage_status M row' stage = Inr (Some st)"
    "row' (sc_error c) = (if st = STAGE_FAILED then error else None)"
    "row' (sc_result c) = (if result \<noteq> None then result else row (sc_result c))"
    "\<And>col. col \<notin> set (column_names c) \<Longrightarrow> row' col = row col"
    "\<And>t. t \<noteq> stage \<Longrightarrow> stage_status M row' t = stage_status M row t"
proof -
  obtain c where c: "sm_columns M stage = Some c" and row': "row' = (let row = row(sc_status c \<mapsto> stage_value st);
      row = row(sc_error c := (if st = STAGE_FAILED then error else None)) in if result \<noteq> None then row(sc_result c := result) else row)"
    using assms(2) by (auto simp: mark_def columns_of_def Let_def split: if_splits option.splits)
  have d: "sc_status c \<noteq> sc_error c" "sc_status c \<noteq> sc_result c" "sc_error c \<noteq> sc_result c"
    using assms(1) c by (auto simp: stages_ok_def column_names_def)
  have other: "stage_status M row' t = stage_status M row t" if "t \<noteq> stage" for t
  proof (cases "sm_columns M t")
    case (Some e)
    then have "sc_status e \<notin> set (column_names c)"
      using assms(1) that c unfolding stages_ok_def column_names_def by (metis disjoint_iff list.set_intros(1))
    then show ?thesis using Some by (simp add: stage_status_def columns_of_def row' column_names_def Let_def)
  qed (simp add: stage_status_def columns_of_def)
  show thesis
    by (rule that [OF _ _ _ _ _ other]) (use c d in \<open>auto simp: columns_of_def stage_status_def row' column_names_def Let_def\<close>)
qed

text \<open>
  Moving a stage moves that stage and nothing else: its status is the new one, its error is the message of
  a failure and empty otherwise, its result is kept unless a new one came, every other column of the
  record is as it was, and so is the status of every other stage.
\<close>

theorem mark_moves_one_stage:
  assumes "make_stages stages prefix status_t error_t result_t = Inr M" "mark M stage st error result row = (Inr u, row')"
  shows "stage_status M row' stage = Inr (Some st) \<and> (\<forall>t. t \<noteq> stage \<longrightarrow> stage_status M row' t = stage_status M row t) \<and>
    (\<exists>c. columns_of M stage = Inr c \<and> row' (sc_error c) = (if st = STAGE_FAILED then error else None) \<and>
       row' (sc_result c) = (if result \<noteq> None then result else row (sc_result c)) \<and>
       (\<forall>col. col \<notin> set (column_names c) \<longrightarrow> row' col = row col))"
  by (rule mark_writes [OF make_stages_ok(1) [OF assms(1)] assms(2)]) blast

lemma two_stages: "\<exists>M. make_stages [''a'', ''b''] ''d_'' ((@) ''status_'') ((@) ''error_'') ((@) ''result_'') = Inr M \<and> sm_columns M =
    (\<lambda>s. if List.member [''a'', ''b''] s then Some (stage_columns ''d_'' ((@) ''status_'') ((@) ''error_'') ((@) ''result_'') s) else None) \<and>
    sm_order M = [''a'', ''b'']"
  by (simp add: make_stages_def Let_def column_names_def stage_columns_def)

theorem mark_moves_one_stage_witness:
  "\<exists>M. make_stages [''a'', ''b''] ''d_'' ((@) ''status_'') ((@) ''error_'') ((@) ''result_'') = Inr M \<and>
     stage_status M (snd (mark M ''a'' STAGE_FAILED (Some ''bad'') None Map.empty)) ''a'' = Inr (Some STAGE_FAILED)"
proof -
  obtain M where M: "make_stages [''a'', ''b''] ''d_'' ((@) ''status_'') ((@) ''error_'') ((@) ''result_'') = Inr M"
    "sm_columns M = (\<lambda>s. if List.member [''a'', ''b''] s then Some (stage_columns ''d_'' ((@) ''status_'') ((@) ''error_'') ((@) ''result_'') s) else None)"
    using two_stages by blast
  then have "fst (mark M ''a'' STAGE_FAILED (Some ''bad'') None Map.empty) = Inr ()" by (simp add: mark_def columns_of_def Let_def)
  then have "mark M ''a'' STAGE_FAILED (Some ''bad'') None Map.empty = (Inr (), snd (mark M ''a'' STAGE_FAILED (Some ''bad'') None Map.empty))"
    by (metis prod.collapse)
  from mark_moves_one_stage [OF M(1) this] M(1) show ?thesis by blast
qed

subsection \<open>Cancelling\<close>

lemma cancel_loop_exact:
  assumes "stages_ok M" "distinct ss" "cancel_loop M ss (a, b) row = (Inr (x, y), row')"
  shows "x = a @ filter (\<lambda>s. stage_is_running M row s = Inr True) ss \<and> y = b @ filter (\<lambda>s. stage_is_running M row s \<noteq> Inr True) ss \<and>
    (\<forall>t. stage_status M row' t = (if t \<in> set ss \<and> stage_is_running M row t = Inr True then Inr (Some STAGE_CANCELLED) else stage_status M row t)) \<and>
    (\<forall>t \<in> set ss. \<exists>v. stage_is_running M row t = Inr v)"
  using assms(2-)
proof (induction ss arbitrary: a b row)
  case (Cons s ss)
  show ?case
  proof (cases "stage_is_running M row s = Inr True")
    case True
    with Cons.prems(2) obtain row1 where m: "mark M s STAGE_CANCELLED None None row = (Inr (), row1)"
      and rest: "cancel_loop M ss (a @ [s], b) row1 = (Inr (x, y), row')"
      by (auto split: sum.splits prod.splits)
    have st: "stage_status M row1 t = (if t = s then Inr (Some STAGE_CANCELLED) else stage_status M row t)" for t
      by (rule mark_writes [OF assms(1) m]) simp
    have same: "stage_is_running M row1 t = stage_is_running M row t" if "t \<in> set ss" for t
    proof -
      from Cons.prems(1) that have "t \<noteq> s" by auto
      with st [of t] show ?thesis by (simp add: stage_is_running_def)
    qed
    have filters: "filter (\<lambda>t. stage_is_running M row1 t = Inr True) ss = filter (\<lambda>t. stage_is_running M row t = Inr True) ss"
      "filter (\<lambda>t. stage_is_running M row1 t \<noteq> Inr True) ss = filter (\<lambda>t. stage_is_running M row t \<noteq> Inr True) ss"
      using same by (auto intro!: filter_cong)
    from Cons.IH [OF _ rest] Cons.prems(1) True st same filters show ?thesis by auto
  next
    case False
    then have "stage_is_running M row s = Inr False" "cancel_loop M ss (a, b @ [s]) row = (Inr (x, y), row')"
      using Cons.prems(2) by (auto split: sum.splits bool.splits)
    with Cons.IH [OF _ this(2)] Cons.prems(1) show ?thesis by auto
  qed
qed auto

lemma cancel_loop_nothing:
  "\<forall>s \<in> set ss. stage_is_running M row s = Inr False \<Longrightarrow> cancel_loop M ss (a, b) row = (Inr (a, b @ ss), row)"
  by (induction ss arbitrary: a b) auto

text \<open>
  A cancellation that answers has cancelled exactly the requested stages with work left and reports the
  others as ignored, each once and in the order requested; no other stage is touched; and asking again
  cancels nothing and changes nothing.
\<close>

theorem cancel_is_exact_and_idempotent:
  assumes "make_stages stages prefix status_t error_t result_t = Inr M" "cancel_stages M request row = (Inr (cancelled, ignored), row')"
  defines "asked \<equiv> first_seen (case request of None \<Rightarrow> sm_order M | Some ss \<Rightarrow> ss)"
  shows "cancelled = filter (\<lambda>s. stage_is_running M row s = Inr True) asked \<and>
    ignored = filter (\<lambda>s. stage_is_running M row s \<noteq> Inr True) asked \<and>
    (\<forall>t. stage_status M row' t = (if t \<in> set cancelled then Inr (Some STAGE_CANCELLED) else stage_status M row t)) \<and>
    cancel_stages M request row' = (Inr ([], asked), row')"
proof -
  have "cancel_loop M asked ([], []) row = (Inr (cancelled, ignored), row')"
    using assms(2) by (simp add: cancel_stages_def asked_def)
  note exact = cancel_loop_exact [OF make_stages_ok(1) [OF assms(1)] _ this]
  have "distinct asked" by (simp add: asked_def first_seen_def)
  note exact = exact [OF this]
  have "stage_is_running M row' t = Inr False" if "t \<in> set asked" for t
  proof (cases "stage_is_running M row t = Inr True")
    case True
    with exact that show ?thesis by (simp add: stage_is_running_def RUNNING_STAGE_STATUSES_def)
  next
    case False
    with exact that have "stage_is_running M row t = Inr False" "stage_status M row' t = stage_status M row t" by auto
    then show ?thesis by (simp add: stage_is_running_def)
  qed
  then have "cancel_stages M request row' = (Inr ([], asked), row')"
    using cancel_loop_nothing [of asked M row' "[]" "[]"] by (simp add: cancel_stages_def asked_def)
  with exact show ?thesis by auto
qed

theorem cancel_is_exact_and_idempotent_witness:
  "\<exists>M. make_stages [''a'', ''b''] ''d_'' ((@) ''status_'') ((@) ''error_'') ((@) ''result_'') = Inr M \<and>
     (let row = [''d_status_a'' \<mapsto> ''running'', ''d_status_b'' \<mapsto> ''done'']; row' = snd (cancel_stages M None row)
      in fst (cancel_stages M None row) = Inr ([''a''], [''b'']) \<and> cancel_stages M None row' = (Inr ([], [''a'', ''b'']), row'))"
proof -
  let ?row = "[''d_status_a'' \<mapsto> ''running'', ''d_status_b'' \<mapsto> ''done'']"
  obtain M where M: "make_stages [''a'', ''b''] ''d_'' ((@) ''status_'') ((@) ''error_'') ((@) ''result_'') = Inr M"
    "sm_columns M = (\<lambda>s. if List.member [''a'', ''b''] s then Some (stage_columns ''d_'' ((@) ''status_'') ((@) ''error_'') ((@) ''result_'') s) else None)"
    "sm_order M = [''a'', ''b'']"
    using two_stages by blast
  have first: "fst (cancel_stages M None ?row) = Inr ([''a''], [''b''])"
    by (simp add: cancel_stages_def M(2,3) first_seen_def stage_is_running_def stage_status_def columns_of_def stage_columns_def
        read_stage_status_def all_stage_statuses_def RUNNING_STAGE_STATUSES_def mark_def Let_def)
  then have "cancel_stages M None ?row = (Inr ([''a''], [''b'']), snd (cancel_stages M None ?row))" by (metis prod.collapse)
  from cancel_is_exact_and_idempotent [OF M(1) this] first M(1,3) show ?thesis by (auto simp: Let_def first_seen_def)
qed

subsection \<open>Ownership\<close>

text \<open>
  The check of ownership compares the status only, so a run whose stage was cancelled or finished and then
  restarted by a second run still passes it: whatever was done to the record in between, once any run has
  marked the stage with the status the first one left, the first one owns it again.
\<close>

theorem restarted_stage_is_owned_by_both:
  assumes "make_stages stages prefix status_t error_t result_t = Inr M"
    and "mark M stage STAGE_RUNNING None None row = (Inr u, first_run)"
    and "cancel_stages M (Some [stage]) first_run = (Inr (cancelled, ignored), between)"
    and "mark M stage STAGE_RUNNING None None between = (Inr v, second_run)"
  shows "owns M between stage STAGE_RUNNING = Inr False \<and> owns M second_run stage STAGE_RUNNING = Inr True"
proof -
  note ok = make_stages_ok(1) [OF assms(1)]
  have s1: "stage_status M first_run stage = Inr (Some STAGE_RUNNING)" by (rule mark_writes [OF ok assms(2)])
  have s2: "stage_status M second_run stage = Inr (Some STAGE_RUNNING)" by (rule mark_writes [OF ok assms(4)])
  have "cancel_loop M [stage] ([], []) first_run = (Inr (cancelled, ignored), between)"
    using assms(3) by (simp add: cancel_stages_def first_seen_def)
  from cancel_loop_exact [OF ok _ this] s1
  have "stage_status M between stage = Inr (Some STAGE_CANCELLED)" by (simp add: stage_is_running_def RUNNING_STAGE_STATUSES_def)
  with s2 show ?thesis by (simp add: owns_def)
qed

theorem restarted_stage_is_owned_by_both_witness:
  "\<exists>M second_run. make_stages [''a'', ''b''] ''d_'' ((@) ''status_'') ((@) ''error_'') ((@) ''result_'') = Inr M \<and>
     owns M second_run ''a'' STAGE_RUNNING = Inr True"
proof -
  obtain M where M: "make_stages [''a'', ''b''] ''d_'' ((@) ''status_'') ((@) ''error_'') ((@) ''result_'') = Inr M"
    "sm_columns M = (\<lambda>s. if List.member [''a'', ''b''] s then Some (stage_columns ''d_'' ((@) ''status_'') ((@) ''error_'') ((@) ''result_'') s) else None)"
    using two_stages by blast
  have mark: "mark M ''a'' STAGE_RUNNING None None row = (Inr (), snd (mark M ''a'' STAGE_RUNNING None None row))" for row
    by (simp add: mark_def columns_of_def M(2) Let_def)
  let ?first = "snd (mark M ''a'' STAGE_RUNNING None None Map.empty)"
  have "fst (cancel_stages M (Some [''a'']) ?first) = Inr ([''a''], [])"
    by (simp add: cancel_stages_def M(2) first_seen_def stage_is_running_def stage_status_def columns_of_def stage_columns_def
        read_stage_status_def all_stage_statuses_def RUNNING_STAGE_STATUSES_def mark_def Let_def)
  then have "cancel_stages M (Some [''a'']) ?first = (Inr ([''a''], []), snd (cancel_stages M (Some [''a'']) ?first))" by (metis prod.collapse)
  from restarted_stage_is_owned_by_both [OF M(1) mark this mark] M(1) show ?thesis by blast
qed

end
