(* ===== verification/Scheduler_Lease.thy ===== *)
theory Scheduler_Lease
  imports Py_Text
begin

text \<open>
  One scheduler among replicas: \<^verbatim>\<open>RedisSchedulerLock\<close> of \<^verbatim>\<open>tasks/lock.py\<close> and the supervisor
  \<^verbatim>\<open>_run_scheduler_under_lease\<close> of \<^verbatim>\<open>tasks/queue.py\<close>, one task per replica.

  The lock of \<^verbatim>\<open>redis-py\<close> is not part of the repository: its three calls are parameters, each on the
  replica, the time and the state of the server, \<open>None\<close> when the call raises. The locale \<open>lease_key\<close> says what
  they are documented to do. A replica is stepped from one \<^verbatim>\<open>await\<close> to the next.
\<close>

subsection \<open>The lock\<close>

datatype lease_pc = Standing_by | Leading | Renew_raised | Lease_lost | Supervisor_gone

text \<open>\<open>rp_renewed\<close> records when the lease was last granted or extended; no step reads it.\<close>

record replica =
  rp_held :: bool
  rp_pc :: lease_pc
  rp_renewed :: micros

definition lock_acquire ::
  "(nat \<Rightarrow> micros \<Rightarrow> 's \<Rightarrow> bool option \<times> 's) \<Rightarrow> nat \<Rightarrow> micros \<Rightarrow> replica \<times> 's \<Rightarrow> bool option \<times> (replica \<times> 's)" where
  "lock_acquire acq i now st =
     (case st of (r, s) \<Rightarrow>
       (case acq i now s of
          (None, s) \<Rightarrow> (None, (r, s))
        | (Some b, s) \<Rightarrow> (Some b, (r\<lparr>rp_held := b, rp_renewed := (if b then now else rp_renewed r)\<rparr>, s))))"

text \<open>\<^verbatim>\<open>renew\<close> up to its release: \<open>None\<close> when the extension raised and the release is next.\<close>

definition lock_renew ::
  "(nat \<Rightarrow> micros \<Rightarrow> 's \<Rightarrow> bool option \<times> 's) \<Rightarrow> nat \<Rightarrow> micros \<Rightarrow> replica \<times> 's \<Rightarrow> bool option \<times> (replica \<times> 's)" where
  "lock_renew ext i now st =
     (case st of (r, s) \<Rightarrow>
       if \<not> rp_held r then (Some False, (r, s))
       else (case ext i now s of
               (None, s) \<Rightarrow> (None, (r, s))
             | (Some b, s) \<Rightarrow> (Some b, (r\<lparr>rp_held := b, rp_renewed := (if b then now else rp_renewed r)\<rparr>, s))))"

definition lock_release :: "(nat \<Rightarrow> micros \<Rightarrow> 's \<Rightarrow> 's) \<Rightarrow> nat \<Rightarrow> micros \<Rightarrow> replica \<times> 's \<Rightarrow> replica \<times> 's" where
  "lock_release rel i now st =
     (case st of (r, s) \<Rightarrow> if \<not> rp_held r then (r, s) else (r\<lparr>rp_held := False\<rparr>, rel i now s))"

subsection \<open>The supervisor\<close>

text \<open>\<open>loop_on\<close>: \<^verbatim>\<open>loop_task\<close> is there and was not cancelled.\<close>

fun loop_on :: "lease_pc \<Rightarrow> bool" where
  "loop_on Standing_by = False"
| "loop_on Leading = True"
| "loop_on Renew_raised = True"
| "loop_on Lease_lost = True"
| "loop_on Supervisor_gone = False"

text \<open>
  One turn of the loop. Standing by, it tries to take the lease; an exception is not caught and ends the task.
  Leading, it renews; after an extension that raised it releases, and after a lost lease it stops the
  scheduler.
\<close>

definition supervise ::
  "(nat \<Rightarrow> micros \<Rightarrow> 's \<Rightarrow> bool option \<times> 's) \<Rightarrow> (nat \<Rightarrow> micros \<Rightarrow> 's \<Rightarrow> bool option \<times> 's) \<Rightarrow> (nat \<Rightarrow> micros \<Rightarrow> 's \<Rightarrow> 's) \<Rightarrow>
   nat \<Rightarrow> micros \<Rightarrow> replica \<times> 's \<Rightarrow> replica \<times> 's" where
  "supervise acq ext rel i now st =
     (case rp_pc (fst st) of
        Standing_by \<Rightarrow>
          (case lock_acquire acq i now st of
             (None, (r, s)) \<Rightarrow> (r\<lparr>rp_pc := Supervisor_gone\<rparr>, s)
           | (Some True, (r, s)) \<Rightarrow> (r\<lparr>rp_pc := Leading\<rparr>, s)
           | (Some False, st) \<Rightarrow> st)
      | Leading \<Rightarrow>
          (case lock_renew ext i now st of
             (None, (r, s)) \<Rightarrow> (r\<lparr>rp_pc := Renew_raised\<rparr>, s)
           | (Some True, st) \<Rightarrow> st
           | (Some False, st) \<Rightarrow> (case lock_release rel i now st of (r, s) \<Rightarrow> (r\<lparr>rp_pc := Lease_lost\<rparr>, s)))
      | Renew_raised \<Rightarrow> (case lock_release rel i now st of (r, s) \<Rightarrow> (r\<lparr>rp_pc := Lease_lost\<rparr>, s))
      | Lease_lost \<Rightarrow> ((fst st)\<lparr>rp_pc := Standing_by\<rparr>, snd st)
      | Supervisor_gone \<Rightarrow> st)"

text \<open>Cancelling the supervisor cancels the loop and releases the lease; a crash does neither call.\<close>

definition shut_down :: "(nat \<Rightarrow> micros \<Rightarrow> 's \<Rightarrow> 's) \<Rightarrow> nat \<Rightarrow> micros \<Rightarrow> replica \<times> 's \<Rightarrow> replica \<times> 's" where
  "shut_down rel i now st =
     (if rp_pc (fst st) = Supervisor_gone then st
      else case lock_release rel i now st of (r, s) \<Rightarrow> (r\<lparr>rp_pc := Supervisor_gone\<rparr>, s))"

record 's lease_world =
  lw_now :: micros
  lw_server :: 's
  lw_replicas :: "nat \<Rightarrow> replica"

definition at_replica :: "nat \<Rightarrow> (micros \<Rightarrow> replica \<times> 's \<Rightarrow> replica \<times> 's) \<Rightarrow> 's lease_world \<Rightarrow> 's lease_world" where
  "at_replica i f w =
     (case f (lw_now w) (lw_replicas w i, lw_server w) of
        (r, s) \<Rightarrow> w\<lparr>lw_server := s, lw_replicas := (lw_replicas w)(i := r)\<rparr>)"

inductive lease_step ::
  "(nat \<Rightarrow> micros \<Rightarrow> 's \<Rightarrow> bool option \<times> 's) \<Rightarrow> (nat \<Rightarrow> micros \<Rightarrow> 's \<Rightarrow> bool option \<times> 's) \<Rightarrow> (nat \<Rightarrow> micros \<Rightarrow> 's \<Rightarrow> 's) \<Rightarrow>
   's lease_world \<Rightarrow> 's lease_world \<Rightarrow> bool" for acq ext rel where
  Passes: "0 \<le> d \<Longrightarrow> lease_step acq ext rel w (w\<lparr>lw_now := lw_now w + d\<rparr>)"
| Turns: "lease_step acq ext rel w (at_replica i (supervise acq ext rel i) w)"
| Shuts: "lease_step acq ext rel w (at_replica i (shut_down rel i) w)"
| Crashes: "lease_step acq ext rel w (at_replica i (\<lambda>_ (r, s). (r\<lparr>rp_pc := Supervisor_gone, rp_held := False\<rparr>, s)) w)"

definition fresh_replica :: replica where
  "fresh_replica = \<lparr>rp_held = False, rp_pc = Standing_by, rp_renewed = 0\<rparr>"

definition lease_start :: "micros \<Rightarrow> 's \<Rightarrow> 's lease_world" where
  "lease_start now s = \<lparr>lw_now = now, lw_server = s, lw_replicas = (\<lambda>_. fresh_replica)\<rparr>"

abbreviation lease_runs where
  "lease_runs acq ext rel w w' \<equiv> (lease_step acq ext rel)\<^sup>*\<^sup>* w w'"

subsection \<open>What the key promises\<close>

text \<open>
  \<open>owner t s\<close> is who holds the key at \<open>t\<close> and until when. Taking sets a free key for a lifetime; extending and
  releasing touch it for its owner only. A call that raised may or may not have been carried out.
\<close>

locale lease_key =
  fixes ttl :: micros
    and acq ext :: "nat \<Rightarrow> micros \<Rightarrow> 's \<Rightarrow> bool option \<times> 's"
    and rel :: "nat \<Rightarrow> micros \<Rightarrow> 's \<Rightarrow> 's"
    and owner :: "micros \<Rightarrow> 's \<Rightarrow> (nat \<times> micros) option"
  assumes lapses: "t \<le> u \<Longrightarrow> owner u s = (case owner t s of None \<Rightarrow> None | Some (i, e) \<Rightarrow> if u < e then Some (i, e) else None)"
    and acq_grants: "acq i t s = (Some True, s') \<Longrightarrow> owner t s = None \<and> owner t s' = Some (i, t + ttl)"
    and acq_refuses: "acq i t s = (Some False, s') \<Longrightarrow> owner t s \<noteq> None \<and> owner t s' = owner t s"
    and acq_raises: "acq i t s = (None, s') \<Longrightarrow> owner t s' = owner t s \<or> owner t s = None \<and> owner t s' = Some (i, t + ttl)"
    and ext_extends: "ext i t s = (Some True, s') \<Longrightarrow> (\<exists>e. owner t s = Some (i, e)) \<and> owner t s' = Some (i, t + ttl)"
    and ext_refuses: "ext i t s = (Some False, s') \<Longrightarrow> owner t s' = owner t s \<and> (\<nexists>e. owner t s = Some (i, e))"
    and ext_raises: "ext i t s = (None, s') \<Longrightarrow>
      owner t s' = owner t s \<or> (\<exists>e. owner t s = Some (i, e)) \<and> owner t s' = Some (i, t + ttl)"
    and releases: "owner t (rel i t s) = owner t s \<or> (\<exists>e. owner t s = Some (i, e)) \<and> owner t (rel i t s) = None"
begin

text \<open>A replica that thinks it holds the lease and was granted it less than a lifetime ago does hold it.\<close>

definition leads_freshly :: "'s lease_world \<Rightarrow> nat \<Rightarrow> bool" where
  "leads_freshly w i \<longleftrightarrow> rp_held (lw_replicas w i) \<and> lw_now w < rp_renewed (lw_replicas w i) + ttl"

definition replica_ok :: "micros \<Rightarrow> nat \<Rightarrow> replica \<Rightarrow> 's \<Rightarrow> bool" where
  "replica_ok t i r s \<longleftrightarrow> (rp_held r \<longleftrightarrow> rp_pc r = Leading \<or> rp_pc r = Renew_raised) \<and> (rp_held r \<longrightarrow> rp_renewed r \<le> t) \<and>
     (rp_held r \<and> t < rp_renewed r + ttl \<longrightarrow> (\<exists>e. owner t s = Some (i, e) \<and> rp_renewed r + ttl \<le> e))"

definition lease_inv :: "'s lease_world \<Rightarrow> bool" where
  "lease_inv w \<longleftrightarrow> (\<forall>i. replica_ok (lw_now w) i (lw_replicas w i) (lw_server w))"

text \<open>
  What one replica may do to the key at one instant: it leaves the key alone, takes it or extends it for
  itself, or gives its own up.
\<close>

definition own_key :: "micros \<Rightarrow> nat \<Rightarrow> 's \<Rightarrow> 's \<Rightarrow> bool" where
  "own_key t i s s' \<longleftrightarrow> owner t s' = owner t s \<or> owner t s = None \<or> (\<exists>e. owner t s = Some (i, e))"

lemma inv_at_replica:
  assumes "lease_inv w" "f (lw_now w) (lw_replicas w i, lw_server w) = (r, s)"
    and "own_key (lw_now w) i (lw_server w) s" "replica_ok (lw_now w) i r s"
  shows "lease_inv (at_replica i f w)"
  unfolding lease_inv_def
proof (intro allI)
  fix k
  show "replica_ok (lw_now (at_replica i f w)) k (lw_replicas (at_replica i f w) k) (lw_server (at_replica i f w))"
  proof (cases "k = i")
    case False
    then show ?thesis
      using assms(1,3) by (fastforce simp: at_replica_def assms(2) lease_inv_def replica_ok_def own_key_def)
  qed (use assms(4) in \<open>simp add: at_replica_def assms(2)\<close>)
qed

lemma release_ok:
  assumes "lock_release rel i t (r, s) = (r', s')" "rp_pc r' = rp_pc r" "pc \<noteq> Leading" "pc \<noteq> Renew_raised"
  shows "own_key t i s s' \<and> replica_ok t i (r'\<lparr>rp_pc := pc\<rparr>) s'"
  using assms releases [of t i s] by (auto simp: lock_release_def own_key_def replica_ok_def split: if_splits)

lemma supervise_ok:
  assumes "replica_ok t i r s" "supervise acq ext rel i t (r, s) = (r', s')"
  shows "own_key t i s s' \<and> replica_ok t i r' s'"
proof (cases "rp_pc r")
  case Standing_by
  obtain b s1 where a: "acq i t s = (b, s1)" by fastforce
  show ?thesis
    using assms Standing_by a acq_grants [of i t s s1] acq_refuses [of i t s s1] acq_raises [of i t s s1]
    by (cases b) (auto simp: supervise_def lock_acquire_def own_key_def replica_ok_def split: bool.splits)
next
  case Leading
  obtain b s1 where e: "ext i t s = (b, s1)" by fastforce
  show ?thesis
    using assms Leading e ext_extends [of i t s s1] ext_refuses [of i t s s1] ext_raises [of i t s s1]
    by (cases b) (auto simp: supervise_def lock_renew_def lock_release_def own_key_def replica_ok_def split: bool.splits)
next
  case Renew_raised
  obtain r1 s1 where r1: "lock_release rel i t (r, s) = (r1, s1)" by fastforce
  have "rp_pc r1 = rp_pc r" using r1 by (auto simp: lock_release_def split: if_splits)
  from release_ok [OF r1 this, of Lease_lost] show ?thesis using assms(2) Renew_raised r1 by (simp add: supervise_def)
qed (use assms in \<open>auto simp: supervise_def own_key_def replica_ok_def\<close>)

lemma shut_down_ok:
  assumes "replica_ok t i r s" "shut_down rel i t (r, s) = (r', s')"
  shows "own_key t i s s' \<and> replica_ok t i r' s'"
proof (cases "rp_pc r = Supervisor_gone")
  case False
  obtain r1 s1 where r1: "lock_release rel i t (r, s) = (r1, s1)" by fastforce
  have "rp_pc r1 = rp_pc r" using r1 by (auto simp: lock_release_def split: if_splits)
  from release_ok [OF r1 this, of Supervisor_gone] show ?thesis using assms(2) False r1 by (simp add: shut_down_def)
qed (use assms in \<open>auto simp: shut_down_def own_key_def\<close>)

lemma inv_passes:
  assumes "lease_inv w" "0 \<le> d"
  shows "lease_inv (w\<lparr>lw_now := lw_now w + d\<rparr>)"
  unfolding lease_inv_def
proof (intro allI)
  fix i
  have "replica_ok (lw_now w) i (lw_replicas w i) (lw_server w)" using assms(1) by (simp add: lease_inv_def)
  then show "replica_ok (lw_now (w\<lparr>lw_now := lw_now w + d\<rparr>)) i (lw_replicas (w\<lparr>lw_now := lw_now w + d\<rparr>) i) (lw_server (w\<lparr>lw_now := lw_now w + d\<rparr>))"
    using assms(2) lapses [of "lw_now w" "lw_now w + d" "lw_server w"] by (auto simp: replica_ok_def)
qed

lemma inv_step: "lease_step acq ext rel w w' \<Longrightarrow> lease_inv w \<Longrightarrow> lease_inv w'"
proof (induction rule: lease_step.induct)
  case (Passes d w)
  then show ?case by (rule inv_passes [rotated])
next
  case (Turns w i)
  obtain r s where rs: "supervise acq ext rel i (lw_now w) (lw_replicas w i, lw_server w) = (r, s)" by fastforce
  have "replica_ok (lw_now w) i (lw_replicas w i) (lw_server w)" using Turns by (simp add: lease_inv_def)
  from supervise_ok [OF this rs] show ?case using inv_at_replica [OF Turns, where f = "supervise acq ext rel i"] rs by blast
next
  case (Shuts w i)
  obtain r s where rs: "shut_down rel i (lw_now w) (lw_replicas w i, lw_server w) = (r, s)" by fastforce
  have "replica_ok (lw_now w) i (lw_replicas w i) (lw_server w)" using Shuts by (simp add: lease_inv_def)
  from shut_down_ok [OF this rs] show ?case using inv_at_replica [OF Shuts, where f = "shut_down rel i"] rs by blast
next
  case (Crashes w i)
  show ?case by (rule inv_at_replica [OF Crashes]) (auto simp: own_key_def replica_ok_def)
qed

lemma inv_start: "lease_inv (lease_start now s)"
  by (simp add: lease_inv_def lease_start_def replica_ok_def fresh_replica_def)

lemma inv_runs: "lease_runs acq ext rel (lease_start now s) w \<Longrightarrow> lease_inv w"
  by (induction rule: rtranclp_induct) (auto simp: inv_start inv_step)

text \<open>Two replicas that hold a lease granted less than a lifetime ago are the same.\<close>

lemma one_fresh_holder:
  assumes "lease_inv w" "rp_held (lw_replicas w i)" "rp_held (lw_replicas w k)"
    and "lw_now w < rp_renewed (lw_replicas w i) + ttl" "lw_now w < rp_renewed (lw_replicas w k) + ttl"
  shows "i = k"
  using assms unfolding lease_inv_def replica_ok_def by (metis option.inject prod.inject)

lemma free_key_is_taken:
  assumes "owner (lw_now w) (lw_server w) = Some (p, e)" "e \<le> lw_now w + d" "0 \<le> d" "rp_pc (lw_replicas w i) = Standing_by"
    "fst (acq i (lw_now w + d) (lw_server w)) \<noteq> None"
  shows "rp_pc (lw_replicas (at_replica i (supervise acq ext rel i) (w\<lparr>lw_now := lw_now w + d\<rparr>)) i) = Leading"
proof -
  obtain b s1 where a: "acq i (lw_now w + d) (lw_server w) = (Some b, s1)" using assms(5) by (cases "acq i (lw_now w + d) (lw_server w)") auto
  have "owner (lw_now w + d) (lw_server w) = None" using assms(1-3) lapses [of "lw_now w" "lw_now w + d"] by simp
  with acq_refuses [of i "lw_now w + d" "lw_server w" s1] a have "b" by (cases b) auto
  then show ?thesis using assms(4) a by (simp add: at_replica_def supervise_def lock_acquire_def split_beta)
qed

end

subsection \<open>A Redis key\<close>

text \<open>
  The calls as the docstrings of \<^verbatim>\<open>tasks/lock.py\<close> describe them: \<^verbatim>\<open>SET NX PX\<close> and two scripts that verify the token.
  A server is its key and the connection failures to come: \<open>Some b\<close> loses the reply of the next call, which
  was carried out if \<open>b\<close>. An extension of a lock that is not owned raises.
\<close>

record key_server =
  ks_key :: "(nat \<times> micros) option"
  ks_faults :: "bool option list"

definition key_owner :: "micros \<Rightarrow> key_server \<Rightarrow> (nat \<times> micros) option" where
  "key_owner t s = (case ks_key s of None \<Rightarrow> None | Some (i, e) \<Rightarrow> if t < e then Some (i, e) else None)"

definition key_call :: "(key_server \<Rightarrow> bool option \<times> key_server) \<Rightarrow> key_server \<Rightarrow> bool option \<times> key_server" where
  "key_call f s =
     (case ks_faults s of
        Some True # faults \<Rightarrow> (None, snd (f (s\<lparr>ks_faults := faults\<rparr>)))
      | Some False # faults \<Rightarrow> (None, s\<lparr>ks_faults := faults\<rparr>)
      | None # faults \<Rightarrow> f (s\<lparr>ks_faults := faults\<rparr>)
      | [] \<Rightarrow> f s)"

definition key_set_nx :: "micros \<Rightarrow> nat \<Rightarrow> micros \<Rightarrow> key_server \<Rightarrow> bool option \<times> key_server" where
  "key_set_nx ttl i t = key_call (\<lambda>s. if key_owner t s = None then (Some True, s\<lparr>ks_key := Some (i, t + ttl)\<rparr>) else (Some False, s))"

definition key_extend :: "micros \<Rightarrow> nat \<Rightarrow> micros \<Rightarrow> key_server \<Rightarrow> bool option \<times> key_server" where
  "key_extend ttl i t =
     key_call (\<lambda>s. if map_option fst (key_owner t s) = Some i then (Some True, s\<lparr>ks_key := Some (i, t + ttl)\<rparr>) else (None, s))"

definition key_unlock :: "nat \<Rightarrow> micros \<Rightarrow> key_server \<Rightarrow> key_server" where
  "key_unlock i t s =
     snd (key_call (\<lambda>s. if map_option fst (key_owner t s) = Some i then (Some True, s\<lparr>ks_key := None\<rparr>) else (None, s)) s)"

definition DEFAULT_LOCK_TTL :: micros where
  "DEFAULT_LOCK_TTL = 30000000"

lemma key_owner_faults [simp]: "key_owner t (s\<lparr>ks_faults := faults\<rparr>) = key_owner t s"
  by (simp add: key_owner_def)

lemma key_call_cases:
  obtains faults where "key_call f s = f (s\<lparr>ks_faults := faults\<rparr>)"
  | faults where "key_call f s = (None, snd (f (s\<lparr>ks_faults := faults\<rparr>)))"
  | faults where "key_call f s = (None, s\<lparr>ks_faults := faults\<rparr>)"
proof (cases "ks_faults s")
  case Nil
  then have "key_call f s = f (s\<lparr>ks_faults := []\<rparr>)" by (metis (no_types, lifting) key_call_def key_server.surjective key_server.update_convs(2) list.case(1))
  then show thesis by (rule that(1))
next
  case (Cons x faults)
  consider "x = None" | "x = Some True" | "x = Some False" by (cases x) auto
  then show thesis using that Cons by cases (simp_all add: key_call_def)
qed

interpretation redis_key: lease_key DEFAULT_LOCK_TTL "key_set_nx DEFAULT_LOCK_TTL" "key_extend DEFAULT_LOCK_TTL" key_unlock key_owner
proof
  fix i t and s s' :: key_server
  let ?set = "\<lambda>s. if key_owner t s = None then (Some True, s\<lparr>ks_key := Some (i, t + DEFAULT_LOCK_TTL)\<rparr>) else (Some False, s)"
  let ?ext = "\<lambda>s. if map_option fst (key_owner t s) = Some i then (Some True, s\<lparr>ks_key := Some (i, t + DEFAULT_LOCK_TTL)\<rparr>) else (None, s)"
  let ?rel = "\<lambda>s. if map_option fst (key_owner t s) = Some i then (Some True, s\<lparr>ks_key := None\<rparr>) else (None, s)"
  have own: "key_owner t (s\<lparr>ks_key := Some (i, t + DEFAULT_LOCK_TTL)\<rparr>) = Some (i, t + DEFAULT_LOCK_TTL)"
      "key_owner t (s\<lparr>ks_key := None\<rparr>) = None" for s
    by (simp_all add: key_owner_def DEFAULT_LOCK_TTL_def)
  show "key_owner u s = (case key_owner t s of None \<Rightarrow> None | Some (i, e) \<Rightarrow> if u < e then Some (i, e) else None)" if "t \<le> u" for u
    using that by (auto simp: key_owner_def split: option.splits)
  show "key_owner t s = None \<and> key_owner t s' = Some (i, t + DEFAULT_LOCK_TTL)" if "key_set_nx DEFAULT_LOCK_TTL i t s = (Some True, s')"
    using that by (cases rule: key_call_cases [of ?set s]) (auto simp: key_set_nx_def own split: if_splits)
  show "key_owner t s \<noteq> None \<and> key_owner t s' = key_owner t s" if "key_set_nx DEFAULT_LOCK_TTL i t s = (Some False, s')"
    using that by (cases rule: key_call_cases [of ?set s]) (auto simp: key_set_nx_def own split: if_splits)
  show "key_owner t s' = key_owner t s \<or> key_owner t s = None \<and> key_owner t s' = Some (i, t + DEFAULT_LOCK_TTL)"
    if "key_set_nx DEFAULT_LOCK_TTL i t s = (None, s')"
    using that by (cases rule: key_call_cases [of ?set s]) (auto simp: key_set_nx_def own split: if_splits)
  show "(\<exists>e. key_owner t s = Some (i, e)) \<and> key_owner t s' = Some (i, t + DEFAULT_LOCK_TTL)" if "key_extend DEFAULT_LOCK_TTL i t s = (Some True, s')"
    using that by (cases rule: key_call_cases [of ?ext s]) (auto simp: key_extend_def own split: if_splits)
  show "key_owner t s' = key_owner t s \<and> (\<nexists>e. key_owner t s = Some (i, e))" if "key_extend DEFAULT_LOCK_TTL i t s = (Some False, s')"
    using that by (cases rule: key_call_cases [of ?ext s]) (auto simp: key_extend_def own split: if_splits)
  show "key_owner t s' = key_owner t s \<or> (\<exists>e. key_owner t s = Some (i, e)) \<and> key_owner t s' = Some (i, t + DEFAULT_LOCK_TTL)"
    if "key_extend DEFAULT_LOCK_TTL i t s = (None, s')"
    using that by (cases rule: key_call_cases [of ?ext s]) (auto simp: key_extend_def own split: if_splits)
  show "key_owner t (key_unlock i t s) = key_owner t s \<or> (\<exists>e. key_owner t s = Some (i, e)) \<and> key_owner t (key_unlock i t s) = None"
    by (cases rule: key_call_cases [of ?rel s]) (auto simp: key_unlock_def own)
qed

subsection \<open>Properties\<close>



text \<open>Three turns: the first replica takes the key, the second is refused, the first renews.\<close>

abbreviation (input) redis_turn where
  "redis_turn i \<equiv> at_replica i (supervise (key_set_nx DEFAULT_LOCK_TTL) (key_extend DEFAULT_LOCK_TTL) key_unlock i)"

definition key_with_faults :: "bool option list \<Rightarrow> key_server" where
  "key_with_faults faults = \<lparr>ks_key = None, ks_faults = faults\<rparr>"


text \<open>
  A renewal that raised gives up the key before it stops the loop: if the release gets through, a replica
  that polls at that moment takes the key and starts its own loop while the first is still running.
\<close>

theorem failed_renewal_overlaps:
  assumes "lease_key ttl acq ext rel owner" "i \<noteq> k"
    and "rp_pc (lw_replicas w i) = Leading" "rp_held (lw_replicas w i)" "rp_pc (lw_replicas w k) = Standing_by"
    and "fst (ext i (lw_now w) (lw_server w)) = None"
    and "owner (lw_now w) (rel i (lw_now w) (snd (ext i (lw_now w) (lw_server w)))) = None"
    and "fst (acq k (lw_now w) (rel i (lw_now w) (snd (ext i (lw_now w) (lw_server w))))) \<noteq> None"
  shows "let turn = (\<lambda>j. at_replica j (supervise acq ext rel j)); w' = turn k (turn i (turn i w))
    in lw_now w' = lw_now w \<and> loop_on (rp_pc (lw_replicas w' i)) \<and> loop_on (rp_pc (lw_replicas w' k))"
proof -
  obtain s1 where e: "ext i (lw_now w) (lw_server w) = (None, s1)" using assms(6) by (metis prod.collapse)
  obtain b s2 where a: "acq k (lw_now w) (rel i (lw_now w) s1) = (Some b, s2)"
    using assms(8) by (cases "acq k (lw_now w) (rel i (lw_now w) s1)") (auto simp: e)
  have "b" using lease_key.acq_refuses [OF assms(1), of k "lw_now w" "rel i (lw_now w) s1" s2] a assms(7) by (cases b) (auto simp: e)
  then show ?thesis
    using assms(2-5) a by (simp add: at_replica_def supervise_def lock_renew_def lock_release_def lock_acquire_def e Let_def)
qed

theorem failed_renewal_overlaps_witness:
  "let w = redis_turn 1 (redis_turn 0 (lease_start 5 (key_with_faults [None, None, Some True])));
       w' = redis_turn 1 (redis_turn 0 (redis_turn 0 w))
   in lw_now w' = lw_now w \<and> loop_on (rp_pc (lw_replicas w' 0)) \<and> loop_on (rp_pc (lw_replicas w' 1))"
proof -
  let ?w = "redis_turn 1 (redis_turn 0 (lease_start 5 (key_with_faults [None, None, Some True])))"
  have "rp_pc (lw_replicas ?w 0) = Leading" "rp_held (lw_replicas ?w 0)" "rp_pc (lw_replicas ?w 1) = Standing_by"
    "fst (key_extend DEFAULT_LOCK_TTL 0 (lw_now ?w) (lw_server ?w)) = None"
    "key_owner (lw_now ?w) (key_unlock 0 (lw_now ?w) (snd (key_extend DEFAULT_LOCK_TTL 0 (lw_now ?w) (lw_server ?w)))) = None"
    "\<not> Option.is_none (fst (key_set_nx DEFAULT_LOCK_TTL 1 (lw_now ?w) (key_unlock 0 (lw_now ?w) (snd (key_extend DEFAULT_LOCK_TTL 0 (lw_now ?w) (lw_server ?w))))))"
    by code_simp+
  then show ?thesis
    using failed_renewal_overlaps [OF redis_key.lease_key_axioms zero_neq_one, of ?w] by (simp add: Let_def Option.is_none_def)
qed

lemma gone_stays:
  "lease_step acq ext rel w w' \<Longrightarrow> rp_pc (lw_replicas w i) = Supervisor_gone \<Longrightarrow> rp_pc (lw_replicas w' i) = Supervisor_gone"
  by (induction rule: lease_step.induct) (auto simp: at_replica_def supervise_def shut_down_def split: prod.splits)

text \<open>
  C30. One failed poll ends a standby for good: the exception of the acquisition is not caught, so the
  supervisor is gone, and whatever happens later, on this replica the scheduler never runs again.
\<close>

theorem one_failed_poll_ends_the_standby:
  assumes "rp_pc (lw_replicas w i) = Standing_by" "fst (acq i (lw_now w) (lw_server w)) = None"
    and "lease_runs acq ext rel (at_replica i (supervise acq ext rel i) w) w'"
  shows "rp_pc (lw_replicas w' i) = Supervisor_gone \<and> \<not> loop_on (rp_pc (lw_replicas w' i))"
proof -
  obtain s1 where "acq i (lw_now w) (lw_server w) = (None, s1)" using assms(2) by (metis prod.collapse)
  then have "rp_pc (lw_replicas (at_replica i (supervise acq ext rel i) w) i) = Supervisor_gone"
    using assms(1) by (simp add: at_replica_def supervise_def lock_acquire_def)
  with assms(3) have "rp_pc (lw_replicas w' i) = Supervisor_gone"
    by (induction rule: rtranclp_induct) (auto intro: gone_stays)
  then show ?thesis by simp
qed

theorem one_failed_poll_ends_the_standby_witness:
  "let w = redis_turn 0 (redis_turn 0 (lease_start 5 (key_with_faults [Some False])))
   in rp_pc (lw_replicas w 0) = Supervisor_gone \<and> \<not> loop_on (rp_pc (lw_replicas w 0))"
proof -
  let ?w = "lease_start 5 (key_with_faults [Some False])"
  have "rp_pc (lw_replicas ?w 0) = Standing_by" "fst (key_set_nx DEFAULT_LOCK_TTL 0 (lw_now ?w) (lw_server ?w)) = None" by code_simp+
  moreover have "lease_runs (key_set_nx DEFAULT_LOCK_TTL) (key_extend DEFAULT_LOCK_TTL) key_unlock (redis_turn 0 ?w) (redis_turn 0 (redis_turn 0 ?w))"
    by (rule r_into_rtranclp) (rule lease_step.Turns)
  ultimately show ?thesis unfolding Let_def by (rule one_failed_poll_ends_the_standby)
qed

text \<open>
  A crashed leader is replaced: once the lease of its last renewal has run out and nobody else took it,
  the next replica whose poll gets an answer leads.
\<close>

theorem crashed_leader_is_replaced:
  assumes "lease_key ttl acq ext rel owner" "owner (lw_now w) (lw_server w) = Some (p, e)" "e \<le> lw_now w + d" "0 \<le> d"
    and "rp_pc (lw_replicas w i) = Standing_by" "fst (acq i (lw_now w + d) (lw_server w)) \<noteq> None"
  shows "rp_pc (lw_replicas (at_replica i (supervise acq ext rel i) (w\<lparr>lw_now := lw_now w + d\<rparr>)) i) = Leading"
  by (rule lease_key.free_key_is_taken [OF assms])

theorem crashed_leader_is_replaced_witness:
  "let w = at_replica 0 (\<lambda>_ (r, s). (r\<lparr>rp_pc := Supervisor_gone, rp_held := False\<rparr>, s)) (redis_turn 0 (lease_start 5 (key_with_faults [])))
   in rp_pc (lw_replicas (redis_turn 1 (w\<lparr>lw_now := lw_now w + DEFAULT_LOCK_TTL\<rparr>)) 1) = Leading"
proof -
  let ?w = "at_replica 0 (\<lambda>_ (r, s). (r\<lparr>rp_pc := Supervisor_gone, rp_held := False\<rparr>, s)) (redis_turn 0 (lease_start 5 (key_with_faults [])))"
  have "key_owner (lw_now ?w) (lw_server ?w) = Some (0, 5 + DEFAULT_LOCK_TTL)" "5 + DEFAULT_LOCK_TTL \<le> lw_now ?w + DEFAULT_LOCK_TTL"
    "0 \<le> DEFAULT_LOCK_TTL" "rp_pc (lw_replicas ?w 1) = Standing_by"
    "\<not> Option.is_none (fst (key_set_nx DEFAULT_LOCK_TTL 1 (lw_now ?w + DEFAULT_LOCK_TTL) (lw_server ?w)))"
    by code_simp+
  then show ?thesis
    using crashed_leader_is_replaced [OF redis_key.lease_key_axioms, of ?w 0 "5 + DEFAULT_LOCK_TTL" DEFAULT_LOCK_TTL 1]
    by (simp add: Let_def Option.is_none_def)
qed

end
