(* ===== verification/Url_Text.thy ===== *)
theory Url_Text
  imports Py_Text "HOL-Library.Char_ord" "HOL-Library.List_Lexorder"
begin

text \<open>
  Text operations of URLs: \<^verbatim>\<open>split\<close> on one character, \<^verbatim>\<open>partition\<close>, percent-encoding (\<^verbatim>\<open>quote\<close>, \<^verbatim>\<open>quote_plus\<close>,
  \<^verbatim>\<open>urlencode\<close>), URL-safe base64. Text stands for its UTF-8 bytes.
\<close>

subsection \<open>Splitting on a character\<close>

fun split_on :: "char \<Rightarrow> string \<Rightarrow> string list" where
  "split_on c [] = [[]]"
| "split_on c (x # xs) =
     (if x = c then [] # split_on c xs
      else case split_on c xs of [] \<Rightarrow> [[x]] | p # ps \<Rightarrow> (x # p) # ps)"

fun join_on :: "char \<Rightarrow> string list \<Rightarrow> string" where
  "join_on c [] = []"
| "join_on c [p] = p"
| "join_on c (p # q # ps) = p @ c # join_on c (q # ps)"

text \<open>\<^verbatim>\<open>s.partition(c)\<close> without its middle part: what precedes the first \<open>c\<close>, and what follows it if there is one.\<close>

definition partition_on :: "char \<Rightarrow> string \<Rightarrow> string \<times> string option" where
  "partition_on c s =
     (takeWhile (\<lambda>x. x \<noteq> c) s, (case dropWhile (\<lambda>x. x \<noteq> c) s of [] \<Rightarrow> None | _ # rest \<Rightarrow> Some rest))"

lemma split_on_not_Nil [simp]: "split_on c s \<noteq> []"
  by (induction s) (auto split: list.split)

lemma join_split [simp]: "join_on c (split_on c s) = s"
proof (induction s)
  case (Cons x s)
  obtain p ps where "split_on c s = p # ps" by (cases "split_on c s") auto
  with Cons show ?case by (cases ps) auto
qed simp

lemma split_on_inj: "split_on c s = split_on c t \<Longrightarrow> s = t"
  by (metis join_split)

lemma split_on_plain: "c \<notin> set p \<Longrightarrow> split_on c p = [p]"
  by (induction p) auto

lemma split_on_append: "c \<notin> set p \<Longrightarrow> split_on c (p @ c # s) = p # split_on c s"
  by (induction p) auto

lemma split_join: "ps \<noteq> [] \<Longrightarrow> \<forall>p \<in> set ps. c \<notin> set p \<Longrightarrow> split_on c (join_on c ps) = ps"
  by (induction c ps rule: join_on.induct) (auto simp: split_on_plain split_on_append)

lemma split_on_pieces: "p \<in> set (split_on c s) \<Longrightarrow> c \<notin> set p"
proof (induction s arbitrary: p)
  case (Cons x s)
  obtain q qs where q: "split_on c s = q # qs" by (cases "split_on c s") auto
  with Cons.prems Cons.IH [of q] Cons.IH [of p] show ?case by (auto split: if_splits)
qed simp

lemma split_on_subset: "p \<in> set (split_on c s) \<Longrightarrow> set p \<subseteq> set s"
proof (induction s arbitrary: p)
  case (Cons x s)
  obtain q qs where q: "split_on c s = q # qs" by (cases "split_on c s") auto
  with Cons.prems Cons.IH [of q] Cons.IH [of p] show ?case by (auto split: if_splits)
qed simp

lemma partition_on_append [simp]: "c \<notin> set p \<Longrightarrow> partition_on c (p @ c # s) = (p, Some s)"
  by (induction p) (auto simp: partition_on_def)

lemma partition_on_plain [simp]: "c \<notin> set p \<Longrightarrow> partition_on c p = (p, None)"
  by (induction p) (auto simp: partition_on_def)

subsection \<open>Percent-encoding\<close>

definition unreserved :: "char \<Rightarrow> bool" where
  "unreserved c \<longleftrightarrow> (let n = (of_char c :: nat) in
     48 \<le> n \<and> n \<le> 57 \<or> 65 \<le> n \<and> n \<le> 90 \<or> 97 \<le> n \<and> n \<le> 122 \<or> n \<in> {45, 46, 95, 126})"

definition hex_digit :: "nat \<Rightarrow> char" where
  "hex_digit n = char_of (if n < 10 then 48 + n else 55 + n)"

definition hex_value :: "char \<Rightarrow> nat" where
  "hex_value c = (let n = (of_char c :: nat) in if n \<le> 57 then n - 48 else n - 55)"

definition percent :: "char \<Rightarrow> string" where
  "percent c = [CHR ''%'', hex_digit (of_char c div 16), hex_digit (of_char c mod 16)]"

text \<open>\<^verbatim>\<open>quote(s, safe="/")\<close>, \<^verbatim>\<open>quote_plus(s)\<close> and \<^verbatim>\<open>unquote\<close> of well-formed text.\<close>

definition quote_char :: "char \<Rightarrow> string" where
  "quote_char c = (if unreserved c \<or> c = CHR ''/'' then [c] else percent c)"

definition url_quote :: "string \<Rightarrow> string" where
  "url_quote s = concat (map quote_char s)"

definition quote_plus_char :: "char \<Rightarrow> string" where
  "quote_plus_char c = (if unreserved c then [c] else if c = CHR '' '' then ''+'' else percent c)"

definition quote_plus :: "string \<Rightarrow> string" where
  "quote_plus s = concat (map quote_plus_char s)"

fun url_unquote :: "string \<Rightarrow> string" where
  "url_unquote [] = []"
| "url_unquote [c] = [c]"
| "url_unquote [c, d] = [c, d]"
| "url_unquote (c # d # e # s) =
     (if c = CHR ''%'' then char_of (16 * hex_value d + hex_value e) # url_unquote s else c # url_unquote (d # e # s))"

definition urlencode :: "(string \<times> string) list \<Rightarrow> string" where
  "urlencode params = join_on (CHR ''&'') (map (\<lambda>(k, v). quote_plus k @ CHR ''='' # quote_plus v) params)"

lemma hex_roundtrip [simp]: "n < 16 \<Longrightarrow> hex_value (hex_digit n) = n"
  by (auto simp: hex_value_def hex_digit_def Let_def)

lemma hex_pair: "(of_char c :: nat) = 16 * (of_char c div 16) + of_char c mod 16"
  by simp

lemma unquote_percent: "url_unquote (percent c @ s) = c # url_unquote s"
proof -
  have "(of_char c :: nat) < 256" by simp
  then have "(of_char c :: nat) div 16 < 16" by (simp add: less_mult_imp_div_less)
  then have "char_of (16 * hex_value (hex_digit (of_char c div 16)) + hex_value (hex_digit (of_char c mod 16)) :: nat) = c"
    by (simp add: mult.commute)
  then show ?thesis by (cases s) (simp_all add: percent_def)
qed

lemma unquote_plain: "c \<noteq> CHR ''%'' \<Longrightarrow> url_unquote (c # s) = c # url_unquote s"
  by (cases s; cases "tl s") (auto, (metis list.exhaust url_unquote.simps(1,2,3))?)

lemma unquote_quote [simp]: "url_unquote (url_quote s) = s"
proof (induction s)
  case (Cons c s)
  have "\<not> unreserved (CHR ''%'')" by (simp add: unreserved_def)
  then have "quote_char c = percent c \<or> quote_char c = [c] \<and> c \<noteq> CHR ''%''" by (auto simp: quote_char_def)
  with Cons show ?case by (auto simp: url_quote_def unquote_percent unquote_plain)
qed (simp add: url_quote_def)

lemma percent_inj: "percent c @ s = percent d @ t \<longleftrightarrow> c = d \<and> s = t"
  by (metis unquote_percent append_Nil2 list.inject append_eq_append_conv length_append percent_def list.size(3,4))

lemma quote_plus_char_cases:
  obtains "quote_plus_char c = [c]" "c \<noteq> CHR ''%''" "c \<noteq> CHR ''+''"
  | "quote_plus_char c = ''+''" "c = CHR '' ''"
  | "quote_plus_char c = percent c"
proof -
  have "\<not> unreserved (CHR ''%'')" "\<not> unreserved (CHR ''+'')" "\<not> unreserved (CHR '' '')" by (simp_all add: unreserved_def)
  then show thesis using that by (cases "unreserved c"; cases "c = CHR '' ''") (auto simp: quote_plus_char_def)
qed

lemma percent_Cons: "percent c @ s = CHR ''%'' # (tl (percent c) @ s)"
  by (simp add: percent_def)

lemma percent_not_one: "percent c \<noteq> [x]" "[x] \<noteq> percent c"
  by (simp_all add: percent_def)

lemma quote_plus_char_inj: "quote_plus_char c @ s = quote_plus_char d @ t \<longleftrightarrow> c = d \<and> s = t"
proof (cases rule: quote_plus_char_cases [of c]; cases rule: quote_plus_char_cases [of d])
  assume "quote_plus_char c = percent c" "quote_plus_char d = percent d"
  then show ?thesis by (simp add: percent_inj)
qed (auto simp: percent_Cons percent_not_one)

lemma quote_plus_inj: "quote_plus s = quote_plus t \<longleftrightarrow> s = t"
proof (induction s arbitrary: t)
  case Nil
  have "quote_plus_char c \<noteq> []" for c by (simp add: quote_plus_char_def percent_def)
  then show ?case by (cases t) (auto simp: quote_plus_def)
next
  case (Cons c s)
  have "quote_plus_char c \<noteq> []" for c by (simp add: quote_plus_char_def percent_def)
  with Cons quote_plus_char_inj show ?case by (cases t) (auto simp: quote_plus_def)
qed

lemma quote_plus_chars: "x \<in> set (quote_plus s) \<Longrightarrow> x \<noteq> CHR ''&'' \<and> x \<noteq> CHR ''=''"
proof -
  have hex: "hex_digit n \<noteq> CHR ''&'' \<and> hex_digit n \<noteq> CHR ''=''" if "n < 16" for n
  proof -
    have "(of_char (hex_digit n) :: nat) = (if n < 10 then 48 + n else 55 + n)" using that by (simp add: hex_digit_def)
    then show ?thesis using that by (auto split: if_splits)
  qed
  have "(of_char c :: nat) div 16 < 16" for c :: char by (simp add: less_mult_imp_div_less)
  then have "x \<noteq> CHR ''&'' \<and> x \<noteq> CHR ''=''" if "x \<in> set (quote_plus_char c)" for x c
    using that hex by (auto simp: quote_plus_char_def percent_def unreserved_def split: if_splits)
  then show ?thesis if "x \<in> set (quote_plus s)" using that by (auto simp: quote_plus_def)
qed

lemma urlencode_inj:
  assumes "urlencode ps = urlencode qs" "ps \<noteq> []" "qs \<noteq> []"
  shows "ps = qs"
proof -
  let ?enc = "\<lambda>(k, v). quote_plus k @ CHR ''='' # quote_plus v"
  have plain: "\<forall>p \<in> set (map ?enc xs). CHR ''&'' \<notin> set p" for xs
    using quote_plus_chars by auto
  have "map ?enc ps = map ?enc qs"
    using arg_cong [OF assms(1), of "split_on (CHR ''&'')"] assms(2,3) plain by (simp add: urlencode_def split_join)
  moreover have "x = y" if "?enc x = ?enc y" for x y
  proof -
    obtain k v l w where xy: "x = (k, v)" "y = (l, w)" by (cases x; cases y)
    have "partition_on (CHR ''='') (?enc x) = (quote_plus k, Some (quote_plus v))"
      "partition_on (CHR ''='') (?enc y) = (quote_plus l, Some (quote_plus w))"
      using quote_plus_chars by (force simp: xy intro: partition_on_append)+
    with that show ?thesis by (simp add: xy quote_plus_inj)
  qed
  ultimately show ?thesis by (metis (no_types, lifting) inj_onI inj_on_map_eq_map)
qed

subsection \<open>URL-safe base64\<close>

definition b64_char :: "nat \<Rightarrow> char" where
  "b64_char n = (if n < 26 then char_of (65 + n) else if n < 52 then char_of (71 + n) else if n < 62 then char_of (n - 4)
     else if n = 62 then CHR ''-'' else CHR ''_'')"

text \<open>\<^verbatim>\<open>base64.urlsafe_b64encode\<close>, and \<^verbatim>\<open>rstrip(b"=")\<close>. \<open>sextets\<close> cuts three bytes into four six-bit numbers.\<close>

definition sextets :: "nat \<Rightarrow> nat \<Rightarrow> nat \<Rightarrow> nat list" where
  "sextets a b c = [a div 4, 16 * (a mod 4) + b div 16, 4 * (b mod 16) + c div 64, c mod 64]"

fun b64_encode :: "string \<Rightarrow> string" where
  "b64_encode [] = []"
| "b64_encode [a] = map b64_char (take 2 (sextets (of_char a) 0 0)) @ ''==''"
| "b64_encode [a, b] = map b64_char (take 3 (sextets (of_char a) (of_char b) 0)) @ ''=''"
| "b64_encode (a # b # c # s) = map b64_char (sextets (of_char a) (of_char b) (of_char c)) @ b64_encode s"

definition rstrip_char :: "char \<Rightarrow> string \<Rightarrow> string" where
  "rstrip_char c s = rev (dropWhile (\<lambda>x. x = c) (rev s))"

text \<open>Reading it back.\<close>

definition b64_value :: "char \<Rightarrow> nat" where
  "b64_value c = (let n = (of_char c :: nat) in if n = 45 then 62 else if n = 95 then 63
     else if 97 \<le> n then n - 71 else if 65 \<le> n then n - 65 else n + 4)"

fun b64_decode :: "string \<Rightarrow> string" where
  "b64_decode [w, x] = [char_of (4 * b64_value w + b64_value x div 16)]"
| "b64_decode [w, x, y] =
     [char_of (4 * b64_value w + b64_value x div 16), char_of (16 * (b64_value x mod 16) + b64_value y div 4)]"
| "b64_decode (w # x # y # z # s) =
     char_of (4 * b64_value w + b64_value x div 16) # char_of (16 * (b64_value x mod 16) + b64_value y div 4) #
     char_of (64 * (b64_value y mod 4) + b64_value z) # b64_decode s"
| "b64_decode s = []"

lemma b64_value_char [simp]: "n < 64 \<Longrightarrow> b64_value (b64_char n) = n"
  by (auto simp: b64_char_def b64_value_def Let_def)

lemma b64_char_plain:
  assumes "n < 64"
  shows "b64_char n \<noteq> CHR ''=''"
proof
  assume "b64_char n = CHR ''=''"
  then have "b64_value (CHR ''='') = n" using b64_value_char [OF assms] by simp
  with assms show False by (simp add: b64_value_def)
qed

lemma rstrip_append: "x \<noteq> c \<Longrightarrow> rstrip_char c (xs @ x # s) = xs @ x # rstrip_char c s"
  by (simp add: rstrip_char_def dropWhile_append)

lemma rstrip_pads [simp]: "rstrip_char c [] = []" "rstrip_char c [c] = []" "rstrip_char c [c, c] = []"
  by (simp_all add: rstrip_char_def)

text \<open>The encoding without its padding.\<close>

fun b64_core :: "string \<Rightarrow> string" where
  "b64_core [] = []"
| "b64_core [a] = map b64_char (take 2 (sextets (of_char a) 0 0))"
| "b64_core [a, b] = map b64_char (take 3 (sextets (of_char a) (of_char b) 0))"
| "b64_core (a # b # c # s) = map b64_char (sextets (of_char a) (of_char b) (of_char c)) @ b64_core s"

lemma sextets_less:
  fixes a b c :: nat
  assumes "a < 256" "b < 256" "c < 256"
  shows "a div 4 < 64" "16 * (a mod 4) + b div 16 < 64" "4 * (b mod 16) + c div 64 < 64" "c mod 64 < 64"
proof -
  have "a mod 4 < 4" "b div 16 < 16" "b mod 16 < 16" "c div 64 < 4"
    using assms by (simp_all add: less_mult_imp_div_less)
  then show "16 * (a mod 4) + b div 16 < 64" "4 * (b mod 16) + c div 64 < 64" by linarith+
qed (use assms in \<open>simp_all add: less_mult_imp_div_less\<close>)

lemma sextets_back:
  fixes a b c :: nat
  assumes "a < 256" "b < 256" "c < 256"
  shows "4 * (a div 4) + (16 * (a mod 4) + b div 16) div 16 = a"
    "16 * ((16 * (a mod 4) + b div 16) mod 16) + (4 * (b mod 16) + c div 64) div 4 = b"
    "64 * ((4 * (b mod 16) + c div 64) mod 4) + c mod 64 = c"
proof -
  have "b div 16 < 16" "c div 64 < 4" using assms by (simp_all add: less_mult_imp_div_less)
  then have "(16 * (a mod 4) + b div 16) div 16 = a mod 4" "(16 * (a mod 4) + b div 16) mod 16 = b div 16"
    "(4 * (b mod 16) + c div 64) div 4 = b mod 16" "(4 * (b mod 16) + c div 64) mod 4 = c div 64"
    by simp_all
  then show "4 * (a div 4) + (16 * (a mod 4) + b div 16) div 16 = a"
    "16 * ((16 * (a mod 4) + b div 16) mod 16) + (4 * (b mod 16) + c div 64) div 4 = b"
    "64 * ((4 * (b mod 16) + c div 64) mod 4) + c mod 64 = c"
    by (simp_all add: mult_div_mod_eq)
qed

lemma rstrip_b64: "rstrip_char (CHR ''='') (b64_encode s) = b64_core s"
proof (induction s rule: b64_encode.induct)
  case (2 a)
  have "16 * (of_char a mod 4) < (64 :: nat)" using sextets_less(2) [of "of_char a" 0 0] by simp
  then show ?case using rstrip_append [of _ "CHR ''=''" "[_]"] by (simp add: sextets_def b64_char_plain)
next
  case (3 a b)
  have "4 * (of_char b mod 16) < (64 :: nat)" using sextets_less(3) [of 0 "of_char b" 0] by simp
  then show ?case using rstrip_append [of _ "CHR ''=''" "[_, _]"] by (simp add: sextets_def b64_char_plain)
next
  case (4 a b c s)
  then show ?case using rstrip_append [of _ "CHR ''=''" "[_, _, _]"] by (simp add: sextets_def b64_char_plain)
qed simp

lemma decode_core: "b64_decode (b64_core s) = s"
proof (induction s rule: b64_core.induct)
  case (2 a)
  then show ?case
    using sextets_less [of "of_char a" 0 0] sextets_back [of "of_char a" 0 0] by (simp add: sextets_def)
next
  case (3 a b)
  then show ?case
    using sextets_less [of "of_char a" "of_char b" 0] sextets_back [of "of_char a" "of_char b" 0] by (simp add: sextets_def)
next
  case (4 a b c s)
  have "(of_char b :: nat) div 16 mod 16 = of_char b div 16" "(of_char c :: nat) div 64 mod 4 = of_char c div 64"
    by (simp_all add: less_mult_imp_div_less)
  with 4 show ?case
    using sextets_less [of "of_char a" "of_char b" "of_char c"] sextets_back [of "of_char a" "of_char b" "of_char c"]
    by (simp add: sextets_def)
qed simp

lemma b64_inj: "rstrip_char (CHR ''='') (b64_encode s) = rstrip_char (CHR ''='') (b64_encode t) \<longleftrightarrow> s = t"
  by (metis decode_core rstrip_b64)

subsection \<open>Decimal digits\<close>

text \<open>
  \<^verbatim>\<open>value.isascii() and value.isdigit()\<close>, and \<^verbatim>\<open>int(value)\<close> of such a value: CPython refuses more than 4300 digits
  with \<^verbatim>\<open>ValueError\<close>.
\<close>

definition ascii_digits :: "string \<Rightarrow> bool" where
  "ascii_digits s \<longleftrightarrow> s \<noteq> [] \<and> list_all is_digit s"

definition int_of_digits :: "string \<Rightarrow> int option" where
  "int_of_digits s = (if 4300 < length s then None else digits_int 0 False s)"

lemma int_str_inj: "int_str a = int_str b \<longleftrightarrow> a = b"
  by (metis option.inject py_int_int_str)

lemma int_str_plain: "CHR 0x0A \<notin> set (int_str e)"
proof -
  have "digit_char d \<noteq> CHR 0x0A" if "d < 10" for d
  proof
    assume "digit_char d = CHR 0x0A"
    with of_char_digit_char [OF that] show False by simp
  qed
  then have "CHR 0x0A \<notin> set (nat_str n)" for n using nat_str_digits [of "CHR 0x0A" n] by metis
  then show ?thesis by (simp add: int_str_def)
qed

lemma nat_str_ascii: "ascii_digits (nat_str n)"
  unfolding ascii_digits_def list_all_iff using nat_str_digits [of _ n] digit_char_simps(1) by (metis nat_str_nonempty)

lemma nat_str_length: "n < 10 ^ k \<Longrightarrow> length (nat_str n) \<le> max 1 k"
proof (induction n arbitrary: k rule: nat_str.induct)
  case (1 n)
  show ?case
  proof (cases "n < 10")
    case True
    then show ?thesis by (simp add: nat_str.simps [of n])
  next
    case False
    with "1.prems" obtain j where k: "k = Suc j" by (cases k) auto
    with "1.prems" False have "n div 10 < 10 ^ j" "0 < j" by (auto simp: less_mult_imp_div_less mult.commute intro: gr0I)
    with "1.IH" [OF False, of j] False k show ?thesis by (simp add: nat_str.simps [of n])
  qed
qed

lemma digits_of_nat [simp]: "ascii_digits (nat_str n)" "n < 10 ^ 19 \<Longrightarrow> int_of_digits (nat_str n) = Some (int n)"
  using nat_str_ascii nat_str_length [of n 19] by (simp_all add: int_of_digits_def digits_int_nat_str)

lemma line_inj:
  fixes c :: char
  assumes "p @ c # s = q @ c # t" "c \<notin> set p" "c \<notin> set q"
  shows "p = q \<and> s = t"
proof -
  have "(p, Some s) = (q, Some t)"
    using partition_on_append [OF assms(2), of s] partition_on_append [OF assms(3), of t] unfolding assms(1) by (rule trans [OF sym])
  then show ?thesis by simp
qed

lemma b64_core_empty: "b64_core s = [] \<longleftrightarrow> s = []"
  by (cases s rule: b64_core.cases) (auto simp: sextets_def)

end
