(* ===== verification/Http_Cache.thy ===== *)
theory Http_Cache
  imports Url_Text
begin

text \<open>
  HTTP validators and byte ranges: \<^verbatim>\<open>utils/_http_cache.py\<close>. A header value is a string of Latin-1 characters, as the
  server hands it over; the reader of an HTTP date (\<^verbatim>\<open>email.utils\<close>) is an argument.
\<close>

subsection \<open>White space of a header value\<close>

text \<open>\<^verbatim>\<open>str.strip\<close> also takes the two Latin-1 characters that count as white space.\<close>

definition latin_space :: "char \<Rightarrow> bool" where
  "latin_space c \<longleftrightarrow> is_space c \<or> (of_char c :: nat) \<in> {133, 160}"

definition latin_strip :: "string \<Rightarrow> string" where
  "latin_strip s = rev (dropWhile latin_space (rev (dropWhile latin_space s)))"

definition drop_prefix :: "string \<Rightarrow> string \<Rightarrow> string" where
  "drop_prefix p s = (if startswith s p then drop (length p) s else s)"

subsection \<open>Ranges\<close>

record byte_range =
  br_start :: int
  br_end :: int
  br_size :: int

definition range_length :: "byte_range \<Rightarrow> int" where
  "range_length r = br_end r - br_start r + 1"

definition content_range :: "byte_range \<Rightarrow> string" where
  "content_range r = ''bytes '' @ int_str (br_start r) @ ''-'' @ int_str (br_end r) @ ''/'' @ int_str (br_size r)"

definition unsatisfied_range :: "int \<Rightarrow> string" where
  "unsatisfied_range sz = ''bytes */'' @ int_str sz"

text \<open>\<open>RangeIntegerTooLong\<close> is the \<^verbatim>\<open>ValueError\<close> of \<^verbatim>\<open>int()\<close> on more than 4300 digits.\<close>

datatype range_error = RangeNotSatisfiable int | RangeIntegerTooLong

definition is_digits :: "string \<Rightarrow> bool \<Rightarrow> bool" where
  "is_digits v allow_empty = (if v = [] then allow_empty else ascii_digits v)"

definition resolve_byte_range :: "string option \<Rightarrow> int \<Rightarrow> range_error + byte_range option" where
  "resolve_byte_range header sz = (case header of
     None \<Rightarrow> Inr None
   | Some h \<Rightarrow>
     (let (unit_name, after) = partition_on (CHR ''='') (latin_strip h);
          spec = (case after of None \<Rightarrow> [] | Some s \<Rightarrow> s) in
      if lower (latin_strip unit_name) \<noteq> ''bytes'' \<or> spec = [] then Inr None
      else if CHR '','' \<in> set spec then Inr None
      else let (first0, dash) = partition_on (CHR ''-'') (latin_strip spec);
               first = latin_strip first0;
               last = latin_strip (case dash of None \<Rightarrow> [] | Some s \<Rightarrow> s) in
        if dash = None \<or> \<not> is_digits first True then Inr None
        else if \<not> is_digits last True then Inr None
        else if first = [] then
          (if last = [] then Inr None
           else case int_of_digits last of
             None \<Rightarrow> Inl RangeIntegerTooLong
           | Some suffix \<Rightarrow>
               if suffix = 0 \<or> sz = 0 then Inl (RangeNotSatisfiable sz)
               else Inr (Some \<lparr>br_start = max (sz - suffix) 0, br_end = sz - 1, br_size = sz\<rparr>))
        else case int_of_digits first of
             None \<Rightarrow> Inl RangeIntegerTooLong
           | Some start \<Rightarrow>
             (case (if last = [] then Some (sz - 1) else int_of_digits last) of
                None \<Rightarrow> Inl RangeIntegerTooLong
              | Some stop \<Rightarrow>
                  if last \<noteq> [] \<and> stop < start then Inr None
                  else if sz \<le> start then Inl (RangeNotSatisfiable sz)
                  else Inr (Some \<lparr>br_start = start, br_end = min stop (sz - 1), br_size = sz\<rparr>))))"

subsection \<open>Validators\<close>

definition etag_matches :: "string \<Rightarrow> string \<Rightarrow> bool" where
  "etag_matches if_none_match etag =
     (let candidate = latin_strip if_none_match in
      if candidate = ''*'' then True
      else drop_prefix ''W/'' etag \<in> set (map (\<lambda>tag. drop_prefix ''W/'' (latin_strip tag)) (split_on (CHR '','') candidate)))"

definition to_http_datetime :: "micros \<Rightarrow> micros" where
  "to_http_datetime t = t - t mod 1000000"

definition parse_http_date :: "(string \<Rightarrow> micros option) \<Rightarrow> string \<Rightarrow> micros option" where
  "parse_http_date parsedate v = map_option to_http_datetime (parsedate (latin_strip v))"

definition is_not_modified ::
  "(string \<Rightarrow> micros option) \<Rightarrow> string option \<Rightarrow> string option \<Rightarrow> string option \<Rightarrow> micros option \<Rightarrow> bool" where
  "is_not_modified parsedate if_none_match if_modified_since etag last_modified =
     (case if_none_match of
        Some inm \<Rightarrow> (case etag of None \<Rightarrow> False | Some e \<Rightarrow> etag_matches inm e)
      | None \<Rightarrow>
        (case (if_modified_since, last_modified) of
           (Some ims, Some lm) \<Rightarrow>
             (case parse_http_date parsedate ims of None \<Rightarrow> False | Some since \<Rightarrow> to_http_datetime lm \<le> since)
         | _ \<Rightarrow> False))"

definition if_range_allows ::
  "(string \<Rightarrow> micros option) \<Rightarrow> string option \<Rightarrow> string option \<Rightarrow> micros option \<Rightarrow> bool" where
  "if_range_allows parsedate if_range etag last_modified =
     (case if_range of
        None \<Rightarrow> True
      | Some v \<Rightarrow>
        (let candidate = latin_strip v in
         if startswith candidate [CHR 0x22] \<or> startswith candidate ''W/''
         then (case etag of None \<Rightarrow> False | Some e \<Rightarrow> candidate = e \<and> \<not> startswith e ''W/'')
         else case last_modified of
           None \<Rightarrow> False
         | Some lm \<Rightarrow> parse_http_date parsedate candidate = Some (to_http_datetime lm)))"

subsection \<open>What a range names\<close>

lemma digits_int_nonneg: "digits_int acc after s = Some v \<Longrightarrow> 0 \<le> acc \<Longrightarrow> 0 \<le> v"
  by (induction s arbitrary: acc after) (auto simp: is_digit_def digit_val_def split: if_splits)

lemma int_of_digits_nonneg: "int_of_digits s = Some v \<Longrightarrow> 0 \<le> v"
  using digits_int_nonneg by (auto simp: int_of_digits_def split: if_splits)

lemma resolved_bounds:
  assumes "resolve_byte_range header sz = Inr (Some r)" "0 \<le> sz"
  shows "0 \<le> br_start r \<and> br_start r \<le> br_end r \<and> br_end r < sz"
  using assms by (auto simp: resolve_byte_range_def Let_def split: option.splits prod.splits if_splits dest: int_of_digits_nonneg)

text \<open>
  A range that is served lies within the object: whatever the header says, the first byte is not negative, does
  not lie behind the last one, and the last one is within the object.
\<close>

theorem range_within_object:
  assumes "resolve_byte_range header sz = Inr (Some r)" "0 \<le> sz"
  shows "0 \<le> br_start r \<and> br_start r \<le> br_end r \<and> br_end r < sz \<and> br_size r = sz \<and> 0 < range_length r \<and> range_length r \<le> sz"
proof -
  have "0 \<le> br_start r \<and> br_start r \<le> br_end r \<and> br_end r < sz \<and> br_size r = sz"
    using assms by (auto simp: resolve_byte_range_def Let_def split: option.splits prod.splits if_splits dest: int_of_digits_nonneg)
  then show ?thesis by (simp add: range_length_def)
qed

theorem range_within_object_witness:
  "0 \<le> (3 :: int) \<and> (3 :: int) \<le> 9 \<and> (9 :: int) < 10 \<and> (10 :: int) = 10 \<and>
   0 < range_length \<lparr>br_start = 3, br_end = 9, br_size = 10\<rparr> \<and> range_length \<lparr>br_start = 3, br_end = 9, br_size = 10\<rparr> \<le> 10"
proof -
  have "resolve_byte_range (Some '' bytes=3-500'') 10 = Inr (Some \<lparr>br_start = 3, br_end = 9, br_size = 10\<rparr>)"
    by (simp add: resolve_byte_range_def Let_def partition_on_def latin_strip_def latin_space_def is_space_def lower_def
      lower_char_def is_digits_def ascii_digits_def is_digit_def int_of_digits_def digit_val_def)
  from range_within_object [OF this] show ?thesis by simp
qed

lemma latin_strip_id:
  assumes "s \<noteq> []" "\<not> latin_space (hd s)" "\<not> latin_space (last s)"
  shows "latin_strip s = s"
proof -
  have "dropWhile latin_space s = s" using assms(1,2) by (cases s) auto
  moreover have "dropWhile latin_space (rev s) = rev s" using assms(1,3) by (cases s rule: rev_cases) auto
  ultimately show ?thesis by (simp add: latin_strip_def)
qed

lemma digit_not_special:
  assumes "x \<in> set (nat_str n)"
  shows "\<not> latin_space x" "x \<noteq> CHR ''-''" "x \<noteq> CHR '',''"
proof -
  from nat_str_digits [OF assms] obtain d where d: "d < 10" "x = digit_char d" by blast
  then have "of_char x = 48 + d" using of_char_digit_char by simp
  with d(1) show "\<not> latin_space x" "x \<noteq> CHR ''-''" "x \<noteq> CHR '',''" by (auto simp: latin_space_def is_space_def)
qed

lemma comma_not_digit [simp]: "CHR '','' \<notin> set (nat_str n)" "CHR ''-'' \<notin> set (nat_str n)"
  using digit_not_special by blast+

lemma latin_strip_nat [simp]: "latin_strip (nat_str n) = nat_str n"
  by (rule latin_strip_id) (use digit_not_special(1) nat_str_nonempty hd_in_set last_in_set in \<open>blast+\<close>)

lemma latin_strip_Nil [simp]: "latin_strip [] = []"
  by (simp add: latin_strip_def)

definition digits_or_none :: "nat option \<Rightarrow> string" where
  "digits_or_none v = (case v of None \<Rightarrow> [] | Some n \<Rightarrow> nat_str n)"

lemma digits_or_none_facts:
  "latin_strip (digits_or_none v) = digits_or_none v" "is_digits (digits_or_none v) True"
  "CHR ''-'' \<notin> set (digits_or_none v)" "CHR '','' \<notin> set (digits_or_none v)" "digits_or_none v = [] \<longleftrightarrow> v = None"
  by (auto simp: digits_or_none_def is_digits_def split: option.splits)

lemma strip_range_text:
  assumes "a \<noteq> None \<or> b \<noteq> None"
  shows "latin_strip (digits_or_none a @ CHR ''-'' # digits_or_none b) = digits_or_none a @ CHR ''-'' # digits_or_none b"
proof (rule latin_strip_id)
  have sp: "\<not> latin_space (CHR ''-'')" by (simp add: latin_space_def is_space_def)
  have dig: "\<not> latin_space x" if "x \<in> set (digits_or_none v)" for x v
    using that digit_not_special(1) by (auto simp: digits_or_none_def split: option.splits)
  show "\<not> latin_space (hd (digits_or_none a @ CHR ''-'' # digits_or_none b))"
    using sp dig [OF hd_in_set] by (simp add: hd_append)
  show "\<not> latin_space (last (digits_or_none a @ CHR ''-'' # digits_or_none b))"
    using sp dig [OF last_in_set] by simp
qed simp

text \<open>The header with the first and the last number as given.\<close>

definition range_header :: "nat option \<Rightarrow> nat option \<Rightarrow> string" where
  "range_header a b = ''bytes='' @ digits_or_none a @ CHR ''-'' # digits_or_none b"

lemma range_header_parts:
  assumes "a \<noteq> None \<or> b \<noteq> None"
  shows "partition_on (CHR ''='') (latin_strip (range_header a b)) = (''bytes'', Some (digits_or_none a @ CHR ''-'' # digits_or_none b))"
proof -
  let ?spec = "digits_or_none a @ CHR ''-'' # digits_or_none b"
  have dig: "\<not> latin_space x" if "x \<in> set (digits_or_none v)" for x v
    using that digit_not_special(1) by (auto simp: digits_or_none_def split: option.splits)
  have "latin_strip (range_header a b) = range_header a b"
  proof (rule latin_strip_id)
    show "\<not> latin_space (last (range_header a b))"
      using dig [OF last_in_set, of b] by (simp add: range_header_def latin_space_def is_space_def)
  qed (simp_all add: range_header_def latin_space_def is_space_def)
  moreover have "partition_on (CHR ''='') (''bytes'' @ CHR ''='' # ?spec) = (''bytes'', Some ?spec)"
    by (rule partition_on_append) simp
  ultimately show ?thesis by (simp add: range_header_def)
qed

lemma resolve_range_header:
  assumes "a \<noteq> None \<or> b \<noteq> None" "\<forall>n. a = Some n \<or> b = Some n \<longrightarrow> n < 10 ^ 19"
  shows "resolve_byte_range (Some (range_header a b)) sz = (case a of
      None \<Rightarrow> if the b = 0 \<or> sz = 0 then Inl (RangeNotSatisfiable sz)
              else Inr (Some \<lparr>br_start = max (sz - int (the b)) 0, br_end = sz - 1, br_size = sz\<rparr>)
    | Some start \<Rightarrow> let stop = (case b of None \<Rightarrow> sz - 1 | Some n \<Rightarrow> int n) in
        if b \<noteq> None \<and> stop < int start then Inr None
        else if sz \<le> int start then Inl (RangeNotSatisfiable sz)
        else Inr (Some \<lparr>br_start = int start, br_end = min stop (sz - 1), br_size = sz\<rparr>))"
proof -
  let ?spec = "digits_or_none a @ CHR ''-'' # digits_or_none b"
  have dash: "partition_on (CHR ''-'') ?spec = (digits_or_none a, Some (digits_or_none b))"
    by (rule partition_on_append [OF digits_or_none_facts(3)])
  have "lower (latin_strip ''bytes'') = ''bytes''" by (simp add: latin_strip_def latin_space_def is_space_def lower_def lower_char_def)
  moreover have "CHR '','' \<notin> set ?spec" using digits_or_none_facts(4) by simp
  moreover have "int_of_digits (digits_or_none v) = Some (int n)" if "v = Some n" "n < 10 ^ 19" for v n
    using that by (simp add: digits_or_none_def)
  ultimately show ?thesis
    using assms by (auto simp: resolve_byte_range_def range_header_parts [OF assms(1)] strip_range_text [OF assms(1)] dash
      digits_or_none_facts Let_def split: option.splits)
qed

text \<open>A suffix of more than 4300 digits is not ignored: reading it raises.\<close>

lemma overlong_range_raises:
  assumes "list_all is_digit s" "4300 < length s"
  shows "resolve_byte_range (Some (''bytes=-'' @ s)) sz = Inl RangeIntegerTooLong"
proof -
  have chars: "\<not> latin_space x \<and> x \<noteq> CHR '',''" if "x \<in> set s" for x
    using that assms(1) by (auto simp: list_all_iff is_digit_def latin_space_def is_space_def)
  have ne: "s \<noteq> []" using assms(2) by auto
  have "latin_strip s = s" using ne chars by (intro latin_strip_id) auto
  moreover have "latin_strip (CHR ''-'' # s) = CHR ''-'' # s"
    using ne chars by (intro latin_strip_id) (auto simp: latin_space_def is_space_def)
  moreover have "latin_strip (''bytes=-'' @ s) = ''bytes'' @ CHR ''='' # CHR ''-'' # s"
  proof -
    have "latin_strip (''bytes=-'' @ s) = ''bytes=-'' @ s"
      using ne chars by (intro latin_strip_id) (auto simp: latin_space_def is_space_def)
    then show ?thesis by simp
  qed
  moreover have "partition_on (CHR ''='') (''bytes'' @ CHR ''='' # CHR ''-'' # s) = (''bytes'', Some (CHR ''-'' # s))"
    by (rule partition_on_append) simp
  moreover have "partition_on (CHR ''-'') ([] @ CHR ''-'' # s) = ([], Some s)" by (rule partition_on_append) simp
  moreover have "lower (latin_strip ''bytes'') = ''bytes''" by (simp add: latin_strip_def latin_space_def is_space_def lower_def lower_char_def)
  moreover have "CHR '','' \<notin> set s" using chars by blast
  ultimately show ?thesis
    using assms ne by (simp add: resolve_byte_range_def Let_def is_digits_def ascii_digits_def int_of_digits_def)
qed

end
