(* ===== verification/Downloads.thy ===== *)
theory Downloads
  imports Http_Cache Request
begin

text \<open>
  Answering a download: \<^verbatim>\<open>utils/download.py\<close>, \<^verbatim>\<open>guess_media_type\<close> of \<^verbatim>\<open>utils/media_types.py\<close> and
  \<^verbatim>\<open>storage/_download.py\<close>, which serves an object of any store that can describe and stream it. Names and header
  values are UTF-8 bytes.
\<close>

subsection \<open>Names and types\<close>

text \<open>\<^verbatim>\<open>_strip_control_chars\<close>: the controls of ASCII, and the two bytes of a C1 control.\<close>

definition c1_pair :: "char \<Rightarrow> char \<Rightarrow> bool" where
  "c1_pair c d \<longleftrightarrow> (of_char c :: nat) = 194 \<and> 128 \<le> (of_char d :: nat) \<and> (of_char d :: nat) \<le> 159"

definition ascii_control :: "char \<Rightarrow> bool" where
  "ascii_control c \<longleftrightarrow> (of_char c :: nat) < 32 \<or> (of_char c :: nat) = 127"

fun strip_control_chars :: "string \<Rightarrow> string" where
  "strip_control_chars [] = []"
| "strip_control_chars [c] = (if ascii_control c then [] else [c])"
| "strip_control_chars (c # d # s) =
     (if c1_pair c d then strip_control_chars s
      else if ascii_control c then strip_control_chars (d # s)
      else c # strip_control_chars (d # s))"

text \<open>\<^verbatim>\<open>Path(p).name\<close>.\<close>

definition path_name :: "string \<Rightarrow> string" where
  "path_name p = (case rev (filter (\<lambda>part. part \<noteq> [] \<and> part \<noteq> ''.'') (split_on (CHR ''/'') p)) of [] \<Rightarrow> [] | part # _ \<Rightarrow> part)"

definition INLINE_SAFE_MEDIA_TYPES :: "string list" where
  "INLINE_SAFE_MEDIA_TYPES =
     [''application/pdf'', ''audio/aac'', ''audio/flac'', ''audio/mp4'', ''audio/mpeg'', ''audio/ogg'', ''audio/wav'', ''audio/webm'',
      ''audio/x-wav'', ''image/avif'', ''image/gif'', ''image/jpeg'', ''image/png'', ''image/webp'', ''text/plain'', ''video/mp4'',
      ''video/ogg'', ''video/quicktime'', ''video/webm'']"

definition UNSAFE_MEDIA_TYPE_CHARS :: "char list" where
  "UNSAFE_MEDIA_TYPE_CHARS = [CHR '','', CHR 0x0D, CHR 0x0A]"

definition is_inline_safe :: "string option \<Rightarrow> bool" where
  "is_inline_safe media_type = (case media_type of
     None \<Rightarrow> False
   | Some m \<Rightarrow>
       if list_ex (\<lambda>c. c \<in> set m) UNSAFE_MEDIA_TYPE_CHARS then False
       else lower (strip (fst (partition_on (CHR '';'') m))) \<in> set INLINE_SAFE_MEDIA_TYPES)"

definition quote_char_all :: "char \<Rightarrow> string" where
  "quote_char_all c = (if unreserved c then [c] else percent c)"

definition ascii_fallback :: "string \<Rightarrow> string" where
  "ascii_fallback name =
     (let kept = map (\<lambda>c. if c = CHR 0x5C \<or> c = CHR 0x22 then CHR ''_'' else c) (filter (\<lambda>c. (of_char c :: nat) < 128) name)
      in if kept = [] then ''download'' else kept)"

definition safe_name :: "string \<Rightarrow> string" where
  "safe_name filename = (let name = path_name (strip_control_chars filename) in if name = [] then ''download'' else name)"

definition build_content_disposition :: "string \<Rightarrow> bool \<Rightarrow> string option \<Rightarrow> string" where
  "build_content_disposition filename as_attachment media_type =
     (let inline = \<not> as_attachment \<and> is_inline_safe media_type;
          disposition = (if inline then ''inline'' else ''attachment'');
          name = safe_name filename;
          encoded = concat (map quote_char_all name)
      in disposition @ ''; filename='' @ CHR 0x22 # ascii_fallback name @ CHR 0x22 # ''; filename*=UTF-8'' @ CHR 0x27 # CHR 0x27 # encoded)"

definition DEFAULT_STATIC_SECURITY_HEADERS :: "(string \<times> string) list" where
  "DEFAULT_STATIC_SECURITY_HEADERS =
     [(''X-Content-Type-Options'', ''nosniff''),
      (''Content-Security-Policy'', ''default-src '' @ CHR 0x27 # ''none'' @ CHR 0x27 # ''; sandbox''),
      (''Cross-Origin-Resource-Policy'', ''same-site'')]"

definition with_security_headers :: "(string \<times> string) list \<Rightarrow> (string \<times> string) list" where
  "with_security_headers headers =
     (let present = map (lower \<circ> fst) headers in
      fold (\<lambda>(name, v) merged. if lower name \<in> set present then merged else dict_set name v merged)
        DEFAULT_STATIC_SECURITY_HEADERS headers)"

definition XLSX_MEDIA_TYPE :: string where
  "XLSX_MEDIA_TYPE = ''application/vnd.openxmlformats-officedocument.spreadsheetml.sheet''"

definition DOCX_MEDIA_TYPE :: string where
  "DOCX_MEDIA_TYPE = ''application/vnd.openxmlformats-officedocument.wordprocessingml.document''"

definition PPTX_MEDIA_TYPE :: string where
  "PPTX_MEDIA_TYPE = ''application/vnd.openxmlformats-officedocument.presentationml.presentation''"

definition KNOWN_MEDIA_TYPES :: "(string \<times> string) list" where
  "KNOWN_MEDIA_TYPES =
     [(''.xlsx'', XLSX_MEDIA_TYPE), (''.docx'', DOCX_MEDIA_TYPE), (''.pptx'', PPTX_MEDIA_TYPE),
      (''.ods'', ''application/vnd.oasis.opendocument.spreadsheet''), (''.odt'', ''application/vnd.oasis.opendocument.text''),
      (''.ogg'', ''audio/ogg''), (''.webp'', ''image/webp'')]"

text \<open>\<^verbatim>\<open>PurePath(p).suffix\<close>: from the last dot of the name, unless that dot is its first or last character.\<close>

definition path_suffix :: "string \<Rightarrow> string" where
  "path_suffix p =
     (let name = path_name p;
          after = takeWhile (\<lambda>c. c \<noteq> CHR ''.'') (rev name)
      in if CHR ''.'' \<in> set name \<and> after \<noteq> [] \<and> Suc (length after) < length name then CHR ''.'' # rev after else [])"

text \<open>\<open>mimetypes_guess\<close> is \<^verbatim>\<open>mimetypes.guess_type\<close>, which depends on the host.\<close>

definition guess_media_type :: "(string \<Rightarrow> string option) \<Rightarrow> string \<Rightarrow> string option" where
  "guess_media_type mimetypes_guess filename =
     (case map_of KNOWN_MEDIA_TYPES (lower (path_suffix filename)) of Some m \<Rightarrow> Some m | None \<Rightarrow> mimetypes_guess filename)"

subsection \<open>The response\<close>

record object_stat =
  os_bucket :: string
  os_key :: string
  os_size :: nat
  os_etag :: "string option"
  os_content_type :: "string option"
  os_last_modified :: "micros option"
  os_metadata :: "(string \<times> string) list"

record download =
  dl_status :: nat
  dl_media_type :: "string option"
  dl_headers :: "(string \<times> string) list"
  dl_body :: "string list"

text \<open>
  What the response is built with: the reader and the writer of HTTP dates, the types the host knows, and the options of
  the call.
\<close>

record download_options =
  parse_date :: "string \<Rightarrow> micros option"
  format_date :: "micros \<Rightarrow> string"
  mimetypes_guess :: "string \<Rightarrow> string option"
  dl_filename :: "string option"
  dl_media :: "string option"
  dl_as_attachment :: bool
  dl_chunk_size :: nat
  dl_cache_control :: "string option"
  dl_extra_headers :: "(string \<times> string) list"

definition or_else :: "string option \<Rightarrow> string option \<Rightarrow> string option" where
  "or_else a b = (if truthy a then a else b)"

definition quoted_etag :: "object_stat \<Rightarrow> string option" where
  "quoted_etag st = (if truthy (os_etag st) then Some (CHR 0x22 # the (os_etag st) @ [CHR 0x22]) else None)"

definition set_header :: "string \<Rightarrow> string option \<Rightarrow> (string \<times> string) list \<Rightarrow> (string \<times> string) list" where
  "set_header name v headers = (case v of None \<Rightarrow> headers | Some w \<Rightarrow> dict_set name w headers)"

text \<open>The headers every answer carries.\<close>

definition base_headers :: "download_options \<Rightarrow> object_stat \<Rightarrow> (string \<times> string) list" where
  "base_headers opts st =
     set_header ''cache-control'' (dl_cache_control opts)
       (set_header ''last-modified'' (map_option (format_date opts \<circ> to_http_datetime) (os_last_modified st))
         (set_header ''etag'' (quoted_etag st)
           (dict_set ''accept-ranges'' ''bytes'' (with_security_headers (dict_of (dl_extra_headers opts))))))"

datatype plan_of_answer = NotModified | Unsatisfiable string | Serve "byte_range option"

text \<open>What the request's validators and range decide; \<open>None\<close> is the call without a request.\<close>

definition plan_answer ::
  "download_options \<Rightarrow> (string \<times> string) list option \<Rightarrow> object_stat \<Rightarrow> range_error + plan_of_answer" where
  "plan_answer opts request st = (case request of
     None \<Rightarrow> Inr (Serve None)
   | Some hs \<Rightarrow>
       if is_not_modified (parse_date opts) (header_get hs ''if-none-match'') (header_get hs ''if-modified-since'')
            (quoted_etag st) (os_last_modified st)
       then Inr NotModified
       else if if_range_allows (parse_date opts) (header_get hs ''if-range'') (quoted_etag st) (os_last_modified st)
       then (case resolve_byte_range (header_get hs ''range'') (int (os_size st)) of
               Inl (RangeNotSatisfiable sz) \<Rightarrow> Inr (Unsatisfiable (unsatisfied_range sz))
             | Inl RangeIntegerTooLong \<Rightarrow> Inl RangeIntegerTooLong
             | Inr r \<Rightarrow> Inr (Serve r))
       else Inr (Serve None))"

text \<open>
  \<open>stat\<close> and \<open>stream\<close> are the store's \<^verbatim>\<open>stat_object\<close> and \<^verbatim>\<open>stream_object\<close>; an error of theirs, or the one of an overlong
  number, leaves the call.
\<close>

datatype 'e download_error = StoreError 'e | BadNumber

definition object_download_response ::
  "(string \<Rightarrow> string option \<Rightarrow> 'e + object_stat) \<Rightarrow>
   (string \<Rightarrow> string option \<Rightarrow> nat \<Rightarrow> int \<Rightarrow> int option \<Rightarrow> 'e + string list) \<Rightarrow>
   download_options \<Rightarrow> string \<Rightarrow> string option \<Rightarrow> (string \<times> string) list option \<Rightarrow> 'e download_error + download" where
  "object_download_response stat stream opts key bucket request = (case stat key bucket of
     Inl e \<Rightarrow> Inl (StoreError e)
   | Inr st \<Rightarrow>
     (let download_name = the (or_else (dl_filename opts) (Some (last (split_on (CHR ''/'') key))));
          media = the (or_else (dl_media opts) (or_else (os_content_type st)
                    (or_else (guess_media_type (mimetypes_guess opts) download_name) (Some ''application/octet-stream''))));
          headers = base_headers opts st;
          with_name = dict_set ''content-disposition'' (build_content_disposition download_name (dl_as_attachment opts) (Some media)) headers
      in case plan_answer opts request st of
           Inl _ \<Rightarrow> Inl BadNumber
         | Inr NotModified \<Rightarrow> Inr \<lparr>dl_status = 304, dl_media_type = None, dl_headers = headers, dl_body = []\<rparr>
         | Inr (Unsatisfiable text) \<Rightarrow>
             Inr \<lparr>dl_status = 416, dl_media_type = None, dl_headers = dict_set ''content-range'' text headers, dl_body = []\<rparr>
         | Inr (Serve (Some r)) \<Rightarrow>
             (case stream key bucket (dl_chunk_size opts) (br_start r) (Some (range_length r)) of
                Inl e \<Rightarrow> Inl (StoreError e)
              | Inr chunks \<Rightarrow>
                  Inr \<lparr>dl_status = 206, dl_media_type = Some media,
                    dl_headers = dict_set ''content-length'' (int_str (range_length r))
                      (dict_set ''content-range'' (content_range r) with_name), dl_body = chunks\<rparr>)
         | Inr (Serve None) \<Rightarrow>
             (case stream key bucket (dl_chunk_size opts) 0 None of
                Inl e \<Rightarrow> Inl (StoreError e)
              | Inr chunks \<Rightarrow>
                  Inr \<lparr>dl_status = 200, dl_media_type = Some media,
                    dl_headers = (if os_size st \<noteq> 0 then dict_set ''content-length'' (int_str (int (os_size st))) with_name else with_name),
                    dl_body = chunks\<rparr>)))"

subsection \<open>The name of a download\<close>

lemma unquote_quote_all: "url_unquote (concat (map quote_char_all s)) = s"
proof (induction s)
  case (Cons c s)
  have "\<not> unreserved (CHR ''%'')" by (simp add: unreserved_def)
  then have "quote_char_all c = percent c \<or> quote_char_all c = [c] \<and> c \<noteq> CHR ''%''" by (auto simp: quote_char_all_def)
  with Cons show ?case by (auto simp: unquote_percent unquote_plain)
qed simp

lemma strip_control_chars_clean: "c \<in> set (strip_control_chars s) \<Longrightarrow> \<not> ascii_control c"
  by (induction s rule: strip_control_chars.induct) (auto split: if_splits)

lemma path_name_subset: "set (path_name p) \<subseteq> set p - {CHR ''/''}"
proof
  fix c assume c: "c \<in> set (path_name p)"
  let ?parts = "filter (\<lambda>part. part \<noteq> [] \<and> part \<noteq> ''.'') (split_on (CHR ''/'') p)"
  from c have "rev ?parts \<noteq> []" unfolding path_name_def by (intro notI) simp
  then obtain q qs where q: "rev ?parts = q # qs" "path_name p = q" unfolding path_name_def by (cases "rev ?parts") simp_all
  have "set (rev ?parts) \<subseteq> set (split_on (CHR ''/'') p)" by auto
  then have "q \<in> set (split_on (CHR ''/'') p)" unfolding q(1) by simp
  with split_on_subset split_on_pieces c [unfolded q(2)] show "c \<in> set p - {CHR ''/''}" by fastforce
qed

lemma hex_digit_unreserved: "n < 16 \<Longrightarrow> unreserved (hex_digit n)"
  by (auto simp: unreserved_def hex_digit_def Let_def)

lemma encoded_chars: "list_all (\<lambda>c. unreserved c \<or> c = CHR ''%'') (concat (map quote_char_all s))"
proof -
  have "list_all (\<lambda>c. unreserved c \<or> c = CHR ''%'') (quote_char_all c)" for c
    using hex_digit_unreserved [of "of_char c div 16"] hex_digit_unreserved [of "of_char c mod 16"]
    by (simp add: quote_char_all_def percent_def less_mult_imp_div_less)
  then show ?thesis by (induction s) simp_all
qed

lemma ascii_fallback_chars:
  assumes "\<And>c. c \<in> set s \<Longrightarrow> \<not> ascii_control c"
  shows "ascii_fallback s \<noteq> [] \<and>
    list_all (\<lambda>c. 32 \<le> (of_char c :: nat) \<and> (of_char c :: nat) < 127 \<and> c \<noteq> CHR 0x22 \<and> c \<noteq> CHR 0x5C) (ascii_fallback s)"
proof -
  have "32 \<le> (of_char c :: nat) \<and> (of_char c :: nat) < 127" if "c \<in> set s" "(of_char c :: nat) < 128" for c
    using assms [OF that(1)] that(2) by (simp add: ascii_control_def)
  then show ?thesis by (auto simp: ascii_fallback_def Let_def list_all_iff)
qed

lemma safe_name_chars:
  "safe_name filename \<noteq> []" "CHR ''/'' \<notin> set (safe_name filename)" "c \<in> set (safe_name filename) \<Longrightarrow> \<not> ascii_control c"
proof -
  let ?name = "path_name (strip_control_chars filename)"
  show "safe_name filename \<noteq> []" by (simp add: safe_name_def Let_def)
  show "CHR ''/'' \<notin> set (safe_name filename)"
    using path_name_subset [of "strip_control_chars filename"] by (auto simp: safe_name_def Let_def)
  show "\<not> ascii_control c" if "c \<in> set (safe_name filename)"
  proof (cases "?name = []")
    case True
    with that show ?thesis by (auto simp: safe_name_def ascii_control_def)
  next
    case False
    with that have "c \<in> set ?name" by (simp add: safe_name_def Let_def)
    then show ?thesis using path_name_subset [of "strip_control_chars filename"] strip_control_chars_clean by blast
  qed
qed

text \<open>
  C38. A file name cannot break out of the header: whatever the client called the file, the value is one of
  \<^verbatim>\<open>inline\<close> and \<^verbatim>\<open>attachment\<close>, a quoted name of printable ASCII without quote or backslash, and an encoded name which
  holds neither space, quote, semicolon nor control and decodes to a name without slash; and \<^verbatim>\<open>inline\<close> is
  granted only to the types of the allowlist.
\<close>

theorem disposition_is_contained:
  "\<exists>kind name encoded. build_content_disposition filename as_attachment media_type =
      kind @ ''; filename='' @ CHR 0x22 # name @ CHR 0x22 # ''; filename*=UTF-8'' @ CHR 0x27 # CHR 0x27 # encoded \<and>
    kind = (if \<not> as_attachment \<and> is_inline_safe media_type then ''inline'' else ''attachment'') \<and>
    name \<noteq> [] \<and> list_all (\<lambda>c. 32 \<le> (of_char c :: nat) \<and> (of_char c :: nat) < 127 \<and> c \<noteq> CHR 0x22 \<and> c \<noteq> CHR 0x5C) name \<and>
    list_all (\<lambda>c. unreserved c \<or> c = CHR ''%'') encoded \<and> url_unquote encoded \<noteq> [] \<and> CHR ''/'' \<notin> set (url_unquote encoded) \<and>
    (is_inline_safe media_type \<longrightarrow> (\<exists>m. media_type = Some m \<and> lower (strip (fst (partition_on (CHR '';'') m))) \<in> set INLINE_SAFE_MEDIA_TYPES))"
proof -
  have name: "ascii_fallback (safe_name filename) \<noteq> [] \<and>
      list_all (\<lambda>c. 32 \<le> (of_char c :: nat) \<and> (of_char c :: nat) < 127 \<and> c \<noteq> CHR 0x22 \<and> c \<noteq> CHR 0x5C) (ascii_fallback (safe_name filename))"
    using safe_name_chars(3) by (rule ascii_fallback_chars)
  have safe: "is_inline_safe media_type \<longrightarrow>
      (\<exists>m. media_type = Some m \<and> lower (strip (fst (partition_on (CHR '';'') m))) \<in> set INLINE_SAFE_MEDIA_TYPES)"
    unfolding is_inline_safe_def by (auto split: option.splits if_splits)
  show ?thesis
    by (rule exI [of _ "if \<not> as_attachment \<and> is_inline_safe media_type then ''inline'' else ''attachment''"],
        rule exI [of _ "ascii_fallback (safe_name filename)"], rule exI [of _ "concat (map quote_char_all (safe_name filename))"], intro conjI)
      (rule safe | simp only: build_content_disposition_def Let_def name encoded_chars unquote_quote_all safe_name_chars simp_thms)+
qed

theorem disposition_is_contained_witness:
  "\<exists>kind name encoded. build_content_disposition ''a/b.png'' False (Some ''image/png'') =
      kind @ ''; filename='' @ CHR 0x22 # name @ CHR 0x22 # ''; filename*=UTF-8'' @ CHR 0x27 # CHR 0x27 # encoded \<and>
    kind = ''inline'' \<and> url_unquote encoded \<noteq> [] \<and> CHR ''/'' \<notin> set (url_unquote encoded) \<and>
    lower (strip (fst (partition_on (CHR '';'') ''image/png''))) \<in> set INLINE_SAFE_MEDIA_TYPES"
proof -
  have "is_inline_safe (Some ''image/png'')" by code_simp
  with disposition_is_contained [of "''a/b.png''" False "Some ''image/png''"] show ?thesis by auto
qed

lemma plan_range:
  assumes "plan_answer opts request st = Inr (Serve (Some r))"
  shows "0 \<le> br_start r \<and> br_start r \<le> br_end r \<and> br_end r < int (os_size st) \<and> 0 < range_length r"
proof -
  from assms obtain h where "resolve_byte_range h (int (os_size st)) = Inr (Some r)"
    unfolding plan_answer_def by (auto split: option.splits if_splits sum.splits range_error.splits)
  then have "0 \<le> br_start r \<and> br_start r \<le> br_end r \<and> br_end r < int (os_size st)" by (rule resolved_bounds) simp
  then show ?thesis by (simp add: range_length_def)
qed

definition resume_request :: "string \<Rightarrow> nat \<Rightarrow> (string \<times> string) list" where
  "resume_request tag k =
     [(''If-Range'', CHR 0x22 # tag @ [CHR 0x22]), (''Range'', range_header (Some k) None)]"

lemma resume_headers [simp]:
  "header_get (resume_request tag k) ''if-none-match'' = None" "header_get (resume_request tag k) ''if-modified-since'' = None"
  "header_get (resume_request tag k) ''if-range'' = Some (CHR 0x22 # tag @ [CHR 0x22])"
  "header_get (resume_request tag k) ''range'' = Some (range_header (Some k) None)"
  by (simp_all add: resume_request_def lower_def lower_char_def char_of_def bit_Suc_0_iff)

lemma if_range_tag:
  assumes "etag = None \<or> (\<exists>e. etag = Some (CHR 0x22 # e @ [CHR 0x22]))"
  shows "if_range_allows parsedate (Some (CHR 0x22 # tag @ [CHR 0x22])) etag lm \<longleftrightarrow> etag = Some (CHR 0x22 # tag @ [CHR 0x22])"
proof -
  have "latin_strip (CHR 0x22 # tag @ [CHR 0x22]) = CHR 0x22 # tag @ [CHR 0x22]"
    by (rule latin_strip_id) (simp_all add: latin_space_def is_space_def)
  with assms show ?thesis by (auto simp: if_range_allows_def startswith_def)
qed

lemma quoted_etag_shape: "quoted_etag st = None \<or> (\<exists>e. quoted_etag st = Some (CHR 0x22 # e @ [CHR 0x22]))"
  by (simp add: quoted_etag_def)

lemma plan_resume:
  assumes "k < 10 ^ 19" "k < os_size st" "quoted_etag st = Some (CHR 0x22 # tag @ [CHR 0x22])"
  shows "plan_answer opts (Some (resume_request tag k)) st =
    Inr (Serve (Some \<lparr>br_start = int k, br_end = int (os_size st) - 1, br_size = int (os_size st)\<rparr>))"
proof -
  have "if_range_allows (parse_date opts) (Some (CHR 0x22 # tag @ [CHR 0x22])) (quoted_etag st) (os_last_modified st)"
    unfolding if_range_tag [OF quoted_etag_shape] by (rule assms(3))
  with assms(1,2) show ?thesis by (simp add: plan_answer_def is_not_modified_def resolve_range_header)
qed

lemma plan_changed:
  assumes "quoted_etag st \<noteq> Some (CHR 0x22 # tag @ [CHR 0x22])"
  shows "plan_answer opts (Some (resume_request tag k)) st = Inr (Serve None)"
  using assms by (simp add: plan_answer_def is_not_modified_def if_range_tag [OF quoted_etag_shape])

subsection \<open>Stores that can be downloaded from\<close>

text \<open>The bytes a range names.\<close>

definition slice :: "string \<Rightarrow> int \<Rightarrow> int \<Rightarrow> string" where
  "slice d first count = take (nat count) (drop (nat first) d)"

text \<open>
  What the response asks of a store: \<open>stat\<close> reports the size of what is there, and \<open>stream\<close> yields the bytes of the
  window it is asked for, whatever the chunks.
\<close>

locale downloadable_store =
  fixes content :: "string \<Rightarrow> string option \<Rightarrow> string option"
    and stat :: "string \<Rightarrow> string option \<Rightarrow> 'e + object_stat"
    and stream :: "string \<Rightarrow> string option \<Rightarrow> nat \<Rightarrow> int \<Rightarrow> int option \<Rightarrow> 'e + string list"
  assumes stat_content: "stat key bucket = Inr st \<Longrightarrow> \<exists>d. content key bucket = Some d \<and> os_size st = length d"
    and stream_window: "content key bucket = Some d \<Longrightarrow> 0 < chunk \<Longrightarrow> 0 \<le> first \<Longrightarrow> 0 < count \<Longrightarrow>
      \<exists>chunks. stream key bucket chunk first (Some count) = Inr chunks \<and> concat chunks = slice d first count"
    and stream_all: "content key bucket = Some d \<Longrightarrow> 0 < chunk \<Longrightarrow>
      \<exists>chunks. stream key bucket chunk 0 None = Inr chunks \<and> concat chunks = d"
begin

lemma response_cases:
  assumes "stat key bucket = Inr st" "content key bucket = Some d" "0 < dl_chunk_size opts"
  shows "(case plan_answer opts request st of
      Inl e \<Rightarrow> object_download_response stat stream opts key bucket request = Inl BadNumber
    | Inr plan \<Rightarrow> (\<exists>resp. object_download_response stat stream opts key bucket request = Inr resp \<and>
        (case plan of
           NotModified \<Rightarrow> dl_status resp = 304 \<and> dl_body resp = []
         | Unsatisfiable text \<Rightarrow> dl_status resp = 416 \<and> dl_body resp = []
         | Serve None \<Rightarrow> dl_status resp = 200 \<and> concat (dl_body resp) = d
         | Serve (Some r) \<Rightarrow> dl_status resp = 206 \<and> concat (dl_body resp) = slice d (br_start r) (range_length r) \<and>
             map_of (dl_headers resp) ''content-range'' = Some (content_range r))))"
proof (cases "plan_answer opts request st")
  case (Inl e)
  with assms(1) show ?thesis by (simp add: object_download_response_def Let_def)
next
  case (Inr plan)
  show ?thesis
  proof (cases plan)
    case (Serve r)
    show ?thesis
    proof (cases r)
      case None
      obtain chunks where "stream key bucket (dl_chunk_size opts) 0 None = Inr chunks" "concat chunks = d"
        using stream_all [OF assms(2,3)] by blast
      with assms(1) Inr Serve None show ?thesis by (simp add: object_download_response_def Let_def)
    next
      case (Some b)
      from stat_content [OF assms(1)] assms(2) have "os_size st = length d" by simp
      with Inr Serve Some have "0 \<le> br_start b" "0 < range_length b"
        using plan_range [of opts request st b] by simp_all
      then obtain chunks where "stream key bucket (dl_chunk_size opts) (br_start b) (Some (range_length b)) = Inr chunks"
        "concat chunks = slice d (br_start b) (range_length b)"
        using stream_window [OF assms(2,3)] by blast
      with assms(1) Inr Serve Some show ?thesis
        by (simp add: object_download_response_def Let_def map_of_dict_set)
    qed
  qed (use assms(1) Inr in \<open>simp_all add: object_download_response_def Let_def\<close>)
qed

lemma serves_range:
  assumes "stat key bucket = Inr st" "content key bucket = Some d" "0 < dl_chunk_size opts"
    and "plan_answer opts request st = Inr (Serve (Some r))"
  shows "\<exists>resp. object_download_response stat stream opts key bucket request = Inr resp \<and> dl_status resp = 206 \<and>
    concat (dl_body resp) = slice d (br_start r) (range_length r)"
  using response_cases [OF assms(1-3), of request] assms(4) by auto

lemma serves_whole:
  assumes "stat key bucket = Inr st" "content key bucket = Some d" "0 < dl_chunk_size opts"
    and "plan_answer opts request st = Inr (Serve None)"
  shows "\<exists>resp. object_download_response stat stream opts key bucket request = Inr resp \<and> dl_status resp = 200 \<and> concat (dl_body resp) = d"
  using response_cases [OF assms(1-3), of request] assms(4) by auto

text \<open>What a resuming client asks for: the rest from byte \<open>k\<close> on, if the object still has the tag \<open>tag\<close>.\<close>

lemma resume_same:
  assumes "stat key bucket = Inr st" "content key bucket = Some d" "0 < dl_chunk_size opts"
    and "k < length d" "k < 10 ^ 19" "quoted_etag st = Some (CHR 0x22 # tag @ [CHR 0x22])"
  shows "\<exists>resp. object_download_response stat stream opts key bucket (Some (resume_request tag k)) = Inr resp \<and>
    dl_status resp = 206 \<and> concat (dl_body resp) = drop k d"
proof -
  have "os_size st = length d" using stat_content [OF assms(1)] assms(2) by simp
  with assms(4-6) have "plan_answer opts (Some (resume_request tag k)) st =
      Inr (Serve (Some \<lparr>br_start = int k, br_end = int (length d) - 1, br_size = int (length d)\<rparr>))"
    using plan_resume [of k st tag opts] by simp
  from serves_range [OF assms(1-3) this] show ?thesis by (auto simp: range_length_def slice_def)
qed

lemma resume_changed:
  assumes "stat key bucket = Inr st" "content key bucket = Some d" "0 < dl_chunk_size opts"
    and "quoted_etag st \<noteq> Some (CHR 0x22 # tag @ [CHR 0x22])"
  shows "\<exists>resp. object_download_response stat stream opts key bucket (Some (resume_request tag k)) = Inr resp \<and>
    dl_status resp = 200 \<and> concat (dl_body resp) = d"
  using serves_whole [OF assms(1-3) plan_changed [OF assms(4)]] .

end

end
