(* ===== verification/Local_Storage.thy ===== *)
theory Local_Storage
  imports Downloads "HOL-Library.Sublist"
begin

text \<open>
  Object storage in a directory: \<^verbatim>\<open>storage/local_client.py\<close>. The disk is the list of its files and of its directories,
  by their absolute paths, with the errors POSIX answers; there are no symbolic links, and no limit of space or of
  permission. Temporary files are not part of the disk: the content of one stands for it until it is moved into place.
  MD5 is an argument.
\<close>

subsection \<open>The disk\<close>

datatype os_error = IsADirectory | NotADirectory | FileExists | NoSuchFile | DirectoryNotEmpty

record object_meta =
  om_content_type :: string
  om_metadata :: "(string \<times> string) list"
  om_etag :: string

text \<open>The bytes of an object with their time of writing, or the JSON of its metadata.\<close>

datatype stored_file = ObjectBytes string micros | MetaJson object_meta

type_synonym path = "string list"

record disk =
  dk_files :: "(path \<times> stored_file) list"
  dk_dirs :: "path list"

definition file_at :: "disk \<Rightarrow> path \<Rightarrow> stored_file option" where
  "file_at d p = map_of (dk_files d) p"

definition is_dir :: "disk \<Rightarrow> path \<Rightarrow> bool" where
  "is_dir d p \<longleftrightarrow> p \<in> set (dk_dirs d)"

text \<open>A file stands where the path needs a directory.\<close>

definition blocked :: "disk \<Rightarrow> path \<Rightarrow> bool" where
  "blocked d p \<longleftrightarrow> list_ex (\<lambda>(q, f). strict_prefix q p) (dk_files d)"

text \<open>\<^verbatim>\<open>mkdir(parents=True, exist_ok=True)\<close>.\<close>

definition make_dirs :: "path \<Rightarrow> (disk, os_error, unit) action" where
  "make_dirs p d =
     (if blocked d p then (Inl NotADirectory, d)
      else if file_at d p \<noteq> None then (Inl FileExists, d)
      else (Inr (), d\<lparr>dk_dirs := filter (\<lambda>q. \<not> is_dir d q) (prefixes p) @ dk_dirs d\<rparr>))"

text \<open>\<^verbatim>\<open>os.replace\<close> of a temporary file.\<close>

definition os_replace :: "stored_file \<Rightarrow> path \<Rightarrow> (disk, os_error, unit) action" where
  "os_replace f p d =
     (if is_dir d p then (Inl IsADirectory, d)
      else if blocked d p then (Inl NotADirectory, d)
      else if \<not> is_dir d (butlast p) then (Inl NoSuchFile, d)
      else (Inr (), d\<lparr>dk_files := dict_set p f (dk_files d)\<rparr>))"

text \<open>\<^verbatim>\<open>unlink(missing_ok=True)\<close> forgives only that there is no such file.\<close>

definition os_unlink :: "path \<Rightarrow> (disk, os_error, unit) action" where
  "os_unlink p d =
     (if is_dir d p then (Inl IsADirectory, d)
      else if blocked d p then (Inl NotADirectory, d)
      else (Inr (), d\<lparr>dk_files := filter (\<lambda>(q, f). q \<noteq> p) (dk_files d)\<rparr>))"

definition os_rmdir :: "path \<Rightarrow> (disk, os_error, unit) action" where
  "os_rmdir p d =
     (if \<not> is_dir d p then (Inl NoSuchFile, d)
      else if list_ex (\<lambda>q. strict_prefix p q) (map fst (dk_files d) @ dk_dirs d) then (Inl DirectoryNotEmpty, d)
      else (Inr (), d\<lparr>dk_dirs := filter (\<lambda>q. q \<noteq> p) (dk_dirs d)\<rparr>))"

text \<open>\<^verbatim>\<open>Path.resolve\<close> without symbolic links.\<close>

definition resolve_step :: "path \<Rightarrow> string \<Rightarrow> path" where
  "resolve_step p part =
     (if part = [] \<or> part = ''.'' then p else if part = ''..'' then butlast p else p @ [part])"

definition resolve_path :: "path \<Rightarrow> path" where
  "resolve_path parts = foldl resolve_step [] parts"

subsection \<open>The client and its names\<close>

datatype storage_error = InvalidName | InvalidArgument | ObjectNotFound | OsError os_error | StorageDisabled | FileTooLarge

record local_client =
  lc_base_dir :: path
  lc_public_url :: string
  lc_route_prefix :: string
  lc_default_bucket :: string
  lc_max_upload_bytes :: int
  lc_enabled :: bool
  lc_secret :: string

definition LOCAL_STORAGE_CHUNK_SIZE :: nat where
  "LOCAL_STORAGE_CHUNK_SIZE = 64 * 1024"

definition LOCAL_META_SUFFIX :: string where
  "LOCAL_META_SUFFIX = ''.meta.json''"

definition segment_ok :: "string \<Rightarrow> bool" where
  "segment_ok s \<longleftrightarrow> s \<noteq> [] \<and> s \<noteq> ''.'' \<and> s \<noteq> ''..'' \<and> CHR 0x5C \<notin> set s \<and> CHR 0x00 \<notin> set s \<and>
     \<not> endswith s LOCAL_META_SUFFIX"

definition check_bucket :: "string \<Rightarrow> storage_error + string" where
  "check_bucket b = (if CHR ''/'' \<in> set b \<or> startswith b ''.'' \<or> \<not> segment_ok b then Inl InvalidName else Inr b)"

definition check_key :: "string \<Rightarrow> storage_error + string" where
  "check_key k =
     (if k = [] \<or> startswith k ''/'' \<or> \<not> list_all segment_ok (split_on (CHR ''/'') k) then Inl InvalidName else Inr k)"

definition store_bucket :: "local_client \<Rightarrow> string option \<Rightarrow> storage_error + string" where
  "store_bucket c b = check_bucket (if truthy b then the b else lc_default_bucket c)"

definition inside :: "path \<Rightarrow> string \<Rightarrow> storage_error + path" where
  "inside tree relative =
     (let resolved_root = resolve_path tree;
          candidate = resolve_path (resolved_root @ split_on (CHR ''/'') relative)
      in if strict_prefix resolved_root candidate then Inr candidate else Inl InvalidName)"

definition objects_dir :: "local_client \<Rightarrow> path" where
  "objects_dir c = lc_base_dir c @ [''objects'']"

definition meta_dir :: "local_client \<Rightarrow> path" where
  "meta_dir c = lc_base_dir c @ [''meta'']"

definition object_path :: "local_client \<Rightarrow> string \<Rightarrow> string option \<Rightarrow> storage_error + path" where
  "object_path c key bucket = (case store_bucket c bucket of
     Inl e \<Rightarrow> Inl e
   | Inr target \<Rightarrow> (case check_key key of Inl e \<Rightarrow> Inl e | Inr k \<Rightarrow> inside (objects_dir c) (target @ CHR ''/'' # k)))"

definition meta_path :: "local_client \<Rightarrow> string \<Rightarrow> string option \<Rightarrow> storage_error + path" where
  "meta_path c key bucket = (case store_bucket c bucket of
     Inl e \<Rightarrow> Inl e
   | Inr target \<Rightarrow> (case check_key key of
       Inl e \<Rightarrow> Inl e | Inr k \<Rightarrow> inside (meta_dir c) (target @ CHR ''/'' # k @ LOCAL_META_SUFFIX)))"

definition rstrip_slash :: "string \<Rightarrow> string" where
  "rstrip_slash s = rstrip_char (CHR ''/'') s"

text \<open>The constructor; the directory given is already absolute.\<close>

definition make_client ::
  "path \<Rightarrow> string \<Rightarrow> string \<Rightarrow> string \<Rightarrow> string \<Rightarrow> int \<Rightarrow> bool \<Rightarrow> (disk, storage_error, local_client) action" where
  "make_client base_dir public_url signing_secret default_bucket route_prefix max_upload_bytes enabled d =
     (let cleaned_url = rstrip_slash public_url; cleaned_prefix = rstrip_slash route_prefix in
      if \<not> (startswith cleaned_url ''http://'' \<or> startswith cleaned_url ''https://'') then (Inl InvalidArgument, d)
      else if \<not> startswith cleaned_prefix ''/'' then (Inl InvalidArgument, d)
      else if max_upload_bytes < 1 then (Inl InvalidArgument, d)
      else case check_bucket default_bucket of Inl e \<Rightarrow> (Inl e, d) | Inr b \<Rightarrow>
       (let c = \<lparr>lc_base_dir = resolve_path base_dir, lc_public_url = cleaned_url, lc_route_prefix = cleaned_prefix,
                 lc_default_bucket = b, lc_max_upload_bytes = max_upload_bytes, lc_enabled = enabled, lc_secret = signing_secret\<rparr> in
        if \<not> enabled then (Inr c, d)
        else if signing_secret = [] then (Inl InvalidArgument, d)
        else case make_dirs (objects_dir c) d of
            (Inl e, d1) \<Rightarrow> (Inl (OsError e), d1)
          | (Inr _, d1) \<Rightarrow> (case make_dirs (meta_dir c) d1 of
              (Inl e, d2) \<Rightarrow> (Inl (OsError e), d2)
            | (Inr _, d2) \<Rightarrow> (case make_dirs (lc_base_dir c @ [''tmp'']) d2 of
                (Inl e, d3) \<Rightarrow> (Inl (OsError e), d3)
              | (Inr _, d3) \<Rightarrow> (Inr c, d3)))))"

subsection \<open>Reading in chunks\<close>

text \<open>The loop of \<^verbatim>\<open>_chunks\<close> and of \<^verbatim>\<open>_put_sync\<close>, over what is left of the file; no limit is \<open>None\<close>.\<close>

function read_loop :: "nat \<Rightarrow> nat option \<Rightarrow> string \<Rightarrow> string list" where
  "read_loop chunk_size remaining rest =
     (if remaining = Some 0 then []
      else let n = (case remaining of None \<Rightarrow> chunk_size | Some r \<Rightarrow> min chunk_size r);
               chunk = take n rest
           in if chunk = [] then []
              else chunk # read_loop chunk_size (map_option (\<lambda>r. r - length chunk) remaining) (drop n rest))"
  by pat_completeness auto
termination
  by (relation "measure (\<lambda>(_, _, rest). length rest)") (auto split: option.splits)

declare read_loop.simps [simp del]

text \<open>The payload of a write: bytes, or a stream which the call reads from.\<close>

datatype put_payload = RawBytes string | ByteStream string

definition payload_bytes :: "put_payload \<Rightarrow> int option \<Rightarrow> string" where
  "payload_bytes data limit = (case data of
     RawBytes bs \<Rightarrow> bs
   | ByteStream rest \<Rightarrow>
       concat (read_loop LOCAL_STORAGE_CHUNK_SIZE
         (case limit of None \<Rightarrow> None | Some n \<Rightarrow> if n < 0 then None else Some (nat n)) rest))"

subsection \<open>Writing\<close>

text \<open>\<^verbatim>\<open>_commit\<close>: the directories, then the bytes, then the metadata.\<close>

definition commit_object ::
  "local_client \<Rightarrow> string \<Rightarrow> micros \<Rightarrow> string \<Rightarrow> string option \<Rightarrow> object_meta \<Rightarrow> (disk, storage_error, unit) action" where
  "commit_object c bs now key bucket meta d = (case object_path c key bucket of
     Inl e \<Rightarrow> (Inl e, d)
   | Inr target \<Rightarrow> (case meta_path c key bucket of
       Inl e \<Rightarrow> (Inl e, d)
     | Inr meta_target \<Rightarrow> (case make_dirs (butlast target) d of
         (Inl e, d1) \<Rightarrow> (Inl (OsError e), d1)
       | (Inr _, d1) \<Rightarrow> (case make_dirs (butlast meta_target) d1 of
           (Inl e, d2) \<Rightarrow> (Inl (OsError e), d2)
         | (Inr _, d2) \<Rightarrow> (case os_replace (ObjectBytes bs now) target d2 of
             (Inl e, d3) \<Rightarrow> (Inl (OsError e), d3)
           | (Inr _, d3) \<Rightarrow> (case os_replace (MetaJson meta) meta_target d3 of
               (Inl e, d4) \<Rightarrow> (Inl (OsError e), d4)
             | (Inr _, d4) \<Rightarrow> (Inr (), d4)))))))"

definition put_object ::
  "(string \<Rightarrow> string) \<Rightarrow> local_client \<Rightarrow> micros \<Rightarrow> string \<Rightarrow> put_payload \<Rightarrow> string option \<Rightarrow> string \<Rightarrow> (string \<times> string) list \<Rightarrow>
   int option \<Rightarrow> (disk, storage_error, string) action" where
  "put_object md5 c now key data bucket content_type metadata limit d =
     (if \<not> lc_enabled c then (Inl StorageDisabled, d)
      else case object_path c key bucket of
        Inl e \<Rightarrow> (Inl e, d)
      | Inr _ \<Rightarrow>
        (let bs = payload_bytes data limit; etag = md5 bs in
         case commit_object c bs now key bucket
            \<lparr>om_content_type = content_type, om_metadata = metadata, om_etag = etag\<rparr> d of
           (Inl e, d1) \<Rightarrow> (Inl e, d1)
         | (Inr _, d1) \<Rightarrow> (Inr etag, d1)))"

text \<open>\<^verbatim>\<open>write_stream\<close>: the chunks as they arrive, refused at the first one that passes the cap.\<close>

fun collect_chunks :: "int option \<Rightarrow> string \<Rightarrow> string list \<Rightarrow> storage_error + string" where
  "collect_chunks cap written [] = Inr written"
| "collect_chunks cap written (chunk # chunks) =
     (if (case cap of None \<Rightarrow> False | Some m \<Rightarrow> m < int (length written + length chunk)) then Inl FileTooLarge
      else collect_chunks cap (written @ chunk) chunks)"

definition write_stream ::
  "(string \<Rightarrow> string) \<Rightarrow> local_client \<Rightarrow> micros \<Rightarrow> string \<Rightarrow> string list \<Rightarrow> string option \<Rightarrow> string \<Rightarrow> (string \<times> string) list \<Rightarrow>
   int option \<Rightarrow> (disk, storage_error, string) action" where
  "write_stream md5 c now key chunks bucket content_type metadata cap d =
     (if \<not> lc_enabled c then (Inl StorageDisabled, d)
      else case object_path c key bucket of
        Inl e \<Rightarrow> (Inl e, d)
      | Inr _ \<Rightarrow> (case collect_chunks cap [] chunks of
          Inl e \<Rightarrow> (Inl e, d)
        | Inr bs \<Rightarrow>
          (let etag = md5 bs in
           case commit_object c bs now key bucket
              \<lparr>om_content_type = content_type, om_metadata = metadata, om_etag = etag\<rparr> d of
             (Inl e, d1) \<Rightarrow> (Inl e, d1)
           | (Inr _, d1) \<Rightarrow> (Inr etag, d1))))"

subsection \<open>Reading\<close>

text \<open>An absent or empty content type reads as the default one; the JSON of a metadata file holds text only.\<close>

definition read_meta :: "local_client \<Rightarrow> disk \<Rightarrow> string \<Rightarrow> string option \<Rightarrow> object_meta option" where
  "read_meta c d key bucket = (case meta_path c key bucket of
     Inl _ \<Rightarrow> None
   | Inr p \<Rightarrow> (case file_at d p of
       Some (MetaJson m) \<Rightarrow>
         Some (m\<lparr>om_content_type := if om_content_type m = [] then ''application/octet-stream'' else om_content_type m\<rparr>)
     | _ \<Rightarrow> None))"

definition stat_object :: "local_client \<Rightarrow> disk \<Rightarrow> string \<Rightarrow> string option \<Rightarrow> storage_error + object_stat" where
  "stat_object c d key bucket =
     (if \<not> lc_enabled c then Inl StorageDisabled
      else case store_bucket c bucket of Inl e \<Rightarrow> Inl e | Inr target \<Rightarrow>
       (case object_path c key bucket of Inl e \<Rightarrow> Inl e | Inr p \<Rightarrow>
        (case file_at d p of
           Some (ObjectBytes bs mtime) \<Rightarrow>
             (let meta = read_meta c d key bucket in
              Inr \<lparr>os_bucket = target, os_key = key, os_size = length bs,
                os_etag = (case meta of None \<Rightarrow> None | Some m \<Rightarrow> if om_etag m = [] then None else Some (om_etag m)),
                os_content_type = map_option om_content_type meta, os_last_modified = Some mtime,
                os_metadata = (case meta of None \<Rightarrow> [] | Some m \<Rightarrow> om_metadata m)\<rparr>)
         | _ \<Rightarrow> Inl ObjectNotFound)))"

definition stream_object ::
  "local_client \<Rightarrow> disk \<Rightarrow> string \<Rightarrow> string option \<Rightarrow> nat \<Rightarrow> int \<Rightarrow> int option \<Rightarrow> storage_error + string list" where
  "stream_object c d key bucket chunk_size offset limit =
     (if \<not> lc_enabled c then Inl StorageDisabled
      else if offset < 0 then Inl InvalidArgument
      else if (case limit of None \<Rightarrow> False | Some n \<Rightarrow> n < 1) then Inl InvalidArgument
      else if chunk_size < 1 then Inl InvalidArgument
      else case object_path c key bucket of Inl e \<Rightarrow> Inl e | Inr p \<Rightarrow>
        (case file_at d p of
           Some (ObjectBytes bs _) \<Rightarrow> Inr (read_loop chunk_size (map_option nat limit) (drop (nat offset) bs))
         | _ \<Rightarrow> Inl ObjectNotFound))"

text \<open>The listing; a path below the bucket is its key, and a directory ends in a slash.\<close>

definition relative_key :: "path \<Rightarrow> path \<Rightarrow> string" where
  "relative_key tree p = join_on (CHR ''/'') (drop (length tree) p)"

definition list_objects :: "local_client \<Rightarrow> disk \<Rightarrow> string \<Rightarrow> string option \<Rightarrow> bool \<Rightarrow> storage_error + string list" where
  "list_objects c d prfx bucket recursive =
     (if \<not> lc_enabled c then Inl StorageDisabled
      else case store_bucket c bucket of Inl e \<Rightarrow> Inl e | Inr b \<Rightarrow>
       (let tree = objects_dir c @ [b] in
        if \<not> is_dir d tree then Inr []
        else if recursive then
          Inr (sort (filter (\<lambda>k. startswith k prfx) (map (relative_key tree) (filter (strict_prefix tree) (map fst (dk_files d))))))
        else
          (let parts = butlast (split_on (CHR ''/'') prfx); directory = join_on (CHR ''/'') parts;
               resolved = resolve_path tree;
               level = (if directory = [] then resolved else resolve_path (resolved @ parts)) in
           if directory \<noteq> [] \<and> \<not> list_all segment_ok parts then Inr []
           else if level \<noteq> resolved \<and> \<not> strict_prefix resolved level then Inr []
           else if \<not> is_dir d level then Inr []
           else Inr (sort (filter (\<lambda>k. startswith k prfx)
             (map (relative_key resolved) (filter (\<lambda>p. p \<noteq> [] \<and> butlast p = level) (map fst (dk_files d))) @
              map (\<lambda>p. relative_key resolved p @ ''/'') (filter (\<lambda>p. p \<noteq> [] \<and> butlast p = level) (dk_dirs d))))))))"

subsection \<open>Removing\<close>

function prune :: "path \<Rightarrow> path \<Rightarrow> disk \<Rightarrow> disk" where
  "prune parent stop d =
     (if strict_prefix stop parent
      then (case os_rmdir parent d of (Inl _, d1) \<Rightarrow> d1 | (Inr _, d1) \<Rightarrow> prune (butlast parent) stop d1)
      else d)"
  by pat_completeness auto
termination
  by (relation "measure (\<lambda>(parent, _, _). length parent)") (auto dest: prefix_length_less)

declare prune.simps [simp del]

definition remove_sync :: "local_client \<Rightarrow> string \<Rightarrow> string option \<Rightarrow> (disk, storage_error, unit) action" where
  "remove_sync c key bucket d = (case store_bucket c bucket of Inl e \<Rightarrow> (Inl e, d) | Inr target \<Rightarrow>
     (case object_path c key bucket of Inl e \<Rightarrow> (Inl e, d) | Inr p \<Rightarrow>
      (case meta_path c key bucket of Inl e \<Rightarrow> (Inl e, d) | Inr m \<Rightarrow>
       (case os_unlink p d of (Inl e, d1) \<Rightarrow> (Inl (OsError e), d1) | (Inr _, d1) \<Rightarrow>
        (case os_unlink m d1 of (Inl e, d2) \<Rightarrow> (Inl (OsError e), d2) | (Inr _, d2) \<Rightarrow>
           (Inr (), prune (butlast m) (resolve_path (meta_dir c @ [target]))
                      (prune (butlast p) (resolve_path (objects_dir c @ [target])) d2)))))))"

definition remove_object :: "local_client \<Rightarrow> string \<Rightarrow> string option \<Rightarrow> (disk, storage_error, unit) action" where
  "remove_object c key bucket d = (if \<not> lc_enabled c then (Inl StorageDisabled, d) else remove_sync c key bucket d)"

text \<open>\<^verbatim>\<open>_remove_many_sync\<close>: each distinct key in turn, and what could not go.\<close>

fun remove_many :: "local_client \<Rightarrow> string list \<Rightarrow> string option \<Rightarrow> disk \<Rightarrow> (string \<times> storage_error) list \<times> disk" where
  "remove_many c [] bucket d = ([], d)"
| "remove_many c (key # keys) bucket d =
     (let (r, d1) = remove_sync c key bucket d; (errors, d2) = remove_many c keys bucket d1 in
      ((case r of Inl e \<Rightarrow> (key, e) # errors | Inr _ \<Rightarrow> errors), d2))"

definition remove_objects ::
  "local_client \<Rightarrow> string list \<Rightarrow> string option \<Rightarrow> (disk, storage_error, (string \<times> storage_error) list) action" where
  "remove_objects c keys bucket d =
     (if \<not> lc_enabled c then (Inl StorageDisabled, d)
      else (let (errors, d1) = remove_many c (rev (remdups (rev keys))) bucket d in (Inr errors, d1)))"

end
