(* ===== verification/Local_Contents.thy ===== *)
theory Local_Contents
  imports Local_Storage
begin

text \<open>
  What the local store keeps: names give paths inside the store that never meet, every object has the metadata that
  was written with it, and every operation keeps both.
\<close>

subsection \<open>Paths\<close>

definition plain_part :: "string \<Rightarrow> bool" where
  "plain_part s \<longleftrightarrow> s \<noteq> [] \<and> s \<noteq> ''.'' \<and> s \<noteq> ''..''"

lemma segment_plain: "segment_ok s \<Longrightarrow> plain_part s"
  by (simp add: segment_ok_def plain_part_def)

lemma step_plain: "plain_part p \<Longrightarrow> resolve_step r p = r @ [p]"
  by (simp add: resolve_step_def plain_part_def)

lemma resolve_fold: "list_all plain_part ps \<Longrightarrow> foldl resolve_step r ps = r @ ps"
  by (induction ps arbitrary: r) (simp_all add: step_plain)

lemma step_keeps_plain: "list_all plain_part r \<Longrightarrow> list_all plain_part (resolve_step r p)"
  by (simp add: resolve_step_def plain_part_def list_all_iff) (metis in_set_butlastD)

lemma resolve_is_plain: "list_all plain_part (resolve_path ps)"
proof -
  have "list_all plain_part (foldl resolve_step r ps)" if "list_all plain_part r" for r
    using that by (induction ps arbitrary: r) (simp_all add: step_keeps_plain)
  then show ?thesis by (simp add: resolve_path_def)
qed

lemma resolve_plain: "list_all plain_part ps \<Longrightarrow> resolve_path (resolve_path r @ ps) = resolve_path r @ ps"
  using resolve_fold [OF resolve_is_plain, of "[]" r] resolve_fold [of ps "resolve_path r"] by (simp add: resolve_path_def)

lemma resolve_snoc: "plain_part p \<Longrightarrow> resolve_path (r @ [p]) = resolve_path r @ [p]"
  by (simp add: resolve_path_def step_plain)

definition opath :: "local_client \<Rightarrow> string \<Rightarrow> string \<Rightarrow> path" where
  "opath c b key = resolve_path (lc_base_dir c) @ ''objects'' # b # split_on (CHR ''/'') key"

definition mpath :: "local_client \<Rightarrow> string \<Rightarrow> string \<Rightarrow> path" where
  "mpath c b key = resolve_path (lc_base_dir c) @ ''meta'' # b # split_on (CHR ''/'') (key @ LOCAL_META_SUFFIX)"

definition named :: "string \<Rightarrow> string \<Rightarrow> bool" where
  "named b key \<longleftrightarrow> check_bucket b = Inr b \<and> check_key key = Inr key"

lemma named_parts:
  assumes "named b key"
  shows "CHR ''/'' \<notin> set b" "segment_ok b" "list_all segment_ok (split_on (CHR ''/'') key)"
  using assms by (auto simp: named_def check_bucket_def check_key_def split: if_splits)

lemma split_on_suffix:
  "c \<notin> set t \<Longrightarrow> split_on c (s @ t) = butlast (split_on c s) @ [last (split_on c s) @ t]"
proof (induction s)
  case Nil
  then show ?case by (simp add: split_on_plain)
next
  case (Cons x s)
  obtain p ps where "split_on c s = p # ps" by (cases "split_on c s") auto
  with Cons show ?case by auto
qed

lemma suffix_no_slash: "CHR ''/'' \<notin> set LOCAL_META_SUFFIX"
  by (simp add: LOCAL_META_SUFFIX_def)

lemmas meta_parts = split_on_suffix [OF suffix_no_slash]

lemma split_name: "CHR ''/'' \<notin> set b \<Longrightarrow> split_on (CHR ''/'') (b @ CHR ''/'' # key) = b # split_on (CHR ''/'') key"
  by (rule split_on_append)

lemma meta_parts_plain:
  assumes "named b key"
  shows "list_all plain_part (b # split_on (CHR ''/'') (key @ LOCAL_META_SUFFIX))"
proof -
  note parts = named_parts [OF assms]
  have "list_all plain_part (butlast (split_on (CHR ''/'') key))"
    using parts(3) segment_plain by (auto simp: list_all_iff dest: in_set_butlastD)
  moreover have "plain_part (s @ LOCAL_META_SUFFIX)" for s by (cases s) (auto simp: plain_part_def LOCAL_META_SUFFIX_def)
  ultimately show ?thesis using segment_plain [OF parts(2)] by (simp add: meta_parts)
qed

lemma inside_plain:
  assumes "plain_part kind" "list_all plain_part (split_on (CHR ''/'') rel)"
  shows "inside (base @ [kind]) rel = Inr (resolve_path base @ kind # split_on (CHR ''/'') rel)"
proof -
  have r: "resolve_path (base @ [kind]) = resolve_path base @ [kind]" by (rule resolve_snoc [OF assms(1)])
  note p = resolve_plain [OF assms(2), of "base @ [kind]", unfolded r]
  have "strict_prefix (resolve_path base @ [kind]) ((resolve_path base @ [kind]) @ split_on (CHR ''/'') rel)"
    unfolding strict_prefix_def by (metis append_self_conv prefix_def split_on_not_Nil)
  then have "inside (base @ [kind]) rel = Inr ((resolve_path base @ [kind]) @ split_on (CHR ''/'') rel)"
    unfolding inside_def Let_def r p by (rule if_P)
  then show ?thesis by (simp only: append.assoc append_Cons append_Nil)
qed

lemma named_paths:
  assumes "store_bucket c bucket = Inr b" "check_key key = Inr k"
  shows "named b key" "object_path c key bucket = Inr (opath c b key)" "meta_path c key bucket = Inr (mpath c b key)"
proof -
  from assms show n: "named b key" by (auto simp: named_def store_bucket_def check_bucket_def check_key_def split: if_splits)
  have k: "k = key" using assms(2) by (simp add: check_key_def split: if_splits)
  note parts = named_parts [OF n]
  have "list_all plain_part (split_on (CHR ''/'') (b @ CHR ''/'' # key))"
    using parts segment_plain by (auto simp: split_name list_all_iff)
  then show "object_path c key bucket = Inr (opath c b key)"
    using inside_plain [of "''objects''"] by (simp add: object_path_def assms k objects_dir_def opath_def plain_part_def split_name [OF parts(1)])
  have "list_all plain_part (split_on (CHR ''/'') (b @ CHR ''/'' # key @ LOCAL_META_SUFFIX))"
    using meta_parts_plain [OF n] by (simp only: split_name [OF parts(1)])
  then show "meta_path c key bucket = Inr (mpath c b key)"
    using inside_plain [of "''meta''"] by (simp add: meta_path_def assms k meta_dir_def mpath_def plain_part_def split_name [OF parts(1)])
qed

lemma path_cases:
  obtains b where "store_bucket c bucket = Inr b" "named b key" "object_path c key bucket = Inr (opath c b key)"
    "meta_path c key bucket = Inr (mpath c b key)"
  | e where "object_path c key bucket = Inl e" "meta_path c key bucket = Inl e"
proof (cases "store_bucket c bucket")
  case (Inr b)
  show thesis
  proof (cases "check_key key")
    case k: (Inr k)
    from named_paths [OF Inr k] Inr show thesis by (intro that(1))
  qed (use Inr that(2) in \<open>simp add: object_path_def meta_path_def\<close>)
qed (use that(2) in \<open>simp add: object_path_def meta_path_def\<close>)

lemma opath_inj: "opath c b key = opath c b' key' \<longleftrightarrow> b = b' \<and> key = key'"
  using split_on_inj by (auto simp: opath_def)

lemma mpath_inj: "mpath c b key = mpath c b' key' \<longleftrightarrow> b = b' \<and> key = key'"
  using split_on_inj by (fastforce simp: mpath_def)

lemma opath_not_mpath: "opath c b key \<noteq> mpath c b' key'" "mpath c b' key' \<noteq> opath c b key"
  by (auto simp: opath_def mpath_def)

lemma segment_not_suffix: "segment_ok s \<Longrightarrow> \<not> endswith s LOCAL_META_SUFFIX"
  by (simp add: segment_ok_def)

lemma suffix_endswith: "endswith (s @ LOCAL_META_SUFFIX) LOCAL_META_SUFFIX"
  by (auto simp: endswith_iff)

text \<open>No metadata file stands where the metadata of another object needs a directory.\<close>

lemma meta_never_blocks:
  assumes "named b key" "named b' key'"
  shows "\<not> strict_prefix (mpath c b key) (mpath c b' key')"
proof
  let ?suf = "\<lambda>s. endswith s LOCAL_META_SUFFIX"
  let ?parts = "\<lambda>b key. b # butlast (split_on (CHR ''/'') key)"
  let ?tip = "\<lambda>key. last (split_on (CHR ''/'') key) @ LOCAL_META_SUFFIX"
  assume "strict_prefix (mpath c b key) (mpath c b' key')"
  then have "strict_prefix (?parts b key @ [?tip key]) (?parts b' key' @ [?tip key'])"
    unfolding strict_prefix_def mpath_def meta_parts by simp
  then have "prefix (?parts b key @ [?tip key]) (?parts b' key')"
    using strict_prefix_def prefix_snoc by metis
  then have "?tip key \<in> set (?parts b' key')" by (auto simp: prefix_def)
  moreover have "list_all segment_ok (?parts b' key')"
    using named_parts(2,3) [OF assms(2)] by (auto simp: list_all_iff dest: in_set_butlastD)
  ultimately show False using segment_not_suffix suffix_endswith by (metis list_all_iff)
qed

subsection \<open>Well-formed disks\<close>

definition tree_ok :: "disk \<Rightarrow> bool" where
  "tree_ok d \<longleftrightarrow>
     (\<forall>p f. file_at d p = Some f \<longrightarrow> is_dir d (butlast p) \<and> \<not> is_dir d p) \<and>
     (\<forall>p q. is_dir d p \<longrightarrow> prefix q p \<longrightarrow> is_dir d q)"

lemma file_at_iff: "(\<exists>f. file_at d p = Some f) \<longleftrightarrow> p \<in> fst ` set (dk_files d)"
  unfolding file_at_def by (metis domD domI dom_map_of_conv_image_fst)

lemma blocked_iff: "blocked d p \<longleftrightarrow> (\<exists>q f. file_at d q = Some f \<and> strict_prefix q p)"
proof -
  have "blocked d p \<longleftrightarrow> (\<exists>q \<in> fst ` set (dk_files d). strict_prefix q p)" by (force simp: blocked_def list_ex_iff)
  then show ?thesis using file_at_iff [of d] by blast
qed

lemma prefix_butlast: "strict_prefix q p \<Longrightarrow> prefix q (butlast p)"
  by (cases p rule: rev_cases) (auto simp: strict_prefix_def)

lemma dir_not_blocked:
  assumes "tree_ok d" "is_dir d p"
  shows "\<not> blocked d p" "file_at d p = None"
  using assms by (fastforce simp: tree_ok_def blocked_iff strict_prefix_def)+

lemma make_dirs_ok:
  assumes "tree_ok d" "make_dirs p d = (Inr u, d')"
  shows "tree_ok d' \<and> dk_files d' = dk_files d \<and> (\<forall>q. is_dir d' q \<longleftrightarrow> is_dir d q \<or> prefix q p)"
proof -
  from assms(2) have nb: "\<not> blocked d p" "file_at d p = None"
    and d': "d' = d\<lparr>dk_dirs := filter (\<lambda>q. \<not> is_dir d q) (prefixes p) @ dk_dirs d\<rparr>"
    by (auto simp: make_dirs_def split: if_splits)
  have dirs: "is_dir d' q \<longleftrightarrow> is_dir d q \<or> prefix q p" for q
    unfolding d' by (auto simp: is_dir_def)
  have files: "file_at d' = file_at d" unfolding d' by (auto simp: file_at_def)
  have "file_at d q = None" if "prefix q p" for q
    using nb that blocked_iff [of d p] by (cases "q = p") (auto simp: strict_prefix_def)
  then have "tree_ok d'"
    using assms(1) unfolding tree_ok_def files dirs by (metis option.discI prefix_order.trans)
  then show ?thesis using dirs by (simp add: d')
qed

lemma make_dirs_files: "dk_files (snd (make_dirs p d)) = dk_files d"
  by (simp add: make_dirs_def)

lemma make_dirs_error: "make_dirs p d = (Inl e, d') \<Longrightarrow> d' = d"
  by (auto simp: make_dirs_def split: if_splits)

lemma os_replace_ok:
  assumes "tree_ok d" "os_replace f p d = (Inr u, d')" "p \<noteq> []"
  shows "tree_ok d' \<and> (\<forall>q. is_dir d' q \<longleftrightarrow> is_dir d q) \<and> file_at d' = (file_at d)(p \<mapsto> f)"
proof -
  from assms(2) have ok: "\<not> is_dir d p" "is_dir d (butlast p)" and d': "d' = d\<lparr>dk_files := dict_set p f (dk_files d)\<rparr>"
    by (auto simp: os_replace_def split: if_splits)
  have dirs: "is_dir d' q \<longleftrightarrow> is_dir d q" for q unfolding d' by (simp add: is_dir_def)
  have files: "file_at d' = (file_at d)(p \<mapsto> f)" unfolding d' file_at_def by (auto simp: map_of_dict_set)
  have "tree_ok d'"
    using assms(1) ok unfolding tree_ok_def files dirs by (auto split: if_splits)
  then show ?thesis using dirs files by simp
qed

lemma map_of_remove: "map_of (filter (\<lambda>(q, f). q \<noteq> p) kvs) = (map_of kvs)(p := None)"
  by (induction kvs) auto

lemma os_unlink_ok:
  assumes "tree_ok d" "os_unlink p d = (Inr u, d')"
  shows "tree_ok d' \<and> (\<forall>q. is_dir d' q \<longleftrightarrow> is_dir d q) \<and> file_at d' = (file_at d)(p := None)"
proof -
  from assms(2) have d': "d' = d\<lparr>dk_files := filter (\<lambda>(q, f). q \<noteq> p) (dk_files d)\<rparr>"
    by (auto simp: os_unlink_def split: if_splits)
  have dirs: "is_dir d' q \<longleftrightarrow> is_dir d q" for q unfolding d' by (simp add: is_dir_def)
  have files: "file_at d' = (file_at d)(p := None)" unfolding d' file_at_def by (simp add: map_of_remove)
  have "tree_ok d'" using assms(1) unfolding tree_ok_def files dirs by (auto split: if_splits)
  then show ?thesis using dirs files by simp
qed

lemma os_rmdir_ok:
  assumes "tree_ok d"
  shows "tree_ok (snd (os_rmdir p d)) \<and> dk_files (snd (os_rmdir p d)) = dk_files d \<and>
    (\<forall>q. q \<noteq> p \<longrightarrow> is_dir (snd (os_rmdir p d)) q = is_dir d q) \<and> (is_dir (snd (os_rmdir p d)) p \<longrightarrow> is_dir d p)"
proof (cases "is_dir d p \<and> \<not> list_ex (\<lambda>q. strict_prefix p q) (map fst (dk_files d) @ dk_dirs d)")
  case True
  let ?d = "d\<lparr>dk_dirs := filter (\<lambda>q. q \<noteq> p) (dk_dirs d)\<rparr>"
  have e: "snd (os_rmdir p d) = ?d" using True by (auto simp: os_rmdir_def)
  have dirs: "is_dir ?d q \<longleftrightarrow> is_dir d q \<and> q \<noteq> p" for q by (auto simp: is_dir_def)
  have files: "file_at ?d = file_at d" by (auto simp: file_at_def)
  have below: "\<not> strict_prefix p q" if "is_dir d q \<or> (\<exists>f. file_at d q = Some f)" for q
    using True that unfolding file_at_iff by (auto simp: list_ex_iff is_dir_def)
  have "butlast q \<noteq> p" if "file_at d q = Some f" for q f
    using below [of q] that assms unfolding tree_ok_def
    by (cases q rule: rev_cases) (auto simp: strict_prefix_def)
  then have "tree_ok ?d"
    using assms below unfolding tree_ok_def files dirs by (metis strict_prefixI)
  then show ?thesis unfolding e using dirs by simp
next
  case False
  then have "snd (os_rmdir p d) = d" by (auto simp: os_rmdir_def)
  then show ?thesis using assms by simp
qed

lemma prune_ok:
  "tree_ok d \<Longrightarrow> tree_ok (prune parent stop d) \<and> dk_files (prune parent stop d) = dk_files d \<and>
    (\<forall>q. is_dir (prune parent stop d) q \<longrightarrow> is_dir d q) \<and> (\<forall>q. \<not> strict_prefix stop q \<longrightarrow> is_dir (prune parent stop d) q = is_dir d q)"
proof (induction parent stop d rule: prune.induct)
  case (1 parent stop d)
  note rm = os_rmdir_ok [OF "1.prems", of parent]
  show ?case
  proof (cases "strict_prefix stop parent")
    case False
    then show ?thesis using "1.prems" by (simp add: prune.simps)
  next
    case True
    obtain r d1 where r: "os_rmdir parent d = (r, d1)" by (cases "os_rmdir parent d")
    show ?thesis
    proof (cases r)
      case (Inl e)
      then have "prune parent stop d = d1" using True r by (simp add: prune.simps [of parent])
      with rm r True show ?thesis by (metis snd_conv)
    next
      case (Inr u)
      then have p: "prune parent stop d = prune (butlast parent) stop d1" using True r by (simp add: prune.simps [of parent])
      have "tree_ok d1" using rm r by simp
      from "1.IH" [OF True r [symmetric] Inr this] rm r True show ?thesis unfolding p by (metis snd_conv)
    qed
  qed
qed

subsection \<open>Well-formed stores\<close>

definition meta_root :: "local_client \<Rightarrow> path" where
  "meta_root c = resolve_path (lc_base_dir c) @ [''meta'']"

definition paired :: "(string \<Rightarrow> string) \<Rightarrow> stored_file option \<Rightarrow> stored_file option \<Rightarrow> bool" where
  "paired md5 obj meta = (case obj of
     None \<Rightarrow> meta = None
   | Some (ObjectBytes bs t) \<Rightarrow> (case meta of Some (MetaJson m) \<Rightarrow> om_etag m = md5 bs | _ \<Rightarrow> False)
   | Some (MetaJson m) \<Rightarrow> False)"

definition store_ok :: "(string \<Rightarrow> string) \<Rightarrow> local_client \<Rightarrow> disk \<Rightarrow> bool" where
  "store_ok md5 c d \<longleftrightarrow>
     tree_ok d \<and> is_dir d (meta_root c) \<and>
     (\<forall>q. is_dir d (meta_root c @ q) \<longrightarrow> list_all (\<lambda>s. \<not> endswith s LOCAL_META_SUFFIX) q) \<and>
     (\<forall>q f. file_at d (meta_root c @ q) = Some f \<longrightarrow> q \<noteq> [] \<and> endswith (last q) LOCAL_META_SUFFIX) \<and>
     (\<forall>b key. named b key \<longrightarrow> paired md5 (file_at d (opath c b key)) (file_at d (mpath c b key)))"

lemma store_okD:
  assumes "store_ok md5 c d"
  shows "tree_ok d" "is_dir d (meta_root c)" "is_dir d (meta_root c @ q) \<Longrightarrow> list_all (\<lambda>s. \<not> endswith s LOCAL_META_SUFFIX) q"
    "file_at d (meta_root c @ q) = Some f \<Longrightarrow> q \<noteq> [] \<and> endswith (last q) LOCAL_META_SUFFIX"
    "named b key \<Longrightarrow> paired md5 (file_at d (opath c b key)) (file_at d (mpath c b key))"
  using assms by (auto simp: store_ok_def)

lemma mpath_root: "mpath c b key = meta_root c @ b # butlast (split_on (CHR ''/'') key) @ [last (split_on (CHR ''/'') key) @ LOCAL_META_SUFFIX]"
  by (simp add: mpath_def meta_root_def meta_parts)

lemma butlast_mpath: "butlast (mpath c b key) = meta_root c @ b # butlast (split_on (CHR ''/'') key)"
  by (simp add: mpath_root butlast_append)

lemma folders_ok: "named b key \<Longrightarrow> list_all segment_ok (b # butlast (split_on (CHR ''/'') key))"
  using named_parts(2,3) by (auto simp: list_all_iff dest: in_set_butlastD)

lemma list_all_prefix: "prefix q p \<Longrightarrow> list_all P p \<Longrightarrow> list_all P q"
  by (auto simp: prefix_def)

lemma opath_not_meta: "\<not> prefix (meta_root c @ q) (opath c b key)" "\<not> prefix (meta_root c @ q) (butlast (opath c b key))"
proof -
  show a: "\<not> prefix (meta_root c @ q) (opath c b key)" by (simp add: meta_root_def opath_def)
  then show "\<not> prefix (meta_root c @ q) (butlast (opath c b key))"
    using prefix_order.trans prefixeq_butlast by blast
qed

text \<open>On the way to the metadata of an object there are no files.\<close>

lemma meta_way_free:
  assumes "store_ok md5 c d" "named b key" "prefix q (butlast (mpath c b key))"
  shows "file_at d q = None"
proof (cases "prefix q (meta_root c)")
  case True
  with store_okD(1,2) [OF assms(1)] have "is_dir d q" by (auto simp: tree_ok_def)
  then show ?thesis by (rule dir_not_blocked(2) [OF store_okD(1) [OF assms(1)]])
next
  case False
  with assms(3) obtain q' where q: "q = meta_root c @ q'" "prefix q' (b # butlast (split_on (CHR ''/'') key))"
    unfolding butlast_mpath by (metis prefix_append)
  then have ok: "list_all segment_ok q'" using folders_ok [OF assms(2)] list_all_prefix by blast
  show ?thesis
  proof (rule ccontr)
    assume "file_at d q \<noteq> None"
    then have "q' \<noteq> []" "endswith (last q') LOCAL_META_SUFFIX" using store_okD(4) [OF assms(1)] q(1) by blast+
    with ok segment_not_suffix show False by (metis last_in_set list_all_iff)
  qed
qed

lemma meta_target_free:
  assumes "store_ok md5 c d" "named b key"
  shows "\<not> blocked d (mpath c b key)" "\<not> is_dir d (mpath c b key)" "\<not> blocked d (butlast (mpath c b key))"
    "file_at d (butlast (mpath c b key)) = None"
proof -
  show "\<not> blocked d (mpath c b key)"
    unfolding blocked_iff using meta_way_free [OF assms prefix_butlast] by fastforce
  show "\<not> blocked d (butlast (mpath c b key))"
    unfolding blocked_iff using meta_way_free [OF assms] by (fastforce simp: strict_prefix_def)
  show "file_at d (butlast (mpath c b key)) = None" using meta_way_free [OF assms] by blast
  show "\<not> is_dir d (mpath c b key)"
    using store_okD(3) [OF assms(1), of "b # butlast (split_on (CHR ''/'') key) @ [last (split_on (CHR ''/'') key) @ LOCAL_META_SUFFIX]"]
      suffix_endswith unfolding mpath_root by auto
qed

lemma more_dirs:
  assumes "store_ok md5 c d" "tree_ok d'" "file_at d' = file_at d" "\<And>q. is_dir d q \<Longrightarrow> is_dir d' q"
    and "\<And>q. is_dir d' (meta_root c @ q) \<Longrightarrow> list_all (\<lambda>s. \<not> endswith s LOCAL_META_SUFFIX) q"
  shows "store_ok md5 c d'"
  using assms(1,2,4,5) unfolding store_ok_def assms(3) by blast

lemma same_files: "dk_files d' = dk_files d \<Longrightarrow> file_at d' = file_at d"
  by (auto simp: file_at_def)

lemma bucket_roots:
  assumes "plain_part b"
  shows "resolve_path (objects_dir c @ [b]) = resolve_path (lc_base_dir c) @ [''objects'', b]"
    "resolve_path (meta_dir c @ [b]) = resolve_path (lc_base_dir c) @ [''meta'', b]"
  unfolding objects_dir_def meta_dir_def resolve_snoc [OF assms]
  by (simp_all add: resolve_snoc plain_part_def)

lemma make_object_dirs:
  assumes "store_ok md5 c d" "make_dirs (butlast (opath c b key)) d = (Inr u, d')"
  shows "store_ok md5 c d' \<and> file_at d' = file_at d"
proof -
  note m = make_dirs_ok [OF store_okD(1) [OF assms(1)] assms(2)]
  then have "file_at d' = file_at d" by (auto simp: file_at_def)
  moreover from this m have "store_ok md5 c d'"
    using opath_not_meta(2) store_okD(3) [OF assms(1)] by (intro more_dirs [OF assms(1)]) blast+
  ultimately show ?thesis by simp
qed

lemma make_meta_dirs:
  assumes "store_ok md5 c d" "named b key"
  obtains d' where "make_dirs (butlast (mpath c b key)) d = (Inr (), d')" "store_ok md5 c d'" "file_at d' = file_at d"
    "is_dir d' (butlast (mpath c b key))" "\<And>q. is_dir d q \<Longrightarrow> is_dir d' q"
proof -
  obtain d' where d': "make_dirs (butlast (mpath c b key)) d = (Inr (), d')"
    using meta_target_free(3,4) [OF assms] by (simp add: make_dirs_def)
  note m = make_dirs_ok [OF store_okD(1) [OF assms(1)] d']
  then have f: "file_at d' = file_at d" by (auto simp: file_at_def)
  have "list_all (\<lambda>s. \<not> endswith s LOCAL_META_SUFFIX) q" if "prefix (meta_root c @ q) (butlast (mpath c b key))" for q
  proof -
    from that have "prefix q (b # butlast (split_on (CHR ''/'') key))" unfolding butlast_mpath by simp
    from list_all_prefix [OF this folders_ok [OF assms(2)]] segment_not_suffix show ?thesis by (simp add: list_all_iff)
  qed
  then have "store_ok md5 c d'"
    using m f store_okD(3) [OF assms(1)] by (intro more_dirs [OF assms(1)]) blast+
  with d' f m that show thesis by blast
qed

subsection \<open>Every operation keeps the store\<close>

lemma opath_not_Nil: "opath c b key \<noteq> []" "mpath c b key \<noteq> []"
  by (simp_all add: opath_def mpath_def)

lemma opath_not_prefix: "\<not> prefix (opath c b key) (mpath c b' key')"
  by (simp add: opath_def mpath_def)

lemma opath_off_meta: "opath c b key \<noteq> meta_root c @ q"
  using opath_not_meta(1) [of c q b key] by force

text \<open>A disk on which the two files of one object were written.\<close>

lemma both_written:
  assumes "store_ok md5 c d" "named b key" "tree_ok d'" "\<And>q. is_dir d' q \<longleftrightarrow> is_dir d q"
    and "file_at d' = (file_at d)(opath c b key \<mapsto> ObjectBytes bs t, mpath c b key \<mapsto> MetaJson m)" "om_etag m = md5 bs"
  shows "store_ok md5 c d'"
proof -
  have "q \<noteq> [] \<and> endswith (last q) LOCAL_META_SUFFIX" if "file_at d' (meta_root c @ q) = Some f" for q f
  proof (cases "meta_root c @ q = mpath c b key")
    case True
    then show ?thesis using suffix_endswith by (simp add: mpath_root)
  next
    case False
    with that opath_off_meta [of c b key q] have "file_at d (meta_root c @ q) = Some f" by (simp add: assms(5))
    then show ?thesis by (rule store_okD(4) [OF assms(1)])
  qed
  moreover have "paired md5 (file_at d' (opath c b' key')) (file_at d' (mpath c b' key'))" if "named b' key'" for b' key'
  proof (cases "b' = b \<and> key' = key")
    case True
    then show ?thesis by (simp add: assms(5,6) opath_not_mpath paired_def)
  next
    case False
    then have "file_at d' (opath c b' key') = file_at d (opath c b' key')" "file_at d' (mpath c b' key') = file_at d (mpath c b' key')"
      by (auto simp: assms(5) opath_inj mpath_inj opath_not_mpath)
    with store_okD(5) [OF assms(1) that] show ?thesis by simp
  qed
  ultimately show ?thesis
    using assms(1,3,4) unfolding store_ok_def by blast
qed

lemma commit_ok:
  assumes "store_ok md5 c d" "store_bucket c bucket = Inr b" "check_key key = Inr k" "om_etag meta = md5 bs"
    and "commit_object c bs now key bucket meta d = (r, d')"
  shows "store_ok md5 c d' \<and> file_at d' = (case r of Inl e \<Rightarrow> file_at d
    | Inr _ \<Rightarrow> (file_at d)(opath c b key \<mapsto> ObjectBytes bs now, mpath c b key \<mapsto> MetaJson meta))"
proof -
  note paths = named_paths [OF assms(2,3)]
  obtain r1 d1 where d1: "make_dirs (butlast (opath c b key)) d = (r1, d1)" by (cases "make_dirs (butlast (opath c b key)) d")
  show ?thesis
  proof (cases r1)
    case (Inl e)
    with assms(1,5) make_dirs_error [of "butlast (opath c b key)" d e d1] d1 show ?thesis by (auto simp: commit_object_def paths)
  next
    case (Inr u)
    from make_object_dirs [OF assms(1) d1 [unfolded Inr]] have o1: "store_ok md5 c d1" "file_at d1 = file_at d" by simp_all
    from make_meta_dirs [OF o1(1) paths(1)] obtain d2 where d2: "make_dirs (butlast (mpath c b key)) d1 = (Inr (), d2)"
      "store_ok md5 c d2" "file_at d2 = file_at d" "is_dir d2 (butlast (mpath c b key))" using o1(2) by metis
    obtain r3 d3 where d3: "os_replace (ObjectBytes bs now) (opath c b key) d2 = (r3, d3)"
      by (cases "os_replace (ObjectBytes bs now) (opath c b key) d2")
    show ?thesis
    proof (cases r3)
      case Inl3: (Inl e)
      have "d3 = d2" using d3 Inl3 by (auto simp: os_replace_def split: if_splits)
      with assms(5) Inr d1 d2 d3 Inl3 show ?thesis by (auto simp: commit_object_def paths)
    next
      case Inr3: (Inr v)
      note w3 = os_replace_ok [OF store_okD(1) [OF d2(2)] d3 [unfolded Inr3] opath_not_Nil(1)]
      note free = meta_target_free(1,2) [OF d2(2) paths(1)]
      have "\<not> blocked d3 (mpath c b key)"
        using free(1) w3 opath_not_prefix [of c b key b key] by (auto simp: blocked_iff strict_prefix_def split: if_splits)
      then obtain d4 where d4: "os_replace (MetaJson meta) (mpath c b key) d3 = (Inr (), d4)"
        using w3 free(2) d2(4) by (simp add: os_replace_def)
      note w4 = os_replace_ok [OF conjunct1 [OF w3] d4 opath_not_Nil(2)]
      have "r = Inr ()" "d' = d4"
        using assms(5) Inr d1 d2(1) d3 Inr3 d4 by (simp_all add: commit_object_def paths)
      moreover have f: "file_at d4 = (file_at d)(opath c b key \<mapsto> ObjectBytes bs now, mpath c b key \<mapsto> MetaJson meta)"
        using w3 w4 d2(3) by simp
      moreover have "store_ok md5 c d4"
        using w3 w4 by (intro both_written [OF d2(2) paths(1) _ _ f [folded d2(3)] assms(4)]) simp_all
      ultimately show ?thesis by simp
    qed
  qed
qed

lemma removed_ok:
  assumes "store_ok md5 c d" "tree_ok d'" "is_dir d' (meta_root c)" "\<And>q. is_dir d' q \<Longrightarrow> is_dir d q"
    and "file_at d' = (file_at d)(opath c b key := None, mpath c b key := None)"
  shows "store_ok md5 c d'"
proof -
  have "paired md5 (file_at d' (opath c b' key')) (file_at d' (mpath c b' key'))" if "named b' key'" for b' key'
  proof (cases "b' = b \<and> key' = key")
    case True
    then show ?thesis by (simp add: assms(5) opath_not_mpath paired_def)
  next
    case False
    then have "file_at d' (opath c b' key') = file_at d (opath c b' key')" "file_at d' (mpath c b' key') = file_at d (mpath c b' key')"
      by (auto simp: assms(5) opath_inj mpath_inj opath_not_mpath)
    with store_okD(5) [OF assms(1) that] show ?thesis by simp
  qed
  moreover have "q \<noteq> [] \<and> endswith (last q) LOCAL_META_SUFFIX" if "file_at d' (meta_root c @ q) = Some f" for q f
    using that store_okD(4) [OF assms(1), of q f] by (simp add: assms(5) split: if_splits)
  ultimately show ?thesis using assms(1-4) unfolding store_ok_def by blast
qed

lemma remove_ok:
  assumes "store_ok md5 c d" "remove_sync c key bucket d = (r, d')"
  shows "store_ok md5 c d' \<and> (case r of Inl e \<Rightarrow> d' = d
    | Inr _ \<Rightarrow> \<exists>b. store_bucket c bucket = Inr b \<and> named b key \<and>
        file_at d' = (file_at d)(opath c b key := None, mpath c b key := None))"
proof (cases rule: path_cases [of c bucket key])
  case (2 e)
  then show ?thesis using assms by (auto simp: remove_sync_def split: sum.splits)
next
  case (1 b)
  show ?thesis
  proof (cases "fst (os_unlink (opath c b key) d)")
    case (Inl e)
    then have "os_unlink (opath c b key) d = (Inl e, d)" by (auto simp: os_unlink_def split: if_splits)
    with assms 1 show ?thesis by (auto simp: remove_sync_def)
  next
    case (Inr u)
    then obtain d1 where d1: "os_unlink (opath c b key) d = (Inr (), d1)" by (cases "os_unlink (opath c b key) d") auto
    note u1 = os_unlink_ok [OF store_okD(1) [OF assms(1)] d1]
    note free = meta_target_free(1,2) [OF assms(1) 1(2)]
    have "\<not> blocked d1 (mpath c b key)" using free(1) u1 by (auto simp: blocked_iff split: if_splits)
    then obtain d2 where d2: "os_unlink (mpath c b key) d1 = (Inr (), d2)" using free(2) u1 by (simp add: os_unlink_def)
    note u2 = os_unlink_ok [OF conjunct1 [OF u1] d2]
    define d3 where "d3 = prune (butlast (opath c b key)) (resolve_path (objects_dir c @ [b])) d2"
    define d4 where "d4 = prune (butlast (mpath c b key)) (resolve_path (meta_dir c @ [b])) d3"
    have res: "r = Inr ()" "d' = d4" using assms(2) 1 d1 d2 by (simp_all add: remove_sync_def d3_def d4_def)
    note p3 = prune_ok [OF conjunct1 [OF u2], of "butlast (opath c b key)" "resolve_path (objects_dir c @ [b])", folded d3_def]
    note p4 = prune_ok [OF conjunct1 [OF p3], of "butlast (mpath c b key)" "resolve_path (meta_dir c @ [b])", folded d4_def]
    have files: "file_at d4 = (file_at d)(opath c b key := None, mpath c b key := None)"
      using p3 p4 u1 u2 same_files [of d4 d2] by simp
    have b: "plain_part b" using 1(2) named_parts(2) segment_plain by blast
    have "\<not> strict_prefix (resolve_path (objects_dir c @ [b])) (meta_root c)" "\<not> strict_prefix (resolve_path (meta_dir c @ [b])) (meta_root c)"
      by (simp_all add: bucket_roots [OF b] meta_root_def strict_prefix_def)
    then have "is_dir d4 (meta_root c)" using p3 p4 u1 u2 store_okD(2) [OF assms(1)] by simp
    then have "store_ok md5 c d4"
      using p3 p4 u1 u2 by (intro removed_ok [OF assms(1) _ _ _ files]) blast+
    with res files 1 show ?thesis by auto
  qed
qed

subsection \<open>The objects as a map\<close>

type_synonym objects = "(string \<times> string) \<rightharpoonup> (string \<times> micros \<times> object_meta)"

text \<open>The objects a disk holds, by bucket and key.\<close>

definition object_in :: "stored_file option \<Rightarrow> stored_file option \<Rightarrow> (string \<times> micros \<times> object_meta) option" where
  "object_in obj meta = (case (obj, meta) of (Some (ObjectBytes bs t), Some (MetaJson m)) \<Rightarrow> Some (bs, t, m) | _ \<Rightarrow> None)"

lemma object_in_simps [simp]:
  "object_in (Some (ObjectBytes bs t)) (Some (MetaJson m)) = Some (bs, t, m)" "object_in None meta = None"
  by (simp_all add: object_in_def)

definition objects_of :: "local_client \<Rightarrow> disk \<Rightarrow> objects" where
  "objects_of c d = (\<lambda>(b, key).
     if named b key then object_in (file_at d (opath c b key)) (file_at d (mpath c b key)) else None)"

lemma objects_written:
  assumes "named b key" "file_at d' = (file_at d)(opath c b key \<mapsto> ObjectBytes bs t, mpath c b key \<mapsto> MetaJson m)"
  shows "objects_of c d' = (objects_of c d)((b, key) \<mapsto> (bs, t, m))"
proof
  fix n show "objects_of c d' n = ((objects_of c d)((b, key) \<mapsto> (bs, t, m))) n"
    using assms(1) by (cases n; cases "n = (b, key)") (auto simp: objects_of_def assms(2) opath_inj mpath_inj opath_not_mpath)
qed

lemma objects_removed:
  assumes "named b key" "file_at d' = (file_at d)(opath c b key := None, mpath c b key := None)"
  shows "objects_of c d' = (objects_of c d)((b, key) := None)"
proof
  fix n show "objects_of c d' n = ((objects_of c d)((b, key) := None)) n"
    using assms(1) by (cases n; cases "n = (b, key)") (auto simp: objects_of_def assms(2) opath_inj mpath_inj opath_not_mpath)
qed

lemma objects_same:
  assumes "file_at d' = file_at d"
  shows "objects_of c d' = objects_of c d"
  unfolding objects_of_def assms ..

text \<open>The operations that change the store, as one type.\<close>

datatype store_op =
    Put string put_payload "string option" string "(string \<times> string) list" "int option"
  | Write string "string list" "string option" string "(string \<times> string) list" "int option"
  | Remove string "string option"
  | RemoveMany "string list" "string option"

fun store_step :: "(string \<Rightarrow> string) \<Rightarrow> local_client \<Rightarrow> micros \<times> store_op \<Rightarrow> disk \<Rightarrow> disk" where
  "store_step md5 c (now, Put key data bucket ctype meta limit) d = snd (put_object md5 c now key data bucket ctype meta limit d)"
| "store_step md5 c (now, Write key chunks bucket ctype meta cap) d = snd (write_stream md5 c now key chunks bucket ctype meta cap d)"
| "store_step md5 c (now, Remove key bucket) d = snd (remove_object c key bucket d)"
| "store_step md5 c (now, RemoveMany keys bucket) d = snd (remove_objects c keys bucket d)"

definition run_store :: "(string \<Rightarrow> string) \<Rightarrow> local_client \<Rightarrow> (micros \<times> store_op) list \<Rightarrow> disk \<Rightarrow> disk" where
  "run_store md5 c ops d = fold (store_step md5 c) ops d"

lemma put_ok:
  assumes "store_ok md5 c d" "put_object md5 c now key data bucket ctype metadata limit d = (r, d')"
  shows "store_ok md5 c d' \<and> (case r of
      Inl e \<Rightarrow> objects_of c d' = objects_of c d
    | Inr etag \<Rightarrow> \<exists>b. store_bucket c bucket = Inr b \<and> named b key \<and> etag = md5 (payload_bytes data limit) \<and>
        objects_of c d' = (objects_of c d)((b, key) \<mapsto> (payload_bytes data limit, now,
          \<lparr>om_content_type = ctype, om_metadata = metadata, om_etag = md5 (payload_bytes data limit)\<rparr>)))"
proof (cases rule: path_cases [of c bucket key])
  case (2 e)
  with assms show ?thesis by (auto simp: put_object_def split: if_splits)
next
  case (1 b)
  let ?bs = "payload_bytes data limit"
  let ?m = "\<lparr>om_content_type = ctype, om_metadata = metadata, om_etag = md5 ?bs\<rparr>"
  obtain r1 d1 where c1: "commit_object c ?bs now key bucket ?m d = (r1, d1)" by (cases "commit_object c ?bs now key bucket ?m d")
  have k: "check_key key = Inr key" and e: "om_etag ?m = md5 ?bs" using 1(2) by (simp_all add: named_def)
  note ok = commit_ok [OF assms(1) 1(1) k e c1]
  show ?thesis
  proof (cases "lc_enabled c")
    case False
    with assms show ?thesis by (auto simp: put_object_def)
  next
    case True
    have w: "put_object md5 c now key data bucket ctype metadata limit d =
        (case r1 of Inl e \<Rightarrow> (Inl e, d1) | Inr _ \<Rightarrow> (Inr (md5 ?bs), d1))"
      using True by (simp add: put_object_def Let_def 1(3) c1)
    show ?thesis
    proof (cases r1)
      case (Inl e)
      with assms(2) w have r: "r = Inl e" "d' = d1" by simp_all
      from ok Inl have "store_ok md5 c d1" "file_at d1 = file_at d" by simp_all
      with objects_same [OF this(2), of c] show ?thesis unfolding r by simp
    next
      case (Inr u)
      with assms(2) w have r: "r = Inr (md5 ?bs)" "d' = d1" by simp_all
      from ok Inr have s: "store_ok md5 c d1"
        and f: "file_at d1 = (file_at d)(opath c b key \<mapsto> ObjectBytes ?bs now, mpath c b key \<mapsto> MetaJson ?m)"
        by simp_all
      from s objects_written [OF 1(2) f] 1(1,2) show ?thesis unfolding r by simp
    qed
  qed
qed

lemma collected_bytes: "collect_chunks limit written chunks = Inr bs \<Longrightarrow> bs = written @ concat chunks"
  by (induction chunks arbitrary: written) (fastforce split: if_splits)+

lemma collected_within: "collect_chunks (Some m) written chunks = Inr bs \<Longrightarrow> int (length written) \<le> m \<Longrightarrow> int (length bs) \<le> m"
  by (induction chunks arbitrary: written) (auto split: if_splits)

lemma collected_cap: "collect_chunks (Some m) written chunks = Inr bs \<Longrightarrow> chunks \<noteq> [] \<Longrightarrow> int (length bs) \<le> m"
  using collected_within [of m "written @ hd chunks" "tl chunks" bs] by (cases chunks) (auto split: if_splits)

lemma write_ok:
  assumes "store_ok md5 c d" "write_stream md5 c now key chunks bucket ctype metadata limit d = (r, d')"
  shows "store_ok md5 c d' \<and> (case r of
      Inl e \<Rightarrow> objects_of c d' = objects_of c d
    | Inr etag \<Rightarrow> \<exists>b. store_bucket c bucket = Inr b \<and> named b key \<and> etag = md5 (concat chunks) \<and>
        (\<forall>m. limit = Some m \<and> chunks \<noteq> [] \<longrightarrow> int (length (concat chunks)) \<le> m) \<and>
        objects_of c d' = (objects_of c d)((b, key) \<mapsto> (concat chunks, now,
          \<lparr>om_content_type = ctype, om_metadata = metadata, om_etag = md5 (concat chunks)\<rparr>)))"
proof (cases rule: path_cases [of c bucket key])
  case (2 e)
  with assms show ?thesis by (auto simp: write_stream_def split: if_splits)
next
  case (1 b)
  show ?thesis
  proof (cases "lc_enabled c \<and> (\<exists>bs. collect_chunks limit [] chunks = Inr bs)")
    case False
    then obtain e where "write_stream md5 c now key chunks bucket ctype metadata limit d = (Inl e, d)"
      using 1(3) by (cases "collect_chunks limit [] chunks"; cases "lc_enabled c") (simp_all add: write_stream_def)
    with assms(1,2) show ?thesis by auto
  next
    case True
    then obtain bs where bs: "collect_chunks limit [] chunks = Inr bs" by blast
    note collected = collected_bytes [OF bs, simplified]
    let ?m = "\<lparr>om_content_type = ctype, om_metadata = metadata, om_etag = md5 bs\<rparr>"
    obtain r1 d1 where c1: "commit_object c bs now key bucket ?m d = (r1, d1)" by (cases "commit_object c bs now key bucket ?m d")
    have k: "check_key key = Inr key" and e: "om_etag ?m = md5 bs" using 1(2) by (simp_all add: named_def)
    note ok = commit_ok [OF assms(1) 1(1) k e c1]
    have w: "write_stream md5 c now key chunks bucket ctype metadata limit d =
        (case r1 of Inl e \<Rightarrow> (Inl e, d1) | Inr _ \<Rightarrow> (Inr (md5 bs), d1))"
      using True by (simp add: write_stream_def Let_def bs 1(3) c1)
    show ?thesis
    proof (cases r1)
      case (Inl e)
      with assms(2) w have r: "r = Inl e" "d' = d1" by simp_all
      from ok Inl have "store_ok md5 c d1" "file_at d1 = file_at d" by simp_all
      with objects_same [OF this(2), of c] show ?thesis unfolding r by simp
    next
      case (Inr u)
      with assms(2) w have r: "r = Inr (md5 bs)" "d' = d1" by simp_all
      from ok Inr have s: "store_ok md5 c d1"
        and f: "file_at d1 = (file_at d)(opath c b key \<mapsto> ObjectBytes bs now, mpath c b key \<mapsto> MetaJson ?m)"
        by simp_all
      have "int (length (concat chunks)) \<le> m" if "limit = Some m" "chunks \<noteq> []" for m
        using collected_cap [of m "[]" chunks bs] that bs collected by simp
      with s objects_written [OF 1(2) f] 1(1,2) show ?thesis unfolding r collected by simp
    qed
  qed
qed

lemma remove_objects_map:
  assumes "store_ok md5 c d" "remove_sync c key bucket d = (r, d')"
  shows "store_ok md5 c d' \<and> (case r of Inl e \<Rightarrow> objects_of c d' = objects_of c d
    | Inr _ \<Rightarrow> \<exists>b. store_bucket c bucket = Inr b \<and> named b key \<and> objects_of c d' = (objects_of c d)((b, key) := None))"
  using remove_ok [OF assms] objects_removed by (fastforce split: sum.splits)

lemma remove_many_ok:
  "store_ok md5 c d \<Longrightarrow> remove_many c keys bucket d = (errors, d') \<Longrightarrow>
     store_ok md5 c d' \<and> (\<forall>n. objects_of c d' n = objects_of c d n \<or>
       (objects_of c d' n = None \<and> store_bucket c bucket = Inr (fst n) \<and> snd n \<in> set keys))"
proof (induction keys arbitrary: d errors)
  case (Cons key keys)
  obtain r d1 where r: "remove_sync c key bucket d = (r, d1)" by (cases "remove_sync c key bucket d")
  obtain errs d2 where rest: "remove_many c keys bucket d1 = (errs, d2)" by (cases "remove_many c keys bucket d1")
  with Cons.prems(2) r have d2: "d2 = d'" by simp
  from remove_objects_map [OF Cons.prems(1) r] have s: "store_ok md5 c d1"
    and o: "\<forall>n. objects_of c d1 n = objects_of c d n \<or>
      (objects_of c d1 n = None \<and> store_bucket c bucket = Inr (fst n) \<and> snd n = key)"
    by (auto split: sum.splits if_splits)
  from Cons.IH [OF s rest [unfolded d2]] o show ?case by (metis list.set_intros)
qed simp

lemma step_ok: "store_ok md5 c d \<Longrightarrow> store_ok md5 c (store_step md5 c nop d)"
proof (cases "(md5, c, nop, d)" rule: store_step.cases)
  case (1 md5' c' now key data bucket ctype meta limit d')
  assume "store_ok md5 c d"
  from put_ok [OF this, of now key data bucket ctype meta limit] 1 show ?thesis
    by (cases "put_object md5 c now key data bucket ctype meta limit d") auto
next
  case (2 md5' c' now key chunks bucket ctype meta limit d')
  assume "store_ok md5 c d"
  from write_ok [OF this, of now key chunks bucket ctype meta limit] 2 show ?thesis
    by (cases "write_stream md5 c now key chunks bucket ctype meta limit d") auto
next
  case (3 md5' c' now key bucket d')
  assume "store_ok md5 c d"
  from remove_ok [OF this, of key bucket] this 3 show ?thesis
    by (cases "remove_sync c key bucket d") (auto simp: remove_object_def)
next
  case (4 md5' c' now keys bucket d')
  assume "store_ok md5 c d"
  from remove_many_ok [OF this, of "rev (remdups (rev keys))" bucket] this 4 show ?thesis
    by (cases "remove_many c (rev (remdups (rev keys))) bucket d") (auto simp: remove_objects_def)
qed

lemma run_ok: "store_ok md5 c d \<Longrightarrow> store_ok md5 c (run_store md5 c ops d)"
  unfolding run_store_def by (induction ops arbitrary: d) (simp_all add: step_ok)

subsection \<open>A new store\<close>

lemma resolve_idem: "resolve_path (resolve_path p) = resolve_path p"
  using resolve_plain [of "[]" p] by simp

definition fresh_base :: "path \<Rightarrow> disk \<Rightarrow> bool" where
  "fresh_base base d \<longleftrightarrow>
     tree_ok d \<and> list_all (\<lambda>p. \<not> strict_prefix (resolve_path base) p) (map fst (dk_files d) @ dk_dirs d)"

lemma fresh_base_free:
  assumes "fresh_base base d" "strict_prefix (resolve_path base) p"
  shows "\<not> is_dir d p" "file_at d p = None"
proof -
  from assms show "\<not> is_dir d p" by (auto simp: fresh_base_def is_dir_def list_all_iff)
  from assms have "p \<notin> fst ` set (dk_files d)" by (auto simp: fresh_base_def list_all_iff)
  then show "file_at d p = None" using file_at_iff [of d p] by (cases "file_at d p") auto
qed

lemma make_client_ok:
  assumes "make_client base url secret bucket route_pre most on d = (Inr c, d')" "fresh_base base d" "lc_enabled c"
  shows "store_ok md5 c d' \<and> objects_of c d' = Map.empty"
proof -
  have "on" using assms(1,3) by (auto simp: make_client_def Let_def split: if_splits sum.splits prod.splits)
  with assms(1) obtain d1 d2 where c: "lc_base_dir c = resolve_path base"
    and m: "make_dirs (objects_dir c) d = (Inr (), d1)" "make_dirs (meta_dir c) d1 = (Inr (), d2)"
      "make_dirs (lc_base_dir c @ [''tmp'']) d2 = (Inr (), d')"
    by (auto simp: make_client_def Let_def split: if_splits sum.splits prod.splits)
  have t: "tree_ok d" using assms(2) by (simp add: fresh_base_def)
  note m1 = make_dirs_ok [OF t m(1)]
  note m2 = make_dirs_ok [OF conjunct1 [OF m1] m(2)]
  note m3 = make_dirs_ok [OF conjunct1 [OF m2] m(3)]
  have f: "file_at d' = file_at d" using m1 m2 m3 same_files [of d' d] by simp
  have root: "meta_root c = resolve_path base @ [''meta'']" "meta_dir c = resolve_path base @ [''meta'']" "objects_dir c = resolve_path base @ [''objects'']"
    by (simp_all add: meta_root_def meta_dir_def objects_dir_def c resolve_idem)
  have below: "strict_prefix (resolve_path base) (resolve_path base @ x # q)" for x q by (simp add: strict_prefix_def)
  have dirs: "q = []" if "is_dir d' (meta_root c @ q)" for q
    using that m1 m2 m3 fresh_base_free(1) [OF assms(2) below, of "''meta''" q] unfolding root c by (auto simp: prefix_Cons)
  have none: "file_at d' (opath c b key) = None" "file_at d' (mpath c b key) = None" for b key
    using fresh_base_free(2) [OF assms(2) below] by (simp_all add: f opath_def mpath_def c resolve_idem)
  have metas: "file_at d' (meta_root c @ q) = None" for q
    using fresh_base_free(2) [OF assms(2) below, of "''meta''" q] by (simp add: f root)
  have "is_dir d' (meta_root c)" using m2 m3 by (simp add: root)
  moreover have "list_all (\<lambda>s. \<not> endswith s LOCAL_META_SUFFIX) q" if "is_dir d' (meta_root c @ q)" for q
    using dirs [OF that] by simp
  ultimately have "store_ok md5 c d'" using conjunct1 [OF m3] unfolding store_ok_def none metas by (simp add: paired_def)
  then show ?thesis by (auto simp: objects_of_def none)
qed

subsection \<open>Reading back\<close>

lemma concat_read_loop:
  "0 < n \<Longrightarrow> concat (read_loop n remaining rest) = (case remaining of None \<Rightarrow> rest | Some r \<Rightarrow> take r rest)"
proof (induction n remaining rest rule: read_loop.induct)
  case (1 n remaining rest)
  show ?case
  proof (cases remaining)
    case None
    with 1 show ?thesis by (cases "rest = []") (auto simp: read_loop.simps [of n])
  next
    case (Some r)
    show ?thesis
    proof (cases "r = 0 \<or> rest = []")
      case True
      with Some show ?thesis by (auto simp: read_loop.simps [of n])
    next
      case False
      let ?k = "min n r"
      have ih: "concat (read_loop n (Some (r - length (take ?k rest))) (drop ?k rest)) = take (r - length (take ?k rest)) (drop ?k rest)"
        using "1.IH" [OF _ refl refl] False Some "1.prems" by simp
      have "read_loop n (Some r) rest = take ?k rest # read_loop n (Some (r - length (take ?k rest))) (drop ?k rest)"
        using False "1.prems" by (subst read_loop.simps) (simp add: Let_def)
      then have "concat (read_loop n (Some r) rest) = take ?k rest @ take (r - length (take ?k rest)) (drop ?k rest)"
        by (simp only: concat.simps ih)
      also have "\<dots> = take r rest"
        using take_add [of ?k "r - ?k" rest] by (cases "?k \<le> length rest") auto
      finally show ?thesis by (simp add: Some)
    qed
  qed
qed

definition content_of :: "local_client \<Rightarrow> disk \<Rightarrow> string \<Rightarrow> string option \<Rightarrow> string option" where
  "content_of c d key bucket =
     (if \<not> lc_enabled c then None
      else case object_path c key bucket of Inl _ \<Rightarrow> None
      | Inr p \<Rightarrow> (case file_at d p of Some (ObjectBytes bs _) \<Rightarrow> Some bs | _ \<Rightarrow> None))"

interpretation ls: downloadable_store "content_of c d" "stat_object c d" "stream_object c d" for c d
proof
  fix key bucket st
  assume "stat_object c d key bucket = Inr st"
  then show "\<exists>bs. content_of c d key bucket = Some bs \<and> os_size st = length bs"
    by (auto simp: stat_object_def content_of_def Let_def split: if_splits sum.splits option.splits stored_file.splits)
next
  fix key bucket bs and chunk :: nat and first count :: int
  assume "content_of c d key bucket = Some bs" "0 < chunk" "0 \<le> first" "0 < count"
  then show "\<exists>chunks. stream_object c d key bucket chunk first (Some count) = Inr chunks \<and> concat chunks = slice bs first count"
    by (auto simp: stream_object_def content_of_def concat_read_loop slice_def split: if_splits sum.splits option.splits stored_file.splits)
next
  fix key bucket bs and chunk :: nat
  assume "content_of c d key bucket = Some bs" "0 < chunk"
  then show "\<exists>chunks. stream_object c d key bucket chunk 0 None = Inr chunks \<and> concat chunks = bs"
    by (auto simp: stream_object_def content_of_def concat_read_loop split: if_splits sum.splits option.splits stored_file.splits)
qed

end
