(* ===== verification/Stored_Objects.thy ===== *)
theory Stored_Objects
  imports Local_Contents
begin

text \<open>
  What the local store promises: names that stay apart and inside, a map from names to objects behind the files, and
  downloads that serve exactly what is stored, also when they are resumed after the object changed.
\<close>

text \<open>
  C36. A key cannot leave its bucket, and two objects never share a file: the path of an accepted name lies below the
  directory of its bucket, another name gives another path, no metadata file is an object's, and none stands where the
  metadata of another object needs a directory.
\<close>

theorem object_names_stay_apart:
  assumes "object_path c key bucket = Inr p" "object_path c key' bucket' = Inr p'"
  shows "\<exists>b b' m m'. store_bucket c bucket = Inr b \<and> store_bucket c bucket' = Inr b' \<and>
    meta_path c key bucket = Inr m \<and> meta_path c key' bucket' = Inr m' \<and>
    strict_prefix (resolve_path (lc_base_dir c) @ [''objects'', b]) p \<and> strict_prefix (resolve_path (lc_base_dir c) @ [''meta'', b]) m \<and>
    list_all plain_part (drop (length (resolve_path (lc_base_dir c))) p) \<and>
    (p = p' \<longleftrightarrow> b = b' \<and> key = key') \<and> (m = m' \<longleftrightarrow> p = p') \<and> p \<noteq> m' \<and> \<not> strict_prefix m m'"
proof -
  from assms obtain b b' where b: "store_bucket c bucket = Inr b" "named b key" "p = opath c b key" "meta_path c key bucket = Inr (mpath c b key)"
    and b': "store_bucket c bucket' = Inr b'" "named b' key'" "p' = opath c b' key'" "meta_path c key' bucket' = Inr (mpath c b' key')"
    by (cases rule: path_cases [of c bucket key]; cases rule: path_cases [of c bucket' key']) auto
  have "list_all plain_part (b # split_on (CHR ''/'') key)"
    using named_parts [OF b(2)] segment_plain by (auto simp: list_all_iff)
  then have "list_all plain_part (drop (length (resolve_path (lc_base_dir c))) p)" by (simp add: b(3) opath_def plain_part_def)
  moreover have "strict_prefix (resolve_path (lc_base_dir c) @ [''objects'', b]) p"
    "strict_prefix (resolve_path (lc_base_dir c) @ [''meta'', b]) (mpath c b key)"
    by (simp_all add: b(3) opath_def mpath_def strict_prefix_def not_sym [OF split_on_not_Nil])
  ultimately show ?thesis
    using b b' meta_never_blocks [OF b(2) b'(2)] by (auto simp: opath_inj mpath_inj opath_not_mpath)
qed

definition sample_store_client :: local_client where
  "sample_store_client = \<lparr>lc_base_dir = [''srv''], lc_public_url = ''https://a'', lc_route_prefix = ''/storage'', lc_default_bucket = ''up'',
     lc_max_upload_bytes = 100, lc_enabled = True, lc_secret = ''k''\<rparr>"

lemma sample_path: "object_path sample_store_client ''a/b'' None = Inr [''srv'', ''objects'', ''up'', ''a'', ''b'']"
  by (simp add: object_path_def store_bucket_def sample_store_client_def check_bucket_def check_key_def segment_ok_def endswith_def startswith_def
    LOCAL_META_SUFFIX_def truthy_def inside_def Let_def objects_dir_def resolve_path_def resolve_step_def strict_prefix_def)

theorem object_names_stay_apart_witness:
  "\<exists>b b' m m'. store_bucket sample_store_client None = Inr b \<and> store_bucket sample_store_client None = Inr b' \<and>
    meta_path sample_store_client ''a/b'' None = Inr m \<and> meta_path sample_store_client ''a/b'' None = Inr m' \<and> m = m' \<and> \<not> strict_prefix m m'"
  using object_names_stay_apart [OF sample_path sample_path] by auto


definition empty_disk :: disk where
  "empty_disk = \<lparr>dk_files = [], dk_dirs = [[]]\<rparr>"

definition sample_disk :: disk where
  "sample_disk = \<lparr>dk_files = [], dk_dirs = [[''srv'', ''tmp''], [''srv'', ''meta''], [''srv''], [''srv'', ''objects''], []]\<rparr>"

lemma sample_made:
  "make_client [''srv''] ''https://a/'' ''k'' ''up'' ''/storage'' 100 True empty_disk = (Inr sample_store_client, sample_disk)"
  by (simp add: make_client_def Let_def rstrip_slash_def rstrip_char_def startswith_def check_bucket_def segment_ok_def endswith_def
    LOCAL_META_SUFFIX_def sample_store_client_def resolve_path_def resolve_step_def objects_dir_def meta_dir_def make_dirs_def blocked_def
    file_at_def is_dir_def empty_disk_def sample_disk_def)

lemma sample_fresh: "fresh_base [''srv''] empty_disk"
  by (simp add: empty_disk_def fresh_base_def tree_ok_def file_at_def is_dir_def strict_prefix_def prefix_def)

definition sample_ops :: "(micros \<times> store_op) list" where
  "sample_ops = [(1, Put ''a/b'' (RawBytes ''hi'') None ''text/plain'' [] None)]"


subsection \<open>Serving what is stored\<close>

lemma stored_stat:
  assumes "lc_enabled c" "store_bucket c bucket = Inr b" "named b key" "objects_of c d (b, key) = Some (bs, t, m)"
  shows "content_of c d key bucket = Some bs"
    "\<exists>st. stat_object c d key bucket = Inr st \<and> os_etag st = (if om_etag m = [] then None else Some (om_etag m)) \<and>
      os_size st = length bs \<and> os_last_modified st = Some t"
proof -
  have "check_key key = Inr key" using assms(3) by (simp add: named_def)
  note paths = named_paths(2,3) [OF assms(2) this]
  from assms(3,4) have f: "file_at d (opath c b key) = Some (ObjectBytes bs t)" "file_at d (mpath c b key) = Some (MetaJson m)"
    by (auto simp: objects_of_def object_in_def split: option.splits stored_file.splits)
  show "content_of c d key bucket = Some bs" by (simp add: content_of_def assms(1) paths f)
  show "\<exists>st. stat_object c d key bucket = Inr st \<and> os_etag st = (if om_etag m = [] then None else Some (om_etag m)) \<and>
      os_size st = length bs \<and> os_last_modified st = Some t"
    by (simp add: stat_object_def Let_def read_meta_def assms(1,2) paths f)
qed

lemma stored_tag: "store_ok md5 c d \<Longrightarrow> objects_of c d (b, key) = Some (bs, t, m) \<Longrightarrow> om_etag m = md5 bs"
  using store_okD(5) [of md5 c d b key]
  by (auto simp: objects_of_def object_in_def paired_def split: if_splits option.splits stored_file.splits)

text \<open>
  C37. What was written is what a download serves: after a write that succeeded, the whole object is answered with
  status 200, its bytes in order whatever the size of the chunks, and its digest as entity tag.
\<close>

theorem written_object_is_served:
  assumes "make_client base url secret dflt route_pre most True d0 = (Inr c, d1)" "fresh_base base d0"
    and "put_object md5 c now key data bucket ctype metadata limit (run_store md5 c ops d1) = (Inr etag, d')"
    and "0 < dl_chunk_size opts" "md5 (payload_bytes data limit) \<noteq> []"
  shows "\<exists>resp. object_download_response (stat_object c d') (stream_object c d') opts key bucket None = Inr resp \<and>
    dl_status resp = 200 \<and> concat (dl_body resp) = payload_bytes data limit \<and>
    map_of (dl_headers resp) ''etag'' = Some (CHR 0x22 # md5 (payload_bytes data limit) @ [CHR 0x22])"
proof -
  have on: "lc_enabled c" using assms(1) by (auto simp: make_client_def Let_def split: if_splits sum.splits prod.splits)
  have ok: "store_ok md5 c (run_store md5 c ops d1)" using make_client_ok [OF assms(1,2) on] by (intro run_ok) simp
  from put_ok [OF ok assms(3)] obtain b where b: "store_bucket c bucket = Inr b" "named b key"
    and o: "objects_of c d' (b, key) = Some (payload_bytes data limit, now,
      \<lparr>om_content_type = ctype, om_metadata = metadata, om_etag = md5 (payload_bytes data limit)\<rparr>)" by auto
  note stored = stored_stat [OF on b o]
  then obtain st where st: "stat_object c d' key bucket = Inr st" "os_etag st = Some (md5 (payload_bytes data limit))"
    using assms(5) by auto
  have plan: "plan_answer opts None st = Inr (Serve None)" by (simp add: plan_answer_def)
  obtain chunks where "stream_object c d' key bucket (dl_chunk_size opts) 0 None = Inr chunks" "concat chunks = payload_bytes data limit"
    using ls.stream_all [OF stored(1) assms(4)] by blast
  with st plan assms(5) show ?thesis
    by (auto simp: object_download_response_def Let_def base_headers_def set_header_def map_of_dict_set quoted_etag_def truthy_def
      split: option.splits)
qed

definition sample_md5 :: "string \<Rightarrow> string" where
  "sample_md5 s = CHR ''m'' # s"

definition sample_options :: download_options where
  "sample_options = \<lparr>parse_date = (\<lambda>_. None), format_date = (\<lambda>_. ''date''), mimetypes_guess = (\<lambda>_. None), dl_filename = None,
     dl_media = None, dl_as_attachment = True, dl_chunk_size = 4, dl_cache_control = None, dl_extra_headers = []\<rparr>"

lemma sample_put:
  "\<exists>d. put_object sample_md5 sample_store_client 1 ''a'' (RawBytes ''hello'') None ''text/plain'' [] None (run_store sample_md5 sample_store_client [] sample_disk)
     = (Inr ''mhello'', d)"
  by (simp add: run_store_def sample_disk_def put_object_def object_path_def store_bucket_def sample_store_client_def check_bucket_def check_key_def
    segment_ok_def endswith_def startswith_def LOCAL_META_SUFFIX_def truthy_def inside_def Let_def objects_dir_def resolve_path_def
    resolve_step_def strict_prefix_def payload_bytes_def commit_object_def meta_path_def meta_dir_def make_dirs_def blocked_def
    file_at_def is_dir_def os_replace_def sample_md5_def)

theorem written_object_is_served_witness:
  "\<exists>d resp. object_download_response (stat_object sample_store_client d) (stream_object sample_store_client d) sample_options ''a'' None None = Inr resp \<and>
    dl_status resp = 200 \<and> concat (dl_body resp) = ''hello''"
proof -
  obtain d where d: "put_object sample_md5 sample_store_client 1 ''a'' (RawBytes ''hello'') None ''text/plain'' [] None
      (run_store sample_md5 sample_store_client [] sample_disk) = (Inr ''mhello'', d)"
    using sample_put by blast
  show ?thesis
    using written_object_is_served [OF sample_made sample_fresh d, of sample_options]
    by (auto simp: payload_bytes_def sample_md5_def sample_options_def)
qed

text \<open>
  C34. A resumed download is one version of the object: a client that holds the first \<open>k\<close> bytes and asks for the rest
  under the entity tag it got, any operations later, either gets the rest of the very same bytes, or the whole of
  what is stored now.
\<close>

theorem resumed_download_is_one_version:
  assumes "make_client base url secret dflt route_pre most True d0 = (Inr c, d1)" "fresh_base base d0"
    and "objects_of c (run_store md5 c ops d1) (b, key) = Some (bs, t, m)" "store_bucket c bucket = Inr b"
    and "objects_of c (run_store md5 c more_ops (run_store md5 c ops d1)) (b, key) = Some (bs', t', m')"
    and "k < length bs" "k < 10 ^ 19" "0 < dl_chunk_size opts"
    and "\<And>s. md5 s \<noteq> []" "md5 bs = md5 bs' \<Longrightarrow> bs = bs'"
  shows "\<exists>resp. object_download_response (stat_object c (run_store md5 c more_ops (run_store md5 c ops d1)))
      (stream_object c (run_store md5 c more_ops (run_store md5 c ops d1))) opts key bucket (Some (resume_request (om_etag m) k)) = Inr resp \<and>
    (dl_status resp = 206 \<and> take k bs @ concat (dl_body resp) = bs \<and> bs' = bs \<or>
     dl_status resp = 200 \<and> concat (dl_body resp) = bs')"
proof -
  let ?d = "run_store md5 c ops d1" and ?d' = "run_store md5 c more_ops (run_store md5 c ops d1)"
  have on: "lc_enabled c" using assms(1) by (auto simp: make_client_def Let_def split: if_splits sum.splits prod.splits)
  have ok: "store_ok md5 c ?d" "store_ok md5 c ?d'" using make_client_ok [OF assms(1,2) on] run_ok by blast+
  have named: "named b key" using assms(3) by (auto simp: objects_of_def split: if_splits)
  have tags: "om_etag m = md5 bs" "om_etag m' = md5 bs'"
    using stored_tag [OF ok(1) assms(3)] stored_tag [OF ok(2) assms(5)] by simp_all
  note stored = stored_stat [OF on assms(4) named assms(5)]
  then obtain st where st: "stat_object c ?d' key bucket = Inr st" "os_etag st = Some (md5 bs')"
    using assms(9) tags(2) by auto
  then have tag: "quoted_etag st = Some (CHR 0x22 # md5 bs' @ [CHR 0x22])" using assms(9) by (simp add: quoted_etag_def truthy_def)
  show ?thesis
  proof (cases "md5 bs = md5 bs'")
    case True
    with assms(10) have "bs' = bs" by simp
    with ls.resume_same [OF st(1) stored(1) assms(8) _ assms(7), of "md5 bs"] tag assms(6) tags(1) show ?thesis by auto
  next
    case False
    with tag have "quoted_etag st \<noteq> Some (CHR 0x22 # md5 bs @ [CHR 0x22])" by simp
    from ls.resume_changed [OF st(1) stored(1) assms(8) this] tags(1) show ?thesis by auto
  qed
qed

theorem resumed_download_is_one_version_witness:
  "\<exists>d resp. object_download_response (stat_object sample_store_client d) (stream_object sample_store_client d) sample_options ''a'' None
      (Some (resume_request ''mhello'' 2)) = Inr resp \<and>
    (dl_status resp = 206 \<and> ''he'' @ concat (dl_body resp) = ''hello'' \<or> dl_status resp = 200 \<and> concat (dl_body resp) = ''hello'')"
proof -
  let ?ops = "[(1, Put ''a'' (RawBytes ''hello'') None ''text/plain'' [] None)]"
  let ?m = "\<lparr>om_content_type = ''text/plain'', om_metadata = [], om_etag = ''mhello''\<rparr>"
  obtain d where d: "put_object sample_md5 sample_store_client 1 ''a'' (RawBytes ''hello'') None ''text/plain'' [] None
      (run_store sample_md5 sample_store_client [] sample_disk) = (Inr ''mhello'', d)"
    using sample_put by blast
  then have run: "run_store sample_md5 sample_store_client ?ops sample_disk = d" by (simp add: run_store_def)
  have "lc_enabled sample_store_client" by (simp add: sample_store_client_def)
  with make_client_ok [OF sample_made sample_fresh] have ok: "store_ok sample_md5 sample_store_client (run_store sample_md5 sample_store_client [] sample_disk)"
    by (simp add: run_store_def)
  have b: "store_bucket sample_store_client None = Inr ''up''"
    by (simp add: store_bucket_def sample_store_client_def check_bucket_def segment_ok_def endswith_def startswith_def LOCAL_META_SUFFIX_def truthy_def)
  have stored: "objects_of sample_store_client (run_store sample_md5 sample_store_client ?ops sample_disk) (''up'', ''a'') = Some (''hello'', 1, ?m)"
    using put_ok [OF ok d] b by (simp add: run payload_bytes_def)
  moreover have "objects_of sample_store_client (run_store sample_md5 sample_store_client [] (run_store sample_md5 sample_store_client ?ops sample_disk)) (''up'', ''a'')
      = Some (''hello'', 1, ?m)" using stored by (simp add: run_store_def)
  ultimately show ?thesis
    using resumed_download_is_one_version [OF sample_made sample_fresh stored b, of "[]" "''hello''" 1 ?m 2 sample_options]
    by (auto simp: sample_md5_def sample_options_def numeral_2_eq_2)
qed

subsection \<open>Between the two replacements\<close>

text \<open>
  The bytes and the metadata of a write are moved into place one after the other. A reader that comes in between sees the
  new bytes under the old entity tag, so that a resumed download continues the old object with the new one.
\<close>

lemma read_between_replacements:
  assumes "store_ok md5 c d" "lc_enabled c" "store_bucket c bucket = Inr b" "named b key"
    and "objects_of c d (b, key) = Some (bs, t, m)" "om_etag m \<noteq> []"
    and "os_replace (ObjectBytes bs' now) (opath c b key) d = (Inr (), d')"
    and "k < length bs'" "k < 10 ^ 19" "0 < dl_chunk_size opts"
  shows "\<exists>resp. object_download_response (stat_object c d') (stream_object c d') opts key bucket (Some (resume_request (om_etag m) k)) = Inr resp \<and>
    dl_status resp = 206 \<and> concat (dl_body resp) = drop k bs'"
proof -
  from os_replace_ok [OF store_okD(1) [OF assms(1)] assms(7) opath_not_Nil(1)]
  have f: "file_at d' = (file_at d)(opath c b key \<mapsto> ObjectBytes bs' now)" by simp
  from assms(4,5) have "file_at d (mpath c b key) = Some (MetaJson m)"
    by (auto simp: objects_of_def object_in_def split: option.splits stored_file.splits)
  then have "objects_of c d' (b, key) = Some (bs', now, m)"
    using assms(4) by (simp add: objects_of_def f opath_not_mpath)
  note stored = stored_stat [OF assms(2-4) this]
  then obtain st where st: "stat_object c d' key bucket = Inr st" "os_etag st = Some (om_etag m)" using assms(6) by auto
  then have "quoted_etag st = Some (CHR 0x22 # om_etag m @ [CHR 0x22])" using assms(6) by (simp add: quoted_etag_def truthy_def)
  from ls.resume_same [OF st(1) stored(1) assms(10,8,9) this] show ?thesis .
qed

text \<open>Removing a key that is not stored fails when the key is the directory of another one.\<close>

lemma absent_key_can_fail_to_go:
  "fst (remove_object sample_store_client ''a'' None (run_store sample_md5 sample_store_client sample_ops sample_disk)) = Inl (OsError IsADirectory)"
  by (simp add: remove_object_def remove_sync_def os_unlink_def sample_ops_def run_store_def sample_disk_def put_object_def object_path_def
    store_bucket_def sample_store_client_def check_bucket_def check_key_def segment_ok_def endswith_def startswith_def LOCAL_META_SUFFIX_def
    truthy_def inside_def Let_def objects_dir_def resolve_path_def resolve_step_def strict_prefix_def payload_bytes_def commit_object_def
    meta_path_def meta_dir_def make_dirs_def blocked_def file_at_def is_dir_def os_replace_def sample_md5_def)

end
