(* ===== verification/Signed_Url.thy ===== *)
theory Signed_Url
  imports Url_Text
begin

text \<open>
  Signed links to the routes of the application: \<^verbatim>\<open>utils/signed_url.py\<close> and
  \<^verbatim>\<open>api/dependencies/signed_url.py\<close>. HMAC-SHA256 is an argument; what is relied on of it is that it does not meet
  twice in one code under the keys derived from one secret (\<open>collision_free\<close>). Text stands for its UTF-8 bytes.
  An instant is the number of its microseconds; \<^verbatim>\<open>timestamp()\<close> is a double, which holds them exactly enough up to
  the year 2242, the range the properties speak about.
\<close>

subsection \<open>Signing\<close>

datatype signed_url_error = EmptyMaterial | BadPath | BadLifetime | InvalidSignedURL | ExpiredSignedURL

definition SIGNED_URL_EXPIRES_PARAM :: string where
  "SIGNED_URL_EXPIRES_PARAM = ''expires''"

definition SIGNED_URL_SIGNATURE_PARAM :: string where
  "SIGNED_URL_SIGNATURE_PARAM = ''signature''"

definition KEY_DERIVATION_LABEL :: string where
  "KEY_DERIVATION_LABEL = ''tempest-fastapi-sdk.signed-url.v1'' @ [CHR 0x00]"

definition require_material :: "string \<Rightarrow> string \<Rightarrow> bool" where
  "require_material secret purpose \<longleftrightarrow> secret \<noteq> [] \<and> purpose \<noteq> []"

definition url_signature :: "(string \<Rightarrow> string \<Rightarrow> string) \<Rightarrow> string \<Rightarrow> int \<Rightarrow> string \<Rightarrow> string \<Rightarrow> string" where
  "url_signature hmac path expires secret purpose =
     (let key = hmac secret (KEY_DERIVATION_LABEL @ purpose);
          message = int_str expires @ CHR 0x0A # path
      in rstrip_char (CHR ''='') (b64_encode (hmac key message)))"

text \<open>\<^verbatim>\<open>int(timestamp)\<close> of an instant in microseconds truncates towards zero.\<close>

definition unix_seconds :: "micros \<Rightarrow> int" where
  "unix_seconds t = (if t < 0 then - (- t div 1000000) else t div 1000000)"

definition sign_path ::
  "(string \<Rightarrow> string \<Rightarrow> string) \<Rightarrow> string \<Rightarrow> string \<Rightarrow> micros \<Rightarrow> string \<Rightarrow> micros \<Rightarrow> signed_url_error + string" where
  "sign_path hmac path secret expires_in purpose now =
     (if \<not> require_material secret purpose then Inl EmptyMaterial
      else if \<not> startswith path ''/'' then Inl BadPath
      else if expires_in \<le> 0 then Inl BadLifetime
      else let expires = unix_seconds (now + expires_in);
               query = urlencode [(SIGNED_URL_EXPIRES_PARAM, int_str expires),
                 (SIGNED_URL_SIGNATURE_PARAM, url_signature hmac path expires secret purpose)]
           in Inr (url_quote path @ CHR ''?'' # query))"

definition verify_path ::
  "(string \<Rightarrow> string \<Rightarrow> string) \<Rightarrow> string \<Rightarrow> int \<Rightarrow> string \<Rightarrow> string \<Rightarrow> string \<Rightarrow> micros \<Rightarrow> signed_url_error + unit" where
  "verify_path hmac path expires signature secret purpose now =
     (if \<not> require_material secret purpose then Inl EmptyMaterial
      else if url_signature hmac path expires secret purpose \<noteq> signature then Inl InvalidSignedURL
      else if expires * 1000000 \<le> now then Inl ExpiredSignedURL
      else Inr ())"

text \<open>The dependency; an absent parameter is empty.\<close>

definition verify_signed_path ::
  "(string \<Rightarrow> string \<Rightarrow> string) \<Rightarrow> string \<Rightarrow> string \<Rightarrow> string \<Rightarrow> string \<Rightarrow> string \<Rightarrow> micros \<Rightarrow> signed_url_error + unit" where
  "verify_signed_path hmac secret purpose path expires signature now =
     (if \<not> ascii_digits expires \<or> signature = [] then Inl InvalidSignedURL
      else case int_of_digits expires of
             None \<Rightarrow> Inl InvalidSignedURL
           | Some expires_at \<Rightarrow> verify_path hmac path expires_at signature secret purpose now)"

subsection \<open>What a signature covers\<close>

definition collision_free :: "(string \<Rightarrow> string \<Rightarrow> string) \<Rightarrow> string \<Rightarrow> bool" where
  "collision_free hmac secret \<longleftrightarrow>
     (\<forall>l l'. hmac secret l = hmac secret l' \<longrightarrow> l = l') \<and>
     (\<forall>l m l' m'. hmac (hmac secret l) m = hmac (hmac secret l') m' \<longrightarrow> hmac secret l = hmac secret l' \<and> m = m')"

definition tagged_mac :: "string \<Rightarrow> string \<Rightarrow> string" where
  "tagged_mac k m = replicate (length k) (CHR ''1'') @ CHR ''0'' # k @ m"

lemma count_marks: "length (takeWhile (\<lambda>c. c = CHR ''1'') (replicate n (CHR ''1'') @ CHR ''0'' # s)) = n"
  by (induction n) auto

lemma tagged_mac_collision_free: "collision_free tagged_mac secret"
proof -
  have "length k = length k'" if "tagged_mac k m = tagged_mac k' m'" for k m k' m'
    using that count_marks unfolding tagged_mac_def by metis
  then have inj: "k = k' \<and> m = m'" if "tagged_mac k m = tagged_mac k' m'" for k m k' m'
    using that append_eq_append_conv [of k k' m m'] unfolding tagged_mac_def by (metis list.inject same_append_eq)
  show ?thesis unfolding collision_free_def using inj by blast
qed

lemma signature_inj:
  assumes "collision_free hmac s" "url_signature hmac p e s u = url_signature hmac p' e' s u'"
  shows "p = p' \<and> e = e' \<and> u = u'"
proof -
  let ?key = "\<lambda>u. hmac s (KEY_DERIVATION_LABEL @ u)" and ?line = "\<lambda>e p. int_str e @ CHR 0x0A # p"
  have "hmac (?key u) (?line e p) = hmac (?key u') (?line e' p')"
    using assms(2) unfolding url_signature_def Let_def b64_inj .
  with assms(1) have "?key u = ?key u'" and l: "?line e p = ?line e' p'" unfolding collision_free_def by blast+
  with assms(1) have "KEY_DERIVATION_LABEL @ u = KEY_DERIVATION_LABEL @ u'" unfolding collision_free_def by blast
  then have "u = u'" by simp
  with line_inj [OF l int_str_plain int_str_plain] show ?thesis by (simp add: int_str_inj)
qed

text \<open>
  A signature opens one thing only: if a request is accepted with a signature that was made with this secret for
  some path, expiry and purpose, then it is a request for exactly that path with that expiry, under that purpose, and
  the expiry lies in the future.
\<close>

theorem signed_link_binds:
  assumes "collision_free hmac secret" "verify_path hmac path expires signature secret purpose now = Inr ()"
    and "signature = url_signature hmac path' expires' secret purpose'"
  shows "path = path' \<and> expires = expires' \<and> purpose = purpose' \<and> now < expires' * 1000000"
proof -
  from assms(2,3) have "url_signature hmac path expires secret purpose = url_signature hmac path' expires' secret purpose'"
    and "now < expires * 1000000"
    by (auto simp: verify_path_def split: if_splits)
  with signature_inj [OF assms(1) this(1)] show ?thesis by simp
qed

theorem signed_link_binds_witness:
  "''/f/a'' = ''/f/a'' \<and> (90 :: int) = 90 \<and> ''files'' = ''files'' \<and> (5 :: int) < 90 * 1000000"
proof (rule signed_link_binds [OF tagged_mac_collision_free])
  show "verify_path tagged_mac ''/f/a'' 90 (url_signature tagged_mac ''/f/a'' 90 ''k'' ''files'') ''k'' ''files'' 5 = Inr ()"
    by (simp add: verify_path_def require_material_def)
qed simp

lemma url_quote_chars: "CHR ''?'' \<notin> set (url_quote s)"
proof -
  have hex: "CHR ''?'' \<noteq> hex_digit n" if "n < 16" for n
  proof -
    have "(of_char (hex_digit n) :: nat) = (if n < 10 then 48 + n else 55 + n)" using that by (simp add: hex_digit_def)
    then have "of_char (hex_digit n) \<noteq> (of_char (CHR ''?'') :: nat)" using that by (auto split: if_splits)
    then show ?thesis by metis
  qed
  have "CHR ''?'' \<notin> set (percent c)" for c
    using hex [of "of_char c div 16"] hex [of "of_char c mod 16"] by (simp add: percent_def less_mult_imp_div_less)
  then show ?thesis by (auto simp: url_quote_def quote_char_def unreserved_def split: if_splits)
qed

lemma sign_path_ok:
  assumes "sign_path hmac path secret expires_in purpose now = Inr url"
  shows "require_material secret purpose \<and> 0 < expires_in \<and>
    url = url_quote path @ CHR ''?'' # urlencode [(SIGNED_URL_EXPIRES_PARAM, int_str (unix_seconds (now + expires_in))),
      (SIGNED_URL_SIGNATURE_PARAM, url_signature hmac path (unix_seconds (now + expires_in)) secret purpose)]"
proof -
  have ok: "require_material secret purpose" "startswith path ''/''" "\<not> expires_in \<le> 0"
    using assms unfolding sign_path_def by (metis Inl_Inr_False)+
  with assms show ?thesis unfolding sign_path_def Let_def by (metis (no_types) if_False if_True not_le sum.inject(2))
qed

lemma signed_facts:
  assumes "sign_path hmac path secret expires_in purpose now = Inr url"
    and "0 \<le> now" "now + expires_in < 2 ^ 33 * 1000000" "\<And>k m. hmac k m \<noteq> []"
  defines "expires \<equiv> (now + expires_in) div 1000000"
  shows "require_material secret purpose" "expires * 1000000 \<le> now + expires_in" "now + expires_in < expires * 1000000 + 1000000"
    "url = url_quote path @ CHR ''?'' # urlencode [(SIGNED_URL_EXPIRES_PARAM, int_str expires),
      (SIGNED_URL_SIGNATURE_PARAM, url_signature hmac path expires secret purpose)]"
    "url_signature hmac path expires secret purpose \<noteq> []" "ascii_digits (int_str expires)"
    "int_of_digits (int_str expires) = Some expires"
proof -
  note signed = sign_path_ok [OF assms(1)]
  have e: "unix_seconds (now + expires_in) = expires" "0 \<le> expires"
    using assms(2) signed by (simp_all add: unix_seconds_def expires_def pos_imp_zdiv_nonneg_iff)
  show "require_material secret purpose" using signed by simp
  show between: "expires * 1000000 \<le> now + expires_in" "now + expires_in < expires * 1000000 + 1000000"
    unfolding expires_def using div_mult_mod_eq [of "now + expires_in" 1000000]
      pos_mod_sign [of 1000000 "now + expires_in"] pos_mod_bound [of 1000000 "now + expires_in"] by linarith+
  show "url = url_quote path @ CHR ''?'' # urlencode [(SIGNED_URL_EXPIRES_PARAM, int_str expires),
      (SIGNED_URL_SIGNATURE_PARAM, url_signature hmac path expires secret purpose)]"
    using signed [THEN conjunct2, THEN conjunct2] unfolding e(1) .
  show "url_signature hmac path expires secret purpose \<noteq> []"
    unfolding url_signature_def Let_def rstrip_b64 b64_core_empty by (rule assms(4))
  show "ascii_digits (int_str expires)" using e(2) by (simp add: int_str_def)
  show "int_of_digits (int_str expires) = Some expires"
    using digits_of_nat(2) [of "nat expires"] between(1) assms(3) e(2) by (simp add: int_str_def nat_less_iff)
qed

text \<open>
  A link that was signed works, for as long as it was signed for: its path is read back by decoding what
  precedes the question mark, its query carries an expiry within a second of the requested lifetime, and the route
  accepts it exactly until then.
\<close>

theorem signed_link_works:
  assumes "sign_path hmac path secret expires_in purpose now = Inr url"
    and "0 \<le> now" "now + expires_in < 2 ^ 33 * 1000000" "\<And>k m. hmac k m \<noteq> []"
  defines "expires \<equiv> (now + expires_in) div 1000000"
  shows "\<exists>encoded signature. partition_on (CHR ''?'') url =
      (encoded, Some (urlencode [(SIGNED_URL_EXPIRES_PARAM, int_str expires), (SIGNED_URL_SIGNATURE_PARAM, signature)])) \<and>
    url_unquote encoded = path \<and> expires * 1000000 \<le> now + expires_in \<and> now + expires_in < expires * 1000000 + 1000000 \<and>
    (\<forall>later. verify_signed_path hmac secret purpose path (int_str expires) signature later =
       (if expires * 1000000 \<le> later then Inl ExpiredSignedURL else Inr ()))"
proof -
  note facts = signed_facts [OF assms(1-4), folded expires_def]
  let ?mac = "url_signature hmac path expires secret purpose"
  have part: "partition_on (CHR ''?'') url = (url_quote path,
      Some (urlencode [(SIGNED_URL_EXPIRES_PARAM, int_str expires), (SIGNED_URL_SIGNATURE_PARAM, ?mac)]))"
    unfolding facts(4) by (rule partition_on_append [OF url_quote_chars])
  have route: "verify_signed_path hmac secret purpose path (int_str expires) ?mac later =
      (if expires * 1000000 \<le> later then Inl ExpiredSignedURL else Inr ())" for later
    using facts by (simp add: verify_signed_path_def verify_path_def)
  show ?thesis
    by (rule exI [of _ "url_quote path"], rule exI [of _ ?mac]) (intro conjI allI part unquote_quote facts(2,3) route)
qed

theorem signed_link_works_witness:
  "\<exists>encoded signature. partition_on (CHR ''?'') (projr (sign_path tagged_mac ''/a b'' ''k'' 60000000 ''f'' 5500000)) =
      (encoded, Some (urlencode [(SIGNED_URL_EXPIRES_PARAM, int_str (65500000 div 1000000)), (SIGNED_URL_SIGNATURE_PARAM, signature)])) \<and>
    url_unquote encoded = ''/a b'' \<and>
    (\<forall>later. verify_signed_path tagged_mac ''k'' ''f'' ''/a b'' (int_str (65500000 div 1000000)) signature later =
       (if 65500000 div 1000000 * 1000000 \<le> later then Inl ExpiredSignedURL else Inr ()))"
proof -
  have "sign_path tagged_mac ''/a b'' ''k'' 60000000 ''f'' 5500000 =
      Inr (projr (sign_path tagged_mac ''/a b'' ''k'' 60000000 ''f'' 5500000))"
    by (simp add: sign_path_def require_material_def startswith_def Let_def)
  from signed_link_works [OF this, simplified] show ?thesis
    by (simp add: tagged_mac_def)
qed

end
