(* ===== verification/Storage_Links.thy ===== *)
theory Storage_Links
  imports Stored_Objects Signed_Url
begin

text \<open>
  The links of the local store and the routes that answer them: the presigning half of
  \<^verbatim>\<open>storage/local_client.py\<close>, \<^verbatim>\<open>storage/presign.py\<close> and \<^verbatim>\<open>storage/local_router.py\<close>. The query of a request and its form are
  lookups, as the framework answers them. A media type is ASCII text.
\<close>

subsection \<open>Issuing\<close>

definition LOCAL_STORAGE_GET_PURPOSE :: string where
  "LOCAL_STORAGE_GET_PURPOSE = ''tempest-local-storage-get''"

definition LOCAL_STORAGE_PUT_PURPOSE :: string where
  "LOCAL_STORAGE_PUT_PURPOSE = ''tempest-local-storage-put''"

definition LOCAL_STORAGE_POST_PURPOSE :: string where
  "LOCAL_STORAGE_POST_PURPOSE = ''tempest-local-storage-post''"

definition LOCAL_GET_LINK_PARAMS :: "string list" where
  "LOCAL_GET_LINK_PARAMS = [''filename'', ''media_type'', ''disposition'']"

definition LOCAL_POST_LINK_PARAMS :: "string list" where
  "LOCAL_POST_LINK_PARAMS = [''max_bytes'', ''min_bytes'', ''content_type'']"

definition LOCAL_PRESIGN_MAX_EXPIRES :: micros where
  "LOCAL_PRESIGN_MAX_EXPIRES = 7 * 86400 * 1000000"

text \<open>The names of a dict are distinct, so that its items sort by name.\<close>

definition bound_purpose :: "string \<Rightarrow> (string \<times> string) list \<Rightarrow> string" where
  "bound_purpose purpose params =
     (if params = [] then purpose else purpose @ CHR 0x00 # urlencode (sort_key fst params))"

datatype link_error =
    LinkDisabled | LinkLifetime | LinkName storage_error | LinkSigning signed_url_error | LinkMediaType | LinkLimits | LinkNoMultipart
  | LinkNumber

definition link_path :: "local_client \<Rightarrow> string \<Rightarrow> string \<Rightarrow> string" where
  "link_path c b key = lc_route_prefix c @ CHR ''/'' # b @ CHR ''/'' # key"

definition presign ::
  "(string \<Rightarrow> string \<Rightarrow> string) \<Rightarrow> local_client \<Rightarrow> string \<Rightarrow> string option \<Rightarrow> micros \<Rightarrow> string \<Rightarrow> (string \<times> string) list \<Rightarrow> micros \<Rightarrow>
   link_error + string" where
  "presign hmac c key bucket expires purpose params now =
     (if LOCAL_PRESIGN_MAX_EXPIRES < expires then Inl LinkLifetime
      else case object_path c key bucket of Inl e \<Rightarrow> Inl (LinkName e) | Inr _ \<Rightarrow>
       (case store_bucket c bucket of Inl e \<Rightarrow> Inl (LinkName e) | Inr b \<Rightarrow>
        (case sign_path hmac (link_path c b key) (lc_secret c) expires (bound_purpose purpose params) now of
           Inl e \<Rightarrow> Inl (LinkSigning e)
         | Inr signed \<Rightarrow>
             Inr (lc_public_url c @ (if params \<noteq> [] then signed @ CHR ''&'' # urlencode params else signed)))))"

definition alnum :: "char \<Rightarrow> bool" where
  "alnum c \<longleftrightarrow> (let n = (of_char c :: nat) in 48 \<le> n \<and> n \<le> 57 \<or> 65 \<le> n \<and> n \<le> 90 \<or> 97 \<le> n \<and> n \<le> 122)"

definition type_name :: "string \<Rightarrow> bool" where
  "type_name s \<longleftrightarrow> (case s of [] \<Rightarrow> False | c # cs \<Rightarrow>
     alnum c \<and> list_all (\<lambda>d. alnum d \<or> d = CHR ''_'' \<or> d = CHR ''.'' \<or> d = CHR ''+'' \<or> d = CHR ''-'') cs)"

definition media_type_ok :: "string \<Rightarrow> bool" where
  "media_type_ok s \<longleftrightarrow> (case partition_on (CHR ''/'') s of
     (kind, Some subtype) \<Rightarrow> type_name kind \<and> type_name subtype | _ \<Rightarrow> False)"

definition opt_param :: "string \<Rightarrow> string option \<Rightarrow> (string \<times> string) list" where
  "opt_param name v = (case v of None \<Rightarrow> [] | Some w \<Rightarrow> [(name, w)])"


definition presigned_put_url ::
  "(string \<Rightarrow> string \<Rightarrow> string) \<Rightarrow> local_client \<Rightarrow> string \<Rightarrow> string option \<Rightarrow> micros \<Rightarrow> micros \<Rightarrow> link_error + string" where
  "presigned_put_url hmac c key bucket expires now =
     (if \<not> lc_enabled c then Inl LinkDisabled
      else presign hmac c key bucket expires LOCAL_STORAGE_PUT_PURPOSE [] now)"

record presigned_post =
  pp_url :: string
  pp_max_bytes :: int
  pp_fields :: "(string \<times> string) list"

definition check_post_limits :: "int \<Rightarrow> int \<Rightarrow> bool" where
  "check_post_limits min_bytes max_bytes \<longleftrightarrow> 0 \<le> min_bytes \<and> 1 \<le> max_bytes \<and> min_bytes \<le> max_bytes"

definition presigned_post_policy ::
  "(string \<Rightarrow> string \<Rightarrow> string) \<Rightarrow> bool \<Rightarrow> local_client \<Rightarrow> string \<Rightarrow> int \<Rightarrow> string option \<Rightarrow> int \<Rightarrow> string option \<Rightarrow> micros \<Rightarrow> micros \<Rightarrow>
   link_error + presigned_post" where
  "presigned_post_policy hmac multipart c key max_bytes content_type min_bytes bucket expires now =
     (if \<not> lc_enabled c then Inl LinkDisabled
      else if \<not> check_post_limits min_bytes max_bytes then Inl LinkLimits
      else if lc_max_upload_bytes c < max_bytes then Inl LinkLimits
      else if (case content_type of None \<Rightarrow> False | Some m \<Rightarrow> \<not> media_type_ok m) then Inl LinkMediaType
      else if \<not> multipart then Inl LinkNoMultipart
      else case presign hmac c key bucket expires LOCAL_STORAGE_POST_PURPOSE
          ([(''max_bytes'', int_str max_bytes), (''min_bytes'', int_str min_bytes)] @ opt_param ''content_type'' content_type) now of
        Inl e \<Rightarrow> Inl e
      | Inr url \<Rightarrow> Inr \<lparr>pp_url = url, pp_max_bytes = max_bytes, pp_fields = (''key'', key) # opt_param ''Content-Type'' content_type\<rparr>)"

subsection \<open>Verifying\<close>

type_synonym query = "string \<Rightarrow> string option"

definition query_text :: "query \<Rightarrow> string \<Rightarrow> string" where
  "query_text q name = (case q name of None \<Rightarrow> [] | Some v \<Rightarrow> v)"

text \<open>\<open>LinkNumber\<close> is the \<^verbatim>\<open>ValueError\<close> of \<^verbatim>\<open>int(expires)\<close>, which nothing catches here.\<close>

definition verify_link ::
  "(string \<Rightarrow> string \<Rightarrow> string) \<Rightarrow> local_client \<Rightarrow> string \<Rightarrow> query \<Rightarrow> string \<Rightarrow> string list \<Rightarrow> micros \<Rightarrow>
   link_error + (string \<times> string) list" where
  "verify_link hmac c path q purpose names now =
     (let expires = query_text q SIGNED_URL_EXPIRES_PARAM; signature = query_text q SIGNED_URL_SIGNATURE_PARAM in
      if \<not> ascii_digits expires \<or> signature = [] then Inl (LinkSigning InvalidSignedURL)
      else let params = map (\<lambda>name. (name, the (q name))) (filter (\<lambda>name. q name \<noteq> None) names) in
       (case int_of_digits expires of
          None \<Rightarrow> Inl LinkNumber
        | Some expires_at \<Rightarrow>
          (case verify_path hmac path expires_at signature (lc_secret c) (bound_purpose purpose params) now of
             Inl e \<Rightarrow> Inl (LinkSigning e)
           | Inr _ \<Rightarrow> Inr params)))"

text \<open>\<^verbatim>\<open>signature_dependency\<close>: the dependency of the application's own signed routes, under the store's secret.\<close>

definition signature_dependency ::
  "(string \<Rightarrow> string \<Rightarrow> string) \<Rightarrow> local_client \<Rightarrow> string \<Rightarrow> string \<Rightarrow> query \<Rightarrow> micros \<Rightarrow> signed_url_error + unit" where
  "signature_dependency hmac c purpose path q now =
     verify_signed_path hmac (lc_secret c) purpose path (query_text q SIGNED_URL_EXPIRES_PARAM)
       (query_text q SIGNED_URL_SIGNATURE_PARAM) now"

subsection \<open>The routes\<close>

datatype route_error = LinkRefused link_error | ObjectMissing | BodyTooLarge | BodyTooSmall | StoreFailure storage_error | RouteNumber

definition POST_FORM_OVERHEAD_BYTES :: int where
  "POST_FORM_OVERHEAD_BYTES = 64 * 1024"

definition POST_FILE_FIELD :: string where
  "POST_FILE_FIELD = ''file''"

text \<open>\<open>settings\<close> carries the options the router was built with; the link's own parameters override them.\<close>

definition download_object ::
  "(string \<Rightarrow> string \<Rightarrow> string) \<Rightarrow> local_client \<Rightarrow> download_options \<Rightarrow> string \<Rightarrow> query \<Rightarrow> (string \<times> string) list \<Rightarrow> string \<Rightarrow> string \<Rightarrow>
   micros \<Rightarrow> disk \<Rightarrow> route_error + download" where
  "download_object hmac c settings path q headers bucket key now d =
     (case verify_link hmac c path q LOCAL_STORAGE_GET_PURPOSE LOCAL_GET_LINK_PARAMS now of
        Inl e \<Rightarrow> Inl (LinkRefused e)
      | Inr params \<Rightarrow> (case object_path c key (Some bucket) of Inl _ \<Rightarrow> Inl ObjectMissing | Inr _ \<Rightarrow>
        (let opts = settings\<lparr>dl_filename := map_of params ''filename'', dl_media := map_of params ''media_type'',
               dl_as_attachment := (case map_of params ''disposition'' of None \<Rightarrow> dl_as_attachment settings | Some v \<Rightarrow> v \<noteq> ''inline''),
               dl_chunk_size := LOCAL_STORAGE_CHUNK_SIZE, dl_extra_headers := []\<rparr> in
         case object_download_response (stat_object c d) (stream_object c d) opts key (Some bucket) (Some headers) of
           Inl (StoreError ObjectNotFound) \<Rightarrow> Inl ObjectMissing
         | Inl (StoreError e) \<Rightarrow> Inl (StoreFailure e)
         | Inl BadNumber \<Rightarrow> Inl RouteNumber
         | Inr resp \<Rightarrow> Inr resp)))"

text \<open>
  The declared length of a body: \<^verbatim>\<open>isdigit\<close> also holds of three superscript digits of Latin-1, which \<^verbatim>\<open>int\<close> refuses.
  The result says whether the body is refused, or that \<^verbatim>\<open>int\<close> raised.
\<close>

definition latin_digit :: "char \<Rightarrow> bool" where
  "latin_digit ch \<longleftrightarrow> is_digit ch \<or> (of_char ch :: nat) \<in> {178, 179, 185}"

definition declared_over :: "string option \<Rightarrow> int \<Rightarrow> bool option" where
  "declared_over declared limit = (case declared of
     None \<Rightarrow> Some False
   | Some s \<Rightarrow> if s = [] \<or> \<not> list_all latin_digit s then Some False
       else if \<not> ascii_digits s then None
       else map_option (\<lambda>n. limit < n) (int_of_digits s))"

definition stored_or_failed :: "(storage_error + string) \<times> disk \<Rightarrow> (route_error + string) \<times> disk" where
  "stored_or_failed rd = (case rd of
     (Inl FileTooLarge, d) \<Rightarrow> (Inl BodyTooLarge, d)
   | (Inl e, d) \<Rightarrow> (Inl (StoreFailure e), d)
   | (Inr etag, d) \<Rightarrow> (Inr etag, d))"

definition upload_object ::
  "(string \<Rightarrow> string \<Rightarrow> string) \<Rightarrow> (string \<Rightarrow> string) \<Rightarrow> local_client \<Rightarrow> string \<Rightarrow> query \<Rightarrow> (string \<times> string) list \<Rightarrow> string list \<Rightarrow>
   string \<Rightarrow> string \<Rightarrow> micros \<Rightarrow> (disk, route_error, string) action" where
  "upload_object hmac md5 c path q headers body bucket key now d =
     (case signature_dependency hmac c LOCAL_STORAGE_PUT_PURPOSE path q now of
        Inl e \<Rightarrow> (Inl (LinkRefused (LinkSigning e)), d)
      | Inr _ \<Rightarrow> (case object_path c key (Some bucket) of Inl _ \<Rightarrow> (Inl ObjectMissing, d) | Inr _ \<Rightarrow>
        (case declared_over (header_get headers ''content-length'') (lc_max_upload_bytes c) of
           None \<Rightarrow> (Inl RouteNumber, d)
         | Some True \<Rightarrow> (Inl BodyTooLarge, d)
         | Some False \<Rightarrow>
             stored_or_failed (write_stream md5 c now key body (Some bucket)
               (case header_get headers ''content-type'' of None \<Rightarrow> ''application/octet-stream'' | Some t \<Rightarrow> t) []
               (Some (lc_max_upload_bytes c)) d))))"

record upload_part =
  up_size :: "int option"
  up_chunks :: "string list"
  up_content_type :: "string option"

datatype form_value = Field string | FilePart upload_part

definition bound_int :: "(string \<times> string) list \<Rightarrow> string \<Rightarrow> link_error + int" where
  "bound_int params name =
     (let raw = (case map_of params name of None \<Rightarrow> [] | Some v \<Rightarrow> v) in
      if \<not> ascii_digits raw then Inl (LinkSigning InvalidSignedURL)
      else case int_of_digits raw of None \<Rightarrow> Inl LinkNumber | Some n \<Rightarrow> Inr n)"

definition post_file ::
  "(string \<Rightarrow> string) \<Rightarrow> local_client \<Rightarrow> (string \<Rightarrow> form_value option) \<Rightarrow> string option \<Rightarrow> int \<Rightarrow> int \<Rightarrow> string \<Rightarrow> string \<Rightarrow> micros \<Rightarrow>
   (disk, route_error, string) action" where
  "post_file md5 c form expected_type min_bytes max_bytes bucket key now d =
     (let refused = (Inl (LinkRefused (LinkSigning InvalidSignedURL)), d); sent_type = form ''Content-Type'' in
      if form ''key'' \<noteq> None \<and> form ''key'' \<noteq> Some (Field key) then refused
      else if expected_type \<noteq> None \<and> sent_type \<noteq> map_option Field expected_type then refused
      else case form POST_FILE_FIELD of
        Some (FilePart up) \<Rightarrow>
          (let sz = (case up_size up of None \<Rightarrow> 0 | Some n \<Rightarrow> n) in
           if max_bytes < sz then (Inl BodyTooLarge, d)
           else if sz < min_bytes then (Inl BodyTooSmall, d)
           else stored_or_failed (write_stream md5 c now key (up_chunks up) (Some bucket)
             (case sent_type of Some (Field t) \<Rightarrow> t
              | _ \<Rightarrow> if truthy (up_content_type up) then the (up_content_type up) else ''application/octet-stream'') []
             (Some max_bytes) d))
      | _ \<Rightarrow> refused)"

definition post_object ::
  "(string \<Rightarrow> string \<Rightarrow> string) \<Rightarrow> (string \<Rightarrow> string) \<Rightarrow> local_client \<Rightarrow> string \<Rightarrow> query \<Rightarrow> (string \<times> string) list \<Rightarrow>
   (string \<Rightarrow> form_value option) \<Rightarrow> string \<Rightarrow> string \<Rightarrow> micros \<Rightarrow> (disk, route_error, string) action" where
  "post_object hmac md5 c path q headers form bucket key now d =
     (case verify_link hmac c path q LOCAL_STORAGE_POST_PURPOSE LOCAL_POST_LINK_PARAMS now of
        Inl e \<Rightarrow> (Inl (LinkRefused e), d)
      | Inr params \<Rightarrow> (case object_path c key (Some bucket) of Inl _ \<Rightarrow> (Inl ObjectMissing, d) | Inr _ \<Rightarrow>
        (case bound_int params ''max_bytes'' of Inl e \<Rightarrow> (Inl (LinkRefused e), d) | Inr max_bytes \<Rightarrow>
         (case bound_int params ''min_bytes'' of Inl e \<Rightarrow> (Inl (LinkRefused e), d) | Inr min_bytes \<Rightarrow>
          (case declared_over (header_get headers ''content-length'') (max_bytes + POST_FORM_OVERHEAD_BYTES) of
             None \<Rightarrow> (Inl RouteNumber, d)
           | Some True \<Rightarrow> (Inl BodyTooLarge, d)
           | Some False \<Rightarrow> post_file md5 c form (map_of params ''content_type'') min_bytes max_bytes bucket key now d)))))"

subsection \<open>What a link covers\<close>

definition purposes :: "string list" where
  "purposes = [LOCAL_STORAGE_GET_PURPOSE, LOCAL_STORAGE_PUT_PURPOSE, LOCAL_STORAGE_POST_PURPOSE]"

lemma purpose_plain: "p \<in> set purposes \<Longrightarrow> CHR 0x00 \<notin> set p"
  by (auto simp: purposes_def LOCAL_STORAGE_GET_PURPOSE_def LOCAL_STORAGE_PUT_PURPOSE_def LOCAL_STORAGE_POST_PURPOSE_def)

lemma bound_purpose_inj:
  assumes "bound_purpose p ps = bound_purpose p' ps'" "p \<in> set purposes" "p' \<in> set purposes"
    and "distinct (map fst ps)" "distinct (map fst ps')"
  shows "p = p' \<and> map_of ps = map_of ps'"
proof (cases "ps = [] \<or> ps' = []")
  case True
  then show ?thesis
    using assms(1) purpose_plain [OF assms(2)] purpose_plain [OF assms(3)] by (auto simp: bound_purpose_def split: if_splits)
next
  case False
  then have "p @ CHR 0x00 # urlencode (sort_key fst ps) = p' @ CHR 0x00 # urlencode (sort_key fst ps')"
    using assms(1) by (simp add: bound_purpose_def)
  from line_inj [OF this purpose_plain [OF assms(2)] purpose_plain [OF assms(3)]]
  have "p = p'" "urlencode (sort_key fst ps) = urlencode (sort_key fst ps')" by simp_all
  moreover have "sort_key fst ps = sort_key fst ps'"
  proof (rule urlencode_inj [OF calculation(2)])
    show "sort_key fst ps \<noteq> []" "sort_key fst ps' \<noteq> []" using False by (metis length_0_conv length_sort)+
  qed
  then have "set ps = set ps'" by (metis set_sort)
  ultimately show ?thesis using map_of_inject_set [OF assms(4,5)] by simp
qed

lemma link_path_inj:
  assumes "link_path c b key = link_path c b' key'" "CHR ''/'' \<notin> set b" "CHR ''/'' \<notin> set b'"
  shows "b = b' \<and> key = key'"
  using line_inj [OF _ assms(2,3), of key key'] assms(1) by (simp add: link_path_def)

lemma verify_linkD:
  assumes "verify_link hmac c path q purpose names now = Inr params" "distinct names"
  shows "distinct (map fst params)" "set (map fst params) \<subseteq> set names"
    "\<exists>expires. verify_path hmac path expires (query_text q SIGNED_URL_SIGNATURE_PARAM) (lc_secret c) (bound_purpose purpose params) now = Inr ()"
proof -
  from assms(1) have p: "params = map (\<lambda>name. (name, the (q name))) (filter (\<lambda>name. q name \<noteq> None) names)"
    by (simp add: verify_link_def Let_def split: if_splits option.splits sum.splits)
  have "map fst params = filter (\<lambda>name. q name \<noteq> None) names" unfolding p by (simp add: o_def)
  then show "distinct (map fst params)" "set (map fst params) \<subseteq> set names" using assms(2) by auto
  from assms(1) show "\<exists>expires. verify_path hmac path expires (query_text q SIGNED_URL_SIGNATURE_PARAM) (lc_secret c)
      (bound_purpose purpose params) now = Inr ()"
    by (auto simp: verify_link_def Let_def p split: if_splits option.splits sum.splits)
qed


text \<open>
  C31. A storage link grants exactly what it was issued for: whatever request presents its signature, and at whichever
  of the three routes, is accepted only as a request for the same object of the same bucket, for the same purpose
  (download, upload or form), with the same file name, type and limits, and before it expires.
\<close>

theorem storage_link_grants_exactly:
  assumes "collision_free hmac (lc_secret c)" "purpose \<in> set purposes" "purpose' \<in> set purposes"
    and "distinct (map fst issued)" "distinct names" "CHR ''/'' \<notin> set b" "CHR ''/'' \<notin> set b'"
    and "query_text q SIGNED_URL_SIGNATURE_PARAM =
      url_signature hmac (link_path c b key) expires (lc_secret c) (bound_purpose purpose issued)"
    and "verify_link hmac c (link_path c b' key') q purpose' names now = Inr params"
  shows "b' = b \<and> key' = key \<and> purpose' = purpose \<and> map_of params = map_of issued \<and> now < expires * 1000000"
proof -
  note v = verify_linkD [OF assms(9,5)]
  from v(3) obtain e where "verify_path hmac (link_path c b' key') e (query_text q SIGNED_URL_SIGNATURE_PARAM) (lc_secret c)
      (bound_purpose purpose' params) now = Inr ()" by blast
  from signed_link_binds [OF assms(1) this assms(8)]
  have "link_path c b' key' = link_path c b key" "bound_purpose purpose' params = bound_purpose purpose issued" "now < expires * 1000000"
    by simp_all
  with link_path_inj [OF this(1) assms(7,6)] bound_purpose_inj [OF this(2) assms(3,2) v(1) assms(4)] show ?thesis by simp
qed

theorem storage_link_grants_exactly_witness:
  "''up'' = ''up'' \<and> ''a'' = ''a'' \<and> LOCAL_STORAGE_PUT_PURPOSE = LOCAL_STORAGE_PUT_PURPOSE \<and> map_of ([] :: (string \<times> string) list) = map_of [] \<and>
   (5 :: int) < 90 * 1000000"
proof (rule storage_link_grants_exactly [OF tagged_mac_collision_free])
  let ?sig = "url_signature tagged_mac (link_path sample_store_client ''up'' ''a'') 90 (lc_secret sample_store_client) (bound_purpose LOCAL_STORAGE_PUT_PURPOSE [])"
  let ?q = "[''expires'' \<mapsto> ''90'', ''signature'' \<mapsto> ?sig]"
  show "query_text ?q SIGNED_URL_SIGNATURE_PARAM = ?sig" by (simp add: query_text_def SIGNED_URL_SIGNATURE_PARAM_def)
  have "?sig \<noteq> []" unfolding url_signature_def Let_def rstrip_b64 b64_core_empty by (simp add: tagged_mac_def)
  then show "verify_link tagged_mac sample_store_client (link_path sample_store_client ''up'' ''a'') ?q LOCAL_STORAGE_PUT_PURPOSE [] 5 = Inr []"
    by (simp add: verify_link_def query_text_def SIGNED_URL_SIGNATURE_PARAM_def SIGNED_URL_EXPIRES_PARAM_def ascii_digits_def is_digit_def
      int_of_digits_def digit_val_def verify_path_def require_material_def sample_store_client_def LOCAL_STORAGE_PUT_PURPOSE_def bound_purpose_def)
qed (simp_all add: purposes_def)



subsection \<open>What an upload can write\<close>

lemma stored_or_failed_cases:
  assumes "stored_or_failed rd = (r, d')"
  shows "snd rd = d' \<and> (\<forall>etag. r = Inr etag \<longrightarrow> fst rd = Inr etag) \<and> (\<forall>e. r = Inl e \<longrightarrow> (\<exists>e'. fst rd = Inl e'))"
  using assms by (auto simp: stored_or_failed_def split: prod.splits sum.splits storage_error.splits)

text \<open>One write: nothing changed, or the object of this name alone, to these bytes.\<close>

definition wrote :: "(string \<Rightarrow> string) \<Rightarrow> local_client \<Rightarrow> string \<Rightarrow> string \<Rightarrow> string \<Rightarrow> micros \<Rightarrow> disk \<Rightarrow> disk \<Rightarrow> bool" where
  "wrote md5 c bucket key bs now d d' \<longleftrightarrow>
     (\<exists>b ctype. store_bucket c (Some bucket) = Inr b \<and>
        objects_of c d' = (objects_of c d)((b, key) \<mapsto>
          (bs, now, \<lparr>om_content_type = ctype, om_metadata = [], om_etag = md5 bs\<rparr>)))"

lemma capped_write:
  assumes "store_ok md5 c d" "0 \<le> m"
    and "stored_or_failed (write_stream md5 c now key chunks (Some bucket) ctype [] (Some m) d) = (r, d')"
  shows "case r of Inl e \<Rightarrow> objects_of c d' = objects_of c d
    | Inr etag \<Rightarrow> etag = md5 (concat chunks) \<and> int (length (concat chunks)) \<le> m \<and> wrote md5 c bucket key (concat chunks) now d d'"
proof -
  obtain r1 d1 where w: "write_stream md5 c now key chunks (Some bucket) ctype [] (Some m) d = (r1, d1)"
    by (cases "write_stream md5 c now key chunks (Some bucket) ctype [] (Some m) d")
  note s = stored_or_failed_cases [OF assms(3), unfolded w]
  note ok = write_ok [OF assms(1) w]
  show ?thesis
  proof (cases r)
    case (Inl e)
    with s ok show ?thesis by auto
  next
    case (Inr etag)
    with s ok assms(2) have "etag = md5 (concat chunks)" "int (length (concat chunks)) \<le> m"
      by (cases "chunks = []"; auto)+
    moreover have "wrote md5 c bucket key (concat chunks) now d d'" using Inr s ok by (auto simp: wrote_def)
    ultimately show ?thesis using Inr by simp
  qed
qed

lemma bound_int_nonneg: "bound_int params name = Inr n \<Longrightarrow> 0 \<le> n"
  using int_of_digits_nonneg by (auto simp: bound_int_def Let_def split: if_splits option.splits)

lemma post_confined:
  assumes "store_ok md5 c d" "0 \<le> limit" "post_file md5 c form expected least limit bucket key now d = (r, d')"
  shows "case r of Inl e \<Rightarrow> objects_of c d' = objects_of c d
    | Inr etag \<Rightarrow> \<exists>part. form POST_FILE_FIELD = Some (FilePart part) \<and> etag = md5 (concat (up_chunks part)) \<and>
        least \<le> (case up_size part of None \<Rightarrow> 0 | Some n \<Rightarrow> n) \<and> int (length (concat (up_chunks part))) \<le> limit \<and>
        wrote md5 c bucket key (concat (up_chunks part)) now d d'"
proof (cases "\<exists>part ctype. form POST_FILE_FIELD = Some (FilePart part) \<and>
    least \<le> (case up_size part of None \<Rightarrow> 0 | Some n \<Rightarrow> n) \<and>
    stored_or_failed (write_stream md5 c now key (up_chunks part) (Some bucket) ctype [] (Some limit) d) = (r, d')")
  case True
  then obtain part ctype where "form POST_FILE_FIELD = Some (FilePart part)" "least \<le> (case up_size part of None \<Rightarrow> 0 | Some n \<Rightarrow> n)"
    and w: "stored_or_failed (write_stream md5 c now key (up_chunks part) (Some bucket) ctype [] (Some limit) d) = (r, d')" by blast
  with capped_write [OF assms(1,2) w] show ?thesis by (cases r) auto
next
  case False
  have "d = d' \<and> (\<exists>e. Inl e = r)"
  proof (cases "form POST_FILE_FIELD")
    case None
    with assms(3) show ?thesis by (auto simp: post_file_def Let_def split: if_splits)
  next
    case (Some v)
    show ?thesis
    proof (cases v)
      case (Field t)
      with assms(3) Some show ?thesis by (auto simp: post_file_def Let_def split: if_splits)
    next
      case (FilePart part)
      let ?sz = "case up_size part of None \<Rightarrow> 0 | Some n \<Rightarrow> n"
      from False Some FilePart have "stored_or_failed (write_stream md5 c now key (up_chunks part) (Some bucket) ctype [] (Some limit) d) \<noteq> (r, d')"
        if "least \<le> ?sz" for ctype using that by blast
      with assms(3) Some FilePart show ?thesis
        by (simp add: post_file_def Let_def not_less split: if_split_asm) auto
    qed
  qed
  then show ?thesis by auto
qed

lemma put_route_confined:
  assumes ok: "store_ok digest c d" and "0 \<le> lc_max_upload_bytes c"
  shows "(case upload_object hmac digest c path q headers body bucket key now d of
      (Inl e, d') \<Rightarrow> objects_of c d' = objects_of c d
    | (Inr etag, d') \<Rightarrow> etag = digest (concat body) \<and> int (length (concat body)) \<le> lc_max_upload_bytes c \<and>
        wrote digest c bucket key (concat body) now d d')"
proof -
  have capped_Inl: "objects_of c d' = objects_of c d"
    if "stored_or_failed (write_stream digest c now key body (Some bucket) ctype [] (Some (lc_max_upload_bytes c)) d) = (Inl e, d')"
    for ctype d' e using capped_write [OF ok assms(2) that] by simp
  have capped_Inr: "etag = digest (concat body) \<and> int (length (concat body)) \<le> lc_max_upload_bytes c \<and>
      wrote digest c bucket key (concat body) now d d'"
    if "stored_or_failed (write_stream digest c now key body (Some bucket) ctype [] (Some (lc_max_upload_bytes c)) d) = (Inr etag, d')"
    for ctype d' etag using capped_write [OF ok assms(2) that] by simp
  show ?thesis
    using capped_Inl capped_Inr
    by (auto simp: upload_object_def split: prod.splits sum.splits option.splits bool.splits)
qed

lemma post_route_confined:
  assumes ok: "store_ok digest c d"
  shows "(case post_object hmac digest c path q headers form bucket key now d of
      (Inl e, d') \<Rightarrow> objects_of c d' = objects_of c d
    | (Inr etag, d') \<Rightarrow> \<exists>params least limit part.
        verify_link hmac c path q LOCAL_STORAGE_POST_PURPOSE LOCAL_POST_LINK_PARAMS now = Inr params \<and>
        bound_int params ''max_bytes'' = Inr limit \<and> bound_int params ''min_bytes'' = Inr least \<and>
        form POST_FILE_FIELD = Some (FilePart part) \<and> etag = digest (concat (up_chunks part)) \<and>
        least \<le> (case up_size part of None \<Rightarrow> 0 | Some n \<Rightarrow> n) \<and> int (length (concat (up_chunks part))) \<le> limit \<and>
        wrote digest c bucket key (concat (up_chunks part)) now d d')"
proof (cases "post_object hmac digest c path q headers form bucket key now d")
  case (Pair r d')
  show ?thesis
  proof (cases r)
    case (Inl e)
    with Pair have "d' = d \<or> (\<exists>params limit least. bound_int params ''max_bytes'' = Inr limit \<and>
        post_file digest c form (map_of params ''content_type'') least limit bucket key now d = (r, d'))"
      unfolding post_object_def by (fastforce split: sum.splits option.splits bool.splits)
    with Inl Pair post_confined [OF ok bound_int_nonneg] show ?thesis by fastforce
  next
    case (Inr etag)
    with Pair obtain params limit least where
      v: "verify_link hmac c path q LOCAL_STORAGE_POST_PURPOSE LOCAL_POST_LINK_PARAMS now = Inr params"
        "bound_int params ''max_bytes'' = Inr limit" "bound_int params ''min_bytes'' = Inr least"
      and f: "post_file digest c form (map_of params ''content_type'') least limit bucket key now d = (r, d')"
      unfolding post_object_def by (auto split: sum.splits option.splits bool.splits)
    from post_confined [OF ok bound_int_nonneg [OF v(2)] f] v Inr Pair show ?thesis by auto
  qed
qed

text \<open>
  C32. An upload route writes at most the one object its link names, and never more than the limit. In a store that
  started empty and took any operations since, a request to either route leaves every object as it was unless it
  is answered with success; then exactly the object of its path holds exactly the body, within the client's cap or,
  for a form, within the limits that the link itself carries.
\<close>

theorem uploads_are_confined:
  assumes "make_client base url secret dflt route_pre most True d0 = (Inr c, d1)" "fresh_base base d0" "d = run_store digest c ops d1"
  shows "(case upload_object hmac digest c path q headers body bucket key now d of
      (Inl e, d') \<Rightarrow> objects_of c d' = objects_of c d
    | (Inr etag, d') \<Rightarrow> etag = digest (concat body) \<and> int (length (concat body)) \<le> lc_max_upload_bytes c \<and>
        wrote digest c bucket key (concat body) now d d') \<and>
   (case post_object hmac digest c path q headers form bucket key now d of
      (Inl e, d') \<Rightarrow> objects_of c d' = objects_of c d
    | (Inr etag, d') \<Rightarrow> \<exists>params least limit part.
        verify_link hmac c path q LOCAL_STORAGE_POST_PURPOSE LOCAL_POST_LINK_PARAMS now = Inr params \<and>
        bound_int params ''max_bytes'' = Inr limit \<and> bound_int params ''min_bytes'' = Inr least \<and>
        form POST_FILE_FIELD = Some (FilePart part) \<and> etag = digest (concat (up_chunks part)) \<and>
        least \<le> (case up_size part of None \<Rightarrow> 0 | Some n \<Rightarrow> n) \<and> int (length (concat (up_chunks part))) \<le> limit \<and>
        wrote digest c bucket key (concat (up_chunks part)) now d d')"
proof -
  have on: "lc_enabled c" "0 \<le> lc_max_upload_bytes c"
    using assms(1) by (auto simp: make_client_def Let_def split: if_splits sum.splits prod.splits)
  have ok: "store_ok digest c d" unfolding assms(3) using make_client_ok [OF assms(1,2) on(1)] by (intro run_ok) simp
  show ?thesis by (intro conjI put_route_confined [OF ok on(2)] post_route_confined [OF ok])
qed

theorem uploads_are_confined_witness:
  "case upload_object tagged_mac sample_md5 sample_store_client ''/storage/up/a'' (\<lambda>_. None) [] [''hi''] ''up'' ''a'' 5
      (run_store sample_md5 sample_store_client sample_ops sample_disk) of
      (Inl e, d') \<Rightarrow> objects_of sample_store_client d' = objects_of sample_store_client (run_store sample_md5 sample_store_client sample_ops sample_disk)
    | (Inr etag, d') \<Rightarrow> etag = sample_md5 (concat [''hi'']) \<and> int (length (concat [''hi''])) \<le> lc_max_upload_bytes sample_store_client \<and>
        wrote sample_md5 sample_store_client ''up'' ''a'' (concat [''hi'']) 5 (run_store sample_md5 sample_store_client sample_ops sample_disk) d'"
  by (rule uploads_are_confined [OF sample_made sample_fresh refl, THEN conjunct1])

text \<open>An expiry of more than 4300 digits is not refused by the routes of the store: it raises.\<close>

lemma overlong_expiry_raises:
  assumes "ascii_digits (query_text q SIGNED_URL_EXPIRES_PARAM)" "4300 < length (query_text q SIGNED_URL_EXPIRES_PARAM)"
    and "query_text q SIGNED_URL_SIGNATURE_PARAM \<noteq> []"
  shows "verify_link hmac c path q purpose names now = Inl LinkNumber"
  using assms by (simp add: verify_link_def Let_def int_of_digits_def)

end
