(* ===== verification/Response_Cache.thy ===== *)
theory Response_Cache
  imports Idempotency Http_Cache
begin

text \<open>
  The response cache: \<^verbatim>\<open>api/middlewares/response_cache.py\<close> with its in-process store. The digest \<open>sha\<close> (hexadecimal
  SHA-256) is an argument; the names of raw headers are lower case, as the framework keeps them. The store over Redis, which
  writes the same entries as JSON, is not modelled.
\<close>

subsection \<open>The middleware\<close>

record response_cache =
  rc_has_store :: bool
  rc_ttl :: int
  rc_cache_control :: string
  rc_methods :: "string list"
  rc_cacheable_status :: "int list"
  rc_vary :: "string list"
  rc_exempt :: PathExemption
  rc_cacheable :: "(mutation \<Rightarrow> bool) option"
  rc_cache_credentialed :: bool
  rc_credential_headers :: "string list"

text \<open>The constructor; \<open>None\<close> is its \<^verbatim>\<open>ValueError\<close>.\<close>

definition response_cache_init ::
  "bool \<Rightarrow> int \<Rightarrow> int option \<Rightarrow> string option \<Rightarrow> string list \<Rightarrow> int list \<Rightarrow> string list \<Rightarrow> PathExemption \<Rightarrow>
   (mutation \<Rightarrow> bool) option \<Rightarrow> bool \<Rightarrow> string list \<Rightarrow> response_cache option" where
  "response_cache_init has_store ttl max_age cache_control methods status vary exempt cacheable cache_credentialed credential_headers =
     (if ttl \<le> 0 then None
      else case normalize_credential_headers credential_headers of None \<Rightarrow> None | Some hs \<Rightarrow>
        Some \<lparr>rc_has_store = has_store, rc_ttl = ttl,
          rc_cache_control = (case cache_control of Some v \<Rightarrow> v
            | None \<Rightarrow> ''private, max-age='' @ int_str (case max_age of None \<Rightarrow> ttl | Some a \<Rightarrow> a)),
          rc_methods = methods, rc_cacheable_status = status, rc_vary = vary, rc_exempt = exempt, rc_cacheable = cacheable,
          rc_cache_credentialed = cache_credentialed, rc_credential_headers = hs\<rparr>)"

definition compute_etag :: "(string \<Rightarrow> string) \<Rightarrow> string \<Rightarrow> string" where
  "compute_etag sha body = CHR 0x22 # sha body @ [CHR 0x22]"

definition cache_credentials :: "(string \<Rightarrow> string) \<Rightarrow> response_cache \<Rightarrow> mutation \<Rightarrow> string option" where
  "cache_credentials sha m req = credential_digest sha (req_headers req) (rc_credential_headers m)"

definition build_key :: "response_cache \<Rightarrow> mutation \<Rightarrow> string option \<Rightarrow> string" where
  "build_key m req credentials =
     join ''|'' ([mu_method req, req_path req, mu_query req] @
       map (\<lambda>name. name @ ''='' @ (case header_get (req_headers req) name of None \<Rightarrow> [] | Some v \<Rightarrow> v)) (rc_vary m) @
       (case credentials of None \<Rightarrow> [] | Some digest \<Rightarrow> [''cred='' @ digest]))"

definition decorate :: "response_cache \<Rightarrow> (string \<times> string) list \<Rightarrow> string \<Rightarrow> (string \<times> string) list" where
  "decorate m headers etag =
     (let h1 = dict_set ''etag'' etag headers;
          h2 = (if map_of h1 ''cache-control'' = None then dict_set ''cache-control'' (rc_cache_control m) h1 else h1)
      in if rc_vary m \<noteq> [] then dict_set ''vary'' (join '', '' (rc_vary m)) h2 else h2)"

definition not_modified :: "response_cache \<Rightarrow> string \<Rightarrow> built_response" where
  "not_modified m etag = \<lparr>br_content = [], br_status = 304, br_headers = decorate m [] etag, br_media_type = None\<rparr>"

definition contains_text :: "string \<Rightarrow> string \<Rightarrow> bool" where
  "contains_text s part \<longleftrightarrow> list_ex (\<lambda>i. take (length part) (drop i s) = part) [0..<Suc (length s)]"

definition skip_caching :: "handler_response \<Rightarrow> bool" where
  "skip_caching res =
     (let cache_control = lower (case header_get (hr_raw_headers res) ''cache-control'' of None \<Rightarrow> [] | Some v \<Rightarrow> v) in
      if contains_text cache_control ''no-store'' \<or> contains_text cache_control ''private'' then True
      else header_get (hr_raw_headers res) ''set-cookie'' \<noteq> None)"

definition drain_body :: "handler_response \<Rightarrow> string" where
  "drain_body res = concat (hr_chunks res)"

datatype cache_answer = PassedOn handler_response | Answered built_response

definition takes_part :: "response_cache \<Rightarrow> mutation \<Rightarrow> bool" where
  "takes_part m req \<longleftrightarrow> mu_method req \<in> set (rc_methods m) \<and> \<not> exemption_matches (rc_exempt m) (req_path req) \<and>
     (case rc_cacheable m of None \<Rightarrow> True | Some f \<Rightarrow> f req)"

definition uses_store :: "(string \<Rightarrow> string) \<Rightarrow> response_cache \<Rightarrow> mutation \<Rightarrow> bool" where
  "uses_store sha m req \<longleftrightarrow> rc_has_store m \<and> (cache_credentials sha m req = None \<or> rc_cache_credentialed m)"

definition response_key :: "(string \<Rightarrow> string) \<Rightarrow> response_cache \<Rightarrow> mutation \<Rightarrow> string" where
  "response_key sha m req = build_key m req (if rc_cache_credentialed m then cache_credentials sha m req else None)"

definition client_has :: "mutation \<Rightarrow> string \<Rightarrow> bool" where
  "client_has req etag =
     (let if_none_match = header_get (req_headers req) ''if-none-match'' in
      truthy if_none_match \<and> etag_matches (the if_none_match) etag)"

text \<open>The stored response, served again.\<close>

definition serve_cached :: "(string \<Rightarrow> string) \<Rightarrow> response_cache \<Rightarrow> mutation \<Rightarrow> CachedResponse \<Rightarrow> built_response" where
  "serve_cached sha m req cached =
     (let headers = dict_of (cr_headers cached);
          etag = (case map_of headers ''etag'' of Some e \<Rightarrow> e | None \<Rightarrow> compute_etag sha (cr_body cached)) in
      if client_has req etag then not_modified m etag
      else \<lparr>br_content = cr_body cached, br_status = cr_status_code cached,
             br_headers = dict_set ''x-cache'' ''HIT'' (decorate m headers etag), br_media_type = cr_media_type cached\<rparr>)"

definition storable :: "response_cache \<Rightarrow> handler_response \<Rightarrow> bool" where
  "storable m res \<longleftrightarrow> hr_status res \<in> set (rc_cacheable_status m) \<and> \<not> skip_caching res \<and> \<not> is_unbounded_stream res"

definition entry_of :: "(string \<Rightarrow> string) \<Rightarrow> response_cache \<Rightarrow> handler_response \<Rightarrow> CachedResponse" where
  "entry_of sha m res =
     \<lparr>cr_status_code = hr_status res,
      cr_headers = decorate m (dict_of (hr_raw_headers res)) (compute_etag sha (drain_body res)),
      cr_body = drain_body res, cr_media_type = hr_media_type res, cr_fingerprint = []\<rparr>"

text \<open>
  \<open>get\<close> and \<open>put\<close> are the store's, over whatever state \<open>'s\<close> the store and the application share. First the part of
  \<^verbatim>\<open>dispatch\<close> that runs the handler.
\<close>

definition answer_and_store ::
  "(string \<Rightarrow> string) \<Rightarrow> (string \<Rightarrow> CachedResponse \<Rightarrow> int \<Rightarrow> 's \<Rightarrow> 's) \<Rightarrow> (mutation \<Rightarrow> 's \<Rightarrow> handler_response \<times> 's) \<Rightarrow>
   response_cache \<Rightarrow> mutation \<Rightarrow> bool \<Rightarrow> 's \<Rightarrow> cache_answer \<times> 's" where
  "answer_and_store sha put call_next m req stored s =
     (let (res, s2) = call_next req s in
      if \<not> storable m res then (PassedOn res, s2)
      else
        let entry = entry_of sha m res; etag = compute_etag sha (drain_body res);
            s3 = (if stored then put (response_key sha m req) entry (rc_ttl m) s2 else s2) in
        if client_has req etag then (Answered (not_modified m etag), s3)
        else (Answered \<lparr>br_content = drain_body res, br_status = hr_status res,
                br_headers = (if stored then dict_set ''x-cache'' ''MISS'' (cr_headers entry) else cr_headers entry),
                br_media_type = hr_media_type res\<rparr>, s3))"

definition cache_dispatch ::
  "(string \<Rightarrow> string) \<Rightarrow> (string \<Rightarrow> 's \<Rightarrow> CachedResponse option \<times> 's) \<Rightarrow> (string \<Rightarrow> CachedResponse \<Rightarrow> int \<Rightarrow> 's \<Rightarrow> 's) \<Rightarrow>
   (mutation \<Rightarrow> 's \<Rightarrow> handler_response \<times> 's) \<Rightarrow> response_cache \<Rightarrow> mutation \<Rightarrow> 's \<Rightarrow> cache_answer \<times> 's" where
  "cache_dispatch sha get put call_next m req s =
     (if \<not> takes_part m req then (let (res, s1) = call_next req s in (PassedOn res, s1))
      else
        let stored = uses_store sha m req;
            (hit, s1) = (if stored then get (response_key sha m req) s else (None, s)) in
        case hit of
          Some cached \<Rightarrow> (Answered (serve_cached sha m req cached), s1)
        | None \<Rightarrow> answer_and_store sha put call_next m req stored s1)"

subsection \<open>The in-process store\<close>

record memory_cache =
  mc_now :: real
  mc_entries :: "string \<Rightarrow> (real \<times> CachedResponse) option"

definition memory_cache_get ::
  "string \<Rightarrow> 'a memory_cache_scheme \<Rightarrow> CachedResponse option \<times> 'a memory_cache_scheme" where
  "memory_cache_get key s = (case mc_entries s key of
     None \<Rightarrow> (None, s)
   | Some (expires_at, response) \<Rightarrow>
       if expires_at \<le> mc_now s then (None, s\<lparr>mc_entries := (mc_entries s)(key := None)\<rparr>) else (Some response, s))"

definition memory_cache_set ::
  "string \<Rightarrow> CachedResponse \<Rightarrow> int \<Rightarrow> 'a memory_cache_scheme \<Rightarrow> 'a memory_cache_scheme" where
  "memory_cache_set key response ttl_seconds s =
     s\<lparr>mc_entries := (mc_entries s)(key \<mapsto> (mc_now s + of_int ttl_seconds, response))\<rparr>"

subsection \<open>Who shares the store\<close>

text \<open>
  C40. A request with credentials neither reads nor writes what others share. Unless the deployment opted in, the
  middleware answers it exactly as it would without any store, whatever the store holds or does.
\<close>

theorem credentialed_request_bypasses_store:
  assumes "cache_credentials sha m req \<noteq> None" "\<not> rc_cache_credentialed m"
  shows "cache_dispatch sha get put call_next m req s = cache_dispatch sha get' put' call_next (m\<lparr>rc_has_store := False\<rparr>) req s"
proof -
  let ?m = "m\<lparr>rc_has_store := False\<rparr>"
  have decorate: "decorate ?m headers etag = decorate m headers etag" for headers etag by (simp add: decorate_def Let_def)
  have "\<not> uses_store sha m req" "\<not> uses_store sha ?m req" using assms by (simp_all add: uses_store_def)
  moreover have "takes_part ?m req = takes_part m req" by (simp add: takes_part_def)
  moreover have "answer_and_store sha put call_next m req False s = answer_and_store sha put' call_next ?m req False s"
    by (cases "call_next req s") (simp add: answer_and_store_def storable_def entry_of_def not_modified_def decorate Let_def)
  ultimately show ?thesis by (simp add: cache_dispatch_def Let_def)
qed

definition sample_cache :: response_cache where
  "sample_cache = \<lparr>rc_has_store = True, rc_ttl = 60, rc_cache_control = ''private, max-age=60'', rc_methods = [''GET''],
     rc_cacheable_status = [200], rc_vary = [], rc_exempt = \<lparr>pe_exact = [], pe_prefixes = []\<rparr>, rc_cacheable = None,
     rc_cache_credentialed = False, rc_credential_headers = DEFAULT_CREDENTIAL_HEADERS\<rparr>"

definition sample_get :: "(string \<times> string) list \<Rightarrow> mutation" where
  "sample_get hs = \<lparr>req_path = ''/p'', req_headers = hs, req_client = None, mu_method = ''GET'', mu_query = [], mu_body = []\<rparr>"

theorem credentialed_request_bypasses_store_witness:
  "\<forall>get put call_next s. cache_dispatch id get put call_next sample_cache (sample_get [(''x-token'', ''t'')]) s =
     cache_dispatch id get put call_next (sample_cache\<lparr>rc_has_store := False\<rparr>) (sample_get [(''x-token'', ''t'')]) s"
proof (intro allI, rule credentialed_request_bypasses_store)
  show "cache_credentials id sample_cache (sample_get [(''x-token'', ''t'')]) \<noteq> None"
    by (simp add: cache_credentials_def credential_digest_def sample_cache_def sample_get_def DEFAULT_CREDENTIAL_HEADERS_def
      lower_def lower_char_def Let_def)
qed (simp add: sample_cache_def)

subsection \<open>What the cache serves\<close>

text \<open>The application and the store over time, with what the application answered and when.\<close>

record cache_world = memory_cache +
  cw_log :: "(real \<times> mutation \<times> handler_response) list"

definition app_call ::
  "((real \<times> mutation \<times> handler_response) list \<Rightarrow> mutation \<Rightarrow> handler_response) \<Rightarrow> mutation \<Rightarrow> cache_world \<Rightarrow>
   handler_response \<times> cache_world" where
  "app_call answer req w = (let res = answer (cw_log w) req in (res, w\<lparr>cw_log := cw_log w @ [(mc_now w, req, res)]\<rparr>))"

definition cache_request ::
  "(string \<Rightarrow> string) \<Rightarrow> ((real \<times> mutation \<times> handler_response) list \<Rightarrow> mutation \<Rightarrow> handler_response) \<Rightarrow> response_cache \<Rightarrow>
   real \<times> mutation \<Rightarrow> cache_world \<Rightarrow> cache_answer \<times> cache_world" where
  "cache_request sha answer m arrival w =
     cache_dispatch sha memory_cache_get memory_cache_set (app_call answer) m (snd arrival) (w\<lparr>mc_now := fst arrival\<rparr>)"

definition cache_history ::
  "(string \<Rightarrow> string) \<Rightarrow> ((real \<times> mutation \<times> handler_response) list \<Rightarrow> mutation \<Rightarrow> handler_response) \<Rightarrow> response_cache \<Rightarrow>
   (real \<times> mutation) list \<Rightarrow> cache_world" where
  "cache_history sha answer m arrivals =
     fold (\<lambda>a w. snd (cache_request sha answer m a w)) arrivals \<lparr>mc_now = 0, mc_entries = Map.empty, cw_log = []\<rparr>"

definition came_from :: "(string \<Rightarrow> string) \<Rightarrow> response_cache \<Rightarrow> string \<Rightarrow> real \<Rightarrow> CachedResponse \<Rightarrow> real \<times> mutation \<times> handler_response \<Rightarrow> bool" where
  "came_from sha m key expires_at resp call = (case call of (t, req, res) \<Rightarrow>
     key = response_key sha m req \<and> takes_part m req \<and> uses_store sha m req \<and> storable m res \<and>
     resp = entry_of sha m res \<and> expires_at = t + of_int (rc_ttl m))"

definition entries_sound :: "(string \<Rightarrow> string) \<Rightarrow> response_cache \<Rightarrow> cache_world \<Rightarrow> bool" where
  "entries_sound sha m w \<longleftrightarrow>
     (\<forall>key expires_at resp. mc_entries w key = Some (expires_at, resp) \<longrightarrow> (\<exists>call \<in> set (cw_log w). came_from sha m key expires_at resp call))"

lemma memory_cache_get_cases:
  fixes w :: cache_world
  obtains w' where "memory_cache_get key w = (None, w')" "\<And>k e r. mc_entries w' k = Some (e, r) \<Longrightarrow> mc_entries w k = Some (e, r)"
    "mc_now w' = mc_now w" "cw_log w' = cw_log w"
  | expires_at resp where "memory_cache_get key w = (Some resp, w)" "mc_entries w key = Some (expires_at, resp)" "mc_now w < expires_at"
proof (cases "mc_entries w key")
  case None
  then show thesis using that(1) by (simp add: memory_cache_get_def)
next
  case (Some e)
  obtain expires_at resp where e: "e = (expires_at, resp)" by (cases e)
  show thesis
  proof (cases "expires_at \<le> mc_now w")
    case True
    then show thesis using Some e
      by (intro that(1) [of "w\<lparr>mc_entries := (mc_entries w)(key := None)\<rparr>"]) (auto simp: memory_cache_get_def split: if_splits)
  next
    case False
    then show thesis using Some e by (intro that(2)) (auto simp: memory_cache_get_def)
  qed
qed

lemma dict_of_lookup:
  fixes kvs :: "('x \<times> 'y) list"
  assumes "distinct (map fst kvs)"
  shows "map_of (dict_of kvs) = map_of kvs"
proof -
  have gen: "map_of (fold (\<lambda>(k, v). dict_set k v) xs acc) k = (case map_of (rev xs) k of Some v \<Rightarrow> Some v | None \<Rightarrow> map_of acc k)"
    for xs acc :: "('x \<times> 'y) list" and k
    by (induction xs arbitrary: acc) (auto simp: map_of_dict_set map_add_def split: option.splits)
  have "map_of (dict_of kvs) k = map_of (rev kvs) k" for k
    using gen [of kvs "[]" k] by (cases "map_of (rev kvs) k") (simp_all add: dict_of_def)
  moreover have "map_of (rev kvs) = map_of kvs"
    using assms by (intro map_of_inject_set [THEN iffD2]) (simp_all flip: rev_map)
  ultimately show ?thesis by auto
qed

lemma distinct_dict_of:
  fixes kvs :: "('x \<times> 'y) list"
  shows "distinct (map fst (dict_of kvs))"
proof -
  have gen: "distinct (map fst acc) \<Longrightarrow> distinct (map fst (fold (\<lambda>(k, v). dict_set k v) xs acc))" for xs acc :: "('x \<times> 'y) list"
    by (induction xs arbitrary: acc) (auto simp: distinct_dict_set)
  show ?thesis unfolding dict_of_def by (rule gen) simp
qed

lemma entry_etag: "map_of (dict_of (cr_headers (entry_of sha m res))) ''etag'' = Some (compute_etag sha (drain_body res))"
proof -
  let ?etag = "compute_etag sha (drain_body res)"
  have "distinct (map fst (decorate m (dict_of (hr_raw_headers res)) ?etag))"
    by (simp add: decorate_def Let_def distinct_dict_set distinct_dict_of)
  from dict_of_lookup [OF this] show ?thesis by (simp add: entry_of_def decorate_def Let_def map_of_dict_set)
qed

text \<open>How one request is answered: from an earlier answer, or by the application.\<close>

definition answered_from :: "(string \<Rightarrow> string) \<Rightarrow> mutation \<Rightarrow> handler_response \<Rightarrow> built_response \<Rightarrow> bool" where
  "answered_from sha req res b \<longleftrightarrow>
     (if client_has req (compute_etag sha (drain_body res)) then br_status b = 304 \<and> br_content b = []
      else br_status b = hr_status res \<and> br_content b = drain_body res)"

definition fresh_entry_for :: "(string \<Rightarrow> string) \<Rightarrow> response_cache \<Rightarrow> real \<Rightarrow> mutation \<Rightarrow> real \<times> mutation \<times> handler_response \<Rightarrow> bool" where
  "fresh_entry_for sha m now req call = (case call of (t, req0, res0) \<Rightarrow>
     response_key sha m req0 = response_key sha m req \<and> uses_store sha m req \<and> uses_store sha m req0 \<and> storable m res0 \<and>
     now < t + of_int (rc_ttl m))"

lemma cached_from: "answered_from sha req res (serve_cached sha m req (entry_of sha m res))"
  using entry_etag [of sha m res]
  by (simp add: serve_cached_def Let_def answered_from_def not_modified_def) (simp add: entry_of_def)

lemma sound_later: "entries_sound sha m v \<Longrightarrow> entries_sound sha m (v\<lparr>cw_log := cw_log v @ [c]\<rparr>)"
  by (fastforce simp: entries_sound_def)

definition answered_by_app ::
  "(string \<Rightarrow> string) \<Rightarrow> response_cache \<Rightarrow> real \<Rightarrow> mutation \<Rightarrow> handler_response \<Rightarrow> cache_world \<Rightarrow> cache_answer \<Rightarrow> cache_world \<Rightarrow> bool" where
  "answered_by_app sha m now req res w ans w' \<longleftrightarrow> cw_log w' = cw_log w @ [(now, req, res)] \<and>
     (ans = PassedOn res \<or> (\<exists>b. ans = Answered b \<and> storable m res \<and> answered_from sha req res b))"

lemma miss_step:
  assumes "entries_sound sha m v" "mc_now v = now" "takes_part m req"
    and "answer_and_store sha memory_cache_set (app_call answer) m req (uses_store sha m req) v = (ans, w')"
  shows "entries_sound sha m w' \<and> answered_by_app sha m now req (answer (cw_log v) req) v ans w'"
proof -
  let ?res = "answer (cw_log v) req"
  let ?v = "v\<lparr>cw_log := cw_log v @ [(now, req, ?res)]\<rparr>"
  have a: "app_call answer req v = (?res, ?v)" using assms(2) by (simp add: app_call_def Let_def)
  have s: "entries_sound sha m ?v" by (rule sound_later [OF assms(1)])
  have s3: "entries_sound sha m (memory_cache_set (response_key sha m req) (entry_of sha m ?res) (rc_ttl m) ?v)"
    if "storable m ?res" "uses_store sha m req"
    using s that assms(2,3) by (auto simp: entries_sound_def memory_cache_set_def came_from_def)
  have log: "cw_log (memory_cache_set k e t ?v) = cw_log ?v" for k e t by (simp add: memory_cache_set_def)
  show ?thesis
  proof (cases "storable m ?res")
    case False
    with assms(4) s show ?thesis by (auto simp: answer_and_store_def a answered_by_app_def)
  next
    case True
    let ?w = "if uses_store sha m req then memory_cache_set (response_key sha m req) (entry_of sha m ?res) (rc_ttl m) ?v else ?v"
    from assms(4) True have "w' = ?w" "\<exists>b. ans = Answered b \<and> answered_from sha req ?res b"
      by (auto simp: answer_and_store_def a Let_def answered_from_def not_modified_def split: if_splits)
    with s s3 [OF True] log True show ?thesis by (auto simp: answered_by_app_def)
  qed
qed

lemma cache_request_step:
  assumes "entries_sound sha m w" "cache_request sha answer m (now, req) w = (ans, w')"
  shows "entries_sound sha m w' \<and>
    ((cw_log w' = cw_log w \<and> (\<exists>call b. call \<in> set (cw_log w) \<and> fresh_entry_for sha m now req call \<and>
        ans = Answered b \<and> answered_from sha req (snd (snd call)) b)) \<or>
     answered_by_app sha m now req (answer (cw_log w) req) w ans w')"
proof -
  let ?w = "w\<lparr>mc_now := now\<rparr>"
  have sound: "entries_sound sha m ?w" using assms(1) by (simp add: entries_sound_def)
  have same: "answered_by_app sha m now req res v ans w' = answered_by_app sha m now req res w ans w'" if "cw_log v = cw_log w" for v res
    using that by (simp add: answered_by_app_def)
  show ?thesis
  proof (cases "takes_part m req")
    case False
    then have "ans = PassedOn (answer (cw_log w) req)" "w' = ?w\<lparr>cw_log := cw_log ?w @ [(now, req, answer (cw_log w) req)]\<rparr>"
      using assms(2) by (simp_all add: cache_request_def cache_dispatch_def app_call_def Let_def)
    with sound_later [OF sound] show ?thesis by (simp add: answered_by_app_def)
  next
    case part: True
    show ?thesis
    proof (cases "uses_store sha m req")
      case False
      with part assms(2) miss_step [OF sound refl part, of answer ans w'] same [of ?w] show ?thesis
        by (simp add: cache_request_def cache_dispatch_def)
    next
      case True
      show ?thesis
      proof (cases rule: memory_cache_get_cases [of "response_key sha m req" ?w])
        case (1 v)
        with sound have "entries_sound sha m v" unfolding entries_sound_def by metis
        from miss_step [OF this _ part, of now answer ans w'] 1 part True assms(2) same [of v] show ?thesis
          by (simp add: cache_request_def cache_dispatch_def)
      next
        case (2 expires_at resp)
        then have d: "ans = Answered (serve_cached sha m req resp)" "w' = ?w"
          using assms(2) part True by (simp_all add: cache_request_def cache_dispatch_def)
        from sound 2(2) obtain t req0 res0
          where c: "(t, req0, res0) \<in> set (cw_log w)" "came_from sha m (response_key sha m req) expires_at resp (t, req0, res0)"
          by (fastforce simp: entries_sound_def)
        then have "fresh_entry_for sha m now req (t, req0, res0)" "resp = entry_of sha m res0"
          using True 2(3) by (simp_all add: came_from_def fresh_entry_for_def)
        with c(1) d sound cached_from [of sha req res0 m] show ?thesis by force
      qed
    qed
  qed
qed

lemma history_sound: "entries_sound sha m (cache_history sha answer m arrivals)"
proof -
  have "entries_sound sha m (fold (\<lambda>a w. snd (cache_request sha answer m a w)) arrivals w)" if "entries_sound sha m w" for w
    using that
  proof (induction arrivals arbitrary: w)
    case (Cons a arrivals)
    obtain ans w' where "cache_request sha answer m (fst a, snd a) w = (ans, w')" by (cases "cache_request sha answer m (fst a, snd a) w")
    with cache_request_step [OF Cons.prems this] Cons.IH [of w'] show ?case by simp
  qed simp
  then show ?thesis by (simp add: cache_history_def entries_sound_def)
qed

text \<open>
  C39. Whatever requests came before, the cache invents and leaks nothing. A request is either answered by the
  application, with the body and status of its answer (or 304 when the client already has exactly that body), or, without
  running the application, from an answer that the application gave less than the lifetime ago to a request with the
  same key; and then neither request carried credentials (unless the deployment opted in), and the answer was one
  that may be stored: of a cacheable status, no cookie, neither private nor \<^verbatim>\<open>no-store\<close>, no stream.
\<close>

theorem cached_answer_is_an_earlier_one:
  "\<exists>ans w'. cache_request sha answer m (now, req) (cache_history sha answer m arrivals) = (ans, w') \<and>
    (answered_by_app sha m now req (answer (cw_log (cache_history sha answer m arrivals)) req) (cache_history sha answer m arrivals) ans w' \<or>
     (cw_log w' = cw_log (cache_history sha answer m arrivals) \<and>
      (\<exists>t req0 res0 b. (t, req0, res0) \<in> set (cw_log w') \<and> now < t + of_int (rc_ttl m) \<and>
        response_key sha m req0 = response_key sha m req \<and>
        (rc_cache_credentialed m \<or> cache_credentials sha m req = None \<and> cache_credentials sha m req0 = None) \<and>
        hr_status res0 \<in> set (rc_cacheable_status m) \<and> \<not> skip_caching res0 \<and> \<not> is_unbounded_stream res0 \<and>
        ans = Answered b \<and> answered_from sha req res0 b)))"
proof -
  let ?w = "cache_history sha answer m arrivals"
  obtain ans w' where r: "cache_request sha answer m (now, req) ?w = (ans, w')" by (cases "cache_request sha answer m (now, req) ?w")
  from cache_request_step [OF history_sound r]
  consider "answered_by_app sha m now req (answer (cw_log ?w) req) ?w ans w'"
    | t req0 res0 b where "cw_log w' = cw_log ?w" "(t, req0, res0) \<in> set (cw_log ?w)" "fresh_entry_for sha m now req (t, req0, res0)"
      "ans = Answered b" "answered_from sha req res0 b" by auto
  then show ?thesis
  proof cases
    case 1
    with r show ?thesis by blast
  next
    case (2 t req0 res0 b)
    then have "now < t + of_int (rc_ttl m)" "response_key sha m req0 = response_key sha m req"
      "rc_cache_credentialed m \<or> cache_credentials sha m req = None \<and> cache_credentials sha m req0 = None"
      "hr_status res0 \<in> set (rc_cacheable_status m)" "\<not> skip_caching res0" "\<not> is_unbounded_stream res0"
      by (auto simp: fresh_entry_for_def uses_store_def storable_def)
    with 2 show ?thesis
      by (intro exI [of _ ans] exI [of _ w'] conjI [OF r] disjI2 [OF conjI [OF 2(1)]] exI [of _ t] exI [of _ req0] exI [of _ res0]
        exI [of _ b]) simp
  qed
qed

text \<open>
  The same key does not mean the same resource: the parts are joined with a bar that path and query may contain, so
  two requests for different paths share one entry.
\<close>

lemma different_paths_share_an_entry:
  "response_key sha sample_cache ((sample_get [])\<lparr>req_path := ''/a'', mu_query := ''x|y''\<rparr>) =
   response_key sha sample_cache ((sample_get [])\<lparr>req_path := ''/a|x'', mu_query := ''y''\<rparr>)"
  by (simp add: response_key_def build_key_def sample_cache_def sample_get_def)

end
