(* ===== verification/Spec2Isabelle.thy ===== *)
theory Spec2Isabelle
  imports Wallet_Money Wallet_Service Throttle Http_Client Rate_Limit Idempotency Permissions
    Dedup Webhook_Inbox Outbox Session_Auth Sse_Broker Polyline Factor_Races Link_Properties
    Progress Stages Scheduler_Lease Storage_Links Response_Cache
begin

text \<open>
  A verification development for \<^verbatim>\<open>tempest_fastapi_sdk\<close>, a library of building blocks for Python web
  services. It models the parts of the library in which a service puts its trust without seeing
  them work: money, transactions, limits on callers, retries against other services, the replay of
  mutations, permissions, tokens, passwords, second factors and mailed links, messages and webhooks that may arrive twice, sessions, streams of events,
  jobs and their scheduler, stored files with their signed links, cached responses and the polyline codec. File names below are relative to \<^verbatim>\<open>src/tempest_fastapi_sdk/\<close>.

  \<^bold>\<open>How the code is rendered.\<close> A Python call that may raise and change a state is a function
  \<open>'s \<Rightarrow> ('e + 'a) \<times> 's\<close> (\<open>action\<close> in \<open>Prelude\<close>): \<open>Inl\<close> is the exception that leaves the call. A dataclass
  or an object's attributes are a record, an enum a datatype, a dict a map or an association list
  in insertion order, an unbounded integer an \<open>int\<close>. Floats (seconds) are exact reals, so rounding
  of floating point is not modelled; strings are ASCII. An \<^verbatim>\<open>async\<close> call runs without interruption
  between two points where it can suspend; where several tasks matter (the throttle's reservations,
  the breaker, the idempotency locks, workers of the outbox and the inbox, deliveries of a message, exchanges
  of refresh tokens, second factors,
  histories of limiters, ledgers, sessions and streams) the interleavings are an inductive relation
  whose reachable states the theorems quantify over. Databases, Redis, \<^verbatim>\<open>httpx\<close>, clocks, token
  decoders, digests, JSON and UTF-8 are arguments; what is relied on of them is a named hypothesis.

  \<^bold>\<open>The theories.\<close>

  \<^item> \<open>Prelude\<close>: the shape of a call, dictionaries, rounding lemmas. \<open>Py_Text\<close>: decimal text and its
    inverse, \<^verbatim>\<open>strip\<close>, \<^verbatim>\<open>lower\<close>, \<^verbatim>\<open>startswith\<close>.
  \<^item> \<open>Transaction\<close> (\<^verbatim>\<open>db/transaction.py\<close>, \<^verbatim>\<open>BaseRepository._commit\<close>): a session is a durable and a working
    database and a depth; \<open>transaction\<close> and \<open>savepoint\<close> run a body on it. Proved: atomicity, re-entrance,
    and that only the outermost block makes anything durable.
  \<^item> \<open>Wallet_Money\<close> (\<^verbatim>\<open>wallet/money.py\<close>): fees and \<open>split_net\<close>. Proved: a split conserves every cent, its
    rounding falls on the residual payee and stays below a cent per other payee, fees are monotone.
  \<^item> \<open>Wallet_Ledger\<close> (\<^verbatim>\<open>wallet/ledger.py\<close>, \<^verbatim>\<open>models.py\<close>, \<^verbatim>\<open>schemas.py\<close>): balances with append-only lines. The
    conditional update of one balance row is \<open>apply_delta\<close>; \<open>credit\<close>, \<open>debit_available\<close> and
    \<open>reverse_credit\<close> run inside \<open>transaction\<close>. Proved: after any history balances are nonnegative and
    equal their lines, a debit succeeds exactly within the available part, racing debits never take
    more than it.
  \<^item> \<open>Wallet_Service\<close> (\<^verbatim>\<open>wallet/service.py\<close>): the claim of a row and \<open>withdraw\<close>, which uses the ledger
    through the locale \<open>ledger_port\<close>, interpreted on the ledger. Proved: the money is durably debited
    before the provider is called, and refunded exactly when the provider refused.
  \<^item> \<open>Throttle\<close> (\<^verbatim>\<open>utils/throttle.py\<close>): attempt counting over a backend of verbs (locale
    \<open>throttle_verbs\<close>, interpreted on the in-memory backend). Proved: concurrent reservations admit at
    most the budget, the window's behaviour, and that failing open never raises.
  \<^item> \<open>Retry\<close> (\<^verbatim>\<open>utils/retry.py\<close>): the backoff curve and the retry loop. \<open>sleep_for\<close> is \<open>None\<close> where Python
    raises \<^verbatim>\<open>OverflowError\<close> (from attempt 1025 on), so its theorems ask for at most 1024 attempts.
  \<^item> \<open>Http_Client\<close> (\<^verbatim>\<open>utils/http_client.py\<close>), on top of \<open>Retry\<close>: the request loop, the streams and the
    breaker of each host over a \<open>transport\<close>; what a call did to the outside is the trace of its state.
    Proved: the exchanges of a request, that a stream never replays a piece, what the breaker
    counts and rejects, that a drained body is sent once.
  \<^item> \<open>Request\<close> (\<^verbatim>\<open>utils/client_ip.py\<close>, \<^verbatim>\<open>_exempt.py\<close>, \<^verbatim>\<open>_bearer_token\<close>): what the limiters read of a request.
  \<^item> \<open>Quota\<close> (\<^verbatim>\<open>api/middlewares/quota.py\<close>): window and bucket rules, the two-phase \<open>quota_consume\<close> with
    the sweep of idle keys, plan policies. Each rule key owns a cell of the store
    (\<open>window_cell\<close>, \<open>bucket_cell\<close>), whose invariant says what it remembers of the admitted calls.
    Proved: no rule is ever exceeded, a refusal changes no later verdict, its waiting time suffices.
  \<^item> \<open>Rate_Limit\<close> (\<^verbatim>\<open>api/middlewares/rate_limit.py\<close>), on top of \<open>Quota\<close>: the sliding-window stores, the key
    functions and the middleware. The locales \<open>rate_store\<close> and \<open>quota_port\<close> state what a store
    promises, \<open>limiter\<close> extends both; they are interpreted on the in-process stores, \<open>rate_store\<close> also on
    the Redis store for any reply. Proved: the window bound, that the store agrees with a window
    rule of \<open>Quota\<close>, that a refused request never reaches the handler.
  \<^item> \<open>Idempotency\<close> (\<^verbatim>\<open>api/middlewares/idempotency.py\<close>, \<^verbatim>\<open>_credentials.py\<close>, \<^verbatim>\<open>_streaming.py\<close>): the cache key and
    fingerprint, one dispatch over a store (locale \<open>idem_store\<close>, interpreted on the in-process one), and
    the tasks of a process with the locks of \<^verbatim>\<open>asyncio\<close> (\<open>idem_proc\<close>, whose locks can be woken but not yet
    retaken). Proved: replay, isolation of callers, one handler per key when responses are stored, and
    that two handlers can run when they are not.
  \<^item> \<open>Permissions\<close> (\<^verbatim>\<open>authz/permissions.py\<close>): the rule registry and the resolution of a permission, against
    a closed formula.

  \<^item> \<open>Redis\<close>: the commands the stores send, as a client that is an argument. \<open>redis_contract\<close> is what the
    Redis documentation says of them (a view of the client's state as a keyspace with expiries), and
    \<open>keyspace_redis\<close> is a client that satisfies it.
  \<^item> \<open>Dedup\<close> (\<^verbatim>\<open>queue/dedup.py\<close>): the stores of processed message ids and the subscriber that consults
    them. The locale \<open>dedup_laws\<close> is the contract of a store, interpreted on the in-memory and on the
    Redis store. Proved: both refine a set of claims with expiries, at most one delivery of an id runs
    the handler while its claim lasts, and what a redelivery finds follows the outcome of the first.
  \<^item> \<open>Webhook_Inbox\<close> (\<^verbatim>\<open>db/webhook_inbox.py\<close>): recording, claiming, processing and sweeping of inbound
    events; \<open>inbox_reach\<close> interleaves workers over the table. Proved: the effect of an event happens
    once, and repeated sweeps finish every event or give it up at its last attempt.
  \<^item> \<open>Outbox\<close> (\<^verbatim>\<open>db/outbox.py\<close>, \<^verbatim>\<open>BaseRepository.save_with_outbox\<close>): events committed with their row and
    relayed under row locks; \<open>outbox_reach\<close> interleaves relays. Proved: an event exists exactly when its
    row does, no event is lost, and a working broker clears the backlog in order.
  \<^item> \<open>Session_Store\<close>, \<open>Session_Auth\<close> (\<^verbatim>\<open>sessions/\<close>): the two session stores (locale \<open>session_laws\<close>), the
    life of a session and the authentication of a request. Proved: a revoked session stays dead,
    revoking a user's sessions is complete in process, when a session dies, and that on Redis the
    index of a user can forget a session that is still alive.
  \<^item> \<open>Sse_Frame\<close>, \<open>Sse_Broker\<close> (\<^verbatim>\<open>sse/\<close>): the wire format against the parser of the event-stream
    standard, the bounded queue of one connection, the registry of channels and the bridge over Redis
    pub/sub. Proved: a browser receives the event that was sent, every event is delivered,
    waiting or counted as dropped, a publication reaches exactly the channel's subscribers, and where
    the two transports differ.
  \<^item> \<open>Polyline\<close> (\<^verbatim>\<open>geo/polyline.py\<close>): the codec over exact reals; decoding inverts encoding up to
    the rounding to the precision.
  \<^item> \<open>Token_Types\<close> (\<^verbatim>\<open>utils/token_types.py\<close>, \<^verbatim>\<open>utils/jwt.py\<close>, \<^verbatim>\<open>api/dependencies/auth.py\<close>, the issuing half of
    \<^verbatim>\<open>auth/service.py\<close>): the claims of access, refresh and between-the-steps tokens over PyJWT, which is
    an argument with a contract (a decoded token was encoded with the secret and is not expired).
    Proved: no kind of token passes for another, and a refresh never adds a second factor.
  \<^item> \<open>Refresh_Tokens\<close> (opaque refresh tokens of \<^verbatim>\<open>auth/service.py\<close>): one exchange and its errors, and
    \<open>refresh_reach\<close>, the logins, exchanges, replays and revocations at once. Proved: a family has at
    most one live token, a revoked family stays dead, and the revocation that misses an exchange.
  \<^item> \<open>Passwords\<close> (\<^verbatim>\<open>utils/password.py\<close>): the policy, and a generator that satisfies it.
  \<^item> \<open>Accounts\<close> (\<^verbatim>\<open>auth/service.py\<close>, \<^verbatim>\<open>auth/_login_flow.py\<close>): the tables of a service, its settings and mail,
    login and change of password under the throttles of \<open>Throttle\<close>.
  \<^item> \<open>Second_Factor\<close> (\<^verbatim>\<open>auth/service.py\<close>, \<^verbatim>\<open>utils/totp.py\<close>): enrolling, proving and removing a second
    factor. Proved: it leaves only by its own proof. \<open>Factor_Races\<close> adds guessing (a lemma of the locale
    \<open>throttle_verbs\<close>), codes presented at once (\<open>totp_reach\<close>) and the recovery codes (\<open>recovery_reach\<close>),
    of which one can be accepted twice.
  \<^item> \<open>Email_Links\<close> (\<^verbatim>\<open>auth/service.py\<close>, \<^verbatim>\<open>db/user_model.py\<close>): sign-up, activation, reset, change,
    verification and recovery by mailed links. Every request refines \<open>link_move\<close>, seven moves of
    accounts, links and mail; \<open>Link_Properties\<close> proves its invariants on those: proofs of mailboxes, links
    that open once, and what a reset and a request without login do.

  \<^item> \<open>Jobs\<close> (\<^verbatim>\<open>tasks/jobs.py\<close>, \<^verbatim>\<open>tasks/cancellation.py\<close>): long work as rows, each call one conditional update, so a
    history is a list of calls; every call is \<open>lawful\<close> row by row. Proved: what holds of a row for good, that a
    job is handed out once between sweeps, that sweeping ends every job, what a watch shows, and that a
    worker whose job was reclaimed can still close it. \<open>Progress\<close> (\<^verbatim>\<open>tasks/progress.py\<close>) tracks phases through the
    locale \<open>progress_sink\<close>, interpreted on the job store: a running phase never fills. \<open>Stages\<close>
    (\<^verbatim>\<open>tasks/stages.py\<close>) keeps stages on the columns of a record.
  \<^item> \<open>Scheduler_Lease\<close> (\<^verbatim>\<open>tasks/lock.py\<close>, the supervisor of \<^verbatim>\<open>tasks/queue.py\<close>): replicas electing the one that runs
    the schedule. The lock of \<^verbatim>\<open>redis-py\<close> is a parameter, the locale \<open>lease_key\<close> its contract, interpreted on a
    Redis key whose replies can be lost. Proved: at most one replica with a young lease runs the loop,
    who takes over, and the two ways in which an exception breaks the election.
  \<^item> \<open>Url_Text\<close>: splitting on a character, percent-encoding, URL-safe base64, decimal digits. \<open>Signed_Url\<close>
    (\<^verbatim>\<open>utils/signed_url.py\<close>, \<^verbatim>\<open>api/dependencies/signed_url.py\<close>): signing and verifying a path; a signature opens
    exactly what it was made for, and a link works until it expires.
  \<^item> \<open>Http_Cache\<close> (\<^verbatim>\<open>utils/_http_cache.py\<close>): validators and byte ranges. \<open>Downloads\<close> (\<^verbatim>\<open>utils/download.py\<close>,
    \<^verbatim>\<open>utils/media_types.py\<close>, \<^verbatim>\<open>storage/_download.py\<close>): the content disposition, the security headers and the answer to a
    download, for every store that meets the locale \<open>downloadable_store\<close> (its size is the size, its windows are the
    windows of its content).
  \<^item> \<open>Local_Storage\<close> (\<^verbatim>\<open>storage/local_client.py\<close>): a disk of files and directories with the errors of POSIX, and every
    operation of the client on it. \<open>Local_Contents\<close>: the paths of names, the invariant of the disk (every object has its
    metadata and its digest, nothing stands in the way of a metadata file), its preservation by every operation, and the
    interpretation of \<open>downloadable_store\<close>. \<open>Stored_Objects\<close>: the properties. \<open>Storage_Links\<close> (the signed links,
    \<^verbatim>\<open>storage/presign.py\<close>, \<^verbatim>\<open>storage/local_router.py\<close>): what a link covers and what the routes can write. Reading in
    chunks is a function whose measure is what is left of the file; removing empty directories climbs a path that gets
    shorter.
  \<^item> \<open>Response_Cache\<close> (\<^verbatim>\<open>api/middlewares/response_cache.py\<close>): the middleware over a store given by its two
    operations, the in-process store, and a history of requests with what the application answered.

  \<^bold>\<open>Termination.\<close> Every definition is total; the retry loops recurse on the attempts left. There is
  no fuel. A raise, an assertion that fails and a missing key are values of the result.

  \<^bold>\<open>Not modelled.\<close> The Redis quota script, the Redis encodings of the idempotency and response stores, the statement
  of the ledger, the parsers of IP addresses and of HTTP dates (arguments of the definitions that use them), logging.
  Of the local store, symbolic links, permissions, full disks and the names of temporary files; the MinIO client wraps
  another library. Of the rest of the library, cron expressions and the settlement of payments are text
  tables and calls to providers; OAuth and passkeys stay with their providers; the administration site,
  the code generators, the document renderers, the user interface and the model adapters are wrappers of other libraries
  and stay outside.
\<close>

end
